(* ===== verification/Prelude.thy ===== *)
theory Prelude
  imports Main "HOL-Library.Word" "HOL-Library.AList"
begin

text \<open>
  What every component of the model shares: the machine types of the Go source, the big-endian
  encoders of \<^verbatim>\<open>encoding/binary\<close>, a byte reader in the style of \<^verbatim>\<open>io.Reader\<close>, the error values of
  \<^verbatim>\<open>io\<close>, and the generic lemmas on lists and words the component theories use. It also holds the
  interface of a self-delimiting message format (locale \<open>codec\<close>), which the frame layer and the
  hysteria messages both provide.
\<close>

section \<open>Machine types\<close>

type_synonym byte = "8 word"
type_synonym bytes = "8 word list"
type_synonym u16 = "16 word"
type_synonym u32 = "32 word"
type_synonym u64 = "64 word"

named_theorems wire \<comment> \<open>decoders applied to what the encoders produce\<close>
named_theorems cfg_defs \<comment> \<open>constants of the source, unfolded to numerals\<close>

section \<open>Words\<close>

lemma unat_of_nat_small:
  "n < 2 ^ LENGTH('a) \<Longrightarrow> unat (word_of_nat n :: 'a::len word) = n"
  by (simp add: unat_of_nat take_bit_nat_eq_self)

lemma unat_u64_lt [simp]: "unat (x :: u64) < 18446744073709551616"
  using unsigned_less [of x] by simp

lemma unat_u32_lt [simp]: "unat (x :: u32) < 4294967296"
  using unsigned_less [of x] by simp

lemma unat_u16_lt [simp]: "unat (x :: u16) < 65536"
  using unsigned_less [of x] by simp

lemma unat_u8_lt [simp]: "unat (x :: byte) < 256"
  using unsigned_less [of x] by simp

lemma unat_add_no_wrap:
  fixes a b :: "'a::len word"
  assumes "unat a + unat b < 2 ^ LENGTH('a)"
  shows "unat (a + b) = unat a + unat b"
  using assms by (simp add: unat_word_ariths)

lemma unat_add_nat_no_wrap:
  fixes a :: "'a::len word"
  assumes "unat a + n < 2 ^ LENGTH('a)"
  shows "unat (a + word_of_nat n) = unat a + n"
  using assms by (simp add: unat_word_ariths unat_of_nat take_bit_nat_eq_self)

lemma unat_sub_no_wrap:
  fixes a b :: "'a::len word"
  assumes "b \<le> a"
  shows "unat (a - b) = unat a - unat b"
  using assms by (simp add: unat_sub)

lemma word_of_nat_unat: "unat w = n \<Longrightarrow> word_of_nat n = (w :: 'a::len word)"
  by auto

section \<open>Big-endian integers (encoding/binary)\<close>

text \<open>\<open>be_put n v\<close> is the low \<open>n\<close> bytes of \<open>v\<close>, most significant first.\<close>

fun be_put :: "nat \<Rightarrow> nat \<Rightarrow> bytes" where
  "be_put 0 v = []"
| "be_put (Suc n) v = word_of_nat (v div 256 ^ n) # be_put n v"

fun be_get :: "bytes \<Rightarrow> nat" where
  "be_get [] = 0"
| "be_get (b # bs) = unat b * 256 ^ length bs + be_get bs"

lemma length_be_put [simp]: "length (be_put n v) = n"
  by (induction n) auto

lemma be_put_eq_Nil [simp]: "be_put n v = [] \<longleftrightarrow> n = 0"
  by (cases n) auto

lemma unat_byte_of_nat: "unat (word_of_nat v :: byte) = v mod 256"
  by (simp add: unat_of_nat take_bit_eq_mod)

lemma be_get_put [simp]: "be_get (be_put n v) = v mod 256 ^ n"
proof (induction n)
  case 0
  then show ?case by simp
next
  case (Suc n)
  have "v mod 256 ^ Suc n = 256 ^ n * (v div 256 ^ n mod 256) + v mod 256 ^ n"
    using mod_mult2_eq [of v "256 ^ n" 256] by (simp add: mult.commute)
  with Suc show ?case
    by (simp add: unat_byte_of_nat mult.commute)
qed

lemma be_get_lt: "be_get bs < 256 ^ length bs"
proof (induction bs)
  case Nil
  then show ?case by simp
next
  case (Cons b bs)
  let ?P = "256 ^ length bs :: nat"
  have "unat b * ?P + be_get bs < unat b * ?P + ?P"
    using Cons by simp
  also have "\<dots> = (unat b + 1) * ?P"
    by simp
  also have "\<dots> \<le> 256 * ?P"
    using unat_u8_lt [of b] by (intro mult_le_mono1) linarith
  finally show ?case by simp
qed

lemma be_put_cong_mod: "be_put n (v + k * 256 ^ n) = be_put n v"
proof (induction n arbitrary: k)
  case 0
  then show ?case by simp
next
  case (Suc n)
  have "(v + k * 256 ^ Suc n) div 256 ^ n = v div 256 ^ n + k * 256"
    using div_mult_self1 [of "256 ^ n" v "k * 256"] by (simp add: mult.assoc)
  moreover have "(word_of_nat (v div 256 ^ n + k * 256) :: byte) = word_of_nat (v div 256 ^ n)"
    by (simp only: word_unat_eq_iff unat_byte_of_nat mod_mult_self1)
  moreover have "be_put n (v + k * 256 ^ Suc n) = be_put n v"
    using Suc [of "k * 256"] by (simp add: mult.assoc mult.commute mult.left_commute)
  ultimately show ?case by simp
qed

lemma be_put_get: "be_put (length bs) (be_get bs) = bs"
proof (induction bs)
  case Nil
  then show ?case by simp
next
  case (Cons b bs)
  have "(unat b * 256 ^ length bs + be_get bs) div 256 ^ length bs = unat b"
    using be_get_lt [of bs] by (simp add: div_add1_eq)
  moreover have "be_put (length bs) (be_get bs + unat b * 256 ^ length bs) = bs"
    using Cons by (simp only: be_put_cong_mod)
  ultimately show ?case by (simp add: add.commute)
qed

lemma be_put_get_len: "length bs = n \<Longrightarrow> be_put n (be_get bs) = bs"
  using be_put_get by blast

definition put_u16 :: "u16 \<Rightarrow> bytes" where "put_u16 w = be_put 2 (unat w)"
definition put_u32 :: "u32 \<Rightarrow> bytes" where "put_u32 w = be_put 4 (unat w)"
definition put_u64 :: "u64 \<Rightarrow> bytes" where "put_u64 w = be_put 8 (unat w)"

definition get_u16 :: "bytes \<Rightarrow> u16" where "get_u16 bs = word_of_nat (be_get (take 2 bs))"
definition get_u32 :: "bytes \<Rightarrow> u32" where "get_u32 bs = word_of_nat (be_get (take 4 bs))"
definition get_u64 :: "bytes \<Rightarrow> u64" where "get_u64 bs = word_of_nat (be_get (take 8 bs))"

lemma length_put [simp]:
  "length (put_u16 a) = 2" "length (put_u32 b) = 4" "length (put_u64 c) = 8"
  by (simp_all add: put_u16_def put_u32_def put_u64_def)

lemma get_put_u16 [wire, simp]: "get_u16 (put_u16 w @ rest) = w"
  by (simp add: get_u16_def put_u16_def)

lemma get_put_u32 [wire, simp]: "get_u32 (put_u32 w @ rest) = w"
  by (simp add: get_u32_def put_u32_def)

lemma get_put_u64 [wire, simp]: "get_u64 (put_u64 w @ rest) = w"
  by (simp add: get_u64_def put_u64_def)

lemma get_put_u16' [wire, simp]: "get_u16 (put_u16 w) = w"
  using get_put_u16 [of w "[]"] by simp

lemma get_put_u32' [wire, simp]: "get_u32 (put_u32 w) = w"
  using get_put_u32 [of w "[]"] by simp

lemma get_put_u64' [wire, simp]: "get_u64 (put_u64 w) = w"
  using get_put_u64 [of w "[]"] by simp

lemma put_get_u16: "length bs = 2 \<Longrightarrow> put_u16 (get_u16 bs) = bs"
  using be_get_lt [of bs]
  by (simp add: get_u16_def put_u16_def unat_of_nat_small be_put_get_len)

lemma put_get_u32: "length bs = 4 \<Longrightarrow> put_u32 (get_u32 bs) = bs"
  using be_get_lt [of bs]
  by (simp add: get_u32_def put_u32_def unat_of_nat_small be_put_get_len)

lemma put_get_u64: "length bs = 8 \<Longrightarrow> put_u64 (get_u64 bs) = bs"
  using be_get_lt [of bs]
  by (simp add: get_u64_def put_u64_def unat_of_nat_small be_put_get_len)

section \<open>Slices and readers\<close>

text \<open>The Go slice expression \<^verbatim>\<open>bs[i:j]\<close>, for \<open>i \<le> j \<le> len(bs)\<close>.\<close>

definition slice :: "nat \<Rightarrow> nat \<Rightarrow> 'a list \<Rightarrow> 'a list" where
  "slice i j xs = take (j - i) (drop i xs)"

lemma length_slice [simp]: "j \<le> length xs \<Longrightarrow> length (slice i j xs) = j - i"
  by (simp add: slice_def)

lemma slice_split: "i \<le> j \<Longrightarrow> slice i j xs @ drop j xs = drop i xs"
  unfolding slice_def by (metis append_take_drop_id drop_drop le_add_diff_inverse2)

text \<open>Consecutive slices of one length, the last one cut at the end, put together.\<close>

lemma concat_slices:
  "concat (map (\<lambda>i. slice (i * l) (min ((i + 1) * l) (length f)) f) [0..<n]) = take (n * l) f"
proof (induction n)
  case (Suc n)
  have "slice (n * l) (min (l + n * l) (length f)) f = take l (drop (n * l) f)"
    by (simp add: slice_def min_def diff_le_mono)
  then show ?case using Suc by (simp add: take_add [symmetric] add.commute)
qed simp

text \<open>\<^verbatim>\<open>copy(dst[i:], src)\<close>.\<close>

definition copy_at :: "nat \<Rightarrow> 'a list \<Rightarrow> 'a list \<Rightarrow> 'a list" where
  "copy_at i src dst = take i dst @ take (length dst - i) src @ drop (i + length src) dst"

lemma copy_at_append: "n = length a \<Longrightarrow> length x = length bs \<Longrightarrow> copy_at n bs (a @ x @ y) = a @ bs @ y"
  by (simp add: copy_at_def)

datatype io_error = EOF | UnexpectedEOF | ShortBuffer | ShortWrite

text \<open>\<^verbatim>\<open>io.ReadFull\<close>: all \<open>n\<close> bytes, or \<open>EOF\<close> when there was none and \<open>UnexpectedEOF\<close> when
  some were read.\<close>

definition read_full :: "nat \<Rightarrow> bytes \<Rightarrow> io_error + bytes \<times> bytes" where
  "read_full n bs =
     (if n \<le> length bs then Inr (take n bs, drop n bs)
      else if bs = [] then Inl EOF else Inl UnexpectedEOF)"

lemma read_full_append [wire, simp]:
  "length xs = n \<Longrightarrow> read_full n (xs @ rest) = Inr (xs, rest)"
  by (auto simp: read_full_def)

lemma read_full_InrE:
  assumes "read_full n bs = Inr (xs, rest)"
  obtains "bs = xs @ rest" and "length xs = n"
  using assms by (auto simp: read_full_def split: if_splits)

lemma read_full_short: "length bs < n \<Longrightarrow> \<exists>e. read_full n bs = Inl e"
  by (auto simp: read_full_def)

text \<open>A Go \<^verbatim>\<open>panic\<close>, with what caused it.\<close>

datatype panic = Panic string

text \<open>Sequencing of fallible steps: the \<^verbatim>\<open>if err != nil { return err }\<close> of the source.\<close>

fun and_then :: "'e + 'a \<Rightarrow> ('a \<Rightarrow> 'e + 'b) \<Rightarrow> 'e + 'b" where
  "and_then (Inl e) f = Inl e"
| "and_then (Inr x) f = f x"

lemma and_then_eq_Inr:
  "and_then m f = Inr y \<longleftrightarrow> (\<exists>x. m = Inr x \<and> f x = Inr y)"
  by (cases m) auto

lemma and_then_eq_Inl:
  "and_then m f = Inl e \<longleftrightarrow> m = Inl e \<or> (\<exists>x. m = Inr x \<and> f x = Inl e)"
  by (cases m) auto

lemma and_then_Inr_right [simp]: "and_then m Inr = m"
  by (cases m) auto

fun map_err :: "('e \<Rightarrow> 'f) \<Rightarrow> 'e + 'a \<Rightarrow> 'f + 'a" where
  "map_err f (Inl e) = Inl (f e)"
| "map_err f (Inr x) = Inr x"

lemma map_err_eq_Inr [simp]: "map_err f m = Inr y \<longleftrightarrow> m = Inr y"
  by (cases m) auto

section \<open>Self-delimiting messages\<close>

text \<open>
  A message format whose decoder reads exactly what its encoder wrote and leaves the rest of the
  stream. Everything a receiver of a byte stream relies on follows from the one law.
\<close>

locale codec =
  fixes ok :: "'a \<Rightarrow> bool"
    and enc :: "'a \<Rightarrow> bytes"
    and dec :: "bytes \<Rightarrow> 'e + 'a \<times> bytes"
  assumes dec_enc: "ok x \<Longrightarrow> dec (enc x @ rest) = Inr (x, rest)"
begin

lemma prefix_free:
  assumes "ok x" and "ok y" and "enc x @ r = enc y @ s"
  shows "x = y \<and> r = s"
proof -
  have "dec (enc y @ s) = Inr (x, r)"
    unfolding assms(3) [symmetric] by (rule dec_enc [OF assms(1)])
  with dec_enc [OF assms(2), of s] show ?thesis by simp
qed

lemma enc_inj: "inj_on enc {x. ok x}"
proof (rule inj_onI)
  fix x y
  assume "x \<in> {x. ok x}" "y \<in> {x. ok x}" "enc x = enc y"
  then show "x = y" using prefix_free [of x y "[]" "[]"] by simp
qed

end

text \<open>Reading messages off a stream one after another, \<open>n\<close> of them.\<close>

fun read_many :: "(bytes \<Rightarrow> 'e + 'a \<times> bytes) \<Rightarrow> nat \<Rightarrow> bytes \<Rightarrow> 'e + 'a list \<times> bytes" where
  "read_many d 0 bs = Inr ([], bs)"
| "read_many d (Suc n) bs =
     and_then (d bs) (\<lambda>(x, r). and_then (read_many d n r) (\<lambda>(xs, r'). Inr (x # xs, r')))"

context codec begin

lemma read_many_enc:
  "list_all ok xs \<Longrightarrow> read_many dec (length xs) (concat (map enc xs) @ rest) = Inr (xs, rest)"
  by (induction xs) (auto simp: dec_enc)

end

section \<open>Lists\<close>

lemma take_list_update_eq [simp]: "n \<le> i \<Longrightarrow> take n (xs[i := x]) = take n xs"
  by (rule take_update_cancel)

lemma sum_list_remove1_nat:
  fixes f :: "'a \<Rightarrow> nat"
  assumes "x \<in> set xs"
  shows "sum_list (map f (remove1 x xs)) + f x = sum_list (map f xs)"
  using assms by (induction xs) auto

section \<open>Association lists\<close>

lemma delete_absent: "map_of al k = None \<Longrightarrow> AList.delete k al = al"
  by (induction al) (auto simp: delete_simps split: if_splits)

text \<open>The total of a measure over the entries of a map with distinct keys.\<close>

lemma sum_list_alist_split:
  fixes g :: "'k \<times> 'v \<Rightarrow> 'a::comm_monoid_add"
  shows "distinct (map fst al) \<Longrightarrow> map_of al k = Some v \<Longrightarrow>
     sum_list (map g al) = g (k, v) + sum_list (map g (AList.delete k al))"
proof (induction al)
  case Nil
  then show ?case by simp
next
  case (Cons p al)
  obtain k' v' where p: "p = (k', v')" by (cases p)
  show ?case
  proof (cases "k' = k")
    case True
    then have "AList.delete k al = al"
      using Cons.prems(1) p by (intro delete_absent) (auto simp: map_of_eq_None_iff)
    then show ?thesis using True Cons.prems p by (simp add: delete_simps)
  next
    case False
    then show ?thesis using Cons p by (simp add: delete_simps add.left_commute)
  qed
qed

lemma map_of_update_split:
  "AList.delete k (AList.update k v al) = AList.delete k al"
  by (induction al) (auto simp: delete_simps)

lemma sum_list_alist_update:
  fixes g :: "'k \<times> 'v \<Rightarrow> 'a::comm_monoid_add"
  assumes "distinct (map fst al)"
  shows "sum_list (map g (AList.update k v al)) = g (k, v) + sum_list (map g (AList.delete k al))"
  using sum_list_alist_split [OF distinct_update [OF assms], of k v k v g]
  by (simp add: map_of_update_split update_conv')

lemma map_of_eq_set:
  "distinct (map fst al) \<Longrightarrow> (k, v) \<in> set al \<longleftrightarrow> map_of al k = Some v"
  by (auto dest: map_of_SomeD)

lemma delete_notin: "k \<notin> fst ` set al \<Longrightarrow> AList.delete k al = al"
  by (induction al) (auto simp: delete_simps)

lemma set_update_present:
  assumes "distinct (map fst al)"
  shows "set (AList.update k v al) = insert (k, v) (set (AList.delete k al))"
  using assms by (induction al) (auto simp: delete_simps delete_notin)

section \<open>Finite ledgers\<close>

text \<open>The total of a function that is zero almost everywhere, under an update at one point.\<close>

lemma support_upd_finite:
  "finite {t. f t \<noteq> (0::int)} \<Longrightarrow> finite {t. (f(x := v)) t \<noteq> 0}"
  by (rule finite_subset [of _ "insert x {t. f t \<noteq> 0}"]) auto

lemma sum_support_upd:
  fixes f :: "'a \<Rightarrow> int"
  assumes "finite {t. f t \<noteq> 0}"
  shows "(\<Sum>t\<in>{t. (f(x := v)) t \<noteq> 0}. (f(x := v)) t) = (\<Sum>t\<in>{t. f t \<noteq> 0}. f t) - f x + v"
proof -
  let ?S = "insert x {t. f t \<noteq> 0}"
  have "(\<Sum>t\<in>{t. (f(x := v)) t \<noteq> 0}. (f(x := v)) t) = (\<Sum>t\<in>?S. (f(x := v)) t)"
    using assms by (intro sum.mono_neutral_left) auto
  also have "\<dots> = v + (\<Sum>t\<in>?S - {x}. f t)"
    using assms by (subst sum.remove [of ?S x]) (auto intro: sum.cong)
  also have "(\<Sum>t\<in>?S - {x}. f t) = (\<Sum>t\<in>?S. f t) - f x"
    using assms by (subst sum_diff1) auto
  also have "(\<Sum>t\<in>?S. f t) = (\<Sum>t\<in>{t. f t \<noteq> 0}. f t)"
  proof (cases "f x = 0")
    case True
    with assms show ?thesis by (simp add: sum.insert_if)
  next
    case False
    then have "?S = {t. f t \<noteq> 0}" by auto
    then show ?thesis by (rule arg_cong)
  qed
  finally show ?thesis by simp
qed

section \<open>Binary search (sort.Search)\<close>

text \<open>The loop of \<^verbatim>\<open>sort.Search\<close> on \<open>[i, j)\<close>: the least index where \<open>f\<close> holds, if \<open>f\<close> is monotone.\<close>

function search_loop :: "(nat \<Rightarrow> bool) \<Rightarrow> nat \<Rightarrow> nat \<Rightarrow> nat" where
  "search_loop f i j =
     (if i < j then let h = (i + j) div 2 in
        if \<not> f h then search_loop f (h + 1) j else search_loop f i h
      else i)"
  by pat_completeness auto
termination
  by (relation "measure (\<lambda>(f, i, j). j - i)") auto

declare search_loop.simps [simp del]

definition sort_search :: "nat \<Rightarrow> (nat \<Rightarrow> bool) \<Rightarrow> nat" where
  "sort_search n f = search_loop f 0 n"

lemma search_loop_least:
  assumes "i \<le> j" and "\<And>a b. a \<le> b \<Longrightarrow> b < n \<Longrightarrow> f a \<Longrightarrow> f b" and "j \<le> n"
    and "\<And>k. k < i \<Longrightarrow> \<not> f k" and "j < n \<Longrightarrow> f j"
  shows "search_loop f i j \<le> n \<and> (\<forall>k < search_loop f i j. \<not> f k) \<and>
    (search_loop f i j < n \<longrightarrow> f (search_loop f i j))"
  using assms
proof (induction f i j rule: search_loop.induct)
  case (1 f i j)
  show ?case
  proof (cases "i < j")
    case False
    then have "search_loop f i j = i"
      by (simp add: search_loop.simps [of f i j])
    moreover have "i = j"
      using False "1.prems"(1) by simp
    ultimately show ?thesis using "1.prems"(3-5) by simp
  next
    case True
    let ?h = "(i + j) div 2"
    have h: "i \<le> ?h" "?h < j" using True by auto
    show ?thesis
    proof (cases "f ?h")
      case True
      then have "search_loop f i j = search_loop f i ?h"
        using \<open>i < j\<close> by (simp add: search_loop.simps [of f i j] Let_def)
      moreover have "search_loop f i ?h \<le> n \<and> (\<forall>k < search_loop f i ?h. \<not> f k) \<and>
          (search_loop f i ?h < n \<longrightarrow> f (search_loop f i ?h))"
        using "1.prems" h True \<open>i < j\<close> by (intro "1.IH"(2) [OF _ refl]) auto
      ultimately show ?thesis by simp
    next
      case False
      then have "search_loop f i j = search_loop f (?h + 1) j"
        using \<open>i < j\<close> by (simp add: search_loop.simps [of f i j] Let_def)
      moreover have "\<not> f k" if "k < ?h + 1" for k
        using that False "1.prems"(2) [of k ?h] "1.prems"(3) h by fastforce
      then have "search_loop f (?h + 1) j \<le> n \<and> (\<forall>k < search_loop f (?h + 1) j. \<not> f k) \<and>
          (search_loop f (?h + 1) j < n \<longrightarrow> f (search_loop f (?h + 1) j))"
        using "1.prems" h False \<open>i < j\<close> by (intro "1.IH"(1) [OF _ refl]) auto
      ultimately show ?thesis by simp
    qed
  qed
qed

text \<open>On a sorted key list the search splits it at the key.\<close>

definition search_key :: "('a \<Rightarrow> 'k::linorder) \<Rightarrow> 'a list \<Rightarrow> 'k \<Rightarrow> nat" where
  "search_key key xs k = sort_search (length xs) (\<lambda>i. key (xs ! i) \<ge> k)"

lemma search_key_split:
  assumes "sorted (map key xs)"
  shows "search_key key xs k \<le> length xs"
    and "\<forall>x \<in> set (take (search_key key xs k) xs). key x < k"
    and "\<forall>x \<in> set (drop (search_key key xs k) xs). k \<le> key x"
proof -
  let ?i = "search_key key xs k"
  have mono: "key (xs ! a) \<le> key (xs ! b)" if "a \<le> b" "b < length xs" for a b
    using sorted_nth_mono [OF assms, of a b] that by simp
  have res: "?i \<le> length xs \<and> (\<forall>j < ?i. \<not> key (xs ! j) \<ge> k) \<and> (?i < length xs \<longrightarrow> key (xs ! ?i) \<ge> k)"
    unfolding search_key_def sort_search_def
  proof (rule search_loop_least)
    show "k \<le> key (xs ! b)" if "a \<le> b" "b < length xs" "k \<le> key (xs ! a)" for a b
      using mono [OF that(1,2)] that(3) by (rule order_trans [rotated])
  qed simp_all
  then show "?i \<le> length xs" by simp
  show "\<forall>x \<in> set (take ?i xs). key x < k"
    using res by (auto simp: in_set_conv_nth not_le)
  show "\<forall>x \<in> set (drop ?i xs). k \<le> key x"
  proof
    fix x assume "x \<in> set (drop ?i xs)"
    then obtain j where j: "x = xs ! (?i + j)" "?i + j < length xs"
      by (auto simp: in_set_conv_nth)
    with res mono [of ?i "?i + j"] show "k \<le> key x" by auto
  qed
qed

lemma insort_key_append:
  "\<forall>x \<in> set xs. key x < key y \<Longrightarrow> \<forall>x \<in> set zs. key y \<le> key x \<Longrightarrow>
     insort_key key y (xs @ zs) = xs @ y # zs"
proof (induction xs)
  case Nil
  then show ?case by (cases zs) auto
next
  case (Cons x xs)
  then show ?case by (auto simp: not_le)
qed

lemma search_key_insert:
  assumes "sorted (map key xs)"
  shows "take (search_key key xs (key y)) xs @ y # drop (search_key key xs (key y)) xs
    = insort_key key y xs"
  using insort_key_append [OF search_key_split(2) [OF assms] search_key_split(3) [OF assms], of y]
  by simp

lemma search_key_mem:
  assumes "sorted (map key xs)"
  shows "(search_key key xs k < length xs \<and> key (xs ! search_key key xs k) = k) \<longleftrightarrow> k \<in> key ` set xs"
proof
  let ?i = "search_key key xs k"
  assume "?i < length xs \<and> key (xs ! ?i) = k"
  then show "k \<in> key ` set xs" by (metis image_eqI nth_mem)
next
  let ?i = "search_key key xs k"
  assume "k \<in> key ` set xs"
  then obtain x where x: "x \<in> set xs" "key x = k" by auto
  have "x \<in> set (take ?i xs) \<or> x \<in> set (drop ?i xs)"
    using x(1) by (metis Un_iff append_take_drop_id set_append)
  with x search_key_split(2) [OF assms, of k] have dr: "x \<in> set (drop ?i xs)"
    by auto
  then have len: "?i < length xs" by (cases "?i < length xs") auto
  then have "drop ?i xs = xs ! ?i # drop (Suc ?i) xs"
    by (simp add: Cons_nth_drop_Suc)
  moreover have "sorted (map key (drop ?i xs))"
    using assms by (metis drop_map sorted_wrt_drop)
  ultimately have "key (xs ! ?i) \<le> k"
    using dr x(2) by auto
  moreover have "k \<le> key (xs ! ?i)"
    using search_key_split(3) [OF assms, of k] \<open>drop ?i xs = _\<close> by simp
  ultimately show "?i < length xs \<and> key (xs ! ?i) = k"
    using len by simp
qed

end
