(* ===== verification/Spans.thy ===== *)
theory Spans
  imports Prelude
begin

text \<open>
  Half-open byte ranges \<^verbatim>\<open>[2]uint64{start, end}\<close>, the currency of the acknowledgement code: the
  receiver reports them (\<^verbatim>\<open>Reassembler.ReceivedRanges\<close>), the wire carries them
  (\<^verbatim>\<open>EncodeAckRanges\<close>/\<^verbatim>\<open>DecodeAckRanges\<close>) and the sender accumulates them (\<^verbatim>\<open>ackTracker\<close>). The
  order of \<^verbatim>\<open>sort.Slice\<close> in \<^verbatim>\<open>mergeLocked\<close> (start first, then end) is the library's \<open>linorder\<close> on
  the type, so the library's \<open>sort\<close> is the code's.
\<close>

datatype span = Span (span_lo: u64) (span_hi: u64)

instantiation span :: linorder
begin

definition less_eq_span :: "span \<Rightarrow> span \<Rightarrow> bool" where
  "less_eq_span r s \<longleftrightarrow>
     span_lo r < span_lo s \<or> (span_lo r = span_lo s \<and> span_hi r \<le> span_hi s)"

definition less_span :: "span \<Rightarrow> span \<Rightarrow> bool" where
  "less_span r s \<longleftrightarrow>
     span_lo r < span_lo s \<or> (span_lo r = span_lo s \<and> span_hi r < span_hi s)"

instance
  by standard (auto simp: less_eq_span_def less_span_def intro: span.expand)

end

lemma less_eq_span_lo: "r \<le> s \<Longrightarrow> span_lo r \<le> span_lo s"
  by (auto simp: less_eq_span_def)

definition span_set :: "span \<Rightarrow> u64 set" where
  "span_set r = {span_lo r..<span_hi r}"

definition spans_set :: "span list \<Rightarrow> u64 set" where
  "spans_set rs = (\<Union>r\<in>set rs. span_set r)"

lemma mem_span_set [simp]: "x \<in> span_set r \<longleftrightarrow> span_lo r \<le> x \<and> x < span_hi r"
  by (auto simp: span_set_def)

lemma spans_set_simps [simp]:
  "spans_set [] = {}"
  "spans_set (r # rs) = span_set r \<union> spans_set rs"
  "spans_set (rs @ ss) = spans_set rs \<union> spans_set ss"
  by (auto simp: spans_set_def)

lemma spans_set_cong_set: "set rs = set ss \<Longrightarrow> spans_set rs = spans_set ss"
  by (simp add: spans_set_def)

text \<open>Non-empty, in order, disjoint and at or above \<open>c\<close>: what one acknowledgement must carry.\<close>

fun ascending :: "u64 \<Rightarrow> span list \<Rightarrow> bool" where
  "ascending c [] \<longleftrightarrow> True"
| "ascending c (r # rs) \<longleftrightarrow> c \<le> span_lo r \<and> span_lo r < span_hi r \<and> ascending (span_hi r) rs"

text \<open>The same with a gap of at least one byte before each range: what a merged set looks like.\<close>

fun separated :: "u64 \<Rightarrow> span list \<Rightarrow> bool" where
  "separated c [] \<longleftrightarrow> True"
| "separated c (r # rs) \<longleftrightarrow> c < span_lo r \<and> span_lo r < span_hi r \<and> separated (span_hi r) rs"

lemma separated_ascending: "separated c rs \<Longrightarrow> ascending c rs"
  by (induction rs arbitrary: c) auto

lemma ascending_mono: "ascending c rs \<Longrightarrow> d \<le> c \<Longrightarrow> ascending d rs"
  by (cases rs) auto

lemma separated_mono: "separated c rs \<Longrightarrow> d \<le> c \<Longrightarrow> separated d rs"
  by (cases rs) auto

lemma ascending_take: "ascending c rs \<Longrightarrow> ascending c (take n rs)"
  by (induction rs arbitrary: c n) (auto simp: take_Cons')

lemma ascending_nonempty: "ascending c rs \<Longrightarrow> r \<in> set rs \<Longrightarrow> span_lo r < span_hi r"
  by (induction rs arbitrary: c) auto

lemma ascending_above: "ascending c rs \<Longrightarrow> x \<in> spans_set rs \<Longrightarrow> c \<le> x"
proof (induction rs arbitrary: c)
  case Nil
  then show ?case by simp
next
  case (Cons r rs)
  then show ?case by (fastforce dest: order.strict_implies_order)
qed

lemma separated_above: "separated c rs \<Longrightarrow> x \<in> spans_set rs \<Longrightarrow> c < x"
proof (induction rs arbitrary: c)
  case Nil
  then show ?case by simp
next
  case (Cons r rs)
  then show ?case by (fastforce dest: less_trans)
qed

lemma ascending_disjoint:
  "ascending c rs \<Longrightarrow> i < j \<Longrightarrow> j < length rs \<Longrightarrow> span_set (rs ! i) \<inter> span_set (rs ! j) = {}"
proof (induction rs arbitrary: c i j)
  case Nil
  then show ?case by simp
next
  case (Cons r rs)
  show ?case
  proof (cases i)
    case 0
    with Cons.prems obtain k where j: "j = Suc k" "k < length rs"
      by (cases j) auto
    then have "span_set (rs ! k) \<subseteq> spans_set rs"
      unfolding spans_set_def using nth_mem by blast
    with Cons.prems(1) ascending_above [of "span_hi r" rs] 0 j show ?thesis
      by fastforce
  next
    case (Suc n)
    with Cons show ?thesis by (cases j) auto
  qed
qed

end
