(* ===== verification/Frame.thy ===== *)
theory Frame
  imports Spans
begin

text \<open>
  The frame envelope of the queqiao data plane, \<^verbatim>\<open>queqiao/internal/protocol/frame.go\<close>: header and
  payload encoding, the two validators, the acknowledgement range list and the writer loop. A Go
  error is a value of \<open>frame_error\<close>; a reader is the list of bytes it will still deliver.
\<close>

unbundle bit_operations_syntax

section \<open>Constants\<close>

definition Magic0 :: byte where [cfg_defs]: "Magic0 = 87"
definition Magic1 :: byte where [cfg_defs]: "Magic1 = 79"
definition Version :: byte where [cfg_defs]: "Version = 1"
definition HeaderSize :: nat where [cfg_defs]: "HeaderSize = 46"
definition MaxPayload :: nat where [cfg_defs]: "MaxPayload = 128 * 1024"

definition FlagFin :: u16 where [cfg_defs]: "FlagFin = push_bit 0 1"
definition FlagAckFinal :: u16 where [cfg_defs]: "FlagAckFinal = push_bit 1 1"
definition FlagAckUp :: u16 where [cfg_defs]: "FlagAckUp = push_bit 2 1"
definition FlagAckDown :: u16 where [cfg_defs]: "FlagAckDown = push_bit 3 1"
definition FlagCloseAbort :: u16 where [cfg_defs]: "FlagCloseAbort = push_bit 4 1"
definition FlagReserveControl :: u16 where [cfg_defs]: "FlagReserveControl = push_bit 5 1"
definition FlagAckRanges :: u16 where [cfg_defs]: "FlagAckRanges = push_bit 7 1"

definition knownFlags :: u16 where [cfg_defs]:
  "knownFlags = FlagFin OR FlagAckFinal OR FlagAckUp OR FlagAckDown OR FlagCloseAbort OR
     FlagReserveControl OR FlagAckRanges"

text \<open>\<^verbatim>\<open>type Type byte\<close>, counted from one by \<^verbatim>\<open>iota + 1\<close>. A received type is any byte, so the type is
  a byte and the named values are constants.\<close>

definition TypeOpen :: byte where [cfg_defs]: "TypeOpen = 1"
definition TypeOpenOK :: byte where [cfg_defs]: "TypeOpenOK = 2"
definition TypeJoin :: byte where [cfg_defs]: "TypeJoin = 3"
definition TypeData :: byte where [cfg_defs]: "TypeData = 4"
definition TypeAck :: byte where [cfg_defs]: "TypeAck = 5"
definition TypeClose :: byte where [cfg_defs]: "TypeClose = 6"
definition TypeReset :: byte where [cfg_defs]: "TypeReset = 7"
definition TypePacket :: byte where [cfg_defs]: "TypePacket = 8"
definition TypeProbe :: byte where [cfg_defs]: "TypeProbe = 9"
definition TypeAuth :: byte where [cfg_defs]: "TypeAuth = 10"
definition TypeAuthOK :: byte where [cfg_defs]: "TypeAuthOK = 11"

definition type_valid :: "byte \<Rightarrow> bool" where
  "type_valid t \<longleftrightarrow> t \<ge> TypeOpen \<and> t \<le> TypeAuthOK"

definition ClassNew :: byte where [cfg_defs]: "ClassNew = 0"
definition ClassInteractive :: byte where [cfg_defs]: "ClassInteractive = 1"
definition ClassBulk :: byte where [cfg_defs]: "ClassBulk = 2"

definition MaxAckRanges :: nat where [cfg_defs]: "MaxAckRanges = 16"
definition AckRangeSize :: nat where [cfg_defs]: "AckRangeSize = 16"

section \<open>Headers and frames\<close>

record header =
  hVersion :: byte
  hType :: byte
  hFlags :: u16
  hSessionID :: bytes
  hFlowID :: u64
  hSequence :: u64
  hPayloadLen :: u32
  hClass :: byte

text \<open>\<^verbatim>\<open>SessionID [16]byte\<close>: what the Go type says of the field.\<close>

definition header_typed :: "header \<Rightarrow> bool" where
  "header_typed h \<longleftrightarrow> length (hSessionID h) = 16"

record frame =
  fHeader :: header
  fPayload :: bytes

datatype frame_error =
    IOError io_error
  | InvalidHeader
  | PayloadOverLimit
  | UnknownFlags
  | InvalidMagic
  | UnsupportedVersion byte byte \<comment> \<open>peer, local\<close>
  | UnsupportedHeader frame_error \<comment> \<open>wrapped with \<^verbatim>\<open>%w\<close>\<close>
  | NonZeroReserved
  | LengthMismatch nat u32
  | TooManyRanges nat
  | RangeInverted
  | RangeMisaligned
  | RangeOverlap

definition reserveControlFlagValid :: "byte \<Rightarrow> u16 \<Rightarrow> bool" where
  "reserveControlFlagValid t flags \<longleftrightarrow>
     flags AND FlagReserveControl = 0 \<or> t = TypeOpen \<or> t = TypeJoin"

definition ackRangesFlagValid :: "byte \<Rightarrow> u16 \<Rightarrow> bool" where
  "ackRangesFlagValid t flags \<longleftrightarrow> flags AND FlagAckRanges = 0 \<or> t = TypeAck"

section \<open>Acknowledgement ranges\<close>

fun encode_ranges :: "bytes \<Rightarrow> span list \<Rightarrow> frame_error + bytes" where
  "encode_ranges payload [] = Inr payload"
| "encode_ranges payload (r # rs) =
     (if span_lo r \<ge> span_hi r then Inl RangeInverted
      else encode_ranges (payload @ put_u64 (span_lo r) @ put_u64 (span_hi r)) rs)"

definition EncodeAckRanges :: "span list \<Rightarrow> frame_error + bytes" where
  "EncodeAckRanges rs =
     (if length rs > MaxAckRanges then Inl (TooManyRanges (length rs)) else encode_ranges [] rs)"

text \<open>The loop of \<^verbatim>\<open>DecodeAckRanges\<close>: \<open>n\<close> ranges are left, \<open>payload\<close> is what follows the ones read,
  \<open>ranges\<close> is what was appended.\<close>

fun decode_ranges :: "nat \<Rightarrow> bytes \<Rightarrow> u64 \<Rightarrow> span list \<Rightarrow> frame_error + span list" where
  "decode_ranges 0 payload previousEnd ranges = Inr ranges"
| "decode_ranges (Suc n) payload previousEnd ranges =
     (let start = get_u64 payload; end = get_u64 (drop 8 payload) in
      if start \<ge> end then Inl RangeInverted
      else if start < previousEnd then Inl RangeOverlap
      else decode_ranges n (drop AckRangeSize payload) end (ranges @ [Span start end]))"

definition DecodeAckRanges :: "bytes \<Rightarrow> u64 \<Rightarrow> frame_error + span list" where
  "DecodeAckRanges payload cumulative =
     (if length payload mod AckRangeSize \<noteq> 0 then Inl RangeMisaligned
      else let count = length payload div AckRangeSize in
        if count > MaxAckRanges then Inl (TooManyRanges count)
        else decode_ranges count payload cumulative [])"

section \<open>Header encoding\<close>

text \<open>The forty-six bytes \<^verbatim>\<open>Encode\<close> stores at the front of its destination.\<close>

definition header_bytes :: "header \<Rightarrow> bytes" where
  "header_bytes h =
     [Magic0, Magic1, hVersion h, hType h] @ put_u16 (hFlags h) @ hSessionID h @
     put_u64 (hFlowID h) @ put_u64 (hSequence h) @ put_u32 (hPayloadLen h) @ [hClass h] @ [0, 0, 0]"

definition Encode :: "header \<Rightarrow> bytes \<Rightarrow> frame_error + bytes" where
  "Encode h dst =
     (if length dst < HeaderSize then Inl (IOError ShortBuffer)
      else if hVersion h \<noteq> Version \<or> \<not> type_valid (hType h) \<or> hClass h > ClassBulk
        \<or> hFlags h AND NOT knownFlags \<noteq> 0
        \<or> \<not> reserveControlFlagValid (hType h) (hFlags h)
        \<or> \<not> ackRangesFlagValid (hType h) (hFlags h) then Inl InvalidHeader
      else if unat (hPayloadLen h) > MaxPayload then Inl PayloadOverLimit
      else Inr (header_bytes h @ drop HeaderSize dst))"

definition Validate :: "header \<Rightarrow> frame_error + unit" where
  "Validate h =
     (if hVersion h \<noteq> Version \<or> \<not> type_valid (hType h) \<or> hClass h > ClassBulk then Inl InvalidHeader
      else if hFlags h AND NOT knownFlags \<noteq> 0
        \<or> \<not> reserveControlFlagValid (hType h) (hFlags h)
        \<or> \<not> ackRangesFlagValid (hType h) (hFlags h) then Inl UnknownFlags
      else if unat (hPayloadLen h) > MaxPayload then Inl PayloadOverLimit
      else Inr ())"

definition DecodeHeader :: "bytes \<Rightarrow> frame_error + header" where
  "DecodeHeader src =
     (if length src < HeaderSize then Inl (IOError UnexpectedEOF)
      else if src ! 0 \<noteq> Magic0 \<or> src ! 1 \<noteq> Magic1 then Inl InvalidMagic
      else if src ! 2 \<noteq> Version then Inl (UnsupportedVersion (src ! 2) Version)
      else
        let h = \<lparr>hVersion = src ! 2, hType = src ! 3, hFlags = get_u16 (slice 4 6 src),
                 hSessionID = slice 6 22 src, hFlowID = get_u64 (slice 22 30 src),
                 hSequence = get_u64 (slice 30 38 src), hPayloadLen = get_u32 (slice 38 42 src),
                 hClass = src ! 42\<rparr> in
        and_then (map_err UnsupportedHeader (Validate h)) (\<lambda>_.
          if src ! 43 \<noteq> 0 \<or> src ! 44 \<noteq> 0 \<or> src ! 45 \<noteq> 0 then Inl NonZeroReserved
          else Inr h))"

section \<open>Frames\<close>

definition ReadFrame :: "bytes \<Rightarrow> frame_error + frame \<times> bytes" where
  "ReadFrame r =
     and_then (map_err IOError (read_full HeaderSize r)) (\<lambda>(raw, r1).
       and_then (DecodeHeader raw) (\<lambda>h.
         and_then (map_err IOError (read_full (unat (hPayloadLen h)) r1)) (\<lambda>(payload, r2).
           Inr (\<lparr>fHeader = h, fPayload = payload\<rparr>, r2))))"

definition ParseFrame :: "bytes \<Rightarrow> frame_error + frame" where
  "ParseFrame b =
     (if length b < HeaderSize then Inl (IOError UnexpectedEOF)
      else and_then (DecodeHeader (take HeaderSize b)) (\<lambda>h.
        let rest = drop HeaderSize b in
        if length rest \<noteq> unat (hPayloadLen h) then Inl (LengthMismatch (length rest) (hPayloadLen h))
        else Inr \<lparr>fHeader = h, fPayload = rest\<rparr>))"

text \<open>\<^verbatim>\<open>AppendFrame\<close> returns \<open>dst\<close> unchanged beside an error; the model's error case is the error alone.\<close>

definition AppendFrame :: "bytes \<Rightarrow> frame \<Rightarrow> frame_error + bytes" where
  "AppendFrame dst f =
     (if length (fPayload f) > MaxPayload then Inl PayloadOverLimit
      else
        let h = (fHeader f)\<lparr>hPayloadLen := word_of_nat (length (fPayload f))\<rparr> in
        and_then (Encode h (replicate HeaderSize 0)) (\<lambda>hdr. Inr (dst @ hdr @ fPayload f)))"

section \<open>Writing\<close>

text \<open>
  \<^verbatim>\<open>io.Writer\<close> is a function of the writer's state and the bytes offered, returning how many it took,
  an error and its next state. A count beyond what was offered makes the slice expression panic.
\<close>

datatype 'e write_result = Written | WriteError 'e | WriteShort | WritePanic

function writeFull ::
  "('w \<Rightarrow> bytes \<Rightarrow> nat \<times> 'e option \<times> 'w) \<Rightarrow> 'w \<Rightarrow> bytes \<Rightarrow> 'e write_result \<times> 'w" where
  "writeFull wr w p =
     (if p = [] then (Written, w)
      else case wr w p of (n, err, w') \<Rightarrow>
        if n > length p then (WritePanic, w')
        else case err of Some e \<Rightarrow> (WriteError e, w')
        | None \<Rightarrow> if n = 0 then (WriteShort, w') else writeFull wr w' (drop n p))"
  by pat_completeness auto
termination
  by (relation "measure (\<lambda>(wr, w, p). length p)") auto

declare writeFull.simps [simp del]

definition WriteFrame ::
  "('w \<Rightarrow> bytes \<Rightarrow> nat \<times> 'e option \<times> 'w) \<Rightarrow> 'w \<Rightarrow> frame \<Rightarrow> frame_error + 'e write_result \<times> 'w" where
  "WriteFrame wr w f = and_then (AppendFrame [] f) (\<lambda>buf. Inr (writeFull wr w buf))"

section \<open>The header codec\<close>

lemma length_header_bytes [simp]: "header_typed h \<Longrightarrow> length (header_bytes h) = HeaderSize"
  by (simp add: header_bytes_def header_typed_def HeaderSize_def)

text \<open>The condition under which both \<^verbatim>\<open>Encode\<close> and \<^verbatim>\<open>Validate\<close> accept a header.\<close>

definition header_valid :: "header \<Rightarrow> bool" where
  "header_valid h \<longleftrightarrow>
     hVersion h = Version \<and> type_valid (hType h) \<and> hClass h \<le> ClassBulk \<and>
     hFlags h AND NOT knownFlags = 0 \<and> reserveControlFlagValid (hType h) (hFlags h) \<and>
     ackRangesFlagValid (hType h) (hFlags h) \<and> unat (hPayloadLen h) \<le> MaxPayload"

lemma Validate_iff: "Validate h = Inr u \<longleftrightarrow> header_valid h"
  by (auto simp: Validate_def header_valid_def)

lemma Encode_iff:
  "Encode h dst = Inr out \<longleftrightarrow>
     HeaderSize \<le> length dst \<and> header_valid h \<and> out = header_bytes h @ drop HeaderSize dst"
  by (auto simp: Encode_def header_valid_def)

lemma header_bytes_fields:
  assumes "header_typed h"
  shows "(header_bytes h @ r) ! 0 = Magic0" "(header_bytes h @ r) ! 1 = Magic1"
    "(header_bytes h @ r) ! 2 = hVersion h" "(header_bytes h @ r) ! 3 = hType h"
    "slice 4 6 (header_bytes h @ r) = put_u16 (hFlags h)"
    "slice 6 22 (header_bytes h @ r) = hSessionID h"
    "slice 22 30 (header_bytes h @ r) = put_u64 (hFlowID h)"
    "slice 30 38 (header_bytes h @ r) = put_u64 (hSequence h)"
    "slice 38 42 (header_bytes h @ r) = put_u32 (hPayloadLen h)"
    "(header_bytes h @ r) ! 42 = hClass h" "(header_bytes h @ r) ! 43 = 0"
    "(header_bytes h @ r) ! 44 = 0" "(header_bytes h @ r) ! 45 = 0"
  using assms
  by (simp_all add: header_bytes_def header_typed_def slice_def nth_append nth_Cons')

lemma DecodeHeader_header_bytes:
  assumes "header_typed h" and "header_valid h"
  shows "DecodeHeader (header_bytes h @ r) = Inr h"
proof -
  have "Validate h = Inr ()"
    using assms(2) by (simp add: Validate_iff)
  moreover have "hVersion h = Version"
    using assms(2) by (simp add: header_valid_def)
  ultimately show ?thesis
    using assms(1) unfolding DecodeHeader_def header_bytes_fields [OF assms(1)]
    by (cases h) (simp add: HeaderSize_def)
qed

text \<open>A buffer is the concatenation of the fields a header reads from it.\<close>

lemma header_bytes_reassemble:
  assumes len: "46 \<le> length src"
    and magic: "src ! 0 = Magic0" "src ! 1 = Magic1"
    and reserved: "src ! 43 = 0" "src ! 44 = 0" "src ! 45 = 0"
  shows "header_bytes \<lparr>hVersion = src ! 2, hType = src ! 3, hFlags = get_u16 (slice 4 6 src),
           hSessionID = slice 6 22 src, hFlowID = get_u64 (slice 22 30 src),
           hSequence = get_u64 (slice 30 38 src), hPayloadLen = get_u32 (slice 38 42 src),
           hClass = src ! 42\<rparr> @ drop 46 src = src"
proof -
  have step: "src ! n # drop (n + 1) src = drop n src" if "n < 46" for n
    using that len by (simp add: Cons_nth_drop_Suc)
  have tail: "[0, 0, 0] @ drop 46 src = drop 43 src"
    using step [of 43] step [of 44] step [of 45] reserved by simp
  have front: "[Magic0, Magic1, src ! 2, src ! 3] @ drop 4 src = src"
    using step [of 0] step [of 1] step [of 2] step [of 3] magic
    by (simp add: numeral_eq_Suc)
  have mid: "slice 4 6 src @ slice 6 22 src @ slice 22 30 src @ slice 30 38 src @ slice 38 42 src
      @ [src ! 42] @ drop 43 src = drop 4 src"
    using step [of 42] by (simp add: slice_split)
  show ?thesis
    using len tail front mid
    by (simp add: header_bytes_def put_get_u16 put_get_u32 put_get_u64)
qed

lemma DecodeHeader_sound:
  assumes "DecodeHeader src = Inr h"
  shows "HeaderSize \<le> length src \<and> header_typed h \<and> header_valid h
    \<and> header_bytes h @ drop HeaderSize src = src"
proof -
  have len: "46 \<le> length src"
    using assms by (auto simp: DecodeHeader_def HeaderSize_def split: if_splits)
  then show ?thesis
    using assms header_bytes_reassemble [OF len]
    by (auto simp: DecodeHeader_def HeaderSize_def header_typed_def and_then_eq_Inr Validate_iff
        Let_def split: if_splits)
qed

section \<open>The codec of acknowledgement ranges\<close>

definition range_bytes :: "span \<Rightarrow> bytes" where
  "range_bytes r = put_u64 (span_lo r) @ put_u64 (span_hi r)"

lemma length_range_bytes [simp]: "length (range_bytes r) = 16"
  by (simp add: range_bytes_def)

lemma get_range_bytes [simp]:
  "get_u64 (range_bytes r @ p) = span_lo r" "get_u64 (drop 8 (range_bytes r) @ p) = span_hi r"
  by (simp_all add: range_bytes_def)

lemma length_concat_range_bytes [simp]: "length (concat (map range_bytes rs)) = 16 * length rs"
  by (induction rs) auto

lemma encode_ranges_eq:
  "encode_ranges p rs = Inr out \<longleftrightarrow>
     (\<forall>r\<in>set rs. span_lo r < span_hi r) \<and> out = p @ concat (map range_bytes rs)"
  by (induction p rs rule: encode_ranges.induct) (auto simp: range_bytes_def)

lemma EncodeAckRanges_iff:
  "EncodeAckRanges rs = Inr out \<longleftrightarrow>
     length rs \<le> MaxAckRanges \<and> (\<forall>r\<in>set rs. span_lo r < span_hi r) \<and>
     out = concat (map range_bytes rs)"
  by (auto simp: EncodeAckRanges_def encode_ranges_eq)

lemma decode_ranges_complete:
  "ascending c rs \<Longrightarrow>
     decode_ranges (length rs) (concat (map range_bytes rs)) c acc = Inr (acc @ rs)"
  by (induction rs arbitrary: c acc) (auto simp: AckRangeSize_def Let_def)

lemma decode_ranges_sound:
  assumes "decode_ranges n payload c acc = Inr out" and "length payload = 16 * n"
  shows "\<exists>rs. out = acc @ rs \<and> length rs = n \<and> ascending c rs \<and> payload = concat (map range_bytes rs)"
  using assms
proof (induction n payload c acc rule: decode_ranges.induct)
  case (1 payload previousEnd ranges)
  then show ?case by simp
next
  case (2 n payload previousEnd ranges)
  let ?s = "get_u64 payload" and ?e = "get_u64 (drop 8 payload)"
  from "2.prems" have ord: "?s < ?e" "previousEnd \<le> ?s"
    and rec: "decode_ranges n (drop 16 payload) ?e (ranges @ [Span ?s ?e]) = Inr out"
    by (auto simp: Let_def AckRangeSize_def split: if_splits)
  have "length (drop 16 payload) = 16 * n"
    using "2.prems"(2) by simp
  with rec obtain rs where rs: "out = (ranges @ [Span ?s ?e]) @ rs" "length rs = n"
      "ascending ?e rs" "drop 16 payload = concat (map range_bytes rs)"
    using "2.IH" [OF refl refl] ord by (auto simp: AckRangeSize_def not_le not_less)
  have "put_u64 ?s = take 8 payload" "put_u64 ?e = take 8 (drop 8 payload)"
    using put_get_u64 [of "take 8 payload"] put_get_u64 [of "take 8 (drop 8 payload)"] "2.prems"(2)
    by (simp_all add: get_u64_def)
  then have "payload = range_bytes (Span ?s ?e) @ drop 16 payload"
    by (simp add: range_bytes_def) (metis append_take_drop_id drop_drop numeral_Bit0)
  with rs ord show ?case
    by (intro exI [of _ "Span ?s ?e # rs"]) simp
qed

section \<open>Writer loop\<close>

text \<open>
  The contract of \<^verbatim>\<open>io.Writer\<close>: a writer takes a prefix of what it is offered. \<open>sink w\<close> is everything
  the writer has taken so far.
\<close>

definition writer_contract ::
  "('w \<Rightarrow> bytes \<Rightarrow> nat \<times> 'e option \<times> 'w) \<Rightarrow> ('w \<Rightarrow> bytes) \<Rightarrow> bool" where
  "writer_contract wr sink \<longleftrightarrow>
     (\<forall>w p. case wr w p of (n, e, w') \<Rightarrow> n \<le> length p \<and> sink w' = sink w @ take n p)"

lemma writeFull_prefix:
  assumes "writer_contract wr sink"
  shows "case writeFull wr w p of (r, w') \<Rightarrow>
    r \<noteq> WritePanic \<and> (\<exists>k \<le> length p. sink w' = sink w @ take k p \<and> (r = Written \<longrightarrow> k = length p))"
  using assms
proof (induction wr w p rule: writeFull.induct)
  case (1 wr w p)
  obtain n e w' where wr: "wr w p = (n, e, w')"
    by (cases "wr w p") auto
  with "1.prems" have n: "n \<le> length p" and sink: "sink w' = sink w @ take n p"
    by (auto simp: writer_contract_def split: prod.splits)
  show ?case
  proof (cases "p \<noteq> [] \<and> e = None \<and> n \<noteq> 0")
    case True
    then have eq: "writeFull wr w p = writeFull wr w' (drop n p)"
      using wr n by (simp add: writeFull.simps [of wr w p])
    from True n wr "1.prems"
    have IH: "case writeFull wr w' (drop n p) of (r, w'') \<Rightarrow> r \<noteq> WritePanic \<and>
        (\<exists>k \<le> length (drop n p). sink w'' = sink w' @ take k (drop n p) \<and>
          (r = Written \<longrightarrow> k = length (drop n p)))"
      by (intro "1.IH" [OF _ wr [symmetric] refl]) auto
    obtain r w'' where res: "writeFull wr w' (drop n p) = (r, w'')"
      by (cases "writeFull wr w' (drop n p)") auto
    with IH obtain k where k: "k \<le> length p - n" "sink w'' = sink w' @ take k (drop n p)"
        "r = Written \<longrightarrow> k = length p - n" "r \<noteq> WritePanic"
      by auto
    then have "sink w'' = sink w @ take (n + k) p"
      by (simp add: sink take_add)
    with k n show ?thesis
      by (auto simp: eq res intro!: exI [of _ "n + k"])
  next
    case False
    then show ?thesis
      using wr n sink by (auto simp: writeFull.simps [of wr w p] split: option.splits intro!: exI)
  qed
qed

section \<open>The frame stream\<close>

definition frame_ok :: "frame \<Rightarrow> bool" where
  "frame_ok f \<longleftrightarrow> header_typed (fHeader f) \<and> header_valid (fHeader f) \<and>
     unat (hPayloadLen (fHeader f)) = length (fPayload f)"

definition frame_bytes :: "frame \<Rightarrow> bytes" where
  "frame_bytes f = header_bytes (fHeader f) @ fPayload f"

text \<open>The frame \<^verbatim>\<open>AppendFrame\<close> really writes: its payload length is the payload's.\<close>

definition sealed :: "frame \<Rightarrow> frame" where
  "sealed f = f\<lparr>fHeader := (fHeader f)\<lparr>hPayloadLen := word_of_nat (length (fPayload f))\<rparr>\<rparr>"

lemma sealed_simps [simp]:
  "fPayload (sealed f) = fPayload f"
  "fHeader (sealed f) = (fHeader f)\<lparr>hPayloadLen := word_of_nat (length (fPayload f))\<rparr>"
  by (simp_all add: sealed_def)

lemma header_typed_upd [simp]: "header_typed (h\<lparr>hPayloadLen := n\<rparr>) = header_typed h"
  by (simp add: header_typed_def)

lemma AppendFrame_iff:
  assumes "header_typed (fHeader f)"
  shows "AppendFrame dst f = Inr out \<longleftrightarrow>
    length (fPayload f) \<le> MaxPayload \<and> frame_ok (sealed f) \<and> out = dst @ frame_bytes (sealed f)"
proof -
  have "unat (word_of_nat (length (fPayload f)) :: u32) = length (fPayload f)"
    if "length (fPayload f) \<le> MaxPayload"
    using that by (intro unat_of_nat_small) (simp add: MaxPayload_def)
  then show ?thesis
    using assms
    by (auto simp: AppendFrame_def Let_def and_then_eq_Inr Encode_iff frame_ok_def frame_bytes_def)
qed

lemma frame_ok_payload: "frame_ok f \<Longrightarrow> length (fPayload f) \<le> MaxPayload"
  by (simp add: frame_ok_def header_valid_def)

lemma frame_ok_sealed_id: "frame_ok f \<Longrightarrow> sealed f = f"
proof -
  assume ok: "frame_ok f"
  then have "word_of_nat (length (fPayload f)) = hPayloadLen (fHeader f)"
    by (intro word_of_nat_unat) (simp add: frame_ok_def)
  then show ?thesis by (simp add: sealed_def)
qed

lemma ReadFrame_frame_bytes:
  assumes "frame_ok f"
  shows "ReadFrame (frame_bytes f @ rest) = Inr (f, rest)"
proof -
  have "DecodeHeader (header_bytes (fHeader f)) = Inr (fHeader f)"
    using assms DecodeHeader_header_bytes [of "fHeader f" "[]"] by (simp add: frame_ok_def)
  then show ?thesis
    using assms by (simp add: ReadFrame_def frame_bytes_def frame_ok_def)
qed

interpretation frames: codec frame_ok frame_bytes ReadFrame
  by unfold_locales (rule ReadFrame_frame_bytes)

text \<open>A sender appending frames to one buffer, as the frame connection's batches do.\<close>

fun append_frames :: "bytes \<Rightarrow> frame list \<Rightarrow> frame_error + bytes" where
  "append_frames dst [] = Inr dst"
| "append_frames dst (f # fs) = and_then (AppendFrame dst f) (\<lambda>d. append_frames d fs)"

lemma append_frames_bytes:
  assumes "list_all (\<lambda>f. header_typed (fHeader f)) fs" and "append_frames dst fs = Inr buf"
  shows "list_all frame_ok (map sealed fs) \<and>
    buf = dst @ concat (map frame_bytes (map sealed fs))"
  using assms
proof (induction dst fs rule: append_frames.induct)
  case (1 dst)
  then show ?case by simp
next
  case (2 dst f fs)
  then have "frame_ok (sealed f)" "append_frames (dst @ frame_bytes (sealed f)) fs = Inr buf"
    by (auto simp: and_then_eq_Inr AppendFrame_iff)
  with 2 show ?case by (fastforce simp: AppendFrame_iff and_then_eq_Inr)
qed

lemma DecodeAckRanges_iff:
  "DecodeAckRanges payload cumulative = Inr rs \<longleftrightarrow>
     ascending cumulative rs \<and> EncodeAckRanges rs = Inr payload"
proof
  assume dec: "DecodeAckRanges payload cumulative = Inr rs"
  let ?n = "length payload div 16"
  from dec have "decode_ranges ?n payload cumulative [] = Inr rs" "length payload = 16 * ?n"
    "?n \<le> MaxAckRanges"
    by (auto simp: DecodeAckRanges_def AckRangeSize_def Let_def split: if_splits)
  moreover from decode_ranges_sound [OF this(1,2)]
  have "ascending cumulative rs" "length rs = ?n" "payload = concat (map range_bytes rs)"
    by (metis append_Nil)+
  ultimately show "ascending cumulative rs \<and> EncodeAckRanges rs = Inr payload"
    unfolding EncodeAckRanges_iff using ascending_nonempty by metis
next
  assume "ascending cumulative rs \<and> EncodeAckRanges rs = Inr payload"
  then show "DecodeAckRanges payload cumulative = Inr rs"
    using decode_ranges_complete [of cumulative rs "[]"]
    by (auto simp: DecodeAckRanges_def EncodeAckRanges_iff AckRangeSize_def Let_def)
qed

section \<open>Properties\<close>

text \<open>
  C1. \<^verbatim>\<open>DecodeHeader\<close> and \<^verbatim>\<open>Encode\<close> are exact inverses: a buffer decodes to a header precisely when
  encoding that header over the buffer leaves it unchanged. So every valid header round-trips, no
  two buffers with different first 46 bytes decode to the same header, and nothing \<^verbatim>\<open>Encode\<close> would
  refuse is ever accepted (versions, types, classes, flags, payload limit, reserved bytes).
\<close>

theorem frame_header_exact:
  "DecodeHeader src = Inr h \<longleftrightarrow> header_typed h \<and> Encode h src = Inr src"
proof
  assume "DecodeHeader src = Inr h"
  from DecodeHeader_sound [OF this] show "header_typed h \<and> Encode h src = Inr src"
    by (simp add: Encode_iff)
next
  assume "header_typed h \<and> Encode h src = Inr src"
  then have "header_typed h" "header_valid h" "src = header_bytes h @ drop HeaderSize src"
    by (auto simp: Encode_iff)
  then show "DecodeHeader src = Inr h"
    using DecodeHeader_header_bytes by metis
qed

text \<open>
  A stream is read back frame by frame exactly as it was written: whatever list of frames
  \<^verbatim>\<open>AppendFrame\<close> accepted into one buffer, \<^verbatim>\<open>ReadFrame\<close> returns those frames (each with the payload
  length of its payload) in order and leaves the bytes that follow untouched.
\<close>

theorem frame_stream_roundtrip:
  assumes "list_all (\<lambda>f. header_typed (fHeader f)) fs" and "append_frames [] fs = Inr buf"
  shows "read_many ReadFrame (length fs) (buf @ rest) = Inr (map sealed fs, rest)"
  using append_frames_bytes [OF assms] frames.read_many_enc [of "map sealed fs" rest] by simp

definition sample_frame :: frame where
  "sample_frame = \<lparr>fHeader = \<lparr>hVersion = 1, hType = 4, hFlags = 0, hSessionID = replicate 16 7,
     hFlowID = 3, hSequence = 5, hPayloadLen = 0, hClass = 2\<rparr>, fPayload = [1, 2, 3]\<rparr>"

lemma sample_frame_accepted:
  "list_all (\<lambda>f. header_typed (fHeader f)) [sample_frame]"
  "append_frames [] [sample_frame] = Inr (frame_bytes (sealed sample_frame))"
  by (simp_all add: sample_frame_def header_typed_def AppendFrame_iff frame_ok_def header_valid_def
      type_valid_def reserveControlFlagValid_def ackRangesFlagValid_def cfg_defs)

theorem frame_stream_roundtrip_witness:
  "read_many ReadFrame 1 (frame_bytes (sealed sample_frame) @ [9]) = Inr ([sealed sample_frame], [9])"
  using frame_stream_roundtrip [OF sample_frame_accepted, of "[9]"] by simp

text \<open>
  \<^verbatim>\<open>ParseFrame\<close> accepts a datagram precisely when it is what \<^verbatim>\<open>AppendFrame\<close> writes for the frame
  it returns: no truncated frame, no trailing byte and no non-canonical header gets through.
\<close>

theorem parse_frame_exact:
  "ParseFrame b = Inr f \<longleftrightarrow>
     header_typed (fHeader f) \<and> unat (hPayloadLen (fHeader f)) = length (fPayload f) \<and>
     AppendFrame [] f = Inr b"
proof
  assume parse: "ParseFrame b = Inr f"
  then have dec: "DecodeHeader (take HeaderSize b) = Inr (fHeader f)" "HeaderSize \<le> length b"
    and pay: "fPayload f = drop HeaderSize b" "unat (hPayloadLen (fHeader f)) = length (fPayload f)"
    by (auto simp: ParseFrame_def and_then_eq_Inr Let_def split: if_splits)
  from DecodeHeader_sound [OF dec(1)] dec(2) have hdr: "header_typed (fHeader f)"
      "header_valid (fHeader f)" "header_bytes (fHeader f) = take HeaderSize b"
    by simp_all
  then have ok: "frame_ok f" and "frame_bytes f = b"
    using pay by (simp_all add: frame_ok_def frame_bytes_def)
  then show "header_typed (fHeader f) \<and> unat (hPayloadLen (fHeader f)) = length (fPayload f) \<and>
      AppendFrame [] f = Inr b"
    using hdr(1) pay(2) frame_ok_payload [OF ok] by (simp add: AppendFrame_iff frame_ok_sealed_id)
next
  assume asm: "header_typed (fHeader f) \<and> unat (hPayloadLen (fHeader f)) = length (fPayload f) \<and>
      AppendFrame [] f = Inr b"
  then have "word_of_nat (length (fPayload f)) = hPayloadLen (fHeader f)"
    by (intro word_of_nat_unat) simp
  then have "sealed f = f" by (simp add: sealed_def)
  with asm have ok: "frame_ok f" and b: "b = frame_bytes f"
    by (auto simp: AppendFrame_iff)
  then have "DecodeHeader (header_bytes (fHeader f)) = Inr (fHeader f)"
    using DecodeHeader_header_bytes [of "fHeader f" "[]"] by (simp add: frame_ok_def)
  then show "ParseFrame b = Inr f"
    using ok by (simp add: b ParseFrame_def frame_bytes_def frame_ok_def)
qed

text \<open>
  An acknowledgement payload decodes above a cumulative point precisely when it is the encoding
  of at most sixteen non-empty ranges that ascend, disjoint, from that point. A peer can thus never
  make the sender release bytes twice, out of order or below what it already reported.
\<close>

theorem ack_ranges_exact:
  "DecodeAckRanges payload cumulative = Inr rs \<longleftrightarrow>
     ascending cumulative rs \<and> EncodeAckRanges rs = Inr payload"
  by (rule DecodeAckRanges_iff)

text \<open>
  A frame reaches a writer whole: over any writer that takes prefixes of what it is offered,
  however short its successful writes are, \<^verbatim>\<open>WriteFrame\<close> reports success only when exactly the frame's
  encoding was taken, and otherwise only a prefix of it was; it never panics.
\<close>

theorem write_frame_whole:
  assumes "writer_contract wr sink" and "AppendFrame [] f = Inr buf"
  shows "\<exists>r w'. WriteFrame wr w f = Inr (r, w') \<and> r \<noteq> WritePanic \<and>
    (\<exists>k. sink w' = sink w @ take k buf \<and> (r = Written \<longrightarrow> take k buf = buf))"
proof -
  obtain r w' where res: "writeFull wr w buf = (r, w')"
    by (cases "writeFull wr w buf") auto
  with writeFull_prefix [OF assms(1), where w = w and p = buf] obtain k where
    "r \<noteq> WritePanic" "sink w' = sink w @ take k buf" "r = Written \<longrightarrow> k = length buf"
    by auto
  then show ?thesis
    by (auto simp: WriteFrame_def assms(2) res)
qed

text \<open>A writer that takes at most seven bytes at a time and never fails.\<close>

definition short_writer :: "bytes \<Rightarrow> bytes \<Rightarrow> nat \<times> unit option \<times> bytes" where
  "short_writer w p = (min 7 (length p), None, w @ take 7 p)"

theorem write_frame_whole_witness:
  "\<exists>r w'. WriteFrame short_writer [] sample_frame = Inr (r, w') \<and> r \<noteq> WritePanic \<and>
    (\<exists>k. w' = take k (frame_bytes (sealed sample_frame)) \<and>
       (r = Written \<longrightarrow> take k (frame_bytes (sealed sample_frame)) = frame_bytes (sealed sample_frame)))"
proof -
  have contract: "writer_contract short_writer id"
    by (auto simp: writer_contract_def short_writer_def min_def)
  have "AppendFrame [] sample_frame = Inr (frame_bytes (sealed sample_frame))"
    using sample_frame_accepted(2) by (simp add: and_then_eq_Inr)
  from write_frame_whole [OF contract this, of "[]"] show ?thesis
    by (simp only: id_apply append_Nil)
qed

end
