(* ===== verification/Memlimit.thy ===== *)
theory Memlimit
  imports Prelude
begin

text \<open>
  The shared byte budget, \<^verbatim>\<open>queqiao/internal/memlimit/budget.go\<close>, and the interfaces \<open>byte_meter\<close> and \<open>byte_budget\<close>
  its clients (reassembler, chunk scheduler, receive backlog) rely on. The mutex makes each method
  one step; \<^verbatim>\<open>Acquire\<close>, which sleeps, is the steps between two sleeps. A \<^verbatim>\<open>*Budget\<close> that may be nil
  is an option. The \<^verbatim>\<open>int64\<close> counters stay between zero and the capacity, so they are integers here.
\<close>

section \<open>State and operations\<close>

record budget =
  capacity :: int
  used :: int
  peak :: int
  waiters :: int
  changed :: nat \<comment> \<open>the generation the \<^verbatim>\<open>changed\<close> channel stands for\<close>

definition new_budget :: "int \<Rightarrow> budget option" where
  "new_budget c =
     (if c \<le> 0 then None
      else Some \<lparr>capacity = c, used = 0, peak = 0, waiters = 0, changed = 0\<rparr>)"

definition charge :: "int \<Rightarrow> budget \<Rightarrow> budget" where
  "charge n b =
     (let b1 = b\<lparr>used := used b + n\<rparr> in
      if used b1 > peak b1 then b1\<lparr>peak := used b1\<rparr> else b1)"

definition TryAcquire :: "budget option \<Rightarrow> int \<Rightarrow> bool \<times> budget option" where
  "TryAcquire mb n =
     (case mb of None \<Rightarrow> (True, None)
      | Some b \<Rightarrow>
        if n \<le> 0 then (True, Some b)
        else if n > capacity b - used b then (False, Some b)
        else (True, Some (charge n b)))"

definition Release :: "budget option \<Rightarrow> int \<Rightarrow> panic + budget option" where
  "Release mb n =
     (case mb of None \<Rightarrow> Inr None
      | Some b \<Rightarrow>
        if n \<le> 0 then Inr (Some b)
        else if n > used b then Inl (Panic ''memlimit: release exceeds acquired bytes'')
        else Inr (Some (b\<lparr>used := used b - n, changed := Suc (changed b)\<rparr>)))"

text \<open>
  \<^verbatim>\<open>Acquire\<close> up to its return or its sleep. \<open>Sleeping g\<close> is blocked on generation \<open>g\<close>; it goes on with
  \<open>acquire_wake\<close> when that generation was closed and with \<open>acquire_abort\<close> when its context ended.
\<close>

datatype acquire_result = Acquired | TooLarge | Cancelled | Sleeping nat

definition acquire_loop :: "bool \<Rightarrow> int \<Rightarrow> budget \<Rightarrow> acquire_result \<times> budget" where
  "acquire_loop cancelled n b =
     (if cancelled then (Cancelled, b)
      else if n \<le> capacity b - used b then (Acquired, charge n b)
      else (Sleeping (changed b), b\<lparr>waiters := waiters b + 1\<rparr>))"

definition Acquire :: "bool \<Rightarrow> int \<Rightarrow> budget option \<Rightarrow> acquire_result \<times> budget option" where
  "Acquire cancelled n mb =
     (case mb of None \<Rightarrow> (Acquired, None)
      | Some b \<Rightarrow>
        if n \<le> 0 then (Acquired, Some b)
        else if n > capacity b then (TooLarge, Some b)
        else (case acquire_loop cancelled n b of (r, b') \<Rightarrow> (r, Some b')))"

definition acquire_wake :: "bool \<Rightarrow> int \<Rightarrow> budget \<Rightarrow> acquire_result \<times> budget" where
  "acquire_wake cancelled n b = acquire_loop cancelled n (b\<lparr>waiters := waiters b - 1\<rparr>)"

definition acquire_abort :: "budget \<Rightarrow> acquire_result \<times> budget" where
  "acquire_abort b = (Cancelled, b\<lparr>waiters := waiters b - 1\<rparr>)"

record snapshot =
  snapCapacity :: int
  snapUsed :: int
  snapPeak :: int
  snapWaiters :: int

definition Snapshot :: "budget option \<Rightarrow> snapshot" where
  "Snapshot mb =
     (case mb of None \<Rightarrow> \<lparr>snapCapacity = 0, snapUsed = 0, snapPeak = 0, snapWaiters = 0\<rparr>
      | Some b \<Rightarrow> \<lparr>snapCapacity = capacity b, snapUsed = used b, snapPeak = peak b,
                   snapWaiters = waiters b\<rparr>)"

section \<open>Invariant\<close>

definition budget_ok :: "budget \<Rightarrow> bool" where
  "budget_ok b \<longleftrightarrow> 0 \<le> used b \<and> used b \<le> peak b \<and> peak b \<le> capacity b"

lemma budget_ok_new: "new_budget c = Some b \<Longrightarrow> budget_ok b"
  by (auto simp: new_budget_def budget_ok_def split: if_splits)

lemma charge_simps [simp]:
  "used (charge n b) = used b + n" "capacity (charge n b) = capacity b"
  "waiters (charge n b) = waiters b" "changed (charge n b) = changed b"
  "peak (charge n b) = max (peak b) (used b + n)"
  by (auto simp: charge_def Let_def)

lemma budget_ok_charge: "budget_ok b \<Longrightarrow> 0 \<le> n \<Longrightarrow> n \<le> capacity b - used b \<Longrightarrow> budget_ok (charge n b)"
  by (auto simp: budget_ok_def)

section \<open>The interfaces\<close>

text \<open>
  What a client needs to know: \<open>covers b m\<close> says the budget still holds \<open>m\<close> bytes on the client's
  behalf. A successful acquisition adds to what is covered, a refused one changes nothing, and
  releasing what is covered never panics.
\<close>

locale byte_meter =
  fixes try_acquire :: "'b \<Rightarrow> int \<Rightarrow> bool \<times> 'b"
    and release :: "'b \<Rightarrow> int \<Rightarrow> 'e + 'b"
    and covers :: "'b \<Rightarrow> int \<Rightarrow> bool"
  assumes acquire_covers:
      "covers b m \<Longrightarrow> 0 \<le> n \<Longrightarrow> try_acquire b n = (True, b') \<Longrightarrow> covers b' (m + n)"
    and refuse_same: "try_acquire b n = (False, b') \<Longrightarrow> b' = b"
    and release_covered:
      "covers b (m + n) \<Longrightarrow> 0 \<le> m \<Longrightarrow> 0 \<le> n \<Longrightarrow> \<exists>b'. release b n = Inr b' \<and> covers b' m"

text \<open>When \<open>covers\<close> only bounds from below, other clients may hold more.\<close>

locale byte_budget = byte_meter +
  assumes covers_less: "covers b m \<Longrightarrow> m' \<le> m \<Longrightarrow> covers b m'"

text \<open>Releasing one charge after another, as the code does in its loops.\<close>

fun release_all :: "('b \<Rightarrow> int \<Rightarrow> 'e + 'b) \<Rightarrow> 'b \<Rightarrow> int list \<Rightarrow> 'e + 'b" where
  "release_all rel b [] = Inr b"
| "release_all rel b (n # ns) = and_then (rel b n) (\<lambda>b'. release_all rel b' ns)"

context byte_meter begin

lemma release_all_covered:
  "covers b (m + sum_list ns) \<Longrightarrow> 0 \<le> m \<Longrightarrow> \<forall>n\<in>set ns. 0 \<le> n \<Longrightarrow>
     \<exists>b'. release_all release b ns = Inr b' \<and> covers b' m"
proof (induction ns arbitrary: b)
  case Nil
  then show ?case by simp
next
  case (Cons n ns)
  have "0 \<le> m + sum_list ns"
    using Cons.prems by (simp add: sum_list_nonneg)
  moreover have "covers b ((m + sum_list ns) + n)"
    using Cons.prems(1) by (simp add: algebra_simps)
  ultimately obtain b1 where "release b n = Inr b1" "covers b1 (m + sum_list ns)"
    using release_covered [of b "m + sum_list ns" n] Cons.prems(3) by auto
  then show ?case using Cons.IH [of b1] Cons.prems by auto
qed

lemma acquire_release:
  assumes "covers b m" and "0 \<le> m" and "0 \<le> n" and "try_acquire b n = (True, b')"
  shows "\<exists>b''. release b' n = Inr b'' \<and> covers b'' m"
  using release_covered [of b' m n] acquire_covers [OF assms(1,3,4)] assms(2,3) by simp

end

definition budget_covers :: "budget option \<Rightarrow> int \<Rightarrow> bool" where
  "budget_covers mb m \<longleftrightarrow> (case mb of None \<Rightarrow> True | Some b \<Rightarrow> m \<le> used b)"

interpretation budget: byte_budget TryAcquire Release budget_covers
  by unfold_locales
    (auto simp: TryAcquire_def Release_def budget_covers_def split: option.splits if_splits)

text \<open>The exact reading of the same interface: precisely \<open>m\<close> bytes are in use.\<close>

definition budget_exactly :: "budget option \<Rightarrow> int \<Rightarrow> bool" where
  "budget_exactly mb m \<longleftrightarrow> (case mb of None \<Rightarrow> True | Some b \<Rightarrow> used b = m)"

interpretation exact_budget: byte_meter TryAcquire Release budget_exactly
  by unfold_locales
    (auto simp: TryAcquire_def Release_def budget_exactly_def split: option.splits if_splits)

lemma TryAcquire_used:
  "TryAcquire (Some b) n = (ok, mb) \<Longrightarrow> 0 \<le> n \<Longrightarrow>
     \<exists>b'. mb = Some b' \<and> used b' = (if ok then used b + n else used b) \<and> capacity b' = capacity b"
  by (auto simp: TryAcquire_def split: if_splits)

lemma Release_used:
  "Release (Some b) n = Inr mb \<Longrightarrow> 0 \<le> n \<Longrightarrow>
     \<exists>b'. mb = Some b' \<and> used b' = used b - n \<and> capacity b' = capacity b"
  by (auto simp: Release_def split: if_splits)

lemma release_all_used:
  "release_all Release (Some b) ns = Inr mb \<Longrightarrow> \<forall>n\<in>set ns. 0 \<le> n \<Longrightarrow>
     \<exists>b'. mb = Some b' \<and> used b' = used b - sum_list ns"
proof (induction ns arbitrary: b)
  case Nil
  then show ?case by auto
next
  case (Cons n ns)
  then obtain mb1 where "Release (Some b) n = Inr mb1" "release_all Release mb1 ns = Inr mb"
    by (auto simp: and_then_eq_Inr)
  then show ?case
    using Release_used [of b n mb1] Cons by fastforce
qed

lemma TryAcquire_ok:
  "budget_ok b \<Longrightarrow> TryAcquire (Some b) n = (r, Some b') \<Longrightarrow> budget_ok b'"
  by (auto simp: TryAcquire_def intro: budget_ok_charge split: if_splits)

lemma Release_ok: "budget_ok b \<Longrightarrow> Release (Some b) n = Inr (Some b') \<Longrightarrow> budget_ok b'"
  by (auto simp: Release_def budget_ok_def split: if_splits)

section \<open>The budget under concurrent use\<close>

text \<open>
  Any number of goroutines use one budget. \<open>asleep t = Some (n, g)\<close>: goroutine \<open>t\<close> is blocked in
  \<^verbatim>\<open>Acquire\<close> for \<open>n\<close> bytes on generation \<open>g\<close>. \<open>held t\<close>: the bytes \<open>t\<close> acquired and has yet to
  release. A step is one goroutine running one method, or up to its next sleep.
\<close>

record msys =
  bud :: budget
  asleep :: "nat \<Rightarrow> (int \<times> nat) option"
  held :: "nat \<Rightarrow> int"

definition settle :: "nat \<Rightarrow> int \<Rightarrow> acquire_result \<times> budget \<Rightarrow> msys \<Rightarrow> msys" where
  "settle t n rb s =
     (case rb of (r, b) \<Rightarrow>
       case r of
         Acquired \<Rightarrow> s\<lparr>bud := b, asleep := (asleep s)(t := None), held := (held s)(t := held s t + n)\<rparr>
       | Sleeping g \<Rightarrow> s\<lparr>bud := b, asleep := (asleep s)(t := Some (n, g))\<rparr>
       | _ \<Rightarrow> s\<lparr>bud := b, asleep := (asleep s)(t := None)\<rparr>)"

inductive msys_step :: "msys \<Rightarrow> msys \<Rightarrow> bool" where
  try_acquire: "asleep s t = None \<Longrightarrow> 0 < n \<Longrightarrow> TryAcquire (Some (bud s)) n = (True, Some b) \<Longrightarrow>
     msys_step s (s\<lparr>bud := b, held := (held s)(t := held s t + n)\<rparr>)"
| acquire: "asleep s t = None \<Longrightarrow> 0 < n \<Longrightarrow> Acquire cancelled n (Some (bud s)) = (r, Some b) \<Longrightarrow>
     msys_step s (settle t n (r, b) s)"
| wake: "asleep s t = Some (n, g) \<Longrightarrow> g \<noteq> changed (bud s) \<Longrightarrow>
     msys_step s (settle t n (acquire_wake cancelled n (bud s)) s)"
| abort: "asleep s t = Some (n, g) \<Longrightarrow>
     msys_step s (settle t n (acquire_abort (bud s)) s)"
| release: "asleep s t = None \<Longrightarrow> 0 < n \<Longrightarrow> n \<le> held s t \<Longrightarrow>
     Release (Some (bud s)) n = Inr (Some b) \<Longrightarrow>
     msys_step s (s\<lparr>bud := b, held := (held s)(t := held s t - n)\<rparr>)"

inductive msys_reach :: "int \<Rightarrow> msys \<Rightarrow> bool" for c where
  start: "new_budget c = Some b \<Longrightarrow>
     msys_reach c \<lparr>bud = b, asleep = (\<lambda>_. None), held = (\<lambda>_. 0)\<rparr>"
| step: "msys_reach c s \<Longrightarrow> msys_step s s' \<Longrightarrow> msys_reach c s'"

inductive_cases msys_stepE: "msys_step s s'"

text \<open>
  The invariant: the counters are what they count, and a goroutine asleep on the current generation
  asked for more than is free. The last clause is the absence of a lost wake-up.
\<close>

definition ledger_ok :: "budget \<Rightarrow> (nat \<Rightarrow> int) \<Rightarrow> bool" where
  "ledger_ok b h \<longleftrightarrow>
     budget_ok b \<and> finite {t. h t \<noteq> 0} \<and> (\<forall>t. 0 \<le> h t) \<and> used b = (\<Sum>t\<in>{t. h t \<noteq> 0}. h t)"

definition sleep_ok :: "budget \<Rightarrow> (nat \<Rightarrow> (int \<times> nat) option) \<Rightarrow> bool" where
  "sleep_ok b a \<longleftrightarrow>
     finite {t. a t \<noteq> None} \<and> waiters b = int (card {t. a t \<noteq> None}) \<and>
     (\<forall>t n g. a t = Some (n, g) \<longrightarrow>
        0 < n \<and> n \<le> capacity b \<and> g \<le> changed b \<and> (g = changed b \<longrightarrow> capacity b - used b < n))"

definition msys_ok :: "msys \<Rightarrow> bool" where
  "msys_ok s \<longleftrightarrow> ledger_ok (bud s) (held s) \<and> sleep_ok (bud s) (asleep s)"

lemma msys_ok_start:
  "new_budget c = Some b \<Longrightarrow> msys_ok \<lparr>bud = b, asleep = (\<lambda>_. None), held = (\<lambda>_. 0)\<rparr>"
  by (auto simp: msys_ok_def ledger_ok_def sleep_ok_def new_budget_def budget_ok_def split: if_splits)

lemma ledger_move:
  assumes "ledger_ok b h" and "0 \<le> h t + d" and "budget_ok b'" and "used b' = used b + d"
  shows "ledger_ok b' (h(t := h t + d))"
proof -
  have "finite {u. (h(t := h t + d)) u \<noteq> 0}"
    using assms(1) unfolding ledger_ok_def by (intro support_upd_finite) blast
  moreover have "used b' = (\<Sum>u\<in>{u. (h(t := h t + d)) u \<noteq> 0}. (h(t := h t + d)) u)"
    using assms(1,4) unfolding ledger_ok_def by (subst sum_support_upd) auto
  ultimately show ?thesis
    using assms(1-3) by (simp only: ledger_ok_def) auto
qed

lemma ledger_held_le:
  assumes "ledger_ok b h"
  shows "h t \<le> used b"
proof (cases "h t = 0")
  case True
  then show ?thesis using assms by (simp add: ledger_ok_def budget_ok_def)
next
  case False
  with assms have "h t \<le> (\<Sum>t\<in>{t. h t \<noteq> 0}. h t)"
    unfolding ledger_ok_def by (intro member_le_sum) auto
  then show ?thesis using assms by (simp add: ledger_ok_def)
qed

lemma sleep_less_room:
  "sleep_ok b a \<Longrightarrow> capacity b' = capacity b \<Longrightarrow> waiters b' = waiters b \<Longrightarrow>
     changed b' = changed b \<Longrightarrow> used b \<le> used b' \<Longrightarrow> sleep_ok b' a"
  unfolding sleep_ok_def by fastforce

lemma sleep_new_generation:
  "sleep_ok b a \<Longrightarrow> capacity b' = capacity b \<Longrightarrow> waiters b' = waiters b \<Longrightarrow>
     changed b' = Suc (changed b) \<Longrightarrow> sleep_ok b' a"
  unfolding sleep_ok_def by fastforce

lemma sleep_add:
  assumes "sleep_ok b a" and "a t = None" and "0 < n" and "n \<le> capacity b"
    and "capacity b - used b < n"
  shows "sleep_ok (b\<lparr>waiters := waiters b + 1\<rparr>) (a(t := Some (n, changed b)))"
proof -
  have "{u. (a(t := Some (n, changed b))) u \<noteq> None} = insert t {u. a u \<noteq> None}"
    by auto
  moreover have "t \<notin> {u. a u \<noteq> None}"
    using assms(2) by simp
  ultimately show ?thesis
    using assms unfolding sleep_ok_def by simp
qed

lemma sleep_remove:
  assumes "sleep_ok b a" and "a t = Some p"
  shows "sleep_ok (b\<lparr>waiters := waiters b - 1\<rparr>) (a(t := None))"
proof -
  have "{u. (a(t := None)) u \<noteq> None} = {u. a u \<noteq> None} - {t}"
    by auto
  moreover have "int (card ({u. a u \<noteq> None} - {t})) = int (card {u. a u \<noteq> None}) - 1"
    using assms card_Suc_Diff1 [of "{u. a u \<noteq> None}" t] unfolding sleep_ok_def by simp
  ultimately show ?thesis
    using assms unfolding sleep_ok_def by simp
qed

lemma ledger_same: "ledger_ok b h \<Longrightarrow> ledger_ok (b\<lparr>waiters := w\<rparr>) h"
  by (simp add: ledger_ok_def budget_ok_def)

lemma msys_ok_settle_loop:
  assumes ok: "msys_ok s" and awake: "asleep s t = None" and n: "0 < n" "n \<le> capacity (bud s)"
  shows "msys_ok (settle t n (acquire_loop cancelled n (bud s)) s)"
proof -
  have same: "(asleep s)(t := None) = asleep s"
    using awake by (simp add: fun_upd_idem)
  have led: "ledger_ok (bud s) (held s)" and slp: "sleep_ok (bud s) (asleep s)"
    using ok by (simp_all add: msys_ok_def)
  consider "cancelled" | "\<not> cancelled" "n \<le> capacity (bud s) - used (bud s)"
    | "\<not> cancelled" "capacity (bud s) - used (bud s) < n"
    by linarith
  then show ?thesis
  proof cases
    case 1
    then show ?thesis using ok by (simp add: acquire_loop_def settle_def same)
  next
    case 2
    then have "ledger_ok (charge n (bud s)) ((held s)(t := held s t + n))"
      using led n by (intro ledger_move [OF led]) (auto simp: ledger_ok_def budget_ok_charge)
    moreover have "sleep_ok (charge n (bud s)) (asleep s)"
      using slp n by (rule_tac sleep_less_room [OF slp]) auto
    ultimately show ?thesis
      using 2 by (simp add: acquire_loop_def settle_def same msys_ok_def)
  next
    case 3
    then show ?thesis
      using led sleep_add [OF slp awake n] by (simp add: acquire_loop_def settle_def msys_ok_def ledger_same)
  qed
qed

text \<open>Waking up gives back the place among the waiters.\<close>

lemma msys_ok_awake:
  assumes ok: "msys_ok s" and t: "asleep s t = Some p"
  shows "msys_ok (s\<lparr>bud := (bud s)\<lparr>waiters := waiters (bud s) - 1\<rparr>, asleep := (asleep s)(t := None)\<rparr>)"
  using ok sleep_remove [of "bud s" "asleep s" t p] t by (simp add: msys_ok_def ledger_same)

lemma settle_overwrites:
  "settle t n rb (s\<lparr>bud := b, asleep := (asleep s)(t := a)\<rparr>) = settle t n rb s"
  by (cases rb; cases "fst rb") (auto simp: settle_def)

lemma msys_step_ok:
  assumes "msys_step s s'" and ok: "msys_ok s"
  shows "msys_ok s'"
proof -
  have led: "ledger_ok (bud s) (held s)" and slp: "sleep_ok (bud s) (asleep s)"
    using ok by (simp_all add: msys_ok_def)
  from assms(1) show ?thesis
  proof (cases rule: msys_step.cases)
    case (try_acquire t n b)
    then have b: "b = charge n (bud s)" and room: "n \<le> capacity (bud s) - used (bud s)"
      by (auto simp: TryAcquire_def split: if_splits)
    have "ledger_ok b ((held s)(t := held s t + n))"
      using led room try_acquire(3) b
      by (intro ledger_move [OF led]) (auto simp: ledger_ok_def budget_ok_charge)
    moreover have "sleep_ok b (asleep s)"
      using try_acquire(3) by (intro sleep_less_room [OF slp]) (auto simp: b)
    ultimately show ?thesis
      using try_acquire(1) by (simp add: msys_ok_def)
  next
    case (acquire t n cancelled r b)
    show ?thesis
    proof (cases "n \<le> capacity (bud s)")
      case True
      then have "acquire_loop cancelled n (bud s) = (r, b)"
        using acquire(3,4) by (auto simp: Acquire_def split: prod.splits)
      with msys_ok_settle_loop [OF ok acquire(2,3) True, of cancelled] acquire(1) show ?thesis
        by simp
    next
      case False
      then show ?thesis
        using acquire ok by (auto simp: Acquire_def settle_def fun_upd_idem)
    qed
  next
    case (wake t n g cancelled)
    let ?s = "s\<lparr>bud := (bud s)\<lparr>waiters := waiters (bud s) - 1\<rparr>, asleep := (asleep s)(t := None)\<rparr>"
    have "msys_ok ?s" by (rule msys_ok_awake [OF ok wake(2)])
    moreover have "0 < n" "n \<le> capacity (bud s)"
      using slp wake(2) by (auto simp: sleep_ok_def)
    ultimately have "msys_ok (settle t n (acquire_loop cancelled n (bud ?s)) ?s)"
      by (intro msys_ok_settle_loop) auto
    then show ?thesis
      using wake(1) by (simp add: settle_overwrites acquire_wake_def)
  next
    case (abort t n g)
    then show ?thesis
      using msys_ok_awake [OF ok abort(2)] by (simp add: acquire_abort_def settle_def)
  next
    case (release t n b)
    then have b: "b = (bud s)\<lparr>used := used (bud s) - n, changed := Suc (changed (bud s))\<rparr>"
      using ledger_held_le [OF led, of t] by (auto simp: Release_def split: if_splits)
    have "ledger_ok b ((held s)(t := held s t + - n))"
      using led release(3,4) ledger_held_le [OF led, of t]
      by (intro ledger_move [OF led]) (auto simp: b ledger_ok_def budget_ok_def)
    moreover have "sleep_ok b (asleep s)"
      by (intro sleep_new_generation [OF slp]) (auto simp: b)
    ultimately show ?thesis
      using release(1) by (simp add: msys_ok_def)
  qed
qed

lemma msys_reach_ok: "msys_reach c s \<Longrightarrow> msys_ok s"
  by (induction rule: msys_reach.induct) (auto intro: msys_ok_start msys_step_ok)

lemma msys_step_capacity: "msys_step s s' \<Longrightarrow> capacity (bud s') = capacity (bud s)"
  by (erule msys_stepE)
    (auto simp: TryAcquire_def Acquire_def Release_def acquire_wake_def acquire_abort_def
      acquire_loop_def settle_def split: if_splits prod.splits acquire_result.splits)

lemma msys_reach_capacity: "msys_reach c s \<Longrightarrow> capacity (bud s) = c"
  by (induction rule: msys_reach.induct)
    (auto simp: new_budget_def msys_step_capacity split: if_splits)

section \<open>Properties\<close>

text \<open>
  C2. The limit is hard and the accounting exact in every interleaving of the budget's methods by
  any number of goroutines: used bytes are precisely what the goroutines hold, never above the
  recorded peak nor the capacity, the waiter count is the number of sleepers, and a goroutine that
  releases what it holds never hits the panic.
\<close>

theorem budget_exact:
  assumes "msys_reach c s"
  shows "used (bud s) = (\<Sum>t\<in>{t. held s t \<noteq> 0}. held s t)
    \<and> 0 \<le> used (bud s) \<and> used (bud s) \<le> peak (bud s) \<and> peak (bud s) \<le> c
    \<and> waiters (bud s) = int (card {t. asleep s t \<noteq> None})
    \<and> (\<forall>t n. 0 < n \<and> n \<le> held s t \<longrightarrow> (\<exists>b. Release (Some (bud s)) n = Inr (Some b)))"
proof -
  have led: "ledger_ok (bud s) (held s)" and slp: "sleep_ok (bud s) (asleep s)"
    using msys_reach_ok [OF assms] by (simp_all add: msys_ok_def)
  have "\<exists>b. Release (Some (bud s)) n = Inr (Some b)" if "0 < n \<and> n \<le> held s t" for n t
    using that ledger_held_le [OF led, of t] by (simp add: Release_def)
  then show ?thesis
    using led slp msys_reach_capacity [OF assms]
    unfolding ledger_ok_def sleep_ok_def budget_ok_def by blast
qed

text \<open>Goroutine 0 takes 6 of 10 bytes, then goroutine 1 asks for 5 and sleeps.\<close>

definition sleeping_example :: msys where
  "sleeping_example =
     \<lparr>bud = \<lparr>capacity = 10, used = 6, peak = 6, waiters = 1, changed = 0\<rparr>,
      asleep = (\<lambda>_. None)(1 := Some (5, 0)), held = (\<lambda>_. 0)(0 := 6)\<rparr>"

lemma sleeping_example_reach: "msys_reach 10 sleeping_example"
proof -
  let ?b = "\<lparr>capacity = 10, used = 0, peak = 0, waiters = 0, changed = 0\<rparr>"
  let ?s0 = "\<lparr>bud = ?b, asleep = (\<lambda>_. None), held = (\<lambda>_. 0)\<rparr>"
  have 0: "msys_reach 10 ?s0"
    by (rule msys_reach.start) (simp add: new_budget_def)
  have 1: "TryAcquire (Some (bud ?s0)) 6 = (True, Some (charge 6 ?b))"
    by (simp add: TryAcquire_def)
  let ?s1 = "?s0\<lparr>bud := charge 6 ?b, held := (held ?s0)(0 := held ?s0 0 + 6)\<rparr>"
  have "msys_reach 10 ?s1"
    by (rule msys_reach.step [OF 0], rule msys_step.try_acquire [OF _ _ 1]) auto
  then show ?thesis
  proof (rule msys_reach.step)
    have "Acquire False 5 (Some (bud ?s1)) = (Sleeping 0, Some (charge 6 ?b\<lparr>waiters := 1\<rparr>))"
      by (simp add: Acquire_def acquire_loop_def)
    from msys_step.acquire [OF _ _ this, of 1] show "msys_step ?s1 sleeping_example"
      by (simp add: settle_def sleeping_example_def charge_def)
  qed
qed

theorem budget_exact_witness:
  "used (bud sleeping_example) = 6 \<and> peak (bud sleeping_example) \<le> 10 \<and>
   (\<exists>b. Release (Some (bud sleeping_example)) 6 = Inr (Some b))"
  using budget_exact [OF sleeping_example_reach] by (auto simp: sleeping_example_def)

text \<open>
  C3. No wake-up is lost: in every reachable state a goroutine blocked on the current generation
  asked for more than is free. So once everything has been released no goroutine is left blocked on
  it, and a blocked goroutine whose request fits has a closed generation to wake on and then
  acquires.
\<close>

theorem budget_no_lost_wakeup:
  assumes "msys_reach c s" and "asleep s t = Some (n, g)"
  shows "(g = changed (bud s) \<longrightarrow> c - used (bud s) < n)
    \<and> ((\<forall>u. held s u = 0) \<longrightarrow> g \<noteq> changed (bud s))
    \<and> (n \<le> c - used (bud s) \<longrightarrow> g \<noteq> changed (bud s) \<and>
        fst (acquire_wake False n (bud s)) = Acquired)"
proof -
  have led: "ledger_ok (bud s) (held s)" and slp: "sleep_ok (bud s) (asleep s)"
    and cap: "capacity (bud s) = c"
    using msys_reach_ok [OF assms(1)] msys_reach_capacity [OF assms(1)] by (simp_all add: msys_ok_def)
  have "g = changed (bud s) \<longrightarrow> c - used (bud s) < n" and "n \<le> c"
    using slp assms(2) cap by (auto simp: sleep_ok_def)
  moreover have "(\<forall>u. held s u = 0) \<longrightarrow> used (bud s) = 0"
    using led by (simp add: ledger_ok_def)
  ultimately show ?thesis
    using cap by (auto simp: acquire_wake_def acquire_loop_def)
qed

theorem budget_no_lost_wakeup_witness:
  "asleep sleeping_example 1 = Some (5, 0) \<and> 10 - used (bud sleeping_example) < 5"
  using budget_no_lost_wakeup [OF sleeping_example_reach, of 1 5 0]
  by (simp add: sleeping_example_def)

end
