(* ===== verification/Reassembly.thy ===== *)
theory Reassembly
  imports Memlimit Spans Frame
begin

text \<open>
  The receive side of a striped flow, \<^verbatim>\<open>queqiao/internal/multipath/reassembly.go\<close>: data segments
  arrive in any order, contiguous bytes come out. The Go map \<^verbatim>\<open>buffer\<close> is an association list; the
  shared memory budget is a state of its own, passed beside the reassembler. An error leaves the
  state the source leaves; a panic of \<^verbatim>\<open>Release\<close> is the error \<open>ReleasePanic\<close>.
\<close>

section \<open>State\<close>

record config =
  MaxBufferedBytes :: u64
  MaxBufferedFrames :: int

record segment =
  segSequence :: u64
  segPayload :: bytes
  segFinal :: bool
  segCharged :: bool

record reassembler =
  rCfg :: config
  rNext :: u64
  rBuffer :: "(u64 \<times> segment) list"
  rOrder :: "u64 list"
  rBytes :: u64
  rFinalAt :: "u64 option"

datatype insert_error =
    ErrWindowExceeded | ErrMemoryBudget | ErrSequence
  | FinCarriesPayload | EmptyDataSegment | OverlapsCursor | ConflictingDuplicate
  | OverlappingSegments | FinConflicts | CursorMismatch | ReleasePanic panic

definition DefaultConfig :: config where
  "DefaultConfig = \<lparr>MaxBufferedBytes = 8 * 1024 * 1024, MaxBufferedFrames = 4096\<rparr>"

text \<open>An unusable configuration is replaced whole by the default one, whose \<^verbatim>\<open>Memory\<close> is nil.\<close>

definition NewReassembler :: "config \<Rightarrow> budget option \<Rightarrow> reassembler \<times> budget option" where
  "NewReassembler cfg memory =
     (if MaxBufferedBytes cfg = 0 \<or> MaxBufferedFrames cfg \<le> 0
      then (\<lparr>rCfg = DefaultConfig, rNext = 0, rBuffer = [], rOrder = [], rBytes = 0, rFinalAt = None\<rparr>, None)
      else (\<lparr>rCfg = cfg, rNext = 0, rBuffer = [], rOrder = [], rBytes = 0, rFinalAt = None\<rparr>, memory))"

definition zero_segment :: segment where
  "zero_segment = \<lparr>segSequence = 0, segPayload = [], segFinal = False, segCharged = False\<rparr>"

text \<open>\<^verbatim>\<open>r.buffer[k]\<close>: the zero \<^verbatim>\<open>Segment\<close> for an absent key.\<close>

definition buffered :: "reassembler \<Rightarrow> u64 \<Rightarrow> segment" where
  "buffered r k = (case map_of (rBuffer r) k of None \<Rightarrow> zero_segment | Some s \<Rightarrow> s)"

definition len64 :: "bytes \<Rightarrow> u64" where
  "len64 p = word_of_nat (length p)"

definition NextSequence :: "reassembler \<Rightarrow> u64" where "NextSequence r = rNext r"
definition BufferedBytes :: "reassembler \<Rightarrow> u64" where "BufferedBytes r = rBytes r"
definition BufferedFrames :: "reassembler \<Rightarrow> nat" where "BufferedFrames r = length (rBuffer r)"

definition Closed :: "reassembler \<Rightarrow> bool" where
  "Closed r = (case rFinalAt r of None \<Rightarrow> False | Some at \<Rightarrow> rNext r \<ge> at)"

section \<open>Order of the buffered segments\<close>

definition order_search :: "reassembler \<Rightarrow> u64 \<Rightarrow> nat" where
  "order_search r k = search_key (\<lambda>x. x) (rOrder r) k"

definition checkNeighbours :: "reassembler \<Rightarrow> segment \<Rightarrow> u64 \<Rightarrow> insert_error option" where
  "checkNeighbours r segment end =
     (let at = order_search r (segSequence segment);
          previous = buffered r (rOrder r ! (at - 1));
          previousEnd = (if segFinal previous then segSequence previous
                         else segSequence previous + len64 (segPayload previous));
          next = buffered r (rOrder r ! at) in
      if at > 0 \<and> segSequence segment < previousEnd then Some OverlappingSegments
      else if at < length (rOrder r) \<and> segSequence next < end then Some OverlappingSegments
      else if at < length (rOrder r) \<and> segFinal segment \<and> segSequence next = segSequence segment
        then Some FinConflicts
      else None)"

definition insertOrder :: "u64 \<Rightarrow> reassembler \<Rightarrow> reassembler" where
  "insertOrder sequence r =
     (let at = order_search r sequence in
      r\<lparr>rOrder := take at (rOrder r) @ sequence # drop at (rOrder r)\<rparr>)"

definition removeOrder :: "u64 \<Rightarrow> reassembler \<Rightarrow> reassembler" where
  "removeOrder sequence r =
     (let at = order_search r sequence in
      if at < length (rOrder r) \<and> rOrder r ! at = sequence
      then r\<lparr>rOrder := take at (rOrder r) @ drop (at + 1) (rOrder r)\<rparr> else r)"

section \<open>Insert\<close>

type_synonym insert_result = "(insert_error + bytes \<times> bool) \<times> reassembler \<times> budget option"

definition unbuffer :: "u64 \<Rightarrow> segment \<Rightarrow> reassembler \<Rightarrow> reassembler" where
  "unbuffer k s r =
     (let r1 = removeOrder k (r\<lparr>rBuffer := AList.delete k (rBuffer r)\<rparr>) in
      r1\<lparr>rBytes := rBytes r1 - len64 (segPayload s)\<rparr>)"

lemma removeOrder_buffer [simp]: "rBuffer (removeOrder k r) = rBuffer r"
  by (simp add: removeOrder_def Let_def)

lemma unbuffer_buffer: "rBuffer (unbuffer k s r) = AList.delete k (rBuffer r)"
  by (simp add: unbuffer_def Let_def)

lemma length_delete_less: "map_of al k = Some v \<Longrightarrow> length (AList.delete k al) < length al"
  by (induction al) (auto simp: delete_simps intro: le_less_trans [OF length_delete_le] split: if_splits)

text \<open>The loop of \<^verbatim>\<open>consumeContiguous\<close>: each round takes a segment out of the buffer.\<close>

function consume :: "segment \<Rightarrow> bytes \<Rightarrow> reassembler \<Rightarrow> budget option \<Rightarrow> insert_result" where
  "consume current output r memory =
     (if segSequence current \<noteq> rNext r then (Inl CursorMismatch, r, memory)
      else if segFinal current then
        (Inr (output, True), r\<lparr>rFinalAt := Some (segSequence current)\<rparr>, memory)
      else
        let output' = output @ segPayload current in
        case (if segCharged current then Release memory (int (length (segPayload current)))
              else Inr memory) of
          Inl p \<Rightarrow> (Inl (ReleasePanic p), r, memory)
        | Inr memory' \<Rightarrow>
          let next = rNext r + len64 (segPayload current); r1 = r\<lparr>rNext := next\<rparr> in
          (case map_of (rBuffer r1) next of
             Some s \<Rightarrow> consume s output' (unbuffer next s r1) memory'
           | None \<Rightarrow> (Inr (output', Closed r1), r1, memory')))"
  by pat_completeness auto
termination
  by (relation "measure (\<lambda>(current, output, r, memory). length (rBuffer r))")
    (auto simp: unbuffer_buffer intro: length_delete_less)

declare consume.simps [simp del]

definition consumeContiguous :: "segment \<Rightarrow> reassembler \<Rightarrow> budget option \<Rightarrow> insert_result" where
  "consumeContiguous first r memory = consume first [] r memory"

definition retain :: "segment \<Rightarrow> reassembler \<Rightarrow> reassembler" where
  "retain s r =
     (let r1 = insertOrder (segSequence s) (r\<lparr>rBuffer := AList.update (segSequence s) s (rBuffer r)\<rparr>);
          r2 = r1\<lparr>rBytes := rBytes r1 + len64 (segPayload s)\<rparr> in
      if segFinal s then r2\<lparr>rFinalAt := Some (segSequence s)\<rparr> else r2)"

definition Insert :: "segment \<Rightarrow> reassembler \<Rightarrow> budget option \<Rightarrow> insert_result" where
  "Insert segment r memory =
     (let fail = (\<lambda>e. (Inl e, r, memory)) in
      if segFinal segment \<and> length (segPayload segment) \<noteq> 0 then fail FinCarriesPayload
      else if \<not> segFinal segment \<and> length (segPayload segment) = 0 then fail EmptyDataSegment
      else if segSequence segment > - 1 - len64 (segPayload segment) then fail ErrSequence
      else
        let end = (if segFinal segment then segSequence segment
                   else segSequence segment + len64 (segPayload segment)) in
        if segSequence segment < rNext r then
          (if end \<le> rNext r then (Inr ([], Closed r), r, memory) else fail OverlapsCursor)
        else case map_of (rBuffer r) (segSequence segment) of
          Some existing \<Rightarrow>
            if segFinal existing = segFinal segment \<and> segPayload existing = segPayload segment
            then (Inr ([], Closed r), r, memory) else fail ConflictingDuplicate
        | None \<Rightarrow>
          (case checkNeighbours r segment end of
             Some e \<Rightarrow> fail e
           | None \<Rightarrow>
             if segSequence segment \<noteq> rNext r then
               (if int (length (rBuffer r)) + 1 > MaxBufferedFrames (rCfg r)
                   \<or> rBytes r + len64 (segPayload segment) > MaxBufferedBytes (rCfg r)
                then fail ErrWindowExceeded
                else case TryAcquire memory (int (length (segPayload segment))) of
                  (False, _) \<Rightarrow> fail ErrMemoryBudget
                | (True, memory') \<Rightarrow>
                  let r' = retain (segment\<lparr>segCharged := True\<rparr>) r in
                  (Inr ([], Closed r'), r', memory'))
             else consumeContiguous segment r memory))"

section \<open>Close and reports\<close>

definition close_reassembler :: "reassembler \<Rightarrow> budget option \<Rightarrow> panic + reassembler \<times> budget option" where
  "close_reassembler r memory =
     and_then (release_all Release memory
         (map (\<lambda>(k, s). int (length (segPayload s))) (filter (\<lambda>(k, s). segCharged s) (rBuffer r))))
       (\<lambda>memory'. Inr (r\<lparr>rBuffer := [], rOrder := [], rBytes := 0\<rparr>, memory'))"

definition BufferedSequences :: "reassembler \<Rightarrow> u64 list" where
  "BufferedSequences r = rOrder r"

text \<open>The loop of \<^verbatim>\<open>ReceivedRanges\<close> over \<^verbatim>\<open>r.order\<close>, with the ranges gathered so far.\<close>

fun gather :: "reassembler \<Rightarrow> u64 list \<Rightarrow> span list \<Rightarrow> span list" where
  "gather r [] ranges = ranges"
| "gather r (start # rest) ranges =
     (let segment = buffered r start; end = start + len64 (segPayload segment) in
      if segFinal segment then gather r rest ranges
      else if ranges \<noteq> [] \<and> span_hi (last ranges) = start
        then gather r rest (butlast ranges @ [Span (span_lo (last ranges)) end])
      else gather r rest (ranges @ [Span start end]))"

definition ReceivedRanges :: "int \<Rightarrow> reassembler \<Rightarrow> span list" where
  "ReceivedRanges limit r =
     (if limit \<le> 0 \<or> length (rBuffer r) = 0 then []
      else let ranges = gather r (rOrder r) [] in
        if int (length ranges) > limit then take (nat limit) ranges else ranges)"

section \<open>Invariant\<close>

abbreviation lookup :: "reassembler \<Rightarrow> u64 \<Rightarrow> segment option" where
  "lookup r \<equiv> map_of (rBuffer r)"

definition seg_hi :: "segment \<Rightarrow> u64" where
  "seg_hi s = segSequence s + len64 (segPayload s)"

text \<open>A data segment carries bytes, a FIN none, and no segment runs past the sequence space.\<close>

definition seg_wf :: "segment \<Rightarrow> bool" where
  "seg_wf s \<longleftrightarrow> (segFinal s \<longleftrightarrow> segPayload s = []) \<and> unat (segSequence s) + length (segPayload s) < 2 ^ 64"

definition held_bytes :: "reassembler \<Rightarrow> nat" where
  "held_bytes r = (\<Sum>k\<in>set (rOrder r). length (segPayload (buffered r k)))"

definition keys_ok :: "reassembler \<Rightarrow> bool" where
  "keys_ok r \<longleftrightarrow> sorted (rOrder r) \<and> distinct (rOrder r) \<and> distinct (map fst (rBuffer r)) \<and>
     set (rOrder r) = dom (lookup r)"

definition segs_ok :: "reassembler \<Rightarrow> bool" where
  "segs_ok r \<longleftrightarrow>
     (\<forall>k s. lookup r k = Some s \<longrightarrow> segSequence s = k \<and> seg_wf s \<and> segCharged s) \<and>
     (\<forall>k s k' s'. lookup r k = Some s \<longrightarrow> lookup r k' = Some s' \<longrightarrow> k < k' \<longrightarrow> seg_hi s \<le> k')"

definition reasm_ok :: "reassembler \<Rightarrow> bool" where
  "reasm_ok r \<longleftrightarrow> keys_ok r \<and> segs_ok r \<and> unat (rBytes r) = held_bytes r \<and>
     rBytes r \<le> MaxBufferedBytes (rCfg r) \<and> int (length (rBuffer r)) \<le> MaxBufferedFrames (rCfg r)"

text \<open>Between operations nothing is buffered at or below the cursor.\<close>

definition ahead :: "reassembler \<Rightarrow> bool" where
  "ahead r \<longleftrightarrow> (\<forall>k \<in> set (rOrder r). rNext r < k)"

lemma seg_wf_hi:
  assumes "seg_wf s"
  shows "unat (seg_hi s) = unat (segSequence s) + length (segPayload s)"
  using assms by (auto simp: seg_wf_def seg_hi_def len64_def intro!: unat_add_nat_no_wrap)

lemma seg_wf_hi_gt: "seg_wf s \<Longrightarrow> segPayload s \<noteq> [] \<Longrightarrow> segSequence s < seg_hi s"
  by (simp add: word_less_nat_alt seg_wf_hi)

lemma seg_wf_hi_final: "seg_wf s \<Longrightarrow> segFinal s \<Longrightarrow> seg_hi s = segSequence s"
  by (simp add: seg_wf_def seg_hi_def len64_def)

lemma seg_wf_hi_ge: "seg_wf s \<Longrightarrow> segSequence s \<le> seg_hi s"
  by (simp add: word_le_nat_alt seg_wf_hi)

lemma unat_len64: "seg_wf s \<Longrightarrow> unat (len64 (segPayload s)) = length (segPayload s)"
  by (auto simp: seg_wf_def len64_def intro!: unat_of_nat_small)

lemma buffered_lookup: "lookup r k = Some s \<Longrightarrow> buffered r k = s"
  by (simp add: buffered_def)

lemma retain_buffer: "rBuffer (retain s r) = AList.update (segSequence s) s (rBuffer r)"
  by (simp add: retain_def insertOrder_def Let_def)

text \<open>What taking a segment in and out does to the fields.\<close>

lemma retain_fields:
  assumes "keys_ok r"
  shows "lookup (retain s r) = (lookup r)(segSequence s \<mapsto> s)"
    "rOrder (retain s r) = insort (segSequence s) (rOrder r)"
    "rNext (retain s r) = rNext r" "rCfg (retain s r) = rCfg r"
    "rBytes (retain s r) = rBytes r + len64 (segPayload s)"
    "rFinalAt (retain s r) = (if segFinal s then Some (segSequence s) else rFinalAt r)"
proof -
  have "take (order_search r k) (rOrder r) @ k # drop (order_search r k) (rOrder r)
      = insort k (rOrder r)" for k
    using search_key_insert [of "\<lambda>x. x" "rOrder r" k] assms
    by (simp add: keys_ok_def order_search_def)
  then show "rOrder (retain s r) = insort (segSequence s) (rOrder r)"
    by (simp add: retain_def insertOrder_def order_search_def Let_def)
qed (simp_all add: retain_def insertOrder_def Let_def update_conv')

lemma order_search_at:
  assumes "keys_ok r"
  shows "order_search r k \<le> length (rOrder r)"
    "\<forall>x\<in>set (take (order_search r k) (rOrder r)). x < k"
    "\<forall>x\<in>set (drop (order_search r k) (rOrder r)). k \<le> x"
  using search_key_split [of "\<lambda>x. x" "rOrder r" k] assms
  by (simp_all add: keys_ok_def order_search_def)

lemma removeOrder_remove1:
  assumes "keys_ok r"
  shows "rOrder (removeOrder k r) = remove1 k (rOrder r)"
proof -
  let ?at = "order_search r k" and ?xs = "rOrder r"
  have mem: "(?at < length ?xs \<and> ?xs ! ?at = k) \<longleftrightarrow> k \<in> set ?xs"
    using search_key_mem [of "\<lambda>x. x" ?xs k] assms by (simp add: keys_ok_def order_search_def)
  show ?thesis
  proof (cases "k \<in> set ?xs")
    case True
    with mem have at: "?at < length ?xs" "?xs ! ?at = k" by simp_all
    have "k \<notin> set (take ?at ?xs)"
      using order_search_at(2) [OF assms, of k] by auto
    moreover have "?xs = take ?at ?xs @ k # drop (?at + 1) ?xs"
      using id_take_nth_drop [OF at(1)] at(2) by simp
    ultimately have "remove1 k ?xs = take ?at ?xs @ drop (?at + 1) ?xs"
      by (metis remove1.simps(2) remove1_append)
    then show ?thesis using at by (simp add: removeOrder_def Let_def)
  next
    case False
    with mem show ?thesis by (auto simp: removeOrder_def Let_def remove1_idem)
  qed
qed

lemma unbuffer_fields:
  assumes "keys_ok r"
  shows "lookup (unbuffer k s r) = (lookup r)(k := None)"
    "rOrder (unbuffer k s r) = remove1 k (rOrder r)"
    "rNext (unbuffer k s r) = rNext r" "rCfg (unbuffer k s r) = rCfg r"
    "rFinalAt (unbuffer k s r) = rFinalAt r"
    "rBytes (unbuffer k s r) = rBytes r - len64 (segPayload s)"
proof -
  have "rOrder (removeOrder k (r\<lparr>rBuffer := b\<rparr>)) = remove1 k (rOrder r)" for b
    using removeOrder_remove1 [OF assms, of k]
    by (auto simp: removeOrder_def order_search_def Let_def split: if_splits)
  then show "rOrder (unbuffer k s r) = remove1 k (rOrder r)"
    by (simp add: unbuffer_def Let_def)
qed (simp_all add: unbuffer_def removeOrder_def Let_def delete_conv')

lemma update_new_length: "map_of al k = None \<Longrightarrow> length (AList.update k s al) = Suc (length al)"
  by (induction al) (auto split: if_splits)

lemma keys_ok_retain:
  assumes "keys_ok r" and "lookup r (segSequence s) = None"
  shows "keys_ok (retain s r)"
proof -
  have "segSequence s \<notin> set (rOrder r)"
    using assms by (auto simp: keys_ok_def)
  then show ?thesis
    using assms
    by (simp add: keys_ok_def retain_fields(2) [OF assms(1)] retain_buffer distinct_insort
        sorted_insort distinct_update set_insort_key update_conv')
qed

lemma keys_ok_unbuffer:
  assumes "keys_ok r"
  shows "keys_ok (unbuffer k s r)"
proof -
  have "distinct (map fst (rBuffer (unbuffer k s r)))"
    using assms by (simp add: unbuffer_buffer keys_ok_def distinct_delete)
  then show ?thesis
    using assms unbuffer_fields(1,2) [OF assms, of k s]
    by (auto simp: keys_ok_def sorted_remove1)
qed

lemma keys_ok_next [simp]: "keys_ok (r\<lparr>rNext := n\<rparr>) = keys_ok r"
  by (simp add: keys_ok_def)

lemma buffered_retain:
  assumes "keys_ok r"
  shows "buffered (retain s r) k = (if k = segSequence s then s else buffered r k)"
  by (simp add: buffered_def retain_fields(1) [OF assms])

lemma buffered_unbuffer:
  assumes "keys_ok r" and "k' \<noteq> k"
  shows "buffered (unbuffer k s r) k' = buffered r k'"
  using assms(2) by (simp add: buffered_def unbuffer_fields(1) [OF assms(1)])

lemma held_bytes_retain:
  assumes "keys_ok r" and "lookup r (segSequence s) = None"
  shows "held_bytes (retain s r) = held_bytes r + length (segPayload s)"
proof -
  have new: "segSequence s \<notin> set (rOrder r)"
    using assms by (auto simp: keys_ok_def)
  then have "(\<Sum>k\<in>set (rOrder r). length (segPayload (buffered (retain s r) k))) = held_bytes r"
    unfolding held_bytes_def by (intro sum.cong) (auto simp: buffered_retain [OF assms(1)])
  with new show ?thesis
    by (simp add: held_bytes_def retain_fields [OF assms(1)] set_insort_key buffered_retain [OF assms(1)])
qed

lemma held_bytes_unbuffer:
  assumes "keys_ok r" and "lookup r k = Some s"
  shows "held_bytes r = held_bytes (unbuffer k s r) + length (segPayload s)"
proof -
  have k: "k \<in> set (rOrder r)" and "distinct (rOrder r)"
    using assms by (auto simp: keys_ok_def)
  then have "set (rOrder (unbuffer k s r)) = set (rOrder r) - {k}"
    by (simp add: unbuffer_fields [OF assms(1)])
  moreover have "(\<Sum>k'\<in>set (rOrder r) - {k}. length (segPayload (buffered (unbuffer k s r) k')))
      = (\<Sum>k'\<in>set (rOrder r) - {k}. length (segPayload (buffered r k')))"
    by (intro sum.cong) (auto simp: buffered_unbuffer [OF assms(1)])
  ultimately show ?thesis
    using sum.remove [OF _ k, of "\<lambda>k'. length (segPayload (buffered r k'))"] buffered_lookup [OF assms(2)]
    by (simp add: held_bytes_def)
qed

text \<open>\<^verbatim>\<open>checkNeighbours\<close> looks at two segments and decides for all of them.\<close>

lemma checkNeighbours_None:
  assumes keys: "keys_ok r" and segs: "segs_ok r" and wf: "seg_wf seg"
    and new: "lookup r (segSequence seg) = None"
  shows "checkNeighbours r seg (seg_hi seg) = None \<longleftrightarrow>
    (\<forall>k s. lookup r k = Some s \<longrightarrow>
      (k < segSequence seg \<longrightarrow> seg_hi s \<le> segSequence seg) \<and>
      (segSequence seg < k \<longrightarrow> seg_hi seg \<le> k))" (is "_ \<longleftrightarrow> ?free")
proof -
  let ?q = "segSequence seg" and ?xs = "rOrder r"
  let ?at = "order_search r ?q"
  note at = order_search_at [OF keys, of ?q]
  have in_keys: "k \<in> set ?xs \<longleftrightarrow> (\<exists>s. lookup r k = Some s)" for k
    using keys by (auto simp: keys_ok_def)
  have seg: "segSequence s = k" "seg_wf s" if "lookup r k = Some s" for k s
    using segs that by (auto simp: segs_ok_def)
  have hi: "(if segFinal s then segSequence s else segSequence s + len64 (segPayload s)) = seg_hi s"
    if "lookup r k = Some s" for k s
    using seg [OF that] seg_wf_hi_final by (auto simp: seg_hi_def)
  show ?thesis
  proof
    assume none: "checkNeighbours r seg (seg_hi seg) = None"
    show ?free
    proof (intro allI impI conjI)
      fix k s assume k: "lookup r k = Some s" and lt: "k < ?q"
      then have "k \<in> set (take ?at ?xs)"
        using at(3) in_keys [of k] by (metis Un_iff append_take_drop_id not_le set_append)
      then obtain i where i: "i < ?at" "k = ?xs ! i" "i < length ?xs"
        by (auto simp: in_set_conv_nth)
      let ?p = "?xs ! (?at - 1)"
      have p: "?at - 1 < length ?xs" "k \<le> ?p"
        using i at(1) keys by (auto simp: keys_ok_def intro!: sorted_nth_mono)
      then obtain t where t: "lookup r ?p = Some t"
        using in_keys [of ?p] nth_mem by blast
      have "seg_hi t \<le> ?q"
        using none i(1) hi [OF t] buffered_lookup [OF t]
        by (auto simp: checkNeighbours_def Let_def not_less split: if_splits)
      moreover have "seg_hi s \<le> seg_hi t"
      proof (cases "k = ?p")
        case True
        then show ?thesis using k t by simp
      next
        case False
        then have "seg_hi s \<le> ?p"
          using segs k t order_le_neq_trans [OF p(2) False] unfolding segs_ok_def by blast
        then show ?thesis using seg [OF t] seg_wf_hi_ge [of t] by simp
      qed
      ultimately show "seg_hi s \<le> ?q" by simp
    next
      fix k s assume k: "lookup r k = Some s" and lt: "?q < k"
      then have "k \<in> set (drop ?at ?xs)"
        using at(2) in_keys [of k] by (metis Un_iff append_take_drop_id not_less_iff_gr_or_eq set_append)
      then obtain i where i: "k = ?xs ! (?at + i)" "?at + i < length ?xs"
        by (auto simp: in_set_conv_nth)
      let ?n = "?xs ! ?at"
      have n: "?at < length ?xs" "?n \<le> k"
        using i keys by (auto simp: keys_ok_def intro!: sorted_nth_mono)
      then obtain t where t: "lookup r ?n = Some t"
        using in_keys [of ?n] nth_mem by blast
      then have "seg_hi seg \<le> ?n"
        using none n(1) buffered_lookup [OF t] seg(1) [OF t]
        by (auto simp: checkNeighbours_def Let_def not_less split: if_splits)
      with n(2) show "seg_hi seg \<le> k" by simp
    qed
  next
    assume free: ?free
    have prev: "?at > 0 \<Longrightarrow> \<exists>t. lookup r (?xs ! (?at - 1)) = Some t \<and> seg_hi t \<le> ?q"
    proof -
      assume pos: "?at > 0"
      then have "?xs ! (?at - 1) \<in> set (take ?at ?xs)"
        using at(1) by (auto simp: in_set_conv_nth intro!: exI [of _ "?at - 1"])
      then show ?thesis
        using at(2) free in_keys by (meson in_set_takeD)
    qed
    have next': "?at < length ?xs \<Longrightarrow> \<exists>t. lookup r (?xs ! ?at) = Some t \<and> ?q < ?xs ! ?at \<and> seg_hi seg \<le> ?xs ! ?at"
    proof -
      assume len: "?at < length ?xs"
      then have "?xs ! ?at \<in> set (drop ?at ?xs)"
        by (simp add: Cons_nth_drop_Suc [symmetric])
      moreover obtain t where t: "lookup r (?xs ! ?at) = Some t"
        using in_keys nth_mem [OF len] by blast
      ultimately have "?q < ?xs ! ?at"
        using at(3) new by (metis order_less_le option.distinct(1))
      with t free show ?thesis by blast
    qed
    have prevE: "\<not> ?q < (if segFinal p then segSequence p else segSequence p + len64 (segPayload p))"
      if pos: "?at > 0" and p: "p = buffered r (?xs ! (?at - 1))" for p
    proof -
      obtain t where t: "lookup r (?xs ! (?at - 1)) = Some t" "seg_hi t \<le> ?q"
        using prev [OF pos] by blast
      then have "p = t" using p by (simp add: buffered_lookup)
      with hi [OF t(1)] t(2) show ?thesis by (simp add: not_less split: if_splits)
    qed
    have nextE: "\<not> segSequence n < seg_hi seg \<and> segSequence n \<noteq> ?q"
      if "?at < length ?xs" "n = buffered r (?xs ! ?at)" for n
      using next' [OF that(1)] seg(1) that(2) by (auto simp: buffered_lookup not_less)
    show "checkNeighbours r seg (seg_hi seg) = None"
      using prevE [OF _ refl] nextE [OF _ refl] unfolding checkNeighbours_def Let_def by argo
  qed
qed

section \<open>What Insert does\<close>

text \<open>The bytes the reassembler has accepted: delivered ones and buffered ones.\<close>

definition covered :: "reassembler \<Rightarrow> u64 set" where
  "covered r = {x. x < rNext r} \<union> {x. \<exists>k s. lookup r k = Some s \<and> k \<le> x \<and> x < seg_hi s}"

text \<open>A segment of the byte stream \<open>S\<close>.\<close>

definition from_stream :: "(nat \<Rightarrow> byte) \<Rightarrow> segment \<Rightarrow> bool" where
  "from_stream S s \<longleftrightarrow>
     segPayload s = map S [unat (segSequence s)..<unat (segSequence s) + length (segPayload s)]"

definition all_from_stream :: "(nat \<Rightarrow> byte) \<Rightarrow> reassembler \<Rightarrow> bool" where
  "all_from_stream S r \<longleftrightarrow> (\<forall>k s. lookup r k = Some s \<longrightarrow> from_stream S s)"

definition inner_ok :: "reassembler \<Rightarrow> bool" where
  "inner_ok r \<longleftrightarrow> keys_ok r \<and> segs_ok r \<and> unat (rBytes r) = held_bytes r"

definition current_ok :: "segment \<Rightarrow> reassembler \<Rightarrow> bool" where
  "current_ok cur r \<longleftrightarrow> seg_wf cur \<and> segSequence cur = rNext r \<and>
     (\<forall>k s. lookup r k = Some s \<longrightarrow> rNext r < k \<and> seg_hi cur \<le> k)"

definition delivers :: "reassembler \<Rightarrow> bytes \<Rightarrow> reassembler \<Rightarrow> bool" where
  "delivers r new r' \<longleftrightarrow>
     inner_ok r' \<and> ahead r' \<and> rCfg r' = rCfg r \<and> rBytes r' \<le> rBytes r \<and>
     length (rBuffer r') \<le> length (rBuffer r) \<and>
     unat (rNext r') = unat (rNext r) + length new \<and>
     (\<forall>k s. lookup r' k = Some s \<longrightarrow> lookup r k = Some s)"

lemma inner_ok_next [simp]: "inner_ok (r\<lparr>rNext := n\<rparr>) = inner_ok r"
  by (simp add: inner_ok_def segs_ok_def held_bytes_def buffered_def)

lemma inner_ok_final [simp]: "inner_ok (r\<lparr>rFinalAt := n\<rparr>) = inner_ok r"
  by (simp add: inner_ok_def keys_ok_def segs_ok_def held_bytes_def buffered_def)

lemma inner_ok_unbuffer:
  assumes "inner_ok r" and s: "lookup r k = Some s"
  shows "inner_ok (unbuffer k s r)" "rBytes (unbuffer k s r) \<le> rBytes r"
proof -
  have keys: "keys_ok r" and "segs_ok r" and bts: "unat (rBytes r) = held_bytes r"
    using assms by (simp_all add: inner_ok_def)
  note f = unbuffer_fields [OF keys, of k s]
  have "segs_ok (unbuffer k s r)"
    using \<open>segs_ok r\<close> unfolding segs_ok_def f by (auto split: if_splits)
  have len: "unat (len64 (segPayload s)) = length (segPayload s)"
    using \<open>segs_ok r\<close> s by (auto simp: segs_ok_def unat_len64)
  have held: "held_bytes r = held_bytes (unbuffer k s r) + length (segPayload s)"
    by (rule held_bytes_unbuffer [OF keys s])
  then have le: "len64 (segPayload s) \<le> rBytes r"
    using bts held len by (simp add: word_le_nat_alt)
  then have "unat (rBytes (unbuffer k s r)) = held_bytes (unbuffer k s r)"
    using bts len held le by (simp add: f unat_sub_no_wrap)
  then show "inner_ok (unbuffer k s r)"
    using \<open>segs_ok (unbuffer k s r)\<close> keys_ok_unbuffer [OF keys] by (simp add: inner_ok_def)
  show "rBytes (unbuffer k s r) \<le> rBytes r"
    using le by (simp add: f word_le_nat_alt unat_sub_no_wrap)
qed

text \<open>Stepping over a data segment: the next buffered one, if it starts at the new cursor, is current.\<close>

lemma current_ok_step:
  assumes ok: "inner_ok r" "current_ok cur r" "\<not> segFinal cur"
    and s: "lookup r (seg_hi cur) = Some s"
  shows "current_ok s (unbuffer (seg_hi cur) s (r\<lparr>rNext := seg_hi cur\<rparr>))"
    and "covered (unbuffer (seg_hi cur) s (r\<lparr>rNext := seg_hi cur\<rparr>)) \<union> {seg_hi cur..<seg_hi s}
      = covered r \<union> {rNext r..<seg_hi cur}"
proof -
  let ?n = "seg_hi cur"
  let ?r1 = "r\<lparr>rNext := ?n\<rparr>"
  have keys: "keys_ok ?r1" and segs: "segs_ok r"
    using ok(1) by (simp_all add: inner_ok_def)
  note f = unbuffer_fields [OF keys, of ?n s]
  have seq: "segSequence s = ?n" "seg_wf s"
    using segs s by (auto simp: segs_ok_def)
  have cur: "rNext r \<le> ?n" "\<And>k t. lookup r k = Some t \<Longrightarrow> ?n \<le> k"
    using ok(2) seg_wf_hi_ge [of cur] by (auto simp: current_ok_def)
  show "current_ok s (unbuffer ?n s ?r1)"
    using seq cur(2) segs s unfolding current_ok_def f segs_ok_def
    by (auto simp: order_le_neq_trans split: if_splits)
  have "?n \<le> seg_hi s" using seg_wf_hi_ge [OF seq(2)] seq(1) by simp
  then show "covered (unbuffer ?n s ?r1) \<union> {?n..<seg_hi s} = covered r \<union> {rNext r..<?n}"
    using cur(1) s unfolding covered_def f
    by (auto split: if_splits) (metis not_le option.inject order_less_le_trans | fastforce)+
qed

definition charge_of :: "segment \<Rightarrow> int" where
  "charge_of s = (if segCharged s then int (length (segPayload s)) else 0)"

lemma charge_of_nonneg [simp]: "0 \<le> charge_of s"
  by (simp add: charge_of_def)

lemma release_charge:
  assumes "byte_meter TryAcquire Release C" and "C memory (m + charge_of s)" and "0 \<le> m"
  shows "\<exists>memory'. (if segCharged s then Release memory (int (length (segPayload s))) else Inr memory)
      = Inr memory' \<and> C memory' m"
  using assms byte_meter.release_covered [OF assms(1), of memory m "int (length (segPayload s))"]
  by (auto simp: charge_of_def)

lemma covered_upto_next:
  assumes "\<not> (\<exists>s. lookup r n = Some s)" and "rNext r \<le> n"
  shows "covered (r\<lparr>rNext := n\<rparr>) = covered r \<union> {rNext r..<n}"
  using assms(2) by (auto simp: covered_def)

lemma covered_final [simp]: "covered (r\<lparr>rFinalAt := x\<rparr>) = covered r"
  by (simp add: covered_def)

text \<open>
  The loop of \<^verbatim>\<open>consumeContiguous\<close>, started on a segment at the cursor: it never fails, moves the
  cursor by what it outputs, and gives back the memory of what it takes from the buffer.
\<close>

lemma consume_spec:
  assumes meter: "byte_meter TryAcquire Release C"
    and "inner_ok r" and "current_ok cur r"
    and "C memory (m + int (held_bytes r) + charge_of cur)" and "0 \<le> m"
  shows "\<exists>new r' memory'. consume cur out r memory = (Inr (out @ new, Closed r'), r', memory')
    \<and> delivers r new r' \<and> C memory' (m + int (held_bytes r'))
    \<and> covered r' = covered r \<union> {rNext r..<seg_hi cur}
    \<and> (\<forall>S. from_stream S cur \<and> all_from_stream S r \<longrightarrow>
          new = map S [unat (rNext r)..<unat (rNext r')])"
  using assms(2-)
proof (induction cur out r memory rule: consume.induct)
  case (1 cur out r memory)
  note ok = "1.prems"(1,2)
  have keys: "keys_ok r" using ok(1) by (simp add: inner_ok_def)
  have seq: "segSequence cur = rNext r" and wf: "seg_wf cur"
    using ok(2) by (simp_all add: current_ok_def)
  have above: "rNext r < k" "seg_hi cur \<le> k" if "lookup r k = Some t" for k t
    using ok(2) that by (auto simp: current_ok_def)
  show ?case
  proof (cases "segFinal cur")
    case True
    then have res: "consume cur out r memory = (Inr (out, True), r\<lparr>rFinalAt := Some (rNext r)\<rparr>, memory)"
      by (simp add: consume.simps [of cur] seq)
    have "ahead (r\<lparr>rFinalAt := Some (rNext r)\<rparr>)"
      using keys above by (auto simp: ahead_def keys_ok_def)
    then have "delivers r [] (r\<lparr>rFinalAt := Some (rNext r)\<rparr>)"
      using ok(1) by (simp add: delivers_def)
    moreover have "C memory (m + int (held_bytes (r\<lparr>rFinalAt := Some (rNext r)\<rparr>)))"
    proof -
      have "charge_of cur = 0" using wf True by (simp add: seg_wf_def charge_of_def)
      then show ?thesis using "1.prems"(3) by (simp add: held_bytes_def buffered_def)
    qed
    ultimately show ?thesis
      using wf True seq by (auto simp: res Closed_def seg_wf_hi_final)
  next
    case data: False
    let ?n = "seg_hi cur" and ?p = "segPayload cur"
    let ?r1 = "r\<lparr>rNext := ?n\<rparr>"
    have n: "rNext r + len64 ?p = ?n" by (simp add: seg_hi_def seq)
    have n_unat: "unat ?n = unat (rNext r) + length ?p"
      using seg_wf_hi [OF wf] by (simp add: seq)
    obtain memory1 where mem1: "(if segCharged cur then Release memory (int (length ?p)) else Inr memory)
        = Inr memory1" "C memory1 (m + int (held_bytes r))"
      using release_charge [OF meter "1.prems"(3)] "1.prems"(4) by auto
    show ?thesis
    proof (cases "lookup r ?n")
      case None
      have res: "consume cur out r memory = (Inr (out @ ?p, Closed ?r1), ?r1, memory1)"
        using data mem1(1) None by (simp add: consume.simps [of cur] seq Let_def n)
      have "?n < k" if "lookup r k = Some t" for k t
        using above(2) [OF that] that None by (metis option.distinct(1) order_le_imp_less_or_eq)
      then have "ahead ?r1"
        using keys by (auto simp: ahead_def keys_ok_def)
      then have "delivers r ?p ?r1"
        using ok(1) n_unat by (simp add: delivers_def)
      moreover have "covered ?r1 = covered r \<union> {rNext r..<?n}"
        using None seg_wf_hi_ge [OF wf] by (intro covered_upto_next) (auto simp: seq)
      ultimately show ?thesis
        using mem1(2) seq n_unat
        by (auto simp: res from_stream_def held_bytes_def buffered_def intro!: exI [of _ ?p])
    next
      case (Some s)
      let ?r2 = "unbuffer ?n s ?r1"
      have keys1: "keys_ok ?r1" using keys by simp
      note f = unbuffer_fields [OF keys1, of ?n s]
      have res: "consume cur out r memory = consume s (out @ ?p) ?r2 memory1"
        using data mem1(1) Some by (simp add: consume.simps [of cur] seq Let_def n)
      have s: "segCharged s"
        using ok(1) Some by (auto simp: inner_ok_def segs_ok_def)
      have r2: "inner_ok ?r2" "rBytes ?r2 \<le> rBytes r"
        using inner_ok_unbuffer [of ?r1 ?n s] ok(1) Some by simp_all
      note cur2 = current_ok_step [OF ok data Some]
      have held: "held_bytes r = held_bytes ?r2 + length (segPayload s)"
        using held_bytes_unbuffer [OF keys1, of ?n s] Some
        by (simp add: held_bytes_def buffered_def)
      then have "C memory1 (m + int (held_bytes ?r2) + charge_of s)"
        using mem1(2) s by (simp add: charge_of_def algebra_simps)
      then obtain new r' memory' where
        step: "consume s (out @ ?p) ?r2 memory1 = (Inr ((out @ ?p) @ new, Closed r'), r', memory')"
          "delivers ?r2 new r'" "C memory' (m + int (held_bytes r'))"
          "covered r' = covered ?r2 \<union> {rNext ?r2..<seg_hi s}"
          "\<forall>S. from_stream S s \<and> all_from_stream S ?r2 \<longrightarrow> new = map S [unat (rNext ?r2)..<unat (rNext r')]"
        using "1.IH" [OF _ data refl mem1(1) _ _ _ r2(1) cur2(1)] Some seq "1.prems"(4)
        by (auto simp: n)
      have len: "length (rBuffer ?r2) \<le> length (rBuffer r)"
        using length_delete_le [of ?n "rBuffer r"] by (simp add: unbuffer_buffer)
      have sub: "lookup r k = Some t" if "lookup ?r2 k = Some t" for k t
        using that by (simp add: f(1) split: if_splits)
      have next2: "rNext ?r2 = ?n" "rCfg ?r2 = rCfg r"
        by (simp_all add: f(3,4))
      have del: "delivers r (?p @ new) r'"
        using step(2) r2(2) len n_unat sub unfolding delivers_def next2
        by (auto intro: order_trans)
      have cov: "covered r' = covered r \<union> {rNext r..<?n}"
        using step(4) cur2(2) by (simp add: f)
      have "?p @ new = map S [unat (rNext r)..<unat (rNext r')]"
        if S: "from_stream S cur \<and> all_from_stream S r" for S
      proof -
        have "from_stream S s" "all_from_stream S ?r2"
          using S Some by (auto simp: all_from_stream_def f split: if_splits)
        then have "new = map S [unat ?n..<unat (rNext r')]"
          using step(5) by (simp add: f)
        moreover have "?p = map S [unat (rNext r)..<unat ?n]"
          using S seq n_unat by (simp add: from_stream_def)
        moreover have "[unat (rNext r)..<unat (rNext r')]
            = [unat (rNext r)..<unat ?n] @ [unat ?n..<unat (rNext r')]"
          using n_unat step(2) upt_add_eq_append [of "unat (rNext r)" "unat ?n" "length new"]
          by (simp add: delivers_def f)
        ultimately show ?thesis by simp
      qed
      then show ?thesis
        using step(1,3) del cov by (intro exI [of _ "?p @ new"] exI [of _ r'] exI [of _ memory'])
          (simp add: res)
    qed
  qed
qed

text \<open>A buffered segment and a new one, disjoint from all buffered ones, fit in the sequence space.\<close>

lemma held_bytes_fits:
  assumes keys: "keys_ok r" and segs: "segs_ok r"
    and pos: "\<forall>k\<in>set (rOrder r). 0 < k"
  shows "held_bytes r < 2 ^ 64"
proof -
  let ?I = "\<lambda>k. {unat k..<unat (seg_hi (buffered r k))}"
  have seg: "\<exists>s. lookup r k = Some s \<and> buffered r k = s \<and> segSequence s = k \<and> seg_wf s"
    if "k \<in> set (rOrder r)" for k
    using that keys segs by (auto simp: keys_ok_def segs_ok_def buffered_def)
  have len: "card (?I k) = length (segPayload (buffered r k))" if "k \<in> set (rOrder r)" for k
    using seg [OF that] seg_wf_hi by auto
  have disj: "?I k \<inter> ?I k' = {}" if "k \<in> set (rOrder r)" "k' \<in> set (rOrder r)" "k < k'" for k k'
  proof -
    have "seg_hi (buffered r k) \<le> k'"
      using seg [OF that(1)] seg [OF that(2)] that(3) segs unfolding segs_ok_def by metis
    then show ?thesis by (auto simp: word_le_nat_alt)
  qed
  have "held_bytes r = (\<Sum>k\<in>set (rOrder r). card (?I k))"
    unfolding held_bytes_def using len by simp
  also have "\<dots> = card (\<Union>k\<in>set (rOrder r). ?I k)"
    using disj by (intro card_UN_disjoint [symmetric]) (auto simp: Int_commute dest!: neq_iff [THEN iffD1] intro: antisym)
  also have "\<dots> \<le> card {1..<(2::nat) ^ 64}"
  proof (intro card_mono)
    show "(\<Union>k\<in>set (rOrder r). ?I k) \<subseteq> {1..<2 ^ 64}"
      using pos unat_u64_lt by (fastforce simp: word_less_nat_alt intro: less_trans)
  qed simp
  finally show ?thesis by simp
qed

lemma inner_ok_retain:
  assumes ok: "inner_ok r" and wf: "seg_wf s" "segCharged s" and new: "lookup r (segSequence s) = None"
    and free: "checkNeighbours r s (seg_hi s) = None"
    and ahead: "ahead r" "rNext r < segSequence s"
  shows "inner_ok (retain s r)" and "ahead (retain s r)"
    and "held_bytes (retain s r) = held_bytes r + length (segPayload s)"
proof -
  have keys: "keys_ok r" and segs: "segs_ok r" and bts: "unat (rBytes r) = held_bytes r"
    using ok by (simp_all add: inner_ok_def)
  note f = retain_fields [OF keys, of s]
  show held: "held_bytes (retain s r) = held_bytes r + length (segPayload s)"
    by (rule held_bytes_retain [OF keys new])
  have apart: "\<forall>k t. lookup r k = Some t \<longrightarrow> (k < segSequence s \<longrightarrow> seg_hi t \<le> segSequence s) \<and>
      (segSequence s < k \<longrightarrow> seg_hi s \<le> k)"
    using free checkNeighbours_None [OF keys segs wf(1) new] by simp
  have keys': "keys_ok (retain s r)" by (rule keys_ok_retain [OF keys new])
  have segs': "segs_ok (retain s r)"
    using segs apart wf unfolding segs_ok_def f(1) by (auto split: if_splits)
  show "ahead (retain s r)"
    using ahead by (simp add: ahead_def f set_insort_key)
  have "held_bytes (retain s r) < 2 ^ 64"
    using ahead by (intro held_bytes_fits [OF keys' segs'])
      (auto simp: f set_insort_key ahead_def intro: le_less_trans [of 0])
  then have "unat (rBytes (retain s r)) = held_bytes (retain s r)"
    using bts held unat_len64 [OF wf(1)] by (simp add: f unat_add_no_wrap)
  with keys' segs' show "inner_ok (retain s r)" by (simp add: inner_ok_def)
qed

lemma covered_retain:
  assumes "keys_ok r" and "lookup r (segSequence s) = None"
  shows "covered (retain s r) = covered r \<union> {segSequence s..<seg_hi s}"
  using assms(2)
  by (auto simp: covered_def retain_fields [OF assms(1)]) (metis option.distinct(1))

text \<open>The length of a Go slice is an \<^verbatim>\<open>int\<close>.\<close>

definition go_slice :: "bytes \<Rightarrow> bool" where
  "go_slice p \<longleftrightarrow> length p < 2 ^ 63"

text \<open>A segment as a caller can build it: \<^verbatim>\<open>charged\<close> is not exported.\<close>

definition fresh :: "segment \<Rightarrow> bool" where
  "fresh s \<longleftrightarrow> go_slice (segPayload s) \<and> \<not> segCharged s"

lemma Insert_checks_wf:
  assumes "go_slice (segPayload seg)"
    and "\<not> (segFinal seg \<and> length (segPayload seg) \<noteq> 0)"
    and "\<not> (\<not> segFinal seg \<and> length (segPayload seg) = 0)"
    and "\<not> segSequence seg > - 1 - len64 (segPayload seg)"
  shows "seg_wf seg"
proof -
  have len: "unat (len64 (segPayload seg)) = length (segPayload seg)"
    using assms(1) by (auto simp: len64_def go_slice_def intro!: unat_of_nat_small)
  have max: "unat (- 1 :: u64) = 2 ^ 64 - 1"
    by (simp add: unsigned_minus_1_eq_mask mask_eq_exp_minus_1)
  have "unat (- 1 - len64 (segPayload seg)) = 2 ^ 64 - 1 - length (segPayload seg)"
    using len max by (subst unat_sub_no_wrap) simp_all
  then show ?thesis
    using assms(1-3) assms(4) by (auto simp: seg_wf_def word_less_nat_alt go_slice_def not_less)
qed

lemma Insert_end: "seg_wf seg \<Longrightarrow>
    (if segFinal seg then segSequence seg else segSequence seg + len64 (segPayload seg)) = seg_hi seg"
  using seg_wf_hi_final [of seg] by (simp add: seg_hi_def)

lemma checkNeighbours_charged [simp]:
  "checkNeighbours r (s\<lparr>segCharged := c\<rparr>) e = checkNeighbours r s e"
  by (cases s) (simp only: checkNeighbours_def segment.select_convs segment.update_convs)

lemma from_stream_charged [simp]: "from_stream S (s\<lparr>segCharged := c\<rparr>) = from_stream S s"
  by (simp add: from_stream_def)

text \<open>
  \<^verbatim>\<open>Insert\<close> on every branch. An error changes nothing. Success accepts exactly the segment's bytes,
  outputs exactly the bytes between the old cursor and the new one, keeps the invariant and the
  limits, and leaves the memory budget covering what is still buffered.
\<close>

lemma Insert_spec:
  assumes meter: "byte_meter TryAcquire Release C"
    and ok: "reasm_ok r" and ah: "ahead r" and go: "fresh seg"
    and mem: "C memory (m + int (held_bytes r))" "0 \<le> m"
    and ins: "Insert seg r memory = (res, r', memory')"
  shows "(\<exists>e. res = Inl e \<and> e \<noteq> CursorMismatch \<and> (\<forall>p. e \<noteq> ReleasePanic p) \<and> r' = r \<and> memory' = memory)
    \<or> (\<exists>new. res = Inr (new, Closed r') \<and> seg_wf seg \<and> reasm_ok r' \<and> ahead r'
        \<and> C memory' (m + int (held_bytes r'))
        \<and> unat (rNext r') = unat (rNext r) + length new
        \<and> covered r' = covered r \<union> {segSequence seg..<seg_hi seg}
        \<and> (\<forall>S. from_stream S seg \<and> all_from_stream S r \<longrightarrow>
              new = map S [unat (rNext r)..<unat (rNext r')] \<and> all_from_stream S r'))"
proof (cases "(segFinal seg \<and> length (segPayload seg) \<noteq> 0) \<or>
    (\<not> segFinal seg \<and> length (segPayload seg) = 0) \<or> segSequence seg > - 1 - len64 (segPayload seg)")
  case True
  then show ?thesis using ins by (auto simp: Insert_def Let_def split: if_splits)
next
  case False
  then have wf: "seg_wf seg" using Insert_checks_wf [of seg] go unfolding fresh_def by blast
  have inner: "inner_ok r" and keys: "keys_ok r" and segs: "segs_ok r"
    using ok by (simp_all add: reasm_ok_def inner_ok_def)
  let ?q = "segSequence seg"
  have ins': "Insert seg r memory =
     (if ?q < rNext r then
        (if seg_hi seg \<le> rNext r then (Inr ([], Closed r), r, memory) else (Inl OverlapsCursor, r, memory))
      else case lookup r ?q of
        Some t \<Rightarrow> if segFinal t = segFinal seg \<and> segPayload t = segPayload seg
          then (Inr ([], Closed r), r, memory) else (Inl ConflictingDuplicate, r, memory)
      | None \<Rightarrow> (case checkNeighbours r seg (seg_hi seg) of
          Some e \<Rightarrow> (Inl e, r, memory)
        | None \<Rightarrow> if ?q \<noteq> rNext r then
            (if int (length (rBuffer r)) + 1 > MaxBufferedFrames (rCfg r)
                \<or> rBytes r + len64 (segPayload seg) > MaxBufferedBytes (rCfg r)
             then (Inl ErrWindowExceeded, r, memory)
             else case TryAcquire memory (int (length (segPayload seg))) of
               (False, _) \<Rightarrow> (Inl ErrMemoryBudget, r, memory)
             | (True, memory') \<Rightarrow> (Inr ([], Closed (retain (seg\<lparr>segCharged := True\<rparr>) r)),
                 retain (seg\<lparr>segCharged := True\<rparr>) r, memory'))
          else consumeContiguous seg r memory))"
    using False unfolding Insert_def Let_def Insert_end [OF wf] by argo
  have same: "?thesis" if "res = Inr ([], Closed r)" "r' = r" "memory' = memory"
      "{?q..<seg_hi seg} \<subseteq> covered r"
    using that ok ah mem(1) wf by auto
  have neighbour_error: "e \<noteq> CursorMismatch \<and> (\<forall>p. e \<noteq> ReleasePanic p)"
    if "checkNeighbours r seg (seg_hi seg) = Some e" for e
    using that by (auto simp: checkNeighbours_def Let_def split: if_splits)
  consider (replay) "?q < rNext r" "seg_hi seg \<le> rNext r"
    | (cross) "?q < rNext r" "\<not> seg_hi seg \<le> rNext r"
    | (dup) t where "\<not> ?q < rNext r" "lookup r ?q = Some t"
    | (overlap) e where "\<not> ?q < rNext r" "lookup r ?q = None" "checkNeighbours r seg (seg_hi seg) = Some e"
    | (gap) "rNext r < ?q" "lookup r ?q = None" "checkNeighbours r seg (seg_hi seg) = None"
    | (now) "?q = rNext r" "lookup r ?q = None" "checkNeighbours r seg (seg_hi seg) = None"
    by (metis not_less_iff_gr_or_eq option.exhaust)
  then show ?thesis
  proof cases
    case replay
    then have "{?q..<seg_hi seg} \<subseteq> covered r" by (auto simp: covered_def)
    with replay ins' ins show ?thesis by (intro same) auto
  next
    case cross
    with ins' ins show ?thesis by auto
  next
    case dup
    show ?thesis
    proof (cases "segFinal t = segFinal seg \<and> segPayload t = segPayload seg")
      case True
      have "seg_hi t = seg_hi seg"
        using segs dup(2) True by (auto simp: segs_ok_def seg_hi_def)
      then have "{?q..<seg_hi seg} \<subseteq> covered r"
        using dup(2) by (auto simp: covered_def intro!: exI [of _ ?q])
      with dup True ins' ins show ?thesis by (intro same) auto
    next
      case False
      with dup ins' ins show ?thesis by auto
    qed
  next
    case overlap
    with ins' ins neighbour_error show ?thesis by auto
  next
    case gap
    let ?s = "seg\<lparr>segCharged := True\<rparr>"
    have s: "segSequence ?s = ?q" "seg_hi ?s = seg_hi seg" "seg_wf ?s" "segCharged ?s"
        "segPayload ?s = segPayload seg"
      using wf by (simp_all add: seg_hi_def seg_wf_def)
    have ns: "checkNeighbours r ?s (seg_hi ?s) = None"
      using gap(3) s(2) by simp
    have new: "lookup r (segSequence ?s) = None" using gap(2) by simp
    note kept = inner_ok_retain [OF inner s(3,4) new ns ah]
    note f = retain_fields [OF keys, of ?s]
    show ?thesis
    proof (cases "int (length (rBuffer r)) + 1 > MaxBufferedFrames (rCfg r)
        \<or> rBytes r + len64 (segPayload seg) > MaxBufferedBytes (rCfg r)")
      case True
      have "Insert seg r memory = (Inl ErrWindowExceeded, r, memory)"
        using gap True order_less_imp_not_less [OF gap(1)] order_less_imp_not_eq2 [OF gap(1)]
          unfolding ins' by simp
      with ins show ?thesis by auto
    next
      case room: False
      obtain got mem1 where acq: "TryAcquire memory (int (length (segPayload seg))) = (got, mem1)"
        by (cases "TryAcquire memory (int (length (segPayload seg)))") auto
      show ?thesis
      proof (cases got)
        case False
        have "Insert seg r memory = (Inl ErrMemoryBudget, r, memory)"
          using gap room False acq order_less_imp_not_less [OF gap(1)] order_less_imp_not_eq2 [OF gap(1)]
          unfolding ins' by simp
        with ins show ?thesis by auto
      next
        case True
        then have acq': "TryAcquire memory (int (length (segPayload seg))) = (True, mem1)"
          using acq by simp
        have "Insert seg r memory = (Inr ([], Closed (retain ?s r)), retain ?s r, mem1)"
          using gap room True acq order_less_imp_not_less [OF gap(1)] order_less_imp_not_eq2 [OF gap(1)]
          unfolding ins' by simp
        with ins have res: "res = Inr ([], Closed (retain ?s r))" "r' = retain ?s r" "memory' = mem1"
          by auto
        have "C mem1 (m + int (held_bytes r'))"
          using byte_meter.acquire_covers [OF meter mem(1) _ acq'] kept(3) gap(1) res(2)
          by (simp add: algebra_simps)
        moreover have "reasm_ok r'"
          using kept(1) room gap(1,2) update_new_length [of "rBuffer r" ?q ?s]
          by (simp add: reasm_ok_def inner_ok_def res(2) f retain_buffer not_less not_le)
        moreover have "all_from_stream S r'" if "from_stream S seg" "all_from_stream S r" for S
          using that by (auto simp: all_from_stream_def res(2) f)
        ultimately show ?thesis
          using kept(2) gap(1) wf covered_retain [OF keys new] s(2)
          by (auto simp: res f)
      qed
    qed
  next
    case now
    have "rNext r < k \<and> seg_hi seg \<le> k" if "lookup r k = Some t" for k t
    proof -
      have "k \<in> set (rOrder r)" using that keys by (simp add: keys_ok_def domI)
      then have "rNext r < k" using ah by (simp add: ahead_def)
      then show ?thesis
        using that now checkNeighbours_None [OF keys segs wf now(2)] by metis
    qed
    then have cur: "current_ok seg r"
      using wf now(1) by (auto simp: current_ok_def)
    have "C memory (m + int (held_bytes r) + charge_of seg)"
      using mem(1) go by (simp add: charge_of_def fresh_def)
    from consume_spec [OF meter inner cur this mem(2), of "[]"] obtain new r1 mem1 where
      res: "consume seg [] r memory = (Inr (new, Closed r1), r1, mem1)" and del: "delivers r new r1"
      and out: "C mem1 (m + int (held_bytes r1))"
        "covered r1 = covered r \<union> {rNext r..<seg_hi seg}"
        "\<forall>S. from_stream S seg \<and> all_from_stream S r \<longrightarrow> new = map S [unat (rNext r)..<unat (rNext r1)]"
      by auto
    have eqs: "res = Inr (new, Closed r1)" "r' = r1" "memory' = mem1"
      using now ins' ins res by (auto simp: consumeContiguous_def)
    have "reasm_ok r1"
      using del ok by (auto simp: delivers_def reasm_ok_def inner_ok_def intro: order_trans)
    moreover have "all_from_stream S r1" if "all_from_stream S r" for S
      using that del by (auto simp: all_from_stream_def delivers_def)
    ultimately show ?thesis
      using del out wf now(1) eqs by (auto simp: delivers_def)
  qed
qed

section \<open>Reports to the sender\<close>

text \<open>\<^verbatim>\<open>gather\<close> on an ascending list of buffered starts: merged ranges, separated, the same bytes.\<close>

lemma separated_append_last:
  "separated c (rs @ [s]) \<longleftrightarrow>
     separated c rs \<and> (if rs = [] then c else span_hi (last rs)) < span_lo s \<and> span_lo s < span_hi s"
  by (induction rs arbitrary: c) auto

lemma separated_last_hi:
  "separated c rs \<Longrightarrow> rs \<noteq> [] \<Longrightarrow> c < span_hi (last rs)"
  by (induction rs arbitrary: c) (auto intro: less_trans split: if_splits)

lemma gather_separated:
  assumes segs: "\<And>k. k \<in> set ks \<Longrightarrow> \<exists>s. lookup r k = Some s \<and> segSequence s = k \<and> seg_wf s"
    and apart: "sorted_wrt (\<lambda>k k'. seg_hi (buffered r k) \<le> k' \<and> k < k') ks"
    and above: "\<forall>k\<in>set ks. c < k"
    and acc: "separated c acc" "acc \<noteq> [] \<Longrightarrow> \<forall>k\<in>set ks. span_hi (last acc) \<le> k"
  shows "separated c (gather r ks acc) \<and>
    spans_set (gather r ks acc) = spans_set acc \<union> (\<Union>k\<in>set ks. {k..<seg_hi (buffered r k)})"
  using assms
proof (induction r ks acc rule: gather.induct)
  case (1 r ranges)
  then show ?case by simp
next
  case (2 r start rest ranges)
  obtain s where s: "lookup r start = Some s" "segSequence s = start" "seg_wf s" "buffered r start = s"
    using "2.prems"(1) [of start] buffered_lookup by auto
  have hi: "start + len64 (segPayload (buffered r start)) = seg_hi s"
    using s by (simp add: seg_hi_def)
  have rest: "\<forall>k\<in>set rest. seg_hi s \<le> k \<and> start < k" and sorted: "sorted_wrt (\<lambda>k k'. seg_hi (buffered r k) \<le> k' \<and> k < k') rest"
    using "2.prems"(2) s(4) by auto
  have segs: "\<And>k. k \<in> set rest \<Longrightarrow> \<exists>s. lookup r k = Some s \<and> segSequence s = k \<and> seg_wf s"
    and above: "\<forall>k\<in>set rest. c < k" "c < start"
    using "2.prems"(1,3) by auto
  consider (fin) "segFinal s" | (join) "\<not> segFinal s" "ranges \<noteq> [] \<and> span_hi (last ranges) = start"
    | (new) "\<not> segFinal s" "\<not> (ranges \<noteq> [] \<and> span_hi (last ranges) = start)"
    by blast
  then show ?case
  proof cases
    case fin
    have "\<forall>k\<in>set rest. span_hi (last ranges) \<le> k" if "ranges \<noteq> []"
      using "2.prems"(5) that by simp
    then have "separated c (gather r rest ranges) \<and> spans_set (gather r rest ranges)
        = spans_set ranges \<union> (\<Union>k\<in>set rest. {k..<seg_hi (buffered r k)})"
      using fin "2.prems"(4) segs sorted above s(4) by (intro "2.IH"(1) [OF refl refl]) auto
    moreover have "{start..<seg_hi s} = {}"
      using s fin seg_wf_hi_final by simp
    ultimately show ?thesis using fin s(4) by (simp add: Let_def)
  next
    case join
    have lt: "start < seg_hi s" using seg_wf_hi_gt [OF s(3)] join(1) s(2,3) by (auto simp: seg_wf_def)
    obtain init l where init: "ranges = init @ [l]" "span_hi l = start"
      using join(2) by (metis append_butlast_last_id)
    let ?new = "Span (span_lo l) (seg_hi s)"
    have sep: "separated c (init @ [?new])"
      using "2.prems"(4) init lt by (auto simp: separated_append_last intro: less_trans)
    have step: "gather r (start # rest) ranges = gather r rest (init @ [?new])"
      using join init s(4) hi by (simp add: Let_def)
    have "separated c (gather r rest (init @ [?new])) \<and> spans_set (gather r rest (init @ [?new]))
        = spans_set (init @ [?new]) \<union> (\<Union>k\<in>set rest. {k..<seg_hi (buffered r k)})"
    proof -
      have "buffered r start = s" by (rule s(4))
      then show ?thesis
        using "2.IH"(2) [OF refl refl _ _ segs sorted above(1)] join init hi s(4) sep rest by auto
    qed
    moreover have "span_set ?new = span_set l \<union> {start..<seg_hi s}"
      using init lt "2.prems"(4) by (auto simp: separated_append_last intro: less_trans)
    ultimately show ?thesis
      unfolding step using init s(4) by (simp add: Un_assoc)
  next
    case new
    have lt: "start < seg_hi s" using seg_wf_hi_gt [OF s(3)] new(1) s(2,3) by (auto simp: seg_wf_def)
    let ?new = "Span start (seg_hi s)"
    have "ranges \<noteq> [] \<Longrightarrow> span_hi (last ranges) < start"
      using "2.prems"(5) new(2) by (auto simp: order_le_neq_trans)
    then have sep: "separated c (ranges @ [?new])"
      using "2.prems"(4) lt above(2) by (simp add: separated_append_last)
    have step: "gather r (start # rest) ranges = gather r rest (ranges @ [?new])"
      using new s(4) hi by (auto simp: Let_def)
    have "separated c (gather r rest (ranges @ [?new])) \<and> spans_set (gather r rest (ranges @ [?new]))
        = spans_set (ranges @ [?new]) \<union> (\<Union>k\<in>set rest. {k..<seg_hi (buffered r k)})"
      using "2.IH"(3) [OF refl refl _ _ segs sorted above(1)] new hi s(4) sep rest by auto
    moreover have "span_set ?new = {start..<seg_hi s}" by (simp add: span_set_def)
    ultimately show ?thesis
      unfolding step using s(4) by (simp add: Un_assoc)
  qed
qed

lemma order_apart:
  assumes "keys_ok r" and "segs_ok r"
  shows "sorted_wrt (\<lambda>k k'. seg_hi (buffered r k) \<le> k' \<and> k < k') (rOrder r)"
proof -
  have "sorted_wrt (<) (rOrder r)"
    using assms(1) by (simp add: keys_ok_def strict_sorted_iff)
  moreover have "seg_hi (buffered r k) \<le> k'" if "k \<in> set (rOrder r)" "k' \<in> set (rOrder r)" "k < k'" for k k'
    using assms that unfolding keys_ok_def segs_ok_def
    by (metis (no_types, lifting) buffered_lookup domD)
  ultimately show ?thesis
    by (auto intro: sorted_wrt_mono_rel [of "rOrder r" "(<)"])
qed

lemma covered_split:
  assumes "keys_ok r"
  shows "covered r = {x. x < rNext r} \<union> (\<Union>k\<in>set (rOrder r). {k..<seg_hi (buffered r k)})"
proof -
  have "set (rOrder r) = dom (lookup r)" using assms by (simp add: keys_ok_def)
  moreover have "{x. \<exists>k s. lookup r k = Some s \<and> k \<le> x \<and> x < seg_hi s}
      = (\<Union>k\<in>dom (lookup r). {k..<seg_hi (buffered r k)})"
    by (fastforce simp: buffered_lookup)
  ultimately show ?thesis by (simp add: covered_def)
qed

lemma gather_order:
  assumes "keys_ok r" and "segs_ok r" and "ahead r"
  shows "separated (rNext r) (gather r (rOrder r) [])"
    and "covered r = {x. x < rNext r} \<union> spans_set (gather r (rOrder r) [])"
proof -
  have "\<exists>s. lookup r k = Some s \<and> segSequence s = k \<and> seg_wf s" if "k \<in> set (rOrder r)" for k
    using assms(1,2) that by (auto simp: keys_ok_def segs_ok_def)
  with gather_separated [OF this order_apart [OF assms(1,2)], of "rNext r" "[]"] assms(3)
  show "separated (rNext r) (gather r (rOrder r) [])"
    and "covered r = {x. x < rNext r} \<union> spans_set (gather r (rOrder r) [])"
    using covered_split [OF assms(1)] by (auto simp: ahead_def)
qed

section \<open>A flow\<close>

text \<open>
  A flow receives segments of one stream \<open>S\<close> that ends at \<open>F\<close>, in any order, duplicated, replayed
  or cut differently; \<open>out\<close> is what it has handed on. Other flows move the shared budget between its
  steps, but only by what they hold themselves.
\<close>

definition stream_segment :: "(nat \<Rightarrow> byte) \<Rightarrow> u64 \<Rightarrow> segment \<Rightarrow> bool" where
  "stream_segment S F s \<longleftrightarrow> fresh s \<and> from_stream S s \<and>
     (if segFinal s then segSequence s = F else unat (segSequence s) + length (segPayload s) \<le> unat F)"

inductive flow_reach ::
  "config \<Rightarrow> (nat \<Rightarrow> byte) \<Rightarrow> u64 \<Rightarrow> bytes \<Rightarrow> reassembler \<Rightarrow> budget option \<Rightarrow> bool" for cfg S F where
  start: "budget_covers memory 0 \<Longrightarrow> NewReassembler cfg memory = (r, memory') \<Longrightarrow>
     flow_reach cfg S F [] r memory'"
| accepted: "flow_reach cfg S F out r memory \<Longrightarrow> stream_segment S F seg \<Longrightarrow>
     Insert seg r memory = (Inr (new, eof), r', memory') \<Longrightarrow> flow_reach cfg S F (out @ new) r' memory'"
| refused: "flow_reach cfg S F out r memory \<Longrightarrow> stream_segment S F seg \<Longrightarrow>
     Insert seg r memory = (Inl e, r', memory') \<Longrightarrow> flow_reach cfg S F out r' memory'"
| others: "flow_reach cfg S F out r memory \<Longrightarrow> budget_covers memory' (int (held_bytes r)) \<Longrightarrow>
     flow_reach cfg S F out r memory'"

definition flow_ok ::
  "(nat \<Rightarrow> byte) \<Rightarrow> u64 \<Rightarrow> bytes \<Rightarrow> reassembler \<Rightarrow> budget option \<Rightarrow> bool" where
  "flow_ok S F out r memory \<longleftrightarrow>
     reasm_ok r \<and> ahead r \<and> budget_covers memory (int (held_bytes r)) \<and> all_from_stream S r \<and>
     out = map S [0..<unat (rNext r)] \<and> covered r \<subseteq> {x. x < F} \<and>
     (rFinalAt r = None \<or> rFinalAt r = Some F) \<and>
     (\<forall>k s. lookup r k = Some s \<longrightarrow> segFinal s \<longrightarrow> segSequence s = F)"

lemma unbuffer_lookup: "lookup (unbuffer k s r) = (lookup r)(k := None)"
  by (simp add: unbuffer_buffer delete_conv')

lemma unbuffer_final [simp]: "rFinalAt (unbuffer k s r) = rFinalAt r"
  by (simp add: unbuffer_def removeOrder_def Let_def)

lemma unbuffer_cfg [simp]: "rCfg (unbuffer k s r) = rCfg r"
  by (simp add: unbuffer_def removeOrder_def Let_def)

lemma consume_final:
  assumes "consume cur out r memory = (res, r', memory')"
    and "segFinal cur \<Longrightarrow> segSequence cur = F"
    and "\<forall>k s. lookup r k = Some s \<longrightarrow> segFinal s \<longrightarrow> segSequence s = F"
    and "rFinalAt r = None \<or> rFinalAt r = Some F"
  shows "(rFinalAt r' = None \<or> rFinalAt r' = Some F) \<and> (\<forall>k s. lookup r' k = Some s \<longrightarrow> lookup r k = Some s)"
  using assms
proof (induction cur out r memory rule: consume.induct)
  case (1 cur out r memory)
  show ?case
  proof (cases "segSequence cur \<noteq> rNext r \<or> segFinal cur")
    case True
    with "1.prems" show ?thesis by (auto simp: consume.simps [of cur] split: if_splits)
  next
    case False
    let ?n = "rNext r + len64 (segPayload cur)"
    let ?rel = "if segCharged cur then Release memory (int (length (segPayload cur))) else Inr memory"
    show ?thesis
    proof (cases ?rel)
      case (Inl p)
      with False "1.prems" show ?thesis by (auto simp: consume.simps [of cur])
    next
      case (Inr memory1)
      show ?thesis
      proof (cases "lookup r ?n")
        case None
        with False Inr "1.prems" show ?thesis by (auto simp: consume.simps [of cur] Let_def)
      next
        case (Some s)
        let ?r2 = "unbuffer ?n s (r\<lparr>rNext := ?n\<rparr>)"
        have rec: "consume s (out @ segPayload cur) ?r2 memory1 = (res, r', memory')"
          using False Inr Some "1.prems"(1) by (simp add: consume.simps [of cur] Let_def)
        have "(rFinalAt r' = None \<or> rFinalAt r' = Some F) \<and>
            (\<forall>k s. lookup r' k = Some s \<longrightarrow> lookup ?r2 k = Some s)"
        proof (rule "1.IH" [OF _ _ refl Inr refl refl _ rec])
          show "segFinal s \<Longrightarrow> segSequence s = F"
            using Some "1.prems"(3) by blast
          show "\<forall>k s'. lookup ?r2 k = Some s' \<longrightarrow> segFinal s' \<longrightarrow> segSequence s' = F"
            using "1.prems"(3) by (simp add: unbuffer_lookup)
        qed (use False Some "1.prems"(4) in simp_all)
        moreover have "lookup r k = Some t" if "lookup ?r2 k = Some t" for k t
          using that by (simp add: unbuffer_lookup split: if_splits)
        ultimately show ?thesis by blast
      qed
    qed
  qed
qed

lemma Insert_final:
  assumes ins: "Insert seg r memory = (res, r', memory')"
    and fin: "segFinal seg \<Longrightarrow> segSequence seg = F"
    and buf: "\<forall>k s. lookup r k = Some s \<longrightarrow> segFinal s \<longrightarrow> segSequence s = F"
    and at: "rFinalAt r = None \<or> rFinalAt r = Some F" and keys: "keys_ok r"
  shows "(rFinalAt r' = None \<or> rFinalAt r' = Some F) \<and>
    (\<forall>k s. lookup r' k = Some s \<longrightarrow> segFinal s \<longrightarrow> segSequence s = F)"
proof -
  have kept: "?thesis" if "r' = retain (seg\<lparr>segCharged := True\<rparr>) r"
    using that fin buf at by (auto simp: retain_fields [OF keys])
  have contig: "?thesis" if "consume seg [] r memory = (res, r', memory')"
    using consume_final [OF that fin buf at] buf by blast
  from ins kept contig buf at show ?thesis
    unfolding Insert_def Let_def consumeContiguous_def
    by (auto split: if_splits option.splits prod.splits bool.splits)
qed

lemma flow_ok_start:
  assumes "budget_covers memory 0" and "NewReassembler cfg memory = (r, memory')"
  shows "flow_ok S F [] r memory'"
  using assms
  by (auto simp: NewReassembler_def flow_ok_def reasm_ok_def keys_ok_def segs_ok_def held_bytes_def
      ahead_def all_from_stream_def covered_def budget_covers_def DefaultConfig_def
      split: if_splits option.splits)

lemma flow_ok_insert:
  assumes ok: "flow_ok S F out r memory" and seg: "stream_segment S F seg"
    and ins: "Insert seg r memory = (res, r', memory')"
  shows "(case res of Inl e \<Rightarrow> e \<noteq> CursorMismatch \<and> (\<forall>p. e \<noteq> ReleasePanic p) \<and> r' = r \<and> memory' = memory
    | Inr (new, eof) \<Rightarrow> flow_ok S F (out @ new) r' memory' \<and> eof = Closed r' \<and>
        covered r' = covered r \<union> {segSequence seg..<seg_hi seg})"
proof -
  have pre: "reasm_ok r" "ahead r" "fresh seg" "from_stream S seg" "all_from_stream S r"
      "budget_covers memory (0 + int (held_bytes r))"
    using ok seg by (simp_all add: flow_ok_def stream_segment_def)
  have keys: "keys_ok r" using pre(1) by (simp add: reasm_ok_def)
  have at: "rFinalAt r = None \<or> rFinalAt r = Some F"
      "\<forall>k s. lookup r k = Some s \<longrightarrow> segFinal s \<longrightarrow> segSequence s = F"
      "segFinal seg \<Longrightarrow> segSequence seg = F"
    using ok seg by (auto simp: flow_ok_def stream_segment_def)
  note fin = Insert_final [OF ins at(3,2,1) keys]
  from Insert_spec [OF budget.byte_meter_axioms pre(1,2,3,6) order_refl ins]
  show ?thesis
  proof
    assume "\<exists>e. res = Inl e \<and> e \<noteq> CursorMismatch \<and> (\<forall>p. e \<noteq> ReleasePanic p) \<and> r' = r \<and> memory' = memory"
    then show ?thesis by auto
  next
    assume "\<exists>new. res = Inr (new, Closed r') \<and> seg_wf seg \<and> reasm_ok r' \<and> ahead r'
        \<and> budget_covers memory' (0 + int (held_bytes r'))
        \<and> unat (rNext r') = unat (rNext r) + length new
        \<and> covered r' = covered r \<union> {segSequence seg..<seg_hi seg}
        \<and> (\<forall>S. from_stream S seg \<and> all_from_stream S r \<longrightarrow>
              new = map S [unat (rNext r)..<unat (rNext r')] \<and> all_from_stream S r')"
    then obtain new where new: "res = Inr (new, Closed r')" "seg_wf seg" "reasm_ok r'" "ahead r'"
        "budget_covers memory' (int (held_bytes r'))" "unat (rNext r') = unat (rNext r) + length new"
        "covered r' = covered r \<union> {segSequence seg..<seg_hi seg}"
      and from_S: "\<forall>S. from_stream S seg \<and> all_from_stream S r \<longrightarrow>
        new = map S [unat (rNext r)..<unat (rNext r')] \<and> all_from_stream S r'"
      unfolding add_0 by (elim exE conjE)
    have new_S: "new = map S [unat (rNext r)..<unat (rNext r')]" "all_from_stream S r'"
      using from_S pre(4,5) by blast+
    have "map S [0..<unat (rNext r)] @ new = map S [0..<unat (rNext r')]"
    proof -
      have "[0..<unat (rNext r')] = [0..<unat (rNext r)] @ [unat (rNext r)..<unat (rNext r')]"
        unfolding new(6) by (rule upt_add_eq_append) simp
      then have "map S [0..<unat (rNext r')] = map S [0..<unat (rNext r)] @ map S [unat (rNext r)..<unat (rNext r')]"
        by (metis map_append)
      then show ?thesis unfolding new_S(1) [symmetric] by (rule sym)
    qed
    moreover have "seg_hi seg \<le> F"
      using seg seg_wf_hi [OF new(2)] seg_wf_hi_final [OF new(2)]
      by (auto simp: stream_segment_def word_le_nat_alt split: if_splits)
    then have "covered r' \<subseteq> {x. x < F}"
      using ok new(7) by (auto simp: flow_ok_def)
    ultimately show ?thesis
      using new new_S(2) ok fin unfolding flow_ok_def by simp
  qed
qed

lemma flow_reach_ok: "flow_reach cfg S F out r memory \<Longrightarrow> flow_ok S F out r memory"
proof (induction rule: flow_reach.induct)
  case (start memory r memory')
  then show ?case by (rule flow_ok_start)
next
  case (accepted out r memory seg new eof r' memory')
  show ?case using flow_ok_insert [OF accepted.IH accepted.hyps(2,3)] by simp
next
  case (refused out r memory seg e r' memory')
  show ?case using flow_ok_insert [OF refused.IH refused.hyps(2,3)] refused.IH by simp
next
  case (others out r memory memory')
  then show ?case by (simp add: flow_ok_def)
qed

lemma ahead_not_covered: "keys_ok r \<Longrightarrow> ahead r \<Longrightarrow> rNext r \<notin> covered r"
  using covered_split [of r] by (auto simp: ahead_def)

lemma alist_payload_sum:
  assumes "distinct (map fst al)"
  shows "sum_list (map (\<lambda>(k, s). int (length (segPayload s))) al)
    = (\<Sum>k\<in>dom (map_of al). int (length (segPayload (case map_of al k of None \<Rightarrow> zero_segment | Some s \<Rightarrow> s))))"
  using assms
proof (induction al)
  case Nil
  then show ?case by simp
next
  case (Cons p al)
  obtain k s where p: "p = (k, s)" by (cases p)
  then have k: "k \<notin> dom (map_of al)" using Cons.prems by (simp add: dom_map_of_conv_image_fst)
  let ?f = "\<lambda>m k. int (length (segPayload (case m k of None \<Rightarrow> zero_segment | Some s \<Rightarrow> s)))"
  have "(\<Sum>k'\<in>dom (map_of al). ?f ((map_of al)(k \<mapsto> s)) k') = (\<Sum>k'\<in>dom (map_of al). ?f (map_of al) k')"
    using k by (intro sum.cong) auto
  moreover have "(\<Sum>k'\<in>dom (map_of (p # al)). ?f (map_of (p # al)) k')
      = int (length (segPayload s)) + (\<Sum>k'\<in>dom (map_of al). ?f ((map_of al)(k \<mapsto> s)) k')"
    unfolding p using sum.insert [OF finite_dom_map_of k, of "?f ((map_of al)(k \<mapsto> s))"]
    by (simp only: map_of.simps fst_conv snd_conv dom_fun_upd option.distinct if_False fun_upd_same
        option.case)
  moreover have "distinct (map fst al)" using Cons.prems by simp
  ultimately show ?case
    using Cons.IH by (simp only: p list.map sum_list.Cons prod.case)
qed

lemma held_bytes_alist:
  assumes "keys_ok r" and "segs_ok r"
  shows "sum_list (map (\<lambda>(k, s). int (length (segPayload s)))
      (filter (\<lambda>(k, s). segCharged s) (rBuffer r))) = int (held_bytes r)"
proof -
  have "filter (\<lambda>(k, s). segCharged s) (rBuffer r) = rBuffer r"
    using assms by (auto simp: keys_ok_def segs_ok_def intro!: filter_True)
  then show ?thesis
    using assms(1) alist_payload_sum [of "rBuffer r"]
    by (simp add: held_bytes_def keys_ok_def buffered_def)
qed

text \<open>A peer that sends whatever it likes: any segments at all, in any order.\<close>

inductive peer_reach :: "config \<Rightarrow> reassembler \<Rightarrow> budget option \<Rightarrow> bool" for cfg where
  start: "budget_covers memory 0 \<Longrightarrow> NewReassembler cfg memory = (r, memory') \<Longrightarrow>
     peer_reach cfg r memory'"
| insert: "peer_reach cfg r memory \<Longrightarrow> fresh seg \<Longrightarrow> Insert seg r memory = (res, r', memory') \<Longrightarrow>
     peer_reach cfg r' memory'"
| others: "peer_reach cfg r memory \<Longrightarrow> budget_covers memory' (int (held_bytes r)) \<Longrightarrow>
     peer_reach cfg r memory'"

definition peer_ok :: "reassembler \<Rightarrow> budget option \<Rightarrow> bool" where
  "peer_ok r memory \<longleftrightarrow> reasm_ok r \<and> ahead r \<and> budget_covers memory (int (held_bytes r))"

lemma peer_ok_insert:
  assumes "peer_ok r memory" and "fresh seg" and "Insert seg r memory = (res, r', memory')"
  shows "peer_ok r' memory'"
  using Insert_spec [OF budget.byte_meter_axioms, of r seg memory 0 res r' memory'] assms
  by (auto simp: peer_ok_def)

lemma peer_reach_ok: "peer_reach cfg r memory \<Longrightarrow> peer_ok r memory"
proof (induction rule: peer_reach.induct)
  case (start memory r memory')
  then show ?case
    using flow_ok_start [of memory cfg r memory'] by (auto simp: flow_ok_def peer_ok_def)
next
  case (insert r memory seg res r' memory')
  then show ?case by (blast intro: peer_ok_insert)
next
  case (others r memory memory')
  then show ?case by (simp add: peer_ok_def)
qed

text \<open>The shared budget moves by exactly what the buffer gains or loses.\<close>

lemma Insert_memory_exact:
  assumes "peer_ok r (Some b)" and "fresh seg" and "Insert seg r (Some b) = (res, r', memory')"
  shows "\<exists>b'. memory' = Some b' \<and> used b' - int (held_bytes r') = used b - int (held_bytes r)"
proof -
  let ?m = "used b - int (held_bytes r)"
  let ?C = "\<lambda>mb m. mb \<noteq> None \<and> budget_exactly mb m"
  have meter: "byte_meter TryAcquire Release ?C"
    by unfold_locales
      (auto simp: TryAcquire_def Release_def budget_exactly_def split: option.splits if_splits)
  have "0 \<le> ?m" "?C (Some b) (?m + int (held_bytes r))" "reasm_ok r" "ahead r"
    using assms(1) by (simp_all add: peer_ok_def budget_covers_def budget_exactly_def)
  from Insert_spec [OF meter this(3,4) assms(2) this(2,1) assms(3)]
  have "?C memory' (?m + int (held_bytes r'))"
    using \<open>?C (Some b) _\<close> by auto
  then show ?thesis by (auto simp: budget_exactly_def split: option.splits)
qed

lemma close_spec:
  assumes "peer_ok r memory"
  shows "\<exists>memory'. close_reassembler r memory
      = Inr (r\<lparr>rBuffer := [], rOrder := [], rBytes := 0\<rparr>, memory')
    \<and> (\<forall>b. memory = Some b \<longrightarrow> (\<exists>b'. memory' = Some b' \<and> used b' = used b - int (held_bytes r)))"
proof -
  let ?ns = "map (\<lambda>(k, s). int (length (segPayload s))) (filter (\<lambda>(k, s). segCharged s) (rBuffer r))"
  have ok: "keys_ok r" "segs_ok r" "budget_covers memory (int (held_bytes r))"
    using assms by (simp_all add: peer_ok_def reasm_ok_def)
  note sum = held_bytes_alist [OF ok(1,2)]
  have pos: "\<forall>n\<in>set ?ns. 0 \<le> n" by auto
  have "budget_covers memory (0 + sum_list ?ns)" using ok(3) sum by simp
  from budget.release_all_covered [OF this order_refl pos]
  obtain memory' where rel: "release_all Release memory ?ns = Inr memory'" by blast
  have "\<exists>b'. memory' = Some b' \<and> used b' = used b - int (held_bytes r)" if "memory = Some b" for b
    using release_all_used [OF _ pos, of b memory'] rel sum that by simp
  then show ?thesis using rel by (simp add: close_reassembler_def)
qed

lemma consume_cfg: "rCfg (fst (snd (consume cur out r memory))) = rCfg r"
proof (induction cur out r memory rule: consume.induct)
  case (1 cur out r memory)
  show ?case
    by (subst consume.simps) (auto simp: Let_def "1.IH" split: sum.splits option.splits)
qed

lemma Insert_cfg: "Insert seg r memory = (res, r', memory') \<Longrightarrow> rCfg r' = rCfg r"
  using consume_cfg [of seg "[]" r memory]
  by (auto simp: Insert_def Let_def consumeContiguous_def retain_def insertOrder_def
      split: if_splits option.splits prod.splits bool.splits)

lemma peer_reach_cfg:
  "peer_reach cfg r memory \<Longrightarrow> rCfg r =
     (if MaxBufferedBytes cfg = 0 \<or> MaxBufferedFrames cfg \<le> 0 then DefaultConfig else cfg)"
  by (induction rule: peer_reach.induct) (auto simp: NewReassembler_def Insert_cfg split: if_splits)

section \<open>An example\<close>

definition demo_stream :: "nat \<Rightarrow> byte" where
  "demo_stream i = word_of_nat (i + 65)"

definition data_segment :: "u64 \<Rightarrow> bytes \<Rightarrow> segment" where
  "data_segment q p = \<lparr>segSequence = q, segPayload = p, segFinal = False, segCharged = False\<rparr>"

definition fin_segment :: "u64 \<Rightarrow> segment" where
  "fin_segment q = \<lparr>segSequence = q, segPayload = [], segFinal = True, segCharged = False\<rparr>"

definition demo_config :: config where
  "demo_config = \<lparr>MaxBufferedBytes = 8, MaxBufferedFrames = 4\<rparr>"

lemmas insert_eval = Insert_def Let_def data_segment_def fin_segment_def len64_def retain_def
  insertOrder_def order_search_def search_key_def sort_search_def search_loop.simps
  checkNeighbours_def TryAcquire_def charge_def demo_config_def consumeContiguous_def consume.simps
  buffered_def unbuffer_def removeOrder_def Release_def Closed_def seg_hi_def

text \<open>The stream \<^verbatim>\<open>ABCDE\<close>: its second half arrives first, then its first half.\<close>

definition demo_budget :: budget where
  "demo_budget = \<lparr>capacity = 10, used = 0, peak = 0, waiters = 0, changed = 0\<rparr>"

definition demo_r0 :: reassembler where
  "demo_r0 = \<lparr>rCfg = demo_config, rNext = 0, rBuffer = [], rOrder = [], rBytes = 0, rFinalAt = None\<rparr>"

definition demo_r1 :: reassembler where
  "demo_r1 = \<lparr>rCfg = demo_config, rNext = 0,
     rBuffer = [(2, (data_segment 2 [67, 68, 69])\<lparr>segCharged := True\<rparr>)], rOrder = [2], rBytes = 3,
     rFinalAt = None\<rparr>"

definition demo_r2 :: reassembler where
  "demo_r2 = demo_r0\<lparr>rNext := 5\<rparr>"

lemma demo_insert_gap:
  "Insert (data_segment 2 [67, 68, 69]) demo_r0 (Some demo_budget)
     = (Inr ([], False), demo_r1, Some (charge 3 demo_budget))"
  by (simp add: insert_eval demo_r0_def demo_r1_def demo_budget_def)

lemma demo_insert_fill:
  "Insert (data_segment 0 [65, 66]) demo_r1 (Some (charge 3 demo_budget))
     = (Inr ([65, 66, 67, 68, 69], False), demo_r2,
        Some (demo_budget\<lparr>peak := 3, changed := 1\<rparr>))"
  by (simp add: insert_eval demo_r0_def demo_r1_def demo_r2_def demo_budget_def)


lemma demo_insert_fin:
  "Insert (fin_segment 5) demo_r2 (Some (demo_budget\<lparr>peak := 3, changed := 1\<rparr>))
     = (Inr ([], True), demo_r2\<lparr>rFinalAt := Some 5\<rparr>, Some (demo_budget\<lparr>peak := 3, changed := 1\<rparr>))"
  by (simp add: insert_eval demo_r0_def demo_r2_def demo_budget_def)

lemma demo_segments:
  "stream_segment demo_stream 5 (data_segment 2 [67, 68, 69])"
  "stream_segment demo_stream 5 (data_segment 0 [65, 66])"
  "stream_segment demo_stream 5 (fin_segment 5)"
  by (simp_all add: stream_segment_def fresh_def go_slice_def from_stream_def data_segment_def
      fin_segment_def demo_stream_def upt_rec)

lemma demo_flow:
  "flow_reach demo_config demo_stream 5 [] demo_r1 (Some (charge 3 demo_budget))"
  "flow_reach demo_config demo_stream 5 [65, 66, 67, 68, 69] (demo_r2\<lparr>rFinalAt := Some 5\<rparr>)
     (Some (demo_budget\<lparr>peak := 3, changed := 1\<rparr>))"
proof -
  have "flow_reach demo_config demo_stream 5 [] demo_r0 (Some demo_budget)"
    by (rule flow_reach.start [of "Some demo_budget"])
      (simp_all add: NewReassembler_def demo_config_def demo_r0_def budget_covers_def demo_budget_def)
  from flow_reach.accepted [OF this demo_segments(1) demo_insert_gap]
  show 1: "flow_reach demo_config demo_stream 5 [] demo_r1 (Some (charge 3 demo_budget))" by simp
  from flow_reach.accepted [OF flow_reach.accepted [OF 1 demo_segments(2) demo_insert_fill]
      demo_segments(3) demo_insert_fin]
  show "flow_reach demo_config demo_stream 5 [65, 66, 67, 68, 69] (demo_r2\<lparr>rFinalAt := Some 5\<rparr>)
      (Some (demo_budget\<lparr>peak := 3, changed := 1\<rparr>))" by simp
qed

lemma demo_peer:
  "peer_reach demo_config demo_r0 (Some demo_budget)"
  "peer_reach demo_config demo_r1 (Some (charge 3 demo_budget))"
proof -
  show 0: "peer_reach demo_config demo_r0 (Some demo_budget)"
    by (rule peer_reach.start [of "Some demo_budget"])
      (simp_all add: NewReassembler_def demo_config_def demo_r0_def budget_covers_def demo_budget_def)
  show "peer_reach demo_config demo_r1 (Some (charge 3 demo_budget))"
    by (rule peer_reach.insert [OF 0 _ demo_insert_gap]) (simp add: fresh_def go_slice_def data_segment_def)
qed

section \<open>Properties\<close>

text \<open>
  C4. Bytes come out in order and exactly once. However the segments of a stream reach a flow - out
  of order, duplicated, replayed, overlapping, refused by a limit - what the flow has handed on is
  the stream's first \<^verbatim>\<open>next\<close> bytes, never past its end, and when end of stream is reported it is
  all of them.
\<close>

theorem reassembly_in_order:
  assumes "flow_reach cfg S F out r memory"
  shows "out = map S [0..<unat (NextSequence r)] \<and> NextSequence r \<le> F \<and>
    (Closed r \<longrightarrow> out = map S [0..<unat F])"
proof -
  have ok: "flow_ok S F out r memory" by (rule flow_reach_ok [OF assms])
  have le: "rNext r \<le> F"
  proof (rule ccontr)
    assume "\<not> rNext r \<le> F"
    then have "F \<in> covered r" by (simp add: covered_def not_le)
    with ok show False by (auto simp: flow_ok_def)
  qed
  have "rNext r = F" if "Closed r"
    using that ok le by (auto simp: Closed_def flow_ok_def split: option.splits)
  then show ?thesis
    using ok le by (auto simp: flow_ok_def NextSequence_def)
qed

theorem reassembly_in_order_witness:
  "Closed (demo_r2\<lparr>rFinalAt := Some 5\<rparr>) \<and> [65, 66, 67, 68, 69] = map demo_stream [0..<unat (5 :: u64)]"
proof -
  have "Closed (demo_r2\<lparr>rFinalAt := Some 5\<rparr>)" by (simp add: Closed_def demo_r2_def)
  then show ?thesis using reassembly_in_order [OF demo_flow(2)] by blast
qed

text \<open>
  What one \<^verbatim>\<open>Insert\<close> does, whatever the peer sent before: an error changes neither the reassembler
  nor the shared memory and is never an internal one; a success accepts exactly the segment's bytes,
  moves the cursor to the first byte not yet received, outputs exactly the bytes it moved over, and
  charges the shared memory with exactly the growth of the buffer.
\<close>

theorem reassembly_insert_exact:
  assumes "peer_reach cfg r (Some b)" and "fresh seg"
    and "Insert seg r (Some b) = (res, r', memory')"
  shows "case res of
      Inl e \<Rightarrow> r' = r \<and> memory' = Some b \<and> e \<noteq> CursorMismatch \<and> (\<forall>p. e \<noteq> ReleasePanic p)
    | Inr (new, eof) \<Rightarrow>
        covered r' = covered r \<union> {segSequence seg..<seg_hi seg}
      \<and> {x. x < NextSequence r'} \<subseteq> covered r' \<and> NextSequence r' \<notin> covered r'
      \<and> unat (NextSequence r') = unat (NextSequence r) + length new \<and> eof = Closed r'
      \<and> (\<exists>b'. memory' = Some b' \<and>
            used b' - used b = int (unat (BufferedBytes r')) - int (unat (BufferedBytes r)))"
proof -
  have ok: "peer_ok r (Some b)" by (rule peer_reach_ok [OF assms(1)])
  have ok': "peer_ok r' memory'" by (rule peer_ok_insert [OF ok assms(2,3)])
  have bytes: "BufferedBytes x = rBytes x \<and> unat (rBytes x) = held_bytes x" if "peer_ok x y" for x y
    using that by (simp add: peer_ok_def reasm_ok_def BufferedBytes_def)
  have first: "rNext r' \<notin> covered r'"
    using ok' ahead_not_covered [of r'] by (simp add: peer_ok_def reasm_ok_def)
  have below: "{x. x < rNext r'} \<subseteq> covered r'" by (auto simp: covered_def)
  have "budget_covers (Some b) (0 + int (held_bytes r))" "reasm_ok r" "ahead r"
    using ok by (simp_all add: peer_ok_def)
  from Insert_spec [OF budget.byte_meter_axioms this(2,3) assms(2) this(1) order_refl assms(3)]
    Insert_memory_exact [OF ok assms(2,3)] bytes [OF ok] bytes [OF ok'] first below
  show ?thesis by (auto simp: NextSequence_def)
qed

theorem reassembly_insert_exact_witness:
  "covered demo_r1 = covered demo_r0 \<union> {2..<5} \<and> NextSequence demo_r1 \<notin> covered demo_r1"
proof -
  have seg: "fresh (data_segment 2 [67, 68, 69])" "segSequence (data_segment 2 [67, 68, 69]) = 2"
      "seg_hi (data_segment 2 [67, 68, 69]) = 5"
    by (simp_all add: fresh_def go_slice_def data_segment_def seg_hi_def len64_def)
  from reassembly_insert_exact [OF demo_peer(1) seg(1) demo_insert_gap]
  show ?thesis unfolding sum.case prod.case seg(2,3) by blast
qed

text \<open>
  C5. The limits hold whatever the peer sends, and a flow that ends leaks nothing: the buffer never
  exceeds the configured bytes and segments, its bytes are charged to the shared memory, and \<^verbatim>\<open>Close\<close>
  empties it, gives back exactly those bytes and never hits the panic of \<^verbatim>\<open>Release\<close>.
\<close>

theorem reassembly_bounded:
  assumes "peer_reach cfg r (Some b)"
  shows "(let lim = (if MaxBufferedBytes cfg = 0 \<or> MaxBufferedFrames cfg \<le> 0 then DefaultConfig else cfg) in
        BufferedBytes r \<le> MaxBufferedBytes lim \<and> int (BufferedFrames r) \<le> MaxBufferedFrames lim)
    \<and> int (unat (BufferedBytes r)) \<le> used b
    \<and> (\<exists>r' b'. close_reassembler r (Some b) = Inr (r', Some b') \<and>
          used b' = used b - int (unat (BufferedBytes r)) \<and>
          BufferedFrames r' = 0 \<and> BufferedBytes r' = 0 \<and> BufferedSequences r' = [])"
proof -
  have ok: "peer_ok r (Some b)" by (rule peer_reach_ok [OF assms])
  obtain b' where "close_reassembler r (Some b)
      = Inr (r\<lparr>rBuffer := [], rOrder := [], rBytes := 0\<rparr>, Some b')"
    "used b' = used b - int (held_bytes r)"
    using close_spec [OF ok] by auto
  then show ?thesis
    using ok peer_reach_cfg [OF assms]
    by (auto simp: peer_ok_def reasm_ok_def budget_covers_def BufferedBytes_def BufferedFrames_def
        BufferedSequences_def Let_def)
qed

theorem reassembly_bounded_witness:
  "BufferedBytes demo_r1 \<le> 8 \<and> (\<exists>r' b'. close_reassembler demo_r1 (Some (charge 3 demo_budget))
     = Inr (r', Some b') \<and> used b' = 0)"
  using reassembly_bounded [OF demo_peer(2)]
  by (auto simp: Let_def demo_config_def demo_budget_def BufferedBytes_def demo_r1_def)

lemma ReceivedRanges_ok:
  assumes ok: "keys_ok r" "segs_ok r" "ahead r" and lim: "0 < limit" "limit \<le> int MaxAckRanges"
  shows "ascending (rNext r) (ReceivedRanges limit r)" and "length (ReceivedRanges limit r) \<le> MaxAckRanges"
    and "spans_set (ReceivedRanges limit r) \<subseteq> covered r"
    and "int (length (ReceivedRanges limit r)) < limit \<Longrightarrow> covered r = {x. x < rNext r} \<union> spans_set (ReceivedRanges limit r)"
proof -
  let ?g = "gather r (rOrder r) []" and ?rs = "ReceivedRanges limit r"
  note g = gather_order [OF ok]
  have "rBuffer r = [] \<Longrightarrow> rOrder r = []"
    using ok(1) by (simp add: keys_ok_def)
  then have rs: "?rs = take (nat limit) ?g"
    using lim(1) by (auto simp: ReceivedRanges_def Let_def)
  then show "ascending (rNext r) ?rs" and "length ?rs \<le> MaxAckRanges"
    using ascending_take [OF separated_ascending [OF g(1)]] lim by auto
  have "spans_set ?rs \<subseteq> spans_set ?g"
    unfolding rs spans_set_def by (auto dest: in_set_takeD)
  then show "spans_set ?rs \<subseteq> covered r" using g(2) by auto
  show "covered r = {x. x < rNext r} \<union> spans_set ?rs" if "int (length ?rs) < limit"
    using that g(2) unfolding rs by simp
qed

text \<open>
  C6. The selective acknowledgement a receiver sends is understood and true: for any positive cap the
  frame allows, the ranges it reports encode, decode at the sender above the same cursor to the same
  ranges, and describe only bytes it holds - all of them when the cap was not reached.
\<close>

theorem ack_report_faithful:
  assumes "peer_reach cfg r memory" and "0 < limit" and "limit \<le> int MaxAckRanges"
  shows "\<exists>payload. EncodeAckRanges (ReceivedRanges limit r) = Inr payload
    \<and> DecodeAckRanges payload (NextSequence r) = Inr (ReceivedRanges limit r)
    \<and> spans_set (ReceivedRanges limit r) \<subseteq> covered r
    \<and> (int (length (ReceivedRanges limit r)) < limit \<longrightarrow>
         covered r = {x. x < NextSequence r} \<union> spans_set (ReceivedRanges limit r))"
proof -
  have ok: "keys_ok r" "segs_ok r" "ahead r"
    using peer_reach_ok [OF assms(1)] by (simp_all add: peer_ok_def reasm_ok_def)
  note rs = ReceivedRanges_ok [OF ok assms(2,3)]
  have "EncodeAckRanges (ReceivedRanges limit r) = Inr (concat (map range_bytes (ReceivedRanges limit r)))"
    using rs(2) ascending_nonempty [OF rs(1)] by (simp add: EncodeAckRanges_iff)
  then show ?thesis using rs by (auto simp: DecodeAckRanges_iff NextSequence_def)
qed

theorem ack_report_faithful_witness:
  "\<exists>payload. EncodeAckRanges (ReceivedRanges 16 demo_r1) = Inr payload \<and>
     DecodeAckRanges payload 0 = Inr (ReceivedRanges 16 demo_r1)"
  using ack_report_faithful [OF demo_peer(2), of 16]
  by (auto simp: MaxAckRanges_def NextSequence_def demo_r1_def)

end
