(* ===== verification/AckTrack.thy ===== *)
theory AckTrack
  imports Spans
begin

text \<open>
  The sender's record of what the peer has, \<^verbatim>\<open>queqiao/internal/pep/acktrack.go\<close>: a cumulative point
  and merged ranges above it. Its meaning is the set of acknowledged bytes (\<open>acked\<close>), which every
  operation refines. The last section runs the tracker among goroutines that wait on it.
\<close>

section \<open>State and operations\<close>

record ack_tracker =
  atCumulative :: u64
  atRanges :: "span list"
  atClosed :: bool
  atGen :: u64

definition newAckTracker :: ack_tracker where
  "newAckTracker = \<lparr>atCumulative = 0, atRanges = [], atClosed = False, atGen = 0\<rparr>"

text \<open>The scan shared by \<^verbatim>\<open>coveredLocked\<close> and \<^verbatim>\<open>ackSnapshot.covers\<close>.\<close>

fun cover_scan :: "u64 \<Rightarrow> u64 \<Rightarrow> span list \<Rightarrow> bool" where
  "cover_scan start end [] = False"
| "cover_scan start end (r # rs) =
     (if span_lo r > start then False
      else if span_hi r > start then
        (if span_hi r \<ge> end then True else cover_scan (span_hi r) end rs)
      else cover_scan start end rs)"

definition coveredLocked :: "ack_tracker \<Rightarrow> u64 \<Rightarrow> u64 \<Rightarrow> bool" where
  "coveredLocked t start end =
     (if end \<le> start then True
      else if end \<le> atCumulative t then True
      else cover_scan (if start < atCumulative t then atCumulative t else start) end (atRanges t))"

definition Covered :: "ack_tracker \<Rightarrow> u64 \<Rightarrow> u64 \<Rightarrow> bool" where
  "Covered t start end = coveredLocked t start end"

text \<open>The coalescing loop of \<^verbatim>\<open>mergeLocked\<close>; \<open>merged\<close> is never empty.\<close>

fun merge_loop :: "span list \<Rightarrow> span list \<Rightarrow> span list" where
  "merge_loop merged [] = merged"
| "merge_loop merged (r # rs) =
     (let l = last merged in
      if span_lo r \<le> span_hi l then
        (if span_hi r > span_hi l then merge_loop (butlast merged @ [Span (span_lo l) (span_hi r)]) rs
         else merge_loop merged rs)
      else merge_loop (merged @ [r]) rs)"

definition mergeLocked :: "ack_tracker \<Rightarrow> ack_tracker" where
  "mergeLocked t =
     (if length (atRanges t) < 2 then t
      else let rs = sort (atRanges t) in
        t\<lparr>atRanges := merge_loop (take 1 rs) (drop 1 rs)\<rparr>)"

text \<open>One pass of \<^verbatim>\<open>compactLocked\<close>: the new cumulative point, the kept ranges, whether it moved.\<close>

fun compact_pass :: "u64 \<Rightarrow> span list \<Rightarrow> u64 \<times> span list \<times> bool" where
  "compact_pass c [] = (c, [], False)"
| "compact_pass c (r # rs) =
     (if span_hi r \<le> c then (case compact_pass c rs of (c', kept, _) \<Rightarrow> (c', kept, True))
      else if span_lo r \<le> c then
        (case compact_pass (span_hi r) rs of (c', kept, _) \<Rightarrow> (c', kept, True))
      else (case compact_pass c rs of (c', kept, progress) \<Rightarrow> (c', r # kept, progress)))"

lemma compact_pass_length:
  "compact_pass c rs = (c', kept, p) \<Longrightarrow> length kept \<le> length rs \<and> (p \<longrightarrow> length kept < length rs)"
  by (induction c rs arbitrary: c' kept p rule: compact_pass.induct)
    (auto split: if_splits prod.splits simp: less_Suc_eq_le)

function compact_loop :: "u64 \<Rightarrow> span list \<Rightarrow> u64 \<times> span list" where
  "compact_loop c rs =
     (case compact_pass c rs of (c', kept, progress) \<Rightarrow>
        if progress then compact_loop c' kept else (c', kept))"
  by pat_completeness auto
termination
proof (relation "measure (\<lambda>(c, rs). length rs)")
  fix c rs c' y kept progress
  assume "(c', y) = compact_pass c rs" "(kept, progress) = y" "progress"
  then show "((c', kept), c, rs) \<in> measure (\<lambda>(c, rs). length rs)"
    using compact_pass_length [of c rs c' kept progress] by simp
qed simp

declare compact_loop.simps [simp del]

definition compactLocked :: "ack_tracker \<Rightarrow> ack_tracker" where
  "compactLocked t =
     (case compact_pass (atCumulative t) (atRanges t) of (c, kept, _) \<Rightarrow>
      case compact_loop c kept of (c', kept') \<Rightarrow> t\<lparr>atCumulative := c', atRanges := kept'\<rparr>)"

text \<open>
  Each operation comes with whether it ended in \<^verbatim>\<open>cond.Broadcast\<close>.
\<close>

definition Advance :: "u64 \<Rightarrow> ack_tracker \<Rightarrow> ack_tracker \<times> bool" where
  "Advance sequence t =
     (if sequence \<le> atCumulative t then (t, False)
      else let t1 = compactLocked (t\<lparr>atCumulative := sequence\<rparr>) in
        (t1\<lparr>atGen := atGen t1 + 1\<rparr>, True))"

text \<open>The loop of \<^verbatim>\<open>Add\<close>: it tests each range against the list it is growing.\<close>

fun add_loop :: "span list \<Rightarrow> ack_tracker \<Rightarrow> bool \<Rightarrow> ack_tracker \<times> bool" where
  "add_loop [] t changed = (t, changed)"
| "add_loop (r # rs) t changed =
     (if coveredLocked t (span_lo r) (span_hi r) then add_loop rs t changed
      else add_loop rs (t\<lparr>atRanges := atRanges t @ [r]\<rparr>) True)"

definition Add :: "span list \<Rightarrow> ack_tracker \<Rightarrow> ack_tracker \<times> bool" where
  "Add ranges t =
     (if ranges = [] then (t, False)
      else case add_loop ranges t False of (t1, changed) \<Rightarrow>
        if \<not> changed then (t1, False)
        else let t2 = compactLocked (mergeLocked t1) in (t2\<lparr>atGen := atGen t2 + 1\<rparr>, True))"

definition close_tracker :: "ack_tracker \<Rightarrow> ack_tracker \<times> bool" where
  "close_tracker t = (t\<lparr>atClosed := True\<rparr>, True)"

definition Touch :: "ack_tracker \<Rightarrow> ack_tracker \<times> bool" where
  "Touch t = (t\<lparr>atGen := atGen t + 1\<rparr>, True)"

text \<open>
  One round of the loops of \<^verbatim>\<open>Wait\<close> and \<^verbatim>\<open>WaitChange\<close>: return, or sleep on the condition variable.
\<close>

datatype wait_result = WaitDone | WaitClosed | WaitCancelled | WaitSleep

definition wait_round :: "u64 \<Rightarrow> u64 \<Rightarrow> bool \<Rightarrow> ack_tracker \<Rightarrow> wait_result" where
  "wait_round start end cancelled t =
     (if coveredLocked t start end then WaitDone
      else if atClosed t then WaitClosed
      else if cancelled then WaitCancelled
      else WaitSleep)"

definition wait_change_round :: "u64 \<Rightarrow> bool \<Rightarrow> ack_tracker \<Rightarrow> u64 \<times> wait_result" where
  "wait_change_round since cancelled t =
     (atGen t,
      if atGen t \<noteq> since then WaitDone
      else if atClosed t then WaitClosed
      else if cancelled then WaitCancelled
      else WaitSleep)"

section \<open>Snapshots\<close>

record ack_snapshot =
  asCumulative :: u64
  asRanges :: "span list"

definition ack_Snapshot :: "ack_tracker \<Rightarrow> ack_snapshot" where
  "ack_Snapshot t = \<lparr>asCumulative = atCumulative t, asRanges = atRanges t\<rparr>"

definition highest :: "ack_snapshot \<Rightarrow> u64" where
  "highest s = foldl (\<lambda>top r. if span_hi r > top then span_hi r else top) (asCumulative s) (asRanges s)"

definition snapshot_covers :: "ack_snapshot \<Rightarrow> u64 \<Rightarrow> u64 \<Rightarrow> bool" where
  "snapshot_covers s start end =
     (if end \<le> start \<or> end \<le> asCumulative s then True
      else cover_scan (if start < asCumulative s then asCumulative s else start) end (asRanges s))"

section \<open>The acknowledged set\<close>

definition acked :: "ack_tracker \<Rightarrow> u64 set" where
  "acked t = {x. x < atCumulative t} \<union> spans_set (atRanges t)"

definition tracker_ok :: "ack_tracker \<Rightarrow> bool" where
  "tracker_ok t \<longleftrightarrow> separated (atCumulative t) (atRanges t)"

text \<open>Separation without the lower bound.\<close>

definition apart :: "span list \<Rightarrow> bool" where
  "apart rs \<longleftrightarrow> sorted_wrt (\<lambda>r s. span_hi r < span_lo s) rs \<and> (\<forall>r\<in>set rs. span_lo r < span_hi r)"

lemma separated_iff: "separated c rs \<longleftrightarrow> apart rs \<and> (\<forall>r\<in>set rs. c < span_lo r)"
proof (induction rs arbitrary: c)
  case Nil
  then show ?case by (simp add: apart_def)
next
  case (Cons r rs)
  show ?case
    by (auto simp: Cons apart_def intro: less_trans)
qed

lemma acked_simps [simp]:
  "acked (t\<lparr>atGen := g\<rparr>) = acked t" "acked (t\<lparr>atClosed := c\<rparr>) = acked t"
  "tracker_ok (t\<lparr>atGen := g\<rparr>) = tracker_ok t" "tracker_ok (t\<lparr>atClosed := c\<rparr>) = tracker_ok t"
  by (simp_all add: acked_def tracker_ok_def)

lemma tracker_ok_new: "tracker_ok newAckTracker" "acked newAckTracker = {}"
  by (auto simp: tracker_ok_def newAckTracker_def acked_def)

lemma apart_Cons:
  "apart (r # rs) \<longleftrightarrow> apart rs \<and> span_lo r < span_hi r \<and> (\<forall>s\<in>set rs. span_hi r < span_lo s)"
  by (auto simp: apart_def)

lemma apart_above: "apart (r # rs) \<Longrightarrow> x \<in> spans_set rs \<Longrightarrow> span_hi r < x"
  by (auto simp: apart_Cons spans_set_def intro: less_le_trans)

lemma cover_scan_sound: "cover_scan start end rs \<Longrightarrow> {start..<end} \<subseteq> spans_set rs"
  by (induction start "end" rs rule: cover_scan.induct) (fastforce split: if_splits)+

lemma cover_scan_iff:
  "apart rs \<Longrightarrow> start < end \<Longrightarrow> cover_scan start end rs \<longleftrightarrow> {start..<end} \<subseteq> spans_set rs"
proof (induction start "end" rs rule: cover_scan.induct)
  case (1 start "end")
  then show ?case by auto
next
  case (2 start "end" r rs)
  have rs: "apart rs" "span_lo r < span_hi r" using "2.prems"(1) by (simp_all add: apart_Cons)
  note above = apart_above [OF "2.prems"(1)]
  show ?case
  proof
    show "{start..<end} \<subseteq> spans_set (r # rs)" if "cover_scan start end (r # rs)"
      using cover_scan_sound [OF that] .
    assume sub: "{start..<end} \<subseteq> spans_set (r # rs)"
    then have "start \<in> spans_set (r # rs)" using "2.prems"(2) by auto
    then have lo: "span_lo r \<le> start" using above [of start] rs(2) by auto
    show "cover_scan start end (r # rs)"
    proof (cases "span_hi r > start")
      case True
      have "{span_hi r..<end} \<subseteq> spans_set rs"
      proof
        fix x assume "x \<in> {span_hi r..<end}"
        then have "x \<in> {start..<end}" "x \<notin> span_set r" using True by auto
        then show "x \<in> spans_set rs" using sub by auto
      qed
      then show ?thesis
        using "2.IH"(1) [OF _ True] True lo rs(1) by (auto simp: not_le)
    next
      case False
      have "{start..<end} \<subseteq> spans_set rs"
      proof
        fix x assume "x \<in> {start..<end}"
        then have "x \<in> {start..<end}" "x \<notin> span_set r" using False by auto
        then show "x \<in> spans_set rs" using sub by auto
      qed
      then show ?thesis
        using "2.IH"(2) [OF _ False] False lo rs(1) "2.prems"(2) by auto
    qed
  qed
qed

text \<open>The scan decides inclusion in the acknowledged set; on any list it is sound.\<close>

lemma coveredLocked_sound:
  assumes "coveredLocked t start end"
  shows "{start..<end} \<subseteq> acked t"
proof (cases "end \<le> start \<or> end \<le> atCumulative t")
  case True
  then show ?thesis by (auto simp: acked_def)
next
  case False
  then have "{max start (atCumulative t)..<end} \<subseteq> spans_set (atRanges t)"
    using assms cover_scan_sound by (auto simp: coveredLocked_def max_def split: if_splits)
  then have "\<forall>x. max start (atCumulative t) \<le> x \<and> x < end \<longrightarrow> x \<in> spans_set (atRanges t)"
    by auto
  then show ?thesis by (auto simp: acked_def)
qed

lemma coveredLocked_iff:
  assumes "tracker_ok t"
  shows "coveredLocked t start end \<longleftrightarrow> {start..<end} \<subseteq> acked t"
proof
  show "{start..<end} \<subseteq> acked t" if "coveredLocked t start end"
    using that by (rule coveredLocked_sound)
  assume sub: "{start..<end} \<subseteq> acked t"
  have ap: "apart (atRanges t)"
    using assms by (simp add: tracker_ok_def separated_iff)
  show "coveredLocked t start end"
  proof (cases "end \<le> start \<or> end \<le> atCumulative t")
    case True
    then show ?thesis by (auto simp: coveredLocked_def)
  next
    case False
    let ?s = "if start < atCumulative t then atCumulative t else start"
    have "{?s..<end} \<subseteq> spans_set (atRanges t)"
    proof
      fix x assume "x \<in> {?s..<end}"
      then have "x \<in> {start..<end}" "\<not> x < atCumulative t" by (auto split: if_splits)
      then show "x \<in> spans_set (atRanges t)" using sub by (auto simp: acked_def)
    qed
    then have "cover_scan ?s end (atRanges t)"
      using cover_scan_iff [OF ap, of ?s "end"] False by auto
    then show ?thesis by (simp add: coveredLocked_def)
  qed
qed

lemma snapshot_covers_eq: "snapshot_covers (ack_Snapshot t) start end = coveredLocked t start end"
  by (simp add: snapshot_covers_def ack_Snapshot_def coveredLocked_def)

section \<open>Merging and compacting\<close>

lemma apart_append_last:
  "apart (rs @ [s]) \<longleftrightarrow> apart rs \<and> (\<forall>r\<in>set rs. span_hi r < span_lo s) \<and> span_lo s < span_hi s"
  by (auto simp: apart_def sorted_wrt_append)

lemma merge_loop_spec:
  assumes "merged = init @ [l]" and "apart merged" and "sorted rs"
    and "\<forall>r\<in>set rs. span_lo l \<le> span_lo r \<and> span_lo r < span_hi r"
  shows "apart (merge_loop merged rs) \<and> spans_set (merge_loop merged rs) = spans_set merged \<union> spans_set rs"
  using assms
proof (induction merged rs arbitrary: init l rule: merge_loop.induct)
  case (1 merged)
  then show ?case by simp
next
  case (2 merged r rs)
  have rs: "sorted rs" "\<forall>s\<in>set rs. span_lo r \<le> span_lo s \<and> span_lo s < span_hi s"
    and r: "span_lo l \<le> span_lo r" "span_lo r < span_hi r"
    using "2.prems"(3,4) by (auto dest: less_eq_span_lo)
  have l: "last merged = l" "butlast merged = init" using "2.prems"(1) by simp_all
  consider (grow) "span_lo r \<le> span_hi l" "span_hi r > span_hi l"
    | (inside) "span_lo r \<le> span_hi l" "\<not> span_hi r > span_hi l"
    | (apart) "\<not> span_lo r \<le> span_hi l" by blast
  then show ?case
  proof cases
    case grow
    let ?n = "Span (span_lo l) (span_hi r)"
    have "apart (init @ [?n])"
      using "2.prems"(1,2) r grow by (auto simp: apart_append_last)
    then have "apart (merge_loop (init @ [?n]) rs) \<and>
        spans_set (merge_loop (init @ [?n]) rs) = spans_set (init @ [?n]) \<union> spans_set rs"
      using "2.IH"(1) [of l init ?n] grow l rs "2.prems"(4) by auto
    moreover have "span_set ?n = span_set l \<union> span_set r"
      using grow r by (auto simp: not_less)
    ultimately show ?thesis
      using grow l "2.prems"(1) by (auto simp: Let_def)
  next
    case inside
    then have "apart (merge_loop merged rs) \<and>
        spans_set (merge_loop merged rs) = spans_set merged \<union> spans_set rs"
      using "2.IH"(2) [of l init l] l rs "2.prems" by auto
    moreover have "span_set r \<subseteq> span_set l"
      using inside r by auto
    ultimately show ?thesis
      using inside l "2.prems"(1) by (auto simp: Let_def)
  next
    case apart
    have "span_hi s < span_lo r" if "s \<in> set merged" for s
    proof (cases "s = l")
      case True
      then show ?thesis using apart by simp
    next
      case False
      then have "span_hi s < span_lo l"
        using that "2.prems"(1,2) by (auto simp: apart_append_last)
      with r(1) show ?thesis by simp
    qed
    then have "apart (merged @ [r])"
      using "2.prems"(2) r by (simp add: apart_append_last)
    then show ?thesis
      using "2.IH"(3) [of l merged r] apart l rs by (auto simp: Let_def)
  qed
qed

lemma mergeLocked_spec:
  assumes "\<forall>r\<in>set (atRanges t). span_lo r < span_hi r"
  shows "apart (atRanges (mergeLocked t)) \<and> acked (mergeLocked t) = acked t \<and>
    atCumulative (mergeLocked t) = atCumulative t \<and> atClosed (mergeLocked t) = atClosed t \<and>
    atGen (mergeLocked t) = atGen t"
proof (cases "length (atRanges t) < 2")
  case True
  then consider "atRanges t = []" | r where "atRanges t = [r]"
    by (cases "atRanges t" rule: remdups_adj.cases) auto
  then show ?thesis
    using assms True by cases (auto simp: mergeLocked_def apart_def)
next
  case False
  then obtain r rs where s: "sort (atRanges t) = r # rs"
    by (metis length_sort list.exhaust list.size(3) zero_less_numeral)
  have "sorted (r # rs)" using sorted_sort [of "atRanges t"] unfolding s .
  moreover have set_s: "set (r # rs) = set (atRanges t)"
    unfolding s [symmetric] by simp
  ultimately have "apart (merge_loop [r] rs) \<and> spans_set (merge_loop [r] rs) = spans_set [r] \<union> spans_set rs"
    using assms by (intro merge_loop_spec [of _ "[]" r]) (auto simp: apart_def dest: less_eq_span_lo)
  then show ?thesis
    using False s spans_set_cong_set [OF set_s]
    by (auto simp: mergeLocked_def acked_def Let_def)
qed

lemma compact_pass_spec:
  assumes "compact_pass c rs = (c', kept, p)"
  shows "c \<le> c' \<and> {x. x < c} \<union> spans_set rs = {x. x < c'} \<union> spans_set kept \<and> set kept \<subseteq> set rs
    \<and> (apart rs \<longrightarrow> apart kept) \<and> (\<not> p \<longrightarrow> c' = c \<and> kept = rs \<and> (\<forall>r\<in>set kept. c < span_lo r))"
  using assms
proof (induction c rs arbitrary: c' kept p rule: compact_pass.induct)
  case (1 c)
  then show ?case by simp
next
  case (2 c r rs)
  consider (below) "span_hi r \<le> c" | (touch) "\<not> span_hi r \<le> c" "span_lo r \<le> c"
    | (keep) "\<not> span_hi r \<le> c" "\<not> span_lo r \<le> c" by blast
  then show ?case
  proof cases
    case below
    then obtain q where "compact_pass c rs = (c', kept, q)" "p"
      using "2.prems" by (auto split: prod.splits)
    moreover have "span_set r \<subseteq> {x. x < c}" using below by auto
    ultimately show ?thesis
      using "2.IH"(1) [OF below] by (fastforce simp: apart_Cons)
  next
    case touch
    then obtain q where "compact_pass (span_hi r) rs = (c', kept, q)" "p"
      using "2.prems" by (auto split: prod.splits)
    moreover have "{x. x < c} \<union> span_set r = {x. x < span_hi r}" using touch by auto
    ultimately show ?thesis
      using "2.IH"(2) [OF touch, of c' kept q] touch by (auto simp: apart_Cons)
  next
    case keep
    then obtain kept' where "compact_pass c rs = (c', kept', p)" "kept = r # kept'"
      using "2.prems" by (auto split: prod.splits)
    then show ?thesis
      using "2.IH"(3) [OF keep, of c' kept' p] keep by (auto simp: apart_Cons)
  qed
qed

lemma compact_loop_spec:
  assumes "compact_loop c rs = (c', kept)" and "apart rs"
  shows "c \<le> c' \<and> {x. x < c} \<union> spans_set rs = {x. x < c'} \<union> spans_set kept \<and> separated c' kept"
  using assms
proof (induction c rs arbitrary: c' kept rule: compact_loop.induct)
  case (1 c rs)
  obtain c1 k1 p where pass: "compact_pass c rs = (c1, k1, p)" by (metis prod_cases3)
  note spec = compact_pass_spec [OF pass]
  show ?case
  proof (cases p)
    case True
    then have "compact_loop c1 k1 = (c', kept)"
      using "1.prems"(1) pass by (simp add: compact_loop.simps [of c rs])
    then show ?thesis
      using "1.IH" [OF pass [symmetric] refl True] spec "1.prems"(2) by auto
  next
    case False
    then have "c' = c1" "kept = k1"
      using "1.prems"(1) pass by (simp_all add: compact_loop.simps [of c rs])
    then show ?thesis
      using "1.prems"(2) False spec unfolding separated_iff by blast
  qed
qed

lemma compactLocked_spec:
  assumes "apart (atRanges t)"
  shows "tracker_ok (compactLocked t) \<and> acked (compactLocked t) = acked t \<and>
    atCumulative t \<le> atCumulative (compactLocked t) \<and>
    atClosed (compactLocked t) = atClosed t \<and> atGen (compactLocked t) = atGen t"
proof -
  obtain c1 k1 p where pass: "compact_pass (atCumulative t) (atRanges t) = (c1, k1, p)"
    by (metis prod_cases3)
  obtain c2 k2 where loop: "compact_loop c1 k1 = (c2, k2)" by (metis surj_pair)
  have "compactLocked t = t\<lparr>atCumulative := c2, atRanges := k2\<rparr>"
    by (simp add: compactLocked_def pass loop)
  then show ?thesis
    using compact_pass_spec [OF pass] compact_loop_spec [OF loop] assms
    by (auto simp: tracker_ok_def acked_def)
qed

section \<open>What the operations learn\<close>

lemma add_loop_spec:
  "\<exists>ns. fst (add_loop rs t ch) = t\<lparr>atRanges := atRanges t @ ns\<rparr> \<and>
     (\<forall>r\<in>set ns. span_lo r < span_hi r) \<and> acked (fst (add_loop rs t ch)) = acked t \<union> spans_set rs \<and>
     (snd (add_loop rs t ch) \<longleftrightarrow> ch \<or> ns \<noteq> [])"
proof (induction rs t ch rule: add_loop.induct)
  case (1 t ch)
  show ?case by (intro exI [of _ "[]"]) simp
next
  case (2 r rs t ch)
  show ?case
  proof (cases "coveredLocked t (span_lo r) (span_hi r)")
    case True
    then have "span_set r \<subseteq> acked t"
      using coveredLocked_sound by (auto simp: span_set_def)
    with "2.IH"(1) [OF True] True show ?thesis by auto
  next
    case False
    then have "span_lo r < span_hi r" by (auto simp: coveredLocked_def split: if_splits)
    moreover have "acked (t\<lparr>atRanges := atRanges t @ [r]\<rparr>) = acked t \<union> span_set r"
      by (auto simp: acked_def)
    with "2.IH"(2) [OF False] obtain ns where
      "fst (add_loop rs (t\<lparr>atRanges := atRanges t @ [r]\<rparr>) True) = t\<lparr>atRanges := atRanges t @ r # ns\<rparr>"
      "\<forall>r\<in>set ns. span_lo r < span_hi r"
      "acked (fst (add_loop rs (t\<lparr>atRanges := atRanges t @ [r]\<rparr>) True)) = acked t \<union> span_set r \<union> spans_set rs"
      "snd (add_loop rs (t\<lparr>atRanges := atRanges t @ [r]\<rparr>) True)"
      by auto
    ultimately show ?thesis
      using False by (intro exI [of _ "r # ns"]) auto
  qed
qed

lemma add_loop_known:
  assumes "tracker_ok t" and "spans_set rs \<subseteq> acked t"
  shows "add_loop rs t ch = (t, ch)"
  using assms(2)
proof (induction rs)
  case Nil
  then show ?case by simp
next
  case (Cons r rs)
  then have "coveredLocked t (span_lo r) (span_hi r)"
    using coveredLocked_iff [OF assms(1)] by (simp add: span_set_def)
  with Cons show ?case by simp
qed

lemma Add_spec:
  assumes "tracker_ok t"
  shows "tracker_ok (fst (Add rs t)) \<and> acked (fst (Add rs t)) = acked t \<union> spans_set rs \<and>
    (snd (Add rs t) \<longleftrightarrow> \<not> spans_set rs \<subseteq> acked t) \<and> (\<not> snd (Add rs t) \<longrightarrow> fst (Add rs t) = t) \<and>
    atClosed (fst (Add rs t)) = atClosed t \<and>
    atGen (fst (Add rs t)) = (if snd (Add rs t) then atGen t + 1 else atGen t)"
proof (cases "spans_set rs \<subseteq> acked t")
  case True
  then have "Add rs t = (t, False)"
    using add_loop_known [OF assms True] by (simp add: Add_def)
  with True assms show ?thesis by auto
next
  case False
  obtain ns where ns: "fst (add_loop rs t False) = t\<lparr>atRanges := atRanges t @ ns\<rparr>"
      "\<forall>r\<in>set ns. span_lo r < span_hi r" "acked (fst (add_loop rs t False)) = acked t \<union> spans_set rs"
      "snd (add_loop rs t False) \<longleftrightarrow> ns \<noteq> []"
    using add_loop_spec [of rs t False] by auto
  let ?t1 = "t\<lparr>atRanges := atRanges t @ ns\<rparr>"
  have "ns \<noteq> []" using ns(1,3) False by auto
  then have loop: "add_loop rs t False = (?t1, True)"
    using ns(1,4) by (simp add: prod_eq_iff)
  have "\<forall>r\<in>set (atRanges ?t1). span_lo r < span_hi r"
    using ns(2) assms by (auto simp: tracker_ok_def separated_iff apart_def)
  note m = mergeLocked_spec [OF this]
  then have "apart (atRanges (mergeLocked ?t1))" by blast
  note c = compactLocked_spec [OF this]
  have "rs \<noteq> []" using False by auto
  then have "Add rs t = ((compactLocked (mergeLocked ?t1))\<lparr>atGen := atGen t + 1\<rparr>, True)"
    using loop m c by (simp add: Add_def Let_def)
  then show ?thesis
    using m c ns(1,3) False by (simp only: fst_conv snd_conv acked_simps ack_tracker.simps) simp
qed

text \<open>A moved cumulative point is news: the byte at it was missing.\<close>

lemma cumulative_missing: "tracker_ok t \<Longrightarrow> atCumulative t \<notin> acked t"
  using separated_above [of "atCumulative t" "atRanges t"] by (auto simp: tracker_ok_def acked_def)

lemma Advance_spec:
  assumes "tracker_ok t"
  shows "tracker_ok (fst (Advance q t)) \<and> acked (fst (Advance q t)) = acked t \<union> {x. x < q} \<and>
    (snd (Advance q t) \<longleftrightarrow> \<not> {x. x < q} \<subseteq> acked t) \<and>
    (\<not> snd (Advance q t) \<longrightarrow> fst (Advance q t) = t) \<and> atClosed (fst (Advance q t)) = atClosed t \<and>
    atGen (fst (Advance q t)) = (if snd (Advance q t) then atGen t + 1 else atGen t)"
proof (cases "q \<le> atCumulative t")
  case True
  then show ?thesis using assms by (auto simp: Advance_def acked_def)
next
  case False
  have "apart (atRanges (t\<lparr>atCumulative := q\<rparr>))"
    using assms by (simp add: tracker_ok_def separated_iff)
  note c = compactLocked_spec [OF this]
  have "Advance q t = ((compactLocked (t\<lparr>atCumulative := q\<rparr>))\<lparr>atGen := atGen t + 1\<rparr>, True)"
    using False c by (simp add: Advance_def Let_def)
  moreover have "acked (t\<lparr>atCumulative := q\<rparr>) = acked t \<union> {x. x < q}"
    using False by (auto simp: acked_def)
  moreover have "\<not> {x. x < q} \<subseteq> acked t"
    using cumulative_missing [OF assms] False by (auto simp: subset_iff not_le)
  ultimately show ?thesis
    using c by simp
qed

datatype ack_op = OpAdvance u64 | OpAdd "span list" | OpTouch | OpClose

fun ack_apply :: "ack_op \<Rightarrow> ack_tracker \<Rightarrow> ack_tracker \<times> bool" where
  "ack_apply (OpAdvance q) t = Advance q t"
| "ack_apply (OpAdd rs) t = Add rs t"
| "ack_apply OpTouch t = Touch t"
| "ack_apply OpClose t = close_tracker t"

fun op_bytes :: "ack_op \<Rightarrow> u64 set" where
  "op_bytes (OpAdvance q) = {x. x < q}"
| "op_bytes (OpAdd rs) = spans_set rs"
| "op_bytes OpTouch = {}"
| "op_bytes OpClose = {}"

definition ack_step :: "ack_op \<Rightarrow> ack_tracker \<Rightarrow> ack_tracker" where
  "ack_step op t = fst (ack_apply op t)"

section \<open>A record of bytes\<close>

text \<open>
  The contract of the tracker towards the striped sender: it keeps a set of bytes, every operation
  adds what it says, and a query answers from the set. So the order in which acknowledgements arrive,
  and how often, cannot matter.
\<close>

locale byte_record =
  fixes ok :: "'t \<Rightarrow> bool"
    and bytes_of :: "'t \<Rightarrow> u64 set"
    and learn :: "'op \<Rightarrow> 't \<Rightarrow> 't"
    and news :: "'op \<Rightarrow> u64 set"
    and has :: "'t \<Rightarrow> u64 \<Rightarrow> u64 \<Rightarrow> bool"
  assumes learn_ok: "ok t \<Longrightarrow> ok (learn op t)"
    and learn_bytes: "ok t \<Longrightarrow> bytes_of (learn op t) = bytes_of t \<union> news op"
    and has_iff: "ok t \<Longrightarrow> has t start end \<longleftrightarrow> {start..<end} \<subseteq> bytes_of t"
begin

lemma run_bytes:
  "ok t \<Longrightarrow> ok (fold learn ops t) \<and> bytes_of (fold learn ops t) = bytes_of t \<union> (\<Union>op\<in>set ops. news op)"
  by (induction ops arbitrary: t) (auto simp: learn_ok learn_bytes)

lemma run_has:
  "ok t \<Longrightarrow> has (fold learn ops t) start end
     \<longleftrightarrow> {start..<end} \<subseteq> bytes_of t \<union> (\<Union>op\<in>set ops. news op)"
  using run_bytes [of t ops] has_iff [of "fold learn ops t"] by simp

lemma run_order:
  "ok t \<Longrightarrow> set ops = set ops' \<Longrightarrow>
     has (fold learn ops t) start end \<longleftrightarrow> has (fold learn ops' t) start end"
  by (simp add: run_has)

end

interpretation tracker: byte_record tracker_ok acked ack_step op_bytes Covered
proof unfold_locales
  fix t op start "end"
  assume ok: "tracker_ok t"
  show "tracker_ok (ack_step op t)" and "acked (ack_step op t) = acked t \<union> op_bytes op"
    using Advance_spec [OF ok] Add_spec [OF ok] ok
    by (cases op; simp add: ack_step_def Touch_def close_tracker_def)+
  show "Covered t start end \<longleftrightarrow> {start..<end} \<subseteq> acked t"
    using coveredLocked_iff [OF ok] by (simp add: Covered_def)
qed

lemma highest_fold:
  "c \<le> foldl (\<lambda>top r. if span_hi r > top then span_hi r else top) c rs \<and>
   (\<forall>r\<in>set rs. span_hi r \<le> foldl (\<lambda>top r. if span_hi r > top then span_hi r else top) c rs) \<and>
   (foldl (\<lambda>top r. if span_hi r > top then span_hi r else top) c rs = c \<or>
    foldl (\<lambda>top r. if span_hi r > top then span_hi r else top) c rs \<in> span_hi ` set rs)"
proof (induction rs arbitrary: c)
  case Nil
  then show ?case by simp
next
  case (Cons r rs)
  show ?case
    using Cons [of "if span_hi r > c then span_hi r else c"] by (auto split: if_splits)
qed

lemma last_byte:
  assumes "(a :: u64) < b"
  shows "a \<le> b - 1 \<and> b - 1 < b"
proof -
  have "1 \<le> b" using assms by (simp add: word_less_nat_alt word_le_nat_alt)
  then have "unat (b - 1) = unat b - 1" by (simp add: unat_sub_no_wrap)
  then show ?thesis using assms by (simp add: word_less_nat_alt word_le_nat_alt)
qed

lemma highest_spec:
  assumes "tracker_ok t"
  shows "acked t \<subseteq> {x. x < highest (ack_Snapshot t)} \<and>
    (highest (ack_Snapshot t) = 0 \<or> highest (ack_Snapshot t) - 1 \<in> acked t)"
proof -
  let ?h = "highest (ack_Snapshot t)"
  have h: "atCumulative t \<le> ?h" "\<forall>r\<in>set (atRanges t). span_hi r \<le> ?h"
      "?h = atCumulative t \<or> ?h \<in> span_hi ` set (atRanges t)"
    using highest_fold [of "atCumulative t" "atRanges t"]
    by (simp_all add: highest_def ack_Snapshot_def)
  then have "acked t \<subseteq> {x. x < ?h}"
    by (auto simp: acked_def spans_set_def intro: less_le_trans)
  moreover have "?h - 1 \<in> acked t" if "?h \<noteq> 0"
    using h(3)
  proof
    assume "?h = atCumulative t"
    then show ?thesis
      using last_byte [of 0 ?h] that by (auto simp: acked_def word_neq_0_conv)
  next
    assume "?h \<in> span_hi ` set (atRanges t)"
    then obtain r where r: "r \<in> set (atRanges t)" "?h = span_hi r" by auto
    then have "span_lo r < ?h"
      using assms by (auto simp: tracker_ok_def separated_iff apart_def)
    from last_byte [OF this] r show ?thesis
      by (auto simp: acked_def spans_set_def intro!: bexI [of _ r])
  qed
  ultimately show ?thesis by blast
qed

lemma ack_apply_quiet:
  assumes "tracker_ok t" and "ack_apply op t = (t', False)"
  shows "t' = t"
  using assms Add_spec [OF assms(1)] Advance_spec [OF assms(1)]
  by (cases op) (metis ack_apply.simps fst_conv snd_conv Touch_def close_tracker_def)+

section \<open>Goroutines waiting on the tracker\<close>

text \<open>
  \<open>waiting g = Some (w, notified)\<close>: goroutine \<open>g\<close> is inside \<^verbatim>\<open>cond.Wait\<close> for \<open>w\<close> and has or has not been
  broadcast to. \<open>ended g\<close>: its context ended; \<open>pending g\<close>: the \<^verbatim>\<open>AfterFunc\<close> of that context has not
  run yet.
\<close>

datatype wait_for = ForRange u64 u64 | ForChange u64

fun round_of :: "wait_for \<Rightarrow> bool \<Rightarrow> ack_tracker \<Rightarrow> wait_result" where
  "round_of (ForRange start end) cancelled t = wait_round start end cancelled t"
| "round_of (ForChange since) cancelled t = snd (wait_change_round since cancelled t)"

record ack_sys =
  tracker :: ack_tracker
  waiting :: "nat \<Rightarrow> (wait_for \<times> bool) option"
  ended :: "nat \<Rightarrow> bool"
  pending :: "nat \<Rightarrow> bool"

definition notify_all :: "ack_sys \<Rightarrow> ack_sys" where
  "notify_all s = s\<lparr>waiting := (\<lambda>g. map_option (\<lambda>(w, _). (w, True)) (waiting s g))\<rparr>"

definition run_round :: "nat \<Rightarrow> wait_for \<Rightarrow> ack_sys \<Rightarrow> ack_sys" where
  "run_round g w s = s\<lparr>waiting := (waiting s)(g :=
     (if round_of w (ended s g) (tracker s) = WaitSleep then Some (w, False) else None))\<rparr>"

inductive ack_sys_step :: "ack_sys \<Rightarrow> ack_sys \<Rightarrow> bool" where
  operation: "ack_apply op (tracker s) = (t, broadcast) \<Longrightarrow>
     ack_sys_step s ((if broadcast then notify_all s else s)\<lparr>tracker := t\<rparr>)"
| enter: "waiting s g = None \<Longrightarrow> ack_sys_step s (run_round g w s)"
| resume: "waiting s g = Some (w, True) \<Longrightarrow> ack_sys_step s (run_round g w s)"
| cancel: "ack_sys_step s
     (s\<lparr>ended := (ended s)(g := True), pending := (pending s)(g := waiting s g \<noteq> None)\<rparr>)"
| after_func: "pending s g \<Longrightarrow>
     ack_sys_step s ((notify_all s)\<lparr>pending := (pending s)(g := False)\<rparr>)"

inductive ack_sys_reach :: "ack_sys \<Rightarrow> bool" where
  start: "ack_sys_reach \<lparr>tracker = newAckTracker, waiting = (\<lambda>_. None), ended = (\<lambda>_. False),
     pending = (\<lambda>_. False)\<rparr>"
| step: "ack_sys_reach s \<Longrightarrow> ack_sys_step s s' \<Longrightarrow> ack_sys_reach s'"

definition sys_ok :: "ack_sys \<Rightarrow> bool" where
  "sys_ok s \<longleftrightarrow> tracker_ok (tracker s) \<and>
     (\<forall>g w. waiting s g = Some (w, False) \<longrightarrow>
        round_of w False (tracker s) = WaitSleep \<and> (ended s g \<longrightarrow> pending s g))"

lemma round_of_cancelled:
  "round_of w c t = WaitSleep \<longleftrightarrow> \<not> c \<and> round_of w False t = WaitSleep"
  by (cases w) (auto simp: wait_round_def wait_change_round_def)

lemma run_round_ok: "sys_ok s \<Longrightarrow> sys_ok (run_round g w s)"
  using round_of_cancelled [of w "ended s g" "tracker s"] by (auto simp: sys_ok_def run_round_def)

lemma ack_sys_step_ok: "ack_sys_step s s' \<Longrightarrow> sys_ok s \<Longrightarrow> sys_ok s'"
proof (induction rule: ack_sys_step.induct)
  case (operation op s t broadcast)
  have ok: "tracker_ok (tracker s)" using operation by (simp add: sys_ok_def)
  then have "tracker_ok t"
    using tracker.learn_ok [OF ok, of op] operation by (simp add: ack_step_def)
  moreover have "t = tracker s" if "\<not> broadcast"
    using ack_apply_quiet [OF ok] operation.hyps that by simp
  ultimately show ?case
    using operation.prems by (auto simp: sys_ok_def notify_all_def split: if_splits)
next
  case (enter s g w)
  then show ?case by (simp add: run_round_ok)
next
  case (resume s g w)
  then show ?case by (simp add: run_round_ok)
next
  case (cancel s g)
  then show ?case by (auto simp: sys_ok_def)
next
  case (after_func s g)
  then show ?case by (auto simp: sys_ok_def notify_all_def)
qed

lemma ack_sys_reach_ok: "ack_sys_reach s \<Longrightarrow> sys_ok s"
proof (induction rule: ack_sys_reach.induct)
  case start
  then show ?case by (simp add: sys_ok_def tracker_ok_new)
next
  case (step s s')
  then show ?case by (simp add: ack_sys_step_ok)
qed

section \<open>Properties\<close>

text \<open>
  C7. The tracker answers from exactly what it was told: after any acknowledgements - cumulative and
  selective, overlapping, repeated, in any order - a range counts as covered precisely when every byte
  of it was reported, the retained ranges stay sorted, disjoint and non-adjacent above the cumulative
  point, and \<^verbatim>\<open>highest\<close> is one past the last reported byte.
\<close>

theorem ack_history_exact:
  "let t = fold ack_step ops newAckTracker; told = (\<Union>op\<in>set ops. op_bytes op) in
     separated (atCumulative t) (atRanges t) \<and>
     (\<forall>start end. Covered t start end \<longleftrightarrow> {start..<end} \<subseteq> told) \<and>
     (\<forall>start end. snapshot_covers (ack_Snapshot t) start end \<longleftrightarrow> {start..<end} \<subseteq> told) \<and>
     told \<subseteq> {x. x < highest (ack_Snapshot t)} \<and>
     (highest (ack_Snapshot t) = 0 \<or> highest (ack_Snapshot t) - 1 \<in> told)"
proof -
  let ?t = "fold ack_step ops newAckTracker"
  have run: "tracker_ok ?t" "acked ?t = (\<Union>op\<in>set ops. op_bytes op)"
    using tracker.run_bytes [OF tracker_ok_new(1), of ops] tracker_ok_new(2) by simp_all
  then show ?thesis
    using highest_spec [OF run(1)] tracker.has_iff [OF run(1)] snapshot_covers_eq [of ?t]
    by (simp add: tracker_ok_def Covered_def Let_def)
qed

text \<open>
  No acknowledgement is missed: whatever interleaving of acknowledgements, waits, cancellations
  and close, a goroutine still asleep and not yet woken has nothing to wake for - its range is not
  covered (or its generation is current), the tracker is open, and if its context ended the wake-up
  for that is still on its way.
\<close>

theorem ack_no_lost_wakeup:
  assumes "ack_sys_reach s" and "waiting s g = Some (w, False)"
  shows "(case w of ForRange start end \<Rightarrow> \<not> Covered (tracker s) start end
      | ForChange since \<Rightarrow> atGen (tracker s) = since)
    \<and> \<not> atClosed (tracker s) \<and> (ended s g \<longrightarrow> pending s g)"
proof -
  have "round_of w False (tracker s) = WaitSleep" "ended s g \<longrightarrow> pending s g"
    using ack_sys_reach_ok [OF assms(1)] assms(2) by (auto simp: sys_ok_def)
  then show ?thesis
    by (cases w) (auto simp: Covered_def wait_round_def wait_change_round_def split: if_splits)
qed

definition waiting_example :: ack_sys where
  "waiting_example = \<lparr>tracker = newAckTracker, waiting = (\<lambda>_. None)(3 := Some (ForRange 0 10, False)),
     ended = (\<lambda>_. False), pending = (\<lambda>_. False)\<rparr>"

theorem ack_no_lost_wakeup_witness:
  "waiting waiting_example 3 = Some (ForRange 0 10, False) \<and>
   \<not> Covered (tracker waiting_example) 0 10 \<and> \<not> atClosed (tracker waiting_example)"
proof -
  let ?s = "\<lparr>tracker = newAckTracker, waiting = (\<lambda>_. None), ended = (\<lambda>_. False), pending = (\<lambda>_. False)\<rparr>"
  have "ack_sys_step ?s (run_round 3 (ForRange 0 10) ?s)"
    by (rule ack_sys_step.enter) simp
  then have "ack_sys_reach (run_round 3 (ForRange 0 10) ?s)"
    by (rule ack_sys_reach.step [OF ack_sys_reach.start])
  moreover have "run_round 3 (ForRange 0 10) ?s = waiting_example"
    by (simp add: run_round_def waiting_example_def wait_round_def coveredLocked_def newAckTracker_def)
  ultimately have "ack_sys_reach waiting_example" by simp
  then show ?thesis
    using ack_no_lost_wakeup [of waiting_example 3 "ForRange 0 10"] by (simp add: waiting_example_def)
qed

text \<open>
  News is exactly change: \<^verbatim>\<open>Add\<close> reports, broadcasts and advances the generation precisely when
  it learnt a byte, and otherwise leaves the tracker as it was.
\<close>

theorem ack_news_exact:
  "let t = fold ack_step ops newAckTracker; told = (\<Union>op\<in>set ops. op_bytes op) in
     Add rs t = (if spans_set rs \<subseteq> told then (t, False) else (fst (Add rs t), True)) \<and>
     acked (fst (Add rs t)) = told \<union> spans_set rs \<and>
     atGen (fst (Add rs t)) = (if spans_set rs \<subseteq> told then atGen t else atGen t + 1)"
proof -
  let ?t = "fold ack_step ops newAckTracker"
  have run: "tracker_ok ?t" "acked ?t = (\<Union>op\<in>set ops. op_bytes op)"
    using tracker.run_bytes [OF tracker_ok_new(1), of ops] tracker_ok_new(2) by simp_all
  then show ?thesis
    using Add_spec [OF run(1), of rs] by (auto simp: Let_def prod_eq_iff)
qed

end
