(* ===== verification/Stripe.thy ===== *)
theory Stripe
  imports Memlimit "HOL-Library.Multiset"
begin

text \<open>
  The self-pacing scheduler of \<^verbatim>\<open>queqiao/internal/stripe/stripe.go\<close>. Chunks are heap objects: the
  ready set and the in-flight table hold the same pointer when a chunk is offered again, and the
  source mutates \<^verbatim>\<open>urgent\<close>, \<^verbatim>\<open>Final\<close> and \<^verbatim>\<open>reservation\<close> through it, so the model has a heap of chunks
  and addresses. The answers of the configured callbacks (\<^verbatim>\<open>Windows\<close>, \<^verbatim>\<open>Reliable\<close>,
  \<^verbatim>\<open>RetransmitAfter\<close>, \<^verbatim>\<open>Retention\<close>, \<^verbatim>\<open>Now\<close>) are the argument \<open>env\<close> of each operation, and the
  iteration order of a Go map is an argument too. The mutex makes each method one step.
\<close>

section \<open>Configuration and state\<close>

record stripe_config =
  ChunkSize :: int
  LaneWindow :: int
  MaxOutstanding :: int
  MaxOutstandingBytes :: int
  ReliableReissueBurst :: int

record windows =
  wLane :: "u64 \<Rightarrow> u64 \<Rightarrow> int"
  wTotal :: int
  wOutstanding :: "(u64 \<Rightarrow> u64 \<Rightarrow> int) option" \<comment> \<open>\<^verbatim>\<open>OutstandingWindows\<close>, if implemented\<close>

record env =
  eNow :: int
  eAfter :: "int option" \<comment> \<open>\<^verbatim>\<open>RetransmitAfter\<close>, nil or its answer\<close>
  eReliable :: "(u64 \<Rightarrow> bool) option"
  eRetention :: "int option"
  eWindows :: "windows option"

definition stripeDefaultConfig :: stripe_config where
  "stripeDefaultConfig =
     \<lparr>ChunkSize = 64 * 1024, LaneWindow = 4, MaxOutstanding = 64,
      MaxOutstandingBytes = 16 * 1024 * 1024, ReliableReissueBurst = 0\<rparr>"

definition applyDefaults :: "stripe_config \<Rightarrow> stripe_config" where
  "applyDefaults c =
     (let d = stripeDefaultConfig;
          c1 = (if ChunkSize c \<le> 0 then c\<lparr>ChunkSize := ChunkSize d\<rparr> else c);
          c2 = (if LaneWindow c1 \<le> 0 then c1\<lparr>LaneWindow := LaneWindow d\<rparr> else c1);
          c3 = (if MaxOutstanding c2 \<le> 0 then c2\<lparr>MaxOutstanding := MaxOutstanding d\<rparr> else c2);
          c4 = (if MaxOutstanding c3 < LaneWindow c3 then c3\<lparr>MaxOutstanding := LaneWindow c3\<rparr> else c3) in
      if MaxOutstandingBytes c4 \<le> 0 then c4\<lparr>MaxOutstandingBytes := MaxOutstandingBytes d\<rparr> else c4)"

record chunk =
  cOffset :: u64
  cData :: bytes
  cFinal :: bool
  cUrgent :: bool
  cAttempt :: u64
  cReservation :: int

definition chunk_end :: "chunk \<Rightarrow> u64" where
  "chunk_end c = cOffset c + word_of_nat (length (cData c))"

record attempt =
  aId :: u64
  aLane :: u64
  aDeadline :: "int option" \<comment> \<open>None is the zero \<^verbatim>\<open>time.Time\<close>\<close>
  aReliable :: bool
  aWritten :: bool

record outstanding =
  oChunk :: nat
  oAttempts :: "attempt list"

text \<open>The four counters the admission test reads; an absent map entry is zero.\<close>

record accounts =
  laneLoad :: "u64 \<Rightarrow> int"
  laneBytes :: "u64 \<Rightarrow> u64"
  laneQueued :: "u64 \<Rightarrow> u64"
  totalBytes :: u64

record stats =
  ChunksIssued :: u64
  ChunksRetransmit :: u64
  ChunksCompleted :: u64
  BytesIssued :: u64
  BytesRetransmit :: u64
  LaneFailures :: u64
  SourceBytes :: u64
  PeakOutstanding :: nat
  CompletedByLaneID :: "u64 \<Rightarrow> u64"

datatype sched_error = SourceError string | MemoryError acquire_result

record scheduler =
  sCfg :: stripe_config
  sHeap :: "nat \<Rightarrow> chunk"
  sNew :: nat \<comment> \<open>the next free address\<close>
  sNextOffset :: u64
  sPending :: "nat list"
  sLive :: "(u64 \<times> outstanding) list"
  sAcc :: accounts
  sLiveBytes :: u64
  sNextAttempt :: u64
  sEof :: bool
  sSrcErr :: "sched_error option"
  sClosed :: bool
  sFinished :: bool
  sStats :: stats

definition new_scheduler :: "stripe_config \<Rightarrow> scheduler" where
  "new_scheduler cfg =
     \<lparr>sCfg = applyDefaults cfg,
      sHeap = (\<lambda>_. \<lparr>cOffset = 0, cData = [], cFinal = False, cUrgent = False, cAttempt = 0, cReservation = 0\<rparr>),
      sNew = 0, sNextOffset = 0, sPending = [], sLive = [],
      sAcc = \<lparr>laneLoad = (\<lambda>_. 0), laneBytes = (\<lambda>_. 0), laneQueued = (\<lambda>_. 0), totalBytes = 0\<rparr>,
      sLiveBytes = 0, sNextAttempt = 0, sEof = False, sSrcErr = None, sClosed = False, sFinished = False,
      sStats = \<lparr>ChunksIssued = 0, ChunksRetransmit = 0, ChunksCompleted = 0, BytesIssued = 0,
        BytesRetransmit = 0, LaneFailures = 0, SourceBytes = 0, PeakOutstanding = 0,
        CompletedByLaneID = (\<lambda>_. 0)\<rparr>\<rparr>"

abbreviation chunk_of :: "scheduler \<Rightarrow> nat \<Rightarrow> chunk" where
  "chunk_of s a \<equiv> sHeap s a"

abbreviation live :: "scheduler \<Rightarrow> u64 \<Rightarrow> outstanding option" where
  "live s \<equiv> map_of (sLive s)"

definition size64 :: "chunk \<Rightarrow> u64" where
  "size64 c = word_of_nat (length (cData c))"

section \<open>The lane accounts\<close>

definition releaseQueuedLocked :: "u64 \<Rightarrow> u64 \<Rightarrow> accounts \<Rightarrow> accounts" where
  "releaseQueuedLocked lane sz a =
     (if laneQueued a lane \<ge> sz
      then a\<lparr>laneQueued := (laneQueued a)(lane := laneQueued a lane - sz)\<rparr>
      else a\<lparr>laneQueued := (laneQueued a)(lane := 0)\<rparr>)"

definition releaseLaneLocked :: "u64 \<Rightarrow> u64 \<Rightarrow> bool \<Rightarrow> accounts \<Rightarrow> accounts" where
  "releaseLaneLocked lane sz queued a =
     (let a1 = (if laneLoad a lane > 0
                then a\<lparr>laneLoad := (laneLoad a)(lane := laneLoad a lane - 1)\<rparr> else a);
          a2 = (if queued then releaseQueuedLocked lane sz a1 else a1);
          (sz', left) = (if laneBytes a2 lane \<ge> sz then (sz, laneBytes a2 lane - sz)
                           else (laneBytes a2 lane, 0));
          a3 = a2\<lparr>laneBytes := (laneBytes a2)(lane := left)\<rparr> in
      if totalBytes a3 \<ge> sz' then a3\<lparr>totalBytes := totalBytes a3 - sz'\<rparr>
      else a3\<lparr>totalBytes := 0\<rparr>)"

text \<open>What \<^verbatim>\<open>takeReadyLocked\<close> adds when it hands a chunk to a lane.\<close>

definition chargeLane :: "u64 \<Rightarrow> u64 \<Rightarrow> accounts \<Rightarrow> accounts" where
  "chargeLane lane sz a =
     a\<lparr>laneLoad := (laneLoad a)(lane := laneLoad a lane + 1),
       laneBytes := (laneBytes a)(lane := laneBytes a lane + sz),
       laneQueued := (laneQueued a)(lane := laneQueued a lane + sz),
       totalBytes := totalBytes a + sz\<rparr>"

text \<open>\<^verbatim>\<open>hasRoomLocked\<close>; \<^verbatim>\<open>uint64(x)\<close> of a positive \<^verbatim>\<open>int\<close> is itself.\<close>

definition hasRoomLocked :: "env \<Rightarrow> accounts \<Rightarrow> u64 \<Rightarrow> int \<Rightarrow> u64 \<Rightarrow> bool" where
  "hasRoomLocked e a lane windowBytes sz =
     (if totalBytes a = 0 then True
      else let chunk = (if sz = 0 then 1 else sz) in
        if (case eWindows e of None \<Rightarrow> False | Some w \<Rightarrow>
              (wTotal w > 0 \<and> totalBytes a + chunk > word_of_int (wTotal w)) \<or>
              (case wOutstanding w of None \<Rightarrow> False | Some f \<Rightarrow>
                 f lane (laneBytes a lane) > 0 \<and>
                 laneBytes a lane + chunk > word_of_int (f lane (laneBytes a lane)))) then False
        else let queued = laneQueued a lane in
          if queued = 0 then True
          else if windowBytes > 0 \<and> queued + chunk > word_of_int windowBytes then False
          else (case eWindows e of None \<Rightarrow> True | Some w \<Rightarrow>
              \<not> (wLane w lane queued > 0 \<and> queued + chunk > word_of_int (wLane w lane queued))))"

section \<open>The ready set\<close>

text \<open>\<^verbatim>\<open>sort.Search\<close> over the offsets of the ready set.\<close>

definition pending_search :: "scheduler \<Rightarrow> u64 \<Rightarrow> nat" where
  "pending_search s offset = search_key (\<lambda>a. cOffset (chunk_of s a)) (sPending s) offset"

definition pendingHas :: "scheduler \<Rightarrow> u64 \<Rightarrow> bool" where
  "pendingHas s offset =
     (let i = pending_search s offset in
      i < length (sPending s) \<and> cOffset (chunk_of s (sPending s ! i)) = offset)"

definition set_urgent :: "bool \<Rightarrow> nat \<Rightarrow> scheduler \<Rightarrow> scheduler" where
  "set_urgent u a s = s\<lparr>sHeap := (sHeap s)(a := (chunk_of s a)\<lparr>cUrgent := u\<rparr>)\<rparr>"

definition requeueLocked :: "nat \<Rightarrow> scheduler \<Rightarrow> scheduler" where
  "requeueLocked a s =
     (let i = pending_search s (cOffset (chunk_of s a)) in
      if i < length (sPending s) \<and> cOffset (chunk_of s (sPending s ! i)) = cOffset (chunk_of s a) then s
      else let s1 = set_urgent True a s in
        s1\<lparr>sPending := take i (sPending s) @ a # drop i (sPending s)\<rparr>)"

definition removePendingLocked :: "u64 \<Rightarrow> scheduler \<Rightarrow> nat option \<times> scheduler" where
  "removePendingLocked offset s =
     (let i = pending_search s offset in
      if i \<ge> length (sPending s) \<or> cOffset (chunk_of s (sPending s ! i)) \<noteq> offset then (None, s)
      else (Some (sPending s ! i), s\<lparr>sPending := take i (sPending s) @ drop (i + 1) (sPending s)\<rparr>))"

definition hasUrgentLocked :: "scheduler \<Rightarrow> bool" where
  "hasUrgentLocked s = (case sPending s of [] \<Rightarrow> False | a # _ \<Rightarrow> cUrgent (chunk_of s a))"

section \<open>Producing\<close>

definition readAheadLimit :: "env \<Rightarrow> scheduler \<Rightarrow> int" where
  "readAheadLimit e s =
     (case eRetention e of None \<Rightarrow> MaxOutstandingBytes (sCfg s)
      | Some want \<Rightarrow> if want \<le> 0 \<or> want > MaxOutstandingBytes (sCfg s)
          then MaxOutstandingBytes (sCfg s) else want)"

definition retainedBytes :: "scheduler \<Rightarrow> u64" where
  "retainedBytes s =
     foldl (\<lambda>total a. if live s (cOffset (chunk_of s a)) = None then total + size64 (chunk_of s a) else total)
       (sLiveBytes s) (sPending s)"

definition produce_blocked :: "env \<Rightarrow> scheduler \<Rightarrow> bool" where
  "produce_blocked e s \<longleftrightarrow>
     \<not> sClosed s \<and> (int (length (sPending s) + length (sLive s)) \<ge> MaxOutstanding (sCfg s) \<or>
       retainedBytes s \<ge> word_of_int (readAheadLimit e s))"

text \<open>A new chunk object.\<close>

definition alloc :: "chunk \<Rightarrow> scheduler \<Rightarrow> nat \<times> scheduler" where
  "alloc c s = (sNew s, s\<lparr>sHeap := (sHeap s)(sNew s := c), sNew := Suc (sNew s)\<rparr>)"

definition markEOFLocked :: "scheduler \<Rightarrow> scheduler" where
  "markEOFLocked s =
     (let s1 = s\<lparr>sEof := True\<rparr> in
      if sPending s1 \<noteq> [] \<and> chunk_end (chunk_of s1 (last (sPending s1))) = sNextOffset s1
      then s1\<lparr>sHeap := (sHeap s1)(last (sPending s1) := (chunk_of s1 (last (sPending s1)))\<lparr>cFinal := True\<rparr>)\<rparr>
      else case alloc \<lparr>cOffset = sNextOffset s1, cData = [], cFinal = True, cUrgent = False,
                       cAttempt = 0, cReservation = 0\<rparr> s1 of
        (a, s2) \<Rightarrow> s2\<lparr>sPending := sPending s2 @ [a]\<rparr>)"

definition doneLocked :: "scheduler \<Rightarrow> bool" where
  "doneLocked s \<longleftrightarrow> sEof s \<and> sPending s = [] \<and> sLive s = []"

definition finishedLocked :: "scheduler \<Rightarrow> sched_error option" where
  "finishedLocked s = (if sSrcErr s \<noteq> None \<and> sPending s = [] \<and> sLive s = [] then sSrcErr s else None)"

definition signalIfDoneLocked :: "scheduler \<Rightarrow> scheduler" where
  "signalIfDoneLocked s = (if \<not> doneLocked s then s else s\<lparr>sFinished := True\<rparr>)"

text \<open>
  \<^verbatim>\<open>produce\<close> runs in three steps: waiting until it is not blocked and asking the shared memory for a
  chunk's worth (\<open>produce_memory_failed\<close> when that fails), then one read whose outcome it publishes.
\<close>

datatype read_error = SrcEOF | SrcFail string

definition produce_memory_failed :: "acquire_result \<Rightarrow> scheduler \<Rightarrow> scheduler" where
  "produce_memory_failed e s =
     (if \<not> sClosed s then s\<lparr>sSrcErr := Some (MemoryError e), sEof := True\<rparr> else s)"

definition add_source :: "bytes \<Rightarrow> scheduler \<Rightarrow> scheduler" where
  "add_source data s =
     (case alloc \<lparr>cOffset = sNextOffset s, cData = data, cFinal = False, cUrgent = False, cAttempt = 0,
                  cReservation = ChunkSize (sCfg s)\<rparr> s of
        (a, s1) \<Rightarrow>
          s1\<lparr>sNextOffset := sNextOffset s1 + word_of_nat (length data),
             sStats := (sStats s1)\<lparr>SourceBytes := SourceBytes (sStats s1) + word_of_nat (length data)\<rparr>,
             sPending := sPending s1 @ [a]\<rparr>)"

definition produce_read ::
  "bytes \<Rightarrow> read_error option \<Rightarrow> scheduler \<Rightarrow> budget option \<Rightarrow> panic + scheduler \<times> budget option" where
  "produce_read data err s memory =
     (if sClosed s then
        and_then (Release memory (ChunkSize (sCfg s))) (\<lambda>memory'. Inr (s, memory'))
      else and_then
        (if length data > 0 then Inr (add_source data s, memory)
         else and_then (Release memory (ChunkSize (sCfg s))) (\<lambda>memory'. Inr (s, memory')))
        (\<lambda>(s1, memory').
          case err of
            None \<Rightarrow> Inr (s1, memory')
          | Some SrcEOF \<Rightarrow> Inr (signalIfDoneLocked (markEOFLocked s1), memory')
          | Some (SrcFail m) \<Rightarrow>
              Inr (signalIfDoneLocked (s1\<lparr>sSrcErr := Some (SourceError m), sEof := True\<rparr>), memory')))"

section \<open>Handing out chunks\<close>

definition laneRetransmits :: "env \<Rightarrow> u64 \<Rightarrow> bool" where
  "laneRetransmits e lane = (case eReliable e of None \<Rightarrow> True | Some f \<Rightarrow> f lane)"

definition laneHasAttempt :: "outstanding \<Rightarrow> u64 \<Rightarrow> bool" where
  "laneHasAttempt out lane = list_ex (\<lambda>a. aLane a = lane) (oAttempts out)"

definition laneHasReliableAttempt :: "outstanding \<Rightarrow> u64 \<Rightarrow> bool" where
  "laneHasReliableAttempt out lane = list_ex (\<lambda>a. aLane a = lane \<and> aReliable a) (oAttempts out)"

definition retransmitAfter :: "env \<Rightarrow> int" where
  "retransmitAfter e = (case eAfter e of None \<Rightarrow> 0 | Some d \<Rightarrow> d)"

text \<open>The search of \<^verbatim>\<open>takeReadyLocked\<close> for the chunk to hand out: its index in the ready set.\<close>

fun pick_ready :: "env \<Rightarrow> u64 \<Rightarrow> int \<Rightarrow> scheduler \<Rightarrow> nat \<Rightarrow> nat list \<Rightarrow> nat option" where
  "pick_ready e lane windowBytes s i [] = None"
| "pick_ready e lane windowBytes s i (a # rest) =
     (if \<not> hasRoomLocked e (sAcc s) lane windowBytes (size64 (chunk_of s a)) \<and> \<not> cUrgent (chunk_of s a)
      then None
      else case live s (cOffset (chunk_of s a)) of
        Some out \<Rightarrow> if laneHasReliableAttempt out lane then pick_ready e lane windowBytes s (Suc i) rest
                    else Some i
      | None \<Rightarrow> Some i)"

text \<open>The rest of its body, once the chunk at index \<open>i\<close> was chosen.\<close>

definition next_attempt_id :: "scheduler \<Rightarrow> u64" where
  "next_attempt_id s = (let n = sNextAttempt s + 1 in if n = 0 then n + 1 else n)"

definition dispatch :: "env \<Rightarrow> u64 \<Rightarrow> nat \<Rightarrow> scheduler \<Rightarrow> chunk \<times> scheduler" where
  "dispatch e lane i s =
     (let a = sPending s ! i; c = chunk_of s a; sz = size64 c; k = cOffset c;
          exists = (live s k \<noteq> None);
          out = (case live s k of Some out \<Rightarrow> out | None \<Rightarrow> \<lparr>oChunk = a, oAttempts = []\<rparr>);
          st = sStats s;
          st1 = (if exists
                 then st\<lparr>ChunksRetransmit := ChunksRetransmit st + 1, BytesRetransmit := BytesRetransmit st + sz\<rparr>
                 else st\<lparr>ChunksIssued := ChunksIssued st + 1, BytesIssued := BytesIssued st + sz\<rparr>);
          deadline = (if retransmitAfter e > 0 then Some (eNow e + retransmitAfter e) else None);
          id = next_attempt_id s;
          out' = out\<lparr>oAttempts := oAttempts out @
             [\<lparr>aId = id, aLane = lane, aDeadline = deadline, aReliable = laneRetransmits e lane, aWritten = False\<rparr>]\<rparr>;
          live' = AList.update k out' (sLive s);
          s1 = s\<lparr>sPending := take i (sPending s) @ drop (i + 1) (sPending s),
                 sLive := live',
                 sLiveBytes := (if exists then sLiveBytes s else sLiveBytes s + sz),
                 sNextAttempt := id,
                 sAcc := chargeLane lane sz (sAcc s),
                 sStats := st1\<lparr>PeakOutstanding := max (PeakOutstanding st1) (length live')\<rparr>\<rparr>;
          s2 = set_urgent False a s1 in
      ((chunk_of s2 a)\<lparr>cReservation := 0, cAttempt := id\<rparr>, s2))"

definition takeReadyLocked :: "env \<Rightarrow> u64 \<Rightarrow> int \<Rightarrow> scheduler \<Rightarrow> (chunk \<times> scheduler) option" where
  "takeReadyLocked e lane windowBytes s =
     (case pick_ready e lane windowBytes s 0 (sPending s) of
        None \<Rightarrow> None
      | Some i \<Rightarrow> Some (dispatch e lane i s))"

text \<open>One round of the loop of \<^verbatim>\<open>Next\<close>: return, or wait on \<^verbatim>\<open>ready\<close>.\<close>

datatype next_result = NextChunk chunk | NextClosed | NextCancelled | NextError sched_error | NextDone | NextWait

definition next_round :: "env \<Rightarrow> bool \<Rightarrow> u64 \<Rightarrow> int \<Rightarrow> scheduler \<Rightarrow> next_result \<times> scheduler" where
  "next_round e cancelled lane windowBytes s =
     (if sClosed s then (NextClosed, s)
      else if cancelled then (NextCancelled, s)
      else if laneLoad (sAcc s) lane < LaneWindow (sCfg s) \<or> hasUrgentLocked s then
        (case takeReadyLocked e lane windowBytes s of
           Some (c, s') \<Rightarrow> (NextChunk c, s')
         | None \<Rightarrow> (case finishedLocked s of
             Some err \<Rightarrow> (NextError err, s)
           | None \<Rightarrow> if doneLocked s then (NextDone, s) else (NextWait, s)))
      else (NextWait, s))"

section \<open>Completion, failure and retry\<close>

definition set_live :: "u64 \<Rightarrow> outstanding \<Rightarrow> scheduler \<Rightarrow> scheduler" where
  "set_live k out s = s\<lparr>sLive := AList.update k out (sLive s)\<rparr>"

text \<open>Each attempt of a list gives back its lane's charge.\<close>

fun release_attempts :: "u64 \<Rightarrow> attempt list \<Rightarrow> accounts \<Rightarrow> accounts" where
  "release_attempts sz [] acc = acc"
| "release_attempts sz (a # as) acc =
     release_attempts sz as (releaseLaneLocked (aLane a) sz (\<not> aWritten a) acc)"

definition releaseChunkLocked ::
  "nat \<Rightarrow> scheduler \<Rightarrow> budget option \<Rightarrow> panic + scheduler \<times> budget option" where
  "releaseChunkLocked a s memory =
     (if cReservation (chunk_of s a) = 0 then Inr (s, memory)
      else and_then (Release memory (cReservation (chunk_of s a)))
        (\<lambda>memory'. Inr (s\<lparr>sHeap := (sHeap s)(a := (chunk_of s a)\<lparr>cReservation := 0\<rparr>)\<rparr>, memory')))"

definition Complete ::
  "u64 \<Rightarrow> u64 \<Rightarrow> scheduler \<Rightarrow> budget option \<Rightarrow> panic + scheduler \<times> budget option" where
  "Complete lane offset s memory =
     (let s1 = (case live s offset of
          None \<Rightarrow> s
        | Some out \<Rightarrow>
            let sz = size64 (chunk_of s (oChunk out)) in
            s\<lparr>sAcc := release_attempts sz (oAttempts out) (sAcc s),
              sLiveBytes := (if sLiveBytes s \<ge> sz then sLiveBytes s - sz else 0),
              sLive := AList.delete offset (sLive s),
              sStats := (sStats s)\<lparr>ChunksCompleted := ChunksCompleted (sStats s) + 1,
                CompletedByLaneID := (CompletedByLaneID (sStats s))
                  (lane := CompletedByLaneID (sStats s) lane + 1)\<rparr>\<rparr>) in
      case removePendingLocked offset s1 of (dropped, s2) \<Rightarrow>
        (case (live s offset, dropped) of
           (None, None) \<Rightarrow> Inr (s2, memory)
         | (Some out, _) \<Rightarrow> and_then (releaseChunkLocked (oChunk out) s2 memory)
             (\<lambda>(s3, memory'). Inr (signalIfDoneLocked s3, memory'))
         | (None, Some a) \<Rightarrow> and_then (releaseChunkLocked a s2 memory)
             (\<lambda>(s3, memory'). Inr (signalIfDoneLocked s3, memory'))))"

text \<open>\<^verbatim>\<open>dropAttemptLocked\<close>: the attempts left and the accounts, if the attempt was there.\<close>

fun drop_attempt :: "u64 \<Rightarrow> u64 \<Rightarrow> attempt list \<Rightarrow> (attempt \<times> attempt list) option" where
  "drop_attempt lane attemptID [] = None"
| "drop_attempt lane attemptID (a # as) =
     (if aId a \<noteq> attemptID \<or> aLane a \<noteq> lane then
        (case drop_attempt lane attemptID as of None \<Rightarrow> None | Some (b, kept) \<Rightarrow> Some (b, a # kept))
      else Some (a, as))"

definition count_failure :: "scheduler \<Rightarrow> scheduler" where
  "count_failure s = s\<lparr>sStats := (sStats s)\<lparr>LaneFailures := LaneFailures (sStats s) + 1\<rparr>\<rparr>"

definition requeue_if_idle :: "outstanding \<Rightarrow> scheduler \<Rightarrow> scheduler" where
  "requeue_if_idle out s = (if oAttempts out = [] then requeueLocked (oChunk out) s else s)"

definition Fail :: "u64 \<Rightarrow> u64 \<Rightarrow> u64 \<Rightarrow> scheduler \<Rightarrow> scheduler" where
  "Fail lane offset attemptID s =
     (case live s offset of None \<Rightarrow> s
      | Some out \<Rightarrow>
        case drop_attempt lane attemptID (oAttempts out) of
          None \<Rightarrow> s
        | Some (a, kept) \<Rightarrow>
          let out' = out\<lparr>oAttempts := kept\<rparr>;
              s1 = (set_live offset out' s)\<lparr>sAcc :=
                releaseLaneLocked (aLane a) (size64 (chunk_of s (oChunk out))) (\<not> aWritten a) (sAcc s)\<rparr> in
          requeue_if_idle out' (count_failure s1))"

text \<open>One round of the loop of \<^verbatim>\<open>RetireLane\<close>, on the in-flight entry \<open>k\<close>, and the loop in an order \<open>ks\<close>.\<close>

definition retire_one :: "u64 \<Rightarrow> u64 \<Rightarrow> scheduler \<Rightarrow> scheduler" where
  "retire_one lane k s =
     (case live s k of None \<Rightarrow> s
      | Some out \<Rightarrow>
        if \<not> laneHasAttempt out lane then s
        else
          let out' = out\<lparr>oAttempts := filter (\<lambda>a. aLane a \<noteq> lane) (oAttempts out)\<rparr>;
              s1 = count_failure s;
              s2 = (set_live k out' s1)\<lparr>sAcc := release_attempts (size64 (chunk_of s (oChunk out)))
                (filter (\<lambda>a. aLane a = lane) (oAttempts out)) (sAcc s)\<rparr> in
          requeue_if_idle out' s2)"

definition RetireLane :: "u64 list \<Rightarrow> u64 \<Rightarrow> scheduler \<Rightarrow> scheduler" where
  "RetireLane ks lane s =
     (let s1 = fold (retire_one lane) ks s; acc = sAcc s1 in
      s1\<lparr>sAcc := acc\<lparr>laneLoad := (laneLoad acc)(lane := 0), laneBytes := (laneBytes acc)(lane := 0),
        laneQueued := (laneQueued acc)(lane := 0)\<rparr>\<rparr>)"

text \<open>\<^verbatim>\<open>retireUnreliableAttemptsLocked\<close>; the deadline None is the zero time.\<close>

definition terminal :: "int option \<Rightarrow> attempt \<Rightarrow> bool" where
  "terminal deadline a \<longleftrightarrow> \<not> aReliable a \<and> aWritten a \<and>
     (case deadline of None \<Rightarrow> True
      | Some now \<Rightarrow> (case aDeadline a of None \<Rightarrow> False | Some d \<Rightarrow> \<not> now < d))"

definition retireUnreliable :: "int option \<Rightarrow> u64 \<Rightarrow> outstanding \<Rightarrow> scheduler \<Rightarrow> bool \<times> outstanding \<times> scheduler" where
  "retireUnreliable deadline k out s =
     (let gone = filter (terminal deadline) (oAttempts out);
          out' = out\<lparr>oAttempts := filter (\<lambda>a. \<not> terminal deadline a) (oAttempts out)\<rparr>;
          acc = foldl (\<lambda>acc a. releaseLaneLocked (aLane a) (size64 (chunk_of s (oChunk out))) False acc)
            (sAcc s) gone in
      (gone \<noteq> [], out', (set_live k out' s)\<lparr>sAcc := acc\<rparr>))"

text \<open>One round of \<^verbatim>\<open>ReissueUnacknowledgedBelow\<close>, with whether it reissued.\<close>

definition reissue_below_one :: "u64 \<Rightarrow> u64 \<Rightarrow> scheduler \<Rightarrow> bool \<times> scheduler" where
  "reissue_below_one offset k s =
     (case live s k of None \<Rightarrow> (False, s)
      | Some out \<Rightarrow>
        if chunk_end (chunk_of s (oChunk out)) > offset \<or> oAttempts out = [] then (False, s)
        else if pendingHas s (cOffset (chunk_of s (oChunk out))) then (False, s)
        else case retireUnreliable None k out s of (_, out', s1) \<Rightarrow>
          if list_ex aReliable (oAttempts out') then (False, s1)
          else if oAttempts out' \<noteq> [] then (False, s1)
          else (True, requeueLocked (oChunk out') s1))"

fun ReissueUnacknowledgedBelow :: "u64 list \<Rightarrow> u64 \<Rightarrow> scheduler \<Rightarrow> nat \<times> scheduler" where
  "ReissueUnacknowledgedBelow [] offset s = (0, s)"
| "ReissueUnacknowledgedBelow (k # ks) offset s =
     (case reissue_below_one offset k s of (again, s1) \<Rightarrow>
      case ReissueUnacknowledgedBelow ks offset s1 of (n, s2) \<Rightarrow> (if again then Suc n else n, s2))"

text \<open>\<^verbatim>\<open>ReissueExpired\<close>: the first loop collects candidates, the second re-offers them, oldest first.\<close>

definition expired_one :: "int \<Rightarrow> u64 \<Rightarrow> scheduler \<Rightarrow> bool \<times> scheduler" where
  "expired_one now k s =
     (case live s k of None \<Rightarrow> (False, s)
      | Some out \<Rightarrow>
        if oAttempts out = [] \<or> pendingHas s (cOffset (chunk_of s (oChunk out))) then (False, s)
        else case retireUnreliable (Some now) k out s of (retired, out', s1) \<Rightarrow>
          if oAttempts out' = [] \<and> retired then (True, s1)
          else
            let reliable = list_ex aReliable (oAttempts out');
                expired = list_ex (\<lambda>a. case aDeadline a of None \<Rightarrow> False | Some d \<Rightarrow> \<not> now < d) (oAttempts out') in
            if \<not> expired then (False, s1)
            else if reliable then (length (oAttempts out') \<le> 1, s1)
            else (oAttempts out' = [], s1))"

fun expired_candidates :: "int \<Rightarrow> u64 list \<Rightarrow> scheduler \<Rightarrow> u64 list \<times> scheduler" where
  "expired_candidates now [] s = ([], s)"
| "expired_candidates now (k # ks) s =
     (case expired_one now k s of (cand, s1) \<Rightarrow>
      case expired_candidates now ks s1 of (cs, s2) \<Rightarrow> (if cand then k # cs else cs, s2))"

definition reoffer_one :: "int \<Rightarrow> u64 \<Rightarrow> scheduler \<Rightarrow> scheduler" where
  "reoffer_one deadline k s =
     (case live s k of None \<Rightarrow> s
      | Some out \<Rightarrow>
        let s1 = (case oAttempts out of [] \<Rightarrow> s
          | a # as \<Rightarrow> set_live k (out\<lparr>oAttempts := a\<lparr>aDeadline := Some deadline\<rparr> # as\<rparr>) s) in
        requeueLocked (oChunk out) s1)"

fun reoffer :: "int \<Rightarrow> int \<Rightarrow> u64 list \<Rightarrow> scheduler \<Rightarrow> nat \<times> scheduler" where
  "reoffer deadline burst [] s = (0, s)"
| "reoffer deadline burst (k # ks) s =
     (let reliable = (case live s k of None \<Rightarrow> False
            | Some out \<Rightarrow> oAttempts out \<noteq> [] \<and> aReliable (hd (oAttempts out)));
          limited = reliable \<and> ReliableReissueBurst (sCfg s) > 0 in
      if limited \<and> burst \<ge> ReliableReissueBurst (sCfg s) then reoffer deadline burst ks s
      else case reoffer deadline (if limited then burst + 1 else burst) ks (reoffer_one deadline k s) of
        (n, s') \<Rightarrow> (Suc n, s'))"

definition ReissueExpired :: "env \<Rightarrow> u64 list \<Rightarrow> scheduler \<Rightarrow> nat \<times> scheduler" where
  "ReissueExpired e ks s =
     (if retransmitAfter e \<le> 0 then (0, s)
      else case expired_candidates (eNow e) ks s of (cands, s1) \<Rightarrow>
        reoffer (eNow e + retransmitAfter e) 0 (sort cands) s1)"

text \<open>\<^verbatim>\<open>Wrote\<close>: the first attempt with this identity on this lane, if it was not written yet.\<close>

fun mark_written :: "u64 \<Rightarrow> u64 \<Rightarrow> attempt list \<Rightarrow> attempt list option" where
  "mark_written lane attemptID [] = None"
| "mark_written lane attemptID (a # as) =
     (if aId a \<noteq> attemptID \<or> aLane a \<noteq> lane \<or> aWritten a then
        map_option ((#) a) (mark_written lane attemptID as)
      else Some (a\<lparr>aWritten := True\<rparr> # as))"

definition Wrote :: "u64 \<Rightarrow> u64 \<Rightarrow> u64 \<Rightarrow> scheduler \<Rightarrow> scheduler" where
  "Wrote lane offset attemptID s =
     (case live s offset of None \<Rightarrow> s
      | Some out \<Rightarrow>
        case mark_written lane attemptID (oAttempts out) of
          None \<Rightarrow> s
        | Some as \<Rightarrow> (set_live offset (out\<lparr>oAttempts := as\<rparr>) s)\<lparr>sAcc :=
            releaseQueuedLocked lane (size64 (chunk_of s (oChunk out))) (sAcc s)\<rparr>)"

section \<open>Reports and close\<close>

definition LaneOutstanding :: "u64 \<Rightarrow> scheduler \<Rightarrow> int \<times> u64 \<times> u64" where
  "LaneOutstanding lane s =
     (laneLoad (sAcc s) lane, laneBytes (sAcc s) lane, laneQueued (sAcc s) lane)"

definition Pending :: "scheduler \<Rightarrow> nat \<times> u64" where
  "Pending s = (length (sPending s), totalBytes (sAcc s))"

definition Err :: "scheduler \<Rightarrow> sched_error option" where "Err s = sSrcErr s"
definition Done :: "scheduler \<Rightarrow> bool" where "Done s = sFinished s"
definition Stats :: "scheduler \<Rightarrow> stats" where "Stats s = sStats s"

fun release_chunks ::
  "nat list \<Rightarrow> scheduler \<Rightarrow> budget option \<Rightarrow> panic + scheduler \<times> budget option" where
  "release_chunks [] s memory = Inr (s, memory)"
| "release_chunks (a # as) s memory =
     and_then (releaseChunkLocked a s memory) (\<lambda>(s', memory'). release_chunks as s' memory')"

text \<open>The chunks \<^verbatim>\<open>Close\<close> has seen; a set of pointers, so each is released once.\<close>

definition seen_chunks :: "scheduler \<Rightarrow> nat list" where
  "seen_chunks s = remdups (sPending s @ map (\<lambda>(k, out). oChunk out) (sLive s))"

definition close_scheduler :: "scheduler \<Rightarrow> budget option \<Rightarrow> panic + scheduler \<times> budget option" where
  "close_scheduler s memory =
     (if sClosed s then Inr (s, memory)
      else and_then (release_chunks (seen_chunks s) (s\<lparr>sClosed := True\<rparr>) memory)
        (\<lambda>(s1, memory'). Inr (s1\<lparr>sPending := [], sLive := []\<rparr>, memory')))"

end
