(* ===== verification/StripeInv.thy ===== *)
theory StripeInv
  imports Stripe
begin

text \<open>
  The invariant of the scheduler and that every operation keeps it: the lane accounts are exactly
  what is in flight, the retained chunks and the completed bytes partition the stream read so far,
  no chunk is stranded, and the shared memory covers the retained chunks.
\<close>

declare map_of_eq_Some_iff [simp del] Some_eq_map_of_iff [simp del]

section \<open>The lane accounts are what is in flight\<close>

text \<open>A flight is an attempt in progress: its lane, whether it was written, and its bytes.\<close>

type_synonym flight = "u64 \<times> bool \<times> nat"

definition fl_bytes :: "(flight \<Rightarrow> bool) \<Rightarrow> flight multiset \<Rightarrow> nat" where
  "fl_bytes P M = (\<Sum>f\<in>#filter_mset P M. snd (snd f))"

definition accounts_ok :: "accounts \<Rightarrow> flight multiset \<Rightarrow> bool" where
  "accounts_ok acc M \<longleftrightarrow>
     (\<forall>l. laneLoad acc l = int (size (filter_mset (\<lambda>f. fst f = l) M)) \<and>
        unat (laneBytes acc l) = fl_bytes (\<lambda>f. fst f = l) M \<and>
        unat (laneQueued acc l) = fl_bytes (\<lambda>f. fst f = l \<and> \<not> fst (snd f)) M) \<and>
     unat (totalBytes acc) = fl_bytes (\<lambda>_. True) M"

lemma fl_bytes_add [simp]:
  "fl_bytes P {#} = 0"
  "fl_bytes P (add_mset f M) = (if P f then snd (snd f) else 0) + fl_bytes P M"
  by (simp_all add: fl_bytes_def)

lemma fl_bytes_le: "(\<And>f. P f \<Longrightarrow> Q f) \<Longrightarrow> fl_bytes P M \<le> fl_bytes Q M"
  by (induction M) auto

lemma accounts_total_ge:
  assumes "accounts_ok acc (add_mset (l, w, n) M)"
  shows "n + fl_bytes (\<lambda>f. fst f = l) M \<le> unat (totalBytes acc)"
    and "n < 2 ^ 64"
proof -
  have "n + fl_bytes (\<lambda>_. True) M = unat (totalBytes acc)"
    using assms by (simp add: accounts_ok_def)
  moreover have "fl_bytes (\<lambda>f. fst f = l) M \<le> fl_bytes (\<lambda>_. True) M"
    by (rule fl_bytes_le) simp
  ultimately show "n + fl_bytes (\<lambda>f. fst f = l) M \<le> unat (totalBytes acc)"
    by linarith
  then have "n \<le> unat (totalBytes acc)" by linarith
  from le_less_trans [OF this unat_u64_lt] show "n < 2 ^ 64" by simp
qed

lemma releaseQueued_ok:
  assumes "accounts_ok acc (add_mset (l, False, n) M)"
  shows "accounts_ok (releaseQueuedLocked l (word_of_nat n) acc) (add_mset (l, True, n) M)"
proof -
  have n: "unat (word_of_nat n :: u64) = n"
    using accounts_total_ge(2) [OF assms] by (simp add: unat_of_nat_small)
  have q: "unat (laneQueued acc l) = n + fl_bytes (\<lambda>f. fst f = l \<and> \<not> fst (snd f)) M"
    using assms by (simp add: accounts_ok_def)
  then have "word_of_nat n \<le> laneQueued acc l" by (simp add: word_le_nat_alt n)
  then show ?thesis
    using assms q n
    by (auto simp: accounts_ok_def releaseQueuedLocked_def unat_sub_no_wrap)
qed

lemma releaseQueued_fields [simp]:
  "laneLoad (releaseQueuedLocked l n acc) = laneLoad acc"
  "laneBytes (releaseQueuedLocked l n acc) = laneBytes acc"
  "totalBytes (releaseQueuedLocked l n acc) = totalBytes acc"
  by (simp_all add: releaseQueuedLocked_def)

lemma releaseLane_written_ok:
  assumes "accounts_ok acc (add_mset (l, True, n) M)"
  shows "accounts_ok (releaseLaneLocked l (word_of_nat n) False acc) M"
proof -
  let ?n = "word_of_nat n :: u64"
  have n: "unat ?n = n"
    using accounts_total_ge(2) [OF assms] by (simp add: unat_of_nat_small)
  have le: "?n \<le> laneBytes acc l" "?n \<le> totalBytes acc" "0 < laneLoad acc l"
    using assms by (simp_all add: accounts_ok_def word_le_nat_alt n)
  then have "releaseLaneLocked l ?n False acc =
      acc\<lparr>laneLoad := (laneLoad acc)(l := laneLoad acc l - 1),
        laneBytes := (laneBytes acc)(l := laneBytes acc l - ?n), totalBytes := totalBytes acc - ?n\<rparr>"
    by (simp add: releaseLaneLocked_def Let_def)
  then show ?thesis
    using assms le n by (auto simp: accounts_ok_def unat_sub_no_wrap)
qed

lemma releaseLane_ok:
  assumes "accounts_ok acc (add_mset (l, w, n) M)"
  shows "accounts_ok (releaseLaneLocked l (word_of_nat n) (\<not> w) acc) M"
proof (cases w)
  case True
  then show ?thesis using releaseLane_written_ok assms by simp
next
  case False
  have "releaseLaneLocked l (word_of_nat n) True acc
      = releaseLaneLocked l (word_of_nat n) False (releaseQueuedLocked l (word_of_nat n) acc)"
    by (simp add: releaseLaneLocked_def releaseQueuedLocked_def Let_def)
  then show ?thesis
    using releaseLane_written_ok [OF releaseQueued_ok, of acc l n M] assms False by simp
qed

lemma chargeLane_ok:
  assumes ok: "accounts_ok acc M" and room: "unat (totalBytes acc) + n < 2 ^ 64"
  shows "accounts_ok (chargeLane l (word_of_nat n) acc) (add_mset (l, False, n) M)"
proof -
  let ?n = "word_of_nat n :: u64"
  have n: "unat ?n = n"
    using room by (simp add: unat_of_nat_small)
  have le: "fl_bytes P M \<le> unat (totalBytes acc)" for P
    using ok fl_bytes_le [of P "\<lambda>_. True" M] by (simp add: accounts_ok_def)
  have "unat (laneBytes acc l) = fl_bytes (\<lambda>f. fst f = l) M"
      "unat (laneQueued acc l) = fl_bytes (\<lambda>f. fst f = l \<and> \<not> fst (snd f)) M"
    using ok by (simp_all add: accounts_ok_def)
  then have "unat (laneBytes acc l) \<le> unat (totalBytes acc)" "unat (laneQueued acc l) \<le> unat (totalBytes acc)"
    by (simp_all only: le)
  then have small: "unat (laneBytes acc l) + n < 2 ^ 64" "unat (laneQueued acc l) + n < 2 ^ 64"
    using room by linarith+
  then have sums: "unat (laneBytes acc l + ?n) = unat (laneBytes acc l) + n"
      "unat (laneQueued acc l + ?n) = unat (laneQueued acc l) + n"
      "unat (totalBytes acc + ?n) = unat (totalBytes acc) + n"
    using room by (simp_all add: unat_add_nat_no_wrap)
  show ?thesis
    unfolding accounts_ok_def
  proof (intro conjI allI)
    fix l'
    note at = ok [unfolded accounts_ok_def, THEN conjunct1, rule_format, of l']
    show "laneLoad (chargeLane l ?n acc) l' = int (size {#f \<in># add_mset (l, False, n) M. fst f = l'#})"
      using at by (auto simp: chargeLane_def)
    show "unat (laneBytes (chargeLane l ?n acc) l') = fl_bytes (\<lambda>f. fst f = l') (add_mset (l, False, n) M)"
      using at sums(1) by (cases "l' = l") (simp_all add: chargeLane_def)
    show "unat (laneQueued (chargeLane l ?n acc) l')
        = fl_bytes (\<lambda>f. fst f = l' \<and> \<not> fst (snd f)) (add_mset (l, False, n) M)"
      using at sums(2) by (cases "l' = l") (simp_all add: chargeLane_def)
    show "unat (totalBytes (chargeLane l ?n acc)) = fl_bytes (\<lambda>_. True) (add_mset (l, False, n) M)"
      using ok sums(3) by (simp add: chargeLane_def accounts_ok_def)
  qed
qed

definition att_flights :: "nat \<Rightarrow> attempt list \<Rightarrow> flight multiset" where
  "att_flights n as = image_mset (\<lambda>a. (aLane a, aWritten a, n)) (mset as)"

lemma att_flights_simps [simp]:
  "att_flights n [] = {#}"
  "att_flights n (a # as) = add_mset (aLane a, aWritten a, n) (att_flights n as)"
  "att_flights n (as @ bs) = att_flights n as + att_flights n bs"
  by (simp_all add: att_flights_def)

lemma att_flights_filter:
  "att_flights n as = att_flights n (filter P as) + att_flights n (filter (\<lambda>a. \<not> P a) as)"
  by (induction as) auto

lemma release_attempts_ok:
  "accounts_ok acc (att_flights n as + M) \<Longrightarrow> accounts_ok (release_attempts (word_of_nat n) as acc) M"
  by (induction as arbitrary: acc) (auto intro: releaseLane_ok)

lemma release_written:
  "\<forall>a\<in>set as. aWritten a \<Longrightarrow>
     foldl (\<lambda>acc a. releaseLaneLocked (aLane a) sz False acc) acc as = release_attempts sz as acc"
  by (induction as arbitrary: acc) auto

text \<open>A lane with no flight has nothing on account.\<close>

lemma accounts_idle_lane:
  assumes "accounts_ok acc M" and "\<forall>f\<in>#M. fst f \<noteq> l"
  shows "laneLoad acc l = 0" "laneBytes acc l = 0" "laneQueued acc l = 0"
proof -
  have none: "filter_mset (\<lambda>f. fst f = l) M = {#}" "filter_mset (\<lambda>f. fst f = l \<and> \<not> fst (snd f)) M = {#}"
    using assms(2) by (auto simp: filter_mset_eq_mempty_iff)
  then show "laneLoad acc l = 0" using assms(1) by (simp add: accounts_ok_def)
  have "unat (laneBytes acc l) = 0" "unat (laneQueued acc l) = 0"
    using assms(1) none by (auto simp: accounts_ok_def fl_bytes_def)
  then show "laneBytes acc l = 0" "laneQueued acc l = 0" by (simp_all add: unat_eq_0)
qed

section \<open>The invariant\<close>

abbreviation coff :: "scheduler \<Rightarrow> nat \<Rightarrow> u64" where
  "coff s a \<equiv> cOffset (sHeap s a)"

abbreviation clen :: "scheduler \<Rightarrow> nat \<Rightarrow> nat" where
  "clen s a \<equiv> length (cData (sHeap s a))"

text \<open>The chunks the scheduler holds, and the bytes of one.\<close>

definition retained :: "scheduler \<Rightarrow> nat set" where
  "retained s = set (sPending s) \<union> {a. \<exists>k out. live s k = Some out \<and> a = oChunk out}"

definition crange :: "scheduler \<Rightarrow> nat \<Rightarrow> nat set" where
  "crange s a = {unat (coff s a)..<unat (coff s a) + clen s a}"

definition flights_in :: "scheduler \<Rightarrow> (u64 \<times> outstanding) list \<Rightarrow> flight multiset" where
  "flights_in s L = sum_list (map (\<lambda>(k, out). att_flights (clen s (oChunk out)) (oAttempts out)) L)"

definition live_size :: "scheduler \<Rightarrow> (u64 \<times> outstanding) list \<Rightarrow> nat" where
  "live_size s L = sum_list (map (\<lambda>(k, out). clen s (oChunk out)) L)"

definition struct_ok :: "scheduler \<Rightarrow> bool" where
  "struct_ok s \<longleftrightarrow> distinct (map fst (sLive s)) \<and> (\<forall>a\<in>retained s. a < sNew s) \<and>
     (\<forall>k out. live s k = Some out \<longrightarrow> coff s (oChunk out) = k) \<and> inj_on (coff s) (retained s) \<and>
     sorted_wrt (<) (map (coff s) (sPending s))"

definition counts_ok :: "scheduler \<Rightarrow> bool" where
  "counts_ok s \<longleftrightarrow> accounts_ok (sAcc s) (flights_in s (sLive s)) \<and>
     unat (sLiveBytes s) = live_size s (sLive s)"

text \<open>What is retained is the stream's own bytes, and with the completed ones they are all of it.\<close>

definition stream_ok :: "(nat \<Rightarrow> byte) \<Rightarrow> scheduler \<Rightarrow> nat set \<Rightarrow> bool" where
  "stream_ok S s acked \<longleftrightarrow>
     (\<forall>a\<in>retained s. cData (chunk_of s a) = map S [unat (coff s a)..<unat (coff s a) + clen s a] \<and>
        (clen s a = 0 \<longrightarrow> sEof s \<and> coff s a = sNextOffset s)) \<and>
     (\<forall>a\<in>retained s. \<forall>b\<in>retained s. a \<noteq> b \<longrightarrow> crange s a \<inter> crange s b = {}) \<and>
     acked \<inter> (\<Union>a\<in>retained s. crange s a) = {} \<and>
     acked \<union> (\<Union>a\<in>retained s. crange s a) = {0..<unat (sNextOffset s)}"

text \<open>Waiting recovery work is marked urgent and lies before everything not yet handed out.\<close>

definition order_ok :: "scheduler \<Rightarrow> bool" where
  "order_ok s \<longleftrightarrow> (\<forall>a\<in>set (sPending s).
     (cUrgent (chunk_of s a) \<longleftrightarrow> live s (coff s a) \<noteq> None) \<and>
     (live s (coff s a) = None \<longrightarrow> (\<forall>k. live s k \<noteq> None \<longrightarrow> k < coff s a)))"

text \<open>Every chunk in flight has an attempt, waits to be handed out again, or is in \<open>X\<close>.\<close>

definition busy_ok :: "u64 set \<Rightarrow> scheduler \<Rightarrow> bool" where
  "busy_ok X s \<longleftrightarrow> (\<forall>k out. live s k = Some out \<longrightarrow> oAttempts out = [] \<longrightarrow>
     oChunk out \<in> set (sPending s) \<or> k \<in> X)"

definition sched_ok :: "u64 set \<Rightarrow> (nat \<Rightarrow> byte) \<Rightarrow> scheduler \<Rightarrow> nat set \<Rightarrow> bool" where
  "sched_ok X S s acked \<longleftrightarrow>
     struct_ok s \<and> counts_ok s \<and> stream_ok S s acked \<and> order_ok s \<and> busy_ok X s"

lemmas sched_defs = struct_ok_def counts_ok_def stream_ok_def order_ok_def busy_ok_def retained_def
  flights_in_def live_size_def crange_def

text \<open>Fields the invariant does not read.\<close>

lemma sched_ok_frame [simp]:
  "sched_ok X S (s\<lparr>sStats := st\<rparr>) acked = sched_ok X S s acked"
  "sched_ok X S (s\<lparr>sFinished := fin\<rparr>) acked = sched_ok X S s acked"
  "sched_ok X S (s\<lparr>sSrcErr := err\<rparr>) acked = sched_ok X S s acked"
  "sched_ok X S (s\<lparr>sNextAttempt := n\<rparr>) acked = sched_ok X S s acked"
  by (simp_all add: sched_ok_def sched_defs)

lemma retained_frame [simp]:
  "retained (s\<lparr>sStats := st\<rparr>) = retained s"
  "retained (s\<lparr>sFinished := fin\<rparr>) = retained s"
  "retained (s\<lparr>sSrcErr := err\<rparr>) = retained s"
  "retained (s\<lparr>sEof := eof\<rparr>) = retained s"
  "retained (s\<lparr>sAcc := acc\<rparr>) = retained s"
  "retained (s\<lparr>sHeap := h\<rparr>) = retained s"
  by (simp_all add: retained_def)

lemma sched_ok_mono: "sched_ok X S s acked \<Longrightarrow> X \<subseteq> Y \<Longrightarrow> sched_ok Y S s acked"
  by (auto simp: sched_ok_def busy_ok_def)

lemma sched_ok_busy:
  "sched_ok X S s acked \<Longrightarrow> live s k = Some out \<Longrightarrow> oAttempts out \<noteq> [] \<Longrightarrow> sched_ok (X - {k}) S s acked"
  by (auto simp: sched_ok_def busy_ok_def)

lemma live_retained: "live s k = Some out \<Longrightarrow> oChunk out \<in> retained s"
  by (auto simp: retained_def)

lemma pending_retained: "a \<in> set (sPending s) \<Longrightarrow> a \<in> retained s"
  by (simp add: retained_def)

lemma finite_retained [simp]: "finite (retained s)"
proof -
  have "{a. \<exists>k out. live s k = Some out \<and> a = oChunk out} \<subseteq> oChunk ` ran (live s)"
    by (auto simp: ran_def)
  moreover have "finite (oChunk ` ran (live s))"
    by (intro finite_imageI finite_ran finite_dom_map_of)
  ultimately have "finite {a. \<exists>k out. live s k = Some out \<and> a = oChunk out}"
    by (rule finite_subset)
  then show ?thesis by (simp add: retained_def)
qed

lemma struct_inj:
  "struct_ok s \<Longrightarrow> a \<in> retained s \<Longrightarrow> b \<in> retained s \<Longrightarrow> coff s a = coff s b \<Longrightarrow> a = b"
  unfolding struct_ok_def by (meson inj_onD)

lemma struct_live_chunk:
  assumes "struct_ok s" and "a \<in> retained s" and "live s (coff s a) = Some out"
  shows "oChunk out = a"
  using assms struct_inj [OF assms(1) live_retained [OF assms(3)] assms(2)]
  by (simp add: struct_ok_def)

text \<open>Marking a chunk moves nothing.\<close>

lemma set_urgent_fields [simp]:
  "cOffset (sHeap (set_urgent u a s) b) = coff s b"
  "cData (sHeap (set_urgent u a s) b) = cData (chunk_of s b)"
  "cReservation (sHeap (set_urgent u a s) b) = cReservation (chunk_of s b)"
  "cFinal (sHeap (set_urgent u a s) b) = cFinal (chunk_of s b)"
  "cUrgent (sHeap (set_urgent u a s) b) = (if b = a then u else cUrgent (chunk_of s b))"
  "sPending (set_urgent u a s) = sPending s" "sLive (set_urgent u a s) = sLive s"
  "sNew (set_urgent u a s) = sNew s" "sNextOffset (set_urgent u a s) = sNextOffset s"
  "sEof (set_urgent u a s) = sEof s" "sAcc (set_urgent u a s) = sAcc s"
  "sLiveBytes (set_urgent u a s) = sLiveBytes s" "sCfg (set_urgent u a s) = sCfg s"
  "sClosed (set_urgent u a s) = sClosed s" "sFinished (set_urgent u a s) = sFinished s"
  "sSrcErr (set_urgent u a s) = sSrcErr s"
  by (simp_all add: set_urgent_def)

section \<open>The ready set\<close>

lemma pending_sorted: "struct_ok s \<Longrightarrow> sorted (map (coff s) (sPending s)) \<and> distinct (sPending s)"
  by (metis distinct_map strict_sorted_iff struct_ok_def)

lemma pendingHas_iff:
  assumes "struct_ok s"
  shows "pendingHas s k \<longleftrightarrow> k \<in> coff s ` set (sPending s)"
  using search_key_mem [OF conjunct1 [OF pending_sorted [OF assms]], of k]
  by (simp add: pendingHas_def pending_search_def Let_def)

lemma pending_key_mem:
  assumes "struct_ok s" and "a \<in> retained s"
  shows "coff s a \<in> coff s ` set (sPending s) \<longleftrightarrow> a \<in> set (sPending s)"
  using struct_inj [OF assms(1) pending_retained assms(2)] by auto

lemma requeue_eq:
  assumes "struct_ok s" and "a \<in> retained s"
  shows "requeueLocked a s = (if a \<in> set (sPending s) then s
    else (set_urgent True a s)\<lparr>sPending := insort_key (coff s) a (sPending s)\<rparr>)"
proof -
  note srt = conjunct1 [OF pending_sorted [OF assms(1)]]
  show ?thesis
    using search_key_mem [OF srt, of "coff s a"] pending_key_mem [OF assms]
      search_key_insert [OF srt, of a]
    by (simp add: requeueLocked_def pending_search_def Let_def)
qed

lemma sorted_wrt_insort:
  assumes "sorted_wrt (<) (map f xs)" and "f a \<notin> f ` set xs"
  shows "sorted_wrt (<) (map f (insort_key f a xs))"
proof -
  have "sorted (map f xs)" "distinct (map f xs)"
    using assms(1) by (simp_all add: strict_sorted_iff)
  then have "sorted (map f (insort_key f a xs))" "distinct (map f (insort_key f a xs))"
    using assms(2) by (auto simp: sorted_insort_key distinct_map distinct_insort set_insort_key)
  then show ?thesis by (simp add: strict_sorted_iff)
qed

lemma requeue_ok:
  assumes ok: "sched_ok X S s acked" and out: "live s k = Some out"
  shows "sched_ok (X - {k}) S (requeueLocked (oChunk out) s) acked"
proof (cases "oChunk out \<in> set (sPending s)")
  case True
  have "struct_ok s" using ok by (simp add: sched_ok_def)
  then have "requeueLocked (oChunk out) s = s"
    using requeue_eq [OF _ live_retained [OF out]] True by simp
  moreover have "busy_ok (X - {k}) s"
    using ok out True by (auto simp: sched_ok_def busy_ok_def)
  ultimately show ?thesis using ok by (simp add: sched_ok_def)
next
  case False
  let ?a = "oChunk out"
  let ?s' = "(set_urgent True ?a s)\<lparr>sPending := insort_key (coff s) ?a (sPending s)\<rparr>"
  have st: "struct_ok s" using ok by (simp add: sched_ok_def)
  have a: "?a \<in> retained s" by (rule live_retained [OF out])
  have key: "coff s ?a = k" using st out by (auto simp: struct_ok_def)
  have eq: "requeueLocked ?a s = ?s'" using requeue_eq [OF st a] False by simp
  have ret: "retained ?s' = retained s"
    using out by (auto simp: retained_def set_insort_key)
  have "coff s ?a \<notin> coff s ` set (sPending s)"
    using pending_key_mem [OF st a] False by simp
  then have "struct_ok ?s'"
    using st sorted_wrt_insort [of "coff s" "sPending s" ?a] by (simp add: struct_ok_def ret inj_on_def)
  moreover have "counts_ok ?s'"
    using ok by (simp add: sched_ok_def counts_ok_def flights_in_def live_size_def)
  moreover have "stream_ok S ?s' acked"
    using ok by (simp add: sched_ok_def stream_ok_def ret crange_def)
  moreover have "order_ok ?s'"
    using ok out key by (auto simp: sched_ok_def order_ok_def set_insort_key)
  moreover have "busy_ok (X - {k}) ?s'"
    using ok out by (auto simp: sched_ok_def busy_ok_def set_insort_key)
  ultimately show ?thesis by (simp add: eq sched_ok_def)
qed

section \<open>Changing the attempts of a chunk\<close>

lemma flights_in_member:
  "f \<in># flights_in s L \<Longrightarrow> \<exists>(k, out) \<in> set L. f \<in># att_flights (clen s (oChunk out)) (oAttempts out)"
  by (induction L) (auto simp: flights_in_def)

abbreviation other_flights :: "u64 \<Rightarrow> scheduler \<Rightarrow> flight multiset" where
  "other_flights k s \<equiv> flights_in s (AList.delete k (sLive s))"

lemma flights_split:
  assumes "struct_ok s" and "live s k = Some out"
  shows "flights_in s (sLive s) = att_flights (clen s (oChunk out)) (oAttempts out) + other_flights k s"
proof -
  have dst: "distinct (map fst (sLive s))" using assms(1) by (simp add: struct_ok_def)
  show ?thesis unfolding flights_in_def sum_list_alist_split [OF dst assms(2)] by simp
qed

lemma live_size_split:
  assumes "struct_ok s" and "live s k = Some out"
  shows "live_size s (sLive s) = clen s (oChunk out) + live_size s (AList.delete k (sLive s))"
proof -
  have dst: "distinct (map fst (sLive s))" using assms(1) by (simp add: struct_ok_def)
  show ?thesis unfolding live_size_def sum_list_alist_split [OF dst assms(2)] by simp
qed

lemma set_live_fields [simp]:
  "sHeap (set_live k out s) = sHeap s" "sPending (set_live k out s) = sPending s"
  "live (set_live k out s) = (live s)(k \<mapsto> out)" "sNew (set_live k out s) = sNew s"
  "sNextOffset (set_live k out s) = sNextOffset s" "sEof (set_live k out s) = sEof s"
  "sAcc (set_live k out s) = sAcc s" "sLiveBytes (set_live k out s) = sLiveBytes s"
  "sCfg (set_live k out s) = sCfg s" "sClosed (set_live k out s) = sClosed s"
  "sFinished (set_live k out s) = sFinished s" "sSrcErr (set_live k out s) = sSrcErr s"
  by (simp_all add: set_live_def update_conv')

lemma retained_set_live:
  "live s k = Some out \<Longrightarrow> oChunk out' = oChunk out \<Longrightarrow> retained (set_live k out' s) = retained s"
  by (auto simp: retained_def) (metis option.inject)+

lemma set_attempts_ok:
  assumes ok: "sched_ok X S s acked" and out: "live s k = Some out"
    and acc: "accounts_ok acc (att_flights (clen s (oChunk out)) as + other_flights k s)"
  shows "sched_ok (if as = [] then insert k X else X) S
    ((set_live k (out\<lparr>oAttempts := as\<rparr>) s)\<lparr>sAcc := acc\<rparr>) acked"
proof -
  let ?out = "out\<lparr>oAttempts := as\<rparr>"
  let ?s' = "(set_live k ?out s)\<lparr>sAcc := acc\<rparr>"
  have st: "struct_ok s" and ct: "counts_ok s" using ok by (simp_all add: sched_ok_def)
  have dst: "distinct (map fst (sLive s))" using st by (simp add: struct_ok_def)
  have ret: "retained ?s' = retained s" "retained (set_live k ?out s) = retained s"
    using retained_set_live [OF out, of ?out] by simp_all
  have "distinct (map fst (sLive ?s'))" using distinct_update [OF dst] by (simp add: set_live_def)
  then have "struct_ok ?s'"
    using st out unfolding struct_ok_def ret by simp
  moreover have "flights_in ?s' (sLive ?s') = att_flights (clen s (oChunk out)) as + other_flights k s"
    by (simp add: flights_in_def set_live_def sum_list_alist_update [OF dst])
  moreover have "live_size ?s' (sLive ?s') = live_size s (sLive s)"
    using live_size_split [OF st out]
    by (simp add: live_size_def set_live_def sum_list_alist_update [OF dst])
  moreover have "stream_ok S ?s' acked"
    using ok by (simp add: sched_ok_def stream_ok_def ret crange_def)
  moreover have "order_ok ?s'"
    using ok out by (auto simp: sched_ok_def order_ok_def)
  moreover have "busy_ok (if as = [] then insert k X else X) ?s'"
    using ok by (auto simp: sched_ok_def busy_ok_def)
  ultimately show ?thesis
    using acc ct by (simp add: sched_ok_def counts_ok_def)
qed

lemma requeue_if_idle_ok:
  assumes "sched_ok (if oAttempts out = [] then insert k X else X) S s acked" and "live s k = Some out"
    and "k \<notin> X"
  shows "sched_ok X S (requeue_if_idle out s) acked"
  using assms requeue_ok [OF assms(1,2)] by (auto simp: requeue_if_idle_def insert_absorb)

lemma count_failure_frame [simp]:
  "sched_ok X S (count_failure s) acked = sched_ok X S s acked"
  "live (count_failure s) = live s" "sHeap (count_failure s) = sHeap s"
  "sPending (count_failure s) = sPending s" "sAcc (count_failure s) = sAcc s"
  "sLive (count_failure s) = sLive s" "sClosed (count_failure s) = sClosed s"
  "sCfg (count_failure s) = sCfg s" "sEof (count_failure s) = sEof s"
  "sFinished (count_failure s) = sFinished s" "sSrcErr (count_failure s) = sSrcErr s"
  "retained (count_failure s) = retained s"
  by (simp_all add: count_failure_def)

lemma set_live_count [simp]: "set_live k out (count_failure s) = count_failure (set_live k out s)"
  by (simp add: set_live_def count_failure_def)

lemma drop_attempt_flights:
  "drop_attempt lane ident as = Some (a, kept) \<Longrightarrow>
     att_flights n as = add_mset (aLane a, aWritten a, n) (att_flights n kept)"
  by (induction as arbitrary: a kept) (auto split: if_splits option.splits)

lemma Fail_ok:
  assumes ok: "sched_ok {} S s acked"
  shows "sched_ok {} S (Fail lane k ident s) acked"
proof (cases "live s k")
  case None
  then show ?thesis using ok by (simp add: Fail_def)
next
  case out: (Some out)
  show ?thesis
  proof (cases "drop_attempt lane ident (oAttempts out)")
    case None
    then show ?thesis using ok out by (simp add: Fail_def)
  next
    case (Some p)
    obtain a kept where p: "p = (a, kept)" by (cases p)
    let ?n = "clen s (oChunk out)"
    have st: "struct_ok s" and ct: "counts_ok s" using ok by (simp_all add: sched_ok_def)
    let ?acc = "releaseLaneLocked (aLane a) (size64 (chunk_of s (oChunk out))) (\<not> aWritten a) (sAcc s)"
    have "accounts_ok (sAcc s) (add_mset (aLane a, aWritten a, ?n) (att_flights ?n kept + other_flights k s))"
      using ct flights_split [OF st out] drop_attempt_flights [of lane ident "oAttempts out" a kept ?n] Some p
      by (simp add: counts_ok_def)
    from releaseLane_ok [OF this] have "accounts_ok ?acc (att_flights ?n kept + other_flights k s)"
      by (simp add: size64_def)
    from set_attempts_ok [OF ok out this] requeue_if_idle_ok
    show ?thesis
      using out Some p by (simp add: Fail_def Let_def count_failure_def)
  qed
qed

lemma requeue_live [simp]: "sLive (requeueLocked a s) = sLive s"
  by (simp add: requeueLocked_def Let_def)

lemma requeue_if_idle_live [simp]: "sLive (requeue_if_idle out s) = sLive s"
  by (simp add: requeue_if_idle_def)

lemma retire_one_ok:
  assumes ok: "sched_ok {} S s acked"
  shows "sched_ok {} S (retire_one lane k s) acked \<and>
    map fst (sLive (retire_one lane k s)) = map fst (sLive s) \<and>
    (\<forall>k' out. live (retire_one lane k s) k' = Some out \<longrightarrow>
       (if k' = k then \<not> laneHasAttempt out lane else live s k' = Some out))"
proof (cases "live s k")
  case None
  then show ?thesis using ok by (auto simp: retire_one_def)
next
  case out: (Some out)
  let ?as = "filter (\<lambda>a. aLane a \<noteq> lane) (oAttempts out)"
  let ?gone = "filter (\<lambda>a. aLane a = lane) (oAttempts out)"
  let ?out = "out\<lparr>oAttempts := ?as\<rparr>" and ?n = "clen s (oChunk out)"
  let ?acc = "release_attempts (size64 (chunk_of s (oChunk out))) ?gone (sAcc s)"
  let ?s2 = "(set_live k ?out (count_failure s))\<lparr>sAcc := ?acc\<rparr>"
  show ?thesis
  proof (cases "laneHasAttempt out lane")
    case False
    then show ?thesis using ok out by (auto simp: retire_one_def)
  next
    case True
    have st: "struct_ok s" and ct: "counts_ok s" using ok by (simp_all add: sched_ok_def)
    have "att_flights ?n (oAttempts out) = att_flights ?n ?gone + att_flights ?n ?as"
      using att_flights_filter [of ?n "oAttempts out" "\<lambda>a. aLane a = lane"] .
    then have "accounts_ok (sAcc s) (att_flights ?n ?gone + (att_flights ?n ?as + other_flights k s))"
      using ct flights_split [OF st out] by (simp add: counts_ok_def add.assoc)
    from release_attempts_ok [OF this] have acc: "accounts_ok ?acc (att_flights ?n ?as + other_flights k s)"
      by (simp add: size64_def)
    have step: "retire_one lane k s = requeue_if_idle ?out ?s2"
      using out True by (simp add: retire_one_def Let_def)
    have s2: "?s2 = count_failure ((set_live k ?out s)\<lparr>sAcc := ?acc\<rparr>)"
      by (simp add: count_failure_def set_live_def)
    have "sched_ok {} S (requeue_if_idle ?out ?s2) acked"
      using set_attempts_ok [OF ok out acc] unfolding s2 by (intro requeue_if_idle_ok [of _ k]) simp_all
    moreover have "map fst (sLive ?s2) = map fst (sLive s)"
      using out by (simp add: set_live_def count_failure_def update_keys map_of_eq_Some_iff [symmetric])
        (force dest: map_of_SomeD)
    moreover have "\<not> laneHasAttempt ?out lane"
      by (auto simp: laneHasAttempt_def list_ex_iff)
    ultimately show ?thesis
      unfolding step by simp
  qed
qed

lemma retire_all_ok:
  "sched_ok {} S s acked \<Longrightarrow> sched_ok {} S (fold (retire_one lane) ks s) acked \<and>
     map fst (sLive (fold (retire_one lane) ks s)) = map fst (sLive s) \<and>
     (\<forall>k' out. live (fold (retire_one lane) ks s) k' = Some out \<longrightarrow> k' \<in> set ks \<or> live s k' = Some out) \<and>
     (\<forall>k' out. live (fold (retire_one lane) ks s) k' = Some out \<longrightarrow> k' \<in> set ks \<longrightarrow> \<not> laneHasAttempt out lane)"
proof (induction ks arbitrary: s)
  case Nil
  then show ?case by simp
next
  case (Cons k ks)
  note one = retire_one_ok [OF Cons.prems, of lane k]
  note rest = Cons.IH [OF conjunct1 [OF one]]
  show ?case
    using one rest by (simp split: if_splits) metis
qed

lemma RetireLane_ok:
  assumes ok: "sched_ok {} S s acked" and ks: "set ks = fst ` set (sLive s)"
  shows "sched_ok {} S (RetireLane ks lane s) acked"
    and "laneLoad (sAcc (fold (retire_one lane) ks s)) lane = 0"
proof -
  let ?s1 = "fold (retire_one lane) ks s"
  note all = retire_all_ok [OF ok, where ks = ks and lane = lane]
  have st: "struct_ok ?s1" and ct: "counts_ok ?s1" using all by (simp_all add: sched_ok_def)
  have gone: "\<not> laneHasAttempt out lane" if "live ?s1 k = Some out" for k out
  proof -
    have "k \<in> set ks"
      using that all ks by (metis image_set map_of_SomeD fst_conv image_eqI)
    then show ?thesis using all that by blast
  qed
  have "\<forall>f\<in>#flights_in ?s1 (sLive ?s1). fst f \<noteq> lane"
  proof
    fix f assume "f \<in># flights_in ?s1 (sLive ?s1)"
    then obtain k out where out: "(k, out) \<in> set (sLive ?s1)" "f \<in># att_flights (clen ?s1 (oChunk out)) (oAttempts out)"
      using flights_in_member by fastforce
    have "live ?s1 k = Some out"
      using st out(1) by (intro map_of_is_SomeI) (simp_all add: struct_ok_def)
    then show "fst f \<noteq> lane"
      using gone out(2) by (auto simp: laneHasAttempt_def list_ex_iff att_flights_def)
  qed
  note idle = accounts_idle_lane [OF _ this]
  have "accounts_ok (sAcc ?s1) (flights_in ?s1 (sLive ?s1))" using ct by (simp add: counts_ok_def)
  note zero = idle [OF this]
  then show "laneLoad (sAcc ?s1) lane = 0" by simp
  have "RetireLane ks lane s = ?s1"
    using zero by (simp add: RetireLane_def Let_def fun_upd_idem)
  then show "sched_ok {} S (RetireLane ks lane s) acked" using all by simp
qed

lemma mark_written_flights:
  "mark_written lane ident as = Some bs \<Longrightarrow> \<exists>M. att_flights n as = add_mset (lane, False, n) M \<and>
     att_flights n bs = add_mset (lane, True, n) M \<and> bs \<noteq> []"
proof (induction as arbitrary: bs)
  case Nil
  then show ?case by simp
next
  case (Cons a as)
  show ?case
  proof (cases "aId a \<noteq> ident \<or> aLane a \<noteq> lane \<or> aWritten a")
    case True
    then obtain cs where cs: "mark_written lane ident as = Some cs" "bs = a # cs"
      using Cons.prems by auto
    from Cons.IH [OF cs(1)] obtain M where "att_flights n as = add_mset (lane, False, n) M"
        "att_flights n cs = add_mset (lane, True, n) M" by blast
    then show ?thesis
      using cs(2) by (intro exI [of _ "add_mset (aLane a, aWritten a, n) M"]) (simp add: add_mset_commute)
  next
    case False
    then show ?thesis using Cons.prems by (intro exI [of _ "att_flights n as"]) auto
  qed
qed

lemma Wrote_ok:
  assumes ok: "sched_ok {} S s acked"
  shows "sched_ok {} S (Wrote lane k ident s) acked"
proof (cases "live s k")
  case None
  then show ?thesis using ok by (simp add: Wrote_def)
next
  case out: (Some out)
  let ?n = "clen s (oChunk out)"
  show ?thesis
  proof (cases "mark_written lane ident (oAttempts out)")
    case None
    then show ?thesis using ok out by (simp add: Wrote_def)
  next
    case (Some bs)
    obtain M where M: "att_flights ?n (oAttempts out) = add_mset (lane, False, ?n) M"
        "att_flights ?n bs = add_mset (lane, True, ?n) M" "bs \<noteq> []"
      using mark_written_flights [OF Some] by blast
    have st: "struct_ok s" and ct: "counts_ok s" using ok by (simp_all add: sched_ok_def)
    have "accounts_ok (sAcc s) (add_mset (lane, False, ?n) (M + other_flights k s))"
      using ct flights_split [OF st out] M(1) by (simp add: counts_ok_def)
    from releaseQueued_ok [OF this]
    have "accounts_ok (releaseQueuedLocked lane (size64 (chunk_of s (oChunk out))) (sAcc s))
        (att_flights ?n bs + other_flights k s)"
      by (simp add: size64_def M(2))
    from set_attempts_ok [OF ok out this] show ?thesis
      using out Some M(3) by (simp add: Wrote_def)
  qed
qed

section \<open>Offering chunks again\<close>

lemma retireUnreliable_ok:
  assumes ok: "sched_ok X S s acked" and out: "live s k = Some out"
    and res: "retireUnreliable deadline k out s = (retired, out', s')"
  shows "sched_ok (if oAttempts out' = [] then insert k X else X) S s' acked"
    and "live s' = (live s)(k \<mapsto> out')" and "oChunk out' = oChunk out"
    and "sPending s' = sPending s" "sHeap s' = sHeap s" "sCfg s' = sCfg s"
    and "retired \<longleftrightarrow> length (oAttempts out') < length (oAttempts out)"
proof -
  let ?gone = "filter (terminal deadline) (oAttempts out)"
  let ?as = "filter (\<lambda>a. \<not> terminal deadline a) (oAttempts out)"
  let ?n = "clen s (oChunk out)" and ?sz = "size64 (chunk_of s (oChunk out))"
  have acc_eq: "foldl (\<lambda>acc a. releaseLaneLocked (aLane a) ?sz False acc) (sAcc s) ?gone
      = release_attempts ?sz ?gone (sAcc s)"
    by (rule release_written) (simp add: terminal_def)
  have out': "out' = out\<lparr>oAttempts := ?as\<rparr>" and retired: "retired \<longleftrightarrow> ?gone \<noteq> []"
    and s': "s' = (set_live k out' s)\<lparr>sAcc := release_attempts ?sz ?gone (sAcc s)\<rparr>"
    using res unfolding retireUnreliable_def Let_def acc_eq by (simp_all only: prod.inject) auto
  have st: "struct_ok s" and ct: "counts_ok s" using ok by (simp_all add: sched_ok_def)
  have "accounts_ok (sAcc s) (att_flights ?n ?gone + (att_flights ?n ?as + other_flights k s))"
    using ct flights_split [OF st out] att_flights_filter [of ?n "oAttempts out" "terminal deadline"]
    by (simp add: counts_ok_def add.assoc)
  from release_attempts_ok [OF this]
  have "accounts_ok (release_attempts ?sz ?gone (sAcc s)) (att_flights ?n ?as + other_flights k s)"
    by (simp add: size64_def)
  from set_attempts_ok [OF ok out this]
  show "sched_ok (if oAttempts out' = [] then insert k X else X) S s' acked"
    by (simp add: s' out')
  show "live s' = (live s)(k \<mapsto> out')" "oChunk out' = oChunk out" "sPending s' = sPending s"
    "sHeap s' = sHeap s" "sCfg s' = sCfg s"
    by (simp_all add: s' out')
  have "0 < length ?gone \<longleftrightarrow> length ?as < length (oAttempts out)"
    using sum_length_filter_compl [of "terminal deadline" "oAttempts out"] by linarith
  moreover have "oAttempts out' = ?as" by (simp add: out')
  ultimately show "retired \<longleftrightarrow> length (oAttempts out') < length (oAttempts out)"
    unfolding retired length_greater_0_conv by simp
qed

lemma sched_ok_drop:
  "sched_ok X S s acked \<Longrightarrow> k \<notin> X \<Longrightarrow> sched_ok (if b then insert k X else X) S s acked"
  by (rule sched_ok_mono) auto

lemma reissue_below_one_ok:
  assumes ok: "sched_ok {} S s acked" and res: "reissue_below_one offset k s = (again, s')"
  shows "sched_ok {} S s' acked"
proof (cases "live s k")
  case None
  then show ?thesis using ok res by (simp add: reissue_below_one_def)
next
  case out: (Some out)
  show ?thesis
  proof (cases "chunk_end (chunk_of s (oChunk out)) > offset \<or> oAttempts out = [] \<or>
      pendingHas s (cOffset (chunk_of s (oChunk out)))")
    case True
    then show ?thesis using ok res out by (auto simp: reissue_below_one_def split: if_splits)
  next
    case False
    obtain retired out' s1 where ret: "retireUnreliable None k out s = (retired, out', s1)"
      by (metis prod_cases3)
    note r = retireUnreliable_ok [OF ok out ret]
    have s': "s' = (if oAttempts out' \<noteq> [] then s1 else requeueLocked (oChunk out') s1)"
      using res out False ret by (auto simp: reissue_below_one_def list_ex_iff split: if_splits)
    show ?thesis
    proof (cases "oAttempts out' = []")
      case True
      have "sched_ok {k} S s1 acked" using r(1) True by simp
      from requeue_ok [OF this, of k out'] show ?thesis
        using r(2) True by (simp add: s')
    next
      case False
      then show ?thesis using r(1) by (simp add: s')
    qed
  qed
qed

lemma ReissueUnacknowledgedBelow_ok:
  "sched_ok {} S s acked \<Longrightarrow> sched_ok {} S (snd (ReissueUnacknowledgedBelow ks offset s)) acked"
proof (induction ks arbitrary: s)
  case Nil
  then show ?case by simp
next
  case (Cons k ks)
  obtain again s1 where one: "reissue_below_one offset k s = (again, s1)" by (metis surj_pair)
  from Cons.IH [OF reissue_below_one_ok [OF Cons.prems one]] one
  show ?case by (auto split: prod.splits)
qed

text \<open>
  \<^verbatim>\<open>ReissueExpired\<close>. Between its two loops the candidates without an attempt wait in \<open>X\<close>.
\<close>

lemma expired_one_ok:
  assumes ok: "sched_ok X S s acked" and res: "expired_one now k s = (cand, s')"
  shows "sched_ok (if cand then insert k X else X) S s' acked"
    and "\<forall>k'. live s' k' = None \<longleftrightarrow> live s k' = None"
    and "cand \<Longrightarrow> live s k \<noteq> None"
proof -
  have "sched_ok (if cand then insert k X else X) S s' acked \<and>
      (\<forall>k'. live s' k' = None \<longleftrightarrow> live s k' = None) \<and> (cand \<longrightarrow> live s k \<noteq> None)"
  proof (cases "live s k")
    case None
    then show ?thesis using ok res by (auto simp: expired_one_def)
  next
    case out: (Some out)
    show ?thesis
    proof (cases "oAttempts out = [] \<or> pendingHas s (cOffset (chunk_of s (oChunk out)))")
      case True
      then show ?thesis using ok res out by (auto simp: expired_one_def)
    next
      case False
      obtain retired out' s1 where ret: "retireUnreliable (Some now) k out s = (retired, out', s1)"
        by (metis prod_cases3)
      note r = retireUnreliable_ok [OF ok out ret]
      have s': "s' = s1" and cand: "oAttempts out' = [] \<Longrightarrow> cand"
        using res out False ret r(7) by (auto simp: expired_one_def Let_def split: if_splits)
      have "sched_ok (if cand then insert k X else X) S s1 acked"
        using r(1) cand sched_ok_mono [of X S s1 acked "insert k X"] by (auto split: if_splits)
      then show ?thesis using out r(2) s' by auto
    qed
  qed
  then show "sched_ok (if cand then insert k X else X) S s' acked"
    and "\<forall>k'. live s' k' = None \<longleftrightarrow> live s k' = None"
    and "cand \<Longrightarrow> live s k \<noteq> None" by blast+
qed

lemma expired_candidates_ok:
  "sched_ok X S s acked \<Longrightarrow> expired_candidates now ks s = (cs, s') \<Longrightarrow>
     sched_ok (X \<union> set cs) S s' acked \<and> (\<forall>k. live s' k = None \<longleftrightarrow> live s k = None) \<and>
     (\<forall>k\<in>set cs. live s k \<noteq> None)"
proof (induction ks arbitrary: X s cs s')
  case Nil
  then show ?case by simp
next
  case (Cons k ks)
  obtain cand s1 where one: "expired_one now k s = (cand, s1)" by (metis surj_pair)
  obtain cs1 where rest: "expired_candidates now ks s1 = (cs1, s')"
    and cs: "cs = (if cand then k # cs1 else cs1)"
    using Cons.prems(2) one by (auto split: prod.splits)
  note o = expired_one_ok [OF Cons.prems(1) one]
  from Cons.IH [OF o(1) rest] o(2,3) show ?case
    by (auto simp: cs split: if_splits)
qed

lemma reoffer_one_ok:
  assumes ok: "sched_ok X S s acked" and out: "live s k = Some out"
  shows "sched_ok (X - {k}) S (reoffer_one d k s) acked"
    and "\<forall>k'. live (reoffer_one d k s) k' = None \<longleftrightarrow> live s k' = None"
proof -
  have st: "struct_ok s" and ct: "counts_ok s" using ok by (simp_all add: sched_ok_def)
  have "sched_ok (X - {k}) S (reoffer_one d k s) acked \<and>
      (\<forall>k'. live (reoffer_one d k s) k' = None \<longleftrightarrow> live s k' = None)"
  proof (cases "oAttempts out")
    case Nil
    then have "reoffer_one d k s = requeueLocked (oChunk out) s"
      using out by (simp add: reoffer_one_def)
    then show ?thesis using requeue_ok [OF ok out] by simp
  next
    case (Cons a as)
    let ?as = "a\<lparr>aDeadline := Some d\<rparr> # as"
    let ?out = "out\<lparr>oAttempts := ?as\<rparr>"
    have same: "(set_live k ?out s)\<lparr>sAcc := sAcc s\<rparr> = set_live k ?out s"
      by (simp add: set_live_def)
    have "accounts_ok (sAcc s) (att_flights (clen s (oChunk out)) ?as + other_flights k s)"
      using ct flights_split [OF st out] Cons by (simp add: counts_ok_def)
    from set_attempts_ok [OF ok out this] have "sched_ok X S (set_live k ?out s) acked"
      unfolding same by simp
    from requeue_ok [OF this, of k ?out] show ?thesis
      using out Cons by (simp add: reoffer_one_def)
  qed
  then show "sched_ok (X - {k}) S (reoffer_one d k s) acked"
    and "\<forall>k'. live (reoffer_one d k s) k' = None \<longleftrightarrow> live s k' = None" by blast+
qed

lemma reoffer_ok:
  "sched_ok X S s acked \<Longrightarrow> X \<subseteq> set ks \<Longrightarrow> \<forall>k\<in>set ks. live s k \<noteq> None \<Longrightarrow>
     sched_ok {} S (snd (reoffer d burst ks s)) acked"
proof (induction ks arbitrary: X burst s)
  case Nil
  then show ?case by simp
next
  case (Cons k ks)
  obtain out where out: "live s k = Some out" using Cons.prems(3) by auto
  let ?limited = "oAttempts out \<noteq> [] \<and> aReliable (hd (oAttempts out)) \<and> ReliableReissueBurst (sCfg s) > 0"
  show ?case
  proof (cases "?limited \<and> burst \<ge> ReliableReissueBurst (sCfg s)")
    case True
    then have "sched_ok (X - {k}) S s acked"
      using sched_ok_busy [OF Cons.prems(1) out] by simp
    from Cons.IH [OF this, of burst] True out Cons.prems(2,3) show ?thesis
      by (auto simp: Let_def)
  next
    case False
    note one = reoffer_one_ok [OF Cons.prems(1) out, of d]
    have "snd (reoffer d burst (k # ks) s) =
        snd (reoffer d (if ?limited then burst + 1 else burst) ks (reoffer_one d k s))"
      using False out by (auto simp: Let_def split: prod.splits)
    with Cons.IH [OF one(1)] one(2) Cons.prems(2,3) show ?thesis by auto
  qed
qed

lemma ReissueExpired_ok:
  assumes "sched_ok {} S s acked"
  shows "sched_ok {} S (snd (ReissueExpired e ks s)) acked"
proof -
  obtain cs s1 where cs: "expired_candidates (eNow e) ks s = (cs, s1)" by (metis surj_pair)
  from expired_candidates_ok [OF assms this] reoffer_ok [of "set cs" S s1 acked "sort cs"]
  show ?thesis using assms cs by (simp add: ReissueExpired_def)
qed

section \<open>Handing out a chunk\<close>

text \<open>The retained chunks are disjoint pieces of what was read, so their sizes add up to less.\<close>

lemma retained_sizes:
  assumes "stream_ok S s acked" and "A \<subseteq> retained s"
  shows "(\<Sum>a\<in>A. clen s a) \<le> unat (sNextOffset s)"
proof -
  have fin: "finite A" using assms(2) finite_retained by (rule finite_subset)
  have "(\<Sum>a\<in>A. clen s a) = (\<Sum>a\<in>A. card (crange s a))" by (simp add: crange_def)
  also have "\<dots> = card (\<Union>a\<in>A. crange s a)"
  proof (rule card_UN_disjoint [symmetric])
    have "\<forall>a\<in>retained s. \<forall>b\<in>retained s. a \<noteq> b \<longrightarrow> crange s a \<inter> crange s b = {}"
      using assms(1) unfolding stream_ok_def by (elim conjE)
    then show "\<forall>a\<in>A. \<forall>b\<in>A. a \<noteq> b \<longrightarrow> crange s a \<inter> crange s b = {}"
      using assms(2) by (meson subsetD)
  qed (use fin in \<open>simp_all add: crange_def\<close>)
  also have "\<dots> \<le> card {0..<unat (sNextOffset s)}"
  proof (rule card_mono)
    have "(\<Union>a\<in>A. crange s a) \<subseteq> (\<Union>a\<in>retained s. crange s a)" using assms(2) by auto
    also have "\<dots> \<subseteq> {0..<unat (sNextOffset s)}"
      using assms(1) unfolding stream_ok_def by (elim conjE) (metis Un_upper2)
    finally show "(\<Union>a\<in>A. crange s a) \<subseteq> {0..<unat (sNextOffset s)}" .
  qed simp
  finally show ?thesis by simp
qed

lemma live_size_sum:
  assumes "struct_ok s"
  shows "live_size s (sLive s) = (\<Sum>a\<in>oChunk ` snd ` set (sLive s). clen s a)"
    and "oChunk ` snd ` set (sLive s) \<subseteq> retained s"
proof -
  have key: "coff s (oChunk (snd p)) = fst p" if "p \<in> set (sLive s)" for p
    using assms that map_of_is_SomeI [of "sLive s" "fst p" "snd p"] by (simp add: struct_ok_def)
  have "distinct (map fst (sLive s))" using assms by (simp add: struct_ok_def)
  moreover have "map fst (sLive s) = map (coff s) (map (\<lambda>p. oChunk (snd p)) (sLive s))"
    using key by simp
  ultimately have "distinct (map (\<lambda>p. oChunk (snd p)) (sLive s))" by (metis distinct_map)
  from sum_list_distinct_conv_sum_set [OF this, of "clen s"]
  show "live_size s (sLive s) = (\<Sum>a\<in>oChunk ` snd ` set (sLive s). clen s a)"
    by (simp add: live_size_def split_def comp_def image_image)
  show "oChunk ` snd ` set (sLive s) \<subseteq> retained s"
  proof clarify
    fix k out assume "(k, out) \<in> set (sLive s)"
    then have "live s k = Some out" using assms by (simp add: struct_ok_def)
    then show "oChunk (snd (k, out)) \<in> retained s" using live_retained by simp
  qed
qed

lemma pick_ready_spec:
  "pick_ready e lane w s i as = Some j \<Longrightarrow> \<exists>m < length as. j = i + m \<and>
     (\<forall>m' < m. live s (coff s (as ! m')) \<noteq> None) \<and>
     (\<forall>out. live s (coff s (as ! m)) = Some out \<longrightarrow> \<not> laneHasReliableAttempt out lane) \<and>
     (hasRoomLocked e (sAcc s) lane w (size64 (chunk_of s (as ! m))) \<or> cUrgent (chunk_of s (as ! m)))"
proof (induction as arbitrary: i)
  case Nil
  then show ?case by simp
next
  case (Cons a as)
  show ?case
  proof (cases "\<exists>out. live s (coff s a) = Some out \<and> laneHasReliableAttempt out lane")
    case True
    then obtain out where out: "live s (coff s a) = Some out" "laneHasReliableAttempt out lane" by blast
    then have "pick_ready e lane w s (Suc i) as = Some j"
      using Cons.prems by (simp split: if_splits)
    from Cons.IH [OF this] obtain m where m: "m < length as" "j = Suc i + m"
        "\<forall>m' < m. live s (coff s (as ! m')) \<noteq> None"
        "\<forall>out. live s (coff s (as ! m)) = Some out \<longrightarrow> \<not> laneHasReliableAttempt out lane"
        "hasRoomLocked e (sAcc s) lane w (size64 (chunk_of s (as ! m))) \<or> cUrgent (chunk_of s (as ! m))"
      by auto
    moreover have "live s (coff s ((a # as) ! m')) \<noteq> None" if "m' < Suc m" for m'
      using that m(3) out(1) by (cases m') auto
    ultimately show ?thesis by (intro exI [of _ "Suc m"]) auto
  next
    case False
    then show ?thesis
      using Cons.prems by (intro exI [of _ 0]) (auto split: if_splits option.splits)
  qed
qed

lemma sorted_wrt_remove_nth:
  assumes "sorted_wrt R (map f xs)" and "i < length xs"
  shows "sorted_wrt R (map f (take i xs @ drop (i + 1) xs))"
    and "\<forall>j < i. R (f (xs ! j)) (f (xs ! i))" and "\<forall>j. i < j \<and> j < length xs \<longrightarrow> R (f (xs ! i)) (f (xs ! j))"
proof -
  have "sorted_wrt R (map f (take i xs @ xs ! i # drop (Suc i) xs))"
    using assms by (simp only: id_take_nth_drop [OF assms(2), symmetric])
  then show "sorted_wrt R (map f (take i xs @ drop (i + 1) xs))"
    by (auto simp: sorted_wrt_append)
  show "\<forall>j < i. R (f (xs ! j)) (f (xs ! i))" "\<forall>j. i < j \<and> j < length xs \<longrightarrow> R (f (xs ! i)) (f (xs ! j))"
    using assms sorted_wrt_nth_less [of R "map f xs"] by simp_all
qed

lemma set_remove_nth:
  "distinct xs \<Longrightarrow> i < length xs \<Longrightarrow> set (take i xs @ drop (i + 1) xs) = set xs - {xs ! i}"
proof -
  assume d: "distinct xs" and i: "i < length xs"
  have xs: "xs = take i xs @ xs ! i # drop (i + 1) xs"
    using id_take_nth_drop [OF i] by simp
  have "distinct (take i xs @ xs ! i # drop (i + 1) xs)" using d xs by metis
  then have "xs ! i \<notin> set (take i xs @ drop (i + 1) xs)" by simp
  moreover have "set xs = insert (xs ! i) (set (take i xs @ drop (i + 1) xs))"
    by (subst xs) simp
  ultimately show ?thesis by blast
qed

lemma dispatch_fields:
  assumes "dispatch e lane i s = (c, s')"
  shows "\<exists>new. aLane new = lane \<and> \<not> aWritten new \<and>
      sLive s' = (let k = coff s (sPending s ! i);
          out = (case live s k of Some out \<Rightarrow> out | None \<Rightarrow> \<lparr>oChunk = sPending s ! i, oAttempts = []\<rparr>) in
        AList.update k (out\<lparr>oAttempts := oAttempts out @ [new]\<rparr>) (sLive s))"
    and "sPending s' = take i (sPending s) @ drop (i + 1) (sPending s)"
    and "sHeap s' = sHeap (set_urgent False (sPending s ! i) s)"
    and "sLiveBytes s' = (if live s (coff s (sPending s ! i)) \<noteq> None then sLiveBytes s
      else sLiveBytes s + size64 (chunk_of s (sPending s ! i)))"
    and "sAcc s' = chargeLane lane (size64 (chunk_of s (sPending s ! i))) (sAcc s)"
    and "sNew s' = sNew s" "sNextOffset s' = sNextOffset s" "sEof s' = sEof s" "sCfg s' = sCfg s"
    and "sClosed s' = sClosed s" "sFinished s' = sFinished s" "sSrcErr s' = sSrcErr s"
    and "cOffset c = coff s (sPending s ! i)" "cData c = cData (chunk_of s (sPending s ! i))"
proof -
  have s': "s' = snd (dispatch e lane i s)" and c: "c = fst (dispatch e lane i s)"
    using assms by simp_all
  show "\<exists>new. aLane new = lane \<and> \<not> aWritten new \<and>
      sLive s' = (let k = coff s (sPending s ! i);
          out = (case live s k of Some out \<Rightarrow> out | None \<Rightarrow> \<lparr>oChunk = sPending s ! i, oAttempts = []\<rparr>) in
        AList.update k (out\<lparr>oAttempts := oAttempts out @ [new]\<rparr>) (sLive s))"
    unfolding s' dispatch_def Let_def
    by (rule exI [of _ "\<lparr>aId = next_attempt_id s, aLane = lane,
      aDeadline = (if retransmitAfter e > 0 then Some (eNow e + retransmitAfter e) else None),
      aReliable = laneRetransmits e lane, aWritten = False\<rparr>"]) (simp add: set_urgent_def)
qed (use assms in \<open>auto simp: dispatch_def Let_def set_urgent_def\<close>)

lemma dispatch_ok:
  assumes ok: "sched_ok {} S s acked" and i: "i < length (sPending s)"
    and before: "\<forall>m < i. live s (coff s (sPending s ! m)) \<noteq> None"
    and room: "unat (totalBytes (sAcc s)) + clen s (sPending s ! i) < 2 ^ 64"
    and res: "dispatch e lane i s = (c, s')"
  shows "sched_ok {} S s' acked" and "retained s' = retained s"
    and "cOffset c = coff s (sPending s ! i)" and "cData c = cData (chunk_of s (sPending s ! i))"
    and "sHeap s' = sHeap (set_urgent False (sPending s ! i) s)"
    and "sAcc s' = chargeLane lane (size64 (chunk_of s (sPending s ! i))) (sAcc s)"
proof -
  let ?a = "sPending s ! i" and ?L = "sLive s"
  let ?k = "coff s ?a" and ?n = "clen s ?a"
  let ?out = "case live s ?k of Some out \<Rightarrow> out | None \<Rightarrow> \<lparr>oChunk = ?a, oAttempts = []\<rparr>"
  have st: "struct_ok s" and ct: "counts_ok s" and sm: "stream_ok S s acked" and od: "order_ok s"
    and bs: "busy_ok {} s" using ok by (simp_all add: sched_ok_def)
  have a: "?a \<in> set (sPending s)" using i by simp
  then have ra: "?a \<in> retained s" by (rule pending_retained)
  have chunk: "oChunk ?out = ?a"
    using struct_live_chunk [OF st ra] by (auto split: option.splits)
  note df = dispatch_fields [OF res]
  obtain new where new: "aLane new = lane" "\<not> aWritten new"
    and live_eq: "sLive s' = AList.update ?k (?out\<lparr>oAttempts := oAttempts ?out @ [new]\<rparr>) ?L"
    using df(1) unfolding Let_def by blast
  let ?out' = "?out\<lparr>oAttempts := oAttempts ?out @ [new]\<rparr>"
  obtain out' where out': "out' = ?out'" by blast
  have s': "sPending s' = take i (sPending s) @ drop (i + 1) (sPending s)" "sLive s' = AList.update ?k out' ?L"
      "sHeap s' = sHeap (set_urgent False ?a s)"
      "sLiveBytes s' = (if live s ?k \<noteq> None then sLiveBytes s else sLiveBytes s + size64 (chunk_of s ?a))"
      "sAcc s' = chargeLane lane (size64 (chunk_of s ?a)) (sAcc s)"
      "sNew s' = sNew s" "sNextOffset s' = sNextOffset s" "sEof s' = sEof s"
    and c: "cOffset c = ?k" "cData c = cData (chunk_of s ?a)"
    using df live_eq out' by simp_all
  show "sAcc s' = chargeLane lane (size64 (chunk_of s ?a)) (sAcc s)" by (rule s'(5))
  show "sHeap s' = sHeap (set_urgent False ?a s)" by (rule s'(3))
  show "cOffset c = ?k" "cData c = cData (chunk_of s ?a)" by (rule c)+
  have live': "live s' = (live s)(?k \<mapsto> out')" by (simp add: s' update_conv')
  have chunk': "oChunk out' = ?a" using chunk by (simp add: out')
  have dst: "distinct (map fst ?L)" using st by (simp add: struct_ok_def)
  have pend: "set (sPending s') = set (sPending s) - {?a}"
    using set_remove_nth [OF conjunct2 [OF pending_sorted [OF st]] i] by (simp add: s')
  have heap: "coff s' b = coff s b" "cData (chunk_of s' b) = cData (chunk_of s b)"
    "b \<noteq> ?a \<Longrightarrow> cUrgent (chunk_of s' b) = cUrgent (chunk_of s b)" for b by (simp_all add: s')
  show ret: "retained s' = retained s"
  proof -
    have "oChunk out = ?a" if "live s ?k = Some out" for out
      using struct_live_chunk [OF st ra that] .
    then have "{b. \<exists>k out. live s' k = Some out \<and> b = oChunk out}
        = insert ?a {b. \<exists>k out. live s k = Some out \<and> b = oChunk out}"
      using chunk' by (auto simp: live') (metis+)
    then show ?thesis
      using a by (auto simp: retained_def pend)
  qed
  have flights: "att_flights ?n (oAttempts ?out) + other_flights ?k s = flights_in s ?L"
    and sizes: "(if live s ?k = None then 0 else ?n) + live_size s (AList.delete ?k ?L) = live_size s ?L"
    using flights_split [OF st, of ?k] live_size_split [OF st, of ?k] chunk
    by (auto simp: delete_absent split: option.splits)
  have "distinct (map fst (sLive s'))" using distinct_update [OF dst] by (simp add: s'(2))
  moreover have "sorted_wrt (<) (map (coff s) (sPending s'))"
    using sorted_wrt_remove_nth(1) [OF _ i, of "(<)" "coff s"] st by (simp add: struct_ok_def s'(1))
  ultimately have "struct_ok s'"
    using st chunk' unfolding struct_ok_def ret by (auto simp: heap live' s'(6))
  moreover have "counts_ok s'"
  proof -
    have "accounts_ok (sAcc s') (add_mset (lane, False, ?n) (flights_in s ?L))"
      using chargeLane_ok [OF _ room] ct by (simp add: counts_ok_def s' size64_def)
    moreover have "flights_in s' (sLive s') = add_mset (lane, False, ?n) (flights_in s ?L)"
    proof -
      have "flights_in s' (sLive s') = att_flights ?n (oAttempts ?out') + other_flights ?k s"
        unfolding flights_in_def s'(2) sum_list_alist_update [OF dst] using chunk' by (simp add: heap out')
      then show ?thesis using new flights by (simp add: add_mset_commute add.commute)
    qed
    moreover have "unat (sLiveBytes s') = live_size s' (sLive s')"
    proof -
      have size: "live_size s' (sLive s') = ?n + live_size s (AList.delete ?k ?L)"
        unfolding live_size_def s'(2) sum_list_alist_update [OF dst] using chunk' by (simp add: heap)
      have lb: "unat (sLiveBytes s) = live_size s ?L" using ct by (simp add: counts_ok_def)
      show ?thesis
      proof (cases "live s ?k")
        case None
        have "?a \<notin> oChunk ` snd ` set ?L"
        proof
          assume "?a \<in> oChunk ` snd ` set ?L"
          then obtain k out where "(k, out) \<in> set ?L" "oChunk out = ?a" by auto
          then have lk: "live s k = Some out" using dst by simp
          then have "coff s (oChunk out) = k" using st by (simp add: struct_ok_def)
          then show False using None lk \<open>oChunk out = ?a\<close> by simp
        qed
        then have "?n + live_size s ?L = (\<Sum>b\<in>insert ?a (oChunk ` snd ` set ?L). clen s b)"
          using live_size_sum(1) [OF st] by simp
        also have "\<dots> \<le> unat (sNextOffset s)"
          using live_size_sum(2) [OF st] ra by (intro retained_sizes [OF sm]) auto
        finally have "unat (sLiveBytes s) + ?n \<le> unat (sNextOffset s)" using lb by simp
        from le_less_trans [OF this unat_u64_lt] show ?thesis
          using None sizes lb by (simp add: s'(4) size size64_def unat_add_nat_no_wrap)
      next
        case (Some out)
        then show ?thesis using sizes lb by (simp add: s'(4) size)
      qed
    qed
    ultimately show ?thesis by (simp add: counts_ok_def)
  qed
  moreover have "stream_ok S s' acked"
    using sm by (simp add: stream_ok_def ret crange_def heap s'(7,8))
  moreover have "order_ok s'"
    unfolding order_ok_def
  proof
    fix b assume b: "b \<in> set (sPending s')"
    then have bp: "b \<in> set (sPending s)" "b \<noteq> ?a" by (simp_all add: pend)
    have kb: "coff s b \<noteq> ?k" using struct_inj [OF st pending_retained [OF bp(1)] ra] bp(2) by blast
    have "?k < coff s b" if none: "live s (coff s b) = None"
    proof -
      obtain m where m: "m < length (sPending s)" "b = sPending s ! m"
        using bp(1) by (auto simp: in_set_conv_nth)
      have "\<not> m < i" using before none m by auto
      then have "i < m" using bp(2) m by (metis linorder_neqE_nat)
      then show ?thesis
        using sorted_wrt_remove_nth(3) [OF _ i, of "(<)" "coff s"] st m by (simp add: struct_ok_def)
    qed
    then show "(cUrgent (chunk_of s' b) \<longleftrightarrow> live s' (coff s' b) \<noteq> None) \<and>
        (live s' (coff s' b) = None \<longrightarrow> (\<forall>k. live s' k \<noteq> None \<longrightarrow> k < coff s' b))"
      using od bp kb by (auto simp: order_ok_def heap live')
  qed
  moreover have "busy_ok {} s'"
    unfolding busy_ok_def
  proof (intro allI impI)
    fix k out assume k: "live s' k = Some out" "oAttempts out = []"
    then have "k \<noteq> ?k" by (auto simp: live' out')
    then have "live s k = Some out" using k(1) by (simp add: live')
    then have "oChunk out \<in> set (sPending s)" "coff s (oChunk out) = k"
      using bs k(2) st by (auto simp: busy_ok_def struct_ok_def)
    then show "oChunk out \<in> set (sPending s') \<or> k \<in> {}"
      using \<open>k \<noteq> ?k\<close> by (auto simp: pend)
  qed
  ultimately show "sched_ok {} S s' acked" by (simp add: sched_ok_def)
qed

section \<open>Reading the source\<close>

lemma sched_ok_heap:
  assumes "\<And>b. cOffset (h b) = coff s b \<and> cData (h b) = cData (chunk_of s b) \<and> cUrgent (h b) = cUrgent (chunk_of s b)"
  shows "sched_ok X S (s\<lparr>sHeap := h\<rparr>) acked = sched_ok X S s acked"
  using assms by (simp add: sched_ok_def sched_defs)

lemma sched_ok_eof: "sched_ok X S s acked \<Longrightarrow> sched_ok X S (s\<lparr>sEof := True\<rparr>) acked"
  by (simp add: sched_ok_def sched_defs)

lemma before_eof:
  assumes "stream_ok S s acked" and "\<not> sEof s" and "a \<in> retained s"
  shows "coff s a < sNextOffset s"
proof -
  have "clen s a \<noteq> 0" using assms by (auto simp: stream_ok_def)
  then have "unat (coff s a) \<in> (\<Union>a\<in>retained s. crange s a)"
    using assms(3) by (intro UN_I [of a]) (auto simp: crange_def)
  then have "unat (coff s a) \<in> {0..<unat (sNextOffset s)}"
    using assms(1) unfolding stream_ok_def by blast
  then show ?thesis by (simp add: word_less_nat_alt)
qed

lemma append_chunk_ok:
  assumes ok: "sched_ok {} S s acked" and neof: "\<not> sEof s"
    and c: "cOffset c = sNextOffset s" "\<not> cUrgent c"
      "cData c = map S [unat (sNextOffset s)..<unat (sNextOffset s) + length (cData c)]"
    and room: "unat (sNextOffset s) + length (cData c) < 2 ^ 64" and eof: "cData c = [] \<Longrightarrow> eof"
    and s': "s' = s\<lparr>sHeap := (sHeap s)(sNew s := c), sNew := Suc (sNew s), sPending := sPending s @ [sNew s],
      sNextOffset := sNextOffset s + word_of_nat (length (cData c)), sEof := eof\<rparr>"
  shows "sched_ok {} S s' acked" and "retained s' = insert (sNew s) (retained s)" and "sNew s \<notin> retained s"
proof -
  let ?a = "sNew s" and ?next = "sNextOffset s"
  have st: "struct_ok s" and ct: "counts_ok s" and sm: "stream_ok S s acked" and od: "order_ok s"
    and bs: "busy_ok {} s" using ok by (simp_all add: sched_ok_def)
  show new: "?a \<notin> retained s" using st by (auto simp: struct_ok_def)
  show ret: "retained s' = insert ?a (retained s)" by (auto simp: retained_def s')
  have heap: "chunk_of s' ?a = c" "b \<in> retained s \<Longrightarrow> chunk_of s' b = chunk_of s b" for b
    using new by (auto simp: s')
  have same: "sLive s' = sLive s" "sAcc s' = sAcc s" "sLiveBytes s' = sLiveBytes s"
      "sPending s' = sPending s @ [?a]" "sNew s' = Suc (sNew s)" by (simp_all add: s')
  have lt: "coff s b < ?next" if "b \<in> retained s" for b
    using before_eof [OF sm neof that] .
  have next': "unat (sNextOffset s') = unat ?next + length (cData c)"
    using room by (simp add: s' unat_add_nat_no_wrap)
  have live_a: "live s ?next = None"
  proof (rule ccontr)
    assume "live s ?next \<noteq> None"
    then obtain out where "live s ?next = Some out" by blast
    then show False using lt [OF live_retained] st by (auto simp: struct_ok_def)
  qed
  have "struct_ok s'"
    unfolding struct_ok_def
  proof (intro conjI)
    show "distinct (map fst (sLive s'))" using st by (simp add: same struct_ok_def)
    show "\<forall>b\<in>retained s'. b < sNew s'" using st by (auto simp: ret struct_ok_def same(5) less_Suc_eq)
    show "\<forall>k out. live s' k = Some out \<longrightarrow> coff s' (oChunk out) = k"
      using st heap(2) [OF live_retained] by (auto simp: same struct_ok_def)
    show "inj_on (coff s') (retained s')"
    proof (rule inj_onI)
      fix b d assume bd: "b \<in> retained s'" "d \<in> retained s'" "coff s' b = coff s' d"
      show "b = d"
      proof (cases "b = ?a \<or> d = ?a")
        case True
        then show ?thesis using bd heap lt c(1) unfolding ret by (metis insertE order_less_irrefl)
      next
        case False
        then show ?thesis using bd heap(2) struct_inj [OF st] unfolding ret by simp
      qed
    qed
    have offs: "map (coff s') (sPending s) = map (coff s) (sPending s)"
      using heap(2) [OF pending_retained] by simp
    have "sorted_wrt (<) (map (coff s) (sPending s))" using st by (simp add: struct_ok_def)
    then show "sorted_wrt (<) (map (coff s') (sPending s'))"
      using lt [OF pending_retained]
      unfolding same map_append sorted_wrt_append offs by (simp add: heap c(1))
  qed
  moreover have "counts_ok s'"
  proof -
    have "clen s' (oChunk out) = clen s (oChunk out)" if "(k, out) \<in> set (sLive s)" for k out
      using heap(2) [OF live_retained [of s k out]] that st by (simp add: struct_ok_def)
    then have "flights_in s' (sLive s) = flights_in s (sLive s)" "live_size s' (sLive s) = live_size s (sLive s)"
      unfolding flights_in_def live_size_def by (auto intro!: arg_cong [of _ _ sum_list] map_cong)
    then show ?thesis using ct by (simp add: counts_ok_def same)
  qed
  moreover have "stream_ok S s' acked"
  proof -
    have cr: "crange s' b = crange s b" if "b \<in> retained s" for b
      using heap(2) [OF that] by (simp add: crange_def)
    have cr_a: "crange s' ?a = {unat ?next..<unat ?next + length (cData c)}"
      by (simp add: crange_def heap c(1))
    have union: "acked \<union> (\<Union>b\<in>retained s. crange s b) = {0..<unat ?next}"
      and inter: "acked \<inter> (\<Union>b\<in>retained s. crange s b) = {}"
      using sm unfolding stream_ok_def by blast+
    have below: "crange s b \<subseteq> {0..<unat ?next}" if "b \<in> retained s" for b
      using union that by blast
    have disj: "crange s' ?a \<inter> crange s b = {}" if "b \<in> retained s" for b
      using below [OF that] cr_a by auto
    show ?thesis
      unfolding stream_ok_def
    proof (intro conjI)
      show "\<forall>b\<in>retained s'. cData (chunk_of s' b) = map S [unat (coff s' b)..<unat (coff s' b) + clen s' b] \<and>
          (clen s' b = 0 \<longrightarrow> sEof s' \<and> coff s' b = sNextOffset s')"
      proof
        fix b assume b: "b \<in> retained s'"
        show "cData (chunk_of s' b) = map S [unat (coff s' b)..<unat (coff s' b) + clen s' b] \<and>
            (clen s' b = 0 \<longrightarrow> sEof s' \<and> coff s' b = sNextOffset s')"
        proof (cases "b = ?a")
          case True
          then show ?thesis using c(1,3) eof heap(1) by (simp add: s')
        next
          case False
          then have "b \<in> retained s" using b ret by simp
          moreover have "clen s b \<noteq> 0" using sm neof calculation by (auto simp: stream_ok_def)
          ultimately show ?thesis using sm heap(2) by (simp add: stream_ok_def)
        qed
      qed
      show "\<forall>b\<in>retained s'. \<forall>d\<in>retained s'. b \<noteq> d \<longrightarrow> crange s' b \<inter> crange s' d = {}"
        using sm cr disj unfolding ret stream_ok_def by (metis Int_commute insert_iff)
      have "acked \<subseteq> {0..<unat ?next}" using union by blast
      then have "acked \<inter> crange s' ?a = {}" using cr_a by auto
      then show "acked \<inter> (\<Union>b\<in>retained s'. crange s' b) = {}" using inter cr by (auto simp: ret)
      have un': "(\<Union>b\<in>retained s'. crange s' b) = crange s' ?a \<union> (\<Union>b\<in>retained s. crange s b)"
        using cr by (simp add: ret)
      have "acked \<union> (\<Union>b\<in>retained s'. crange s' b)
          = (acked \<union> (\<Union>b\<in>retained s. crange s b)) \<union> crange s' ?a"
        unfolding un' by (simp only: Un_ac)
      also have "\<dots> = {0..<unat ?next} \<union> crange s' ?a" by (simp only: union)
      also have "\<dots> = {0..<unat (sNextOffset s')}" unfolding cr_a next' by auto
      finally show "acked \<union> (\<Union>b\<in>retained s'. crange s' b) = {0..<unat (sNextOffset s')}" .
    qed
  qed
  moreover have "order_ok s'"
  proof -
    have "k < ?next" if "live s k \<noteq> None" for k
      using that lt [OF live_retained] st by (auto simp: struct_ok_def)
    then show ?thesis
      using od heap c(1,2) live_a heap(2) [OF pending_retained] by (simp add: order_ok_def same)
  qed
  moreover have "busy_ok {} s'"
    using bs by (auto simp: busy_ok_def same)
  ultimately show "sched_ok {} S s' acked" by (simp add: sched_ok_def)
qed

lemma add_source_ok:
  assumes "sched_ok {} S s acked" and "\<not> sEof s" and "data \<noteq> []"
    and "data = map S [unat (sNextOffset s)..<unat (sNextOffset s) + length data]"
    and "unat (sNextOffset s) + length data < 2 ^ 64"
  shows "sched_ok {} S (add_source data s) acked"
    and "retained (add_source data s) = insert (sNew s) (retained s)" and "sNew s \<notin> retained s"
proof -
  let ?c = "\<lparr>cOffset = sNextOffset s, cData = data, cFinal = False, cUrgent = False, cAttempt = 0,
    cReservation = ChunkSize (sCfg s)\<rparr>"
  let ?s' = "s\<lparr>sHeap := (sHeap s)(sNew s := ?c), sNew := Suc (sNew s), sPending := sPending s @ [sNew s],
    sNextOffset := sNextOffset s + word_of_nat (length (cData ?c)), sEof := False\<rparr>"
  have "add_source data s = ?s'\<lparr>sStats := sStats (add_source data s)\<rparr>"
    using assms(2) by (simp add: add_source_def alloc_def)
  moreover note append_chunk_ok [of S s acked ?c False ?s', OF assms(1,2)] assms(3-5)
  ultimately show "sched_ok {} S (add_source data s) acked"
    and "retained (add_source data s) = insert (sNew s) (retained s)" and "sNew s \<notin> retained s"
    by (metis chunk.select_convs(1,2,4) sched_ok_frame(1) retained_frame(1))+
qed

lemma markEOF_ok:
  assumes "sched_ok {} S s acked" and "\<not> sEof s"
  shows "sched_ok {} S (markEOFLocked s) acked"
proof (cases "sPending s \<noteq> [] \<and> chunk_end (chunk_of s (last (sPending s))) = sNextOffset s")
  case True
  then have "markEOFLocked s = (s\<lparr>sEof := True\<rparr>)\<lparr>sHeap := (sHeap s)(last (sPending s) :=
      (chunk_of s (last (sPending s)))\<lparr>cFinal := True\<rparr>)\<rparr>"
    by (simp add: markEOFLocked_def Let_def)
  moreover have "sched_ok {} S ((s\<lparr>sEof := True\<rparr>)\<lparr>sHeap := (sHeap s)(last (sPending s) :=
      (chunk_of s (last (sPending s)))\<lparr>cFinal := True\<rparr>)\<rparr>) acked"
    using sched_ok_eof [OF assms(1)] by (subst sched_ok_heap) auto
  ultimately show ?thesis by simp
next
  case False
  let ?c = "\<lparr>cOffset = sNextOffset s, cData = [], cFinal = True, cUrgent = False, cAttempt = 0, cReservation = 0\<rparr>"
  have "markEOFLocked s = s\<lparr>sHeap := (sHeap s)(sNew s := ?c), sNew := Suc (sNew s),
      sPending := sPending s @ [sNew s], sNextOffset := sNextOffset s + word_of_nat (length (cData ?c)), sEof := True\<rparr>"
    using False by (auto simp: markEOFLocked_def alloc_def Let_def)
  from append_chunk_ok(1) [OF assms, of ?c True, OF _ _ _ _ _ this] show ?thesis by simp
qed

end
