(* ===== verification/StripeRun.thy ===== *)
theory StripeRun
  imports StripeInv
begin

text \<open>
  Completion, the shared memory and close of the striping scheduler, and the scheduler as a system:
  its producer, its lanes, the acknowledgement path and the timers in any interleaving.
\<close>

section \<open>Completing a chunk\<close>

text \<open>The chunks at an offset (at most one), and their bytes.\<close>

definition chunks_at :: "scheduler \<Rightarrow> u64 \<Rightarrow> nat set" where
  "chunks_at s k = {a \<in> retained s. coff s a = k}"

definition bytes_at :: "scheduler \<Rightarrow> u64 \<Rightarrow> nat set" where
  "bytes_at s k = (\<Union>a\<in>chunks_at s k. crange s a)"

lemma filter_other_eq:
  fixes f :: "'a \<Rightarrow> 'b::linorder"
  assumes "sorted_wrt (<) (map f xs)" and "i < length xs"
  shows "filter (\<lambda>a. f a \<noteq> f (xs ! i)) xs = take i xs @ drop (i + 1) xs"
proof -
  have eq: "xs = take i xs @ xs ! i # drop (Suc i) xs" by (rule id_take_nth_drop [OF assms(2)])
  note ne = sorted_wrt_remove_nth(2,3) [OF assms]
  have "f a \<noteq> f (xs ! i)" if "a \<in> set (take i xs)" for a
    using that ne(1) by (fastforce simp: in_set_conv_nth)
  moreover have "f a \<noteq> f (xs ! i)" if a: "a \<in> set (drop (Suc i) xs)" for a
  proof -
    obtain j where "j < length xs - Suc i" "a = xs ! (Suc i + j)"
      using a by (auto simp: in_set_conv_nth)
    then have "f (xs ! i) < f a" using ne(2) by simp
    then show ?thesis by simp
  qed
  ultimately have "filter (\<lambda>a. f a \<noteq> f (xs ! i)) (take i xs) = take i xs"
      "filter (\<lambda>a. f a \<noteq> f (xs ! i)) (drop (Suc i) xs) = drop (Suc i) xs"
    by (simp_all add: filter_id_conv)
  then show ?thesis
    by (subst eq) simp
qed

lemma removePending_none:
  assumes "sorted_wrt (<) (map (coff s) (sPending s))" and "k \<notin> coff s ` set (sPending s)"
  shows "removePendingLocked k s = (None, s)"
proof -
  have "sorted (map (coff s) (sPending s))" using assms(1) by (simp add: strict_sorted_iff)
  from search_key_mem [OF this, of k] assms(2) show ?thesis
    by (auto simp: removePendingLocked_def pending_search_def Let_def not_less)
qed

lemma removePending_some:
  assumes srt: "sorted_wrt (<) (map (coff s) (sPending s))" and a: "a \<in> set (sPending s)"
  shows "removePendingLocked (coff s a) s
    = (Some a, s\<lparr>sPending := filter (\<lambda>b. coff s b \<noteq> coff s a) (sPending s)\<rparr>)"
proof -
  let ?i = "pending_search s (coff s a)"
  have so: "sorted (map (coff s) (sPending s))" and inj: "inj_on (coff s) (set (sPending s))"
    using srt by (simp_all add: strict_sorted_iff distinct_map)
  have i: "?i < length (sPending s)" "coff s (sPending s ! ?i) = coff s a"
    using search_key_mem [OF so, of "coff s a"] a by (simp_all add: pending_search_def)
  then have "sPending s ! ?i = a" using inj a by (meson inj_onD nth_mem)
  then show ?thesis
    using i filter_other_eq [OF srt i(1)] by (simp add: removePendingLocked_def Let_def)
qed

lemma stream_data:
  "stream_ok S s acked \<Longrightarrow>
     \<forall>a\<in>retained s. cData (chunk_of s a) = map S [unat (coff s a)..<unat (coff s a) + clen s a] \<and>
        (clen s a = 0 \<longrightarrow> sEof s \<and> coff s a = sNextOffset s)"
  unfolding stream_ok_def by (elim conjE)

lemma stream_disjoint:
  "stream_ok S s acked \<Longrightarrow> \<forall>a\<in>retained s. \<forall>b\<in>retained s. a \<noteq> b \<longrightarrow> crange s a \<inter> crange s b = {}"
  unfolding stream_ok_def by (elim conjE)

lemma stream_inter: "stream_ok S s acked \<Longrightarrow> acked \<inter> (\<Union>a\<in>retained s. crange s a) = {}"
  unfolding stream_ok_def by (elim conjE)

lemma stream_union:
  "stream_ok S s acked \<Longrightarrow> acked \<union> (\<Union>a\<in>retained s. crange s a) = {0..<unat (sNextOffset s)}"
  unfolding stream_ok_def by (elim conjE)

text \<open>What taking everything at an offset out of the tables does to the invariant.\<close>

lemma remove_ok:
  assumes ok: "sched_ok {} S s acked"
    and acc: "accounts_ok acc (other_flights k s)"
    and lb: "unat lb = live_size s (AList.delete k (sLive s))"
    and s': "sHeap s' = sHeap s" "sPending s' = filter (\<lambda>a. coff s a \<noteq> k) (sPending s)"
      "sLive s' = AList.delete k (sLive s)" "sAcc s' = acc" "sLiveBytes s' = lb" "sNew s' = sNew s"
      "sNextOffset s' = sNextOffset s" "sEof s' = sEof s"
  shows "sched_ok {} S s' (acked \<union> bytes_at s k)"
    and "retained s' = retained s - chunks_at s k"
proof -
  have st: "struct_ok s" and sm: "stream_ok S s acked" and od: "order_ok s" and bs: "busy_ok {} s"
    using ok by (simp_all add: sched_ok_def)
  have key: "coff s (oChunk out) = k'" if "live s k' = Some out" for k' out
    using st that by (simp add: struct_ok_def)
  have live': "live s' = (live s)(k := None)" by (simp add: s' delete_conv')
  show ret: "retained s' = retained s - chunks_at s k"
  proof -
    have "{a. \<exists>k' out. live s' k' = Some out \<and> a = oChunk out}
        = {a. \<exists>k' out. live s k' = Some out \<and> a = oChunk out} - {a. coff s a = k}"
      using key by (auto simp: live' split: if_splits)
    then show ?thesis by (auto simp: retained_def chunks_at_def s'(2))
  qed
  have sub: "retained s' \<subseteq> retained s" by (auto simp: ret)
  have cr: "crange s' a = crange s a" for a by (simp add: crange_def s'(1))
  have "struct_ok s'"
    unfolding struct_ok_def
  proof (intro conjI)
    show "distinct (map fst (sLive s'))" using st by (simp add: s'(3) struct_ok_def distinct_delete)
    show "\<forall>a\<in>retained s'. a < sNew s'" using st sub by (auto simp: struct_ok_def s'(6))
    show "\<forall>k out. live s' k = Some out \<longrightarrow> coff s' (oChunk out) = k"
      using key by (auto simp: live' s'(1))
    show "inj_on (coff s') (retained s')"
      using st sub by (auto simp: struct_ok_def s'(1) intro: inj_on_subset)
    show "sorted_wrt (<) (map (coff s') (sPending s'))"
      using st by (simp add: struct_ok_def s'(1,2) sorted_wrt_map sorted_wrt_filter)
  qed
  moreover have "counts_ok s'"
    using acc lb by (simp add: counts_ok_def s' flights_in_def live_size_def)
  moreover have "stream_ok S s' (acked \<union> bytes_at s k)"
  proof -
    have un: "(\<Union>a\<in>retained s. crange s a) = (\<Union>a\<in>retained s'. crange s a) \<union> bytes_at s k"
      by (auto simp: ret bytes_at_def chunks_at_def)
    have pw: "\<forall>a\<in>retained s. \<forall>b\<in>retained s. a \<noteq> b \<longrightarrow> crange s a \<inter> crange s b = {}"
      and inter: "acked \<inter> (\<Union>a\<in>retained s. crange s a) = {}"
      and union: "acked \<union> (\<Union>a\<in>retained s. crange s a) = {0..<unat (sNextOffset s)}"
      by (rule stream_disjoint [OF sm], rule stream_inter [OF sm], rule stream_union [OF sm])
    have "crange s a \<inter> crange s b = {}" if "a \<in> chunks_at s k" "b \<in> retained s'" for a b
    proof -
      have "a \<in> retained s" "b \<in> retained s" "a \<noteq> b" using that by (auto simp: ret chunks_at_def)
      then show ?thesis using pw by blast
    qed
    then have "bytes_at s k \<inter> (\<Union>a\<in>retained s'. crange s a) = {}" by (auto simp: bytes_at_def)
    then have "(acked \<union> bytes_at s k) \<inter> (\<Union>a\<in>retained s'. crange s a) = {}"
      using inter un by blast
    moreover have "(acked \<union> bytes_at s k) \<union> (\<Union>a\<in>retained s'. crange s a) = {0..<unat (sNextOffset s)}"
      unfolding union [symmetric] un by blast
    moreover have "\<forall>a\<in>retained s'. \<forall>b\<in>retained s'. a \<noteq> b \<longrightarrow> crange s a \<inter> crange s b = {}"
      using pw sub by blast
    moreover have "\<forall>a\<in>retained s'. cData (chunk_of s a) = map S [unat (coff s a)..<unat (coff s a) + clen s a] \<and>
        (clen s a = 0 \<longrightarrow> sEof s \<and> coff s a = sNextOffset s)"
      using stream_data [OF sm] sub by (meson subsetD)
    ultimately show ?thesis
      unfolding stream_ok_def cr s'(1,7,8) by (intro conjI)
  qed
  moreover have "order_ok s'"
    using od by (auto simp: order_ok_def s'(1,2) live')
  moreover have "busy_ok {} s'"
    using bs key by (auto simp: busy_ok_def s'(2) live')
  ultimately show "sched_ok {} S s' (acked \<union> bytes_at s k)" by (simp add: sched_ok_def)
qed

section \<open>The memory behind the chunks\<close>

text \<open>Every retained data chunk is charged a full \<^verbatim>\<open>ChunkSize\<close>, the empty final one nothing.\<close>

definition reserved :: "scheduler \<Rightarrow> int" where
  "reserved s = (\<Sum>a\<in>retained s. cReservation (chunk_of s a))"

definition charges_ok :: "scheduler \<Rightarrow> bool" where
  "charges_ok s \<longleftrightarrow> 0 < ChunkSize (sCfg s) \<and>
     (\<forall>a\<in>retained s. cReservation (chunk_of s a) = (if clen s a = 0 then 0 else ChunkSize (sCfg s)))"

lemma reserved_nonneg: "charges_ok s \<Longrightarrow> 0 \<le> reserved s"
  by (auto simp: reserved_def charges_ok_def intro!: sum_nonneg)

lemma reserved_count:
  "charges_ok s \<Longrightarrow> reserved s = ChunkSize (sCfg s) * int (card {a \<in> retained s. clen s a \<noteq> 0})"
proof -
  assume "charges_ok s"
  then have "reserved s = (\<Sum>a\<in>retained s. if clen s a \<noteq> 0 then ChunkSize (sCfg s) else 0)"
    unfolding reserved_def charges_ok_def by (intro sum.cong) auto
  then show ?thesis by (simp add: sum.If_cases Int_def)
qed

text \<open>Steps that leave the chunks, their bytes and charges as they are.\<close>

definition same_chunks :: "scheduler \<Rightarrow> scheduler \<Rightarrow> bool" where
  "same_chunks s s' \<longleftrightarrow> retained s' = retained s \<and>
     (\<forall>a. coff s' a = coff s a \<and> cData (chunk_of s' a) = cData (chunk_of s a) \<and>
        cReservation (chunk_of s' a) = cReservation (chunk_of s a)) \<and>
     sCfg s' = sCfg s \<and> sClosed s' = sClosed s \<and> sEof s' = sEof s \<and> sFinished s' = sFinished s \<and>
     sSrcErr s' = sSrcErr s \<and> sNextOffset s' = sNextOffset s"

lemma same_refl [simp]: "same_chunks s s"
  by (simp add: same_chunks_def)

lemma same_trans: "same_chunks s t \<Longrightarrow> same_chunks t u \<Longrightarrow> same_chunks s u"
  by (simp add: same_chunks_def)

lemma same_reserved:
  "same_chunks s s' \<Longrightarrow> reserved s' = reserved s \<and> charges_ok s' = charges_ok s"
  by (simp add: same_chunks_def reserved_def charges_ok_def)

lemma retained_empty: "retained s = {} \<longleftrightarrow> sPending s = [] \<and> sLive s = []"
proof
  assume e: "retained s = {}"
  then have "live s k = None" for k using live_retained [of s k] by (cases "live s k") auto
  then have "sLive s = []" by (cases "sLive s") (auto simp: fun_eq_iff split: if_splits prod.splits, metis option.distinct(1))
  then show "sPending s = [] \<and> sLive s = []" using e by (simp add: retained_def)
qed (simp add: retained_def)

lemma same_done: "same_chunks s s' \<Longrightarrow> doneLocked s' = doneLocked s"
  using retained_empty [of s] retained_empty [of s'] by (auto simp: same_chunks_def doneLocked_def)

lemma same_set_live:
  "live s k = Some out \<Longrightarrow> oChunk out' = oChunk out \<Longrightarrow> same_chunks s ((set_live k out' s)\<lparr>sAcc := acc\<rparr>)"
  using retained_set_live [of s k out out'] by (simp add: same_chunks_def)

lemma same_requeue:
  assumes "live s k = Some out"
  shows "same_chunks s (requeueLocked (oChunk out) s)"
proof -
  let ?i = "pending_search s (coff s (oChunk out))" and ?a = "oChunk out"
  have "set (take ?i (sPending s) @ ?a # drop ?i (sPending s)) = insert ?a (set (sPending s))"
    by (metis Un_insert_right append_take_drop_id list.simps(15) set_append)
  then have "retained ((set_urgent True ?a s)\<lparr>sPending := take ?i (sPending s) @ ?a # drop ?i (sPending s)\<rparr>) = retained s"
    using live_retained [OF assms] by (auto simp: retained_def)
  then show ?thesis by (simp add: requeueLocked_def same_chunks_def Let_def)
qed

lemma same_count [simp]: "same_chunks s (count_failure s)"
  by (simp add: same_chunks_def) (simp add: count_failure_def)

lemma same_requeue_if_idle: "live s k = Some out \<Longrightarrow> same_chunks s (requeue_if_idle out s)"
  using same_requeue by (simp add: requeue_if_idle_def)

lemma same_Fail: "same_chunks s (Fail lane k ident s)"
proof (cases "live s k")
  case None
  then show ?thesis by (simp add: Fail_def)
next
  case out: (Some out)
  show ?thesis
  proof (cases "drop_attempt lane ident (oAttempts out)")
    case None
    then show ?thesis using out by (simp add: Fail_def)
  next
    case (Some p)
    obtain a kept where p: "p = (a, kept)" by (cases p)
    let ?out = "out\<lparr>oAttempts := kept\<rparr>"
    let ?s1 = "(set_live k ?out s)\<lparr>sAcc := releaseLaneLocked (aLane a) (size64 (chunk_of s (oChunk out))) (\<not> aWritten a) (sAcc s)\<rparr>"
    have "same_chunks s (count_failure ?s1)"
      by (rule same_trans [OF same_set_live [OF out] same_count]) simp
    moreover have "same_chunks (count_failure ?s1) (requeue_if_idle ?out (count_failure ?s1))"
      by (rule same_requeue_if_idle [of _ k]) simp
    ultimately show ?thesis
      using out Some p by (simp add: Fail_def Let_def same_trans)
  qed
qed

lemma same_retire_one: "same_chunks s (retire_one lane k s)"
proof (cases "live s k")
  case None
  then show ?thesis by (simp add: retire_one_def)
next
  case out: (Some out)
  let ?out = "out\<lparr>oAttempts := filter (\<lambda>a. aLane a \<noteq> lane) (oAttempts out)\<rparr>"
  let ?acc = "release_attempts (size64 (chunk_of s (oChunk out))) (filter (\<lambda>a. aLane a = lane) (oAttempts out)) (sAcc s)"
  let ?s2 = "(set_live k ?out (count_failure s))\<lparr>sAcc := ?acc\<rparr>"
  have "same_chunks (count_failure s) ?s2" by (rule same_set_live) (simp_all add: out)
  moreover have "same_chunks ?s2 (requeue_if_idle ?out ?s2)"
    by (rule same_requeue_if_idle [of _ k]) simp
  ultimately have "same_chunks s (requeue_if_idle ?out ?s2)"
    using same_count same_trans by blast
  then show ?thesis using out by (simp add: retire_one_def Let_def)
qed

lemma same_RetireLane: "same_chunks s (RetireLane ks lane s)"
proof -
  have "same_chunks s (fold (retire_one lane) ks s)"
    by (induction ks arbitrary: s) (auto intro: same_trans same_retire_one)
  moreover have "same_chunks t (t\<lparr>sAcc := acc\<rparr>)" for t acc by (simp add: same_chunks_def)
  ultimately show ?thesis unfolding RetireLane_def Let_def using same_trans by blast
qed

lemma same_Wrote: "same_chunks s (Wrote lane k ident s)"
  by (auto simp: Wrote_def intro: same_set_live split: option.splits)

lemma same_retireUnreliable:
  assumes "live s k = Some out" and "retireUnreliable d k out s = (r, out', s')"
  shows "same_chunks s s'" and "live s' k = Some out'" and "oChunk out' = oChunk out"
  using assms same_set_live [OF assms(1), of out']
  by (auto simp: retireUnreliable_def Let_def)

lemma same_reissue_below: "same_chunks s (snd (ReissueUnacknowledgedBelow ks offset s))"
proof -
  have one: "same_chunks s (snd (reissue_below_one offset k s))" for k s
  proof (cases "live s k")
    case None
    then show ?thesis by (simp add: reissue_below_one_def)
  next
    case out: (Some out)
    obtain r out' s1 where ret: "retireUnreliable None k out s = (r, out', s1)" by (metis prod_cases3)
    note same = same_retireUnreliable [OF out ret]
    have "same_chunks s (requeueLocked (oChunk out') s1)"
      using same same_requeue same_trans by blast
    then show ?thesis using out ret same(1) by (simp add: reissue_below_one_def)
  qed
  show ?thesis
  proof (induction ks arbitrary: s)
    case Nil
    then show ?case by simp
  next
    case (Cons k ks)
    show ?case using same_trans [OF one Cons.IH, of s k]
      by (auto split: prod.splits)
  qed
qed

lemma same_expired: "same_chunks s (snd (expired_candidates now ks s))"
proof -
  have one: "same_chunks s (snd (expired_one now k s))" for k s
  proof (cases "live s k")
    case None
    then show ?thesis by (simp add: expired_one_def)
  next
    case out: (Some out)
    obtain r out' s1 where ret: "retireUnreliable (Some now) k out s = (r, out', s1)" by (metis prod_cases3)
    show ?thesis using out ret same_retireUnreliable(1) [OF out ret] by (simp add: expired_one_def Let_def)
  qed
  show ?thesis
  proof (induction ks arbitrary: s)
    case Nil
    then show ?case by simp
  next
    case (Cons k ks)
    show ?case using same_trans [OF one Cons.IH, of s k] by (auto split: prod.splits)
  qed
qed

lemma same_reoffer: "same_chunks s (snd (reoffer d burst ks s))"
proof -
  have one: "same_chunks s (reoffer_one d k s)" for k s
  proof (cases "live s k")
    case None
    then show ?thesis by (simp add: reoffer_one_def)
  next
    case out: (Some out)
    show ?thesis
    proof (cases "oAttempts out")
      case Nil
      then show ?thesis using same_requeue [OF out] out by (simp add: reoffer_one_def)
    next
      case (Cons a as)
      let ?out = "out\<lparr>oAttempts := a\<lparr>aDeadline := Some d\<rparr> # as\<rparr>"
      have "same_chunks s (set_live k ?out s)"
        using same_set_live [OF out, of ?out "sAcc s"] by (simp add: same_chunks_def retained_def)
      moreover have "same_chunks (set_live k ?out s) (requeueLocked (oChunk ?out) (set_live k ?out s))"
        by (rule same_requeue [of _ k]) simp
      ultimately show ?thesis
        using out Cons same_trans by (simp add: reoffer_one_def)
    qed
  qed
  show ?thesis
  proof (induction ks arbitrary: s burst)
    case Nil
    then show ?case by simp
  next
    case (Cons k ks)
    have "same_chunks s (snd (reoffer d b ks (reoffer_one d k s)))" for b
      by (rule same_trans [OF one Cons.IH])
    then show ?case
      using Cons.IH by (simp add: Let_def split_beta)
  qed
qed

lemma same_ReissueExpired: "same_chunks s (snd (ReissueExpired e ks s))"
proof -
  obtain cs s1 where cs: "expired_candidates (eNow e) ks s = (cs, s1)" by (metis surj_pair)
  then have "same_chunks s s1" using same_expired [of s "eNow e" ks] by simp
  from same_trans [OF this same_reoffer] show ?thesis
    using cs by (simp add: ReissueExpired_def)
qed

lemma same_dispatch:
  assumes "sched_ok {} S s acked" and "i < length (sPending s)"
    and "\<forall>m < i. live s (coff s (sPending s ! m)) \<noteq> None"
    and "unat (totalBytes (sAcc s)) + clen s (sPending s ! i) < 2 ^ 64"
    and "dispatch e lane i s = (c, s')"
  shows "same_chunks s s'"
  using dispatch_ok(2,5) [OF assms] dispatch_fields(7-12) [OF assms(5)]
  by (simp add: same_chunks_def)

lemma releaseChunk_spec:
  assumes meter: "byte_meter TryAcquire Release C" and mem: "C memory (m + cReservation (chunk_of s a))" "0 \<le> m"
    and pos: "0 \<le> cReservation (chunk_of s a)"
  shows "\<exists>memory'. releaseChunkLocked a s memory
      = Inr (s\<lparr>sHeap := (sHeap s)(a := (chunk_of s a)\<lparr>cReservation := 0\<rparr>)\<rparr>, memory') \<and> C memory' m"
proof (cases "cReservation (chunk_of s a) = 0")
  case True
  then have "(chunk_of s a)\<lparr>cReservation := 0\<rparr> = chunk_of s a" by (cases "chunk_of s a") simp
  then have heap: "(sHeap s)(a := (chunk_of s a)\<lparr>cReservation := 0\<rparr>) = sHeap s" by (rule fun_upd_idem [OF sym])
  show ?thesis unfolding heap using True mem(1) by (simp add: releaseChunkLocked_def)
next
  case False
  from byte_meter.release_covered [OF meter mem pos] show ?thesis
    using False by (auto simp: releaseChunkLocked_def)
qed

lemma signalIfDone_frame [simp]:
  "sched_ok X S (signalIfDoneLocked s) acked = sched_ok X S s acked"
  "retained (signalIfDoneLocked s) = retained s" "sHeap (signalIfDoneLocked s) = sHeap s"
  "sCfg (signalIfDoneLocked s) = sCfg s" "sClosed (signalIfDoneLocked s) = sClosed s"
  "sEof (signalIfDoneLocked s) = sEof s" "sSrcErr (signalIfDoneLocked s) = sSrcErr s"
  "sNextOffset (signalIfDoneLocked s) = sNextOffset s"
  "sPending (signalIfDoneLocked s) = sPending s" "sLive (signalIfDoneLocked s) = sLive s"
  "sFinished (signalIfDoneLocked s) = (sFinished s \<or> doneLocked s)"
  "charges_ok (signalIfDoneLocked s) = charges_ok s" "reserved (signalIfDoneLocked s) = reserved s"
  by (simp_all add: signalIfDoneLocked_def charges_ok_def reserved_def)

lemma chunks_at_live:
  assumes "struct_ok s" and "live s k = Some out"
  shows "chunks_at s k = {oChunk out}"
proof -
  have "coff s (oChunk out) = k" using assms by (simp add: struct_ok_def)
  then show ?thesis
    using struct_inj [OF assms(1)] live_retained [OF assms(2)] by (auto simp: chunks_at_def)
qed

lemma chunks_at_pending:
  assumes "struct_ok s" and "a \<in> set (sPending s)"
  shows "chunks_at s (coff s a) = {a}"
  using struct_inj [OF assms(1) _ pending_retained [OF assms(2)]] pending_retained [OF assms(2)]
  by (auto simp: chunks_at_def)

lemma chunks_at_none:
  assumes "struct_ok s" and "live s k = None" and "k \<notin> coff s ` set (sPending s)"
  shows "chunks_at s k = {}"
  using assms by (auto simp: chunks_at_def retained_def struct_ok_def)

text \<open>Releasing the removed chunk and signalling, the last steps of \<^verbatim>\<open>Complete\<close>.\<close>

lemma finish_complete:
  assumes meter: "byte_meter TryAcquire Release C"
    and ok: "sched_ok {} S s2 acked'" and ret: "retained s2 = retained s - {a}" and a: "a \<in> retained s"
    and heap: "sHeap s2 = sHeap s" "sCfg s2 = sCfg s" and ch: "charges_ok s"
    and mem: "C memory (m + reserved s)" "0 \<le> m"
  shows "\<exists>s3 memory'. releaseChunkLocked a s2 memory = Inr (s3, memory') \<and> sched_ok {} S s3 acked' \<and>
    charges_ok s3 \<and> C memory' (m + reserved s3) \<and> retained s3 = retained s2 \<and>
    sCfg s3 = sCfg s2 \<and> sClosed s3 = sClosed s2 \<and> sEof s3 = sEof s2 \<and> sSrcErr s3 = sSrcErr s2 \<and>
    sNextOffset s3 = sNextOffset s2 \<and> sFinished s3 = sFinished s2 \<and> doneLocked s3 = doneLocked s2"
proof -
  let ?h = "(sHeap s2)(a := (chunk_of s2 a)\<lparr>cReservation := 0\<rparr>)"
  let ?s3 = "s2\<lparr>sHeap := ?h\<rparr>"
  have ch2: "charges_ok s2" using ch by (auto simp: charges_ok_def ret heap)
  have sum: "reserved s = reserved s2 + cReservation (chunk_of s2 a)"
    using sum.remove [OF finite_retained a, of "\<lambda>b. cReservation (chunk_of s b)"]
    by (simp add: reserved_def ret heap)
  have same: "reserved ?s3 = reserved s2"
    unfolding reserved_def by (intro sum.cong) (auto simp: ret)
  have "C memory ((m + reserved s2) + cReservation (chunk_of s2 a))" "0 \<le> m + reserved s2"
    using mem reserved_nonneg [OF ch2] by (simp_all add: sum algebra_simps)
  moreover have "0 \<le> cReservation (chunk_of s2 a)"
    using ch a by (auto simp: charges_ok_def heap)
  ultimately obtain memory' where rel: "releaseChunkLocked a s2 memory = Inr (?s3, memory')"
      "C memory' (m + reserved s2)"
    using releaseChunk_spec [OF meter] by blast
  have "sched_ok {} S ?s3 acked'"
    using ok by (subst sched_ok_heap) auto
  moreover have "charges_ok ?s3"
    using ch2 by (auto simp: charges_ok_def ret)
  ultimately show ?thesis
    using rel by (simp add: same doneLocked_def)
qed

lemma Complete_spec:
  assumes meter: "byte_meter TryAcquire Release C" and ok: "sched_ok {} S s acked" and ch: "charges_ok s"
    and mem: "C memory (m + reserved s)" "0 \<le> m"
  shows "\<exists>s' memory'. Complete lane k s memory = Inr (s', memory') \<and>
    sched_ok {} S s' (acked \<union> bytes_at s k) \<and> charges_ok s' \<and> C memory' (m + reserved s') \<and>
    retained s' = retained s - chunks_at s k \<and> sCfg s' = sCfg s \<and> sClosed s' = sClosed s \<and>
    sEof s' = sEof s \<and> sSrcErr s' = sSrcErr s \<and> sNextOffset s' = sNextOffset s \<and>
    sFinished s' = (sFinished s \<or> chunks_at s k \<noteq> {} \<and> doneLocked s')"
proof -
  have st: "struct_ok s" and ct: "counts_ok s" using ok by (simp_all add: sched_ok_def)
  have srt: "sorted_wrt (<) (map (coff s) (sPending s))" using st by (simp add: struct_ok_def)
  let ?P = "filter (\<lambda>b. coff s b \<noteq> k) (sPending s)"
  have finish: ?thesis
    if run: "Complete lane k s memory = and_then (releaseChunkLocked a s2 memory)
          (\<lambda>(s3, memory'). Inr (signalIfDoneLocked s3, memory'))"
      and a: "chunks_at s k = {a}"
      and acc: "accounts_ok (sAcc s2) (other_flights k s)"
      and lb: "unat (sLiveBytes s2) = live_size s (AList.delete k (sLive s))"
      and f: "sHeap s2 = sHeap s" "sPending s2 = ?P" "sLive s2 = AList.delete k (sLive s)" "sNew s2 = sNew s"
        "sNextOffset s2 = sNextOffset s" "sEof s2 = sEof s"
      and g: "sCfg s2 = sCfg s" "sClosed s2 = sClosed s" "sSrcErr s2 = sSrcErr s" "sFinished s2 = sFinished s"
    for a s2
  proof -
    note rm = remove_ok [OF ok acc lb f(1-3) refl refl f(4-6)]
    have ra: "a \<in> retained s" using a by (auto simp: chunks_at_def)
    have "retained s2 = retained s - {a}" using rm(2) a by simp
    from finish_complete [OF meter rm(1) this ra f(1) g(1) ch mem]
    obtain s3 memory' where s3: "releaseChunkLocked a s2 memory = Inr (s3, memory')"
      "sched_ok {} S s3 (acked \<union> bytes_at s k)" "charges_ok s3" "C memory' (m + reserved s3)"
      "retained s3 = retained s2" "sCfg s3 = sCfg s2" "sClosed s3 = sClosed s2" "sEof s3 = sEof s2"
      "sSrcErr s3 = sSrcErr s2" "sNextOffset s3 = sNextOffset s2" "sFinished s3 = sFinished s2"
      "doneLocked s3 = doneLocked s2" by blast
    have "doneLocked (signalIfDoneLocked s3) = doneLocked s3" by (simp add: doneLocked_def)
    then show ?thesis
      using s3 rm(2) a f g by (intro exI [of _ "signalIfDoneLocked s3"] exI [of _ memory']) (simp add: run)
  qed
  have none_P: "?P = sPending s" if "k \<notin> coff s ` set (sPending s)"
    using that by (auto simp: filter_id_conv)
  show ?thesis
  proof (cases "live s k")
    case None
    show ?thesis
    proof (cases "k \<in> coff s ` set (sPending s)")
      case True
      then obtain a where a: "a \<in> set (sPending s)" "coff s a = k" by auto
      have del: "AList.delete k (sLive s) = sLive s" by (rule delete_absent [OF None])
      have "Complete lane k s memory = and_then (releaseChunkLocked a (s\<lparr>sPending := ?P\<rparr>) memory)
          (\<lambda>(s3, memory'). Inr (signalIfDoneLocked s3, memory'))"
        using None removePending_some [OF srt a(1)] a(2) by (simp add: Complete_def)
      then show ?thesis
      proof (rule finish)
        show "chunks_at s k = {a}" using chunks_at_pending [OF st a(1)] a(2) by simp
      qed (use ct del in \<open>simp_all add: counts_ok_def\<close>)
    next
      case False
      have "chunks_at s k = {}" by (rule chunks_at_none [OF st None False])
      moreover have "Complete lane k s memory = Inr (s, memory)"
        using None removePending_none [OF srt False] by (simp add: Complete_def)
      ultimately show ?thesis
        using ok ch mem(1) by (simp add: bytes_at_def)
    qed
  next
    case out: (Some out)
    let ?sz = "size64 (chunk_of s (oChunk out))" and ?n = "clen s (oChunk out)"
    let ?s1 = "s\<lparr>sAcc := release_attempts ?sz (oAttempts out) (sAcc s),
        sLiveBytes := (if sLiveBytes s \<ge> ?sz then sLiveBytes s - ?sz else 0),
        sLive := AList.delete k (sLive s),
        sStats := (sStats s)\<lparr>ChunksCompleted := ChunksCompleted (sStats s) + 1,
          CompletedByLaneID := (CompletedByLaneID (sStats s))
            (lane := CompletedByLaneID (sStats s) lane + 1)\<rparr>\<rparr>"
    have srt1: "sorted_wrt (<) (map (coff ?s1) (sPending ?s1))" using srt by simp
    have "\<exists>dropped. removePendingLocked k ?s1 = (dropped, ?s1\<lparr>sPending := ?P\<rparr>)"
    proof (cases "k \<in> coff s ` set (sPending s)")
      case True
      then obtain a where "a \<in> set (sPending ?s1)" "coff ?s1 a = k" by auto
      from removePending_some [OF srt1 this(1)] this(2) show ?thesis by simp
    next
      case False
      then have "k \<notin> coff ?s1 ` set (sPending ?s1)" by simp
      from removePending_none [OF srt1 this] show ?thesis using none_P [OF False] by simp
    qed
    then obtain dropped where "removePendingLocked k ?s1 = (dropped, ?s1\<lparr>sPending := ?P\<rparr>)" by blast
    then have "Complete lane k s memory = and_then (releaseChunkLocked (oChunk out) (?s1\<lparr>sPending := ?P\<rparr>) memory)
          (\<lambda>(s3, memory'). Inr (signalIfDoneLocked s3, memory'))"
      using out by (simp add: Complete_def Let_def)
    then show ?thesis
    proof (rule finish)
      show "chunks_at s k = {oChunk out}" by (rule chunks_at_live [OF st out])
      have "accounts_ok (sAcc s) (att_flights ?n (oAttempts out) + other_flights k s)"
        using ct flights_split [OF st out] by (simp add: counts_ok_def)
      from release_attempts_ok [OF this]
      show "accounts_ok (sAcc (?s1\<lparr>sPending := ?P\<rparr>)) (other_flights k s)" by (simp add: size64_def)
      have total: "unat (sLiveBytes s) = ?n + live_size s (AList.delete k (sLive s))"
        using ct live_size_split [OF st out] by (simp add: counts_ok_def)
      then have "?n \<le> unat (sLiveBytes s)" by simp
      from le_less_trans [OF this unat_u64_lt] have "unat ?sz = ?n" by (simp add: size64_def unat_of_nat_small)
      with total show "unat (sLiveBytes (?s1\<lparr>sPending := ?P\<rparr>)) = live_size s (AList.delete k (sLive s))"
        by (simp add: word_le_nat_alt unat_sub_no_wrap)
    qed simp_all
  qed
qed

text \<open>One read of the source.\<close>

lemma produce_read_spec:
  assumes meter: "byte_meter TryAcquire Release C" and ok: "sched_ok {} S s acked" and ch: "charges_ok s"
    and open_: "\<not> sClosed s" "\<not> sEof s"
    and data: "data = map S [unat (sNextOffset s)..<unat (sNextOffset s) + length data]"
      "unat (sNextOffset s) + length data < 2 ^ 64"
    and mem: "C memory (m + reserved s + ChunkSize (sCfg s))" "0 \<le> m"
  shows "\<exists>s' memory'. produce_read data err s memory = Inr (s', memory') \<and>
    sched_ok {} S s' acked \<and> charges_ok s' \<and> C memory' (m + reserved s') \<and>
    sCfg s' = sCfg s \<and> sClosed s' = sClosed s \<and> sEof s' = (err \<noteq> None) \<and>
    unat (sNextOffset s') = unat (sNextOffset s) + length data \<and>
    sFinished s' = (sFinished s \<or> err \<noteq> None \<and> doneLocked s') \<and>
    sSrcErr s' = (case err of Some (SrcFail msg) \<Rightarrow> Some (SourceError msg) | _ \<Rightarrow> sSrcErr s)"
proof -
  let ?cs = "ChunkSize (sCfg s)"
  have cs: "0 < ?cs" using ch by (simp add: charges_ok_def)
  obtain s1 memory1 where one: "(if length data > 0 then Inr (add_source data s, memory)
       else and_then (Release memory ?cs) (\<lambda>memory'. Inr (s, memory'))) = Inr (s1, memory1)"
    and s1: "sched_ok {} S s1 acked" "charges_ok s1" "C memory1 (m + reserved s1)" "sCfg s1 = sCfg s"
      "sClosed s1 = sClosed s" "\<not> sEof s1" "unat (sNextOffset s1) = unat (sNextOffset s) + length data"
      "sFinished s1 = sFinished s" "sSrcErr s1 = sSrcErr s"
  proof (cases "data = []")
    case True
    have "C memory ((m + reserved s) + ?cs)" "0 \<le> m + reserved s" "0 \<le> ?cs"
      using mem reserved_nonneg [OF ch] cs by simp_all
    from byte_meter.release_covered [OF meter this]
    obtain memory' where "Release memory ?cs = Inr memory'" "C memory' (m + reserved s)" by blast
    then show thesis using True ok ch open_ by (intro that [of s memory']) simp_all
  next
    case False
    note src = add_source_ok [OF ok open_(2) False data]
    have f: "sHeap (add_source data s) = (sHeap s)(sNew s := \<lparr>cOffset = sNextOffset s, cData = data, cFinal = False,
          cUrgent = False, cAttempt = 0, cReservation = ?cs\<rparr>)"
        "sCfg (add_source data s) = sCfg s" "sClosed (add_source data s) = sClosed s"
        "sEof (add_source data s) = sEof s" "sNextOffset (add_source data s) = sNextOffset s + word_of_nat (length data)"
        "sFinished (add_source data s) = sFinished s" "sSrcErr (add_source data s) = sSrcErr s"
      by (simp_all add: add_source_def alloc_def)
    have "(\<Sum>a\<in>retained s. cReservation (chunk_of (add_source data s) a)) = reserved s"
      unfolding reserved_def using src(3) by (intro sum.cong) (auto simp: f(1))
    then have "reserved (add_source data s) = reserved s + ?cs"
      using src(3) by (simp add: reserved_def src(2) f(1))
    moreover have "charges_ok (add_source data s)"
      using ch src(3) False by (auto simp: charges_ok_def src(2) f(1,2))
    moreover have "unat (sNextOffset (add_source data s)) = unat (sNextOffset s) + length data"
      unfolding f(5) using data(2) by (simp add: unat_add_nat_no_wrap)
    ultimately have res: "reserved (add_source data s) = reserved s + ?cs"
      and chg: "charges_ok (add_source data s)"
      and nxt: "unat (sNextOffset (add_source data s)) = unat (sNextOffset s) + length data" by blast+
    have cov: "C memory (m + reserved (add_source data s))" unfolding res using mem(1) by (simp only: add.assoc)
    have "(if length data > 0 then Inr (add_source data s, memory)
       else and_then (Release memory ?cs) (\<lambda>memory'. Inr (s, memory'))) = Inr (add_source data s, memory)"
      using False by simp
    from that [OF this src(1) chg cov f(2) f(3) _ nxt f(6) f(7)] show thesis using f(4) open_(2) by blast
  qed
  have run: "produce_read data err s memory = (case err of None \<Rightarrow> Inr (s1, memory1)
      | Some SrcEOF \<Rightarrow> Inr (signalIfDoneLocked (markEOFLocked s1), memory1)
      | Some (SrcFail msg) \<Rightarrow>
          Inr (signalIfDoneLocked (s1\<lparr>sSrcErr := Some (SourceError msg), sEof := True\<rparr>), memory1))"
    using one open_(1) by (simp add: produce_read_def split: option.splits read_error.splits)
  show ?thesis
  proof (cases err)
    case None
    then show ?thesis using run s1 by simp
  next
    case (Some r)
    show ?thesis
    proof (cases r)
      case SrcEOF
      let ?s2 = "markEOFLocked s1"
      have ret: "reserved ?s2 = reserved s1 \<and> charges_ok ?s2"
      proof (cases "sPending s1 \<noteq> [] \<and> chunk_end (chunk_of s1 (last (sPending s1))) = sNextOffset s1")
        case True
        then show ?thesis
          using s1(2) by (auto simp: markEOFLocked_def Let_def reserved_def charges_ok_def intro!: sum.cong)
      next
        case False
        have new: "sNew s1 \<notin> retained s1" using s1(1) by (auto simp: sched_ok_def struct_ok_def)
        have "retained ?s2 = insert (sNew s1) (retained s1)"
          using False by (auto simp: markEOFLocked_def Let_def alloc_def retained_def)
        moreover have "chunk_of ?s2 (sNew s1) = \<lparr>cOffset = sNextOffset s1, cData = [], cFinal = True,
            cUrgent = False, cAttempt = 0, cReservation = 0\<rparr>" "\<forall>a\<in>retained s1. chunk_of ?s2 a = chunk_of s1 a"
            "sCfg ?s2 = sCfg s1"
          using False new by (auto simp: markEOFLocked_def Let_def alloc_def)
        ultimately show ?thesis
          using new s1(2) by (simp add: reserved_def charges_ok_def)
      qed
      have f: "sCfg ?s2 = sCfg s1" "sClosed ?s2 = sClosed s1" "sEof ?s2" "sNextOffset ?s2 = sNextOffset s1"
          "sFinished ?s2 = sFinished s1" "sSrcErr ?s2 = sSrcErr s1"
        by (auto simp: markEOFLocked_def alloc_def Let_def)
      have "doneLocked (signalIfDoneLocked ?s2) = doneLocked ?s2" by (simp add: doneLocked_def)
      then show ?thesis
        using run Some SrcEOF markEOF_ok [OF s1(1,6)] ret f s1 by simp
    next
      case (SrcFail msg)
      let ?s2 = "s1\<lparr>sSrcErr := Some (SourceError msg), sEof := True\<rparr>"
      have eq: "?s2 = (s1\<lparr>sEof := True\<rparr>)\<lparr>sSrcErr := Some (SourceError msg)\<rparr>" by simp
      have "sched_ok {} S ?s2 acked"
        unfolding eq sched_ok_frame by (rule sched_ok_eof [OF s1(1)])
      moreover have "reserved ?s2 = reserved s1" "charges_ok ?s2 = charges_ok s1"
        by (simp_all add: reserved_def charges_ok_def)
      moreover have "doneLocked (signalIfDoneLocked ?s2) = doneLocked ?s2" by (simp add: doneLocked_def)
      ultimately show ?thesis using run Some SrcFail s1 by simp
    qed
  qed
qed

section \<open>Close\<close>

lemma release_chunks_spec:
  assumes meter: "byte_meter TryAcquire Release C"
  shows "distinct as \<Longrightarrow> \<forall>a\<in>set as. 0 \<le> cReservation (chunk_of s a) \<Longrightarrow> 0 \<le> m \<Longrightarrow>
    C memory (m + (\<Sum>a\<leftarrow>as. cReservation (chunk_of s a))) \<Longrightarrow>
    \<exists>h memory'. release_chunks as s memory = Inr (s\<lparr>sHeap := h\<rparr>, memory') \<and> C memory' m"
proof (induction as arbitrary: s memory)
  case Nil
  then show ?case by (intro exI [of _ "sHeap s"]) simp
next
  case (Cons a as)
  let ?s1 = "s\<lparr>sHeap := (sHeap s)(a := (chunk_of s a)\<lparr>cReservation := 0\<rparr>)\<rparr>"
  have sums: "(\<Sum>b\<leftarrow>as. cReservation (chunk_of ?s1 b)) = (\<Sum>b\<leftarrow>as. cReservation (chunk_of s b))"
    using Cons.prems(1) by (intro arg_cong [where f = sum_list] map_cong) auto
  have "0 \<le> (\<Sum>b\<leftarrow>as. cReservation (chunk_of s b))"
    using Cons.prems(2) by (intro sum_list_nonneg) auto
  then obtain memory1 where one: "releaseChunkLocked a s memory = Inr (?s1, memory1)"
      "C memory1 (m + (\<Sum>b\<leftarrow>as. cReservation (chunk_of s b)))"
    using releaseChunk_spec [OF meter, of memory "m + (\<Sum>b\<leftarrow>as. cReservation (chunk_of s b))" s a] Cons.prems
    by (auto simp: algebra_simps)
  have "\<exists>h memory'. release_chunks as ?s1 memory1 = Inr (?s1\<lparr>sHeap := h\<rparr>, memory') \<and> C memory' m"
  proof (rule Cons.IH)
    show "C memory1 (m + (\<Sum>b\<leftarrow>as. cReservation (chunk_of ?s1 b)))" unfolding sums by (rule one(2))
  qed (use Cons.prems in auto)
  then show ?case using one(1) by auto
qed

lemma seen_chunks_retained:
  assumes "struct_ok s"
  shows "set (seen_chunks s) = retained s" and "distinct (seen_chunks s)"
proof -
  have d: "distinct (map fst (sLive s))" using assms by (simp add: struct_ok_def)
  have "(\<lambda>(k, out). oChunk out) ` set (sLive s) = {a. \<exists>k out. (k, out) \<in> set (sLive s) \<and> a = oChunk out}"
    by force
  also have "\<dots> = {a. \<exists>k out. live s k = Some out \<and> a = oChunk out}"
    by (simp only: map_of_eq_set [OF d])
  finally have "(\<lambda>(k, out). oChunk out) ` set (sLive s) = {a. \<exists>k out. live s k = Some out \<and> a = oChunk out}" .
  then show "set (seen_chunks s) = retained s" by (simp add: seen_chunks_def retained_def)
qed (simp add: seen_chunks_def)

lemma close_scheduler_spec:
  assumes meter: "byte_meter TryAcquire Release C" and ok: "struct_ok s" and ch: "charges_ok s"
    and open_: "\<not> sClosed s" and mem: "C memory (m + reserved s)" "0 \<le> m"
  shows "\<exists>h memory'. close_scheduler s memory
      = Inr (s\<lparr>sClosed := True, sHeap := h, sPending := [], sLive := []\<rparr>, memory') \<and> C memory' m"
proof -
  note seen = seen_chunks_retained [OF ok]
  let ?s1 = "s\<lparr>sClosed := True\<rparr>"
  have "reserved s = (\<Sum>a\<leftarrow>seen_chunks s. cReservation (chunk_of ?s1 a))"
    unfolding reserved_def by (simp add: sum_list_distinct_conv_sum_set [OF seen(2)] seen(1))
  moreover have "\<forall>a\<in>set (seen_chunks s). 0 \<le> cReservation (chunk_of ?s1 a)"
    using ch by (auto simp: seen(1) charges_ok_def)
  ultimately obtain h memory' where "release_chunks (seen_chunks s) ?s1 memory = Inr (?s1\<lparr>sHeap := h\<rparr>, memory')"
      "C memory' m"
    using release_chunks_spec [OF meter seen(2), of ?s1 m memory] mem by auto
  then have "close_scheduler s memory
      = Inr (s\<lparr>sClosed := True, sHeap := h, sPending := [], sLive := []\<rparr>, memory') \<and> C memory' m"
    using open_ by (simp add: close_scheduler_def)
  then show ?thesis by blast
qed

end
