(* ===== verification/StripeSystem.thy ===== *)
theory StripeSystem
  imports StripeRun
begin

text \<open>
  The scheduler as a system: the producer goroutine, the lanes, the acknowledgement path, the timers
  and \<^verbatim>\<open>Close\<close> in any interleaving, with the shared memory that other flows use too. The ghost field
  \<open>rAcked\<close> is the set of stream positions that were completed.
\<close>

section \<open>Steps\<close>

datatype phase = Idle | Reading | Stopped

record run =
  rSched :: scheduler
  rMem :: "budget option"
  rAcked :: "nat set"
  rPhase :: phase

definition charged :: "run \<Rightarrow> int" where
  "charged r = reserved (rSched r) + (if rPhase r = Reading then ChunkSize (sCfg (rSched r)) else 0)"

text \<open>
  \<open>admit\<close>, \<open>admit_failed\<close> and \<open>read\<close> are the producer's loop; \<open>hand_out\<close> is a lane's \<^verbatim>\<open>Next\<close>; the stream
  \<open>S\<close> says what the source would deliver. Offsets and commitments are assumed to fit 64 bits.
\<close>

inductive run_step :: "(nat \<Rightarrow> byte) \<Rightarrow> run \<Rightarrow> run \<Rightarrow> bool" for S where
  admit: "rPhase r = Idle \<Longrightarrow> \<not> produce_blocked e (rSched r) \<Longrightarrow> \<not> sClosed (rSched r) \<Longrightarrow>
    Acquire cancelled (ChunkSize (sCfg (rSched r))) (rMem r) = (Acquired, mem') \<Longrightarrow>
    run_step S r (r\<lparr>rMem := mem', rPhase := Reading\<rparr>)"
| admit_failed: "rPhase r = Idle \<Longrightarrow> Acquire cancelled (ChunkSize (sCfg (rSched r))) (rMem r) = (err, mem') \<Longrightarrow>
    err = TooLarge \<or> err = Cancelled \<Longrightarrow>
    run_step S r (r\<lparr>rSched := produce_memory_failed err (rSched r), rPhase := Stopped\<rparr>)"
| read: "rPhase r = Reading \<Longrightarrow>
    data = map S [unat (sNextOffset (rSched r))..<unat (sNextOffset (rSched r)) + length data] \<Longrightarrow>
    unat (sNextOffset (rSched r)) + length data < 2 ^ 64 \<Longrightarrow>
    int (length data) \<le> ChunkSize (sCfg (rSched r)) \<Longrightarrow>
    produce_read data err (rSched r) (rMem r) = Inr (s', mem') \<Longrightarrow>
    run_step S r (r\<lparr>rSched := s', rMem := mem',
      rPhase := (if err = None \<and> \<not> sClosed (rSched r) then Idle else Stopped)\<rparr>)"
| closed_stop: "rPhase r = Idle \<Longrightarrow> sClosed (rSched r) \<Longrightarrow> run_step S r (r\<lparr>rPhase := Stopped\<rparr>)"
| hand_out: "\<forall>a\<in>set (sPending (rSched r)). unat (totalBytes (sAcc (rSched r))) +
      length (cData (chunk_of (rSched r) a)) < 2 ^ 64 \<Longrightarrow>
    next_round e cancelled lane w (rSched r) = (res, s') \<Longrightarrow>
    run_step S r (r\<lparr>rSched := s'\<rparr>)"
| complete: "Complete lane k (rSched r) (rMem r) = Inr (s', mem') \<Longrightarrow>
    run_step S r (r\<lparr>rSched := s', rMem := mem', rAcked := rAcked r \<union> bytes_at (rSched r) k\<rparr>)"
| fail: "run_step S r (r\<lparr>rSched := Fail lane k ident (rSched r)\<rparr>)"
| wrote: "run_step S r (r\<lparr>rSched := Wrote lane k ident (rSched r)\<rparr>)"
| retire: "set ks = fst ` set (sLive (rSched r)) \<Longrightarrow>
    run_step S r (r\<lparr>rSched := RetireLane ks lane (rSched r)\<rparr>)"
| below: "ReissueUnacknowledgedBelow ks offset (rSched r) = (n, s') \<Longrightarrow> run_step S r (r\<lparr>rSched := s'\<rparr>)"
| expired: "ReissueExpired e ks (rSched r) = (n, s') \<Longrightarrow> run_step S r (r\<lparr>rSched := s'\<rparr>)"
| close: "close_scheduler (rSched r) (rMem r) = Inr (s', mem') \<Longrightarrow>
    run_step S r (r\<lparr>rSched := s', rMem := mem'\<rparr>)"
| others: "budget_covers mem' (charged r) \<Longrightarrow> run_step S r (r\<lparr>rMem := mem'\<rparr>)"

inductive run_reach :: "(nat \<Rightarrow> byte) \<Rightarrow> run \<Rightarrow> bool" for S where
  start: "budget_covers mem 0 \<Longrightarrow>
    run_reach S \<lparr>rSched = new_scheduler cfg, rMem = mem, rAcked = {}, rPhase = Idle\<rparr>"
| step: "run_reach S r \<Longrightarrow> run_step S r r' \<Longrightarrow> run_reach S r'"

section \<open>The system invariant\<close>

definition memory_failed :: "scheduler \<Rightarrow> bool" where
  "memory_failed s \<longleftrightarrow> (\<exists>err. sSrcErr s = Some (MemoryError err))"

definition open_ok :: "(nat \<Rightarrow> byte) \<Rightarrow> run \<Rightarrow> bool" where
  "open_ok S r \<longleftrightarrow> (let s = rSched r in
     sched_ok {} S s (rAcked r) \<and> (sEof s \<longrightarrow> rPhase r = Stopped) \<and>
     (sFinished s \<longrightarrow> doneLocked s) \<and> (doneLocked s \<longrightarrow> sFinished s \<or> memory_failed s))"

definition run_ok :: "(nat \<Rightarrow> byte) \<Rightarrow> run \<Rightarrow> bool" where
  "run_ok S r \<longleftrightarrow> charges_ok (rSched r) \<and> 0 < LaneWindow (sCfg (rSched r)) \<and>
     budget_covers (rMem r) (charged r) \<and>
     (if sClosed (rSched r) then retained (rSched r) = {} else open_ok S r)"

lemma applyDefaults_pos:
  "0 < ChunkSize (applyDefaults c)" "0 < LaneWindow (applyDefaults c)"
  "LaneWindow (applyDefaults c) \<le> MaxOutstanding (applyDefaults c)" "0 < MaxOutstandingBytes (applyDefaults c)"
  by (auto simp: applyDefaults_def stripeDefaultConfig_def Let_def)

lemma run_ok_start:
  "budget_covers mem 0 \<Longrightarrow> run_ok S \<lparr>rSched = new_scheduler cfg, rMem = mem, rAcked = {}, rPhase = Idle\<rparr>"
  by (simp add: run_ok_def open_ok_def charged_def Let_def new_scheduler_def charges_ok_def
      sched_ok_def sched_defs accounts_ok_def fl_bytes_def reserved_def doneLocked_def applyDefaults_pos)

text \<open>Steps that only reorganise the chunks.\<close>

lemma run_ok_same:
  assumes ok: "run_ok S r" and same: "same_chunks (rSched r) s'"
    and keep: "sched_ok {} S (rSched r) (rAcked r) \<Longrightarrow> \<not> sClosed (rSched r) \<Longrightarrow> sched_ok {} S s' (rAcked r)"
  shows "run_ok S (r\<lparr>rSched := s'\<rparr>)"
proof -
  have f: "retained s' = retained (rSched r)" "sCfg s' = sCfg (rSched r)" "sClosed s' = sClosed (rSched r)"
      "sEof s' = sEof (rSched r)" "sFinished s' = sFinished (rSched r)" "sSrcErr s' = sSrcErr (rSched r)"
    using same by (simp_all add: same_chunks_def)
  show ?thesis
    using ok keep same_reserved [OF same] same_done [OF same]
    by (cases "sClosed (rSched r)") (auto simp: run_ok_def open_ok_def charged_def Let_def memory_failed_def f)
qed

text \<open>A closed scheduler holds nothing, so its operations find nothing to change.\<close>

lemma closed_Complete:
  assumes "retained s = {}"
  shows "Complete lane k s memory = Inr (s, memory)" and "bytes_at s k = {}"
proof -
  have "sPending s = []" "sLive s = []" using assms by (simp_all add: retained_empty)
  then show "Complete lane k s memory = Inr (s, memory)"
    by (simp add: Complete_def removePendingLocked_def pending_search_def search_key_def)
  show "bytes_at s k = {}" using assms by (simp add: bytes_at_def chunks_at_def)
qed

lemma next_round_ok:
  assumes room: "\<forall>a\<in>set (sPending s). unat (totalBytes (sAcc s)) + length (cData (chunk_of s a)) < 2 ^ 64"
    and res: "next_round e cancelled lane w s = (res, s')" and ok: "\<not> sClosed s \<Longrightarrow> sched_ok {} S s acked"
  shows "same_chunks s s'" and "\<not> sClosed s \<Longrightarrow> sched_ok {} S s' acked"
proof -
  have "s' = s \<or> (\<not> sClosed s \<and> (\<exists>i. pick_ready e lane w s 0 (sPending s) = Some i \<and> s' = snd (dispatch e lane i s)))"
    using res by (auto simp: next_round_def takeReadyLocked_def split: if_splits option.splits)
  then have "same_chunks s s' \<and> (\<not> sClosed s \<longrightarrow> sched_ok {} S s' acked)"
  proof
    assume "s' = s"
    then show ?thesis using ok by simp
  next
    assume "\<not> sClosed s \<and> (\<exists>i. pick_ready e lane w s 0 (sPending s) = Some i \<and> s' = snd (dispatch e lane i s))"
    then obtain i where i: "\<not> sClosed s" "pick_ready e lane w s 0 (sPending s) = Some i" "s' = snd (dispatch e lane i s)"
      by blast
    from pick_ready_spec [OF i(2)] have len: "i < length (sPending s)"
      and before: "\<forall>m < i. live s (coff s (sPending s ! m)) \<noteq> None" by auto
    have fits: "unat (totalBytes (sAcc s)) + clen s (sPending s ! i) < 2 ^ 64" using room len by simp
    obtain c where c: "dispatch e lane i s = (c, s')" using i(3) by (cases "dispatch e lane i s") simp
    show ?thesis
      using same_dispatch [OF ok [OF i(1)] len before fits c] dispatch_ok(1) [OF ok [OF i(1)] len before fits c] by simp
  qed
  then show "same_chunks s s'" and "\<not> sClosed s \<Longrightarrow> sched_ok {} S s' acked" by simp_all
qed

lemma run_ok_complete:
  assumes ok: "run_ok S r" and res: "Complete lane k (rSched r) (rMem r) = Inr (s', mem')"
  shows "run_ok S (r\<lparr>rSched := s', rMem := mem', rAcked := rAcked r \<union> bytes_at (rSched r) k\<rparr>)"
proof (cases "sClosed (rSched r)")
  case True
  then have "retained (rSched r) = {}" using ok by (simp add: run_ok_def)
  from closed_Complete [OF this] have "s' = rSched r" "mem' = rMem r" "bytes_at (rSched r) k = {}" using res by simp_all
  then have "r\<lparr>rSched := s', rMem := mem', rAcked := rAcked r \<union> bytes_at (rSched r) k\<rparr> = r" by simp
  then show ?thesis using ok by simp
next
  case False
  let ?s = "rSched r" and ?m = "if rPhase r = Reading then ChunkSize (sCfg (rSched r)) else 0"
  have ch: "charges_ok ?s" and op: "open_ok S r" and cov: "budget_covers (rMem r) (?m + reserved ?s)"
    using ok False by (simp_all add: run_ok_def charged_def add.commute)
  have "0 \<le> ?m" using ch by (simp add: charges_ok_def)
  note cov = cov this
  have sok: "sched_ok {} S ?s (rAcked r)" using op by (simp add: open_ok_def Let_def)
  note spec = Complete_spec [OF budget.byte_meter_axioms sok ch cov, where lane = lane and k = k, unfolded res]
  have s': "sched_ok {} S s' (rAcked r \<union> bytes_at ?s k)" "charges_ok s'" "budget_covers mem' (?m + reserved s')"
      "sCfg s' = sCfg ?s" "sClosed s' = sClosed ?s" "sEof s' = sEof ?s" "sSrcErr s' = sSrcErr ?s"
      "retained s' = retained ?s - chunks_at ?s k"
      "sFinished s' = (sFinished ?s \<or> chunks_at ?s k \<noteq> {} \<and> doneLocked s')"
    using spec by (elim exE conjE, simp)+
  have done1: "doneLocked ?s \<longleftrightarrow> sEof ?s \<and> retained ?s = {}" "doneLocked s' \<longleftrightarrow> sEof ?s \<and> retained s' = {}"
    using retained_empty [of ?s] retained_empty [of s'] by (auto simp: doneLocked_def s'(6))
  have "doneLocked ?s \<Longrightarrow> doneLocked s'" "doneLocked s' \<Longrightarrow> doneLocked ?s \<or> chunks_at ?s k \<noteq> {}"
    by (auto simp: done1 s'(8))
  moreover have "sFinished ?s \<longrightarrow> doneLocked ?s" "doneLocked ?s \<longrightarrow> sFinished ?s \<or> memory_failed ?s"
      "sEof ?s \<longrightarrow> rPhase r = Stopped"
    using op by (simp_all add: open_ok_def Let_def)
  ultimately have fin: "sFinished s' \<longrightarrow> doneLocked s'" "doneLocked s' \<longrightarrow> sFinished s' \<or> memory_failed s'"
      "sEof s' \<longrightarrow> rPhase r = Stopped"
    unfolding s'(6,9) memory_failed_def s'(7) by blast+
  let ?r' = "r\<lparr>rSched := s', rMem := mem', rAcked := rAcked r \<union> bytes_at ?s k\<rparr>"
  have "open_ok S ?r'" using s'(1) fin by (simp add: open_ok_def Let_def)
  moreover have "charged ?r' = ?m + reserved s'" by (simp add: charged_def s'(4))
  ultimately show ?thesis
    using s'(2-5) False ok by (simp add: run_ok_def)
qed

lemma run_ok_read:
  assumes ok: "run_ok S r" and reading: "rPhase r = Reading"
    and data: "data = map S [unat (sNextOffset (rSched r))..<unat (sNextOffset (rSched r)) + length data]"
      "unat (sNextOffset (rSched r)) + length data < 2 ^ 64"
    and res: "produce_read data err (rSched r) (rMem r) = Inr (s', mem')"
  shows "run_ok S (r\<lparr>rSched := s', rMem := mem',
      rPhase := (if err = None \<and> \<not> sClosed (rSched r) then Idle else Stopped)\<rparr>)"
proof -
  let ?s = "rSched r"
  have ch: "charges_ok ?s" and cov: "budget_covers (rMem r) (0 + reserved ?s + ChunkSize (sCfg ?s))"
    using ok reading by (simp_all add: run_ok_def charged_def)
  have nn: "0 \<le> reserved ?s" "0 \<le> ChunkSize (sCfg ?s)"
    using ch reserved_nonneg [OF ch] by (simp_all add: charges_ok_def)
  show ?thesis
  proof (cases "sClosed ?s")
    case True
    then obtain mem1 where "Release (rMem r) (ChunkSize (sCfg ?s)) = Inr mem1" "budget_covers mem1 (reserved ?s)"
      using budget.release_covered [of "rMem r" "reserved ?s" "ChunkSize (sCfg ?s)"] cov nn by auto
    then have "s' = ?s" "budget_covers mem' (reserved ?s)" using res True by (auto simp: produce_read_def)
    then show ?thesis using ok True by (simp add: run_ok_def charged_def)
  next
    case False
    have op: "open_ok S r" using ok False by (simp add: run_ok_def)
    then have sok: "sched_ok {} S ?s (rAcked r)" and eof: "\<not> sEof ?s" using reading
      by (auto simp: open_ok_def Let_def)
    then have fin: "\<not> sFinished ?s" using op by (auto simp: open_ok_def Let_def doneLocked_def)
    note spec = produce_read_spec [OF budget.byte_meter_axioms sok ch False eof data cov order.refl, where err = err, unfolded res]
    have s': "sched_ok {} S s' (rAcked r)" "charges_ok s'" "budget_covers mem' (reserved s')"
        "sCfg s' = sCfg ?s" "sClosed s' = sClosed ?s" "sEof s' = (err \<noteq> None)"
        "sFinished s' = (err \<noteq> None \<and> doneLocked s')"
      using spec fin by (elim exE conjE, simp)+
    moreover have "doneLocked s' \<longrightarrow> err \<noteq> None" by (simp add: doneLocked_def s'(6))
    ultimately show ?thesis
      using False ok by (auto simp: run_ok_def open_ok_def charged_def Let_def)
  qed
qed

lemma run_ok_close:
  assumes ok: "run_ok S r" and res: "close_scheduler (rSched r) (rMem r) = Inr (s', mem')"
  shows "run_ok S (r\<lparr>rSched := s', rMem := mem'\<rparr>)"
proof (cases "sClosed (rSched r)")
  case True
  then have "r\<lparr>rSched := s', rMem := mem'\<rparr> = r" using res by (simp add: close_scheduler_def)
  then show ?thesis using ok by simp
next
  case False
  let ?s = "rSched r" and ?m = "if rPhase r = Reading then ChunkSize (sCfg (rSched r)) else 0"
  have ch: "charges_ok ?s" and st: "struct_ok ?s" and cov: "budget_covers (rMem r) (?m + reserved ?s)"
    using ok False by (simp_all add: run_ok_def open_ok_def sched_ok_def Let_def charged_def add.commute)
  have "0 \<le> ?m" using ch by (simp add: charges_ok_def)
  from close_scheduler_spec [OF budget.byte_meter_axioms st ch False cov this] res
  obtain h where s': "s' = ?s\<lparr>sClosed := True, sHeap := h, sPending := [], sLive := []\<rparr>"
      and mem': "budget_covers mem' ?m" by auto
  have ret: "retained s' = {}" by (simp add: s' retained_empty)
  then have "reserved s' = 0" "charges_ok s'" "sClosed s'" "sCfg s' = sCfg ?s"
    using ch by (simp_all add: reserved_def charges_ok_def) (simp_all add: s')
  then have "charged (r\<lparr>rSched := s', rMem := mem'\<rparr>) = ?m" by (simp add: charged_def)
  then show ?thesis using ret mem' \<open>charges_ok s'\<close> \<open>sClosed s'\<close> \<open>sCfg s' = sCfg ?s\<close> ok by (simp add: run_ok_def)
qed

lemma run_ok_step:
  assumes ok: "run_ok S r" and step: "run_step S r r'"
  shows "run_ok S r'"
  using step
proof cases
  case (admit e cancelled mem')
  have cs: "0 < ChunkSize (sCfg (rSched r))" using ok by (simp add: run_ok_def charges_ok_def)
  have "budget_covers mem' (reserved (rSched r) + ChunkSize (sCfg (rSched r)))"
    using admit(5) ok cs admit(2)
    by (auto simp: run_ok_def charged_def Acquire_def acquire_loop_def budget_covers_def split: option.splits if_splits)
  then show ?thesis
    using ok admit by (simp add: run_ok_def open_ok_def charged_def Let_def)
next
  case (admit_failed cancelled err mem')
  let ?s = "rSched r"
  have same: "retained (?s\<lparr>sSrcErr := e, sEof := True\<rparr>) = retained ?s" for e by (simp add: retained_def)
  have "sched_ok {} S (?s\<lparr>sSrcErr := e, sEof := True\<rparr>) (rAcked r)" if "\<not> sClosed ?s" for e
  proof -
    have eq: "?s\<lparr>sSrcErr := e, sEof := True\<rparr> = ?s\<lparr>sEof := True\<rparr>\<lparr>sSrcErr := e\<rparr>" by simp
    have "sched_ok {} S ?s (rAcked r)" using ok that by (simp add: run_ok_def open_ok_def Let_def)
    from sched_ok_eof [OF this] show ?thesis unfolding eq sched_ok_frame .
  qed
  moreover have "reserved (?s\<lparr>sSrcErr := e, sEof := True\<rparr>) = reserved ?s"
      "charges_ok (?s\<lparr>sSrcErr := e, sEof := True\<rparr>) = charges_ok ?s" for e
    by (simp_all add: reserved_def charges_ok_def same)
  ultimately show ?thesis
    using ok admit_failed
    by (cases "sClosed ?s")
      (auto simp: run_ok_def open_ok_def charged_def Let_def produce_memory_failed_def memory_failed_def doneLocked_def)
next
  case (read data err s' mem')
  from run_ok_read [OF ok this(2-4) this(6)] show ?thesis by (simp add: read(1))
next
  case closed_stop
  then show ?thesis using ok by (simp add: run_ok_def charged_def)
next
  case (hand_out e cancelled lane w res s')
  have pre: "\<not> sClosed (rSched r) \<Longrightarrow> sched_ok {} S (rSched r) (rAcked r)"
    using ok by (simp add: run_ok_def open_ok_def Let_def)
  note step = next_round_ok [OF hand_out(2,3), of S "rAcked r", OF pre]
  show ?thesis unfolding hand_out(1) by (rule run_ok_same [OF ok step])
next
  case (complete lane k s' mem')
  from run_ok_complete [OF ok this(2)] show ?thesis by (simp add: complete(1))
next
  case (fail lane k ident)
  show ?thesis unfolding fail by (rule run_ok_same [OF ok same_Fail Fail_ok])
next
  case (wrote lane k ident)
  show ?thesis unfolding wrote by (rule run_ok_same [OF ok same_Wrote Wrote_ok])
next
  case (retire ks lane)
  show ?thesis unfolding retire(1) by (rule run_ok_same [OF ok same_RetireLane RetireLane_ok(1) [OF _ retire(2)]])
next
  case (below ks offset n s')
  then have "s' = snd (ReissueUnacknowledgedBelow ks offset (rSched r))" by simp
  then show ?thesis unfolding below(1)
    by (simp only:) (rule run_ok_same [OF ok same_reissue_below ReissueUnacknowledgedBelow_ok])
next
  case (expired e ks n s')
  then have "s' = snd (ReissueExpired e ks (rSched r))" by simp
  then show ?thesis unfolding expired(1)
    by (simp only:) (rule run_ok_same [OF ok same_ReissueExpired ReissueExpired_ok])
next
  case (close s' mem')
  from run_ok_close [OF ok this(2)] show ?thesis by (simp add: close(1))
next
  case (others mem')
  then show ?thesis using ok
    by (cases "sClosed (rSched r)") (auto simp: run_ok_def open_ok_def charged_def Let_def)
qed

lemma run_reach_ok: "run_reach S r \<Longrightarrow> run_ok S r"
  by (induction rule: run_reach.induct) (auto intro: run_ok_start run_ok_step)

end
