(* ===== verification/StripeClaims.thy ===== *)
theory StripeClaims
  imports StripeSystem
begin

text \<open>What the striping scheduler guarantees in every reachable state, and a run that reaches them.\<close>

section \<open>A run\<close>

definition demo_cfg :: stripe_config where
  "demo_cfg = \<lparr>ChunkSize = 2, LaneWindow = 1, MaxOutstanding = 4, MaxOutstandingBytes = 8, ReliableReissueBurst = 0\<rparr>"

definition demo_env :: env where
  "demo_env = \<lparr>eNow = 0, eAfter = None, eReliable = None, eRetention = None, eWindows = None\<rparr>"

definition demo_stream :: "nat \<Rightarrow> byte" where
  "demo_stream i = word_of_nat (65 + i)"

definition demo_budget :: budget where
  "demo_budget = \<lparr>capacity = 4, used = 2, peak = 2, waiters = 0, changed = 0\<rparr>"

definition after_read :: "bytes \<Rightarrow> read_error option \<Rightarrow> scheduler \<Rightarrow> scheduler" where
  "after_read data err s = (case produce_read data err s None of Inl _ \<Rightarrow> s | Inr (s', _) \<Rightarrow> s')"

definition demo_ready :: scheduler where
  "demo_ready = after_read [65, 66] None (new_scheduler demo_cfg)"

definition demo_sent :: scheduler where
  "demo_sent = snd (next_round demo_env False 1 0 demo_ready)"

definition demo_run :: "scheduler \<Rightarrow> run" where
  "demo_run s = \<lparr>rSched = s, rMem = None, rAcked = {}, rPhase = Idle\<rparr>"

lemma demo_start: "run_reach S (demo_run (new_scheduler demo_cfg))"
  unfolding demo_run_def by (rule run_reach.start) (simp add: budget_covers_def)

text \<open>One turn of the producer without a shared budget.\<close>

lemma demo_produce:
  assumes reach: "run_reach S (demo_run s)" and ready: "\<not> produce_blocked e s" "\<not> sClosed s"
    and data: "data = map S [unat (sNextOffset s)..<unat (sNextOffset s) + length data]"
      "unat (sNextOffset s) + length data < 2 ^ 64" "int (length data) \<le> ChunkSize (sCfg s)"
  shows "run_reach S (demo_run (after_read data None s))"
    and "run_reach S ((demo_run (after_read data (Some SrcEOF) s))\<lparr>rPhase := Stopped\<rparr>)"
proof -
  have "run_step S (demo_run s) ((demo_run s)\<lparr>rMem := None, rPhase := Reading\<rparr>)"
    by (rule run_step.admit [where e = e and cancelled = False]) (use ready in \<open>simp_all add: demo_run_def Acquire_def\<close>)
  from run_reach.step [OF reach this]
  have reading: "run_reach S \<lparr>rSched = s, rMem = None, rAcked = {}, rPhase = Reading\<rparr>"
    by (simp add: demo_run_def)
  have out: "produce_read data err s None = Inr (after_read data err s, None)" for err
    using ready(2) by (auto simp: after_read_def produce_read_def Release_def split: option.splits read_error.splits)
  have "run_step S \<lparr>rSched = s, rMem = None, rAcked = {}, rPhase = Reading\<rparr>
      (\<lparr>rSched = s, rMem = None, rAcked = {}, rPhase = Reading\<rparr>\<lparr>rSched := after_read data err s, rMem := None,
        rPhase := (if err = None \<and> \<not> sClosed s then Idle else Stopped)\<rparr>)" for err
    using run_step.read [of "\<lparr>rSched = s, rMem = None, rAcked = {}, rPhase = Reading\<rparr>" data S err
        "after_read data err s" None] data out
    by simp
  from run_reach.step [OF reading this]
  have turn: "run_reach S \<lparr>rSched = after_read data err s, rMem = None, rAcked = {},
      rPhase = (if err = None then Idle else Stopped)\<rparr>" for err
    using ready(2) by simp
  show "run_reach S (demo_run (after_read data None s))"
    using turn [of None] by (simp add: demo_run_def)
  show "run_reach S ((demo_run (after_read data (Some SrcEOF) s))\<lparr>rPhase := Stopped\<rparr>)"
    using turn [of "Some SrcEOF"] by (simp add: demo_run_def)
qed

lemma demo_ready_reach: "run_reach demo_stream (demo_run demo_ready)"
  unfolding demo_ready_def
proof (rule demo_produce(1) [OF demo_start])
  show "\<not> produce_blocked demo_env (new_scheduler demo_cfg)" "\<not> sClosed (new_scheduler demo_cfg)"
    "unat (sNextOffset (new_scheduler demo_cfg)) + length [65, 66 :: byte] < 2 ^ 64"
    "int (length [65, 66 :: byte]) \<le> ChunkSize (sCfg (new_scheduler demo_cfg))"
    by (simp_all add: new_scheduler_def demo_cfg_def applyDefaults_def stripeDefaultConfig_def Let_def
        produce_blocked_def retainedBytes_def readAheadLimit_def demo_env_def)
  show "[65, 66] = map demo_stream
      [unat (sNextOffset (new_scheduler demo_cfg))..<unat (sNextOffset (new_scheduler demo_cfg)) + length [65, 66 :: byte]]"
    by (simp add: new_scheduler_def demo_stream_def upt_rec)
qed

lemma demo_ready_facts:
  "sPending demo_ready = [0]" "totalBytes (sAcc demo_ready) = 0" "length (cData (chunk_of demo_ready 0)) = 2"
  "\<not> sClosed demo_ready" "sLive demo_ready = []"
  by (simp_all add: demo_ready_def after_read_def produce_read_def new_scheduler_def add_source_def alloc_def)

lemma demo_sent_reach: "run_reach demo_stream (demo_run demo_sent)"
proof -
  have "\<forall>a\<in>set (sPending (rSched (demo_run demo_ready))). unat (totalBytes (sAcc (rSched (demo_run demo_ready)))) +
      length (cData (chunk_of (rSched (demo_run demo_ready)) a)) < 2 ^ 64"
    by (simp add: demo_run_def demo_ready_facts)
  moreover have "next_round demo_env False 1 0 (rSched (demo_run demo_ready))
      = (fst (next_round demo_env False 1 0 demo_ready), demo_sent)"
    by (simp add: demo_run_def demo_sent_def)
  ultimately have "run_step demo_stream (demo_run demo_ready) ((demo_run demo_ready)\<lparr>rSched := demo_sent\<rparr>)"
    by (rule run_step.hand_out)
  from run_reach.step [OF demo_ready_reach this] show ?thesis by (simp add: demo_run_def)
qed

lemma demo_sent_facts:
  "\<not> sClosed demo_sent" "sPending demo_sent = []" "live demo_sent 0 \<noteq> None" "\<not> sFinished demo_sent"
  by (simp_all add: demo_sent_def demo_ready_def after_read_def produce_read_def new_scheduler_def add_source_def
      alloc_def next_round_def takeReadyLocked_def dispatch_def set_urgent_def Let_def hasRoomLocked_def demo_cfg_def
      applyDefaults_def stripeDefaultConfig_def split: option.splits)

lemma open_state:
  assumes "run_reach S r" and "\<not> sClosed (rSched r)"
  shows "sched_ok {} S (rSched r) (rAcked r)" and "charges_ok (rSched r)"
    and "budget_covers (rMem r) (charged r)" and "open_ok S r"
  using run_reach_ok [OF assms(1)] assms(2) by (simp_all add: run_ok_def open_ok_def Let_def)

section \<open>No byte is lost\<close>

text \<open>C8. However reads, hand-outs, acknowledgements, failures and retries interleave: what is completed and
  what the scheduler still holds are exactly the stream read so far, without overlap; every chunk
  held carries the stream's own bytes; and a chunk in flight that no attempt carries any more is
  waiting to be handed out again.\<close>

theorem scheduler_conserves_stream:
  assumes "run_reach S r" and "\<not> sClosed (rSched r)"
  shows "rAcked r \<union> (\<Union>a\<in>retained (rSched r). crange (rSched r) a) = {0..<unat (sNextOffset (rSched r))} \<and>
    rAcked r \<inter> (\<Union>a\<in>retained (rSched r). crange (rSched r) a) = {} \<and>
    pairwise (\<lambda>a b. crange (rSched r) a \<inter> crange (rSched r) b = {}) (retained (rSched r)) \<and>
    (\<forall>a\<in>retained (rSched r). cData (chunk_of (rSched r) a) =
       map S [unat (cOffset (chunk_of (rSched r) a))..<
         unat (cOffset (chunk_of (rSched r) a)) + length (cData (chunk_of (rSched r) a))]) \<and>
    (\<forall>k out. live (rSched r) k = Some out \<and> oAttempts out = [] \<longrightarrow> oChunk out \<in> set (sPending (rSched r)))"
proof -
  have sm: "stream_ok S (rSched r) (rAcked r)" and bs: "busy_ok {} (rSched r)"
    using open_state(1) [OF assms] by (simp_all add: sched_ok_def)
  have "\<forall>k out. live (rSched r) k = Some out \<and> oAttempts out = [] \<longrightarrow> oChunk out \<in> set (sPending (rSched r))"
    using bs by (auto simp: busy_ok_def)
  then show ?thesis
    using stream_data [OF sm] stream_disjoint [OF sm] stream_inter [OF sm] stream_union [OF sm]
    by (simp add: pairwise_def)
qed

theorem scheduler_conserves_stream_witness:
  "rAcked (demo_run demo_sent) \<union> (\<Union>a\<in>retained demo_sent. crange demo_sent a) = {0..<unat (sNextOffset demo_sent)}"
  using scheduler_conserves_stream [OF demo_sent_reach] demo_sent_facts(1) by (simp add: demo_run_def)

text \<open>C9. \<^verbatim>\<open>Done\<close> is signalled only when the source ended and every byte read was completed; and it is
  signalled whenever nothing is left of an ended source, unless the source ended because the shared
  memory refused a chunk.\<close>

theorem scheduler_done_exact:
  assumes "run_reach S r" and "\<not> sClosed (rSched r)"
  shows "(Done (rSched r) \<longrightarrow> sEof (rSched r) \<and> retained (rSched r) = {} \<and>
      rAcked r = {0..<unat (sNextOffset (rSched r))}) \<and>
    (sEof (rSched r) \<and> retained (rSched r) = {} \<longrightarrow> Done (rSched r) \<or>
      (\<exists>err. Err (rSched r) = Some (MemoryError err)))"
proof -
  have "stream_ok S (rSched r) (rAcked r)" using open_state(1) [OF assms] by (simp add: sched_ok_def)
  from stream_union [OF this] have "retained (rSched r) = {} \<Longrightarrow> rAcked r = {0..<unat (sNextOffset (rSched r))}"
    by simp
  then show ?thesis
    using open_state(4) [OF assms] retained_empty [of "rSched r"]
    by (auto simp: open_ok_def Let_def Done_def doneLocked_def memory_failed_def Err_def)
qed

theorem scheduler_done_exact_witness: "\<not> (sEof demo_sent \<and> retained demo_sent = {}) \<and> \<not> Done demo_sent"
  using scheduler_done_exact [OF demo_sent_reach] demo_sent_facts(1,3,4) retained_empty [of demo_sent]
  by (auto simp: demo_run_def Done_def)

section \<open>The lane accounts\<close>

lemma flights_none:
  assumes "\<And>k out. live s k = Some out \<Longrightarrow> \<not> laneHasAttempt out lane" and "struct_ok s"
    and "f \<in># flights_in s (sLive s)"
  shows "fst f \<noteq> lane"
proof -
  obtain k out where "(k, out) \<in> set (sLive s)" "f \<in># att_flights (clen s (oChunk out)) (oAttempts out)"
    using assms(3) flights_in_member by blast
  moreover have "distinct (map fst (sLive s))" using assms(2) by (simp add: struct_ok_def)
  ultimately have "live s k = Some out" "f \<in># att_flights (clen s (oChunk out)) (oAttempts out)"
    by (simp_all add: map_of_is_SomeI)
  from assms(1) [OF this(1)] this(2) show ?thesis
    by (auto simp: att_flights_def laneHasAttempt_def list_ex_iff)
qed

text \<open>The counters the admission test reads are exact: a lane's load is the number of attempts in
  flight on it, its bytes their total size, its queued bytes the size of those its transport has not
  taken, and the flow's total the size of all of them. None ever drifts or wraps.\<close>

theorem scheduler_accounts_exact:
  assumes "run_reach S r" and "\<not> sClosed (rSched r)"
  shows "let s = rSched r; M = flights_in s (sLive s); (load, kept, queued) = LaneOutstanding lane s in
    load = int (size {#f \<in># M. fst f = lane#}) \<and>
    unat kept = (\<Sum>f\<in>#{#f \<in># M. fst f = lane#}. snd (snd f)) \<and>
    unat queued = (\<Sum>f\<in>#{#f \<in># M. fst f = lane \<and> \<not> fst (snd f)#}. snd (snd f)) \<and>
    Pending s = (length (sPending s), totalBytes (sAcc s)) \<and>
    unat (totalBytes (sAcc s)) = (\<Sum>f\<in>#M. snd (snd f))"
proof -
  let ?s = "rSched r" and ?M = "flights_in (rSched r) (sLive (rSched r))"
  have acc: "accounts_ok (sAcc ?s) ?M"
    using open_state(1) [OF assms] by (simp add: sched_ok_def counts_ok_def)
  note lanes = acc [unfolded accounts_ok_def, THEN conjunct1, rule_format, of lane]
    and total = acc [unfolded accounts_ok_def, THEN conjunct2]
  show ?thesis
    unfolding LaneOutstanding_def Pending_def Let_def prod.case
    using lanes total unfolding fl_bytes_def filter_mset_True by (intro conjI refl) (elim conjE, assumption)+
qed

theorem scheduler_accounts_exact_witness:
  "unat (totalBytes (sAcc demo_sent)) = (\<Sum>f\<in>#flights_in demo_sent (sLive demo_sent). snd (snd f))"
  using scheduler_accounts_exact [OF demo_sent_reach, of 1] demo_sent_facts(1)
  by (simp add: demo_run_def Let_def split_beta)

section \<open>What a lane is handed\<close>





text \<open>C11. The scheduler never gets stuck: with something waiting and nothing in flight, whatever lane asks
  next, under whatever byte windows, is handed the oldest waiting chunk.\<close>

theorem scheduler_never_stuck:
  assumes "run_reach S r" and "\<not> sClosed (rSched r)" and "sPending (rSched r) = a # rest"
    and "\<forall>k out. live (rSched r) k = Some out \<longrightarrow> oAttempts out = []"
  shows "\<exists>c. fst (next_round e False lane w (rSched r)) = NextChunk c \<and> cOffset c = cOffset (chunk_of (rSched r) a)"
proof -
  let ?s = "rSched r" and ?M = "flights_in (rSched r) (sLive (rSched r))"
  have ok: "sched_ok {} S ?s (rAcked r)" by (rule open_state(1) [OF assms(1,2)])
  then have st: "struct_ok ?s" and acc: "accounts_ok (sAcc ?s) ?M" by (simp_all add: sched_ok_def counts_ok_def)
  have "f \<notin># ?M" for f
    using flights_none [of ?s "fst f", OF _ st, of f] assms(4) by (auto simp: laneHasAttempt_def)
  then have "?M = {#}" by (metis multiset_nonemptyE)
  with acc have zero: "laneLoad (sAcc ?s) lane = 0" "totalBytes (sAcc ?s) = 0"
    by (simp_all add: accounts_ok_def unat_eq_zero)
  have window: "0 < LaneWindow (sCfg ?s)" using run_reach_ok [OF assms(1)] by (simp add: run_ok_def)
  have "pick_ready e lane w ?s 0 (sPending ?s) = Some 0"
    using assms(3,4) zero(2)
    by (auto simp: hasRoomLocked_def laneHasReliableAttempt_def split: option.splits)
  then have "fst (next_round e False lane w ?s) = NextChunk (fst (dispatch e lane 0 ?s))"
    using assms(2) zero(1) window by (simp add: next_round_def takeReadyLocked_def split: prod.splits)
  moreover have "cOffset (fst (dispatch e lane 0 ?s)) = coff ?s a"
    using dispatch_fields(13) [of e lane 0 ?s "fst (dispatch e lane 0 ?s)" "snd (dispatch e lane 0 ?s)"] assms(3)
    by simp
  ultimately show ?thesis by simp
qed

theorem scheduler_never_stuck_witness:
  "\<exists>c. fst (next_round demo_env False 7 0 demo_ready) = NextChunk c \<and> cOffset c = cOffset (chunk_of demo_ready 0)"
  using scheduler_never_stuck [OF demo_ready_reach, of 0 "[]" demo_env 7 0]
  by (simp add: demo_run_def demo_ready_facts)

section \<open>The shared memory\<close>

text \<open>What the scheduler has charged to the shared memory is \<^verbatim>\<open>ChunkSize\<close> for each data chunk it holds and
  for a read in progress; no completion, read or close ever releases more than that, so none panics,
  whatever the other users of the budget do; and close gives back exactly what was charged.\<close>

theorem scheduler_memory_exact:
  assumes "run_reach S r"
  shows "charged r = ChunkSize (sCfg (rSched r)) * (int (card {a \<in> retained (rSched r).
      cData (chunk_of (rSched r) a) \<noteq> []}) + (if rPhase r = Reading then 1 else 0)) \<and>
    budget_covers (rMem r) (charged r) \<and>
    (\<exists>s' mem'. Complete lane k (rSched r) (rMem r) = Inr (s', mem')) \<and>
    (\<exists>s' mem'. close_scheduler (rSched r) (rMem r) = Inr (s', mem') \<and>
      (\<forall>b b'. rMem r = Some b \<and> mem' = Some b' \<longrightarrow> used b' = used b - reserved (rSched r))) \<and>
    (rPhase r = Reading \<longrightarrow> (\<exists>mem'. Release (rMem r) (ChunkSize (sCfg (rSched r))) = Inr mem'))"
proof -
  let ?s = "rSched r" and ?m = "if rPhase r = Reading then ChunkSize (sCfg (rSched r)) else 0"
  have ok: "run_ok S r" by (rule run_reach_ok [OF assms])
  have ch: "charges_ok ?s" and cov: "budget_covers (rMem r) (?m + reserved ?s)"
    using ok by (simp_all add: run_ok_def charged_def add.commute)
  have m: "0 \<le> ?m" using ch by (simp add: charges_ok_def)
  have 1: "charged r = ChunkSize (sCfg ?s) * (int (card {a \<in> retained ?s. cData (chunk_of ?s a) \<noteq> []}) +
      (if rPhase r = Reading then 1 else 0))"
    using reserved_count [OF ch] by (simp add: charged_def distrib_left)
  have 2: "\<exists>s' mem'. Complete lane k ?s (rMem r) = Inr (s', mem')"
  proof (cases "sClosed ?s")
    case True
    then show ?thesis using closed_Complete(1) ok by (simp add: run_ok_def)
  next
    case False
    show ?thesis
      using Complete_spec [OF budget.byte_meter_axioms open_state(1) [OF assms False] ch cov m] by blast
  qed
  have 3: "\<exists>s' mem'. close_scheduler ?s (rMem r) = Inr (s', mem') \<and>
      (\<forall>b b'. rMem r = Some b \<and> mem' = Some b' \<longrightarrow> used b' = used b - reserved ?s)"
  proof (cases "sClosed ?s")
    case True
    then have "reserved ?s = 0" using ok by (simp add: run_ok_def reserved_def)
    then show ?thesis using True by (auto simp: close_scheduler_def)
  next
    case False
    have st: "struct_ok ?s" using open_state(1) [OF assms False] by (simp add: sched_ok_def)
    let ?free = "case rMem r of None \<Rightarrow> 0 | Some b \<Rightarrow> used b - reserved ?s"
    have "0 \<le> ?free" "budget_exactly (rMem r) (?free + reserved ?s)"
      using cov m by (auto simp: budget_covers_def budget_exactly_def split: option.splits)
    from close_scheduler_spec [OF exact_budget.byte_meter_axioms st ch False this(2,1)] show ?thesis
      by (force simp: budget_exactly_def split: option.splits)
  qed
  have 4: "\<exists>mem'. Release (rMem r) (ChunkSize (sCfg ?s)) = Inr mem'" if "rPhase r = Reading"
    using budget.release_covered [of "rMem r" "reserved ?s" "ChunkSize (sCfg ?s)"] cov that reserved_nonneg [OF ch] ch
    by (auto simp: charges_ok_def add.commute)
  show ?thesis using 1 2 3 4 ok by (simp add: run_ok_def)
qed

theorem scheduler_memory_exact_witness:
  "charged (demo_run demo_sent) = ChunkSize (sCfg demo_sent) * int (card {a \<in> retained demo_sent. cData (chunk_of demo_sent a) \<noteq> []})"
  using scheduler_memory_exact [OF demo_sent_reach] by (simp add: demo_run_def)

section \<open>A refused chunk\<close>

text \<open>A drained scheduler whose producer has stopped stays as it is.\<close>

definition drained :: "run \<Rightarrow> bool" where
  "drained r \<longleftrightarrow> rPhase r = Stopped \<and> retained (rSched r) = {} \<and> \<not> sFinished (rSched r)"

lemma drained_same: "drained r \<Longrightarrow> same_chunks (rSched r) s' \<Longrightarrow> drained (r\<lparr>rSched := s'\<rparr>)"
  by (simp add: drained_def same_chunks_def)

lemma drained_close: "drained r \<Longrightarrow> close_scheduler (rSched r) mem = Inr (s', mem') \<Longrightarrow> drained (r\<lparr>rSched := s', rMem := mem'\<rparr>)"
  using retained_empty [of "rSched r"]
  by (auto simp: drained_def close_scheduler_def seen_chunks_def retained_empty split: if_splits)

lemma drained_step:
  assumes ok: "run_ok S r" and d: "drained r" and step: "run_step S r r'"
  shows "drained r'"
  using step
proof cases
  case (hand_out e cancelled lane w res s')
  have "\<not> sClosed (rSched r) \<Longrightarrow> sched_ok {} S (rSched r) (rAcked r)"
    using ok by (simp add: run_ok_def open_ok_def Let_def)
  from next_round_ok(1) [OF hand_out(2,3) this] show ?thesis
    unfolding hand_out(1) by (rule drained_same [OF d])
next
  case (complete lane k s' mem')
  then show ?thesis using d closed_Complete(1) [of "rSched r" lane k "rMem r"] by (simp add: drained_def)
next
  case (fail lane k ident)
  show ?thesis unfolding fail by (rule drained_same [OF d same_Fail])
next
  case (wrote lane k ident)
  show ?thesis unfolding wrote by (rule drained_same [OF d same_Wrote])
next
  case (retire ks lane)
  show ?thesis unfolding retire(1) by (rule drained_same [OF d same_RetireLane])
next
  case (below ks offset n s')
  then have "s' = snd (ReissueUnacknowledgedBelow ks offset (rSched r))" by simp
  then show ?thesis unfolding below(1) by (simp only:) (rule drained_same [OF d same_reissue_below])
next
  case (expired e ks n s')
  then have "s' = snd (ReissueExpired e ks (rSched r))" by simp
  then show ?thesis unfolding expired(1) by (simp only:) (rule drained_same [OF d same_ReissueExpired])
next
  case (close s' mem')
  then show ?thesis using drained_close [OF d] by simp
qed (use d in \<open>auto simp: drained_def\<close>)

text \<open>C12. When the source ended, nothing is left and \<^verbatim>\<open>Done\<close> is not signalled, the cause is that the shared
  memory refused the producer a chunk; \<^verbatim>\<open>Next\<close> then reports that error to every lane with room, but no
  later step of any goroutine signals \<^verbatim>\<open>Done\<close>.\<close>

theorem memory_refusal_never_signals_done:
  assumes "run_reach S r" and "\<not> sClosed (rSched r)" and "doneLocked (rSched r)" and "\<not> Done (rSched r)"
  shows "\<exists>err. Err (rSched r) = Some (MemoryError err) \<and>
    fst (next_round e False lane w (rSched r)) = (if laneLoad (sAcc (rSched r)) lane < LaneWindow (sCfg (rSched r))
      then NextError (MemoryError err) else NextWait) \<and>
    (\<forall>r'. (run_step S)\<^sup>*\<^sup>* r r' \<longrightarrow> \<not> Done (rSched r'))"
proof -
  have op: "open_ok S r" by (rule open_state(4) [OF assms(1,2)])
  then obtain err where err: "sSrcErr (rSched r) = Some (MemoryError err)"
    using assms(3,4) by (auto simp: open_ok_def Let_def memory_failed_def Done_def)
  have none: "sPending (rSched r) = []" "sLive (rSched r) = []" using assms(3) by (simp_all add: doneLocked_def)
  have d: "drained r"
    using op assms(3,4) by (simp add: drained_def open_ok_def Let_def Done_def doneLocked_def retained_empty)
  have "run_ok S r' \<and> drained r'" if "(run_step S)\<^sup>*\<^sup>* r r'" for r'
    using that
  proof (induction rule: rtranclp_induct)
    case base
    then show ?case using run_reach_ok [OF assms(1)] d by blast
  next
    case (step u v)
    then show ?case using run_ok_step drained_step by blast
  qed
  then have "\<not> Done (rSched r')" if "(run_step S)\<^sup>*\<^sup>* r r'" for r'
    using that by (simp add: drained_def Done_def)
  then show ?thesis
    using err none assms(2)
    by (auto simp: Err_def next_round_def takeReadyLocked_def finishedLocked_def hasUrgentLocked_def)
qed

theorem memory_refusal_never_signals_done_witness:
  "\<exists>r. run_reach demo_stream r \<and> doneLocked (rSched r) \<and> Err (rSched r) = Some (MemoryError TooLarge) \<and>
     (\<forall>r'. (run_step demo_stream)\<^sup>*\<^sup>* r r' \<longrightarrow> \<not> Done (rSched r'))"
proof -
  let ?b = "\<lparr>capacity = 1, used = 0, peak = 0, waiters = 0, changed = 0\<rparr>"
  let ?s = "(demo_run (new_scheduler demo_cfg))\<lparr>rMem := Some ?b\<rparr>"
  let ?r = "?s\<lparr>rSched := produce_memory_failed TooLarge (new_scheduler demo_cfg), rPhase := Stopped\<rparr>"
  have start: "run_reach demo_stream ?s"
    using run_reach.start [of "Some ?b" demo_stream demo_cfg] by (simp add: demo_run_def budget_covers_def budget_ok_def)
  have "run_step demo_stream ?s ?r"
    using run_step.admit_failed [of ?s False TooLarge "Some ?b" demo_stream]
    by (simp add: demo_run_def Acquire_def new_scheduler_def demo_cfg_def applyDefaults_def stripeDefaultConfig_def Let_def)
  then have reach: "run_reach demo_stream ?r" by (rule run_reach.step [OF start])
  have facts: "\<not> sClosed (rSched ?r)" "doneLocked (rSched ?r)" "\<not> Done (rSched ?r)"
      "Err (rSched ?r) = Some (MemoryError TooLarge)"
    by (simp_all add: produce_memory_failed_def new_scheduler_def doneLocked_def Done_def Err_def)
  from memory_refusal_never_signals_done [OF reach facts(1-3)] reach facts show ?thesis by blast
qed

text \<open>
  The marker \<^verbatim>\<open>Final\<close> does not always reach the receiver: a chunk handed out before the end of the source is
  known, lost by its lane and waiting again when \<^verbatim>\<open>markEOFLocked\<close> marks it, is dropped by a late
  acknowledgement of the first attempt. The flow is done and no chunk handed out was final.
\<close>

definition demo_lost :: scheduler where
  "demo_lost = Fail 1 0 1 demo_sent"

definition demo_marked :: scheduler where
  "demo_marked = after_read [] (Some SrcEOF) demo_lost"

lemma sort_search_one: "sort_search (Suc 0) (\<lambda>i. True) = 0" "sort_search 0 P = 0"
  by (simp_all add: sort_search_def search_loop.simps)

lemma final_marker_dropped:
  "(case fst (next_round demo_env False 1 0 demo_ready) of NextChunk c \<Rightarrow> \<not> cFinal c | _ \<Rightarrow> False) \<and>
   map (cFinal \<circ> chunk_of demo_marked) (sPending demo_marked) = [True] \<and>
   (case Complete 1 0 demo_marked None of Inr (s, _) \<Rightarrow> doneLocked s \<and> Done s | Inl _ \<Rightarrow> False)"
  by (simp add: demo_marked_def demo_lost_def demo_sent_def demo_ready_def after_read_def produce_read_def
      new_scheduler_def add_source_def alloc_def next_round_def takeReadyLocked_def dispatch_def set_urgent_def
      Let_def hasRoomLocked_def demo_cfg_def applyDefaults_def stripeDefaultConfig_def size64_def
      Fail_def Complete_def releaseLaneLocked_def releaseQueuedLocked_def chargeLane_def requeueLocked_def
      requeue_if_idle_def count_failure_def set_live_def sort_search_one pending_search_def search_key_def next_attempt_id_def
      markEOFLocked_def chunk_end_def signalIfDoneLocked_def doneLocked_def Done_def removePendingLocked_def
      releaseChunkLocked_def Release_def laneRetransmits_def demo_env_def)

end
