(* ===== verification/Gf256.thy ===== *)
theory Gf256
  imports Prelude
begin

text \<open>
  The field of bytes, \<^verbatim>\<open>queqiao/internal/fec/gf.go\<close>: the tables its \<^verbatim>\<open>init\<close> builds, the inverse and the
  accumulating product, and that the tables make the bytes a field whose addition is exclusive or.
\<close>

section \<open>The tables\<close>

definition primitivePolynomial :: int where "primitivePolynomial = 0x11d"

text \<open>One turn of the first loop of \<^verbatim>\<open>init\<close>: the next power of the generator.\<close>

definition next_power :: "int \<Rightarrow> int" where
  "next_power x =
     (let x' = push_bit 1 x in if and x' 0x100 \<noteq> 0 then xor x' primitivePolynomial else x')"

fun powers :: "nat \<Rightarrow> int \<Rightarrow> byte list" where
  "powers 0 x = []"
| "powers (Suc n) x = word_of_int x # powers n (next_power x)"

text \<open>The second loop fills the table up to 512 entries by repeating it with period 255.\<close>

fun extend :: "nat \<Rightarrow> byte list \<Rightarrow> byte list" where
  "extend 0 es = es"
| "extend (Suc n) es = extend n (es @ [es ! (length es - 255)])"

definition gfExp :: "byte list" where "gfExp = extend 257 (powers 255 1)"

definition gfLog :: "byte \<Rightarrow> nat" where
  "gfLog a = fold (\<lambda>(i, e) l. if e = a then i else l) (zip [0..<255] (powers 255 1)) 0"

definition gfMul :: "byte \<Rightarrow> byte \<Rightarrow> byte" where
  "gfMul a b = (if a = 0 \<or> b = 0 then 0 else gfExp ! (gfLog a + gfLog b))"

definition inv_byte :: "byte \<Rightarrow> byte" where
  "inv_byte a = (if a = 0 then 0 else gfExp ! (255 - gfLog a))"

text \<open>\<^verbatim>\<open>mulSliceXor\<close> with equal lengths: the caller passes slices cut to the same length.\<close>

definition mulSliceXor :: "byte \<Rightarrow> bytes \<Rightarrow> bytes \<Rightarrow> bytes" where
  "mulSliceXor coefficient ins out =
     (if coefficient = 0 then out
      else if coefficient = 1 then map2 (\<lambda>o' i. xor o' i) out ins
      else map2 (\<lambda>o' i. xor o' (gfMul coefficient i)) out ins)"

section \<open>The tables are powers of one linear map\<close>

definition xtime :: "byte \<Rightarrow> byte" where
  "xtime y = xor (push_bit 1 y) (if bit y 7 then 0x1d else 0)"

lemma xtime_xor: "xtime (xor a b) = xor (xtime a) (xtime b)"
  by (simp add: xtime_def push_bit_xor bit_xor_iff xor.assoc xor.left_commute)

lemma xtime_0 [simp]: "xtime 0 = 0"
  by (simp add: xtime_def)

lemma xtime_pow_xor: "(xtime ^^ n) (xor a b) = xor ((xtime ^^ n) a) ((xtime ^^ n) b)"
  by (induction n) (simp_all add: xtime_xor)

lemma xtime_pow_0 [simp]: "(xtime ^^ n) 0 = 0"
  by (induction n) simp_all

text \<open>The first 255 entries, evaluated; they are all the non-zero bytes.\<close>

lemma powers_table:
  "powers 255 1 = [1, 2, 4, 8, 16, 32, 64, 128, 29, 58, 116, 232, 205, 135, 19, 38, 76, 152, 45, 90, 180,
     117, 234, 201, 143, 3, 6, 12, 24, 48, 96, 192, 157, 39, 78, 156, 37, 74, 148, 53, 106,
     212, 181, 119, 238, 193, 159, 35, 70, 140, 5, 10, 20, 40, 80, 160, 93, 186, 105, 210, 185,
     111, 222, 161, 95, 190, 97, 194, 153, 47, 94, 188, 101, 202, 137, 15, 30, 60, 120, 240,
     253, 231, 211, 187, 107, 214, 177, 127, 254, 225, 223, 163, 91, 182, 113, 226, 217, 175,
     67, 134, 17, 34, 68, 136, 13, 26, 52, 104, 208, 189, 103, 206, 129, 31, 62, 124, 248, 237,
     199, 147, 59, 118, 236, 197, 151, 51, 102, 204, 133, 23, 46, 92, 184, 109, 218, 169, 79,
     158, 33, 66, 132, 21, 42, 84, 168, 77, 154, 41, 82, 164, 85, 170, 73, 146, 57, 114, 228,
     213, 183, 115, 230, 209, 191, 99, 198, 145, 63, 126, 252, 229, 215, 179, 123, 246, 241,
     255, 227, 219, 171, 75, 150, 49, 98, 196, 149, 55, 110, 220, 165, 87, 174, 65, 130, 25,
     50, 100, 200, 141, 7, 14, 28, 56, 112, 224, 221, 167, 83, 166, 81, 162, 89, 178, 121, 242,
     249, 239, 195, 155, 43, 86, 172, 69, 138, 9, 18, 36, 72, 144, 61, 122, 244, 245, 247, 243,
     251, 235, 203, 139, 11, 22, 44, 88, 176, 125, 250, 233, 207, 131, 27, 54, 108, 216, 173,
     71, 142]"
  by (simp add: eval_nat_numeral next_power_def primitivePolynomial_def)

lemma length_powers [simp]: "length (powers n x) = n"
  by (induction n arbitrary: x) simp_all

lemma next_power_byte: "(word_of_int (next_power x) :: byte) = xtime (word_of_int x)"
proof -
  have "bit (push_bit 1 x) 8 \<longleftrightarrow> bit x 7" unfolding bit_push_bit_iff by simp
  then have high: "and (push_bit 1 x) 0x100 \<noteq> 0 \<longleftrightarrow> bit x 7"
    using and_exp_eq_0_iff_not_bit [of "push_bit 1 x" 8] by simp
  have shift: "(word_of_int (push_bit 1 x) :: byte) = push_bit 1 (word_of_int x)"
    by (simp add: push_bit_eq_mult)
  have top: "bit (word_of_int x :: byte) 7 \<longleftrightarrow> bit x 7" by (simp add: bit_word_of_int_iff)
  have poly: "(word_of_int primitivePolynomial :: byte) = 0x1d" by (simp add: primitivePolynomial_def)
  have "(word_of_int (xor (push_bit 1 x) primitivePolynomial) :: byte) = xor (push_bit 1 (word_of_int x)) 0x1d"
    unfolding of_int_xor_eq shift poly ..
  then show ?thesis
    unfolding next_power_def Let_def high xtime_def top using shift by simp
qed

lemma powers_nth: "i < n \<Longrightarrow> powers n x ! i = (xtime ^^ i) (word_of_int x)"
proof (induction n arbitrary: x i)
  case 0
  then show ?case by simp
next
  case (Suc n)
  then show ?case
    by (cases i) (simp_all add: next_power_byte funpow_Suc_right del: funpow.simps)
qed

lemma xtime_order_one: "(xtime ^^ 255) 1 = 1"
proof -
  have last: "powers 255 1 ! 254 = 142" unfolding powers_table by simp
  have "(xtime ^^ 254) 1 = 142" using powers_nth [of 254 255 1] last by simp
  then have "(xtime ^^ Suc 254) 1 = xtime 142" by (simp only: funpow.simps comp_apply)
  then show ?thesis by (simp add: xtime_def)
qed

lemma xtime_period: "(xtime ^^ k) 1 = 1 \<Longrightarrow> (xtime ^^ (k * n)) 1 = 1"
  by (induction n) (simp_all add: funpow_add)

lemma xtime_gcd: "(xtime ^^ k) 1 = 1 \<Longrightarrow> 0 < k \<Longrightarrow> (xtime ^^ gcd k 255) 1 = 1"
proof -
  assume k: "(xtime ^^ k) 1 = 1" "0 < k"
  then obtain x y where "k * x = 255 * y + gcd k 255" using bezout_nat [of k 255] by auto
  moreover have "(xtime ^^ (255 * y + gcd k 255)) 1 = (xtime ^^ gcd k 255) 1"
    using xtime_period [OF xtime_order_one, of y] by (simp add: add.commute [of "255 * y"] funpow_add)
  ultimately show "(xtime ^^ gcd k 255) 1 = 1" using xtime_period [OF k(1), of x] by simp
qed

lemma divisor_255: "g dvd 255 \<Longrightarrow> g < 255 \<Longrightarrow> g dvd 85 \<or> g dvd 51 \<or> g dvd (15 :: nat)"
proof -
  assume g: "g dvd 255" "g < 255"
  have "\<forall>g\<in>set [0..<255]. g dvd 255 \<longrightarrow> g dvd 85 \<or> g dvd 51 \<or> g dvd (15 :: nat)"
    by code_simp
  then show ?thesis using g by simp
qed

lemma xtime_no_shorter: "0 < k \<Longrightarrow> k < 255 \<Longrightarrow> (xtime ^^ k) 1 \<noteq> 1"
proof
  assume k: "0 < k" "k < 255" "(xtime ^^ k) 1 = 1"
  let ?g = "gcd k 255"
  have "?g \<le> k" using k(1) by (simp add: dvd_imp_le)
  then have "?g dvd 85 \<or> ?g dvd 51 \<or> ?g dvd 15" using divisor_255 [of ?g] k(2) by auto
  then have "(xtime ^^ 85) 1 = 1 \<or> (xtime ^^ 51) 1 = 1 \<or> (xtime ^^ 15) 1 = 1"
    using xtime_period [OF xtime_gcd [OF k(3,1)]] by (metis dvdE)
  moreover have "powers 255 1 ! 85 \<noteq> 1" "powers 255 1 ! 51 \<noteq> 1" "powers 255 1 ! 15 \<noteq> 1"
    unfolding powers_table by simp_all
  ultimately show False using powers_nth [of _ 255 1] by auto
qed

lemma powers_distinct: "distinct (powers 255 1)"
proof -
  have False if ij: "i < j" "j < 255" "(xtime ^^ i) 1 = (xtime ^^ j) 1" for i j
  proof -
    have "(xtime ^^ (255 - i)) ((xtime ^^ i) 1) = 1"
      using xtime_order_one ij(1,2) by (simp flip: funpow_add [THEN fun_cong, unfolded comp_apply])
    moreover have "255 - i + j = (j - i) + 255" using ij by simp
    then have "(xtime ^^ (255 - i)) ((xtime ^^ j) 1) = (xtime ^^ (j - i)) ((xtime ^^ 255) 1)"
      by (simp only: funpow_add [THEN fun_cong, unfolded comp_apply, symmetric])
    ultimately have "(xtime ^^ (j - i)) 1 = 1" using ij(3) by (simp only: xtime_order_one)
    then show False using xtime_no_shorter [of "j - i"] ij by simp
  qed
  then have "i < 255 \<Longrightarrow> j < 255 \<Longrightarrow> (xtime ^^ i) 1 = (xtime ^^ j) 1 \<Longrightarrow> i = j" for i j
    by (metis nat_neq_iff)
  then show ?thesis by (simp add: distinct_conv_nth powers_nth) blast
qed

lemma set_powers: "set (powers 255 1) = UNIV - {0}"
proof (rule card_subset_eq)
  have "0 \<notin> set (powers 255 1)" unfolding powers_table by simp
  then show "set (powers 255 1) \<subseteq> UNIV - {0}" by blast
  show "card (set (powers 255 1)) = card (UNIV - {0} :: byte set)"
    using distinct_card [OF powers_distinct] by (simp add: card_Diff_subset card_word)
qed simp

lemma power_of: "x \<noteq> 0 \<Longrightarrow> \<exists>i < 255. x = (xtime ^^ i) 1"
proof -
  assume "x \<noteq> 0"
  then have "x \<in> set (powers 255 1)" by (simp add: set_powers)
  then show ?thesis by (auto simp: in_set_conv_nth powers_nth)
qed

lemma xtime_order: "(xtime ^^ 255) x = x"
proof (cases "x = 0")
  case False
  then obtain i where i: "x = (xtime ^^ i) 1" using power_of by blast
  have "(xtime ^^ 255) ((xtime ^^ i) 1) = (xtime ^^ i) ((xtime ^^ 255) 1)"
    by (simp add: add.commute flip: funpow_add [THEN fun_cong, unfolded comp_apply])
  then show ?thesis by (simp add: i xtime_order_one)
qed simp

text \<open>The exponent table and the logarithm in terms of the map.\<close>

lemma extend_nth:
  "255 \<le> length es \<Longrightarrow> \<forall>i < length es. es ! i = (xtime ^^ i) 1 \<Longrightarrow>
     length (extend n es) = length es + n \<and> (\<forall>i < length es + n. extend n es ! i = (xtime ^^ i) 1)"
proof (induction n arbitrary: es)
  case 0
  then show ?case by simp
next
  case (Suc n)
  let ?es = "es @ [es ! (length es - 255)]"
  have "(xtime ^^ (length es)) 1 = (xtime ^^ (length es - 255)) ((xtime ^^ 255) 1)"
    using Suc.prems(1) by (simp flip: funpow_add [THEN fun_cong, unfolded comp_apply])
  also have "\<dots> = es ! (length es - 255)" using Suc.prems by (simp add: xtime_order)
  finally have "\<forall>i < length ?es. ?es ! i = (xtime ^^ i) 1"
    using Suc.prems(2) by (auto simp: nth_append less_Suc_eq)
  from Suc.IH [OF _ this] Suc.prems(1) show ?case by simp
qed

lemma gfExp_spec: "length gfExp = 512" "i < 512 \<Longrightarrow> gfExp ! i = (xtime ^^ i) 1"
  using extend_nth [of "powers 255 1" 257] powers_nth [of _ 255 1] by (simp_all add: gfExp_def)

lemma gfLog_spec:
  assumes "a \<noteq> 0"
  shows "gfLog a < 255" and "(xtime ^^ gfLog a) 1 = a"
proof -
  have found: "(\<exists>i. (i, a) \<in> set ps) \<Longrightarrow> (fold (\<lambda>(i, e) l. if e = a then i else l) ps l, a) \<in> set ps"
    for ps :: "(nat \<times> byte) list" and l
    by (induction ps rule: rev_induct) (simp, force)
  let ?ps = "zip [0..<255] (powers 255 1)"
  have "a \<in> set (powers 255 1)" using assms by (simp add: set_powers)
  then have "\<exists>i. (i, a) \<in> set ?ps" by (auto simp: in_set_conv_nth set_zip)
  from found [OF this, of 0] have "(gfLog a, a) \<in> set ?ps" by (simp add: gfLog_def)
  then have "gfLog a < 255 \<and> powers 255 1 ! gfLog a = a" by (auto simp: set_zip)
  then show "gfLog a < 255" and "(xtime ^^ gfLog a) 1 = a"
    using powers_nth [of "gfLog a" 255 1] by simp_all
qed

section \<open>The field\<close>

text \<open>Multiplying by \<open>a\<close> is a power of the linear map, so it distributes.\<close>

lemma gfMul_power: "a \<noteq> 0 \<Longrightarrow> gfMul a b = (xtime ^^ gfLog a) b"
proof (cases "b = 0")
  case False
  assume a: "a \<noteq> 0"
  have "gfMul a b = (xtime ^^ (gfLog a + gfLog b)) 1"
    using a False gfLog_spec(1) [OF a] gfLog_spec(1) [OF False] by (simp add: gfMul_def gfExp_spec(2))
  then show ?thesis using gfLog_spec(2) [OF False] by (simp add: funpow_add)
qed (simp add: gfMul_def)

lemma gfMul_zero [simp]: "gfMul 0 b = 0" "gfMul a 0 = 0"
  by (simp_all add: gfMul_def)

lemma gfMul_commute: "gfMul a b = gfMul b a"
  by (simp add: gfMul_def add.commute)

lemma gfMul_xor_right: "gfMul a (xor b c) = xor (gfMul a b) (gfMul a c)"
  by (cases "a = 0") (simp_all add: gfMul_power xtime_pow_xor)

lemma gfMul_xor_left: "gfMul (xor a b) c = xor (gfMul a c) (gfMul b c)"
  by (simp add: gfMul_commute [of _ c] gfMul_xor_right)

lemma xtime_pow_eq_0: "(xtime ^^ n) x = 0 \<Longrightarrow> x = 0"
proof -
  assume "(xtime ^^ n) x = 0"
  then have "(xtime ^^ (254 * n)) ((xtime ^^ n) x) = 0" by simp
  then have "(xtime ^^ (254 * n + n)) x = 0" unfolding funpow_add comp_apply .
  then have "(xtime ^^ (255 * n)) x = 0" by simp
  moreover have "(xtime ^^ (255 * n)) x = x" by (induction n) (simp_all add: funpow_add xtime_order)
  ultimately show "x = 0" by simp
qed

lemma gfMul_assoc: "gfMul a (gfMul b c) = gfMul (gfMul a b) c"
proof (cases "a = 0 \<or> b = 0 \<or> c = 0")
  case False
  then have nz: "gfMul a b \<noteq> 0"
    using xtime_pow_eq_0 by (auto simp: gfMul_power)
  have "gfMul a (gfMul b c) = (xtime ^^ gfLog c) (gfMul a b)"
  proof -
    have "(xtime ^^ gfLog a) ((xtime ^^ gfLog b) ((xtime ^^ gfLog c) 1))
        = (xtime ^^ gfLog c) ((xtime ^^ gfLog a) ((xtime ^^ gfLog b) 1))"
      by (simp add: add_ac flip: funpow_add [THEN fun_cong, unfolded comp_apply])
    then show ?thesis using False by (simp add: gfMul_power gfLog_spec(2))
  qed
  also have "\<dots> = gfMul c (gfMul a b)" using False by (simp add: gfMul_power)
  finally show ?thesis by (simp add: gfMul_commute)
qed auto

lemma gfMul_one [simp]: "gfMul 1 b = b" "gfMul b 1 = b"
proof -
  have "gfLog 1 = 0"
    using xtime_no_shorter [of "gfLog 1"] gfLog_spec [of 1] by auto
  then show "gfMul 1 b = b" by (simp add: gfMul_power)
  then show "gfMul b 1 = b" by (simp add: gfMul_commute)
qed

lemma gfMul_inv: "a \<noteq> 0 \<Longrightarrow> gfMul (inv_byte a) a = 1"
proof -
  assume a: "a \<noteq> 0"
  have "gfMul (inv_byte a) a = (xtime ^^ gfLog a) ((xtime ^^ (255 - gfLog a)) 1)"
    using a gfLog_spec(1) [OF a] by (simp add: gfMul_commute [of _ a] gfMul_power inv_byte_def gfExp_spec(2))
  also have "\<dots> = (xtime ^^ 255) 1"
    using gfLog_spec(1) [OF a] by (simp flip: funpow_add [THEN fun_cong, unfolded comp_apply])
  finally show ?thesis by (simp add: xtime_order_one)
qed

lemma gfMul_eq_0 [simp]: "gfMul a b = 0 \<longleftrightarrow> a = 0 \<or> b = 0"
  using xtime_pow_eq_0 by (cases "a = 0") (auto simp: gfMul_power)

lemma inv_byte_nonzero [simp]: "a \<noteq> 0 \<Longrightarrow> inv_byte a \<noteq> 0"
  using gfMul_inv [of a] by auto

lemma mulSliceXor_eq:
  "mulSliceXor c ins out = map2 (\<lambda>o' i. xor o' (gfMul c i)) out (take (length out) ins)"
  if "length ins = length out"
proof -
  have "map2 (\<lambda>o' i. o') out ins = out" using that by (intro nth_equalityI) simp_all
  then show ?thesis using that by (simp add: mulSliceXor_def)
qed

end
