(* ===== verification/Fec.thy ===== *)
theory Fec
  imports Gf256
begin

text \<open>
  The sliding-window erasure code of \<^verbatim>\<open>queqiao/internal/fec/window.go\<close>: its encoder, which builds repair
  symbols over a ring of recent source symbols, and its decoder, one linear system over the bytes.
  Identifiers are 32-bit and compared by wrapping subtraction as in the source. Slices the source
  updates in place are values here: each is owned by one row, slot or call.
\<close>

section \<open>Coefficients and byte vectors\<close>

definition MaxRepairWindow :: nat where [cfg_defs]: "MaxRepairWindow = 256"
definition MinDecoderWidth :: nat where [cfg_defs]: "MinDecoderWidth = 2 * MaxRepairWindow"

definition windowCoefficient :: "u32 \<Rightarrow> nat \<Rightarrow> byte" where
  "windowCoefficient rid index =
     (let x0 = rid * 2654435761 + word_of_nat index * 2246822519;
          x1 = xor x0 (drop_bit 15 x0);
          x2 = x1 * 2654435761;
          x3 = xor x2 (drop_bit 13 x2);
          x4 = x3 * 2246822519;
          x5 = xor x4 (drop_bit 16 x4) in
      ucast (x5 mod 255) + 1)"

definition WindowCoefficients :: "u32 \<Rightarrow> int \<Rightarrow> bytes" where
  "WindowCoefficients rid count =
     (if count \<le> 0 then [] else map (windowCoefficient rid) [0..<nat count])"

definition ensure :: "bytes \<Rightarrow> nat \<Rightarrow> bytes" where
  "ensure xs n = (if length xs \<ge> n then xs else xs @ replicate (n - length xs) 0)"

definition addScaled :: "byte \<Rightarrow> bytes \<Rightarrow> bytes \<Rightarrow> bytes" where
  "addScaled coefficient ins out =
     (let n = min (length ins) (length out) in
      mulSliceXor coefficient (take n ins) (take n out) @ drop n out)"

definition scaleBytes :: "byte \<Rightarrow> bytes \<Rightarrow> bytes" where
  "scaleBytes factor b = (if factor = 1 then b else map (gfMul factor) b)"

text \<open>\<^verbatim>\<open>roundUpPowerOfTwo\<close>; its loop starts at one.\<close>

function pow2_loop :: "nat \<Rightarrow> nat \<Rightarrow> nat" where
  "pow2_loop n sz = (if 0 < sz \<and> sz < n then pow2_loop n (push_bit 1 sz) else sz)"
  by auto
termination by (relation "measure (\<lambda>(n, sz). n - sz)") (auto simp: push_bit_eq_mult)

declare pow2_loop.simps [simp del]

definition roundUpPowerOfTwo :: "int \<Rightarrow> nat" where
  "roundUpPowerOfTwo n = pow2_loop (nat n) 1"

section \<open>The encoder\<close>

record repair =
  rRID :: u32
  rFirst :: u32
  rCount :: int
  rVector :: bytes

record encoder =
  eRing :: "bytes list"
  eMask :: u32
  eFirst :: u32
  eNext :: u32
  eHeld :: nat

definition at_ring :: "encoder \<Rightarrow> u32 \<Rightarrow> nat" where
  "at_ring e esi = unat (and esi (eMask e))"

definition SetCapacity :: "int \<Rightarrow> encoder \<Rightarrow> encoder" where
  "SetCapacity capacity e =
     (let size' = roundUpPowerOfTwo (min capacity (int MaxRepairWindow)) in
      if size' = length (eRing e) then e
      else
        let keep = min (eHeld e) size';
            first = eNext e - word_of_nat keep;
            ring = foldl (\<lambda>ring i. let esi = first + word_of_nat i in
                ring[unat (and esi (word_of_nat (size' - 1))) := eRing e ! at_ring e esi])
              (replicate size' []) [0..<keep] in
        e\<lparr>eRing := ring, eMask := word_of_nat (size' - 1), eFirst := first, eHeld := keep\<rparr>)"

definition NewWindowEncoder :: "int \<Rightarrow> encoder" where
  "NewWindowEncoder capacity =
     SetCapacity capacity \<lparr>eRing = [], eMask = 0, eFirst = 0, eNext = 0, eHeld = 0\<rparr>"

definition Capacity :: "encoder \<Rightarrow> nat" where "Capacity e = length (eRing e)"

definition Held :: "encoder \<Rightarrow> nat" where "Held e = eHeld e"

definition Reset :: "encoder \<Rightarrow> encoder" where
  "Reset e = e\<lparr>eRing := replicate (length (eRing e)) [], eFirst := eNext e, eHeld := 0\<rparr>"

definition Add :: "bytes \<Rightarrow> encoder \<Rightarrow> u32 \<times> encoder" where
  "Add vector e =
     (let esi = eNext e;
          e1 = e\<lparr>eNext := eNext e + 1, eRing := (eRing e)[at_ring e esi := vector]\<rparr> in
      (esi, if eHeld e1 < length (eRing e1) then e1\<lparr>eHeld := eHeld e1 + 1\<rparr>
            else e1\<lparr>eFirst := eFirst e1 + 1\<rparr>))"

definition repair_span :: "int \<Rightarrow> nat \<Rightarrow> nat" where
  "repair_span count held =
     (let c = (if count \<le> 0 \<or> count > int held then held else nat count) in
      if c > MaxRepairWindow then MaxRepairWindow else c)"

definition enc_Repair :: "u32 \<Rightarrow> int \<Rightarrow> encoder \<Rightarrow> repair option" where
  "enc_Repair rid count e =
     (if eHeld e = 0 then None
      else
        let n = repair_span count (eHeld e);
            first = eNext e - word_of_nat n;
            symbol = (\<lambda>i. eRing e ! at_ring e (first + word_of_nat i));
            vlen = foldl (\<lambda>vlen i. if length (symbol i) > vlen then length (symbol i) else vlen) 0 [0..<n];
            vector = foldl (\<lambda>v i. addScaled (windowCoefficient rid i) (symbol i) v)
              (replicate vlen 0) [0..<n] in
        Some \<lparr>rRID = rid, rFirst = first, rCount = int n, rVector = vector\<rparr>)"

section \<open>The decoder\<close>

record decoder_slot =
  slEsi :: u32
  slVector :: bytes
  slLive :: bool
  slKnown :: bool

definition empty_slot :: decoder_slot where
  "empty_slot = \<lparr>slEsi = 0, slVector = [], slLive = False, slKnown = False\<rparr>"

record window_row =
  wPivot :: u32
  wCoef :: bytes
  wData :: bytes

record decoder =
  dSlots :: "decoder_slot list"
  dMask :: u32
  dLo :: u32
  dHigh :: u32
  dOrigin :: u32
  dStarted :: bool
  dRows :: "window_row list"
  dRecovered :: u64
  dLost :: u64
  dDiscarded :: u64

record delivery =
  outRecovered :: "(u32 \<times> bytes) list"
  outLost :: "u32 list"

abbreviation no_delivery :: delivery where
  "no_delivery \<equiv> \<lparr>outRecovered = [], outLost = []\<rparr>"

definition slot_of :: "decoder \<Rightarrow> u32 \<Rightarrow> nat" where
  "slot_of d esi = unat (and esi (dMask d))"

definition held_at :: "decoder \<Rightarrow> u32 \<Rightarrow> bool" where
  "held_at d esi \<longleftrightarrow> (let s = dSlots d ! slot_of d esi in slLive s \<and> slEsi s = esi)"

definition known_at :: "decoder \<Rightarrow> u32 \<Rightarrow> bool" where
  "known_at d esi \<longleftrightarrow> (let s = dSlots d ! slot_of d esi in slLive s \<and> slKnown s \<and> slEsi s = esi)"

text \<open>The identifiers a loop \<^verbatim>\<open>for esi := lo; int32(esi-high) < 0; esi++\<close> visits.\<close>

lemma sint_succ_less: "sint (x :: u32) < 0 \<Longrightarrow> sint x < sint (x + 1)"
proof -
  assume neg: "sint x < 0"
  have "- (2 ^ 31) \<le> sint x" using sint_ge [of x] by simp
  moreover have "x + 1 = word_of_int (sint x + 1)" by simp
  ultimately have "sint (x + 1) = sint x + 1"
    using neg by (simp only: int_word_sint) simp
  then show ?thesis by simp
qed

function ids :: "u32 \<Rightarrow> u32 \<Rightarrow> u32 list" where
  "ids lo high = (if sint (lo - high) < 0 then lo # ids (lo + 1) high else [])"
  by auto
termination
proof (relation "measure (\<lambda>(lo, high). nat (- sint (lo - high)))")
  fix lo high :: u32
  assume less: "sint (lo - high) < 0"
  have "lo + 1 - high = (lo - high) + 1" by simp
  then have "sint (lo - high) < sint (lo + 1 - high)" using sint_succ_less [OF less] by (simp only:)
  then show "((lo + 1, high), (lo, high)) \<in> measure (\<lambda>(lo, high). nat (- sint (lo - high)))"
    using less by simp
qed simp

declare ids.simps [simp del]

text \<open>\<^verbatim>\<open>resize\<close>: the slots and the rows' coefficients re-indexed under a new mask.\<close>

definition resize :: "int \<Rightarrow> decoder \<Rightarrow> decoder" where
  "resize width d =
     (let sz = roundUpPowerOfTwo width; mask = word_of_nat (sz - 1);
          slots = (if dStarted d then foldl (\<lambda>sl esi. if held_at d esi
                then sl[unat (and esi mask) := dSlots d ! slot_of d esi] else sl)
              (replicate sz empty_slot) (ids (dLo d) (dHigh d)) else replicate sz empty_slot);
          rows = map (\<lambda>r. r\<lparr>wCoef := foldl (\<lambda>c esi. c[unat (and esi mask) := wCoef r ! slot_of d esi])
              (replicate sz 0) (ids (dLo d) (dHigh d))\<rparr>) (dRows d);
          d1 = d\<lparr>dSlots := slots, dMask := mask, dRows := rows\<rparr> in
      if dStarted d then d1\<lparr>dLo := dHigh d - word_of_nat sz\<rparr> else d1)"

definition NewWindowDecoder :: decoder where
  "NewWindowDecoder = resize (int MinDecoderWidth)
     \<lparr>dSlots = [], dMask = 0, dLo = 0, dHigh = 0, dOrigin = 0, dStarted = False, dRows = [],
      dRecovered = 0, dLost = 0, dDiscarded = 0\<rparr>"

definition Recovered :: "decoder \<Rightarrow> u64" where "Recovered d = dRecovered d"
definition Lost :: "decoder \<Rightarrow> u64" where "Lost d = dLost d"
definition Discarded :: "decoder \<Rightarrow> u64" where "Discarded d = dDiscarded d"
definition Width :: "decoder \<Rightarrow> nat" where "Width d = length (dSlots d)"

definition evict :: "u32 \<Rightarrow> decoder \<times> delivery \<Rightarrow> decoder \<times> delivery" where
  "evict esi = (\<lambda>(d, out).
     let index = slot_of d esi;
         held = held_at d esi;
         gone = \<not> (held \<and> slKnown (dSlots d ! index)) \<and> \<not> sint (esi - dOrigin d) < 0;
         out' = (if gone then out\<lparr>outLost := outLost out @ [esi]\<rparr> else out);
         d1 = (if gone then d\<lparr>dLost := dLost d + 1\<rparr> else d);
         d2 = (if held then d1\<lparr>dSlots := (dSlots d1)[index := empty_slot]\<rparr> else d1);
         dropped = filter (\<lambda>r. wCoef r ! index \<noteq> 0) (dRows d2) in
     (d2\<lparr>dRows := filter (\<lambda>r. wCoef r ! index = 0) (dRows d2),
        dDiscarded := dDiscarded d2 + word_of_nat (length dropped)\<rparr>, out'))"

text \<open>The loop of \<^verbatim>\<open>admit\<close>; \<open>es\<close> are the identifiers from \<open>dLo\<close> up to \<^verbatim>\<open>walked\<close>.\<close>

fun admit_walk :: "u32 \<Rightarrow> u32 list \<Rightarrow> decoder \<times> delivery \<Rightarrow> decoder \<times> delivery" where
  "admit_walk width [] (d, out) = (d, out)"
| "admit_walk width (e # es) (d, out) =
     (if dHigh d - dLo d > width
      then (case evict (dLo d) (d, out) of (d', out') \<Rightarrow> admit_walk width es (d'\<lparr>dLo := dLo d' + 1\<rparr>, out'))
      else (d, out))"

definition admit :: "u32 \<Rightarrow> decoder \<times> delivery \<Rightarrow> bool \<times> decoder \<times> delivery" where
  "admit esi = (\<lambda>(d, out).
     let width = word_of_nat (length (dSlots d)) in
     if \<not> dStarted d then
       (True, d\<lparr>dStarted := True, dOrigin := esi, dHigh := esi + 1, dLo := esi + 1 - width\<rparr>, out)
     else if sint (esi - dLo d) < 0 then (False, d, out)
     else if \<not> sint (esi - dHigh d) < 0 then
       (case admit_walk width (ids (dLo d) (dLo d + width)) (d\<lparr>dHigh := esi + 1\<rparr>, out) of (d1, out1) \<Rightarrow>
         (True, if dHigh d1 - dLo d1 > width then d1\<lparr>dLo := dHigh d1 - width\<rparr> else d1, out1))
     else (True, d, out))"

definition witness_id :: "u32 \<Rightarrow> decoder \<Rightarrow> decoder" where
  "witness_id esi d =
     (if dStarted d \<and> sint (esi - dOrigin d) < 0 \<and> \<not> sint (esi - dLo d) < 0
      then d\<lparr>dOrigin := esi\<rparr> else d)"

definition leading :: "decoder \<Rightarrow> bytes \<Rightarrow> u32 \<times> nat" where
  "leading d coef =
     foldl (\<lambda>(pivot, count) esi.
       if coef ! slot_of d esi = 0 then (pivot, count)
       else (if count = 0 then esi else pivot, count + 1)) (0, 0) (ids (dLo d) (dHigh d))"

text \<open>One equation with another's multiple added.\<close>

definition reduce_row :: "byte \<Rightarrow> bytes \<Rightarrow> bytes \<Rightarrow> bytes \<times> bytes \<Rightarrow> bytes \<times> bytes" where
  "reduce_row c coef' data' = (\<lambda>(coef, data).
     (mulSliceXor c coef' coef, addScaled c data' (ensure data (length data'))))"

definition substitute :: "u32 \<Rightarrow> bytes \<Rightarrow> bool \<Rightarrow> decoder \<times> delivery \<Rightarrow> decoder \<times> delivery" where
  "substitute esi vector recovered = (\<lambda>(d, out).
     if known_at d esi then (d, out)
     else
       let index = slot_of d esi;
           d1 = d\<lparr>dSlots := (dSlots d)[index := \<lparr>slEsi = esi, slVector = vector, slLive = True, slKnown = True\<rparr>]\<rparr>;
           d2 = (if recovered then d1\<lparr>dRecovered := dRecovered d1 + 1\<rparr> else d1);
           out' = (if recovered then out\<lparr>outRecovered := outRecovered out @ [(esi, vector)]\<rparr> else out) in
       (d2\<lparr>dRows := map (\<lambda>r. if wCoef r ! index = 0 then r
            else r\<lparr>wData := addScaled (wCoef r ! index) vector (ensure (wData r) (length vector)),
                   wCoef := (wCoef r)[index := 0]\<rparr>) (dRows d2)\<rparr>, out'))"

lemma substitute_rows_length: "length (dRows (fst (substitute esi v b (d, out)))) = length (dRows d)"
  by (simp add: substitute_def Let_def)

text \<open>One pass of \<^verbatim>\<open>harvest\<close> from row \<open>i\<close> on, with \<^verbatim>\<open>progress\<close>.\<close>

function harvest_pass :: "nat \<Rightarrow> bool \<Rightarrow> decoder \<times> delivery \<Rightarrow> bool \<times> decoder \<times> delivery" where
  "harvest_pass i progress (d, out) =
     (if i < length (dRows d) then
        let r = dRows d ! i; rest = d\<lparr>dRows := take i (dRows d) @ drop (i + 1) (dRows d)\<rparr> in
        (case leading d (wCoef r) of (pivot, count) \<Rightarrow>
          if count = 0 then harvest_pass i progress (rest, out)
          else if count > 1 then harvest_pass (i + 1) progress (d, out)
          else harvest_pass i True (substitute pivot (wData r) True (rest, out)))
      else (progress, d, out))"
  by pat_completeness auto
termination
proof (relation "measure (\<lambda>(i, progress, d, out). length (dRows d) - i)", goal_cases)
  case 4
  then show ?case
    by (auto simp: substitute_rows_length split_beta)
qed auto

declare harvest_pass.simps [simp del]

lemma harvest_pass_length:
  "harvest_pass i p (d, out) = (p', d', out') \<Longrightarrow>
     length (dRows d') \<le> length (dRows d) \<and> (p' \<and> \<not> p \<longrightarrow> length (dRows d') < length (dRows d))"
proof (induction i p "(d, out)" arbitrary: d out rule: harvest_pass.induct)
  case (1 i p d out)
  show ?case
  proof (cases "i < length (dRows d)")
    case True
    let ?r = "dRows d ! i" and ?rest = "d\<lparr>dRows := take i (dRows d) @ drop (i + 1) (dRows d)\<rparr>"
    obtain pivot count where lead: "leading d (wCoef ?r) = (pivot, count)" by fastforce
    obtain d1 out1 where sub: "substitute pivot (wData ?r) True (?rest, out) = (d1, out1)" by fastforce
    have len: "length (dRows ?rest) < length (dRows d)" "length (dRows d1) = length (dRows ?rest)"
      using True substitute_rows_length [of pivot "wData ?r" True ?rest out] sub by simp_all
    note IH = "1.hyps"(1) [OF True refl refl lead [symmetric]]
      "1.hyps"(2) [OF True refl refl lead [symmetric]]
      "1.hyps"(3) [OF True refl refl lead [symmetric]]
    consider "count = 0" | "count > 1" | "count = 1" by linarith
    then show ?thesis
    proof cases
      case 1
      then show ?thesis using "1.prems" IH(1) len(1) True lead
        by (auto simp: harvest_pass.simps [of i p d])
    next
      case 2
      then show ?thesis using "1.prems" IH(2) True lead
        by (auto simp: harvest_pass.simps [of i p d])
    next
      case 3
      then show ?thesis using "1.prems" IH(3) [OF _ _ sub] len True lead sub
        by (auto simp: harvest_pass.simps [of i p d])
    qed
  next
    case False
    then show ?thesis using "1.prems" by (simp add: harvest_pass.simps [of i p d])
  qed
qed

function harvest :: "decoder \<times> delivery \<Rightarrow> decoder \<times> delivery" where
  "harvest (d, out) =
     (case harvest_pass 0 False (d, out) of
        (progress, d', out') \<Rightarrow> if progress then harvest (d', out') else (d', out'))"
  by pat_completeness auto
termination
  by (relation "measure (\<lambda>(d, out). length (dRows d))") (auto dest: harvest_pass_length [OF sym])

declare harvest.simps [simp del]

text \<open>\<^verbatim>\<open>insert\<close>, up to the reduced equation and from there on.\<close>

definition reduce_known :: "decoder \<Rightarrow> bytes \<times> bytes \<Rightarrow> bytes \<times> bytes" where
  "reduce_known d eq =
     foldl (\<lambda>(coef, data) esi.
       let index = slot_of d esi; s = dSlots d ! index in
       if coef ! index = 0 then (coef, data)
       else if slLive s \<and> slKnown s
       then (coef[index := 0], addScaled (coef ! index) (slVector s) (ensure data (length (slVector s))))
       else (coef, data)) eq (ids (dLo d) (dHigh d))"

definition reduce_rows :: "decoder \<Rightarrow> bytes \<times> bytes \<Rightarrow> bytes \<times> bytes" where
  "reduce_rows d eq =
     foldl (\<lambda>(coef, data) r.
       let c = coef ! slot_of d (wPivot r) in
       if c = 0 then (coef, data) else reduce_row c (wCoef r) (wData r) (coef, data)) eq (dRows d)"

definition normalise :: "byte \<Rightarrow> bytes \<times> bytes \<Rightarrow> bytes \<times> bytes" where
  "normalise c = (\<lambda>(coef, data).
     let f = inv_byte c in if f \<noteq> 1 then (scaleBytes f coef, scaleBytes f data) else (coef, data))"

definition clear_pivot :: "decoder \<Rightarrow> window_row \<Rightarrow> window_row \<Rightarrow> window_row" where
  "clear_pivot d row r =
     (let c = wCoef r ! slot_of d (wPivot row) in
      if c = 0 then r
      else case reduce_row c (wCoef row) (wData row) (wCoef r, wData r) of
        (coef, data) \<Rightarrow> r\<lparr>wCoef := coef, wData := data\<rparr>)"

definition insert_row :: "bytes \<Rightarrow> bytes \<Rightarrow> decoder \<times> delivery \<Rightarrow> decoder \<times> delivery" where
  "insert_row coef0 data0 = (\<lambda>(d, out).
     case reduce_rows d (reduce_known d (coef0, data0)) of (coef, data) \<Rightarrow>
     case leading d coef of (pivot, count) \<Rightarrow>
       if count = 0 then (d\<lparr>dDiscarded := dDiscarded d + 1\<rparr>, out)
       else case normalise (coef ! slot_of d pivot) (coef, data) of (coef', data') \<Rightarrow>
         let row = \<lparr>wPivot = pivot, wCoef = coef', wData = data'\<rparr> in
         harvest (d\<lparr>dRows := map (clear_pivot d row) (dRows d) @ [row]\<rparr>, out))"

definition dec_Source :: "u32 \<Rightarrow> bytes \<Rightarrow> decoder \<Rightarrow> decoder \<times> delivery" where
  "dec_Source esi vector d =
     (case admit esi (d, no_delivery) of (ok, d1, out) \<Rightarrow>
       if \<not> ok then (d1, out)
       else let d2 = witness_id esi d1 in
         if known_at d2 esi then (d2, out)
         else harvest (substitute esi vector False (d2, out)))"

definition repair_coefficients :: "repair \<Rightarrow> decoder \<Rightarrow> bytes" where
  "repair_coefficients r d =
     foldl (\<lambda>coef i. let esi = rFirst r + word_of_nat i in
       if sint (esi - dLo d) < 0 \<or> \<not> sint (esi - dHigh d) < 0 then coef
       else coef[slot_of d esi := windowCoefficient (rRID r) i])
       (replicate (length (dSlots d)) 0) [0..<nat (rCount r)]"

definition dec_Repair :: "repair \<Rightarrow> decoder \<Rightarrow> decoder \<times> delivery" where
  "dec_Repair r d =
     (if rCount r \<le> 0 \<or> rVector r = [] then (d, no_delivery)
      else if rCount r > int MaxRepairWindow then (d\<lparr>dDiscarded := dDiscarded d + 1\<rparr>, no_delivery)
      else case admit (rFirst r + word_of_int (rCount r - 1)) (d, no_delivery) of (ok, d1, out) \<Rightarrow>
        if \<not> ok then (d1, out)
        else let d2 = witness_id (rFirst r) d1 in
          if sint (rFirst r - dLo d2) < 0 then (d2\<lparr>dDiscarded := dDiscarded d2 + 1\<rparr>, out)
          else insert_row (repair_coefficients r d2) (rVector r) (d2, out))"

end
