(* ===== verification/FecLin.thy ===== *)
theory FecLin
  imports Fec
begin

text \<open>
  Vectors over the bytes: zero-extended symbols, linear combinations of them, and the equations
  \<^verbatim>\<open>insert\<close> and \<^verbatim>\<open>substitute\<close> manipulate. Identifiers of a window and their slots.
\<close>

section \<open>Zero-extended symbols\<close>

definition zext :: "bytes \<Rightarrow> nat \<Rightarrow> byte" where
  "zext xs j = (if j < length xs then xs ! j else 0)"

lemma zext_Nil [simp]: "zext [] j = 0"
  by (simp add: zext_def)

lemma zext_replicate [simp]: "zext (replicate n 0) j = 0"
  by (simp add: zext_def)

lemma zext_ensure [simp]: "zext (ensure xs n) j = zext xs j"
  by (simp add: zext_def ensure_def nth_append)

lemma length_ensure [simp]: "length (ensure xs n) = max (length xs) n"
  by (simp add: ensure_def)

lemma length_mulSliceXor: "length ins = length out \<Longrightarrow> length (mulSliceXor c ins out) = length out"
  by (simp add: mulSliceXor_def)

lemma nth_mulSliceXor:
  "length ins = length out \<Longrightarrow> i < length out \<Longrightarrow> mulSliceXor c ins out ! i = xor (out ! i) (gfMul c (ins ! i))"
  by (simp add: mulSliceXor_eq)

lemma zext_addScaled:
  assumes "length ins \<le> length out"
  shows "zext (addScaled c ins out) j = xor (zext out j) (gfMul c (zext ins j))"
proof -
  have n: "min (length ins) (length out) = length ins" using assms by simp
  show ?thesis
    using assms by (auto simp: zext_def addScaled_def Let_def n nth_append nth_mulSliceXor length_mulSliceXor)
qed

lemma length_addScaled [simp]: "length (addScaled c ins out) = length out"
  by (simp add: addScaled_def Let_def length_mulSliceXor)

lemma zext_scale [simp]: "zext (scaleBytes f xs) j = gfMul f (zext xs j)"
  by (simp add: zext_def scaleBytes_def)

lemma nth_scale [simp]: "i < length xs \<Longrightarrow> scaleBytes f xs ! i = gfMul f (xs ! i)"
  by (simp add: scaleBytes_def)

lemma length_scale [simp]: "length (scaleBytes f xs) = length xs"
  by (simp add: scaleBytes_def)

section \<open>Linear combinations\<close>

lemma xor_eq_zero: "xor a b = 0 \<longleftrightarrow> a = (b :: byte)"
proof
  assume "xor a b = 0"
  then have "xor (xor a b) b = xor 0 b" by (simp only:)
  then show "a = b" by (simp add: xor.assoc)
qed simp

fun lin :: "bytes \<Rightarrow> (nat \<Rightarrow> byte) \<Rightarrow> byte" where
  "lin [] f = 0"
| "lin (c # cs) f = xor (gfMul c (f 0)) (lin cs (\<lambda>i. f (Suc i)))"

lemma lin_xor: "length cs = length ds \<Longrightarrow> lin (map2 (\<lambda>a b. xor a b) cs ds) f = xor (lin cs f) (lin ds f)"
proof (induction cs ds arbitrary: f rule: list_induct2)
  case (Cons c cs d ds)
  then show ?case by (simp add: gfMul_xor_left ac_simps)
qed simp

lemma lin_scale: "lin (map (gfMul a) cs) f = gfMul a (lin cs f)"
  by (induction cs arbitrary: f) (simp_all add: gfMul_xor_right gfMul_assoc)

lemma lin_cong: "(\<And>i. i < length cs \<Longrightarrow> cs ! i \<noteq> 0 \<Longrightarrow> f i = g i) \<Longrightarrow> lin cs f = lin cs g"
proof (induction cs arbitrary: f g)
  case (Cons c cs)
  have "lin cs (\<lambda>i. f (Suc i)) = lin cs (\<lambda>i. g (Suc i))"
    by (rule Cons.IH) (use Cons.prems in force)
  moreover have "gfMul c (f 0) = gfMul c (g 0)"
    using Cons.prems [of 0] by (cases "c = 0") simp_all
  ultimately show ?case by simp
qed simp

lemma lin_zero: "(\<And>i. i < length cs \<Longrightarrow> cs ! i = 0) \<Longrightarrow> lin cs f = 0"
proof (induction cs arbitrary: f)
  case (Cons c cs)
  have "lin cs (\<lambda>i. f (Suc i)) = 0" by (rule Cons.IH) (use Cons.prems in force)
  then show ?case using Cons.prems [of 0] by simp
qed simp

lemma lin_update:
  "k < length cs \<Longrightarrow> lin (cs[k := c]) f = xor (lin cs f) (xor (gfMul (cs ! k) (f k)) (gfMul c (f k)))"
proof (induction cs arbitrary: k f)
  case (Cons a cs)
  then show ?case by (cases k) (simp_all add: ac_simps)
qed simp

lemma lin_clear: "k < length cs \<Longrightarrow> lin (cs[k := 0]) f = xor (lin cs f) (gfMul (cs ! k) (f k))"
  by (simp add: lin_update)

lemma lin_mulSliceXor:
  assumes "length ds = length cs"
  shows "lin (mulSliceXor c ds cs) f = xor (lin cs f) (gfMul c (lin ds f))"
proof -
  have "mulSliceXor c ds cs = map2 (\<lambda>a b. xor a b) cs (map (gfMul c) ds)"
    using assms by (intro nth_equalityI) (simp_all add: length_mulSliceXor nth_mulSliceXor)
  then show ?thesis using assms by (simp add: lin_xor lin_scale)
qed

lemma lin_single:
  assumes "k < length cs" and "\<And>i. i < length cs \<Longrightarrow> i \<noteq> k \<Longrightarrow> cs ! i = 0"
  shows "lin cs f = gfMul (cs ! k) (f k)"
proof -
  have "lin (cs[k := 0]) f = 0" using assms by (intro lin_zero) (auto simp: nth_list_update)
  then show ?thesis using assms(1) by (simp add: lin_clear xor_eq_zero)
qed

section \<open>Windows of identifiers\<close>

lemma sint_small: "n < 2 ^ 31 \<Longrightarrow> sint (word_of_nat n :: u32) = int n"
  using int_word_sint [of "int n", where 'a = 32] by simp

lemma sint_minus_small: "0 < n \<Longrightarrow> n \<le> 2 ^ 31 \<Longrightarrow> sint (- word_of_nat n :: u32) = - int n"
  using int_word_sint [of "- int n", where 'a = 32] by (simp add: mod_pos_pos_trivial)

lemma ids_window: "n \<le> 2 ^ 31 \<Longrightarrow> ids lo (lo + word_of_nat n) = map (\<lambda>i. lo + word_of_nat i) [0..<n]"
proof (induction n arbitrary: lo)
  case 0
  then show ?case by (simp add: ids.simps)
next
  case (Suc n)
  have "lo - (lo + word_of_nat (Suc n)) = - word_of_nat (Suc n)" by simp
  then have "sint (lo - (lo + word_of_nat (Suc n))) < 0"
    using sint_minus_small [of "Suc n"] Suc.prems by (simp del: of_nat_Suc)
  moreover have "ids (lo + 1) (lo + word_of_nat (Suc n)) = map (\<lambda>i. lo + 1 + word_of_nat i) [0..<n]"
    using Suc.IH [of "lo + 1"] Suc.prems by (simp add: ac_simps)
  ultimately show ?case
    by (simp add: ids.simps [of lo] map_upt_Suc ac_simps del: upt_Suc)
qed

text \<open>A decoder window is 512 identifiers wide; \<open>cur lo i\<close> is the one in slot \<open>i\<close>.\<close>

definition slot :: "u32 \<Rightarrow> nat" where "slot esi = unat (and esi 511)"

definition in_window :: "u32 \<Rightarrow> u32 \<Rightarrow> bool" where "in_window lo esi \<longleftrightarrow> unat (esi - lo) < 512"

definition cur :: "u32 \<Rightarrow> nat \<Rightarrow> u32" where
  "cur lo i = lo + word_of_nat ((i + 512 - unat lo mod 512) mod 512)"

lemma slot_mod: "slot esi = unat esi mod 512"
proof -
  have "and esi 511 = take_bit 9 esi" by (simp add: take_bit_eq_mask mask_eq_exp_minus_1)
  then show ?thesis by (simp add: slot_def unsigned_take_bit_eq take_bit_eq_mod unat_mod)
qed

lemma slot_less [simp]: "slot esi < 512"
  by (simp add: slot_mod)

lemma slot_add: "slot (lo + word_of_nat k) = (unat lo + k) mod 512"
proof -
  have "unat (lo + word_of_nat k) = (unat lo + k) mod 2 ^ 32"
    by (simp add: unat_word_ariths unat_of_nat take_bit_eq_mod mod_add_right_eq)
  moreover have "(m mod 2 ^ 32) mod 512 = m mod (512 :: nat)" for m
    by (rule mod_mod_cancel) simp
  ultimately show ?thesis by (simp add: slot_mod)
qed

lemma window_offset: "in_window lo esi \<Longrightarrow> \<exists>k < 512. esi = lo + word_of_nat k"
  by (rule exI [of _ "unat (esi - lo)"]) (simp add: in_window_def)

lemma in_window_add [simp]: "k < 512 \<Longrightarrow> in_window lo (lo + word_of_nat k)"
  by (simp add: in_window_def unat_of_nat_small)

lemma slot_cur [simp]: "i < 512 \<Longrightarrow> slot (cur lo i) = i"
proof -
  assume i: "i < 512"
  let ?a = "unat lo mod 512"
  have "(unat lo + (i + 512 - ?a) mod 512) mod 512 = (?a + (i + 512 - ?a)) mod 512"
    by (simp only: mod_add_left_eq mod_add_right_eq)
  also have "?a + (i + 512 - ?a) = i + 512" using mod_less_divisor [of 512 "unat lo"] by linarith
  finally show "slot (cur lo i) = i" using i by (simp add: cur_def slot_add)
qed

lemma in_window_cur [simp]: "in_window lo (cur lo i)"
  by (simp add: cur_def)

lemma slot_inj: "in_window lo a \<Longrightarrow> in_window lo b \<Longrightarrow> slot a = slot b \<Longrightarrow> a = b"
proof -
  assume w: "in_window lo a" "in_window lo b" and s: "slot a = slot b"
  obtain k where k: "k < 512" "a = lo + word_of_nat k" using window_offset [OF w(1)] by blast
  obtain m where m: "m < 512" "b = lo + word_of_nat m" using window_offset [OF w(2)] by blast
  have "(unat lo + k) mod 512 = (unat lo + m) mod 512" using s k(2) m(2) by (simp add: slot_add)
  have shift: "y = x" if "(unat lo + x) mod 512 = (unat lo + y) mod 512" "x \<le> y" "x < 512" "y < 512" for x y
  proof -
    have "512 dvd (unat lo + y) - (unat lo + x)"
      using that(1,2) mod_eq_dvd_iff_nat [of "unat lo + x" "unat lo + y" 512] by simp
    then have "512 dvd y - x" by simp
    then show "y = x" using that(2-4) dvd_imp_le [of 512 "y - x"] by (cases "y - x = 0") simp_all
  qed
  have "k = m" using shift [of k m] shift [of m k] \<open>(unat lo + k) mod 512 = _\<close> k(1) m(1) by linarith
  then show "a = b" using k(2) m(2) by simp
qed

lemma cur_slot: "in_window lo esi \<Longrightarrow> cur lo (slot esi) = esi"
  by (rule slot_inj [OF in_window_cur]) simp_all

text \<open>The equation a row states about the symbols \<open>S\<close>.\<close>

definition holds :: "(u32 \<Rightarrow> bytes) \<Rightarrow> u32 \<Rightarrow> bytes \<times> bytes \<Rightarrow> bool" where
  "holds S lo = (\<lambda>(coef, data). \<forall>j. lin coef (\<lambda>i. zext (S (cur lo i)) j) = zext data j)"

lemma holds_reduce:
  assumes "holds S lo (coef, data)" and "holds S lo (coef', data')" and "length coef = length coef'"
  shows "holds S lo (reduce_row c coef' data' (coef, data))"
  using assms by (simp add: holds_def reduce_row_def lin_mulSliceXor zext_addScaled)

lemma holds_scale: "holds S lo (coef, data) \<Longrightarrow> holds S lo (scaleBytes c coef, scaleBytes c data)"
  by (cases "c = 1") (simp_all add: holds_def scaleBytes_def lin_scale zext_def)

lemma holds_known:
  assumes "holds S lo (coef, data)" and "in_window lo esi" and "length coef = 512"
    and "\<And>j. zext v j = zext (S esi) j"
  shows "holds S lo (coef[slot esi := 0], addScaled (coef ! slot esi) v (ensure data (length v)))"
  using assms by (simp add: holds_def lin_clear zext_addScaled cur_slot)

end
