(* ===== verification/FecInv.thy ===== *)
theory FecInv
  imports FecLin
begin

text \<open>
  The decoder's invariant: every row is a true equation about the symbols sent, in reduced form, and
  every known slot holds the symbol sent. All operations keep it, so what is recovered was sent.
\<close>

section \<open>The invariant\<close>

definition same_symbol :: "bytes \<Rightarrow> bytes \<Rightarrow> bool" where
  "same_symbol v w \<longleftrightarrow> (\<forall>j. zext v j = zext w j)"

definition apart_rows :: "window_row \<Rightarrow> window_row \<Rightarrow> bool" where
  "apart_rows r r' \<longleftrightarrow> wCoef r ! slot (wPivot r') = 0 \<and> wCoef r' ! slot (wPivot r) = 0"

definition row_ok :: "(u32 \<Rightarrow> bytes) \<Rightarrow> u32 \<Rightarrow> window_row \<Rightarrow> bool" where
  "row_ok S lo r \<longleftrightarrow> length (wCoef r) = 512 \<and> in_window lo (wPivot r) \<and>
     wCoef r ! slot (wPivot r) = 1 \<and> holds S lo (wCoef r, wData r)"

definition rows_ok :: "(u32 \<Rightarrow> bytes) \<Rightarrow> u32 \<Rightarrow> window_row list \<Rightarrow> bool" where
  "rows_ok S lo rows \<longleftrightarrow> (\<forall>r\<in>set rows. row_ok S lo r) \<and> sorted_wrt apart_rows rows"

definition slot_ok :: "(u32 \<Rightarrow> bytes) \<Rightarrow> u32 \<Rightarrow> nat \<Rightarrow> decoder_slot \<Rightarrow> bool" where
  "slot_ok S lo i s \<longleftrightarrow> (slLive s \<longrightarrow> slKnown s \<and> slot (slEsi s) = i \<and> in_window lo (slEsi s) \<and>
     same_symbol (slVector s) (S (slEsi s)))"

definition slots_ok :: "(u32 \<Rightarrow> bytes) \<Rightarrow> u32 \<Rightarrow> decoder_slot list \<Rightarrow> bool" where
  "slots_ok S lo sl \<longleftrightarrow> length sl = 512 \<and> (\<forall>i < 512. slot_ok S lo i (sl ! i))"

definition dec_inv :: "(u32 \<Rightarrow> bytes) \<Rightarrow> decoder \<Rightarrow> bool" where
  "dec_inv S d \<longleftrightarrow> dMask d = 511 \<and> slots_ok S (dLo d) (dSlots d) \<and> rows_ok S (dLo d) (dRows d)"

definition dec_ok :: "(u32 \<Rightarrow> bytes) \<Rightarrow> decoder \<Rightarrow> bool" where
  "dec_ok S d \<longleftrightarrow> dec_inv S d \<and>
     (if dStarted d then dHigh d = dLo d + 512 else dRows d = [] \<and> (\<forall>i < 512. \<not> slLive (dSlots d ! i)))"

definition out_ok :: "(u32 \<Rightarrow> bytes) \<Rightarrow> delivery \<Rightarrow> bool" where
  "out_ok S out \<longleftrightarrow> (\<forall>(e, v)\<in>set (outRecovered out). same_symbol v (S e))"

lemma slot_of_slot [simp]: "dMask d = 511 \<Longrightarrow> slot_of d esi = slot esi"
  by (simp add: slot_of_def slot_def)

lemma rows_ok_Nil [simp]: "rows_ok S lo []"
  by (simp add: rows_ok_def)

lemma apart_sym: "apart_rows r r' \<Longrightarrow> apart_rows r' r"
  by (simp add: apart_rows_def)

lemma rows_ok_remove:
  "rows_ok S lo rows \<Longrightarrow> rows_ok S lo (take i rows @ drop (i + 1) rows)"
proof -
  assume ok: "rows_ok S lo rows"
  show ?thesis
  proof (cases "i < length rows")
    case True
    then have eq: "rows = take i rows @ rows ! i # drop (Suc i) rows" by (rule id_take_nth_drop)
    have "sorted_wrt apart_rows (take i rows @ rows ! i # drop (Suc i) rows)"
      using ok eq by (simp add: rows_ok_def)
    then have "sorted_wrt apart_rows (take i rows @ drop (i + 1) rows)"
      by (simp add: sorted_wrt_append)
    then show ?thesis
      using ok by (auto simp: rows_ok_def dest: in_set_takeD in_set_dropD)
  next
    case False
    then show ?thesis using ok by simp
  qed
qed

lemma rows_ok_apart:
  assumes "rows_ok S lo rows" and "i < length rows" and "r \<in> set (take i rows @ drop (i + 1) rows)"
  shows "apart_rows r (rows ! i)"
proof -
  have eq: "rows = take i rows @ rows ! i # drop (Suc i) rows" by (rule id_take_nth_drop [OF assms(2)])
  have "sorted_wrt apart_rows (take i rows @ rows ! i # drop (Suc i) rows)"
    using assms(1) eq by (simp add: rows_ok_def)
  then show ?thesis
    using assms(3) by (auto simp: sorted_wrt_append intro: apart_sym)
qed

section \<open>The unknowns of an equation\<close>

lemma leading_fold:
  "foldl (\<lambda>(p, n) e. if P e then (p, n) else (if n = 0 then e else p, n + 1)) (p0, n0) es =
     (if n0 = 0 \<and> filter (\<lambda>e. \<not> P e) es \<noteq> [] then hd (filter (\<lambda>e. \<not> P e) es) else p0,
      n0 + length (filter (\<lambda>e. \<not> P e) es))"
  by (induction es arbitrary: p0 n0) auto

lemma leading_spec:
  assumes "dMask d = 511" and "dHigh d = dLo d + 512" and "leading d coef = (p, n)"
  shows "n = 0 \<longleftrightarrow> (\<forall>i < 512. coef ! i = 0)"
    and "0 < n \<Longrightarrow> in_window (dLo d) p \<and> coef ! slot p \<noteq> 0"
    and "n = 1 \<Longrightarrow> i < 512 \<Longrightarrow> i \<noteq> slot p \<Longrightarrow> coef ! i = 0"
proof -
  let ?es = "ids (dLo d) (dHigh d)"
  let ?un = "filter (\<lambda>e. coef ! slot e \<noteq> 0) ?es"
  have es: "?es = map (\<lambda>i. dLo d + word_of_nat i) [0..<512]"
    using ids_window [of 512 "dLo d"] assms(2) by simp
  have window: "e \<in> set ?es \<longleftrightarrow> in_window (dLo d) e" for e
    unfolding es by (auto simp: image_iff Bex_def dest: window_offset)
  have res: "(p, n) = (if ?un \<noteq> [] then hd ?un else 0, length ?un)"
    using assms(3) assms(1) leading_fold [of "\<lambda>e. coef ! slot e = 0" 0 0 ?es]
    by (simp add: leading_def)
  have mem: "cur (dLo d) i \<in> set ?un" if "i < 512" "coef ! i \<noteq> 0" for i
    using that by (simp add: window)
  have "n = 0 \<longleftrightarrow> ?un = []" using res by simp
  also have "\<dots> \<longleftrightarrow> (\<forall>i < 512. coef ! i = 0)"
  proof
    assume none: "?un = []"
    show "\<forall>i < 512. coef ! i = 0"
    proof (intro allI impI, rule ccontr)
      fix i assume "i < 512" and "coef ! i \<noteq> 0"
      from mem [OF this] show False unfolding none by simp
    qed
  qed (simp add: filter_empty_conv)
  finally show "n = 0 \<longleftrightarrow> (\<forall>i < 512. coef ! i = 0)" .
  show "in_window (dLo d) p \<and> coef ! slot p \<noteq> 0" if "0 < n"
  proof -
    have "?un \<noteq> []" "p = hd ?un" using res that by (auto split: if_splits)
    then have "p \<in> set ?un" using hd_in_set by metis
    then show ?thesis by (simp add: window)
  qed
  show "coef ! i = 0" if "n = 1" "i < 512" "i \<noteq> slot p"
  proof (rule ccontr)
    assume "coef ! i \<noteq> 0"
    from mem [OF that(2) this] have c: "cur (dLo d) i \<in> set ?un" .
    have "length ?un = Suc 0" "p = hd ?un" using res that(1) by (auto split: if_splits)
    then have "?un = [p]" by (cases ?un) auto
    then have "cur (dLo d) i = p" using c by simp
    then show False using that(2,3) by auto
  qed
qed

section \<open>Substituting a symbol\<close>

lemma known_symbol:
  assumes "dec_inv S d" and "known_at d esi"
  shows "in_window (dLo d) esi" and "same_symbol (slVector (dSlots d ! slot esi)) (S esi)"
proof -
  have "slot_ok S (dLo d) (slot esi) (dSlots d ! slot esi)"
    using assms(1) by (simp add: dec_inv_def slots_ok_def)
  then show "in_window (dLo d) esi" and "same_symbol (slVector (dSlots d ! slot esi)) (S esi)"
    using assms by (auto simp: slot_ok_def known_at_def dec_inv_def Let_def)
qed

lemma substitute_ok:
  assumes inv: "dec_inv S d" and out: "out_ok S out" and w: "in_window (dLo d) esi"
    and sym: "same_symbol v (S esi)" and free: "\<forall>r\<in>set (dRows d). slot (wPivot r) \<noteq> slot esi"
    and res: "substitute esi v recovered (d, out) = (d', out')"
  shows "dec_inv S d'" and "out_ok S out'" and "known_at d' esi"
    and "dLo d' = dLo d \<and> dHigh d' = dHigh d \<and> dStarted d' = dStarted d \<and> outLost out' = outLost out"
proof -
  have mask: "dMask d = 511" and sl: "slots_ok S (dLo d) (dSlots d)" and rows: "rows_ok S (dLo d) (dRows d)"
    using inv by (simp_all add: dec_inv_def)
  let ?f = "\<lambda>r. if wCoef r ! slot esi = 0 then r
    else r\<lparr>wData := addScaled (wCoef r ! slot esi) v (ensure (wData r) (length v)), wCoef := (wCoef r)[slot esi := 0]\<rparr>"
  have row: "row_ok S (dLo d) (?f r) \<and> wPivot (?f r) = wPivot r \<and>
      (\<forall>i < 512. wCoef r ! i = 0 \<longrightarrow> wCoef (?f r) ! i = 0)" if "r \<in> set (dRows d)" for r
  proof -
    have ok: "row_ok S (dLo d) r" using rows that by (simp add: rows_ok_def)
    then have "holds S (dLo d) ((wCoef r)[slot esi := 0], addScaled (wCoef r ! slot esi) v (ensure (wData r) (length v)))"
      using w sym by (intro holds_known) (simp_all add: row_ok_def same_symbol_def)
    then show ?thesis
      using ok free that by (auto simp: row_ok_def nth_list_update)
  qed
  have "rows_ok S (dLo d) (map ?f (dRows d))"
    unfolding rows_ok_def sorted_wrt_map
  proof
    show "\<forall>r\<in>set (map ?f (dRows d)). row_ok S (dLo d) r"
      unfolding set_map using row by (intro ballI, elim imageE) (simp only:)
    show "sorted_wrt (\<lambda>x y. apart_rows (?f x) (?f y)) (dRows d)"
    proof (rule sorted_wrt_mono_rel)
      show "sorted_wrt apart_rows (dRows d)" using rows by (simp add: rows_ok_def)
      fix x y assume x: "x \<in> set (dRows d)" and y: "y \<in> set (dRows d)" and "apart_rows x y"
      then show "apart_rows (?f x) (?f y)"
        using row [OF x] row [OF y] unfolding apart_rows_def by (metis slot_less)
    qed
  qed
  moreover have "slots_ok S (dLo d) ((dSlots d)[slot esi := \<lparr>slEsi = esi, slVector = v, slLive = True, slKnown = True\<rparr>])"
    using sl w sym by (auto simp: slots_ok_def slot_ok_def nth_list_update)
  moreover have "length (dSlots d) = 512" using sl by (simp add: slots_ok_def)
  ultimately show "dec_inv S d'" and "out_ok S out'" and "known_at d' esi"
    and "dLo d' = dLo d \<and> dHigh d' = dHigh d \<and> dStarted d' = dStarted d \<and> outLost out' = outLost out"
    using res inv out sym mask
    by (auto simp: substitute_def Let_def dec_inv_def out_ok_def known_at_def split: if_splits)
qed

section \<open>Harvesting\<close>

lemma dec_inv_rows: "dec_inv S d \<Longrightarrow> rows_ok S (dLo d) rows \<Longrightarrow> dec_inv S (d\<lparr>dRows := rows\<rparr>)"
  by (simp add: dec_inv_def)

text \<open>A row with one unknown left states that unknown.\<close>

lemma single_unknown:
  assumes row: "row_ok S (dLo d) r" and mask: "dMask d = 511" and high: "dHigh d = dLo d + 512"
    and lead: "leading d (wCoef r) = (p, 1)"
  shows "p = wPivot r" and "same_symbol (wData r) (S p)"
proof -
  note spec = leading_spec [OF mask high lead]
  have len: "length (wCoef r) = 512" and piv: "in_window (dLo d) (wPivot r)" "wCoef r ! slot (wPivot r) = 1"
    using row by (simp_all add: row_ok_def)
  have "slot (wPivot r) = slot p" using spec(3) [of "slot (wPivot r)"] piv(2) by fastforce
  then show eq: "p = wPivot r" using slot_inj [OF piv(1), of p] spec(2) by simp
  have "zext (wData r) j = zext (S p) j" for j
  proof -
    have "zext (wData r) j = lin (wCoef r) (\<lambda>i. zext (S (cur (dLo d) i)) j)"
      using row by (simp add: row_ok_def holds_def)
    also have "\<dots> = gfMul (wCoef r ! slot p) (zext (S (cur (dLo d) (slot p))) j)"
      by (rule lin_single) (use spec(3) len in auto)
    also have "\<dots> = zext (S p) j" using piv(1,2) by (simp add: eq cur_slot)
    finally show ?thesis .
  qed
  then show "same_symbol (wData r) (S p)" by (simp add: same_symbol_def)
qed

lemma harvest_pass_ok:
  "harvest_pass i pr (d, out) = (pr', d', out') \<Longrightarrow> dec_inv S d \<Longrightarrow> out_ok S out \<Longrightarrow>
     dHigh d = dLo d + 512 \<Longrightarrow>
     dec_inv S d' \<and> out_ok S out' \<and> dLo d' = dLo d \<and> dHigh d' = dHigh d \<and> dStarted d' = dStarted d \<and>
     outLost out' = outLost out"
proof (induction i pr "(d, out)" arbitrary: d out rule: harvest_pass.induct)
  case (1 i pr d out)
  show ?case
  proof (cases "i < length (dRows d)")
    case True
    let ?r = "dRows d ! i" and ?rest = "d\<lparr>dRows := take i (dRows d) @ drop (i + 1) (dRows d)\<rparr>"
    have mask: "dMask d = 511" and rows: "rows_ok S (dLo d) (dRows d)"
      using "1.prems"(2) by (simp_all add: dec_inv_def)
    have rest: "dec_inv S ?rest" using "1.prems"(2) rows_ok_remove [OF rows] by (simp add: dec_inv_def)
    obtain p n where lead: "leading d (wCoef ?r) = (p, n)" by fastforce
    obtain d1 out1 where sub: "substitute p (wData ?r) True (?rest, out) = (d1, out1)" by fastforce
    note IH = "1.hyps"(1) [OF True refl refl lead [symmetric]]
      "1.hyps"(2) [OF True refl refl lead [symmetric]]
      "1.hyps"(3) [OF True refl refl lead [symmetric]]
    consider "n = 0" | "n > 1" | "n = 1" by linarith
    then show ?thesis
    proof cases
      case 1
      then have "harvest_pass i pr (?rest, out) = (pr', d', out')"
        using "1.prems"(1) True lead by (simp add: harvest_pass.simps [of i pr d])
      from IH(1) [OF 1 this] show ?thesis using rest "1.prems"(3,4) by simp
    next
      case 2
      then have "harvest_pass (i + 1) pr (d, out) = (pr', d', out')"
        using "1.prems"(1) True lead by (simp add: harvest_pass.simps [of i pr d])
      from IH(2) [OF _ 2 this] show ?thesis using 2 "1.prems"(2-4) by simp
    next
      case 3
      then have pass: "harvest_pass i True (d1, out1) = (pr', d', out')"
        using "1.prems"(1) True lead sub by (simp add: harvest_pass.simps [of i pr d])
      have row: "row_ok S (dLo d) ?r" using rows True by (simp add: rows_ok_def)
      note found = single_unknown [OF row mask "1.prems"(4) lead [unfolded 3]]
      have w: "in_window (dLo d) p" using row found(1) by (simp add: row_ok_def)
      have "slot (wPivot r) \<noteq> slot p" if r: "r \<in> set (dRows ?rest)" for r
      proof -
        have "apart_rows r ?r" using rows_ok_apart [OF rows True, of r] r by simp
        moreover have "row_ok S (dLo d) r" using rest r by (simp add: dec_inv_def rows_ok_def)
        ultimately show ?thesis using found(1) by (auto simp: apart_rows_def row_ok_def)
      qed
      with substitute_ok [OF rest "1.prems"(3) _ found(2) _ sub] w
      have step: "dec_inv S d1" "out_ok S out1" "dLo d1 = dLo d" "dHigh d1 = dHigh d" "dStarted d1 = dStarted d"
          "outLost out1 = outLost out" by auto
      from IH(3) [OF _ _ sub pass step(1,2)] show ?thesis using 3 step "1.prems"(4) by simp
    qed
  next
    case False
    then show ?thesis using "1.prems" by (simp add: harvest_pass.simps [of i pr d])
  qed
qed

lemma harvest_ok:
  "harvest (d, out) = (d', out') \<Longrightarrow> dec_inv S d \<Longrightarrow> out_ok S out \<Longrightarrow> dHigh d = dLo d + 512 \<Longrightarrow>
     dec_inv S d' \<and> out_ok S out' \<and> dLo d' = dLo d \<and> dHigh d' = dHigh d \<and> dStarted d' = dStarted d \<and>
     outLost out' = outLost out"
proof (induction "(d, out)" arbitrary: d out rule: harvest.induct)
  case (1 d out)
  obtain pr d1 out1 where pass: "harvest_pass 0 False (d, out) = (pr, d1, out1)" by (metis surj_pair)
  note step = harvest_pass_ok [OF pass "1.prems"(2-4)]
  show ?case
  proof (cases pr)
    case True
    then have "harvest (d1, out1) = (d', out')"
      using "1.prems"(1) pass by (simp add: harvest.simps [of d])
    from "1.hyps" [OF pass [symmetric] refl True this] show ?thesis using step "1.prems"(4) by simp
  next
    case False
    then show ?thesis using "1.prems"(1) pass step by (simp add: harvest.simps [of d])
  qed
qed

section \<open>Inserting an equation\<close>

lemma reduce_known_ok:
  assumes inv: "dec_inv S d" and len: "length coef = 512" and eq: "holds S (dLo d) (coef, data)"
    and res: "reduce_known d (coef, data) = (coef', data')"
  shows "length coef' = 512 \<and> holds S (dLo d) (coef', data')"
proof -
  have mask: "dMask d = 511" using inv by (simp add: dec_inv_def)
  let ?f = "\<lambda>(coef, data) esi. let index = slot_of d esi; s = dSlots d ! index in
       if coef ! index = 0 then (coef, data)
       else if slLive s \<and> slKnown s
       then (coef[index := 0], addScaled (coef ! index) (slVector s) (ensure data (length (slVector s))))
       else (coef, data)"
  have step: "length (fst (?f (coef, data) e)) = 512 \<and> holds S (dLo d) (?f (coef, data) e)"
    if "length coef = 512" "holds S (dLo d) (coef, data)" for coef data e
  proof -
    let ?s = "dSlots d ! slot e"
    have s: "slot_ok S (dLo d) (slot e) ?s" using inv by (simp add: dec_inv_def slots_ok_def)
    have "holds S (dLo d) (coef[slot e := 0], addScaled (coef ! slot e) (slVector ?s) (ensure data (length (slVector ?s))))"
      if "slLive ?s"
      using holds_known [OF \<open>holds S (dLo d) (coef, data)\<close>, of "slEsi ?s" "slVector ?s"] s that \<open>length coef = 512\<close>
      by (simp add: slot_ok_def same_symbol_def)
    then show ?thesis using that mask by (simp add: Let_def)
  qed
  have "length (fst (foldl ?f (coef, data) es)) = 512 \<and> holds S (dLo d) (foldl ?f (coef, data) es)"
    if "length coef = 512" "holds S (dLo d) (coef, data)" for coef data es
    using that
  proof (induction es arbitrary: coef data)
    case (Cons e es)
    obtain c1 d1 where one: "?f (coef, data) e = (c1, d1)" by fastforce
    then show ?case using step [OF Cons.prems, of e] Cons.IH [of c1 d1] by simp
  qed simp
  from this [OF len eq, of "ids (dLo d) (dHigh d)"] show ?thesis
    using res by (simp add: reduce_known_def)
qed

lemma reduce_row_nth:
  "length coef = length coef' \<Longrightarrow> i < length coef \<Longrightarrow>
     fst (reduce_row c coef' data' (coef, data)) ! i = xor (coef ! i) (gfMul c (coef' ! i))"
  by (simp add: reduce_row_def nth_mulSliceXor)

lemma reduce_row_length:
  "length coef = length coef' \<Longrightarrow> length (fst (reduce_row c coef' data' (coef, data))) = length coef"
  by (simp add: reduce_row_def length_mulSliceXor)

text \<open>Afterwards the equation mentions no pivot of a held row.\<close>

lemma reduce_rows_ok:
  assumes rows: "rows_ok S lo rows" and mask: "dMask d = 511"
  shows "length coef = 512 \<Longrightarrow> holds S lo (coef, data) \<Longrightarrow>
     foldl (\<lambda>(coef, data) r. let c = coef ! slot_of d (wPivot r) in
       if c = 0 then (coef, data) else reduce_row c (wCoef r) (wData r) (coef, data)) (coef, data) rows = (coef', data') \<Longrightarrow>
     length coef' = 512 \<and> holds S lo (coef', data') \<and> (\<forall>r\<in>set rows. coef' ! slot (wPivot r) = 0) \<and>
     (\<forall>i < 512. coef ! i = 0 \<and> (\<forall>r\<in>set rows. wCoef r ! i = 0) \<longrightarrow> coef' ! i = 0)"
  using rows
proof (induction rows arbitrary: coef data)
  case Nil
  then show ?case by simp
next
  case (Cons r rows)
  let ?c = "coef ! slot (wPivot r)"
  obtain c1 d1 where one: "(if ?c = 0 then (coef, data) else reduce_row ?c (wCoef r) (wData r) (coef, data)) = (c1, d1)"
    by fastforce
  have r: "row_ok S lo r" and apart: "\<forall>s\<in>set rows. apart_rows r s" and rest: "rows_ok S lo rows"
    using Cons.prems(4) by (simp_all add: rows_ok_def)
  have len: "length coef = length (wCoef r)" using r Cons.prems(1) by (simp add: row_ok_def)
  have c1: "c1 ! i = (if ?c = 0 then coef ! i else xor (coef ! i) (gfMul ?c (wCoef r ! i)))" if "i < 512" for i
    using one reduce_row_nth [OF len, of i ?c "wData r" data] that Cons.prems(1) by (auto split: if_splits)
  have l1: "length c1 = 512"
    using one reduce_row_length [OF len, of ?c "wData r" data] Cons.prems(1) by (auto split: if_splits)
  have h1: "holds S lo (c1, d1)"
    using one holds_reduce [OF Cons.prems(2) _ len, of "wData r" ?c] r Cons.prems(2)
    by (auto simp: row_ok_def split: if_splits)
  have "foldl (\<lambda>(coef, data) r. let c = coef ! slot_of d (wPivot r) in
       if c = 0 then (coef, data) else reduce_row c (wCoef r) (wData r) (coef, data)) (c1, d1) rows = (coef', data')"
    using Cons.prems(3) mask one by (simp add: Let_def)
  note IH = Cons.IH [OF l1 h1 this rest]
  have "c1 ! slot (wPivot r) = 0"
    using c1 [of "slot (wPivot r)"] r by (simp add: row_ok_def)
  moreover have "\<forall>s\<in>set rows. wCoef s ! slot (wPivot r) = 0" using apart by (simp add: apart_rows_def)
  ultimately have "coef' ! slot (wPivot r) = 0" using IH by simp
  moreover have "coef' ! i = 0" if "i < 512" "coef ! i = 0" "\<forall>s\<in>set (r # rows). wCoef s ! i = 0" for i
    using IH c1 [OF that(1)] that by simp
  ultimately show ?case using IH by simp
qed

lemma clear_pivot_ok:
  assumes r: "row_ok S lo r" and row: "row_ok S lo row" and mask: "dMask d = 511"
    and zero: "wCoef row ! slot (wPivot r) = 0"
  shows "row_ok S lo (clear_pivot d row r)" and "wPivot (clear_pivot d row r) = wPivot r"
    and "apart_rows (clear_pivot d row r) row"
    and "i < 512 \<Longrightarrow> wCoef row ! i = 0 \<Longrightarrow> wCoef (clear_pivot d row r) ! i = wCoef r ! i"
proof -
  let ?c = "wCoef r ! slot (wPivot row)"
  have len: "length (wCoef r) = length (wCoef row)" and l: "length (wCoef r) = 512"
    using r row by (simp_all add: row_ok_def)
  obtain coef data where eq: "reduce_row ?c (wCoef row) (wData row) (wCoef r, wData r) = (coef, data)" by fastforce
  have new: "clear_pivot d row r = (if ?c = 0 then r else r\<lparr>wCoef := coef, wData := data\<rparr>)"
    using eq mask by (simp add: clear_pivot_def)
  have nth: "coef ! i = xor (wCoef r ! i) (gfMul ?c (wCoef row ! i))" if "i < 512" for i
    using reduce_row_nth [OF len, of i ?c "wData row" "wData r"] eq that l by simp
  have "length coef = 512" using reduce_row_length [OF len, of ?c "wData row" "wData r"] eq l by simp
  moreover have "holds S lo (coef, data)"
    using holds_reduce [of S lo "wCoef r" "wData r" "wCoef row" "wData row" ?c] eq r row len by (simp add: row_ok_def)
  ultimately show "row_ok S lo (clear_pivot d row r)"
    using r zero nth by (simp add: new row_ok_def)
  show piv: "wPivot (clear_pivot d row r) = wPivot r" by (simp add: new)
  have "coef ! slot (wPivot row) = 0" using nth [of "slot (wPivot row)"] row by (simp add: row_ok_def)
  then show "apart_rows (clear_pivot d row r) row"
    using zero piv by (simp add: apart_rows_def new)
  show "wCoef (clear_pivot d row r) ! i = wCoef r ! i" if "i < 512" "wCoef row ! i = 0"
    using nth [OF that(1)] that(2) by (simp add: new)
qed

lemma insert_row_ok:
  assumes inv: "dec_inv S d" and out: "out_ok S out" and high: "dHigh d = dLo d + 512"
    and len: "length coef0 = 512" and eq: "holds S (dLo d) (coef0, data0)"
    and res: "insert_row coef0 data0 (d, out) = (d', out')"
  shows "dec_inv S d' \<and> out_ok S out' \<and> dLo d' = dLo d \<and> dHigh d' = dHigh d \<and> dStarted d' = dStarted d \<and>
    outLost out' = outLost out"
proof -
  have mask: "dMask d = 511" and rows: "rows_ok S (dLo d) (dRows d)" using inv by (simp_all add: dec_inv_def)
  obtain c1 d1 where known: "reduce_known d (coef0, data0) = (c1, d1)" by fastforce
  note k = reduce_known_ok [OF inv len eq known]
  obtain coef data where red: "reduce_rows d (c1, d1) = (coef, data)" by fastforce
  have r: "length coef = 512" "holds S (dLo d) (coef, data)" "\<forall>r\<in>set (dRows d). coef ! slot (wPivot r) = 0"
    using reduce_rows_ok [OF rows mask, of c1 d1 coef data] k red by (simp_all add: reduce_rows_def)
  obtain p n where lead: "leading d coef = (p, n)" by fastforce
  note spec = leading_spec [OF mask high lead]
  show ?thesis
  proof (cases "n = 0")
    case True
    then show ?thesis using res known red lead inv out by (auto simp: insert_row_def dec_inv_def)
  next
    case False
    let ?c = "coef ! slot p"
    have p: "in_window (dLo d) p" "?c \<noteq> 0" using spec(2) False by simp_all
    have norm: "normalise ?c (coef, data) = (scaleBytes (inv_byte ?c) coef, scaleBytes (inv_byte ?c) data)"
      by (simp add: normalise_def Let_def scaleBytes_def)
    let ?row = "\<lparr>wPivot = p, wCoef = scaleBytes (inv_byte ?c) coef, wData = scaleBytes (inv_byte ?c) data\<rparr>"
    have row: "row_ok S (dLo d) ?row"
      using r(1,2) p holds_scale [OF r(2), of "inv_byte ?c"] by (simp add: row_ok_def gfMul_inv)
    have zero: "\<forall>r\<in>set (dRows d). wCoef ?row ! slot (wPivot r) = 0" using r(1,3) by simp
    let ?rows = "map (clear_pivot d ?row) (dRows d) @ [?row]"
    have each: "r \<in> set (dRows d) \<Longrightarrow> row_ok S (dLo d) r \<and> wCoef ?row ! slot (wPivot r) = 0" for r
      using rows zero by (simp add: rows_ok_def)
    have "sorted_wrt apart_rows (map (clear_pivot d ?row) (dRows d))"
      unfolding sorted_wrt_map
    proof (rule sorted_wrt_mono_rel)
      show "sorted_wrt apart_rows (dRows d)" using rows by (simp add: rows_ok_def)
      fix x y assume x: "x \<in> set (dRows d)" and y: "y \<in> set (dRows d)" and "apart_rows x y"
      then show "apart_rows (clear_pivot d ?row x) (clear_pivot d ?row y)"
        using clear_pivot_ok(2,4) [OF _ row mask, of x] clear_pivot_ok(2,4) [OF _ row mask, of y]
          each [OF x] each [OF y] by (simp add: apart_rows_def)
    qed
    moreover have "\<forall>r\<in>set ?rows. row_ok S (dLo d) r"
      using row each clear_pivot_ok(1) [OF _ row mask] by auto
    moreover have "\<forall>r\<in>set (dRows d). apart_rows (clear_pivot d ?row r) ?row"
      using each clear_pivot_ok(3) [OF _ row mask] by blast
    ultimately have "rows_ok S (dLo d) ?rows"
      by (simp add: rows_ok_def sorted_wrt_append)
    then have inv': "dec_inv S (d\<lparr>dRows := ?rows\<rparr>)" by (rule dec_inv_rows [OF inv])
    have "harvest (d\<lparr>dRows := ?rows\<rparr>, out) = (d', out')"
      using res known red lead False norm by (simp add: insert_row_def Let_def mask)
    from harvest_ok [OF this inv' out] show ?thesis using high by simp
  qed
qed

end
