(* ===== verification/FecAdmit.thy ===== *)
theory FecAdmit
  imports FecInv
begin

text \<open>Sliding the decoder's window: what leaves it, and that the invariant survives.\<close>

section \<open>Offsets\<close>

lemma sint_neg_iff: "sint (x :: u32) < 0 \<longleftrightarrow> 2 ^ 31 \<le> unat x"
proof (cases "unat x < 2 ^ 31")
  case True
  then show ?thesis using sint_small [of "unat x"] by simp
next
  case False
  obtain n where n: "unat x + n = 2 ^ 32"
    using less_imp_le [OF unat_u32_lt [of x]] by (auto simp: le_iff_add dest: sym)
  then have "word_of_nat (unat x + n) = (0 :: u32)" by simp
  then have "x = - word_of_nat n" by (simp add: eq_neg_iff_add_eq_0)
  moreover have "0 < n" using n unat_u32_lt [of x] by (cases n) simp_all
  moreover have "n \<le> 2 ^ 31" using n False by simp
  ultimately have "sint x = - int n" using sint_minus_small [of n] by simp
  then show ?thesis using False \<open>0 < n\<close> by simp
qed

lemma in_window_iff:
  assumes "high = lo + 512"
  shows "in_window lo esi \<longleftrightarrow> \<not> sint (esi - lo) < 0 \<and> sint (esi - high) < 0"
proof -
  let ?x = "esi - lo"
  have x: "esi - high = ?x - 512" using assms by simp
  show ?thesis
  proof (cases "unat ?x < 512")
    case True
    have "unat (?x - 512) = 2 ^ 32 - (512 - unat ?x)"
      using True by (simp add: unat_sub_if_size word_le_nat_alt word_size)
    then show ?thesis using True by (simp add: in_window_def sint_neg_iff x)
  next
    case False
    then have "unat (?x - 512) = unat ?x - 512" by (simp add: unat_sub word_le_nat_alt)
    then show ?thesis using False unat_u32_lt [of ?x] by (auto simp: in_window_def sint_neg_iff x)
  qed
qed

lemma in_window_succ:
  assumes "in_window lo e" and "e \<noteq> lo"
  shows "in_window (lo + 1) e"
proof -
  obtain k where k: "k < 512" "e = lo + word_of_nat k" using window_offset [OF assms(1)] by blast
  then obtain m where "k = Suc m" using assms(2) by (cases k) auto
  then have "e = lo + 1 + word_of_nat m" "m < 512" using k by simp_all
  then show ?thesis by (simp only: in_window_add)
qed

lemma cur_succ:
  assumes "i < 512" and "i \<noteq> slot lo"
  shows "cur (lo + 1) i = cur lo i"
proof -
  have "cur lo i \<noteq> lo" using slot_cur [OF assms(1), of lo] assms(2) by metis
  then have "in_window (lo + 1) (cur lo i)" by (rule in_window_succ [OF in_window_cur])
  from cur_slot [OF this] show ?thesis using assms(1) by simp
qed

section \<open>Evicting one identifier\<close>

lemma evict_fields:
  assumes "evict esi (d, out) = (d', out')"
  shows "dMask d' = dMask d" "dLo d' = dLo d" "dHigh d' = dHigh d" "dStarted d' = dStarted d"
    and "outRecovered out' = outRecovered out" "dOrigin d' = dOrigin d"
    and "dSlots d' = (if held_at d esi then (dSlots d)[slot_of d esi := empty_slot] else dSlots d)"
    and "dRows d' = filter (\<lambda>r. wCoef r ! slot_of d esi = 0) (dRows d)"
    and "outLost out' = (if \<not> known_at d esi \<and> \<not> sint (esi - dOrigin d) < 0 then outLost out @ [esi] else outLost out)"
proof -
  have d': "d' = fst (evict esi (d, out))" and out': "out' = snd (evict esi (d, out))" using assms by simp_all
  show "dMask d' = dMask d" "dLo d' = dLo d" "dHigh d' = dHigh d" "dStarted d' = dStarted d" "dOrigin d' = dOrigin d"
    "outRecovered out' = outRecovered out"
    unfolding d' out' by (simp_all add: evict_def Let_def)
  show "dSlots d' = (if held_at d esi then (dSlots d)[slot_of d esi := empty_slot] else dSlots d)"
    "dRows d' = filter (\<lambda>r. wCoef r ! slot_of d esi = 0) (dRows d)"
    unfolding d' by (simp_all add: evict_def Let_def)
  show "outLost out' = (if \<not> known_at d esi \<and> \<not> sint (esi - dOrigin d) < 0 then outLost out @ [esi] else outLost out)"
    unfolding out' by (simp add: evict_def Let_def held_at_def known_at_def conj_ac)
qed

lemma evict_inv:
  assumes inv: "dec_inv S d" and res: "evict (dLo d) (d, out) = (d', out')"
  shows "dec_inv S (d'\<lparr>dLo := dLo d + 1\<rparr>)"
proof -
  have mask: "dMask d = 511" and sl: "slots_ok S (dLo d) (dSlots d)" and rows: "rows_ok S (dLo d) (dRows d)"
    using inv by (simp_all add: dec_inv_def)
  note f = evict_fields [OF res, unfolded slot_of_slot [OF mask]]
  have "row_ok S (dLo d + 1) r" if r: "r \<in> set (dRows d)" "wCoef r ! slot (dLo d) = 0" for r
  proof -
    have ok: "row_ok S (dLo d) r" using rows r(1) by (simp add: rows_ok_def)
    have "wPivot r \<noteq> dLo d" using ok r(2) by (auto simp: row_ok_def)
    then have piv: "in_window (dLo d + 1) (wPivot r)" using ok by (simp add: row_ok_def in_window_succ)
    have "lin (wCoef r) (\<lambda>i. zext (S (cur (dLo d + 1) i)) j) = lin (wCoef r) (\<lambda>i. zext (S (cur (dLo d) i)) j)" for j
      by (rule lin_cong) (use ok r(2) in \<open>auto simp: row_ok_def intro!: arg_cong [where f = "\<lambda>e. zext (S e) j"] cur_succ\<close>)
    then show ?thesis using ok piv by (simp add: row_ok_def holds_def)
  qed
  moreover have "sorted_wrt apart_rows (filter P (dRows d))" for P
    using rows by (simp add: rows_ok_def sorted_wrt_filter)
  ultimately have "rows_ok S (dLo d + 1) (dRows d')"
    by (simp add: rows_ok_def f(8))
  moreover have "slots_ok S (dLo d + 1) (dSlots d')"
    unfolding slots_ok_def
  proof (intro conjI allI impI)
    show "length (dSlots d') = 512" using sl by (simp add: slots_ok_def f(7))
    fix i :: nat assume i: "i < 512"
    then have s: "slot_ok S (dLo d) i (dSlots d ! i)" using sl by (simp add: slots_ok_def)
    show "slot_ok S (dLo d + 1) i (dSlots d' ! i)"
    proof (cases "slLive (dSlots d ! i) \<and> slEsi (dSlots d ! i) = dLo d")
      case True
      then have "held_at d (dLo d)" "i = slot (dLo d)"
        using s mask by (auto simp: slot_ok_def held_at_def)
      then show ?thesis using i sl by (simp add: f(7) slots_ok_def slot_ok_def empty_slot_def)
    next
      case False
      have "dSlots d' ! i = dSlots d ! i \<or> dSlots d' ! i = empty_slot"
        using i sl by (auto simp: f(7) slots_ok_def nth_list_update)
      moreover have "slot_ok S (dLo d + 1) i (dSlots d ! i)"
        using s False by (auto simp: slot_ok_def in_window_succ)
      ultimately show ?thesis by (auto simp: slot_ok_def empty_slot_def)
    qed
  qed
  ultimately show ?thesis using mask by (simp add: dec_inv_def f(1))
qed

section \<open>The walk\<close>

text \<open>What is left after \<open>k\<close> identifiers from \<open>lo\<close> on were evicted.\<close>

definition gone :: "u32 \<Rightarrow> nat \<Rightarrow> decoder \<Rightarrow> bool" where
  "gone lo k d \<longleftrightarrow>
     (\<forall>i < 512. slLive (dSlots d ! i) \<longrightarrow> (\<exists>m < 512. k \<le> m \<and> slEsi (dSlots d ! i) = lo + word_of_nat m)) \<and>
     (\<forall>r\<in>set (dRows d). \<forall>m < k. wCoef r ! slot (lo + word_of_nat m) = 0)"

lemma gone_start: "dec_inv S d \<Longrightarrow> gone (dLo d) 0 d"
  using window_offset by (fastforce simp: gone_def dec_inv_def slots_ok_def slot_ok_def)

lemma gone_evict:
  assumes inv: "dec_inv S d" and g: "gone lo k d" and lo: "dLo d = lo + word_of_nat k"
    and res: "evict (dLo d) (d, out) = (d', out')"
  shows "gone lo (Suc k) (d'\<lparr>dLo := dLo d + 1\<rparr>)"
proof -
  have mask: "dMask d = 511" and len: "length (dSlots d) = 512"
    using inv by (simp_all add: dec_inv_def slots_ok_def)
  note f = evict_fields [OF res, unfolded slot_of_slot [OF mask]]
  have "\<exists>m < 512. Suc k \<le> m \<and> slEsi (dSlots d' ! i) = lo + word_of_nat m"
    if i: "i < 512" "slLive (dSlots d' ! i)" for i
  proof -
    have same: "dSlots d' ! i = dSlots d ! i" "\<not> (held_at d (dLo d) \<and> i = slot (dLo d))"
      using i len by (auto simp: f(7) nth_list_update empty_slot_def split: if_splits)
    then obtain m where m: "m < 512" "k \<le> m" "slEsi (dSlots d ! i) = lo + word_of_nat m"
      using g i by (auto simp: gone_def)
    have "m \<noteq> k"
    proof
      assume "m = k"
      then have e: "slEsi (dSlots d ! i) = dLo d" using m(3) lo by simp
      moreover have "slot_ok S (dLo d) i (dSlots d ! i)" using inv i(1) by (simp add: dec_inv_def slots_ok_def)
      ultimately have "i = slot (dLo d)" using i(2) same(1) by (simp add: slot_ok_def)
      moreover have "held_at d (dLo d)" using calculation e i(2) same(1) mask by (simp add: held_at_def)
      ultimately show False using same(2) by simp
    qed
    then show ?thesis using m same(1) by (intro exI [of _ m]) simp
  qed
  moreover have "\<forall>r\<in>set (dRows d'). \<forall>m < Suc k. wCoef r ! slot (lo + word_of_nat m) = 0"
    using g lo by (auto simp: gone_def f(8) less_Suc_eq)
  ultimately show ?thesis by (simp add: gone_def)
qed

lemma admit_walk_spec:
  "dec_inv S d \<Longrightarrow> gone lo k d \<Longrightarrow> dLo d = lo + word_of_nat k \<Longrightarrow>
   admit_walk 512 es (d, out) = (d', out') \<Longrightarrow>
   \<exists>n. k \<le> n \<and> n \<le> k + length es \<and> dec_inv S d' \<and> gone lo n d' \<and> dLo d' = lo + word_of_nat n \<and>
     dHigh d' = dHigh d \<and> dStarted d' = dStarted d \<and> outRecovered out' = outRecovered out \<and>
     (n = k + length es \<or> \<not> 512 < dHigh d - dLo d') \<and> (\<forall>m. k \<le> m \<and> m < n \<longrightarrow> 512 < dHigh d - (lo + word_of_nat m)) \<and>
     length (outLost out') \<le> length (outLost out) + (n - k)"
proof (induction es arbitrary: d out k)
  case Nil
  then show ?case by (intro exI [of _ k]) auto
next
  case (Cons e es)
  show ?case
  proof (cases "512 < dHigh d - dLo d")
    case True
    obtain d1 out1 where ev: "evict (dLo d) (d, out) = (d1, out1)" by fastforce
    let ?d1 = "d1\<lparr>dLo := dLo d + 1\<rparr>"
    note f = evict_fields [OF ev]
    have inv: "dec_inv S ?d1" by (rule evict_inv [OF Cons.prems(1) ev])
    have g: "gone lo (Suc k) ?d1" by (rule gone_evict [OF Cons.prems(1-3) ev])
    have lo: "dLo ?d1 = lo + word_of_nat (Suc k)" using Cons.prems(3) by (simp add: ac_simps)
    have "admit_walk 512 es (?d1, out1) = (d', out')"
      using Cons.prems(4) True ev f(2) by simp
    from Cons.IH [OF inv g lo this] obtain n where raw: "Suc k \<le> n \<and> n \<le> Suc k + length es \<and> dec_inv S d' \<and>
        gone lo n d' \<and> dLo d' = lo + word_of_nat n \<and> dHigh d' = dHigh ?d1 \<and> dStarted d' = dStarted ?d1 \<and>
        outRecovered out' = outRecovered out1 \<and> (n = Suc k + length es \<or> \<not> 512 < dHigh ?d1 - dLo d') \<and>
        (\<forall>m. Suc k \<le> m \<and> m < n \<longrightarrow> 512 < dHigh ?d1 - (lo + word_of_nat m)) \<and>
        length (outLost out') \<le> length (outLost out1) + (n - Suc k)" by (elim exE)
    have same: "dHigh ?d1 = dHigh d" "dStarted ?d1 = dStarted d" "outRecovered out1 = outRecovered out"
      by (simp_all add: f(3-5))
    note n = raw [unfolded same]
    have "512 < dHigh d - (lo + word_of_nat m)" if "k \<le> m" "m < n" for m
      using n that True Cons.prems(3) by (cases "m = k") auto
    moreover have "length (outLost out1) \<le> Suc (length (outLost out))" by (simp add: f(9))
    ultimately show ?thesis
      using n by (intro exI [of _ n]) auto
  next
    case False
    then show ?thesis using Cons.prems by (intro exI [of _ k]) auto
  qed
qed

lemma gone_all:
  assumes inv: "dec_inv S d" and g: "gone lo 512 d"
  shows "dRows d = []" and "\<forall>i < 512. \<not> slLive (dSlots d ! i)"
proof -
  show "dRows d = []"
  proof (cases "dRows d")
    case (Cons r rs)
    then have ok: "row_ok S (dLo d) r" using inv by (simp add: dec_inv_def rows_ok_def)
    obtain m where m: "m < 512" "cur lo (slot (wPivot r)) = lo + word_of_nat m"
      using window_offset [OF in_window_cur] by blast
    have "slot (cur lo (slot (wPivot r))) = slot (wPivot r)" by simp
    then have "wCoef r ! slot (wPivot r) = 0" using g m Cons by (auto simp: gone_def)
    then show ?thesis using ok by (simp add: row_ok_def)
  qed
  show "\<forall>i < 512. \<not> slLive (dSlots d ! i)" using g by (force simp: gone_def)
qed

section \<open>Admission\<close>

lemma walk_length: "length (ids lo (lo + 512)) = 512"
  using ids_window [of 512 lo] by simp

text \<open>An identifier at or past the newest: the window ends just behind it, and its slot is clean.\<close>

lemma slide_ok:
  assumes inv: "dec_inv S d" and high: "dHigh d = dLo d + 512"
    and newer: "\<not> sint (esi - dLo d) < 0" "\<not> sint (esi - dHigh d) < 0"
    and walk: "admit_walk 512 (ids (dLo d) (dLo d + 512)) (d\<lparr>dHigh := esi + 1\<rparr>, out) = (d1, out1)"
    and d': "d' = (if dHigh d1 - dLo d1 > 512 then d1\<lparr>dLo := dHigh d1 - 512\<rparr> else d1)"
  shows "dec_inv S d'" and "dHigh d' = dLo d' + 512" and "dHigh d' = esi + 1" and "dStarted d' = dStarted d"
    and "outRecovered out1 = outRecovered out" and "length (outLost out1) \<le> length (outLost out) + 512"
    and "\<forall>r\<in>set (dRows d'). wCoef r ! slot esi = 0"
proof -
  let ?lo = "dLo d" and ?x = "unat (esi - dLo d)"
  have "dec_inv S (d\<lparr>dHigh := esi + 1\<rparr>)" "gone ?lo 0 (d\<lparr>dHigh := esi + 1\<rparr>)"
    using inv gone_start [OF inv] by (simp_all add: dec_inv_def gone_def)
  from admit_walk_spec [OF this _ walk]
  obtain n where n: "n \<le> 512" "dec_inv S d1" "gone ?lo n d1" "dLo d1 = ?lo + word_of_nat n" "dHigh d1 = esi + 1"
      "dStarted d1 = dStarted d" "outRecovered out1 = outRecovered out"
      "n = 512 \<or> \<not> 512 < esi + 1 - (?lo + word_of_nat n)"
      "\<forall>m < n. 512 < esi + 1 - (?lo + word_of_nat m)"
      "length (outLost out1) \<le> length (outLost out) + n"
    by (auto simp: walk_length)
  have x: "512 \<le> ?x" "?x < 2 ^ 31"
    using newer in_window_iff [OF high, of esi] by (auto simp: in_window_def sint_neg_iff)
  have span: "unat (esi + 1 - (?lo + word_of_nat m)) = ?x + 1 - m" if "m \<le> 512" for m
  proof -
    have "esi + 1 - (?lo + word_of_nat m) = word_of_nat (?x + 1 - m)"
      using that x(1) by (simp add: of_nat_diff)
    then show ?thesis using x(2) by (simp add: unat_of_nat_small)
  qed
  have less: "512 < esi + 1 - (?lo + word_of_nat m) \<longleftrightarrow> 512 < ?x + 1 - m" if "m \<le> 512" for m
    using span [OF that] by (simp add: word_less_nat_alt)
  have clean: "\<forall>r\<in>set (dRows d1). wCoef r ! slot esi = 0"
  proof (cases "n = 512")
    case True
    then show ?thesis using gone_all(1) [of S d1 ?lo] n(2,3) by simp
  next
    case False
    then have "?x + 1 - n \<le> 512" using n(8) less [OF n(1)] by auto
    then have "?x - 512 < n" using x(1) by simp
    moreover have "slot (?lo + word_of_nat (?x - 512)) = slot esi"
    proof -
      have "slot (?lo + word_of_nat (?x - 512)) = (unat ?lo + (?x - 512)) mod 512" by (rule slot_add)
      also have "\<dots> = (unat ?lo + (?x - 512) + 512) mod 512" by simp
      also have "unat ?lo + (?x - 512) + 512 = unat ?lo + ?x" using x(1) by simp
      also have "(unat ?lo + ?x) mod 512 = slot (?lo + word_of_nat ?x)" by (rule slot_add [symmetric])
      finally show ?thesis by simp
    qed
    ultimately show ?thesis using n(3) by (metis gone_def)
  qed
  show "dHigh d' = esi + 1" "dStarted d' = dStarted d" using n(5,6) by (simp_all add: d')
  show "outRecovered out1 = outRecovered out" by (rule n(7))
  show "length (outLost out1) \<le> length (outLost out) + 512" using n(1,10) by simp
  show "\<forall>r\<in>set (dRows d'). wCoef r ! slot esi = 0" using clean by (simp add: d')
  show "dHigh d' = dLo d' + 512 "
  proof (cases "512 < dHigh d1 - dLo d1")
    case False
    then have short: "?x + 1 - n \<le> 512" using less [OF n(1)] n(4,5) by simp
    have "n \<noteq> 0" using short x(1) by (cases n) simp_all
    then have "n - 1 < n" "n - 1 \<le> 512" using n(1) by simp_all
    then have "512 < ?x + 1 - (n - 1)" using n(9) less [of "n - 1"] by blast
    then have "?x + 1 - n = 512" using short by simp
    then have "esi + 1 - (?lo + word_of_nat n) = 512" using span [OF n(1)] by (simp add: word_unat_eq_iff)
    then show ?thesis using False n(4,5) by (simp add: d' algebra_simps)
  qed (simp add: d')
  show "dec_inv S d'"
  proof (cases "512 < dHigh d1 - dLo d1")
    case True
    then have "n = 512" using n(4,5,8) by auto
    then have "dRows d1 = []" "\<forall>i < 512. \<not> slLive (dSlots d1 ! i)" using gone_all [of S d1 ?lo] n(2,3) by simp_all
    then show ?thesis using n(2) True by (simp add: d' dec_inv_def slots_ok_def slot_ok_def)
  qed (simp add: d' n(2))
qed

lemma admit_ok:
  assumes ok: "dec_ok S d" and res: "admit esi (d, out) = (b, d', out')"
  shows "dec_ok S d'" and "outRecovered out' = outRecovered out"
    and "length (outLost out') \<le> length (outLost out) + 512"
    and "b \<Longrightarrow> dStarted d' \<and> in_window (dLo d') esi"
    and "b \<Longrightarrow> \<not> (dStarted d \<and> in_window (dLo d) esi) \<Longrightarrow>
      dHigh d' = esi + 1 \<and> (\<forall>r\<in>set (dRows d'). wCoef r ! slot esi = 0)"
    and "b \<Longrightarrow> dStarted d \<Longrightarrow> in_window (dLo d) esi \<Longrightarrow> d' = d"
    and "\<not> b \<Longrightarrow> d' = d \<and> sint (esi - dLo d) < 0"
proof -
  have inv: "dec_inv S d" and len: "length (dSlots d) = 512" using ok by (simp_all add: dec_ok_def dec_inv_def slots_ok_def)
  have all: "dec_ok S d' \<and> outRecovered out' = outRecovered out \<and> length (outLost out') \<le> length (outLost out) + 512 \<and>
    (b \<longrightarrow> dStarted d' \<and> in_window (dLo d') esi) \<and>
    (b \<longrightarrow> \<not> (dStarted d \<and> in_window (dLo d) esi) \<longrightarrow>
      dHigh d' = esi + 1 \<and> (\<forall>r\<in>set (dRows d'). wCoef r ! slot esi = 0)) \<and>
    (b \<longrightarrow> dStarted d \<longrightarrow> in_window (dLo d) esi \<longrightarrow> d' = d) \<and>
    (\<not> b \<longrightarrow> d' = d \<and> sint (esi - dLo d) < 0)"
  proof (cases "dStarted d")
    case False
    then have none: "dRows d = []" "\<forall>i < 512. \<not> slLive (dSlots d ! i)" using ok by (simp_all add: dec_ok_def)
    have d': "b" "d' = d\<lparr>dStarted := True, dOrigin := esi, dHigh := esi + 1, dLo := esi + 1 - 512\<rparr>" "out' = out"
      using res False by (auto simp: admit_def len Let_def)
    have "esi = (esi + 1 - 512) + word_of_nat 511" by simp
    then have "in_window (esi + 1 - 512) esi" using in_window_add [of 511 "esi + 1 - 512"] by simp
    then show ?thesis using none inv len d' False
      by (simp add: dec_ok_def dec_inv_def slots_ok_def slot_ok_def)
  next
    case True
    then have high: "dHigh d = dLo d + 512" using ok by (simp add: dec_ok_def)
    note win = in_window_iff [OF high, of esi]
    consider "sint (esi - dLo d) < 0" | "\<not> sint (esi - dLo d) < 0" "sint (esi - dHigh d) < 0"
      | "\<not> sint (esi - dLo d) < 0" "\<not> sint (esi - dHigh d) < 0" by blast
    then show ?thesis
    proof cases
      case 1
      then show ?thesis using res True ok win by (simp add: admit_def)
    next
      case 2
      then show ?thesis using res True ok win by (simp add: admit_def)
    next
      case 3
      obtain d1 out1 where walk: "admit_walk 512 (ids (dLo d) (dLo d + 512)) (d\<lparr>dHigh := esi + 1\<rparr>, out) = (d1, out1)"
        by fastforce
      let ?d' = "if dHigh d1 - dLo d1 > 512 then d1\<lparr>dLo := dHigh d1 - 512\<rparr> else d1"
      have r: "b" "d' = ?d'" "out' = out1"
        using res True 3 walk len by (auto simp: admit_def Let_def)
      note s = slide_ok [OF inv high 3 walk refl, folded r(2)]
      have "esi = dLo d' + word_of_nat 511" using s(2,3) by (simp add: algebra_simps)
      then have "in_window (dLo d') esi" using in_window_add [of 511 "dLo d'"] by simp
      then show ?thesis using s r(1,3) True 3 win by (simp add: dec_ok_def)
    qed
  qed
  then show "dec_ok S d'" and "outRecovered out' = outRecovered out"
    and "length (outLost out') \<le> length (outLost out) + 512"
    and "b \<Longrightarrow> dStarted d' \<and> in_window (dLo d') esi"
    and "b \<Longrightarrow> \<not> (dStarted d \<and> in_window (dLo d) esi) \<Longrightarrow>
      dHigh d' = esi + 1 \<and> (\<forall>r\<in>set (dRows d'). wCoef r ! slot esi = 0)"
    and "b \<Longrightarrow> dStarted d \<Longrightarrow> in_window (dLo d) esi \<Longrightarrow> d' = d"
    and "\<not> b \<Longrightarrow> d' = d \<and> sint (esi - dLo d) < 0"
    by blast+
qed

end
