(* ===== verification/FecDecode.thy ===== *)
theory FecDecode
  imports FecAdmit
begin

text \<open>The decoder's two entry points keep the invariant, for source symbols and repairs of one stream \<open>S\<close>.\<close>

section \<open>Source symbols\<close>

lemma witness_fields [simp]:
  "dSlots (witness_id e d) = dSlots d" "dMask (witness_id e d) = dMask d" "dLo (witness_id e d) = dLo d"
  "dHigh (witness_id e d) = dHigh d" "dStarted (witness_id e d) = dStarted d" "dRows (witness_id e d) = dRows d"
  by (simp_all add: witness_id_def)

lemma witness_ok [simp]:
  "dec_ok S (witness_id e d) = dec_ok S d" "dec_inv S (witness_id e d) = dec_inv S d"
  "known_at (witness_id e d) esi = known_at d esi"
  by (simp_all add: dec_ok_def dec_inv_def known_at_def slot_of_def)

lemma dec_ok_started: "dec_ok S d \<Longrightarrow> dStarted d \<Longrightarrow> dec_inv S d \<and> dHigh d = dLo d + 512"
  by (simp add: dec_ok_def)

lemma harvest_dec_ok:
  assumes "dec_inv S d" and "out_ok S out" and "dHigh d = dLo d + 512" and "dStarted d"
    and "harvest (d, out) = (d', out')"
  shows "dec_ok S d' \<and> out_ok S out' \<and> dHigh d' = dHigh d \<and> dStarted d' \<and> outLost out' = outLost out"
  using harvest_ok [OF assms(5,1,2,3)] assms(3,4) by (simp add: dec_ok_def)

text \<open>A source symbol must not be the pivot of an equation already held; see the finding on late symbols.\<close>

lemma dec_Source_ok:
  assumes ok: "dec_ok S d" and sym: "same_symbol v (S esi)"
    and fresh: "dStarted d \<Longrightarrow> in_window (dLo d) esi \<Longrightarrow> known_at d esi \<or> (\<forall>r\<in>set (dRows d). wPivot r \<noteq> esi)"
    and res: "dec_Source esi v d = (d', out)"
  shows "dec_ok S d' \<and> out_ok S out \<and> length (outLost out) \<le> 512 \<and>
    (dHigh d' = dHigh d \<and> dStarted d' = dStarted d \<or> dStarted d' \<and> dHigh d' = esi + 1)"
proof -
  obtain b d1 out1 where ad: "admit esi (d, no_delivery) = (b, d1, out1)" by (metis surj_pair)
  note a = admit_ok [OF ok ad]
  have out1: "out_ok S out1" using a(2) by (simp add: out_ok_def)
  have frame: "dHigh d1 = dHigh d \<and> dStarted d1 = dStarted d \<or> dStarted d1 \<and> dHigh d1 = esi + 1"
    using a(4-7) by (cases b) auto
  show ?thesis
  proof (cases b)
    case False
    then show ?thesis using res ad a(1,3) out1 frame by (simp add: dec_Source_def)
  next
    case True
    let ?d2 = "witness_id esi d1"
    have started: "dStarted d1" "in_window (dLo d1) esi" using a(4) True by simp_all
    have inv: "dec_inv S d1" "dHigh d1 = dLo d1 + 512" using dec_ok_started [OF a(1) started(1)] by simp_all
    show ?thesis
    proof (cases "known_at d1 esi")
      case True
      then have "d' = ?d2" "out = out1" using res ad \<open>b\<close> by (simp_all add: dec_Source_def)
      then show ?thesis using a(1,3) out1 frame by simp
    next
      case unknown: False
      have free: "\<forall>r\<in>set (dRows d1). slot (wPivot r) \<noteq> slot esi"
      proof
        fix r assume r: "r \<in> set (dRows d1)"
        have row: "row_ok S (dLo d1) r" using inv(1) r by (simp add: dec_inv_def rows_ok_def)
        show "slot (wPivot r) \<noteq> slot esi"
        proof (cases "dStarted d \<and> in_window (dLo d) esi")
          case True
          then have "d1 = d" using a(6) \<open>b\<close> by simp
          then have "wPivot r \<noteq> esi" using fresh True unknown r by auto
          then show ?thesis using row slot_inj [OF _ started(2), of "wPivot r"] by (auto simp: row_ok_def)
        next
          case False
          then have "wCoef r ! slot esi = 0" using a(5) \<open>b\<close> r by blast
          then show ?thesis using row by (auto simp: row_ok_def)
        qed
      qed
      obtain d3 out3 where sub: "substitute esi v False (?d2, out1) = (d3, out3)" by fastforce
      have "dec_inv S ?d2" using inv(1) by simp
      from substitute_ok [OF this out1 _ sym _ sub] started(2) free
      have s: "dec_inv S d3" "out_ok S out3" "dLo d3 = dLo d1" "dHigh d3 = dHigh d1" "dStarted d3"
          "outLost out3 = outLost out1"
        using started(1) by auto
      have "harvest (d3, out3) = (d', out)"
        using res ad \<open>b\<close> unknown sub by (simp add: dec_Source_def Let_def)
      from harvest_dec_ok [OF s(1,2) _ s(5) this] inv(2) s(3,4)
      have "dec_ok S d'" "out_ok S out" "dHigh d' = dHigh d1" "dStarted d'" "outLost out = outLost out1"
        using s(6) by simp_all
      then show ?thesis using a(3) frame started(1) by auto
    qed
  qed
qed

section \<open>Repairs\<close>

lemma lin_snoc: "lin (cs @ [c]) f = xor (lin cs f) (gfMul c (f (length cs)))"
  by (induction cs arbitrary: f) (simp_all add: ac_simps)

text \<open>A repair states the combination of its window's symbols.\<close>

definition repair_ok :: "(u32 \<Rightarrow> bytes) \<Rightarrow> repair \<Rightarrow> bool" where
  "repair_ok S r \<longleftrightarrow> (\<forall>j. zext (rVector r) j =
     lin (map (windowCoefficient (rRID r)) [0..<nat (rCount r)]) (\<lambda>i. zext (S (rFirst r + word_of_nat i)) j))"

lemma coefficient_fold:
  assumes win: "\<And>i. i < n \<Longrightarrow> in_window lo (first + word_of_nat i)" and n: "n \<le> 512"
  shows "m \<le> n \<Longrightarrow>
    (let coef = foldl (\<lambda>coef i. coef[slot (first + word_of_nat i) := c i]) (replicate 512 0) [0..<m] in
     length coef = 512 \<and> lin coef f = lin (map c [0..<m]) (\<lambda>i. f (slot (first + word_of_nat i))) \<and>
     (\<forall>k. m \<le> k \<and> k < n \<longrightarrow> coef ! slot (first + word_of_nat k) = 0))"
proof (induction m)
  case 0
  then show ?case using lin_zero [of "replicate 512 0" f] by simp
next
  case (Suc m)
  let ?coef = "foldl (\<lambda>coef i. coef[slot (first + word_of_nat i) := c i]) (replicate 512 0) [0..<m]"
  let ?k = "slot (first + word_of_nat m)"
  have IH: "length ?coef = 512" "lin ?coef f = lin (map c [0..<m]) (\<lambda>i. f (slot (first + word_of_nat i)))"
      "\<forall>k. m \<le> k \<and> k < n \<longrightarrow> ?coef ! slot (first + word_of_nat k) = 0"
    using Suc by (simp_all add: Let_def)
  have zero: "?coef ! ?k = 0" using IH(3) Suc.prems by simp
  have "?k \<noteq> slot (first + word_of_nat k)" if "Suc m \<le> k" "k < n" for k
  proof
    assume "?k = slot (first + word_of_nat k)"
    then have "first + word_of_nat m = first + word_of_nat k"
      using slot_inj [OF win win] that by simp
    then have "(word_of_nat m :: u32) = word_of_nat k" by simp
    then have "unat (word_of_nat m :: u32) = unat (word_of_nat k :: u32)" by (rule arg_cong)
    then have "m = k" using that n by (simp add: unat_of_nat_small)
    then show False using that by simp
  qed
  then show ?case
    using IH Suc.prems zero by (simp add: Let_def lin_update lin_snoc)
qed

lemma repair_window:
  assumes high: "high = lo + 512" and oldest: "\<not> sint (first - lo) < 0"
    and newest: "in_window lo (first + word_of_nat (n - 1))" and n: "n \<le> 256" and i: "i < n"
  shows "in_window lo (first + word_of_nat i)"
proof -
  let ?a = "unat (first - lo)"
  have a: "?a < 2 ^ 31" using oldest by (simp add: sint_neg_iff)
  have off: "unat (first + word_of_nat m - lo) = ?a + m" if "m < 256" for m
  proof -
    have "first + word_of_nat m - lo = word_of_nat (?a + m)" by simp
    also have "unat \<dots> = ?a + m" by (rule unat_of_nat_small) (use a that in simp)
    finally show ?thesis .
  qed
  have "?a + (n - 1) < 512" using newest off [of "n - 1"] n i by (simp add: in_window_def)
  then show ?thesis using off [of i] n i by (simp add: in_window_def)
qed

lemma repair_coefficients_ok:
  assumes inv: "dec_inv S d" and high: "dHigh d = dLo d + 512" and rep: "repair_ok S r"
    and oldest: "\<not> sint (rFirst r - dLo d) < 0" and newest: "in_window (dLo d) (rFirst r + word_of_nat (nat (rCount r) - 1))"
    and n: "nat (rCount r) \<le> 256"
  shows "length (repair_coefficients r d) = 512" and "holds S (dLo d) (repair_coefficients r d, rVector r)"
proof -
  let ?n = "nat (rCount r)" and ?lo = "dLo d"
  have len: "length (dSlots d) = 512" and mask: "dMask d = 511" using inv by (simp_all add: dec_inv_def slots_ok_def)
  have win: "in_window ?lo (rFirst r + word_of_nat i)" if "i < ?n" for i
    by (rule repair_window [OF high oldest newest n that])
  have eq: "repair_coefficients r d =
      foldl (\<lambda>coef i. coef[slot (rFirst r + word_of_nat i) := windowCoefficient (rRID r) i]) (replicate 512 0) [0..<?n]"
    unfolding repair_coefficients_def len
  proof (rule foldl_cong [OF refl refl])
    fix coef i assume "i \<in> set [0..<?n]"
    then show "(let esi = rFirst r + word_of_nat i in
        if sint (esi - ?lo) < 0 \<or> \<not> sint (esi - dHigh d) < 0 then coef
        else coef[slot_of d esi := windowCoefficient (rRID r) i]) = coef[slot (rFirst r + word_of_nat i) := windowCoefficient (rRID r) i]"
      using win [of i] in_window_iff [OF high, of "rFirst r + word_of_nat i"] mask by (simp add: Let_def)
  qed
  have fold: "length (repair_coefficients r d) = 512 \<and>
      lin (repair_coefficients r d) f = lin (map (windowCoefficient (rRID r)) [0..<?n]) (\<lambda>i. f (slot (rFirst r + word_of_nat i)))" for f
    using coefficient_fold [of ?n ?lo "rFirst r" ?n "windowCoefficient (rRID r)" f] win n unfolding eq by (simp add: Let_def)
  then show "length (repair_coefficients r d) = 512" by simp
  have "lin (map (windowCoefficient (rRID r)) [0..<?n]) (\<lambda>i. zext (S (cur ?lo (slot (rFirst r + word_of_nat i)))) j)
      = lin (map (windowCoefficient (rRID r)) [0..<?n]) (\<lambda>i. zext (S (rFirst r + word_of_nat i)) j)" for j
    by (rule lin_cong) (simp add: cur_slot [OF win])
  then show "holds S ?lo (repair_coefficients r d, rVector r)"
    using fold rep by (simp add: holds_def repair_ok_def)
qed

lemma dec_Repair_ok:
  assumes ok: "dec_ok S d" and rep: "repair_ok S r" and res: "dec_Repair r d = (d', out)"
  shows "dec_ok S d' \<and> out_ok S out \<and> length (outLost out) \<le> 512 \<and>
    (dHigh d' = dHigh d \<and> dStarted d' = dStarted d \<or>
     dStarted d' \<and> dHigh d' = rFirst r + word_of_int (rCount r) \<and>
       \<not> (dStarted d \<and> in_window (dLo d) (rFirst r + word_of_int (rCount r - 1))))"
proof (cases "rCount r \<le> 0 \<or> rVector r = [] \<or> rCount r > int MaxRepairWindow")
  case True
  then show ?thesis using res ok
    by (auto simp: dec_Repair_def out_ok_def dec_ok_def dec_inv_def split: if_splits)
next
  case False
  let ?new = "rFirst r + word_of_int (rCount r - 1)"
  obtain b d1 out1 where ad: "admit ?new (d, no_delivery) = (b, d1, out1)" by (metis surj_pair)
  note a = admit_ok [OF ok ad]
  have out1: "out_ok S out1" using a(2) by (simp add: out_ok_def)
  have frame: "dHigh d1 = dHigh d \<and> dStarted d1 = dStarted d \<or>
      dStarted d1 \<and> dHigh d1 = rFirst r + word_of_int (rCount r) \<and> \<not> (dStarted d \<and> in_window (dLo d) ?new)"
    using a(4-7) by (cases b) (auto simp: algebra_simps)
  show ?thesis
  proof (cases b)
    case False
    then have "d' = d1" "out = out1" using res ad \<open>\<not> (rCount r \<le> 0 \<or> _)\<close> by (simp_all add: dec_Repair_def)
    then show ?thesis using a(1,3) out1 frame by simp
  next
    case True
    let ?d2 = "witness_id (rFirst r) d1"
    have started: "dStarted d1" "in_window (dLo d1) ?new" using a(4) True by simp_all
    have inv: "dec_inv S d1" "dHigh d1 = dLo d1 + 512" using dec_ok_started [OF a(1) started(1)] by simp_all
    show ?thesis
    proof (cases "sint (rFirst r - dLo d1) < 0")
      case True
      then have "d' = ?d2\<lparr>dDiscarded := dDiscarded ?d2 + 1\<rparr>" "out = out1"
        using res ad \<open>b\<close> False by (simp_all add: dec_Repair_def Let_def)
      then show ?thesis using a(1,3) out1 frame inv started(1) by (simp add: dec_ok_def dec_inv_def)
    next
      case near: False
      have n: "nat (rCount r) \<le> 256" "0 < nat (rCount r)" using False by (auto simp: MaxRepairWindow_def)
      have "rCount r = int (Suc (nat (rCount r) - 1))" using n(2) by simp
      then obtain m where "rCount r = int (Suc m)" by blast
      then have "(word_of_int (rCount r - 1) :: u32) = word_of_nat (nat (rCount r) - 1)" by simp
      then have newest: "in_window (dLo ?d2) (rFirst r + word_of_nat (nat (rCount r) - 1))" using started(2) by simp
      have inv2: "dec_inv S ?d2" "dHigh ?d2 = dLo ?d2 + 512" "\<not> sint (rFirst r - dLo ?d2) < 0"
        using inv near by simp_all
      note coef = repair_coefficients_ok [OF inv2(1,2) rep inv2(3) newest n(1)]
      have "insert_row (repair_coefficients r ?d2) (rVector r) (?d2, out1) = (d', out)"
        using res ad \<open>b\<close> False near by (simp add: dec_Repair_def Let_def)
      from insert_row_ok [OF inv2(1) out1 inv2(2) coef this] inv2(2)
      have "dec_inv S d'" "out_ok S out" "dHigh d' = dHigh d1" "dHigh d' = dLo d' + 512" "dStarted d'"
        "outLost out = outLost out1" using started(1) by simp_all
      then show ?thesis using a(3) frame started(1) by (auto simp: dec_ok_def)
    qed
  qed
qed

end
