(* ===== verification/FecEncode.thy ===== *)
theory FecEncode
  imports FecDecode
begin

text \<open>The encoder's ring holds the newest symbols under any change of its capacity, and its repairs are true.\<close>

section \<open>Powers of two\<close>

lemma pow2_loop_spec:
  "\<exists>k. pow2_loop n (2 ^ m) = 2 ^ k \<and> m \<le> k \<and> n \<le> 2 ^ k \<and> (m < k \<longrightarrow> 2 ^ (k - 1) < n)"
proof (induction "n - 2 ^ m" arbitrary: m rule: less_induct)
  case less
  show ?case
  proof (cases "(2 :: nat) ^ m < n")
    case True
    then have step: "pow2_loop n (2 ^ m) = pow2_loop n (2 ^ Suc m)"
      by (subst pow2_loop.simps) (simp add: push_bit_eq_mult mult.commute)
    have "n - 2 ^ Suc m < n - 2 ^ m" using True by (intro diff_less_mono2) simp_all
    from less [OF this] obtain k where "pow2_loop n (2 ^ Suc m) = 2 ^ k" "Suc m \<le> k" "n \<le> 2 ^ k"
        "Suc m < k \<longrightarrow> 2 ^ (k - 1) < n" by blast
    moreover have "2 ^ (k - 1) < n" if "Suc m = k" using True that by auto
    ultimately show ?thesis unfolding step by (intro exI [of _ k]) (auto simp: le_less)
  next
    case False
    then show ?thesis by (intro exI [of _ m]) (simp add: pow2_loop.simps)
  qed
qed

text \<open>The least power of two that is at least \<open>n\<close>.\<close>

lemma roundUp_spec:
  "\<exists>k. roundUpPowerOfTwo n = 2 ^ k \<and> nat n \<le> 2 ^ k \<and> (0 < k \<longrightarrow> 2 ^ (k - 1) < nat n)"
  using pow2_loop_spec [of "nat n" 0] by (auto simp: roundUpPowerOfTwo_def)

lemma roundUp_capped:
  assumes "n \<le> 256"
  shows "\<exists>k \<le> 8. roundUpPowerOfTwo n = 2 ^ k"
proof -
  obtain k where k: "roundUpPowerOfTwo n = 2 ^ k" "0 < k \<longrightarrow> 2 ^ (k - 1) < nat n"
    using roundUp_spec by blast
  have "k \<le> 8"
  proof (rule ccontr)
    assume "\<not> k \<le> 8"
    then have "(2 :: nat) ^ 8 \<le> 2 ^ (k - 1)" by (intro power_increasing) simp_all
    moreover have "2 ^ (k - 1) < nat n" "nat n \<le> 2 ^ 8" using k(2) \<open>\<not> k \<le> 8\<close> assms by simp_all
    ultimately show False by linarith
  qed
  then show ?thesis using k(1) by blast
qed

section \<open>Ring slots\<close>

definition rslot :: "nat \<Rightarrow> u32 \<Rightarrow> nat" where "rslot k esi = unat esi mod 2 ^ k"

lemma rslot_mask: "k \<le> 32 \<Longrightarrow> unat (and esi (word_of_nat (2 ^ k - 1))) = rslot k esi"
proof -
  assume "k \<le> 32"
  have "(word_of_nat (2 ^ k - 1) :: u32) = mask k" by (simp add: mask_eq_exp_minus_1 of_nat_diff)
  then have "and esi (word_of_nat (2 ^ k - 1)) = take_bit k esi" by (simp add: take_bit_eq_mask)
  moreover have "unat (take_bit k esi) = take_bit k (unat esi)" by (rule unsigned_take_bit_eq)
  ultimately show ?thesis by (simp only: rslot_def take_bit_eq_mod)
qed

lemma rslot_less [simp]: "rslot k esi < 2 ^ k"
  by (simp add: rslot_def)

lemma rslot_add: "k \<le> 32 \<Longrightarrow> rslot k (lo + word_of_nat m) = (unat lo + m) mod 2 ^ k"
proof -
  assume k: "k \<le> 32"
  have "unat (lo + word_of_nat m) = (unat lo + m) mod 2 ^ 32"
    by (simp add: unat_word_ariths unat_of_nat take_bit_eq_mod mod_add_right_eq)
  moreover have "(x mod 2 ^ 32) mod 2 ^ k = x mod (2 :: nat) ^ k" for x
    by (rule mod_mod_cancel) (rule le_imp_power_dvd [OF k])
  ultimately show ?thesis by (simp add: rslot_def)
qed

lemma rslot_distinct:
  assumes "k \<le> 32" and "a < b" and "b < a + 2 ^ k"
  shows "rslot k (lo + word_of_nat a) \<noteq> rslot k (lo + word_of_nat b)"
proof
  assume "rslot k (lo + word_of_nat a) = rslot k (lo + word_of_nat b)"
  then have "2 ^ k dvd (unat lo + b) - (unat lo + a)"
    using assms mod_eq_dvd_iff_nat [of "unat lo + a" "unat lo + b" "2 ^ k"] by (simp add: rslot_add)
  then have "2 ^ k dvd b - a" by simp
  then show False using assms dvd_imp_le [of "2 ^ k" "b - a"] by simp
qed

lemma nat_shift_less: "n \<le> h \<Longrightarrow> i < n \<Longrightarrow> h - n + i < (h :: nat)"
  by simp

section \<open>The invariant\<close>

definition enc_ok :: "(u32 \<Rightarrow> bytes) \<Rightarrow> nat \<Rightarrow> encoder \<Rightarrow> bool" where
  "enc_ok S c e \<longleftrightarrow> (\<exists>k \<le> 8. length (eRing e) = 2 ^ k \<and> eMask e = word_of_nat (2 ^ k - 1)) \<and>
     eHeld e \<le> length (eRing e) \<and> eHeld e \<le> c \<and> eNext e = word_of_nat c \<and>
     eFirst e = eNext e - word_of_nat (eHeld e) \<and>
     (\<forall>i < eHeld e. eRing e ! at_ring e (eFirst e + word_of_nat i) = S (eFirst e + word_of_nat i))"

lemma enc_ring:
  "enc_ok S c e \<Longrightarrow> i < eHeld e \<Longrightarrow>
     eRing e ! at_ring e (eFirst e + word_of_nat i) = S (eFirst e + word_of_nat i)"
  unfolding enc_ok_def by (elim conjE) blast

lemma copy_fold:
  assumes k: "k \<le> 8" and n: "n \<le> 2 ^ k"
  shows "m \<le> n \<Longrightarrow>
    (let ring = foldl (\<lambda>ring i. ring[rslot k (first + word_of_nat i) := v i]) (replicate (2 ^ k) []) [0..<m] in
     length ring = 2 ^ k \<and> (\<forall>i < m. ring ! rslot k (first + word_of_nat i) = v i))"
proof (induction m)
  case 0
  then show ?case by simp
next
  case (Suc m)
  have "rslot k (first + word_of_nat m) \<noteq> rslot k (first + word_of_nat i)" if "i < m" for i
    using k that Suc.prems n by (intro rslot_distinct [THEN not_sym]) auto
  then show ?case using Suc by (auto simp: Let_def less_Suc_eq nth_list_update)
qed

lemma SetCapacity_ok:
  assumes held: "eHeld e \<le> length (eRing e)" "eHeld e \<le> c" "eNext e = word_of_nat c"
    and first: "eFirst e = eNext e - word_of_nat (eHeld e)"
    and ring: "eRing e \<noteq> [] \<Longrightarrow> enc_ok S c e"
  shows "enc_ok S c (SetCapacity cap e)"
proof -
  obtain k where k: "k \<le> 8" "roundUpPowerOfTwo (min cap (int MaxRepairWindow)) = 2 ^ k"
    using roundUp_capped [of "min cap (int MaxRepairWindow)"] by (auto simp: MaxRepairWindow_def)
  show ?thesis
  proof (cases "2 ^ k = length (eRing e)")
    case True
    then have "eRing e \<noteq> []" by auto
    then show ?thesis using ring True k(2) by (simp add: SetCapacity_def)
  next
    case False
    let ?keep = "min (eHeld e) (2 ^ k)"
    let ?first = "eNext e - word_of_nat ?keep"
    let ?ring = "foldl (\<lambda>ring i. ring[rslot k (?first + word_of_nat i) := eRing e ! at_ring e (?first + word_of_nat i)])
      (replicate (2 ^ k) []) [0..<?keep]"
    have res: "SetCapacity cap e = e\<lparr>eRing := ?ring, eMask := word_of_nat (2 ^ k - 1), eFirst := ?first, eHeld := ?keep\<rparr>"
      using False k rslot_mask [of k] by (simp add: SetCapacity_def Let_def)
    have new: "length ?ring = 2 ^ k" "\<forall>i < ?keep. ?ring ! rslot k (?first + word_of_nat i) = eRing e ! at_ring e (?first + word_of_nat i)"
      using copy_fold [OF k(1), of ?keep ?keep ?first "\<lambda>i. eRing e ! at_ring e (?first + word_of_nat i)",
        unfolded Let_def, OF _ order.refl] by simp_all
    have old: "eRing e ! at_ring e (?first + word_of_nat i) = S (?first + word_of_nat i)" if i: "i < ?keep" for i
    proof -
      have "eRing e \<noteq> []" using i held(1) by auto
      then have ok: "enc_ok S c e" by (rule ring)
      have shift: "?first + word_of_nat i = eFirst e + word_of_nat (eHeld e - ?keep + i)"
        by (simp add: first of_nat_diff)
      have "eHeld e - ?keep + i < eHeld e" by (rule nat_shift_less [OF min.cobounded1 i])
      from enc_ring [OF ok this] show ?thesis by (simp only: shift)
    qed
    show ?thesis
      unfolding res enc_ok_def
      using k(1) new old held(2,3) rslot_mask [of k] by (auto simp: at_ring_def)
  qed
qed

lemma NewWindowEncoder_ok: "enc_ok S 0 (NewWindowEncoder cap)"
  unfolding NewWindowEncoder_def by (rule SetCapacity_ok) simp_all

lemma Reset_ok: "enc_ok S c e \<Longrightarrow> enc_ok S c (Reset e)"
  by (simp add: enc_ok_def Reset_def)

lemma Add_ok:
  assumes ok: "enc_ok S c e" and v: "v = S (word_of_nat c)" and res: "Add v e = (esi, e')"
  shows "esi = word_of_nat c" and "enc_ok S (Suc c) e'"
proof -
  obtain k where k: "k \<le> 8" "length (eRing e) = 2 ^ k" "eMask e = word_of_nat (2 ^ k - 1)"
    using ok by (auto simp: enc_ok_def)
  have e: "eHeld e \<le> 2 ^ k" "eHeld e \<le> c" "eNext e = word_of_nat c" "eFirst e = eNext e - word_of_nat (eHeld e)"
    "\<forall>i < eHeld e. eRing e ! rslot k (eFirst e + word_of_nat i) = S (eFirst e + word_of_nat i)"
    using ok k rslot_mask [of k] by (auto simp: enc_ok_def at_ring_def)
  show "esi = word_of_nat c" using res e(3) by (auto simp: Add_def Let_def)
  let ?ring = "(eRing e)[rslot k (eNext e) := v]"
  have ring: "at_ring e = rslot k" using k rslot_mask [of k] by (simp add: at_ring_def fun_eq_iff)
  have ne: "eNext e = eFirst e + word_of_nat (eHeld e)" using e(4) by simp
  have stay: "?ring ! rslot k (eFirst e + word_of_nat i) = S (eFirst e + word_of_nat i)"
    if "i < eHeld e" "eHeld e < i + 2 ^ k" for i
  proof -
    have "rslot k (eFirst e + word_of_nat i) \<noteq> rslot k (eNext e)"
      unfolding ne using k(1) that by (intro rslot_distinct) auto
    then show ?thesis using e(5) that(1) by simp
  qed
  have top: "?ring ! rslot k (eNext e) = S (eNext e)" using k(2) v e(3) by simp
  show "enc_ok S (Suc c) e'"
  proof (cases "eHeld e < 2 ^ k")
    case True
    then have e': "e' = e\<lparr>eNext := eNext e + 1, eRing := ?ring, eHeld := eHeld e + 1\<rparr>"
      using res k(2) ring by (auto simp: Add_def Let_def)
    have "?ring ! rslot k (eFirst e + word_of_nat i) = S (eFirst e + word_of_nat i)" if "i < Suc (eHeld e)" for i
      using stay [of i] top ne that True by (cases "i = eHeld e") auto
    then have "\<forall>i < eHeld e'. eRing e' ! at_ring e' (eFirst e' + word_of_nat i) = S (eFirst e' + word_of_nat i)"
      using ring by (simp add: e' at_ring_def fun_eq_iff)
    moreover have "eFirst e' = eNext e' - word_of_nat (eHeld e')" using e(4) by (simp add: e')
    moreover have "length (eRing e') = 2 ^ k" "eMask e' = word_of_nat (2 ^ k - 1)" "eHeld e' \<le> 2 ^ k" "eHeld e' \<le> Suc c"
        "eNext e' = word_of_nat (Suc c)"
      using k e(1-3) True by (simp_all add: e')
    ultimately show ?thesis using k(1) by (auto simp: enc_ok_def simp del: of_nat_Suc)
  next
    case False
    then have held: "eHeld e = 2 ^ k" using e(1) by simp
    have e': "e' = e\<lparr>eNext := eNext e + 1, eRing := ?ring, eFirst := eFirst e + 1\<rparr>"
      using res k(2) ring False by (auto simp: Add_def Let_def)
    have "?ring ! rslot k (eFirst e + 1 + word_of_nat i) = S (eFirst e + 1 + word_of_nat i)" if "i < eHeld e" for i
    proof (cases "Suc i = eHeld e")
      case True
      then have "eFirst e + 1 + word_of_nat i = eNext e" by (simp add: ne flip: True)
      then show ?thesis using top by simp
    next
      case False
      then show ?thesis using stay [of "Suc i"] that held by (simp add: ac_simps)
    qed
    then have "\<forall>i < eHeld e'. eRing e' ! at_ring e' (eFirst e' + word_of_nat i) = S (eFirst e' + word_of_nat i)"
      using ring by (simp add: e' at_ring_def fun_eq_iff)
    moreover have "eFirst e' = eNext e' - word_of_nat (eHeld e')" using e(4) by (simp add: e')
    moreover have "length (eRing e') = 2 ^ k" "eMask e' = word_of_nat (2 ^ k - 1)" "eHeld e' \<le> 2 ^ k" "eHeld e' \<le> Suc c"
        "eNext e' = word_of_nat (Suc c)"
      using k e(1-3) by (simp_all add: e')
    ultimately show ?thesis using k(1) by (auto simp: enc_ok_def simp del: of_nat_Suc)
  qed
qed

section \<open>Repairs are true\<close>

lemma repair_span_le:
  "0 < held \<Longrightarrow> 0 < repair_span count held \<and> repair_span count held \<le> held \<and> repair_span count held \<le> 256"
  by (auto simp: repair_span_def MaxRepairWindow_def Let_def)

lemma longest_fold:
  "(\<forall>i\<in>set xs. f i \<le> foldl (\<lambda>n i. if f i > n then f i else n) n0 xs) \<and>
   (n0 :: nat) \<le> foldl (\<lambda>n i. if f i > n then f i else n) n0 xs"
proof (induction xs arbitrary: n0)
  case (Cons x xs)
  from Cons.IH [of "if f x > n0 then f x else n0"] show ?case by auto
qed simp

lemma combine_fold:
  assumes "\<forall>i < n. length (symb i) \<le> vlen"
  shows "m \<le> n \<Longrightarrow>
    (let v = foldl (\<lambda>v i. addScaled (c i) (symb i) v) (replicate vlen 0) [0..<m] in
     length v = vlen \<and> (\<forall>j. zext v j = lin (map c [0..<m]) (\<lambda>i. zext (symb i) j)))"
proof (induction m)
  case (Suc m)
  then show ?case using assms by (simp add: Let_def zext_addScaled lin_snoc)
qed simp

lemma enc_Repair_ok:
  assumes ok: "enc_ok S c e" and res: "enc_Repair rid count e = Some r"
  shows "repair_ok S r" and "rFirst r + word_of_int (rCount r) = eNext e" and "0 < rCount r" and "rCount r \<le> int c"
proof -
  let ?n = "repair_span count (eHeld e)"
  have held: "0 < eHeld e" "eHeld e \<le> c" using ok res by (auto simp: enc_ok_def enc_Repair_def split: if_splits)
  note span = repair_span_le [OF held(1), of count]
  let ?first = "eNext e - word_of_nat ?n"
  let ?sym = "\<lambda>i. eRing e ! at_ring e (?first + word_of_nat i)"
  let ?vlen = "foldl (\<lambda>vlen i. if length (?sym i) > vlen then length (?sym i) else vlen) 0 [0..<?n]"
  let ?v = "foldl (\<lambda>v i. addScaled (windowCoefficient rid i) (?sym i) v) (replicate ?vlen 0) [0..<?n]"
  have r: "r = \<lparr>rRID = rid, rFirst = ?first, rCount = int ?n, rVector = ?v\<rparr>"
    using res held(1) by (simp add: enc_Repair_def Let_def)
  have "\<forall>i < ?n. length (?sym i) \<le> ?vlen"
    using longest_fold [of "[0..<?n]" "\<lambda>i. length (?sym i)" 0] by simp
  from combine_fold [OF this order.refl, of "windowCoefficient rid"]
  have v: "\<forall>j. zext ?v j = lin (map (windowCoefficient rid) [0..<?n]) (\<lambda>i. zext (?sym i) j)" by (simp add: Let_def)
  have sym: "?sym i = S (?first + word_of_nat i)" if "i < ?n" for i
  proof -
    have shift: "?first + word_of_nat i = eFirst e + word_of_nat (eHeld e - ?n + i)"
      using ok span by (simp add: enc_ok_def of_nat_diff)
    have "eHeld e - ?n + i < eHeld e" using nat_shift_less [OF _ that, of "eHeld e"] span by blast
    from enc_ring [OF ok this] show ?thesis by (simp only: shift)
  qed
  have "lin (map (windowCoefficient rid) [0..<?n]) (\<lambda>i. zext (?sym i) j)
      = lin (map (windowCoefficient rid) [0..<?n]) (\<lambda>i. zext (S (?first + word_of_nat i)) j)" for j
    by (rule lin_cong) (simp add: sym)
  then show "repair_ok S r" using v by (simp add: repair_ok_def r)
  show "rFirst r + word_of_int (rCount r) = eNext e" "0 < rCount r" "rCount r \<le> int c"
    using span held by (simp_all add: r)
qed

end
