(* ===== verification/FecChannel.thy ===== *)
theory FecChannel
  imports FecEncode
begin

text \<open>
  The code end to end: a sender that adds symbols, emits repairs and resizes its window in any order,
  over a path that erases any of its datagrams, to a decoder; and what every recovered symbol is.
\<close>

section \<open>The erasure channel\<close>

datatype send_op =
    SendSource bytes
  | SendRepair u32 int
  | SendCapacity int
  | SendReset

text \<open>Each operation with whether the datagram it emits arrives; the result is what the decoder delivered.\<close>

fun transmit :: "(send_op \<times> bool) list \<Rightarrow> encoder \<Rightarrow> decoder \<Rightarrow> delivery list \<times> encoder \<times> decoder" where
  "transmit [] e d = ([], e, d)"
| "transmit ((SendSource v, arrives) # ops) e d =
     (case Add v e of (esi, e') \<Rightarrow>
       if arrives then case dec_Source esi v d of (d', out) \<Rightarrow> (case transmit ops e' d' of (outs, r) \<Rightarrow> (out # outs, r))
       else transmit ops e' d)"
| "transmit ((SendRepair rid count, arrives) # ops) e d =
     (case enc_Repair rid count e of
        None \<Rightarrow> transmit ops e d
      | Some r \<Rightarrow> if arrives then case dec_Repair r d of (d', out) \<Rightarrow> (case transmit ops e d' of (outs, r) \<Rightarrow> (out # outs, r))
        else transmit ops e d)"
| "transmit ((SendCapacity n, arrives) # ops) e d = transmit ops (SetCapacity n e) d"
| "transmit ((SendReset, arrives) # ops) e d = transmit ops (Reset e) d"

definition sent :: "(send_op \<times> bool) list \<Rightarrow> bytes list" where
  "sent ops = concat (map (\<lambda>(op, _). case op of SendSource v \<Rightarrow> [v] | _ \<Rightarrow> []) ops)"

lemma sent_simps [simp]:
  "sent [] = []" "sent ((SendSource v, b) # ops) = v # sent ops" "sent ((SendRepair i n, b) # ops) = sent ops"
  "sent ((SendCapacity k, b) # ops) = sent ops" "sent ((SendReset, b) # ops) = sent ops"
  by (simp_all add: sent_def)

section \<open>Sender and receiver in step\<close>

definition channel_ok :: "(u32 \<Rightarrow> bytes) \<Rightarrow> nat \<Rightarrow> encoder \<Rightarrow> decoder \<Rightarrow> bool" where
  "channel_ok S c e d \<longleftrightarrow> enc_ok S c e \<and> dec_ok S d \<and> (dStarted d \<longrightarrow> (\<exists>n \<le> c. dHigh d = word_of_nat n))"

lemma NewWindowDecoder_ok: "dec_ok S NewWindowDecoder"
proof -
  have "roundUpPowerOfTwo (int MinDecoderWidth) = 512"
    by (simp add: roundUpPowerOfTwo_def MinDecoderWidth_def MaxRepairWindow_def pow2_loop.simps)
  then show ?thesis
    by (simp add: NewWindowDecoder_def resize_def dec_ok_def dec_inv_def slots_ok_def slot_ok_def empty_slot_def)
qed

lemma NewWindowDecoder_idle: "\<not> dStarted NewWindowDecoder"
  by (simp add: NewWindowDecoder_def resize_def Let_def)

text \<open>A symbol sent after everything that has arrived is not one the window holds.\<close>

lemma new_not_in_window:
  assumes "dec_ok S d" and "dStarted d" and "dHigh d = word_of_nat n" and "n \<le> c" and "c < 2 ^ 31"
  shows "\<not> in_window (dLo d) (word_of_nat c)"
proof -
  have high: "dHigh d = dLo d + 512" using assms(1,2) by (simp add: dec_ok_def)
  have "(word_of_nat c :: u32) - dHigh d = word_of_nat (c - n)" using assms(3,4) by (simp add: of_nat_diff)
  then have "\<not> sint (word_of_nat c - dHigh d) < 0" using sint_small [of "c - n"] assms(5) by simp
  then show ?thesis using in_window_iff [OF high] by blast
qed

lemma channel_source:
  assumes ch: "channel_ok S c e d" and v: "v = S (word_of_nat c)" and c: "c < 2 ^ 31"
    and add: "Add v e = (esi, e')" and dec: "dec_Source esi v d = (d', out)"
  shows "channel_ok S (Suc c) e' d'" and "channel_ok S (Suc c) e' d" and "out_ok S out"
proof -
  have enc: "enc_ok S c e" and ok: "dec_ok S d" and hi: "dStarted d \<longrightarrow> (\<exists>n \<le> c. dHigh d = word_of_nat n)"
    using ch by (simp_all add: channel_ok_def)
  note a = Add_ok [OF enc v add]
  show "channel_ok S (Suc c) e' d" using a(2) ok hi by (auto simp: channel_ok_def intro: le_SucI)
  have sym: "same_symbol v (S esi)" by (simp add: same_symbol_def v a(1))
  have fresh: "dStarted d \<Longrightarrow> in_window (dLo d) esi \<Longrightarrow> False"
    using new_not_in_window [OF ok _ _ _ c] hi by (auto simp: a(1))
  have s: "dec_ok S d' \<and> out_ok S out \<and>
    (dHigh d' = dHigh d \<and> dStarted d' = dStarted d \<or> dStarted d' \<and> dHigh d' = esi + 1)"
    using dec_Source_ok [of S d v esi d' out] ok sym fresh dec by blast
  then have "dStarted d' \<longrightarrow> (\<exists>n \<le> Suc c. dHigh d' = word_of_nat n)"
    using hi by (auto simp: a(1) intro: le_SucI exI [of _ "Suc c"])
  then show "channel_ok S (Suc c) e' d'" "out_ok S out" using s a(2) by (simp_all add: channel_ok_def)
qed

lemma channel_repair:
  assumes ch: "channel_ok S c e d" and rep: "enc_Repair rid count e = Some r" and dec: "dec_Repair r d = (d', out)"
  shows "channel_ok S c e d'" and "out_ok S out"
proof -
  have enc: "enc_ok S c e" and ok: "dec_ok S d" and hi: "dStarted d \<longrightarrow> (\<exists>n \<le> c. dHigh d = word_of_nat n)"
    using ch by (simp_all add: channel_ok_def)
  note r = enc_Repair_ok [OF enc rep]
  have "eNext e = word_of_nat c" using enc by (simp add: enc_ok_def)
  then have "rFirst r + word_of_int (rCount r) = word_of_nat c" using r(2) by simp
  then have s: "dec_ok S d' \<and> out_ok S out \<and>
      (dHigh d' = dHigh d \<and> dStarted d' = dStarted d \<or> dStarted d' \<and> dHigh d' = word_of_nat c)"
    using dec_Repair_ok [OF ok r(1) dec] by auto
  then have "dStarted d' \<longrightarrow> (\<exists>n \<le> c. dHigh d' = word_of_nat n)" using hi by auto
  then show "channel_ok S c e d'" "out_ok S out" using s enc by (simp_all add: channel_ok_def)
qed

lemma transmit_ok:
  "channel_ok S c e d \<Longrightarrow> c + length (sent ops) \<le> 2 ^ 31 \<Longrightarrow>
   \<forall>i < length (sent ops). S (word_of_nat (c + i)) = sent ops ! i \<Longrightarrow>
   transmit ops e d = (outs, e', d') \<Longrightarrow>
   (\<forall>out\<in>set outs. out_ok S out) \<and> channel_ok S (c + length (sent ops)) e' d'"
proof (induction ops e d arbitrary: c outs rule: transmit.induct)
  case (1 e d)
  then show ?case by simp
next
  case (2 v arrives ops e d)
  obtain esi e1 where add: "Add v e = (esi, e1)" by fastforce
  obtain d1 out where dec: "dec_Source esi v d = (d1, out)" by fastforce
  have v: "v = S (word_of_nat c)" using "2.prems"(3) by force
  have c: "c < 2 ^ 31" using "2.prems"(2) by simp
  note step = channel_source [OF "2.prems"(1) v c add dec]
  have rest: "\<forall>i < length (sent ops). S (word_of_nat (Suc c + i)) = sent ops ! i"
  proof (intro allI impI)
    fix i assume "i < length (sent ops)"
    then show "S (word_of_nat (Suc c + i)) = sent ops ! i" using "2.prems"(3)[rule_format, of "Suc i"] by simp
  qed
  have len: "Suc c + length (sent ops) \<le> 2 ^ 31" using "2.prems"(2) by simp
  show ?case
  proof (cases arrives)
    case True
    then obtain outs1 where t: "transmit ops e1 d1 = (outs1, e', d')" "outs = out # outs1"
      using "2.prems"(4) add dec by (auto split: prod.splits)
    from "2.IH"(1) [OF add [symmetric] True dec [symmetric] step(1) len rest t(1)]
    show ?thesis using step(3) t(2) by simp
  next
    case False
    then have "transmit ops e1 d = (outs, e', d')" using "2.prems"(4) add by simp
    from "2.IH"(2) [OF add [symmetric] False step(2) len rest this] show ?thesis by simp
  qed
next
  case (3 rid count arrives ops e d)
  show ?case
  proof (cases "enc_Repair rid count e")
    case None
    then have "transmit ops e d = (outs, e', d')" using "3.prems"(4) by simp
    from "3.IH"(1) [OF None "3.prems"(1) _ _ this] show ?thesis using "3.prems"(2,3) by simp
  next
    case (Some r)
    obtain d1 out where dec: "dec_Repair r d = (d1, out)" by fastforce
    note step = channel_repair [OF "3.prems"(1) Some dec]
    show ?thesis
    proof (cases arrives)
      case True
      then obtain outs1 where t: "transmit ops e d1 = (outs1, e', d')" "outs = out # outs1"
        using "3.prems"(4) Some dec by (auto split: prod.splits)
      from "3.IH"(2) [OF Some True dec [symmetric] step(1) _ _ t(1)]
      show ?thesis using "3.prems"(2,3) step(2) t(2) by simp
    next
      case False
      then have "transmit ops e d = (outs, e', d')" using "3.prems"(4) Some by simp
      from "3.IH"(3) [OF Some False "3.prems"(1) _ _ this] show ?thesis using "3.prems"(2,3) by simp
    qed
  qed
next
  case (4 n arrives ops e d)
  have enc: "enc_ok S c e" using "4.prems"(1) by (simp add: channel_ok_def)
  then have "enc_ok S c (SetCapacity n e)" by (intro SetCapacity_ok) (auto simp: enc_ok_def)
  then have "channel_ok S c (SetCapacity n e) d" using "4.prems"(1) by (simp add: channel_ok_def)
  from "4.IH" [OF this] "4.prems"(2-4) show ?case by simp
next
  case (5 arrives ops e d)
  have "channel_ok S c (Reset e) d" using "5.prems"(1) Reset_ok by (simp add: channel_ok_def)
  from "5.IH" [OF this] "5.prems"(2-4) show ?case by simp
qed

end
