(* ===== verification/FecClaims.thy ===== *)
theory FecClaims
  imports FecChannel
begin

text \<open>What the erasure code guarantees, and the one arrival order under which it does not.\<close>

section \<open>The field\<close>

text \<open>The tables of \<^verbatim>\<open>gf.go\<close> make the bytes a field with exclusive or as its addition.\<close>

theorem gf_is_field:
  "gfMul a (xor b c) = xor (gfMul a b) (gfMul a c) \<and> gfMul a b = gfMul b a \<and>
   gfMul a (gfMul b c) = gfMul (gfMul a b) c \<and> gfMul 1 a = a \<and> gfMul 0 a = 0 \<and>
   (a = 0 \<or> gfMul (inv_byte a) a = 1)"
  by (cases "a = 0") (simp_all add: gfMul_xor_right gfMul_commute [of a b] gfMul_assoc gfMul_inv)

section \<open>Soundness over the erasure channel\<close>

lemma recovered_sound:
  assumes "transmit ops (NewWindowEncoder cap) NewWindowDecoder = (outs, e, d)"
    and "length (sent ops) \<le> 2 ^ 31" and "\<forall>i < length (sent ops). S (word_of_nat i) = sent ops ! i"
    and "out \<in> set outs" and "(esi, v) \<in> set (outRecovered out)"
  shows "same_symbol v (S esi)"
proof -
  have "channel_ok S 0 (NewWindowEncoder cap) NewWindowDecoder"
    using NewWindowEncoder_ok NewWindowDecoder_ok NewWindowDecoder_idle by (simp add: channel_ok_def)
  from transmit_ok [OF this _ _ assms(1)] assms(2-4) have "out_ok S out" by simp
  then show ?thesis using assms(5) by (auto simp: out_ok_def)
qed

text \<open>C13. Over a path that erases any datagrams, with repairs over any spans and the sender's window resized
  or reset at any time: every symbol the decoder recovers is one that was sent, byte for byte up to
  the zeros that pad it to the repair's length.\<close>

theorem fec_recovers_what_was_sent:
  assumes "transmit ops (NewWindowEncoder cap) NewWindowDecoder = (outs, e, d)"
    and "length (sent ops) \<le> 2 ^ 31" and "out \<in> set outs" and "(esi, v) \<in> set (outRecovered out)"
  shows "unat esi < length (sent ops) \<and> (\<forall>j. (if j < length v then v ! j else 0) =
    (if j < length (sent ops ! unat esi) then sent ops ! unat esi ! j else 0))"
proof -
  have extend: "\<forall>i < length (sent ops). (\<lambda>e :: u32. if unat e < length (sent ops) then sent ops ! unat e else w) (word_of_nat i)
      = sent ops ! i" for w
    using assms(2) by (simp add: unat_of_nat_small)
  note sound = recovered_sound [OF assms(1,2) extend assms(3,4)]
  have "unat esi < length (sent ops)"
  proof (rule ccontr)
    assume no: "\<not> unat esi < length (sent ops)"
    have "same_symbol v []" "same_symbol v [1]"
      using sound [of "[]"] sound [of "[1]"] no by simp_all
    then have "zext [] 0 = zext [1 :: byte] 0" unfolding same_symbol_def by metis
    then show False by (simp add: zext_def)
  qed
  then show ?thesis using sound [of "[]"] by (simp add: same_symbol_def zext_def)
qed

section \<open>One unknown\<close>

lemma harvest_none: "dRows d = [] \<Longrightarrow> harvest (d, out) = (d, out)"
  by (simp add: harvest.simps [of d] harvest_pass.simps [of 0 False d])

lemma harvest_many:
  "dRows d = [r] \<Longrightarrow> leading d (wCoef r) = (p, n) \<Longrightarrow> 1 < n \<Longrightarrow> harvest (d, out) = (d, out)"
  by (simp add: harvest.simps [of d] harvest_pass.simps [of 0 False d] harvest_pass.simps [of "Suc 0" False d])

lemma harvest_single:
  assumes "dRows d = [r]" and "leading d (wCoef r) = (p, 1)" and "\<not> known_at d p"
  shows "outRecovered (snd (harvest (d, out))) = outRecovered out @ [(p, wData r)]"
proof -
  let ?rest = "d\<lparr>dRows := []\<rparr>"
  obtain d1 out1 where sub: "substitute p (wData r) True (?rest, out) = (d1, out1)" by fastforce
  have "dRows d1 = []" using substitute_rows_length [of p "wData r" True ?rest out] sub by simp
  moreover have "outRecovered out1 = outRecovered out @ [(p, wData r)]"
    using sub assms(3) by (auto simp: substitute_def Let_def known_at_def slot_of_def)
  moreover have "harvest_pass 0 False (d, out) = harvest_pass 0 True (d1, out1)"
    using assms sub by (simp add: harvest_pass.simps [of 0 False d])
  ultimately show ?thesis
    by (simp add: harvest.simps [of d] harvest_pass.simps [of 0 True d1] harvest_none)
qed

lemma filter_single: "distinct xs \<Longrightarrow> q \<in> set xs \<Longrightarrow> \<forall>x\<in>set xs. P x \<longleftrightarrow> x = q \<Longrightarrow> filter P xs = [q]"
  by (induction xs) (auto simp: filter_empty_conv)

lemma window_ids:
  assumes "dHigh d = dLo d + 512"
  shows "distinct (ids (dLo d) (dHigh d))" and "set (ids (dLo d) (dHigh d)) = {e. in_window (dLo d) e}"
proof -
  have es: "ids (dLo d) (dHigh d) = map (\<lambda>i. dLo d + word_of_nat i) [0..<512]"
    using ids_window [of 512 "dLo d"] assms by simp
  have "unat (word_of_nat i :: u32) = i" if "i < 512" for i using that by (simp add: unat_of_nat_small)
  then have "inj_on (\<lambda>i. dLo d + word_of_nat i :: u32) (set [0..<512])"
    by (intro inj_onI) (metis add_left_cancel atLeastLessThan_iff set_upt)
  then show "distinct (ids (dLo d) (dHigh d))" unfolding es by (simp add: distinct_map)
  show "set (ids (dLo d) (dHigh d)) = {e. in_window (dLo d) e}"
    unfolding es by (auto simp: image_iff Bex_def dest: window_offset)
qed

lemma leading_filter:
  assumes "dMask d = 511"
  shows "leading d coef = (let un = filter (\<lambda>e. coef ! slot e \<noteq> 0) (ids (dLo d) (dHigh d)) in
    (if un \<noteq> [] then hd un else 0, length un))"
  using leading_fold [of "\<lambda>e. coef ! slot e = 0" 0 0 "ids (dLo d) (dHigh d)"] assms
  by (simp add: leading_def Let_def)

lemma leading_single:
  assumes "dMask d = 511" and "dHigh d = dLo d + 512" and "in_window (dLo d) q" and "coef ! slot q \<noteq> 0"
    and "\<forall>i < 512. i \<noteq> slot q \<longrightarrow> coef ! i = 0"
  shows "leading d coef = (q, 1)"
proof -
  have "filter (\<lambda>e. coef ! slot e \<noteq> 0) (ids (dLo d) (dHigh d)) = [q]"
  proof (rule filter_single)
    show "distinct (ids (dLo d) (dHigh d))" "q \<in> set (ids (dLo d) (dHigh d))"
      using window_ids [OF assms(2)] assms(3) by simp_all
    show "\<forall>x\<in>set (ids (dLo d) (dHigh d)). (coef ! slot x \<noteq> 0) = (x = q)"
      using window_ids(2) [OF assms(2)] assms(3-5) by (metis mem_Collect_eq slot_inj slot_less)
  qed
  then show ?thesis by (simp add: leading_filter [OF assms(1)])
qed

section \<open>A late source symbol\<close>

lemma reduce_known_idle:
  assumes "dMask d = 511" and "\<forall>i < 512. \<not> slLive (dSlots d ! i)"
  shows "reduce_known d eq = eq"
proof -
  have "foldl (\<lambda>(coef, data) esi.
       let index = slot_of d esi; s = dSlots d ! index in
       if coef ! index = 0 then (coef, data)
       else if slLive s \<and> slKnown s
       then (coef[index := 0], addScaled (coef ! index) (slVector s) (ensure data (length (slVector s))))
       else (coef, data)) eq es = eq" for es
    using assms by (induction es) (simp_all add: Let_def split_beta)
  then show ?thesis by (simp add: reduce_known_def)
qed

text \<open>A fresh decoder that a repair over the first two symbols reaches before they do.\<close>

definition fresh2 :: decoder where
  "fresh2 = NewWindowDecoder\<lparr>dStarted := True, dOrigin := 0, dHigh := 2, dLo := 2 - 512\<rparr>"

lemma fresh2_facts:
  "dMask fresh2 = 511" "dHigh fresh2 = 2" "dLo fresh2 = 2 - 512" "dStarted fresh2" "dRows fresh2 = []"
  "length (dSlots fresh2) = 512" "\<forall>i < 512. \<not> slLive (dSlots fresh2 ! i)" "dec_inv S fresh2"
proof -
  have ok: "dec_ok S NewWindowDecoder" by (rule NewWindowDecoder_ok)
  then have idle: "dRows NewWindowDecoder = []" "\<forall>i < 512. \<not> slLive (dSlots NewWindowDecoder ! i)"
    using NewWindowDecoder_idle by (simp_all add: dec_ok_def)
  show "dMask fresh2 = 511" "dHigh fresh2 = 2" "dLo fresh2 = 2 - 512" "dStarted fresh2" "dRows fresh2 = []"
    "length (dSlots fresh2) = 512" "\<forall>i < 512. \<not> slLive (dSlots fresh2 ! i)"
    using ok idle by (simp_all add: fresh2_def dec_ok_def dec_inv_def slots_ok_def)
  then show "dec_inv S fresh2" by (simp add: dec_inv_def slots_ok_def slot_ok_def)
qed

lemma fresh2_window:
  "in_window (2 - 512) 0" "in_window (2 - 512) 1" "slot 0 = 0" "slot 1 = 1"
  by (simp_all add: in_window_def slot_def)

lemma fresh2_ids: "\<exists>xs. ids (dLo fresh2) (dHigh fresh2) = xs @ [0, 1]"
proof -
  have "ids (dLo fresh2) (dLo fresh2 + word_of_nat 512) = map (\<lambda>i. dLo fresh2 + word_of_nat i) [0..<512]"
    by (rule ids_window) simp
  moreover have "[0..<512] = [0..<510] @ [510, 511 :: nat]" by (simp add: upt_rec [of 510] upt_rec [of 511] upt_add_eq_append [of 0 510 2, simplified])
  moreover have "dLo fresh2 + word_of_nat 512 = dHigh fresh2" by (simp add: fresh2_facts)
  ultimately show ?thesis by (simp add: fresh2_facts)
qed

lemma windowCoefficient_nonzero [simp]: "windowCoefficient rid i \<noteq> 0"
proof -
  have "(ucast (x mod 255) :: byte) + 1 \<noteq> 0" for x :: u32
  proof
    assume z: "(ucast (x mod 255) :: byte) + 1 = 0"
    have small: "unat (x mod 255) < 255" by (simp add: unat_mod)
    have "unat (ucast (x mod 255) :: byte) = unat (x mod 255)"
      using small by (simp add: unsigned_ucast_eq take_bit_nat_eq_self)
    then have "unat ((ucast (x mod 255) :: byte) + 1) = unat (x mod 255) + 1"
      using small by (subst unat_add_no_wrap) simp_all
    then show False unfolding z by simp
  qed
  then show ?thesis by (simp add: windowCoefficient_def Let_def)
qed

definition first_row :: "repair \<Rightarrow> window_row" where
  "first_row r = (let f = inv_byte (windowCoefficient (rRID r) 0) in
     \<lparr>wPivot = 0, wCoef = scaleBytes f ((replicate 512 0)[0 := windowCoefficient (rRID r) 0, 1 := windowCoefficient (rRID r) 1]),
      wData = scaleBytes f (rVector r)\<rparr>)"

lemma admit_fresh:
  "admit 1 (NewWindowDecoder, no_delivery) = (True, NewWindowDecoder\<lparr>dStarted := True, dOrigin := 1, dHigh := 2, dLo := 2 - 512\<rparr>, no_delivery)"
proof -
  have "length (dSlots NewWindowDecoder) = 512"
    using NewWindowDecoder_ok [of undefined] by (simp add: dec_ok_def dec_inv_def slots_ok_def)
  then show ?thesis using NewWindowDecoder_idle by (simp add: admit_def Let_def)
qed

lemma fresh2_coefficients:
  assumes "rFirst r = 0" and "rCount r = 2"
  shows "repair_coefficients r fresh2 =
    (replicate 512 0)[0 := windowCoefficient (rRID r) 0, 1 := windowCoefficient (rRID r) 1]"
proof -
  have two: "[0..<2] = [0, Suc 0]" by (simp add: upt_rec numeral_2_eq_2)
  show ?thesis
    using fresh2_facts(1-3,6) assms
    by (simp add: repair_coefficients_def two Let_def sint_neg_iff fresh2_window unsigned_minus_1_eq_mask mask_eq_exp_minus_1)
qed

lemma first_repair:
  assumes "rFirst r = 0" and "rCount r = 2" and "rVector r \<noteq> []"
  shows "dec_Repair r NewWindowDecoder = (fresh2\<lparr>dRows := [first_row r]\<rparr>, no_delivery)"
proof -
  let ?c = "windowCoefficient (rRID r)" and ?d = "NewWindowDecoder\<lparr>dStarted := True, dOrigin := 1, dHigh := 2, dLo := 2 - 512\<rparr>"
  let ?coef = "(replicate 512 0)[0 := ?c 0, 1 := ?c 1]"
  have wit: "witness_id 0 ?d = fresh2"
    by (simp add: witness_id_def fresh2_def sint_neg_iff)
  note coef = fresh2_coefficients [OF assms(1,2)]
  have known: "reduce_known fresh2 eq = eq" for eq
    by (rule reduce_known_idle [OF fresh2_facts(1,7)])
  obtain xs where xs: "ids (dLo fresh2) (dHigh fresh2) = xs @ [0, 1]" using fresh2_ids by blast
  have high: "dHigh fresh2 = dLo fresh2 + 512" by (simp add: fresh2_facts)
  have "?coef ! slot x = 0" if "x \<in> set xs" for x
  proof -
    have "in_window (dLo fresh2) x" using window_ids(2) [OF high] xs that by auto
    moreover have "x \<noteq> 0" "x \<noteq> 1" using window_ids(1) [OF high] xs that by auto
    ultimately have "slot x \<noteq> 0" "slot x \<noteq> 1"
      using slot_inj [of "2 - 512" x 0] slot_inj [of "2 - 512" x 1] fresh2_window fresh2_facts(3) by auto
    then show ?thesis by (simp add: nth_list_update)
  qed
  then have "filter (\<lambda>e. ?coef ! slot e \<noteq> 0) xs = []" by (simp add: filter_empty_conv)
  then have lead: "leading fresh2 ?coef = (0, 2)"
    by (simp add: leading_filter [OF fresh2_facts(1)] xs Let_def fresh2_window)
  have row: "normalise (?c 0) (?coef, rVector r) = (wCoef (first_row r), wData (first_row r))" "\<lparr>wPivot = 0, wCoef = wCoef (first_row r), wData = wData (first_row r)\<rparr> = first_row r"
    by (simp_all add: normalise_def first_row_def Let_def scaleBytes_def)
  have "wCoef (first_row r) ! slot e = 0 \<longleftrightarrow> ?coef ! slot e = 0" for e
    by (simp add: first_row_def Let_def)
  then have lead2: "leading (fresh2\<lparr>dRows := [first_row r]\<rparr>) (wCoef (first_row r)) = (0, 2)"
    using lead fresh2_facts(1) by (simp add: leading_filter Let_def)
  have "harvest (fresh2\<lparr>dRows := [first_row r]\<rparr>, no_delivery) = (fresh2\<lparr>dRows := [first_row r]\<rparr>, no_delivery)"
    by (rule harvest_many [OF _ lead2]) simp_all
  then have "insert_row ?coef (rVector r) (fresh2, no_delivery) = (fresh2\<lparr>dRows := [first_row r]\<rparr>, no_delivery)"
    using row lead by (simp add: insert_row_def known reduce_rows_def fresh2_facts(1,5) fresh2_window(3) Let_def)
  then show ?thesis
    using assms wit coef
    by (simp add: dec_Repair_def admit_fresh MaxRepairWindow_def Let_def fresh2_facts(3) sint_neg_iff)
qed

text \<open>C15. A source symbol that arrives after a repair covering it corrupts another symbol. When a repair over the
  first two symbols arrives first and symbol 0 then arrives late, the decoder delivers symbol 1
  multiplied by the quotient of the two coefficients, because \<^verbatim>\<open>harvest\<close> takes the row's constant for the
  symbol although only the row's pivot, just substituted away, was normalised to one.\<close>

theorem late_source_corrupts:
  assumes rep: "repair_ok S r" and r: "rFirst r = 0" "rCount r = 2" "rVector r \<noteq> []"
  shows "\<exists>v. outRecovered (snd (dec_Source 0 (S 0) (fst (dec_Repair r NewWindowDecoder)))) = [(1, v)] \<and>
    (\<forall>j. zext v j = gfMul (gfMul (inv_byte (windowCoefficient (rRID r) 0)) (windowCoefficient (rRID r) 1)) (zext (S 1) j))"
proof -
  let ?c = "windowCoefficient (rRID r)" and ?f = "inv_byte (windowCoefficient (rRID r) 0)"
  let ?row = "first_row r" and ?d = "fresh2\<lparr>dRows := [first_row r]\<rparr>"
  have d: "fst (dec_Repair r NewWindowDecoder) = ?d" using first_repair [OF r] by simp
  have high: "dHigh ?d = dLo ?d + 512" by (simp add: fresh2_facts)
  have idle: "\<not> known_at ?d e" for e
    using fresh2_facts(1,7) slot_less by (simp add: known_at_def Let_def)
  have adm: "admit 0 (?d, no_delivery) = (True, ?d, no_delivery)"
    by (simp add: admit_def Let_def fresh2_facts sint_neg_iff)
  have wit: "witness_id 0 ?d = ?d" by (simp add: witness_id_def fresh2_def)
  let ?r' = "?row\<lparr>wData := addScaled (wCoef ?row ! 0) (S 0) (ensure (wData ?row) (length (S 0))), wCoef := (wCoef ?row)[0 := 0]\<rparr>"
  have one: "wCoef ?row ! 0 = 1" "wCoef ?row ! 1 = gfMul ?f (?c 1)" "length (wCoef ?row) = 512"
    by (simp_all add: first_row_def Let_def gfMul_inv)
  have nz: "gfMul ?f (?c 1) \<noteq> 0"
    by simp
  obtain d3 where sub: "substitute 0 (S 0) False (?d, no_delivery) = (d3, no_delivery)"
      and d3: "dRows d3 = [?r']" "dMask d3 = 511" "dLo d3 = dLo ?d" "dHigh d3 = dHigh ?d"
        "dSlots d3 = (dSlots fresh2)[0 := \<lparr>slEsi = 0, slVector = S 0, slLive = True, slKnown = True\<rparr>]"
    using idle one(1) fresh2_facts(1) fresh2_window(3) by (simp add: substitute_def Let_def)
  have rest: "\<forall>i < 512. i \<noteq> slot 1 \<longrightarrow> wCoef ?r' ! i = 0"
    by (simp add: first_row_def Let_def fresh2_window nth_list_update)
  have lead: "leading d3 (wCoef ?r') = (1, 1)"
  proof (rule leading_single [OF d3(2)])
    show "dHigh d3 = dLo d3 + 512" "in_window (dLo d3) 1" using d3(3,4) high fresh2_window(2) by (simp_all add: fresh2_facts)
    show "wCoef ?r' ! slot 1 \<noteq> 0" using one nz by (simp add: fresh2_window)
  qed (rule rest)
  have "\<not> known_at d3 1"
    using d3(2,5) fresh2_facts(6,7) by (simp add: known_at_def Let_def fresh2_window)
  from harvest_single [OF d3(1) lead this, of no_delivery]
  have rec: "outRecovered (snd (dec_Source 0 (S 0) ?d)) = [(1, wData ?r')]"
    using adm wit idle sub by (simp add: dec_Source_def Let_def)
  have "holds S (dLo ?d) ((replicate 512 0)[0 := ?c 0, 1 := ?c 1], rVector r)"
    using repair_coefficients_ok(2) [OF fresh2_facts(8) _ rep] r fresh2_coefficients [OF r(1,2)] fresh2_window(2)
    by (simp add: fresh2_facts sint_neg_iff)
  then have "holds S (dLo ?d) (wCoef ?row, wData ?row)"
    using holds_scale by (simp add: first_row_def Let_def)
  from holds_known [OF this, of 0 "S 0"] one(1,3) fresh2_window
  have eq: "holds S (dLo ?d) (wCoef ?r', wData ?r')" by (simp add: fresh2_facts)
  have "zext (wData ?r') j = gfMul (gfMul ?f (?c 1)) (zext (S 1) j)" for j
  proof -
    have "zext (wData ?r') j = lin (wCoef ?r') (\<lambda>i. zext (S (cur (dLo ?d) i)) j)" using eq by (simp add: holds_def)
    also have "\<dots> = gfMul (wCoef ?r' ! slot 1) (zext (S (cur (dLo ?d) (slot 1))) j)"
      by (rule lin_single) (use rest one(3) in auto)
    also have "cur (dLo ?d) (slot 1) = 1" using fresh2_window(2) by (simp add: cur_slot fresh2_facts)
    finally show ?thesis using one by (simp add: fresh2_window)
  qed
  then show ?thesis using rec d by auto
qed

text \<open>The sender of the run that goes wrong: two symbols of one byte, and a repair over both.\<close>

definition demo_symbols :: "u32 \<Rightarrow> bytes" where
  "demo_symbols e = (if e = 0 then [7] else if e = 1 then [1] else [])"

definition demo_repair :: repair where
  "demo_repair = the (enc_Repair 0 0 (snd (Add [1] (snd (Add [7] (NewWindowEncoder 2))))))"

lemma demo_encoder: "NewWindowEncoder 2 = \<lparr>eRing = [[], []], eMask = 1, eFirst = 0, eNext = 0, eHeld = 0\<rparr>"
  by (simp add: NewWindowEncoder_def SetCapacity_def roundUpPowerOfTwo_def pow2_loop.simps MaxRepairWindow_def Let_def
      eval_nat_numeral)

lemma demo_coefficients: "windowCoefficient 0 0 = 1" "windowCoefficient 0 1 \<noteq> 1"
  by (simp_all add: windowCoefficient_def Let_def)

lemma demo_repair_ok:
  "repair_ok demo_symbols demo_repair" "rFirst demo_repair = 0" "rCount demo_repair = 2" "rVector demo_repair \<noteq> []"
  "rRID demo_repair = 0"
proof -
  let ?e = "snd (Add [1] (snd (Add [7] (NewWindowEncoder 2))))"
  have e: "?e = \<lparr>eRing = [[7], [1]], eMask = 1, eFirst = 0, eNext = 2, eHeld = 2\<rparr>"
    by (simp add: demo_encoder Add_def at_ring_def Let_def)
  have rep: "enc_Repair 0 0 ?e = Some demo_repair"
    unfolding demo_repair_def e by (simp add: enc_Repair_def Let_def)
  have "enc_ok demo_symbols 1 (snd (Add [7] (NewWindowEncoder 2)))"
    using Add_ok(2) [OF NewWindowEncoder_ok, of "[7]" demo_symbols 2] by (cases "Add [7] (NewWindowEncoder 2)") (simp add: demo_symbols_def)
  then have enc: "enc_ok demo_symbols 2 ?e"
    using Add_ok(2) [of demo_symbols 1 "snd (Add [7] (NewWindowEncoder 2))" "[1]"]
    by (cases "Add [1] (snd (Add [7] (NewWindowEncoder 2)))") (simp add: demo_symbols_def numeral_2_eq_2)
  show "repair_ok demo_symbols demo_repair" by (rule enc_Repair_ok(1) [OF enc rep])
  have two: "[0..<2] = [0, Suc 0]" by (simp add: upt_rec numeral_2_eq_2)
  show "rFirst demo_repair = 0" "rCount demo_repair = 2" "rVector demo_repair \<noteq> []" "rRID demo_repair = 0"
    unfolding demo_repair_def e
    by (simp_all add: enc_Repair_def Let_def repair_span_def MaxRepairWindow_def two at_ring_def addScaled_def mulSliceXor_def)
qed

theorem late_source_corrupts_witness:
  "\<exists>v. outRecovered (snd (dec_Source 0 [7] (fst (dec_Repair demo_repair NewWindowDecoder)))) = [(1, v)] \<and> v \<noteq> [1] \<and>
     zext v 0 \<noteq> zext [1] 0"
proof -
  obtain v where v: "outRecovered (snd (dec_Source 0 (demo_symbols 0) (fst (dec_Repair demo_repair NewWindowDecoder)))) = [(1, v)]"
    "zext v 0 = gfMul (gfMul (inv_byte 1) (windowCoefficient 0 1)) (zext (demo_symbols 1) 0)"
    using late_source_corrupts [OF demo_repair_ok(1-4)] demo_repair_ok(5) demo_coefficients(1) by auto
  have "inv_byte 1 = 1" using gfMul_inv [of 1] by simp
  then have "zext v 0 \<noteq> zext [1] 0" using v(2) demo_coefficients(2) by (simp add: demo_symbols_def zext_def)
  then show ?thesis using v(1) by (auto simp: demo_symbols_def)
qed

section \<open>Whatever the peer sends\<close>

text \<open>Any calls, in any order, with any identifiers, spans and vectors.\<close>

datatype arrival = GotSource u32 bytes | GotRepair repair

fun receive :: "arrival \<Rightarrow> decoder \<Rightarrow> decoder \<times> delivery" where
  "receive (GotSource esi v) d = dec_Source esi v d"
| "receive (GotRepair r) d = dec_Repair r d"

fun receive_all :: "arrival list \<Rightarrow> decoder \<Rightarrow> decoder" where
  "receive_all [] d = d"
| "receive_all (a # as) d = receive_all as (fst (receive a d))"

definition width_ok :: "decoder \<Rightarrow> bool" where
  "width_ok d \<longleftrightarrow> length (dSlots d) = 512 \<and> dMask d = 511 \<and> (\<forall>r\<in>set (dRows d). length (wCoef r) = 512)"

lemma substitute_width: "width_ok d \<Longrightarrow> width_ok (fst (substitute e v b (d, out))) \<and>
    outLost (snd (substitute e v b (d, out))) = outLost out"
  by (auto simp: substitute_def Let_def width_ok_def)

lemma harvest_pass_width:
  "harvest_pass i p (d, out) = (p', d', out') \<Longrightarrow> width_ok d \<Longrightarrow> width_ok d' \<and> outLost out' = outLost out"
proof (induction i p "(d, out)" arbitrary: d out rule: harvest_pass.induct)
  case (1 i p d out)
  show ?case
  proof (cases "i < length (dRows d)")
    case True
    let ?r = "dRows d ! i" and ?rest = "d\<lparr>dRows := take i (dRows d) @ drop (i + 1) (dRows d)\<rparr>"
    obtain q n where lead: "leading d (wCoef ?r) = (q, n)" by fastforce
    obtain d1 out1 where sub: "substitute q (wData ?r) True (?rest, out) = (d1, out1)" by fastforce
    have rest: "width_ok ?rest" using "1.prems"(2) by (auto simp: width_ok_def dest: in_set_takeD in_set_dropD)
    then have d1: "width_ok d1" "outLost out1 = outLost out"
      using substitute_width [of ?rest q "wData ?r" True out] sub by simp_all
    note IH = "1.hyps"(1) [OF True refl refl lead [symmetric]]
      "1.hyps"(2) [OF True refl refl lead [symmetric]]
      "1.hyps"(3) [OF True refl refl lead [symmetric]]
    consider "n = 0" | "n > 1" | "n = 1" by linarith
    then show ?thesis
    proof cases
      case 1
      then show ?thesis using "1.prems" IH(1) rest True lead by (simp add: harvest_pass.simps [of i p d])
    next
      case 2
      then show ?thesis using "1.prems" IH(2) True lead by (simp add: harvest_pass.simps [of i p d])
    next
      case 3
      then show ?thesis using "1.prems" IH(3) [OF _ _ sub] d1 True lead sub by (simp add: harvest_pass.simps [of i p d])
    qed
  next
    case False
    then show ?thesis using "1.prems" by (simp add: harvest_pass.simps [of i p d])
  qed
qed

lemma harvest_width:
  "harvest (d, out) = (d', out') \<Longrightarrow> width_ok d \<Longrightarrow> width_ok d' \<and> outLost out' = outLost out"
proof (induction "(d, out)" arbitrary: d out rule: harvest.induct)
  case (1 d out)
  obtain pr d1 out1 where pass: "harvest_pass 0 False (d, out) = (pr, d1, out1)" by (metis surj_pair)
  note step = harvest_pass_width [OF pass "1.prems"(2)]
  show ?case
  proof (cases pr)
    case True
    then have "harvest (d1, out1) = (d', out')" using "1.prems"(1) pass by (simp add: harvest.simps [of d])
    from "1.hyps" [OF pass [symmetric] refl True this] show ?thesis using step by simp
  next
    case False
    then show ?thesis using "1.prems"(1) pass step by (simp add: harvest.simps [of d])
  qed
qed

lemma evict_width:
  assumes "width_ok d" and "evict esi (d, out) = (d', out')"
  shows "width_ok d'" and "length (outLost out') \<le> Suc (length (outLost out))" and "dLo d' = dLo d"
  using assms(1) evict_fields [OF assms(2)] by (auto simp: width_ok_def)

lemma admit_walk_width:
  "width_ok d \<Longrightarrow> admit_walk w es (d, out) = (d', out') \<Longrightarrow>
     width_ok d' \<and> length (outLost out') \<le> length (outLost out) + length es"
proof (induction es arbitrary: d out)
  case (Cons e es)
  show ?case
  proof (cases "w < dHigh d - dLo d")
    case True
    obtain d1 out1 where ev: "evict (dLo d) (d, out) = (d1, out1)" by fastforce
    note s = evict_width [OF Cons.prems(1) ev]
    have "width_ok (d1\<lparr>dLo := dLo d1 + 1\<rparr>)" using s(1) by (simp add: width_ok_def)
    from Cons.IH [OF this] Cons.prems(2) True ev s(2) show ?thesis by fastforce
  next
    case False
    then show ?thesis using Cons.prems by auto
  qed
qed simp

lemma admit_width:
  assumes d: "width_ok d" and res: "admit esi (d, out) = (b, d', out')"
  shows "width_ok d' \<and> length (outLost out') \<le> length (outLost out) + 512"
proof -
  have len: "length (dSlots d) = 512" using d by (simp add: width_ok_def)
  obtain d1 out1 where walk: "admit_walk 512 (ids (dLo d) (dLo d + 512)) (d\<lparr>dHigh := esi + 1\<rparr>, out) = (d1, out1)"
    by fastforce
  have "width_ok (d\<lparr>dHigh := esi + 1\<rparr>)" using d by (simp add: width_ok_def)
  from admit_walk_width [OF this walk] have "width_ok d1" "length (outLost out1) \<le> length (outLost out) + 512"
    by (simp_all add: walk_length)
  then show ?thesis
    using res d walk len by (auto simp: admit_def Let_def width_ok_def split: if_splits)
qed

lemma insert_row_width:
  assumes d: "width_ok d" and len: "length coef0 = 512" and res: "insert_row coef0 data0 (d, out) = (d', out')"
  shows "width_ok d' \<and> outLost out' = outLost out"
proof -
  have mask: "dMask d = 511" and rows: "\<forall>r\<in>set (dRows d). length (wCoef r) = 512"
    using d by (simp_all add: width_ok_def)
  have known_step: "length (fst (foldl (\<lambda>(coef, data) esi.
       let index = slot_of d esi; s = dSlots d ! index in
       if coef ! index = 0 then (coef, data)
       else if slLive s \<and> slKnown s
       then (coef[index := 0], addScaled (coef ! index) (slVector s) (ensure data (length (slVector s))))
       else (coef, data)) eq es)) = length (fst eq)" for eq es
    by (induction es arbitrary: eq) (auto simp: Let_def split_beta split: if_splits)
  obtain c1 d1 where known: "reduce_known d (coef0, data0) = (c1, d1)" by fastforce
  then have l1: "length c1 = 512" using known_step [of "(coef0, data0)" "ids (dLo d) (dHigh d)"] len by (simp add: reduce_known_def)
  have rows_step: "length (fst eq) = 512 \<Longrightarrow> \<forall>r\<in>set rs. length (wCoef r) = 512 \<Longrightarrow>
      length (fst (foldl (\<lambda>(coef, data) r. let c = coef ! slot_of d (wPivot r) in
       if c = 0 then (coef, data) else reduce_row c (wCoef r) (wData r) (coef, data)) eq rs)) = 512" for eq rs
  proof (induction rs arbitrary: eq)
    case (Cons r rs)
    then show ?case by (cases eq) (simp add: Let_def reduce_row_length)
  qed simp
  obtain coef data where red: "reduce_rows d (c1, d1) = (coef, data)" by fastforce
  have l2: "length coef = 512" using rows_step [of "(c1, d1)" "dRows d"] l1 rows red by (simp add: reduce_rows_def)
  obtain p n where lead: "leading d coef = (p, n)" by fastforce
  show ?thesis
  proof (cases "n = 0")
    case True
    then show ?thesis using res known red lead d by (auto simp: insert_row_def width_ok_def)
  next
    case False
    obtain coef' data' where norm: "normalise (coef ! slot_of d p) (coef, data) = (coef', data')" by fastforce
    then have l3: "length coef' = 512" using l2 by (auto simp: normalise_def Let_def split: if_splits)
    let ?row = "\<lparr>wPivot = p, wCoef = coef', wData = data'\<rparr>"
    have "length (wCoef (clear_pivot d ?row r)) = 512" if "r \<in> set (dRows d)" for r
      using reduce_row_length [of "wCoef r" coef' "wCoef r ! slot_of d p" data' "wData r"] l3 rows that
      by (auto simp: clear_pivot_def Let_def split: prod.splits)
    then have "width_ok (d\<lparr>dRows := map (clear_pivot d ?row) (dRows d) @ [?row]\<rparr>)"
      using d l3 by (auto simp: width_ok_def)
    moreover have "harvest (d\<lparr>dRows := map (clear_pivot d ?row) (dRows d) @ [?row]\<rparr>, out) = (d', out')"
      using res known red lead False norm by (simp add: insert_row_def Let_def)
    ultimately show ?thesis using harvest_width by blast
  qed
qed

lemma receive_width:
  assumes d: "width_ok d" and res: "receive a d = (d', out)"
  shows "width_ok d' \<and> length (outLost out) \<le> 512"
proof (cases a)
  case (GotSource esi v)
  obtain b d1 out1 where ad: "admit esi (d, no_delivery) = (b, d1, out1)" by (metis surj_pair)
  have a: "width_ok d1" "length (outLost out1) \<le> 512" using admit_width [OF d ad] by simp_all
  let ?d2 = "witness_id esi d1"
  have d2: "width_ok ?d2" using a(1) by (simp add: width_ok_def)
  obtain d3 out3 where sub: "substitute esi v False (?d2, out1) = (d3, out3)" by fastforce
  obtain d4 out4 where har: "harvest (d3, out3) = (d4, out4)" by fastforce
  have "width_ok d3" "outLost out3 = outLost out1" using substitute_width [OF d2, of esi v False out1] sub by simp_all
  with harvest_width [OF har] have "width_ok d4" "outLost out4 = outLost out1" by simp_all
  then show ?thesis
    using res GotSource ad a d2 sub har by (auto simp: dec_Source_def Let_def split: if_splits)
next
  case (GotRepair r)
  have disc: "width_ok (d\<lparr>dDiscarded := n\<rparr>)" if "width_ok d" for d n using that by (simp add: width_ok_def)
  show ?thesis
  proof (cases "rCount r \<le> 0 \<or> rVector r = [] \<or> rCount r > int MaxRepairWindow")
    case True
    then show ?thesis using res GotRepair d disc by (auto simp: dec_Repair_def split: if_splits)
  next
    case False
    obtain b d1 out1 where ad: "admit (rFirst r + word_of_int (rCount r - 1)) (d, no_delivery) = (b, d1, out1)"
      by (metis surj_pair)
    have a: "width_ok d1" "length (outLost out1) \<le> 512" using admit_width [OF d ad] by simp_all
    let ?d2 = "witness_id (rFirst r) d1"
    have d2: "width_ok ?d2" using a(1) by (simp add: width_ok_def)
    have "length (foldl (\<lambda>coef i. let esi = rFirst r + word_of_nat i in
       if sint (esi - dLo ?d2) < 0 \<or> \<not> sint (esi - dHigh ?d2) < 0 then coef
       else coef[slot_of ?d2 esi := windowCoefficient (rRID r) i]) c xs) = length c" for c xs
      by (induction xs arbitrary: c) (simp_all add: Let_def)
    then have len: "length (repair_coefficients r ?d2) = 512" using d2 by (simp add: repair_coefficients_def width_ok_def)
    obtain d4 out4 where ins: "insert_row (repair_coefficients r ?d2) (rVector r) (?d2, out1) = (d4, out4)" by fastforce
    have "width_ok d4" "outLost out4 = outLost out1" using insert_row_width [OF d2 len ins] by simp_all
    then show ?thesis
      using res GotRepair False ad a d2 ins disc by (auto simp: dec_Repair_def Let_def split: if_splits)
  qed
qed

lemma width_new: "width_ok NewWindowDecoder"
  using NewWindowDecoder_ok [of undefined] NewWindowDecoder_idle by (simp add: dec_ok_def dec_inv_def slots_ok_def width_ok_def)

lemma receive_all_width: "width_ok d \<Longrightarrow> width_ok (receive_all as d)"
proof (induction as arbitrary: d)
  case (Cons a as)
  have "width_ok (fst (receive a d))" using receive_width [OF Cons.prems, of a] by (cases "receive a d") simp
  then show ?case using Cons.IH by simp
qed simp

text \<open>Whatever a peer sends, however far ahead the identifiers it names: the decoder keeps 512 slots and
  rows of 512 coefficients, and one datagram reports at most 512 symbols lost, so the walk over the
  window it triggers is bounded.\<close>

theorem decoder_bounded:
  "Width (receive_all as NewWindowDecoder) = MinDecoderWidth \<and>
   (\<forall>r. r \<in> set (dRows (receive_all as NewWindowDecoder)) \<longrightarrow> length (wCoef r) = MinDecoderWidth) \<and>
   length (outLost (snd (receive a (receive_all as NewWindowDecoder)))) \<le> MinDecoderWidth"
proof -
  have d: "width_ok (receive_all as NewWindowDecoder)" by (rule receive_all_width [OF width_new])
  then have "length (outLost (snd (receive a (receive_all as NewWindowDecoder)))) \<le> 512"
    using receive_width [OF d, of a] by (cases "receive a (receive_all as NewWindowDecoder)") simp
  then show ?thesis
    using d by (simp add: width_ok_def Width_def MinDecoderWidth_def MaxRepairWindow_def)
qed

theorem decoder_bounded_witness:
  "length (outLost (snd (receive (GotSource 1073741824 []) (receive_all [GotSource 0 []] NewWindowDecoder)))) \<le> 512"
  using decoder_bounded [of "[GotSource 0 []]" "GotSource 1073741824 []"]
  by (simp add: MinDecoderWidth_def MaxRepairWindow_def)

end
