(* ===== verification/FecRepair.thy ===== *)
theory FecRepair
  imports FecClaims
begin

text \<open>A single erasure in a window is repaired by the first repair over it, whichever symbol it was.\<close>

section \<open>What sliding keeps\<close>

lemma known_evict:
  assumes inv: "dec_inv S d" and res: "evict (dLo d) (d, out) = (d', out')"
  shows "known_at d e \<Longrightarrow> e \<noteq> dLo d \<Longrightarrow> known_at d' e" and "known_at d' e \<Longrightarrow> known_at d e"
proof -
  have mask: "dMask d = 511" and len: "length (dSlots d) = 512" using inv by (simp_all add: dec_inv_def slots_ok_def)
  note f = evict_fields [OF res, unfolded slot_of_slot [OF mask]]
  have mask': "dMask d' = 511" using f(1) mask by simp
  show "known_at d' e" if k: "known_at d e" "e \<noteq> dLo d"
  proof -
    have "slot e \<noteq> slot (dLo d) \<or> \<not> held_at d (dLo d)"
      using k mask by (auto simp: known_at_def held_at_def Let_def)
    then show ?thesis using k(1) len mask mask' by (auto simp: known_at_def f(7) Let_def)
  qed
  show "known_at d e" if "known_at d' e"
    using that len mask mask' by (auto simp: known_at_def f(7) Let_def nth_list_update empty_slot_def split: if_splits)
qed

lemma known_walk:
  "dec_inv S d \<Longrightarrow> admit_walk 512 es (d, out) = (d', out') \<Longrightarrow>
     (known_at d' e \<longrightarrow> known_at d e) \<and>
     (known_at d e \<longrightarrow> known_at d' e \<or>
       (\<exists>m n. m < n \<and> n \<le> length es \<and> e = dLo d + word_of_nat m \<and> dLo d' = dLo d + word_of_nat n)) \<and>
     (dRows d = [] \<longrightarrow> dRows d' = [])"
proof (induction es arbitrary: d out)
  case Nil
  then show ?case by simp
next
  case (Cons x es)
  show ?case
  proof (cases "512 < dHigh d - dLo d")
    case True
    obtain d1 out1 where ev: "evict (dLo d) (d, out) = (d1, out1)" by fastforce
    let ?d1 = "d1\<lparr>dLo := dLo d + 1\<rparr>"
    have inv: "dec_inv S ?d1" by (rule evict_inv [OF Cons.prems(1) ev])
    have same: "known_at ?d1 e = known_at d1 e" by (simp add: known_at_def slot_of_def)
    note k = known_evict [OF Cons.prems(1) ev]
    have "admit_walk 512 es (?d1, out1) = (d', out')"
      using Cons.prems(2) True ev evict_fields(2) [OF ev] by simp
    note IH = Cons.IH [OF inv this]
    have rows: "dRows d = [] \<longrightarrow> dRows ?d1 = []" using evict_fields(8) [OF ev] by simp
    have forth: "known_at d' e \<or> (\<exists>m n. m < n \<and> n \<le> length (x # es) \<and> e = dLo d + word_of_nat m \<and> dLo d' = dLo d + word_of_nat n)"
      if known: "known_at d e"
    proof (cases "e = dLo d")
      case True
      obtain n where "n \<le> length es" "dLo d' = dLo d + 1 + word_of_nat n"
        using admit_walk_spec [OF inv gone_start [OF inv], of "es" out1 d' out'] \<open>admit_walk 512 es _ = _\<close> by auto
      then have "dLo d' = dLo d + word_of_nat (Suc n)" "Suc n \<le> length (x # es)" by (simp_all add: ac_simps)
      then show ?thesis using True by (intro disjI2 exI [of _ 0] exI [of _ "Suc n"]) simp
    next
      case False
      then have "known_at ?d1 e" using k(1) known same by simp
      then consider "known_at d' e" | m n where "m < n" "n \<le> length es" "e = dLo d + 1 + word_of_nat m" "dLo d' = dLo d + 1 + word_of_nat n"
        using IH by auto
      then show ?thesis
      proof cases
        case 2
        then have "e = dLo d + word_of_nat (Suc m)" "dLo d' = dLo d + word_of_nat (Suc n)" "Suc m < Suc n" "Suc n \<le> length (x # es)"
          by (simp_all add: ac_simps)
        then show ?thesis by blast
      qed simp
    qed
    show ?thesis using IH k(2) same rows forth by blast
  next
    case False
    then show ?thesis using Cons.prems by simp
  qed
qed

lemma behind_window: "m < n \<Longrightarrow> n \<le> 2 ^ 31 \<Longrightarrow> \<not> in_window (lo + word_of_nat n) (lo + word_of_nat m)"
proof -
  assume mn: "m < n" "n \<le> 2 ^ 31"
  have "lo + word_of_nat m - (lo + word_of_nat n) = - word_of_nat (n - m)" using mn by (simp add: of_nat_diff)
  moreover have "sint (- word_of_nat (n - m) :: u32) < 0" using sint_minus_small [of "n - m"] mn by simp
  ultimately show ?thesis by (simp add: in_window_def sint_neg_iff)
qed

lemma known_admit:
  assumes ok: "dec_ok S d" and res: "admit esi (d, out) = (b, d', out')"
  shows "known_at d' e \<Longrightarrow> known_at d e" and "known_at d e \<Longrightarrow> in_window (dLo d') e \<Longrightarrow> known_at d' e"
    and "dRows d = [] \<Longrightarrow> dRows d' = []"
proof -
  have inv: "dec_inv S d" and len: "length (dSlots d) = 512" using ok by (simp_all add: dec_ok_def dec_inv_def slots_ok_def)
  have all: "(known_at d' e \<longrightarrow> known_at d e) \<and> (known_at d e \<and> in_window (dLo d') e \<longrightarrow> known_at d' e) \<and>
    (dRows d = [] \<longrightarrow> dRows d' = [])"
  proof (cases "dStarted d \<and> \<not> sint (esi - dLo d) < 0 \<and> \<not> sint (esi - dHigh d) < 0")
    case False
    then show ?thesis using res by (auto simp: admit_def Let_def known_at_def slot_of_def split: if_splits)
  next
    case True
    then have high: "dHigh d = dLo d + 512" using ok by (simp add: dec_ok_def)
    obtain d1 out1 where walk: "admit_walk 512 (ids (dLo d) (dLo d + 512)) (d\<lparr>dHigh := esi + 1\<rparr>, out) = (d1, out1)"
      by fastforce
    let ?d' = "if dHigh d1 - dLo d1 > 512 then d1\<lparr>dLo := dHigh d1 - 512\<rparr> else d1"
    have d': "d' = ?d'" using res True walk len by (auto simp: admit_def Let_def)
    note s = slide_ok [OF inv high _ _ walk refl, folded d']
    have inv0: "dec_inv S (d\<lparr>dHigh := esi + 1\<rparr>)" using inv by (simp add: dec_inv_def)
    have same: "known_at (d\<lparr>dHigh := esi + 1\<rparr>) e = known_at d e" "known_at d' e = known_at d1 e" "dRows d' = dRows d1"
      by (simp_all add: d' known_at_def slot_of_def)
    note w = known_walk [OF inv0 walk, of e, unfolded same walk_length]
    have "\<not> in_window (dLo d') e" if e: "m < n" "n \<le> 512" "e = dLo d + word_of_nat m" "dLo d1 = dLo d + word_of_nat n" for m n
    proof (cases "512 < dHigh d1 - dLo d1")
      case False
      then show ?thesis using behind_window [of m n "dLo d"] e by (simp add: d')
    next
      case jump: True
      let ?x = "unat (esi - dLo d)"
      have x: "?x < 2 ^ 31" using True by (simp add: sint_neg_iff)
      have "\<not> in_window (dLo d) esi" using in_window_iff [OF high, of esi] True by simp
      then have x512: "512 \<le> ?x" by (simp add: in_window_def)
      have "esi + 1 = dLo d' + 512" using s(2,3) True by simp
      then have "dLo d' = dLo d + (esi - dLo d + 1 - 512)" by (simp add: algebra_simps)
      also have "esi - dLo d + 1 - 512 = word_of_nat (?x + 1 - 512)" using x512 by (simp add: of_nat_diff)
      finally have lo: "dLo d' = dLo d + word_of_nat (?x + 1 - 512)" .
      have "dHigh d1 = esi + 1" using s(3) True by (simp add: d' split: if_splits)
      then have "dHigh d1 - dLo d1 = word_of_nat (?x + 1 - n)" using e(2,4) x512 by (simp add: of_nat_diff)
      moreover have "unat (word_of_nat (?x + 1 - n) :: u32) = ?x + 1 - n" using x by (intro unat_of_nat_small) simp
      ultimately have "512 < ?x + 1 - n" using jump by (simp add: word_less_nat_alt)
      then have "m < ?x + 1 - 512" "?x + 1 - 512 \<le> 2 ^ 31" using e(1,2) x by simp_all
      from behind_window [OF this, of "dLo d"] show ?thesis unfolding lo e(3) .
    qed
    then show ?thesis using w same by fastforce
  qed
  then show "known_at d' e \<Longrightarrow> known_at d e" and "known_at d e \<Longrightarrow> in_window (dLo d') e \<Longrightarrow> known_at d' e"
    and "dRows d = [] \<Longrightarrow> dRows d' = []" by blast+
qed

section \<open>The symbols that arrive\<close>

definition arrived_but :: "nat \<Rightarrow> nat \<Rightarrow> decoder \<Rightarrow> bool" where
  "arrived_but m i d \<longleftrightarrow> dRows d = [] \<and> (\<forall>j < i. j \<noteq> m \<longrightarrow> known_at d (word_of_nat j)) \<and>
     \<not> known_at d (word_of_nat m)"

lemma slot_small [simp]: "j < 512 \<Longrightarrow> slot (word_of_nat j) = j"
  by (simp add: slot_mod unat_of_nat_small)

lemma early_window:
  assumes "j \<le> i" and "i < 512" and "high = word_of_nat i + 1"
  shows "in_window (high - 512) (word_of_nat j)"
proof -
  have eq: "word_of_nat j = high - 512 + word_of_nat (511 - i + j)"
    using assms by (simp add: of_nat_diff)
  show ?thesis unfolding eq by (rule in_window_add) (use assms(1,2) in simp)
qed

lemma admit_early:
  assumes ch: "channel_ok S c e d" and i: "i < 512" "i = c \<or> Suc i = c" and adm: "admit (word_of_nat i) (d, out) = (b, d1, out1)"
  shows "b" and "j \<le> i \<Longrightarrow> j = i \<or> known_at d (word_of_nat j) \<Longrightarrow> i = c \<Longrightarrow> in_window (dLo d1) (word_of_nat j)"
    and "Suc i = c \<Longrightarrow> j \<le> i \<Longrightarrow> in_window (dLo d1) (word_of_nat j)"
    and "dStarted d1" and "dHigh d1 = dLo d1 + 512" and "dec_ok S d1"
proof -
  have ok: "dec_ok S d" and hi: "dStarted d \<longrightarrow> (\<exists>n \<le> c. dHigh d = word_of_nat n)" using ch by (simp_all add: channel_ok_def)
  note a = admit_ok [OF ok adm]
  show "dec_ok S d1" by (rule a(1))
  have near: "\<not> sint (word_of_nat i - dLo d) < 0" if st: "dStarted d"
  proof -
    obtain n where n: "n \<le> c" "dHigh d = word_of_nat n" using hi st by blast
    have "dHigh d = dLo d + 512" using ok st by (simp add: dec_ok_def)
    then have "word_of_nat i - dLo d = word_of_nat (i + 512 - n)"
      using n i by (auto simp: of_nat_diff algebra_simps)
    then show ?thesis using sint_small [of "i + 512 - n"] i by simp
  qed
  show b: "b"
  proof (rule ccontr)
    assume nb: "\<not> b"
    then have "dStarted d" using adm by (auto simp: admit_def Let_def split: if_splits)
    then show False using a(7) nb near by blast
  qed
  show st: "dStarted d1" using a(4) b by blast
  then show high: "dHigh d1 = dLo d1 + 512" using a(1) by (simp add: dec_ok_def)
  have fresh: "in_window (dLo d1) (word_of_nat j)" if "dHigh d1 = word_of_nat i + 1" "j \<le> i" for j
    using early_window [OF that(2) i(1) that(1)] high by (simp add: algebra_simps)
  show "in_window (dLo d1) (word_of_nat j)" if "j \<le> i" "j = i \<or> known_at d (word_of_nat j)" "i = c"
  proof -
    have "\<not> (dStarted d \<and> in_window (dLo d) (word_of_nat i))"
      using new_not_in_window [OF ok] hi i that(3) by fastforce
    then show ?thesis using fresh that(1) a(5) b by blast
  qed
  show "in_window (dLo d1) (word_of_nat j)" if c: "Suc i = c" "j \<le> i"
  proof (cases "dStarted d \<and> in_window (dLo d) (word_of_nat i)")
    case True
    then have same: "d1 = d" using a(6) b by simp
    obtain n where n: "n \<le> Suc i" "dHigh d = word_of_nat n" using hi True c(1) by blast
    have "n = Suc i"
    proof (rule ccontr)
      assume "n \<noteq> Suc i"
      then have "n \<le> i" using n(1) by simp
      from new_not_in_window [OF ok _ n(2) this] True i(1) show False by simp
    qed
    then show ?thesis using fresh [of j] c(2) n(2) same by simp
  next
    case False
    then show ?thesis using a(5) b fresh c(2) by blast
  qed
qed

lemma source_arrives:
  assumes ch: "channel_ok S i e d" and arr: "arrived_but m i d" and i: "i < 256" "i \<noteq> m" "m < 256"
    and res: "dec_Source (word_of_nat i) v d = (d', out)"
  shows "arrived_but m (Suc i) d'"
proof -
  have ok: "dec_ok S d" using ch by (simp add: channel_ok_def)
  obtain b d1 out1 where adm: "admit (word_of_nat i) (d, no_delivery) = (b, d1, out1)" by (metis surj_pair)
  have "i < 512" "i = i \<or> Suc i = i" using i by simp_all
  note e = admit_early [OF ch this adm] and k = known_admit [OF ok adm]
  have rows: "dRows d1 = []" using k(3) arr by (simp add: arrived_but_def)
  have known: "known_at d1 (word_of_nat j)" if "j < i" "j \<noteq> m" for j
    using k(2) e(2) [of j] arr that by (simp add: arrived_but_def)
  have lost: "\<not> known_at d1 (word_of_nat m)" using k(1) arr by (auto simp: arrived_but_def)
  have inv: "dMask d1 = 511" "length (dSlots d1) = 512" using e(6) by (simp_all add: dec_ok_def dec_inv_def slots_ok_def)
  let ?d2 = "witness_id (word_of_nat i) d1"
  show ?thesis
  proof (cases "known_at d1 (word_of_nat i)")
    case True
    then have "d' = ?d2" using res adm e(1) by (simp add: dec_Source_def)
    then show ?thesis using rows known lost True by (auto simp: arrived_but_def less_Suc_eq)
  next
    case False
    obtain d3 out3 where sub: "substitute (word_of_nat i) v False (?d2, out1) = (d3, out3)" by fastforce
    have d3: "dRows d3 = []" "dMask d3 = 511"
        "dSlots d3 = (dSlots d1)[i := \<lparr>slEsi = word_of_nat i, slVector = v, slLive = True, slKnown = True\<rparr>]"
      using sub False rows inv i(1) by (auto simp: substitute_def Let_def)
    have d': "d' = d3" using res adm e(1) False sub harvest_none [OF d3(1), of out3] by (simp add: dec_Source_def Let_def)
    have "known_at d3 (word_of_nat j) = known_at d1 (word_of_nat j)" if "j < 256" "j \<noteq> i" for j
      using that i(1) inv d3(2,3) by (simp add: known_at_def)
    moreover have "known_at d3 (word_of_nat i)" using i(1) inv d3(2,3) by (simp add: known_at_def Let_def)
    ultimately show ?thesis
      using known lost d3(1) i by (auto simp: arrived_but_def d' less_Suc_eq)
  qed
qed

section \<open>The repair\<close>

lemma coefficient_length: "length (foldl (\<lambda>coef k. coef[k := c k]) xs ks) = length xs"
  by (induction ks arbitrary: xs) simp_all

lemma coefficient_entries:
  assumes n: "n \<le> 256" and small: "i < 512"
  shows "foldl (\<lambda>coef k. coef[k := c k]) (replicate 512 0) [0..<n] ! i = (if i < n then c i else 0)"
  using n
proof (induction n)
  case (Suc n)
  then show ?case using small by (auto simp: nth_list_update coefficient_length)
qed (use small in simp)

lemma reduce_known_entries:
  assumes mask: "dMask d = 511" and high: "dHigh d = dLo d + 512" and len: "length coef = 512" and i: "i < 512"
  shows "length (fst (reduce_known d (coef, data))) = 512"
    and "fst (reduce_known d (coef, data)) ! i = (if slLive (dSlots d ! i) \<and> slKnown (dSlots d ! i) then 0 else coef ! i)"
proof -
  let ?f = "\<lambda>(coef, data) esi. let index = slot_of d esi; s = dSlots d ! index in
       if coef ! index = 0 then (coef, data)
       else if slLive s \<and> slKnown s
       then (coef[index := 0], addScaled (coef ! index) (slVector s) (ensure data (length (slVector s))))
       else (coef, data)"
  have step: "length (fst eq) = 512 \<Longrightarrow> length (fst (foldl ?f eq es)) = 512 \<and>
      fst (foldl ?f eq es) ! i = (if (\<exists>e\<in>set es. slot e = i) \<and> slLive (dSlots d ! i) \<and> slKnown (dSlots d ! i) then 0 else fst eq ! i)"
    for eq es
  proof (induction es arbitrary: eq)
    case (Cons e es)
    obtain c0 d0 where eq: "eq = (c0, d0)" by fastforce
    have "length (fst (?f eq e)) = 512" using Cons.prems by (simp add: eq Let_def)
    from Cons.IH [OF this] show ?case
      using Cons.prems i mask by (auto simp: eq Let_def nth_list_update)
  qed simp
  have "cur (dLo d) i \<in> set (ids (dLo d) (dHigh d))" using window_ids(2) [OF high] by simp
  then have "\<exists>e\<in>set (ids (dLo d) (dHigh d)). slot e = i" using i by (intro bexI [of _ "cur (dLo d) i"]) simp_all
  then show "length (fst (reduce_known d (coef, data))) = 512"
    and "fst (reduce_known d (coef, data)) ! i = (if slLive (dSlots d ! i) \<and> slKnown (dSlots d ! i) then 0 else coef ! i)"
    using step [of "(coef, data)" "ids (dLo d) (dHigh d)"] len by (simp_all add: reduce_known_def)
qed

lemma repair_recovers:
  assumes ch: "channel_ok S n e d" and arr: "arrived_but m n d" and n: "m < n" "n \<le> 256"
    and r: "rFirst r = 0" "rCount r = int n" "rVector r \<noteq> []" and res: "dec_Repair r d = (d', out)"
  shows "\<exists>v. outRecovered out = [(word_of_nat m, v)]"
proof -
  let ?c = "windowCoefficient (rRID r)"
  obtain c where c: "n = Suc c" using n(1) by (cases n) simp_all
  have newest: "rFirst r + word_of_int (rCount r - 1) = word_of_nat c" by (simp add: r c)
  obtain b d1 out1 where adm: "admit (word_of_nat c) (d, no_delivery) = (b, d1, out1)" by (metis surj_pair)
  have "c < 512" "c = n \<or> Suc c = n" using n c by simp_all
  note e = admit_early [OF ch this adm]
  have ok: "dec_ok S d" using ch by (simp add: channel_ok_def)
  note k = known_admit [OF ok adm] and out1 = admit_ok(2) [OF ok adm]
  have win: "in_window (dLo d1) (word_of_nat j)" if "j < n" for j using e(3) [of j] that c by simp
  have rows: "dRows d1 = []" using k(3) arr by (simp add: arrived_but_def)
  have known: "known_at d1 (word_of_nat j)" if "j < n" "j \<noteq> m" for j
    using k(2) win arr that by (simp add: arrived_but_def)
  have lost: "\<not> known_at d1 (word_of_nat m)" using k(1) arr by (auto simp: arrived_but_def)
  let ?d2 = "witness_id 0 d1"
  have inv: "dMask d1 = 511" "length (dSlots d1) = 512" "slots_ok S (dLo d1) (dSlots d1)"
    using e(6) by (simp_all add: dec_ok_def dec_inv_def slots_ok_def)
  have oldest: "\<not> sint (0 - dLo d1) < 0"
    using win [of 0] n in_window_iff [OF e(5), of 0] by simp
  have coef: "repair_coefficients r ?d2 = foldl (\<lambda>coef k. coef[k := ?c k]) (replicate 512 0) [0..<n]"
    unfolding repair_coefficients_def
  proof (rule foldl_cong)
    fix coef j assume "j \<in> set [0..<nat (rCount r)]"
    then have j: "j < n" using r(2) by simp
    then show "(let esi = rFirst r + word_of_nat j in
        if sint (esi - dLo ?d2) < 0 \<or> \<not> sint (esi - dHigh ?d2) < 0 then coef
        else coef[slot_of ?d2 esi := windowCoefficient (rRID r) j]) = coef[j := ?c j]"
      using win [OF j] in_window_iff [OF e(5), of "word_of_nat j"] inv(1) n(2) by (simp add: r(1) Let_def)
  qed (use inv(2) r(2) in simp_all)
  obtain co da where red: "reduce_known ?d2 (repair_coefficients r ?d2, rVector r) = (co, da)" by fastforce
  have high2: "dHigh ?d2 = dLo ?d2 + 512" using e(5) by simp
  have co: "length co = 512" "i < 512 \<Longrightarrow> co ! i =
      (if slLive (dSlots d1 ! i) \<and> slKnown (dSlots d1 ! i) then 0 else if i < n then ?c i else 0)" for i
    using reduce_known_entries [of ?d2 "repair_coefficients r ?d2" i "rVector r"] reduce_known_entries(1) [of ?d2 "repair_coefficients r ?d2" 0 "rVector r"]
      inv(1) high2 red coef coefficient_entries [OF n(2), of i ?c] by (simp_all add: coefficient_length)
  have live: "slLive (dSlots d1 ! j) \<and> slKnown (dSlots d1 ! j) \<longleftrightarrow> j \<noteq> m" if j: "j < n" for j
  proof
    assume l: "slLive (dSlots d1 ! j) \<and> slKnown (dSlots d1 ! j)"
    have "slot_ok S (dLo d1) j (dSlots d1 ! j)" using inv(3) j n(2) by (simp add: slots_ok_def)
    then have "slot (slEsi (dSlots d1 ! j)) = slot (word_of_nat j)" "in_window (dLo d1) (slEsi (dSlots d1 ! j))"
      using l j n(2) by (simp_all add: slot_ok_def)
    then have "slEsi (dSlots d1 ! j) = word_of_nat j" using slot_inj win [OF j] by blast
    then have "known_at d1 (word_of_nat j)" using l inv(1) j n(2) by (simp add: known_at_def Let_def)
    then show "j \<noteq> m" using lost by auto
  next
    assume "j \<noteq> m"
    then show "slLive (dSlots d1 ! j) \<and> slKnown (dSlots d1 ! j)"
      using known [OF j] inv(1) j n(2) by (simp add: known_at_def Let_def)
  qed
  have only: "\<forall>i < 512. i \<noteq> slot (word_of_nat m) \<longrightarrow> co ! i = 0" and there: "co ! slot (word_of_nat m) = ?c m"
    using co(2) live n by auto
  have lead: "leading ?d2 co = (word_of_nat m, 1)"
    using leading_single [of ?d2 "word_of_nat m" co] inv(1) high2 win [OF n(1)] only there by simp
  obtain co' da' where norm: "normalise (?c m) (co, da) = (co', da')" by fastforce
  then have co': "co' = scaleBytes (inv_byte (?c m)) co" by (auto simp: normalise_def Let_def scaleBytes_def split: if_splits)
  let ?row = "\<lparr>wPivot = word_of_nat m, wCoef = co', wData = da'\<rparr>"
  let ?d3 = "?d2\<lparr>dRows := [?row]\<rparr>"
  have lead': "leading ?d3 co' = (word_of_nat m, 1)"
    using leading_single [of ?d3 "word_of_nat m" co'] inv(1) high2 win [OF n(1)] only there co(1) n by (simp add: co')
  have "\<not> known_at ?d3 (word_of_nat m)" using lost by (simp add: known_at_def slot_of_def)
  from harvest_single [OF _ _ this, of ?row out1] lead'
  have "outRecovered (snd (harvest (?d3, out1))) = outRecovered out1 @ [(word_of_nat m, da')]" by simp
  moreover have "insert_row (repair_coefficients r ?d2) (rVector r) (?d2, out1) = harvest (?d3, out1)"
    using red lead norm rows inv(1) there by (simp add: insert_row_def reduce_rows_def Let_def)
  moreover have "(d', out) = insert_row (repair_coefficients r ?d2) (rVector r) (?d2, out1)"
    using res adm e(1) r n oldest newest by (simp add: dec_Repair_def MaxRepairWindow_def Let_def)
  ultimately show ?thesis using out1 by (metis snd_conv append_Nil delivery.select_convs(1))
qed

section \<open>End to end\<close>

text \<open>Source symbols in order, of which number \<open>m\<close> is erased.\<close>

fun sources :: "nat \<Rightarrow> nat \<Rightarrow> bytes list \<Rightarrow> (send_op \<times> bool) list" where
  "sources m i [] = []"
| "sources m i (v # vs) = (SendSource v, i \<noteq> m) # sources m (Suc i) vs"

lemma sent_sources [simp]: "sent (sources m i vs) = vs"
  by (induction vs arbitrary: i) simp_all

lemma sent_append [simp]: "sent (xs @ ys) = sent xs @ sent ys"
  by (simp add: sent_def)

lemma transmit_append:
  "transmit (xs @ ys) e d = (case transmit xs e d of (outs, e', d') \<Rightarrow>
     case transmit ys e' d' of (outs', r) \<Rightarrow> (outs @ outs', r))"
  by (induction xs e d rule: transmit.induct) (simp_all split: prod.splits option.splits)

lemma Add_fields:
  assumes "Add v e = (esi, e')"
  shows "length (eRing e') = length (eRing e)" and "eHeld e < length (eRing e) \<Longrightarrow> eHeld e' = Suc (eHeld e)"
  using assms by (auto simp: Add_def Let_def split: if_splits)

lemma sources_arrive:
  "channel_ok S i e d \<Longrightarrow> arrived_but m i d \<Longrightarrow> m < 256 \<Longrightarrow> i + length vs \<le> 256 \<Longrightarrow>
   i + length vs \<le> length (eRing e) \<Longrightarrow> eHeld e = i \<Longrightarrow> \<forall>k < length vs. S (word_of_nat (i + k)) = vs ! k \<Longrightarrow>
   \<exists>outs e' d'. transmit (sources m i vs) e d = (outs, e', d') \<and> channel_ok S (i + length vs) e' d' \<and>
     arrived_but m (i + length vs) d' \<and> eHeld e' = i + length vs"
proof (induction vs arbitrary: i e d)
  case (Cons v vs)
  obtain esi e1 where add: "Add v e = (esi, e1)" by fastforce
  obtain d1 out where dec: "dec_Source esi v d = (d1, out)" by fastforce
  have v: "v = S (word_of_nat i)" using Cons.prems(7) by force
  have i: "i < 256" "i < 2 ^ 31" using Cons.prems(4) by simp_all
  have esi: "esi = word_of_nat i" using Add_ok(1) [of S i e v esi e1] Cons.prems(1) v add by (simp add: channel_ok_def)
  note step = channel_source [OF Cons.prems(1) v i(2) add dec]
  note f = Add_fields [OF add]
  have e1: "eHeld e1 = Suc i" "Suc i + length vs \<le> length (eRing e1)" using f Cons.prems(5,6) by simp_all
  have rest: "\<forall>k < length vs. S (word_of_nat (Suc i + k)) = vs ! k"
  proof (intro allI impI)
    fix k assume "k < length vs"
    then show "S (word_of_nat (Suc i + k)) = vs ! k" using Cons.prems(7)[rule_format, of "Suc k"] by simp
  qed
  have len: "Suc i + length vs \<le> 256" using Cons.prems(4) by simp
  show ?case
  proof (cases "i = m")
    case True
    have "arrived_but m (Suc i) d" using Cons.prems(2) True by (auto simp: arrived_but_def less_Suc_eq)
    from Cons.IH [OF step(2) this Cons.prems(3) len e1(2,1) rest] show ?thesis using add True by simp
  next
    case False
    have "arrived_but m (Suc i) d1"
      by (rule source_arrives [OF Cons.prems(1,2) i(1) False Cons.prems(3)]) (use dec esi in simp)
    from Cons.IH [OF step(1) this Cons.prems(3) len e1(2,1) rest] obtain outs e' d' where
      t: "transmit (sources m (Suc i) vs) e1 d1 = (outs, e', d')" "channel_ok S (Suc i + length vs) e' d'"
        "arrived_but m (Suc i + length vs) d'" "eHeld e' = Suc i + length vs" by blast
    then show ?thesis using add dec False by simp
  qed
qed (simp add: )

lemma new_encoder_room:
  assumes "int n \<le> cap" and "n \<le> 256"
  shows "n \<le> length (eRing (NewWindowEncoder cap))" and "eHeld (NewWindowEncoder cap) = 0"
proof -
  obtain k where k: "roundUpPowerOfTwo (min cap (int MaxRepairWindow)) = 2 ^ k"
      "nat (min cap (int MaxRepairWindow)) \<le> 2 ^ k" using roundUp_spec by blast
  have "length (foldl (\<lambda>ring i. let esi = f i in ring[g esi := h esi]) xs is) = length xs"
    for f :: "nat \<Rightarrow> u32" and g h and xs :: "bytes list" and "is" by (induction "is" arbitrary: xs) (simp_all add: Let_def)
  then have "length (eRing (NewWindowEncoder cap)) = 2 ^ k"
    using k(1) by (simp add: NewWindowEncoder_def SetCapacity_def Let_def)
  moreover have "n \<le> nat (min cap (int MaxRepairWindow))" using assms by (simp add: MaxRepairWindow_def)
  ultimately show "n \<le> length (eRing (NewWindowEncoder cap))" using k(2) by linarith
  show "eHeld (NewWindowEncoder cap) = 0" by (simp add: NewWindowEncoder_def SetCapacity_def Let_def)
qed

lemma enc_Repair_all:
  assumes ok: "enc_ok S n e" and held: "eHeld e = n" "0 < n" "n \<le> 256"
  shows "\<exists>r. enc_Repair rid 0 e = Some r \<and> rFirst r = 0 \<and> rCount r = int n \<and>
    (\<forall>i < n. length (S (word_of_nat i)) \<le> length (rVector r))"
proof -
  have span: "repair_span 0 (eHeld e) = n" using held by (simp add: repair_span_def MaxRepairWindow_def)
  have first: "eNext e - word_of_nat n = 0" "eFirst e = 0" using ok held by (simp_all add: enc_ok_def)
  let ?sym = "\<lambda>i. eRing e ! at_ring e (word_of_nat i)"
  let ?vlen = "foldl (\<lambda>vlen i. if length (?sym i) > vlen then length (?sym i) else vlen) 0 [0..<n]"
  let ?v = "foldl (\<lambda>v i. addScaled (windowCoefficient rid i) (?sym i) v) (replicate ?vlen 0) [0..<n]"
  have rep: "enc_Repair rid 0 e = Some \<lparr>rRID = rid, rFirst = 0, rCount = int n, rVector = ?v\<rparr>"
    unfolding enc_Repair_def Let_def span first(1) add_0_left using held by simp
  have max: "\<forall>i < n. length (?sym i) \<le> ?vlen" using longest_fold [of "[0..<n]" "\<lambda>i. length (?sym i)" 0] by simp
  have "length ?v = ?vlen" using combine_fold [OF max order.refl, of "windowCoefficient rid"] by (simp add: Let_def)
  moreover have "?sym i = S (word_of_nat i)" if "i < n" for i
    using enc_ring [OF ok, of i] held first that by simp
  ultimately show ?thesis using rep max by simp
qed

lemma single_erasure_run:
  assumes "m < length vs" and "length vs \<le> 256" and "int (length vs) \<le> cap" and "vs ! m \<noteq> []"
  shows "\<exists>outs e d v. transmit (sources m 0 vs @ [(SendRepair rid 0, True)]) (NewWindowEncoder cap) NewWindowDecoder
      = (outs, e, d) \<and> outs \<noteq> [] \<and> outRecovered (last outs) = [(word_of_nat m, v)] \<and> same_symbol v (vs ! m)"
proof -
  let ?S = "\<lambda>e :: u32. if unat e < length vs then vs ! unat e else []" and ?n = "length vs"
  have S: "?S (word_of_nat i) = vs ! i" if "i < ?n" for i
    using that assms(2) by (simp add: unat_of_nat_small)
  have start: "channel_ok ?S 0 (NewWindowEncoder cap) NewWindowDecoder"
    using NewWindowEncoder_ok NewWindowDecoder_ok NewWindowDecoder_idle by (simp add: channel_ok_def)
  have "\<not> known_at NewWindowDecoder e" "dRows NewWindowDecoder = []" for e
    using NewWindowDecoder_ok [of ?S] NewWindowDecoder_idle by (auto simp: dec_ok_def dec_inv_def known_at_def Let_def)
  then have arr: "arrived_but m 0 NewWindowDecoder" by (simp add: arrived_but_def)
  have m: "m < 256" using assms(1,2) by simp
  note room = new_encoder_room [OF assms(3,2)]
  have all: "\<forall>k < ?n. ?S (word_of_nat (0 + k)) = vs ! k" using S by (simp only: add_0) blast
  have "0 + ?n \<le> 256" "0 + ?n \<le> length (eRing (NewWindowEncoder cap))" using assms(2) room(1) by simp_all
  from sources_arrive [OF start arr m this room(2) all]
  obtain outs e d where t: "transmit (sources m 0 vs) (NewWindowEncoder cap) NewWindowDecoder = (outs, e, d)"
      "channel_ok ?S ?n e d" "arrived_but m ?n d" "eHeld e = ?n" by (simp only: add_0) blast
  have enc: "enc_ok ?S ?n e" using t(2) by (simp add: channel_ok_def)
  have "0 < ?n" using assms(1) by linarith
  from enc_Repair_all [OF enc t(4) this assms(2), of rid]
  obtain r where r: "enc_Repair rid 0 e = Some r" "rFirst r = 0" "rCount r = int ?n"
      "\<forall>i < ?n. length (?S (word_of_nat i)) \<le> length (rVector r)" by blast
  have "rVector r \<noteq> []" using r(4) S [OF assms(1)] assms(1,4) by fastforce
  obtain d' out where dec: "dec_Repair r d = (d', out)" by fastforce
  from repair_recovers [OF t(2,3) assms(1,2) r(2,3) \<open>rVector r \<noteq> []\<close> dec]
  obtain v where v: "outRecovered out = [(word_of_nat m, v)]" by blast
  have "out_ok ?S out" by (rule channel_repair(2) [OF t(2) r(1) dec])
  then have same: "same_symbol v (vs ! m)" using v S [OF assms(1)] by (simp add: out_ok_def)
  have "transmit (sources m 0 vs @ [(SendRepair rid 0, True)]) (NewWindowEncoder cap) NewWindowDecoder = (outs @ [out], e, d')"
    by (simp add: transmit_append t(1) r(1) dec)
  then show ?thesis using v same by (intro exI [of _ "outs @ [out]"] exI [of _ e] exI [of _ d'] exI [of _ v]) simp
qed

text \<open>C14. However many symbols a window holds and whichever one of them was erased: when the others arrived, the
  first repair over the window recovers it, under any repair identifier.\<close>

theorem single_erasure_repaired:
  assumes "m < length vs" and "length vs \<le> 256" and "int (length vs) \<le> cap" and "vs ! m \<noteq> []"
  shows "\<exists>outs e d v. transmit (sources m 0 vs @ [(SendRepair rid 0, True)]) (NewWindowEncoder cap) NewWindowDecoder
      = (outs, e, d) \<and> outRecovered (last outs) = [(word_of_nat m, v)] \<and>
    (\<forall>j. (if j < length v then v ! j else 0) = (if j < length (vs ! m) then vs ! m ! j else 0))"
  using single_erasure_run [OF assms, of rid] unfolding same_symbol_def zext_def by blast

theorem fec_recovers_what_was_sent_witness:
  "\<exists>outs e d v. transmit (sources 1 0 [[7], [9, 2], [5]] @ [(SendRepair 3 0, True)]) (NewWindowEncoder 4) NewWindowDecoder
      = (outs, e, d) \<and> (1, v) \<in> set (outRecovered (last outs)) \<and> v ! 0 = 9 \<and> v \<noteq> []"
proof -
  let ?ops = "sources 1 0 [[7], [9, 2], [5]] @ [(SendRepair 3 0, True)]"
  obtain outs e d v where t: "transmit ?ops (NewWindowEncoder 4) NewWindowDecoder = (outs, e, d)" "outs \<noteq> []"
      "outRecovered (last outs) = [(1, v)]"
    using single_erasure_run [of 1 "[[7], [9, 2], [5]]" 4 3] by auto
  have mem: "last outs \<in> set outs" "(1, v) \<in> set (outRecovered (last outs))" using t(2,3) by simp_all
  have "length (sent ?ops) \<le> 2 ^ 31" by simp
  from fec_recovers_what_was_sent [OF t(1) this mem]
  have "\<forall>j. (if j < length v then v ! j else 0) = (if j < 2 then [9, 2] ! j else 0)" by simp
  from spec [OF this, of 0] have "v ! 0 = 9 \<and> v \<noteq> []" by (auto split: if_splits)
  then show ?thesis using t mem(2) by blast
qed

theorem single_erasure_repaired_witness:
  "\<exists>outs e d v. transmit (sources 1 0 [[7], [9, 2], [5]] @ [(SendRepair 3 0, True)]) (NewWindowEncoder 4) NewWindowDecoder
      = (outs, e, d) \<and> outRecovered (last outs) = [(1, v)]"
  using single_erasure_repaired [of 1 "[[7], [9, 2], [5]]" 4 3] by auto

end
