(* ===== verification/UdpFrag.thy ===== *)
theory UdpFrag
  imports Prelude "HOL-Library.Multiset"
begin

text \<open>
  What the UDP relays of hysteria, hysteria2 and tuic share (each package has its own textual copy in
  its \<^verbatim>\<open>packet.go\<close>): the loop that cuts a packet into fragments, and the table of partly received
  packets. The three \<^verbatim>\<open>feed\<close> methods are instances of the interface \<open>defragger\<close>, inside which the
  facts about loss, duplication and reordering are proved once.
\<close>

section \<open>Computations that may panic or never return\<close>

text \<open>\<open>None\<close> does not return, \<open>Some (Inl p)\<close> panics.\<close>

type_synonym 'a run = "(panic + 'a) option"

definition returns :: "'a \<Rightarrow> 'a run" where
  "returns x = Some (Inr x)"

definition run_then :: "'a run \<Rightarrow> ('a \<Rightarrow> 'b run) \<Rightarrow> 'b run" where
  "run_then r f = (case r of None \<Rightarrow> None | Some (Inl p) \<Rightarrow> Some (Inl p) | Some (Inr x) \<Rightarrow> f x)"

lemma run_then_simps [simp]:
  "run_then (returns x) f = f x" "run_then None f = None" "run_then (Some (Inl p)) f = Some (Inl p)"
  "run_then (Some (Inr x)) f = f x"
  by (simp_all add: run_then_def returns_def)

lemma returns_inject [simp]: "returns x = returns y \<longleftrightarrow> x = y"
  by (simp add: returns_def)

lemma returns_not_None [simp]: "returns x \<noteq> None"
  by (simp add: returns_def)

section \<open>Cutting a packet\<close>

text \<open>The loop of \<^verbatim>\<open>fragUDPMessage\<close>: \<open>packet\<close> is \<^verbatim>\<open>originPacket\<close>. It does not return when \<open>udpMTU\<close> is zero.\<close>

partial_function (option) split_loop :: "int \<Rightarrow> int \<Rightarrow> bytes \<Rightarrow> bytes list run" where
  "split_loop udpMTU remaining packet =
     (if remaining > 0 then
        if remaining > udpMTU then
          if udpMTU < 0 then Some (Inl (Panic ''slice bounds out of range''))
          else Option.bind (split_loop udpMTU (remaining - udpMTU) (drop (nat udpMTU) packet))
            (\<lambda>r. Some (and_then r (\<lambda>rest. Inr (take (nat udpMTU) packet # rest))))
        else Option.bind (split_loop udpMTU (remaining - udpMTU) [])
            (\<lambda>r. Some (and_then r (\<lambda>rest. Inr (packet # rest))))
      else Some (Inr []))"

text \<open>The pieces it is meant to produce.\<close>

function pieces :: "nat \<Rightarrow> bytes \<Rightarrow> bytes list" where
  "pieces n packet =
     (if packet = [] \<or> n = 0 then []
      else if n < length packet then take n packet # pieces n (drop n packet) else [packet])"
  by auto
termination by (relation "measure (\<lambda>(n, packet). length packet)") auto

declare pieces.simps [simp del]

lemma split_loop_pieces:
  assumes "0 < mtu"
  shows "split_loop (int mtu) (int (length packet)) packet = returns (pieces mtu packet)"
  using assms
proof (induction mtu packet rule: pieces.induct)
  case (1 n packet)
  show ?case
  proof (cases "n < length packet")
    case True
    have eq: "int (length (drop n packet)) = int (length packet) - int n" using True by simp
    have "\<not> (packet = [] \<or> n = 0)" using True 1(2) by auto
    from 1(1) [OF this True 1(2), unfolded eq] this show ?thesis
      using True 1(2) by (subst split_loop.simps, subst pieces.simps) (simp add: returns_def)
  next
    case False
    have "split_loop (int n) (int (length packet) - int n) [] = Some (Inr [])"
      using False by (subst split_loop.simps) simp
    then show ?thesis
      using False 1(2) by (subst split_loop.simps, subst pieces.simps) (simp add: returns_def)
  qed
qed

lemma split_loop_diverges:
  assumes "0 < remaining"
  shows "split_loop 0 remaining packet = None"
proof -
  have "m = 0 \<longrightarrow> remaining \<le> 0" if "split_loop m remaining packet = Some r" for m remaining packet r
    using that
    by (rule split_loop.raw_induct [rotated]) (fastforce split: if_splits Option.bind_splits)
  from this [of 0 remaining packet] show ?thesis using assms by (cases "split_loop 0 remaining packet") simp_all
qed

lemma concat_pieces: "0 < n \<Longrightarrow> concat (pieces n packet) = packet"
  by (induction n packet rule: pieces.induct) (subst pieces.simps, auto)

lemma pieces_length: "p \<in> set (pieces n packet) \<Longrightarrow> length p \<le> n \<and> p \<noteq> []"
  by (induction n packet rule: pieces.induct) (subst (asm) (2) pieces.simps, auto split: if_splits)

lemma length_pieces_le: "length packet \<le> k * n \<Longrightarrow> length (pieces n packet) \<le> k"
proof (induction n packet arbitrary: k rule: pieces.induct)
  case (1 n packet)
  show ?case
  proof (cases "packet = [] \<or> n = 0")
    case True
    then show ?thesis by (subst pieces.simps) auto
  next
    case False
    then have "0 < k" using 1(2) by (cases k) auto
    moreover have "length (drop n packet) \<le> (k - 1) * n" if "n < length packet"
      using 1(2) that by (cases k) auto
    ultimately show ?thesis
      using False 1(1) [of "k - 1"] by (subst pieces.simps) auto
  qed
qed

lemma length_pieces_ge: "0 < n \<Longrightarrow> k * n < length packet \<Longrightarrow> k < length (pieces n packet)"
proof (induction n packet arbitrary: k rule: pieces.induct)
  case (1 n packet)
  show ?case
  proof (cases k)
    case 0
    then show ?thesis using 1(2,3) by (subst pieces.simps) auto
  next
    case (Suc j)
    then have "n < length packet" "j * n < length (drop n packet)" using 1(3) by auto
    then show ?thesis
      using 1(1) [of j] 1(2) Suc by (subst pieces.simps) auto
  qed
qed

section \<open>The table of partly received packets\<close>

record 'm packet_item =
  itMessages :: "'m option list"
  itCount :: byte

definition newPacketItem :: "'m packet_item" where
  "newPacketItem = \<lparr>itMessages = [], itCount = 0\<rparr>"

type_synonym 'm table = "u16 \<rightharpoonup> 'm packet_item"

text \<open>What \<^verbatim>\<open>LoadOrStore\<close> returns for a key.\<close>

definition item_at :: "'m table \<Rightarrow> u16 \<Rightarrow> 'm packet_item" where
  "item_at T p = (case T p of None \<Rightarrow> newPacketItem | Some it \<Rightarrow> it)"

lemma item_at_upd [simp]: "item_at (T(p \<mapsto> it)) q = (if q = p then it else item_at T q)"
  by (simp add: item_at_def)

text \<open>The messages \<^verbatim>\<open>releaseMessages\<close> gives back: the slots that are not nil.\<close>

definition present :: "'m option list \<Rightarrow> 'm list" where
  "present = List.map_filter (\<lambda>x. x)"

lemma present_simps [simp]:
  "present [] = []" "present (None # xs) = present xs" "present (Some x # xs) = x # present xs"
  by (simp_all add: present_def List.map_filter_def)

lemma present_append [simp]: "present (xs @ ys) = present xs @ present ys"
  by (induction xs) (auto split: option.splits, metis (no_types) append_Cons not_Some_eq present_simps(2,3))

lemma set_present [simp]: "x \<in> set (present xs) \<longleftrightarrow> Some x \<in> set xs"
  by (auto simp: present_def List.map_filter_def image_iff)

text \<open>What \<^verbatim>\<open>feed\<close> does: a nil dereference, or the packet it hands up, the messages it gives back and the
  table.\<close>

datatype 'm fed = NilDereference | Fed "'m option" "'m list" "'m table"

text \<open>A relay's input: fragments as they arrive, and the entries the cache drops when they grow old,
  whose messages its \<^verbatim>\<open>WithEvict\<close> callback releases.\<close>

datatype 'm event = Arrive 'm | Evict u16

fun defrag_run :: "('m \<Rightarrow> 'm table \<Rightarrow> 'm fed) \<Rightarrow> 'm event list \<Rightarrow> 'm table
    \<Rightarrow> ('m list \<times> 'm list \<times> 'm table) option" where
  "defrag_run f [] T = Some ([], [], T)"
| "defrag_run f (Arrive m # es) T = (case f m T of
      NilDereference \<Rightarrow> None
    | Fed up gone T' \<Rightarrow> map_option (\<lambda>(ups, gones, T''). (case_option [] (\<lambda>x. [x]) up @ ups, gone @ gones, T''))
        (defrag_run f es T'))"
| "defrag_run f (Evict p # es) T =
     map_option (\<lambda>(ups, gones, T''). (ups, present (itMessages (item_at T p)) @ gones, T''))
       (defrag_run f es (T(p := None)))"

lemma take_twice: "take n (take n xs @ ys) = take n (xs @ ys)"
  by (cases "n \<le> length xs") simp_all

section \<open>What the relays use of their surroundings\<close>

text \<open>Errors of a relay; \<open>DatagramTooLarge\<close> carries \<^verbatim>\<open>MaxDatagramPayloadSize\<close>.\<close>

datatype relay_error = DatagramTooLarge int | ErrNetClosed | ErrClosedPipe | DeadlineExceeded | ErrInvalid
  | FqdnTooLong | InvalidDestination | SendFailed

text \<open>What the relays ask of a \<^verbatim>\<open>metadata.Socksaddr\<close>, a type of the sing library.\<close>

record socksaddr =
  saIsValid :: bool
  saIsIP :: bool
  saFqdn :: bytes
  saAddrString :: bytes
  saString :: bytes
  saPort :: u16

text \<open>The case of a \<^verbatim>\<open>select\<close> in a read that was taken.\<close>

datatype ready = DataReady | CtxDone | DeadlinePassed

text \<open>\<^verbatim>\<open>SendDatagram\<close> of a connection that takes datagrams up to \<open>limit\<close> bytes and keeps what it took.\<close>

definition send_limit :: "int \<Rightarrow> bytes list \<Rightarrow> bytes \<Rightarrow> relay_error option \<times> bytes list" where
  "send_limit limit sent b =
     (if int (length b) \<le> limit then (None, sent @ [b]) else (Some (DatagramTooLarge limit), sent))"

text \<open>The identifier of the next packet: \<^verbatim>\<open>uint16(c.packetId.Add(1) % math.MaxUint16)\<close>.\<close>

definition next_packet_id :: "u32 \<Rightarrow> u16" where
  "next_packet_id n = word_of_nat (unat (n + 1) mod 65535)"

text \<open>The number of fragments as it is stored, \<^verbatim>\<open>uint8(uint16(len(fragments)))\<close>.\<close>

definition fragment_total :: "nat \<Rightarrow> byte" where
  "fragment_total n = ucast (word_of_nat n :: u16)"

lemma unat_fragment_total: "n < 65536 \<Longrightarrow> unat (fragment_total n) = n mod 256"
  by (simp add: fragment_total_def unsigned_ucast_eq unat_of_nat_small take_bit_eq_mod)

section \<open>The relay's state\<close>

text \<open>A \<^verbatim>\<open>udpPacketConn\<close> with messages \<open>'m\<close> and session identifiers \<open>'s\<close>. \<open>cClosed\<close> is \<^verbatim>\<open>ctx.Done()\<close>,
  which the connection's own context can also close; \<open>cOnce\<close> is \<^verbatim>\<open>closeOnce\<close>, and \<open>cDestroyed\<close> counts the
  calls of \<^verbatim>\<open>onDestroy\<close>.\<close>

record ('m, 's) udp_conn =
  cSession :: 's
  cQueue :: "'m list"
  cMTU :: int
  cPacketId :: u32
  cClosed :: bool
  cOnce :: bool
  cDestroyed :: nat
  cTable :: "'m table"

text \<open>The channel holds 64 messages; a message that finds it full is dropped.\<close>

definition offer :: "'m \<Rightarrow> ('m, 's, 'x) udp_conn_scheme \<Rightarrow> ('m, 's, 'x) udp_conn_scheme" where
  "offer m c = (if length (cQueue c) < 64 then c\<lparr>cQueue := cQueue c @ [m]\<rparr> else c)"

text \<open>Datagrams handled one after another, until one of them fails.\<close>

fun handle_all :: "('d \<Rightarrow> 'st \<Rightarrow> 'e + 'st) \<Rightarrow> 'd list \<Rightarrow> 'st \<Rightarrow> 'e + 'st" where
  "handle_all handle [] st = Inr st"
| "handle_all handle (d # ds) st = and_then (handle d st) (handle_all handle ds)"

end
