(* ===== verification/Defrag.thy ===== *)
theory Defrag
  imports UdpFrag
begin

text \<open>
  The interface of a \<^verbatim>\<open>udpDefragger\<close> and what follows from it: nothing panics, a fragment is either
  held or given back exactly once, only fragments of one packet are joined, and a packet whose
  fragments all arrive is handed up, in whatever order and however often they arrive.
\<close>

section \<open>Slots\<close>

lemma present_update:
  assumes "i < length ms" and "ms ! i = None"
  shows "mset (present (ms[i := Some m])) = add_mset m (mset (present ms))"
proof -
  have "ms = take i ms @ None # drop (Suc i) ms" using assms by (metis id_take_nth_drop)
  then have "present ms = present (take i ms) @ present (drop (Suc i) ms)" by (metis present_append present_simps(2))
  moreover have "present (ms[i := Some m]) = present (take i ms) @ m # present (drop (Suc i) ms)"
    using assms(1) by (simp add: upd_conv_take_nth_drop)
  ultimately show ?thesis by simp
qed

lemma present_replicate [simp]: "present (replicate n None) = []"
  by (induction n) auto

lemma length_present_le: "length (present ms) \<le> length ms"
proof (induction ms)
  case (Cons x ms)
  then show ?case by (cases x) auto
qed simp

lemma present_full: "length (present ms) = length ms \<longleftrightarrow> None \<notin> set ms"
proof (induction ms)
  case (Cons x ms)
  then show ?case using length_present_le [of ms] by (cases x) auto
qed simp

lemma present_all: "None \<notin> set ms \<Longrightarrow> map Some (present ms) = ms"
proof (induction ms)
  case (Cons x ms)
  then show ?case by (cases x) auto
qed simp

lemma present_nth: "None \<notin> set ms \<Longrightarrow> i < length ms \<Longrightarrow> ms ! i = Some (present ms ! i)"
  using present_all [of ms] by (metis length_map nth_map)

lemma present_map_Some [simp]: "present (map Some xs) = xs"
  by (induction xs) auto

text \<open>Every message a table holds.\<close>

definition held :: "'m table \<Rightarrow> 'm multiset" where
  "held T = (\<Sum>p\<in>UNIV. mset (present (itMessages (item_at T p))))"

lemma held_split: "held T = mset (present (itMessages (item_at T p))) + (\<Sum>q\<in>UNIV - {p}. mset (present (itMessages (item_at T q))))"
  unfolding held_def by (rule sum.remove) auto

lemma held_upd:
  "held (T(p \<mapsto> it)) + mset (present (itMessages (item_at T p))) = held T + mset (present (itMessages it))"
proof -
  have "(\<Sum>q\<in>UNIV - {p}. mset (present (itMessages (item_at (T(p \<mapsto> it)) q))))
      = (\<Sum>q\<in>UNIV - {p}. mset (present (itMessages (item_at T q))))"
    by (rule sum.cong) auto
  then show ?thesis using held_split [of T p] held_split [of "T(p \<mapsto> it)" p] by simp
qed

lemma held_evict:
  "held (T(p := None)) + mset (present (itMessages (item_at T p))) = held T"
proof -
  have "(\<Sum>q\<in>UNIV - {p}. mset (present (itMessages (item_at (T(p := None)) q))))
      = (\<Sum>q\<in>UNIV - {p}. mset (present (itMessages (item_at T q))))"
    by (rule sum.cong) (auto simp: item_at_def)
  then show ?thesis
    using held_split [of T p] held_split [of "T(p := None)" p] by (simp add: item_at_def newPacketItem_def)
qed

lemma held_empty [simp]: "held Map.empty = {#}"
  by (simp add: held_def item_at_def newPacketItem_def)

section \<open>Inputs\<close>

fun arrived :: "'m event list \<Rightarrow> 'm list" where
  "arrived [] = []"
| "arrived (Arrive m # es) = m # arrived es"
| "arrived (Evict p # es) = arrived es"

section \<open>The interface\<close>

locale defragger =
  fixes frag_total frag_id :: "'m \<Rightarrow> byte"
    and packet_id :: "'m \<Rightarrow> u16"
    and payload :: "'m \<Rightarrow> bytes"
    and joined :: "'m \<Rightarrow> 'm list \<Rightarrow> 'm"
    and feed :: "'m \<Rightarrow> 'm table \<Rightarrow> 'm fed"
  assumes whole: "frag_total m \<le> 1 \<Longrightarrow> feed m T = Fed (Some m) [] T"
    and stray: "\<not> frag_total m \<le> 1 \<Longrightarrow> frag_total m \<le> frag_id m \<Longrightarrow> feed m T = Fed None [m] T"
    and restart: "\<not> frag_total m \<le> 1 \<Longrightarrow> frag_id m < frag_total m \<Longrightarrow> item_at T (packet_id m) = it \<Longrightarrow>
      unat (frag_total m) \<noteq> length (itMessages it) \<Longrightarrow>
      feed m T = Fed None (present (itMessages it)) (T(packet_id m \<mapsto>
        \<lparr>itMessages = (replicate (unat (frag_total m)) None)[unat (frag_id m) := Some m], itCount = 1\<rparr>))"
    and duplicate: "\<not> frag_total m \<le> 1 \<Longrightarrow> frag_id m < frag_total m \<Longrightarrow> item_at T (packet_id m) = it \<Longrightarrow>
      unat (frag_total m) = length (itMessages it) \<Longrightarrow> itMessages it ! unat (frag_id m) \<noteq> None \<Longrightarrow>
      feed m T = Fed None [m] (T(packet_id m \<mapsto> it))"
    and store: "\<not> frag_total m \<le> 1 \<Longrightarrow> frag_id m < frag_total m \<Longrightarrow> item_at T (packet_id m) = it \<Longrightarrow>
      unat (frag_total m) = length (itMessages it) \<Longrightarrow> itMessages it ! unat (frag_id m) = None \<Longrightarrow>
      unat (itCount it + 1) \<noteq> length (itMessages it) \<Longrightarrow>
      feed m T = Fed None [] (T(packet_id m \<mapsto>
        \<lparr>itMessages = (itMessages it)[unat (frag_id m) := Some m], itCount = itCount it + 1\<rparr>))"
    and finish: "\<not> frag_total m \<le> 1 \<Longrightarrow> frag_id m < frag_total m \<Longrightarrow> item_at T (packet_id m) = it \<Longrightarrow>
      unat (frag_total m) = length (itMessages it) \<Longrightarrow> itMessages it ! unat (frag_id m) = None \<Longrightarrow>
      unat (itCount it + 1) = length (itMessages it) \<Longrightarrow>
      map Some fs = (itMessages it)[unat (frag_id m) := Some m] \<Longrightarrow>
      feed m T = Fed (if concat (map payload fs) = [] then None else Some (joined m fs)) fs
        (T(packet_id m \<mapsto> \<lparr>itMessages = [], itCount = itCount it + 1\<rparr>))"
    and joined_packet: "(\<And>x. x \<in> set fs \<Longrightarrow> packet_id x = packet_id m) \<Longrightarrow> fs \<noteq> [] \<Longrightarrow> packet_id (joined m fs) = packet_id m"
begin

definition belongs :: "u16 \<Rightarrow> nat \<Rightarrow> nat \<Rightarrow> 'm \<Rightarrow> bool" where
  "belongs p n i m \<longleftrightarrow> packet_id m = p \<and> unat (frag_total m) = n \<and> unat (frag_id m) = i"

definition item_ok :: "u16 \<Rightarrow> 'm packet_item \<Rightarrow> bool" where
  "item_ok p it \<longleftrightarrow> itMessages it = [] \<or>
     (2 \<le> length (itMessages it) \<and> length (itMessages it) \<le> 255 \<and>
      unat (itCount it) = length (present (itMessages it)) \<and>
      length (present (itMessages it)) < length (itMessages it) \<and>
      (\<forall>i m. i < length (itMessages it) \<longrightarrow> itMessages it ! i = Some m \<longrightarrow> belongs p (length (itMessages it)) i m))"

definition table_ok :: "'m table \<Rightarrow> bool" where
  "table_ok T \<longleftrightarrow> (\<forall>p. item_ok p (item_at T p))"

lemma table_ok_empty: "table_ok Map.empty"
  by (simp add: table_ok_def item_ok_def item_at_def newPacketItem_def)

lemma table_ok_upd: "table_ok T \<Longrightarrow> item_ok p it \<Longrightarrow> table_ok (T(p \<mapsto> it))"
  by (simp add: table_ok_def)

lemma table_ok_evict: "table_ok T \<Longrightarrow> table_ok (T(p := None))"
  by (auto simp: table_ok_def item_at_def item_ok_def newPacketItem_def)

text \<open>A message that is handed up, and the fragments it was joined from.\<close>

definition made_from :: "'m \<Rightarrow> 'm list \<Rightarrow> 'm \<Rightarrow> bool" where
  "made_from m fs x \<longleftrightarrow> x = joined m fs \<and> m \<in> set fs \<and> 2 \<le> length fs \<and> concat (map payload fs) \<noteq> [] \<and>
     (\<forall>i < length fs. belongs (packet_id m) (length fs) i (fs ! i))"

definition step_ok :: "'m \<Rightarrow> 'm table \<Rightarrow> 'm option \<Rightarrow> 'm list \<Rightarrow> 'm table \<Rightarrow> bool" where
  "step_ok m T up gone T' \<longleftrightarrow> table_ok T' \<and>
     (if frag_total m \<le> 1 then up = Some m \<and> gone = [] \<and> held T' = held T
      else add_mset m (held T) = mset gone + held T' \<and> (\<forall>x. up = Some x \<longrightarrow> made_from m gone x)) \<and>
     (\<forall>q. q \<noteq> packet_id m \<longrightarrow> item_at T' q = item_at T q)"

lemma feed_restart_ok:
  assumes T: "table_ok T" and m: "\<not> frag_total m \<le> 1" "frag_id m < frag_total m"
    and "unat (frag_total m) \<noteq> length (itMessages (item_at T (packet_id m)))"
  shows "\<exists>up gone T'. feed m T = Fed up gone T' \<and> step_ok m T up gone T'"
proof -
  let ?p = "packet_id m" and ?n = "unat (frag_total m)" and ?i = "unat (frag_id m)"
  let ?it = "\<lparr>itMessages = (replicate ?n None)[?i := Some m], itCount = 1\<rparr>"
  have n: "2 \<le> ?n" "?n \<le> 255" "?i < ?n"
    using m unat_u8_lt [of "frag_total m"] unfolding word_le_nat_alt word_less_nat_alt unat_1 by linarith+
  have one: "mset (present (itMessages ?it)) = {#m#}" using present_update [of ?i "replicate ?n None" m] n by simp
  then have "length (present (itMessages ?it)) = 1" by (metis size_mset size_single)
  then have "item_ok ?p ?it" using n by (auto simp: item_ok_def belongs_def nth_list_update)
  then have "step_ok m T None (present (itMessages (item_at T ?p))) (T(?p \<mapsto> ?it))"
    using held_upd [of T ?p ?it] one table_ok_upd [OF T] m(1) by (simp add: step_ok_def add.commute)
  with restart [OF m refl assms(4)] show ?thesis by blast
qed

lemma feed_fill_ok:
  assumes T: "table_ok T" and m: "\<not> frag_total m \<le> 1" "frag_id m < frag_total m"
    and n: "unat (frag_total m) = length (itMessages (item_at T (packet_id m)))"
    and none: "itMessages (item_at T (packet_id m)) ! unat (frag_id m) = None"
  shows "\<exists>up gone T'. feed m T = Fed up gone T' \<and> step_ok m T up gone T'"
proof -
  let ?p = "packet_id m" and ?i = "unat (frag_id m)"
  let ?it = "item_at T ?p"
  let ?ms = "(itMessages ?it)[?i := Some m]"
  have i: "?i < length (itMessages ?it)" using m(2) n by (simp add: word_less_nat_alt)
  have ok: "item_ok ?p ?it" using T by (simp add: table_ok_def)
  then have it: "2 \<le> length ?ms" "length ?ms \<le> 255" "unat (itCount ?it) = length (present (itMessages ?it))"
      "length (present (itMessages ?it)) < length ?ms"
      "\<And>j x. j < length ?ms \<Longrightarrow> itMessages ?it ! j = Some x \<Longrightarrow> belongs ?p (length ?ms) j x"
    using i by (auto simp: item_ok_def)
  have ms: "mset (present ?ms) = add_mset m (mset (present (itMessages ?it)))" by (rule present_update [OF i none])
  then have len: "length (present ?ms) = Suc (length (present (itMessages ?it)))" by (metis size_mset size_add_mset)
  have cnt: "unat (itCount ?it + 1) = length (present ?ms)"
    using it(2-4) len by (subst unat_add_no_wrap) simp_all
  have mine: "belongs ?p (length ?ms) ?i m" using n by (simp add: belongs_def)
  then have all: "j < length ?ms \<Longrightarrow> ?ms ! j = Some x \<Longrightarrow> belongs ?p (length ?ms) j x" for j x
    using it(5) by (cases "j = ?i") auto
  show ?thesis
  proof (cases "length (present ?ms) = length ?ms")
    case False
    let ?it' = "\<lparr>itMessages = ?ms, itCount = itCount ?it + 1\<rparr>"
    have "item_ok ?p ?it'"
      using it all cnt False length_present_le [of ?ms] by (auto simp: item_ok_def)
    then have "step_ok m T None [] (T(?p \<mapsto> ?it'))"
      using held_upd [of T ?p ?it'] ms table_ok_upd [OF T] m(1) by (simp add: step_ok_def)
    moreover have "unat (itCount ?it + 1) \<noteq> length (itMessages ?it)" using cnt False by simp
    ultimately show ?thesis using store [OF m refl n none] by blast
  next
    case True
    let ?it' = "\<lparr>itMessages = [], itCount = itCount ?it + 1\<rparr>" and ?fs = "present ?ms"
    have full: "None \<notin> set ?ms" using iffD1 [OF present_full True] .
    have bal: "add_mset m (held T) = mset ?fs + held (T(?p \<mapsto> ?it'))"
      using held_upd [of T ?p ?it'] ms by (simp add: add.commute)
    have "belongs ?p (length ?fs) j (?fs ! j)" if "j < length ?fs" for j
      using all [of j "?fs ! j"] present_nth [OF full, of j] that True by simp
    moreover have "m \<in> set ?fs" using ms by (metis set_mset_add_mset_insert insertI1 set_mset_mset)
    ultimately have "concat (map payload ?fs) \<noteq> [] \<Longrightarrow> made_from m ?fs (joined m ?fs)"
      using it(1) True by (simp add: made_from_def)
    then have "step_ok m T (if concat (map payload ?fs) = [] then None else Some (joined m ?fs)) ?fs (T(?p \<mapsto> ?it'))"
      using bal table_ok_upd [OF T] m(1) by (simp add: step_ok_def item_ok_def)
    moreover have "unat (itCount ?it + 1) = length (itMessages ?it)" using cnt True by simp
    ultimately show ?thesis using finish [OF m refl n none _ present_all [OF full]] by blast
  qed
qed

lemma feed_ok:
  assumes T: "table_ok T"
  shows "\<exists>up gone T'. feed m T = Fed up gone T' \<and> step_ok m T up gone T'"
proof -
  let ?it = "item_at T (packet_id m)"
  consider "frag_total m \<le> 1" | "\<not> frag_total m \<le> 1" "frag_total m \<le> frag_id m"
    | "\<not> frag_total m \<le> 1" "frag_id m < frag_total m" "unat (frag_total m) \<noteq> length (itMessages ?it)"
    | "\<not> frag_total m \<le> 1" "frag_id m < frag_total m" "unat (frag_total m) = length (itMessages ?it)"
      "itMessages ?it ! unat (frag_id m) \<noteq> None"
    | "\<not> frag_total m \<le> 1" "frag_id m < frag_total m" "unat (frag_total m) = length (itMessages ?it)"
      "itMessages ?it ! unat (frag_id m) = None"
    by fastforce
  then show ?thesis
  proof cases
    case 1
    have "step_ok m T (Some m) [] T" using T 1 by (simp add: step_ok_def)
    with whole [OF 1] show ?thesis by blast
  next
    case 2
    have "step_ok m T None [m] T" using T 2(1) by (simp add: step_ok_def)
    with stray [OF 2] show ?thesis by blast
  next
    case 3
    with feed_restart_ok [OF T] show ?thesis by blast
  next
    case 4
    have "step_ok m T None [m] (T(packet_id m \<mapsto> ?it))"
      using T 4(1) held_upd [of T "packet_id m" ?it] by (simp add: step_ok_def table_ok_def)
    with duplicate [OF 4(1,2) refl 4(3,4)] show ?thesis by blast
  next
    case 5
    with feed_fill_ok [OF T] show ?thesis by blast
  qed
qed

section \<open>Runs\<close>

lemma run_arrive:
  assumes "feed m T = Fed up gone T1" and "defrag_run feed es T1 = Some (ups, gones, T')"
  shows "defrag_run feed (Arrive m # es) T = Some (case_option [] (\<lambda>x. [x]) up @ ups, gone @ gones, T')"
  using assms by simp

text \<open>Nothing panics; every fragment that arrived is held or was given back, once; what is handed up
  was sent whole or joined from fragments that arrived.\<close>

lemma run_ok:
  assumes "table_ok T"
  shows "\<exists>ups gones T'. defrag_run feed es T = Some (ups, gones, T') \<and> table_ok T' \<and>
    mset (filter (\<lambda>m. \<not> frag_total m \<le> 1) (arrived es)) + held T = mset gones + held T' \<and>
    (\<forall>x \<in> set ups. x \<in> set (arrived es) \<and> frag_total x \<le> 1 \<or>
       (\<exists>m fs. made_from m fs x \<and> set fs \<subseteq> set (arrived es) \<union> set_mset (held T)))"
  using assms
proof (induction es arbitrary: T rule: arrived.induct)
  case 1
  then show ?case by simp
next
  case (2 m es)
  obtain up gone T1 where f: "feed m T = Fed up gone T1" and st: "step_ok m T up gone T1"
    using feed_ok [OF 2(2)] by blast
  have ok1: "table_ok T1" using st by (simp add: step_ok_def)
  obtain ups gones T' where r: "defrag_run feed es T1 = Some (ups, gones, T')" "table_ok T'"
      "mset (filter (\<lambda>m. \<not> frag_total m \<le> 1) (arrived es)) + held T1 = mset gones + held T'"
      "\<forall>x \<in> set ups. x \<in> set (arrived es) \<and> frag_total x \<le> 1 \<or>
       (\<exists>m fs. made_from m fs x \<and> set fs \<subseteq> set (arrived es) \<union> set_mset (held T1))"
    using 2(1) [OF ok1] by blast
  have bal: "mset (filter (\<lambda>m. \<not> frag_total m \<le> 1) [m]) + held T = mset gone + held T1"
    and from_held: "set_mset (held T1) \<subseteq> insert m (set_mset (held T))" "set gone \<subseteq> insert m (set_mset (held T))"
  proof -
    have "set_mset (held T1) \<union> set gone \<subseteq> insert m (set_mset (held T))"
    proof (cases "frag_total m \<le> 1")
      case False
      with st have "insert m (set_mset (held T)) = set gone \<union> set_mset (held T1)"
        unfolding step_ok_def by (metis (no_types, lifting) set_mset_add_mset_insert set_mset_mset set_mset_union)
      then show ?thesis by blast
    next
      case True
      with st show ?thesis by (auto simp: step_ok_def)
    qed
    then show "set_mset (held T1) \<subseteq> insert m (set_mset (held T))" "set gone \<subseteq> insert m (set_mset (held T))" by blast+
    show "mset (filter (\<lambda>m. \<not> frag_total m \<le> 1) [m]) + held T = mset gone + held T1"
      using st by (auto simp: step_ok_def)
  qed
  show ?case
  proof (intro exI conjI)
    show "defrag_run feed (Arrive m # es) T = Some (case_option [] (\<lambda>x. [x]) up @ ups, gone @ gones, T')"
      by (rule run_arrive [OF f r(1)])
    show "table_ok T'" by fact
    have "mset (filter (\<lambda>m. \<not> frag_total m \<le> 1) (arrived (Arrive m # es))) + held T
        = mset (filter (\<lambda>m. \<not> frag_total m \<le> 1) (arrived es)) + (mset (filter (\<lambda>m. \<not> frag_total m \<le> 1) [m]) + held T)"
      by simp
    also have "\<dots> = mset gone + (mset (filter (\<lambda>m. \<not> frag_total m \<le> 1) (arrived es)) + held T1)"
      unfolding bal by (simp only: ac_simps)
    also have "\<dots> = mset gone + (mset gones + held T')" unfolding r(3) by (rule refl)
    finally show "mset (filter (\<lambda>m. \<not> frag_total m \<le> 1) (arrived (Arrive m # es))) + held T = mset (gone @ gones) + held T'"
      by (simp add: ac_simps)
    show "\<forall>x \<in> set (case_option [] (\<lambda>x. [x]) up @ ups). x \<in> set (arrived (Arrive m # es)) \<and> frag_total x \<le> 1 \<or>
       (\<exists>m' fs. made_from m' fs x \<and> set fs \<subseteq> set (arrived (Arrive m # es)) \<union> set_mset (held T))"
    proof
      fix x
      assume "x \<in> set (case_option [] (\<lambda>x. [x]) up @ ups)"
      then consider "up = Some x" | "x \<in> set ups" by (cases up) auto
      then show "x \<in> set (arrived (Arrive m # es)) \<and> frag_total x \<le> 1 \<or>
         (\<exists>m' fs. made_from m' fs x \<and> set fs \<subseteq> set (arrived (Arrive m # es)) \<union> set_mset (held T))"
      proof cases
        case 1
        with st have "x = m \<and> frag_total m \<le> 1 \<or> made_from m gone x" by (auto simp: step_ok_def split: if_splits)
        then show ?thesis using from_held(2) by auto
      next
        case 2
        with r(4) from_held(1) show ?thesis by fastforce
      qed
    qed
  qed
next
  case (3 p es)
  have ok1: "table_ok (T(p := None))" by (rule table_ok_evict [OF 3(2)])
  obtain ups gones T' where r: "defrag_run feed es (T(p := None)) = Some (ups, gones, T')" "table_ok T'"
      "mset (filter (\<lambda>m. \<not> frag_total m \<le> 1) (arrived es)) + held (T(p := None)) = mset gones + held T'"
      "\<forall>x \<in> set ups. x \<in> set (arrived es) \<and> frag_total x \<le> 1 \<or>
       (\<exists>m fs. made_from m fs x \<and> set fs \<subseteq> set (arrived es) \<union> set_mset (held (T(p := None))))"
    using 3(1) [OF ok1] by blast
  have h: "held T = held (T(p := None)) + mset (present (itMessages (item_at T p)))" by (simp add: held_evict)
  show ?case
  proof (intro exI conjI)
    show "defrag_run feed (Evict p # es) T = Some (ups, present (itMessages (item_at T p)) @ gones, T')" using r(1) by simp
    show "table_ok T'" by fact
    show "mset (filter (\<lambda>m. \<not> frag_total m \<le> 1) (arrived (Evict p # es))) + held T
        = mset (present (itMessages (item_at T p)) @ gones) + held T'"
      using r(3) by (simp add: h ac_simps)
    show "\<forall>x \<in> set ups. x \<in> set (arrived (Evict p # es)) \<and> frag_total x \<le> 1 \<or>
       (\<exists>m fs. made_from m fs x \<and> set fs \<subseteq> set (arrived (Evict p # es)) \<union> set_mset (held T))"
      using r(4) unfolding h by fastforce
  qed
qed

section \<open>Packets whose fragments all arrive\<close>

text \<open>\<open>fs\<close> are the fragments of one packet, in order.\<close>

definition fragments :: "u16 \<Rightarrow> 'm list \<Rightarrow> bool" where
  "fragments p fs \<longleftrightarrow> 2 \<le> length fs \<and> length fs \<le> 255 \<and> concat (map payload fs) \<noteq> [] \<and>
     (\<forall>i < length fs. belongs p (length fs) i (fs ! i))"

text \<open>The table holds exactly the fragments with index in \<open>S\<close> of that packet; with none of them the
  entry may be left over from a packet cut into another number of fragments.\<close>

definition progress :: "u16 \<Rightarrow> 'm list \<Rightarrow> 'm table \<Rightarrow> nat set \<Rightarrow> bool" where
  "progress p fs T S \<longleftrightarrow> S \<subset> {..<length fs} \<and>
     (if S = {} then length (itMessages (item_at T p)) \<noteq> length fs
      else itMessages (item_at T p) = map (\<lambda>i. if i \<in> S then Some (fs ! i) else None) [0..<length fs] \<and>
        unat (itCount (item_at T p)) = card S)"

lemma progress_cong: "item_at T' p = item_at T p \<Longrightarrow> progress p fs T' S \<longleftrightarrow> progress p fs T S"
  by (simp add: progress_def)

lemma progress_empty: "fragments p fs \<Longrightarrow> progress p fs Map.empty {}"
proof -
  assume "fragments p fs"
  then have "2 \<le> length fs" by (simp add: fragments_def)
  then have "fs \<noteq> []" by auto
  then show ?thesis by (auto simp: progress_def item_at_def newPacketItem_def)
qed

lemma slots_update:
  "i < n \<Longrightarrow> (map (\<lambda>j. if j \<in> S then Some (fs ! j) else None) [0..<n])[i := Some (fs ! i)]
     = map (\<lambda>j. if j \<in> insert i S then Some (fs ! j) else None) [0..<n]"
  by (rule nth_equalityI) (auto simp: nth_list_update)

lemma slots_full: "map (\<lambda>j. if j \<in> {..<length fs} then Some (fs ! j) else None) [0..<length fs] = map Some fs"
  by (rule nth_equalityI) auto

lemma feed_progress:
  assumes fs: "fragments p fs" and pr: "progress p fs T S" and i: "i < length fs"
  shows "\<exists>up gone T'. feed (fs ! i) T = Fed up gone T' \<and>
    (if insert i S = {..<length fs} then up = Some (joined (fs ! i) fs) \<and> progress p fs T' {}
     else up = None \<and> progress p fs T' (insert i S))"
proof -
  let ?m = "fs ! i" and ?n = "length fs" and ?it = "item_at T p"
  have n: "2 \<le> ?n" "?n \<le> 255" "concat (map payload fs) \<noteq> []" using fs by (simp_all add: fragments_def)
  have b: "packet_id ?m = p" "unat (frag_total ?m) = ?n" "unat (frag_id ?m) = i"
    using fs i by (simp_all add: fragments_def belongs_def)
  have m: "\<not> frag_total ?m \<le> 1" "frag_id ?m < frag_total ?m"
    using n b i by (simp_all add: word_le_nat_alt word_less_nat_alt)
  have sub: "S \<subset> {..<?n}" using pr by (simp add: progress_def)
  then have fin: "finite S" "card S < ?n" using psubset_card_mono [of "{..<?n}" S] finite_subset [of S "{..<?n}"] by auto
  show ?thesis
  proof (cases "S = {}")
    case True
    let ?it' = "\<lparr>itMessages = (replicate ?n None)[i := Some ?m], itCount = 1\<rparr>"
    have "length (itMessages ?it) \<noteq> ?n" using pr True by (simp add: progress_def)
    then have f: "feed ?m T = Fed None (present (itMessages ?it)) (T(p \<mapsto> ?it'))"
      using restart [OF m, of T ?it] b by simp
    have ne: "{i} \<noteq> {..<?n}"
    proof
      assume "{i} = {..<?n}"
      then have "card {..<?n} = 1" by (metis card_1_singleton_iff One_nat_def)
      then show False using n(1) by simp
    qed
    have "{i} \<subset> {..<?n}" using i ne by auto
    moreover have "itMessages ?it' = map (\<lambda>j. if j \<in> {i} then Some (fs ! j) else None) [0..<?n]"
      using slots_update [OF i, of "{}" fs] by (simp add: map_replicate_const)
    ultimately have "progress p fs (T(p \<mapsto> ?it')) {i}" by (simp add: progress_def)
    then show ?thesis using f True ne by simp
  next
    case False
    have it: "itMessages ?it = map (\<lambda>j. if j \<in> S then Some (fs ! j) else None) [0..<?n]" "unat (itCount ?it) = card S"
      using pr False by (simp_all add: progress_def)
    then have len: "unat (frag_total ?m) = length (itMessages ?it)" using b by simp
    have at: "item_at T (packet_id ?m) = ?it" using b by simp
    show ?thesis
    proof (cases "i \<in> S")
      case True
      then have "itMessages ?it ! unat (frag_id ?m) \<noteq> None" using it b i by simp
      from duplicate [OF m at len this] have "feed ?m T = Fed None [?m] (T(p \<mapsto> ?it))" using b by simp
      moreover have "progress p fs (T(p \<mapsto> ?it)) S" using pr by (simp add: progress_def)
      moreover have "insert i S \<noteq> {..<?n}" "insert i S = S" using True sub by auto
      ultimately show ?thesis by simp
    next
      case new: False
      let ?S = "insert i S" and ?ms = "(itMessages ?it)[i := Some ?m]"
      have none: "itMessages ?it ! unat (frag_id ?m) = None" using it b i new by simp
      have ms: "?ms = map (\<lambda>j. if j \<in> ?S then Some (fs ! j) else None) [0..<?n]"
        unfolding it(1) by (rule slots_update [OF i])
      have card: "card ?S = Suc (card S)" using new fin by simp
      have cnt: "unat (itCount ?it + 1) = card ?S"
        using it(2) fin(2) n(2) card by (subst unat_add_no_wrap) simp_all
      have sub': "?S \<subseteq> {..<?n}" using sub i by auto
      show ?thesis
      proof (cases "?S = {..<?n}")
        case True
        then have "card ?S = ?n" by simp
        then have c: "unat (itCount ?it + 1) = length (itMessages ?it)" using cnt it by simp
        have "map Some fs = (itMessages ?it)[unat (frag_id ?m) := Some ?m]"
          using ms slots_full [of fs] True b by simp
        from finish [OF m at len none c this, unfolded b(1) if_not_P [OF n(3)]]
        have f: "feed ?m T = Fed (Some (joined ?m fs)) fs (T(p \<mapsto> \<lparr>itMessages = [], itCount = itCount ?it + 1\<rparr>))" .
        have "fs \<noteq> []" using n(1) by auto
        then have "progress p fs (T(p \<mapsto> \<lparr>itMessages = [], itCount = itCount ?it + 1\<rparr>)) {}"
          by (auto simp: progress_def)
        then show ?thesis using f True by simp
      next
        case notall: False
        let ?it' = "\<lparr>itMessages = ?ms, itCount = itCount ?it + 1\<rparr>"
        have "?S \<subset> {..<?n}" using sub' notall by blast
        moreover from this have "card ?S < ?n" using psubset_card_mono [of "{..<?n}" ?S] by simp
        ultimately have "progress p fs (T(p \<mapsto> ?it')) ?S" using ms cnt by (simp add: progress_def)
        moreover have "feed ?m T = Fed None [] (T(p \<mapsto> ?it'))"
          using store [OF m at len none] b \<open>card ?S < ?n\<close> cnt it by simp
        ultimately show ?thesis using notall by simp
      qed
    qed
  qed
qed

text \<open>Fragments of other packets leave the entry alone.\<close>

lemma feed_other:
  assumes T: "table_ok T" and other: "packet_id m \<noteq> p"
  shows "\<exists>up gone T'. feed m T = Fed up gone T' \<and> table_ok T' \<and> item_at T' p = item_at T p \<and>
    (\<forall>x. up = Some x \<longrightarrow> packet_id x \<noteq> p)"
proof -
  obtain up gone T' where f: "feed m T = Fed up gone T'" and st: "step_ok m T up gone T'"
    using feed_ok [OF T] by blast
  have "packet_id x \<noteq> p" if "up = Some x" for x
  proof (cases "frag_total m \<le> 1")
    case True
    then show ?thesis using st that other by (simp add: step_ok_def)
  next
    case False
    with st that have made: "made_from m gone x" by (simp add: step_ok_def)
    then have "packet_id y = packet_id m" if "y \<in> set gone" for y
      using made that unfolding made_from_def belongs_def in_set_conv_nth by blast
    moreover have "gone \<noteq> []" using made by (auto simp: made_from_def)
    ultimately have "packet_id (joined m gone) = packet_id m" by (rule joined_packet)
    then show ?thesis using made other by (simp add: made_from_def)
  qed
  moreover have "item_at T' p = item_at T p" using st other by (simp add: step_ok_def)
  ultimately show ?thesis using f st by (auto simp: step_ok_def)
qed

lemma run_reassembles:
  assumes "table_ok T" and "fragments p fs" and "progress p fs T S"
    and "\<And>m. m \<in> set (arrived es) \<Longrightarrow> packet_id m = p \<Longrightarrow> m \<in> set fs" and "Evict p \<notin> set es"
  shows "\<exists>ups gones T'. defrag_run feed es T = Some (ups, gones, T') \<and>
    (\<forall>x \<in> set ups. packet_id x = p \<longrightarrow> (\<exists>m \<in> set fs. x = joined m fs)) \<and>
    (set fs \<subseteq> (\<lambda>i. fs ! i) ` S \<union> set (arrived es) \<longrightarrow> (\<exists>x \<in> set ups. packet_id x = p))"
  using assms(1,3,4,5)
proof (induction es arbitrary: T S rule: arrived.induct)
  case 1
  have "\<not> set fs \<subseteq> (\<lambda>i. fs ! i) ` S"
  proof -
    obtain k where k: "k < length fs" "k \<notin> S" using 1(2) by (auto simp: progress_def)
    have "S \<subset> {..<length fs}" using 1(2) by (simp add: progress_def)
    moreover have "\<forall>j < length fs. unat (frag_id (fs ! j)) = j" using assms(2) by (simp add: fragments_def belongs_def)
    ultimately have "fs ! k \<noteq> fs ! i" if "i \<in> S" for i
      using k that by (metis lessThan_iff psubsetD)
    then have "fs ! k \<notin> (\<lambda>i. fs ! i) ` S" by blast
    with nth_mem [OF k(1)] show ?thesis by blast
  qed
  then show ?case by simp
next
  case (2 m es)
  have ih: "\<And>m'. m' \<in> set (arrived es) \<Longrightarrow> packet_id m' = p \<Longrightarrow> m' \<in> set fs" "Evict p \<notin> set es"
    using 2(4,5) by simp_all
  show ?case
  proof (cases "packet_id m = p")
    case False
    obtain up gone T1 where f: "feed m T = Fed up gone T1" "table_ok T1" "item_at T1 p = item_at T p"
        "\<And>x. up = Some x \<Longrightarrow> packet_id x \<noteq> p"
      using feed_other [OF 2(2) False] by blast
    have "progress p fs T1 S" using 2(3) progress_cong [OF f(3)] by simp
    from 2(1) [OF f(2) this ih] obtain ups gones T' where r: "defrag_run feed es T1 = Some (ups, gones, T')"
        "\<forall>x \<in> set ups. packet_id x = p \<longrightarrow> (\<exists>m \<in> set fs. x = joined m fs)"
        "set fs \<subseteq> (\<lambda>i. fs ! i) ` S \<union> set (arrived es) \<longrightarrow> (\<exists>x \<in> set ups. packet_id x = p)" by blast
    have "m \<notin> set fs" using assms(2) False by (auto simp: fragments_def belongs_def in_set_conv_nth)
    then have "set fs \<subseteq> (\<lambda>i. fs ! i) ` S \<union> set (arrived (Arrive m # es)) \<Longrightarrow> set fs \<subseteq> (\<lambda>i. fs ! i) ` S \<union> set (arrived es)"
      by auto
    with r f(4) show ?thesis unfolding run_arrive [OF f(1) r(1)] by (cases up) auto
  next
    case True
    then have "m \<in> set fs" using 2(4) by simp
    then obtain i where i: "i < length fs" "m = fs ! i" by (auto simp: in_set_conv_nth)
    obtain up gone T1 where f: "feed m T = Fed up gone T1"
        "if insert i S = {..<length fs} then up = Some (joined m fs) \<and> progress p fs T1 {}
         else up = None \<and> progress p fs T1 (insert i S)"
      using feed_progress [OF assms(2) 2(3) i(1)] i(2) by blast
    have ok1: "table_ok T1" using feed_ok [OF 2(2), of m] f(1) by (auto simp: step_ok_def)
    have jp: "packet_id (joined m fs) = p"
    proof -
      have "packet_id x = packet_id m" if "x \<in> set fs" for x
        using assms(2) True that by (auto simp: fragments_def belongs_def in_set_conv_nth)
      then show ?thesis using joined_packet [of fs m] \<open>m \<in> set fs\<close> True by (cases fs) auto
    qed
    show ?thesis
    proof (cases "insert i S = {..<length fs}")
      case True
      with f have pr: "progress p fs T1 {}" and up: "up = Some (joined m fs)" by simp_all
      from 2(1) [OF ok1 pr ih] obtain ups gones T' where r: "defrag_run feed es T1 = Some (ups, gones, T')"
        "\<forall>x \<in> set ups. packet_id x = p \<longrightarrow> (\<exists>m \<in> set fs. x = joined m fs)" by auto
      then show ?thesis unfolding run_arrive [OF f(1) r(1)] using up jp \<open>m \<in> set fs\<close> by auto
    next
      case False
      with f have pr: "progress p fs T1 (insert i S)" and up: "up = None" by simp_all
      from 2(1) [OF ok1 pr ih] obtain ups gones T' where r: "defrag_run feed es T1 = Some (ups, gones, T')"
        "\<forall>x \<in> set ups. packet_id x = p \<longrightarrow> (\<exists>m \<in> set fs. x = joined m fs)"
        "set fs \<subseteq> (\<lambda>i. fs ! i) ` insert i S \<union> set (arrived es) \<longrightarrow> (\<exists>x \<in> set ups. packet_id x = p)" by blast
      then show ?thesis unfolding run_arrive [OF f(1) r(1)] using up i(2) by simp
    qed
  qed
next
  case (3 q es)
  then have "q \<noteq> p" by auto
  then have "progress p fs (T(q := None)) S"
    using 3(3) progress_cong [of "T(q := None)" p T fs S] by (simp add: item_at_def)
  have ih: "\<And>m'. m' \<in> set (arrived es) \<Longrightarrow> packet_id m' = p \<Longrightarrow> m' \<in> set fs" "Evict p \<notin> set es"
    using 3(4,5) by simp_all
  from 3(1) [OF table_ok_evict [OF 3(2)] \<open>progress p fs (T(q := None)) S\<close> ih]
  obtain ups gones T' where "defrag_run feed es (T(q := None)) = Some (ups, gones, T')"
      "\<forall>x \<in> set ups. packet_id x = p \<longrightarrow> (\<exists>m \<in> set fs. x = joined m fs)"
      "set fs \<subseteq> (\<lambda>i. fs ! i) ` S \<union> set (arrived es) \<longrightarrow> (\<exists>x \<in> set ups. packet_id x = p)" by blast
  then show ?case by simp
qed

text \<open>A relay that receives nothing but fragments of one packet, or nothing but whole packets.\<close>

lemma run_one_packet:
  assumes fs: "fragments p fs" and ms: "set ms \<subseteq> set fs"
  shows "\<exists>ups gones T'. defrag_run feed (map Arrive ms) Map.empty = Some (ups, gones, T') \<and>
    (\<forall>x \<in> set ups. \<exists>m \<in> set fs. x = joined m fs) \<and> (set fs \<subseteq> set ms \<longrightarrow> ups \<noteq> [])"
proof -
  have arr: "arrived (map Arrive ms) = ms" by (induction ms) auto
  have in_fs: "\<And>m. m \<in> set (arrived (map Arrive ms)) \<Longrightarrow> packet_id m = p \<Longrightarrow> m \<in> set fs" using ms arr by auto
  have "Evict p \<notin> set (map Arrive ms)" by auto
  from run_reassembles [OF table_ok_empty fs progress_empty [OF fs] in_fs this]
  obtain ups gones T' where r: "defrag_run feed (map Arrive ms) Map.empty = Some (ups, gones, T')"
      "\<forall>x \<in> set ups. packet_id x = p \<longrightarrow> (\<exists>m \<in> set fs. x = joined m fs)"
      "set fs \<subseteq> set ms \<longrightarrow> (\<exists>x \<in> set ups. packet_id x = p)"
    unfolding arr image_empty Un_empty_left by blast
  have mem: "packet_id m = p \<and> \<not> frag_total m \<le> 1" if "m \<in> set ms" for m
  proof -
    obtain i where "i < length fs" "m = fs ! i" using subsetD [OF ms \<open>m \<in> set ms\<close>] by (auto simp: in_set_conv_nth)
    then show ?thesis using fs by (simp add: fragments_def belongs_def word_le_nat_alt)
  qed
  have all: "packet_id x = p" if x: "x \<in> set ups" for x
  proof -
    from run_ok [OF table_ok_empty, of "map Arrive ms"] r(1) x arr mem
    obtain m fs' where made: "made_from m fs' x" "set fs' \<subseteq> set ms" by fastforce
    then have "packet_id y = packet_id m" if "y \<in> set fs'" for y
      using that mem by (metis (no_types) made_from_def subsetD)
    moreover have "fs' \<noteq> []" using made(1) unfolding made_from_def by force
    ultimately have "packet_id (joined m fs') = packet_id m" by (rule joined_packet)
    moreover have "m \<in> set ms" "x = joined m fs'" using made unfolding made_from_def by blast+
    ultimately show ?thesis using mem by simp
  qed
  have "\<forall>x \<in> set ups. \<exists>m \<in> set fs. x = joined m fs" using all r(2) by blast
  moreover have "set fs \<subseteq> set ms \<longrightarrow> ups \<noteq> []" using r(3) by force
  ultimately show ?thesis using r(1) by blast
qed

lemma run_whole:
  "(\<And>m. m \<in> set ms \<Longrightarrow> frag_total m \<le> 1) \<Longrightarrow> defrag_run feed (map Arrive ms) T = Some (ms, [], T)"
  by (induction ms) (simp_all add: whole)

end

section \<open>Providing the interface\<close>

text \<open>The shape of the three \<^verbatim>\<open>feed\<close> methods, from which the laws follow.\<close>

definition feed_spec :: "('m \<Rightarrow> byte) \<Rightarrow> ('m \<Rightarrow> byte) \<Rightarrow> ('m \<Rightarrow> u16) \<Rightarrow> ('m \<Rightarrow> bytes) \<Rightarrow> ('m \<Rightarrow> 'm list \<Rightarrow> 'm)
    \<Rightarrow> 'm \<Rightarrow> 'm table \<Rightarrow> 'm fed" where
  "feed_spec frag_total frag_id packet_id payload joined m T =
     (if frag_total m \<le> 1 then Fed (Some m) [] T
      else if frag_id m \<ge> frag_total m then Fed None [m] T
      else if unat (frag_total m) \<noteq> length (itMessages (item_at T (packet_id m))) then
        Fed None (present (itMessages (item_at T (packet_id m)))) (T(packet_id m \<mapsto>
          \<lparr>itMessages = (replicate (unat (frag_total m)) None)[unat (frag_id m) := Some m], itCount = 1\<rparr>))
      else if itMessages (item_at T (packet_id m)) ! unat (frag_id m) \<noteq> None then
        Fed None [m] (T(packet_id m \<mapsto> item_at T (packet_id m)))
      else if unat (itCount (item_at T (packet_id m)) + 1) \<noteq> length (itMessages (item_at T (packet_id m))) then
        Fed None [] (T(packet_id m \<mapsto> \<lparr>itMessages = (itMessages (item_at T (packet_id m)))[unat (frag_id m) := Some m],
          itCount = itCount (item_at T (packet_id m)) + 1\<rparr>))
      else if None \<in> set ((itMessages (item_at T (packet_id m)))[unat (frag_id m) := Some m]) then NilDereference
      else let fs = present ((itMessages (item_at T (packet_id m)))[unat (frag_id m) := Some m]);
             T' = T(packet_id m \<mapsto> \<lparr>itMessages = [], itCount = itCount (item_at T (packet_id m)) + 1\<rparr>) in
           if sum_list (map (length \<circ> payload) fs) > 0 then Fed (Some (joined m fs)) fs T' else Fed None fs T')"

lemma sum_length_concat: "sum_list (map (length \<circ> f) xs) = length (concat (map f xs))"
  by (simp add: length_concat comp_def)

lemma defraggerI:
  assumes "\<And>m T. feed m T = feed_spec frag_total frag_id packet_id payload joined m T"
    and "\<And>m fs. (\<And>x. x \<in> set fs \<Longrightarrow> packet_id x = packet_id m) \<Longrightarrow> fs \<noteq> [] \<Longrightarrow> packet_id (joined m fs) = packet_id m"
  shows "defragger frag_total frag_id packet_id payload joined feed"
proof (unfold_locales, goal_cases)
  case (3 m T it)
  then show ?case by (simp add: assms(1) feed_spec_def not_le [symmetric])
next
  case (4 m T it)
  then show ?case by (simp add: assms(1) feed_spec_def not_le [symmetric])
next
  case (5 m T it)
  then show ?case by (simp add: assms(1) feed_spec_def not_le [symmetric])
next
  case (6 m T it fs)
  have len: "length fs = length (itMessages it)" using arg_cong [OF 6(7), of length] by simp
  have "None \<notin> set (map Some fs)" by auto
  then show ?case using 6(1-6) len
    by (simp add: assms(1) feed_spec_def not_le [symmetric] 6(7) [symmetric] sum_length_concat Let_def del: length_concat)
qed (simp_all add: assms feed_spec_def)

end
