(* ===== verification/Wire.thy ===== *)
theory Wire
  imports Prelude
begin

text \<open>
  Readers of the hysteria, hysteria2 and tuic messages: \<^verbatim>\<open>binary.Read\<close> of the fixed-width integers,
  and the class of readers that never look past what they return (\<open>prefix_reader\<close>). A codec with such
  a reader rejects every truncation of a message (locale \<open>stream_codec\<close>).
\<close>

section \<open>binary.Read\<close>

type_synonym 'a reader = "bytes \<Rightarrow> io_error + 'a \<times> bytes"

definition read_u8 :: "byte reader" where
  "read_u8 s = and_then (read_full 1 s) (\<lambda>(b, r). Inr (hd b, r))"

definition read_u16 :: "u16 reader" where
  "read_u16 s = and_then (read_full 2 s) (\<lambda>(b, r). Inr (get_u16 b, r))"

definition read_u32 :: "u32 reader" where
  "read_u32 s = and_then (read_full 4 s) (\<lambda>(b, r). Inr (get_u32 b, r))"

definition read_u64 :: "u64 reader" where
  "read_u64 s = and_then (read_full 8 s) (\<lambda>(b, r). Inr (get_u64 b, r))"

text \<open>A Go bool is read from one byte, true for anything but zero.\<close>

definition read_bool :: "bool reader" where
  "read_bool s = and_then (read_full 1 s) (\<lambda>(b, r). Inr (hd b \<noteq> 0, r))"

lemma read_put [wire, simp]:
  "read_u8 (b # r) = Inr (b, r)" "read_u16 (put_u16 v @ r) = Inr (v, r)" "read_u32 (put_u32 w @ r) = Inr (w, r)"
  "read_u64 (put_u64 x @ r) = Inr (x, r)" "read_bool (b # r) = Inr (b \<noteq> 0, r)"
  using read_full_append [of "[b]" 1 r]
  by (simp_all add: read_u8_def read_u16_def read_u32_def read_u64_def read_bool_def)

lemma read_u8_Inr: "read_u8 s = Inr (b, r) \<longleftrightarrow> s = b # r"
proof
  assume "read_u8 s = Inr (b, r)"
  then show "s = b # r"
    by (cases s) (auto simp: read_u8_def and_then_eq_Inr read_full_def split: if_splits)
qed simp

lemma read_u16_Inr: "read_u16 s = Inr (v, r) \<longleftrightarrow> s = put_u16 v @ r"
proof
  assume "read_u16 s = Inr (v, r)"
  then obtain b where "read_full 2 s = Inr (b, r)" "v = get_u16 b" by (auto simp: read_u16_def and_then_eq_Inr)
  then show "s = put_u16 v @ r" by (auto elim!: read_full_InrE simp: put_get_u16)
qed simp

lemma read_u32_Inr: "read_u32 s = Inr (v, r) \<longleftrightarrow> s = put_u32 v @ r"
proof
  assume "read_u32 s = Inr (v, r)"
  then obtain b where "read_full 4 s = Inr (b, r)" "v = get_u32 b" by (auto simp: read_u32_def and_then_eq_Inr)
  then show "s = put_u32 v @ r" by (auto elim!: read_full_InrE simp: put_get_u32)
qed simp

lemma read_u64_Inr: "read_u64 s = Inr (v, r) \<longleftrightarrow> s = put_u64 v @ r"
proof
  assume "read_u64 s = Inr (v, r)"
  then obtain b where "read_full 8 s = Inr (b, r)" "v = get_u64 b" by (auto simp: read_u64_def and_then_eq_Inr)
  then show "s = put_u64 v @ r" by (auto elim!: read_full_InrE simp: put_get_u64)
qed simp

lemma read_full_Inr: "read_full n s = Inr (xs, r) \<longleftrightarrow> s = xs @ r \<and> length xs = n"
  by (auto elim: read_full_InrE)

lemmas read_Inr = read_u8_Inr read_u16_Inr read_u32_Inr read_u64_Inr read_full_Inr

section \<open>Readers that do not look ahead\<close>

definition prefix_reader :: "(bytes \<Rightarrow> 'e + 'a \<times> bytes) \<Rightarrow> bool" where
  "prefix_reader d \<longleftrightarrow> (\<forall>s x r t. d s = Inr (x, r) \<longrightarrow> d (s @ t) = Inr (x, r @ t))"

named_theorems prefix_intros \<comment> \<open>how prefix readers are composed\<close>

lemma prefix_readerD: "prefix_reader d \<Longrightarrow> d s = Inr (x, r) \<Longrightarrow> d (s @ t) = Inr (x, r @ t)"
  by (simp add: prefix_reader_def)

lemma prefix_read_full [prefix_intros]: "prefix_reader (read_full n)"
  by (auto simp: prefix_reader_def read_full_Inr)

lemma prefix_Inr [prefix_intros]: "prefix_reader (\<lambda>s. Inr (x, s))"
  by (simp add: prefix_reader_def)

lemma prefix_Inl [prefix_intros]: "prefix_reader (\<lambda>s. Inl e)"
  by (simp add: prefix_reader_def)

lemma prefix_if [prefix_intros]: "prefix_reader d \<Longrightarrow> prefix_reader d' \<Longrightarrow> prefix_reader (\<lambda>s. if b then d s else d' s)"
  by (simp add: prefix_reader_def)

lemma prefix_map_err [prefix_intros]: "prefix_reader d \<Longrightarrow> prefix_reader (\<lambda>s. map_err f (d s))"
  by (simp add: prefix_reader_def)

lemma prefix_bind [prefix_intros]:
  assumes "prefix_reader d" and "\<And>x. prefix_reader (f x)"
  shows "prefix_reader (\<lambda>s. and_then (d s) (\<lambda>(x, r). f x r))"
  unfolding prefix_reader_def
proof (intro allI impI)
  fix s y r t
  assume "and_then (d s) (\<lambda>(x, r). f x r) = Inr (y, r)"
  then obtain x q where "d s = Inr (x, q)" "f x q = Inr (y, r)" by (auto simp: and_then_eq_Inr)
  then show "and_then (d (s @ t)) (\<lambda>(x, r). f x r) = Inr (y, r @ t)"
    using assms by (simp add: prefix_readerD)
qed

lemma prefix_read [prefix_intros]:
  "prefix_reader read_u8" "prefix_reader read_u16" "prefix_reader read_u32" "prefix_reader read_u64" "prefix_reader read_bool"
  unfolding read_u8_def [abs_def] read_u16_def [abs_def] read_u32_def [abs_def] read_u64_def [abs_def] read_bool_def [abs_def]
  by (intro prefix_intros)+

locale stream_codec = codec ok enc dec
  for ok :: "'a \<Rightarrow> bool" and enc :: "'a \<Rightarrow> bytes" and dec :: "bytes \<Rightarrow> 'e + 'a \<times> bytes" +
  assumes prefix: "prefix_reader dec"
begin

lemma truncated:
  assumes "ok x" and "k < length (enc x)"
  shows "\<exists>e. dec (take k (enc x)) = Inl e"
proof (cases "dec (take k (enc x))")
  case (Inr p)
  then obtain y r where "dec (take k (enc x)) = Inr (y, r)" by (cases p) auto
  from prefix_readerD [OF prefix this, of "drop k (enc x)"]
  have "dec (enc x) = Inr (y, r @ drop k (enc x))" by simp
  then have "r @ drop k (enc x) = []" using dec_enc [OF assms(1), of "[]"] by simp
  then show ?thesis using assms(2) by simp
qed simp

end

end
