(* ===== verification/HyPacket.thy ===== *)
theory HyPacket
  imports Defrag Wire
begin

text \<open>
  The UDP relay of hysteria, \<^verbatim>\<open>hysteria/packet.go\<close>, with the message handlers of
  \<^verbatim>\<open>client_packet.go\<close> and \<^verbatim>\<open>service_packet.go\<close>. Messages are values: the pool they come from, the
  \<^verbatim>\<open>referenced\<close> flag and the sharing of byte buffers are left out, but the messages \<^verbatim>\<open>feed\<close> releases
  are part of its result. The cache of the sing library is a map whose entries may be evicted at any
  time; \<^verbatim>\<open>SendDatagram\<close> is a parameter.
\<close>

section \<open>Messages\<close>

record udp_message =
  hmSession :: u32
  hmPacket :: u16
  hmFragID :: byte
  hmFragTotal :: byte
  hmHost :: bytes
  hmPort :: u16
  hmData :: bytes

definition headerSize :: "udp_message \<Rightarrow> int" where
  "headerSize m = 14 + int (length (hmHost m))"

definition pack :: "udp_message \<Rightarrow> bytes" where
  "pack m = put_u32 (hmSession m) @ put_u16 (word_of_nat (length (hmHost m))) @ hmHost m @ put_u16 (hmPort m)
     @ put_u16 (hmPacket m) @ [hmFragID m, hmFragTotal m] @ put_u16 (word_of_nat (length (hmData m))) @ hmData m"

datatype decode_error = DecodeIO io_error | HostTooLong | InvalidDataLength

definition decodeUDPMessage :: "bytes \<Rightarrow> decode_error + udp_message" where
  "decodeUDPMessage s =
     and_then (map_err DecodeIO (read_u32 s)) (\<lambda>(sessionID, s).
     and_then (map_err DecodeIO (read_u16 s)) (\<lambda>(hostLen, s).
     and_then (map_err DecodeIO (read_full (unat hostLen) s)) (\<lambda>(host, s).
     if length host > 255 then Inl HostTooLong
     else and_then (map_err DecodeIO (read_u16 s)) (\<lambda>(port, s).
     and_then (map_err DecodeIO (read_u16 s)) (\<lambda>(packetID, s).
     and_then (map_err DecodeIO (read_u8 s)) (\<lambda>(fragmentID, s).
     and_then (map_err DecodeIO (read_u8 s)) (\<lambda>(fragmentTotal, s).
     and_then (map_err DecodeIO (read_u16 s)) (\<lambda>(dataLen, s).
     if length s \<noteq> unat dataLen then Inl InvalidDataLength
     else Inr \<lparr>hmSession = sessionID, hmPacket = packetID, hmFragID = fragmentID, hmFragTotal = fragmentTotal,
       hmHost = host, hmPort = port, hmData = s\<rparr>))))))))"

definition fragUDPMessage :: "udp_message \<Rightarrow> int \<Rightarrow> udp_message list run" where
  "fragUDPMessage message maxPacketSize =
     (let udpMTU = maxPacketSize - headerSize message in
      if int (length (hmData message)) \<le> udpMTU then returns [message]
      else run_then (split_loop udpMTU (int (length (hmData message))) (hmData message)) (\<lambda>parts.
        returns (map (\<lambda>(index, part). message\<lparr>hmData := part, hmFragID := word_of_nat index,
          hmFragTotal := fragment_total (length parts)\<rparr>) (List.enumerate 0 parts))))"

section \<open>Joining fragments\<close>

definition feed :: "udp_message \<Rightarrow> udp_message table \<Rightarrow> udp_message fed" where
  "feed m T =
     (if hmFragTotal m \<le> 1 then Fed (Some m) [] T
      else if hmFragID m \<ge> hmFragTotal m then Fed None [m] T
      else
        let p = hmPacket m; item = item_at T p; total = unat (hmFragTotal m); i = unat (hmFragID m) in
        if total \<noteq> length (itMessages item) then
          Fed None (present (itMessages item))
            (T(p \<mapsto> \<lparr>itMessages = (replicate total None)[i := Some m], itCount = 1\<rparr>))
        else if itMessages item ! i \<noteq> None then Fed None [m] (T(p \<mapsto> item))
        else
          let messages = (itMessages item)[i := Some m]; count = itCount item + 1 in
          if unat count \<noteq> length messages then
            Fed None [] (T(p \<mapsto> \<lparr>itMessages = messages, itCount = count\<rparr>))
          else if None \<in> set messages then NilDereference
          else
            let parts = present messages;
                newMessage = \<lparr>hmSession = hmSession m, hmPacket = hmPacket m, hmFragID = 0, hmFragTotal = 0,
                  hmHost = hmHost (parts ! 0), hmPort = hmPort (parts ! 0), hmData = concat (map hmData parts)\<rparr>;
                finalLength = sum_list (map (length \<circ> hmData) parts);
                T' = T(p \<mapsto> \<lparr>itMessages = [], itCount = count\<rparr>) in
            if finalLength > 0 then Fed (Some newMessage) parts T' else Fed None parts T')"

section \<open>The relay\<close>

type_synonym hy_conn = "(udp_message, u32) udp_conn"

definition newUDPPacketConn :: "u32 \<Rightarrow> hy_conn" where
  "newUDPPacketConn session = \<lparr>cSession = session, cQueue = [], cMTU = 1200 - 3, cPacketId = 0, cClosed = False, cOnce = False,
     cDestroyed = 0, cTable = Map.empty\<rparr>"

definition inputPacket :: "udp_message \<Rightarrow> hy_conn \<Rightarrow> panic + hy_conn" where
  "inputPacket m c =
     (if hmFragTotal m \<le> 1 then Inr (offer m c)
      else case feed m (cTable c) of
        NilDereference \<Rightarrow> Inl (Panic ''nil pointer dereference'')
      | Fed newMessage released T \<Rightarrow>
          (case newMessage of None \<Rightarrow> Inr (c\<lparr>cTable := T\<rparr>) | Some x \<Rightarrow> Inr (offer x (c\<lparr>cTable := T\<rparr>))))"

definition ReadFrom :: "(bytes \<Rightarrow> u16 \<Rightarrow> 'a) \<Rightarrow> ready \<Rightarrow> bool \<Rightarrow> nat \<Rightarrow> hy_conn
    \<Rightarrow> ((relay_error + bytes \<times> 'a) \<times> hy_conn) option" where
  "ReadFrom destination choice expired n c = (case choice of
      DataReady \<Rightarrow> (case cQueue c of [] \<Rightarrow> None
        | pkt # q \<Rightarrow> Some (Inr (take n (hmData pkt), destination (hmHost pkt) (hmPort pkt)), c\<lparr>cQueue := q\<rparr>))
    | CtxDone \<Rightarrow> if cClosed c then Some (Inl ErrClosedPipe, c) else None
    | DeadlinePassed \<Rightarrow> if expired then Some (Inl DeadlineExceeded, c) else None)"

definition writePacket :: "('q \<Rightarrow> bytes \<Rightarrow> relay_error option \<times> 'q) \<Rightarrow> udp_message \<Rightarrow> 'q \<Rightarrow> relay_error option \<times> 'q" where
  "writePacket send m q = send q (pack m)"

fun writePackets :: "('q \<Rightarrow> bytes \<Rightarrow> relay_error option \<times> 'q) \<Rightarrow> udp_message list \<Rightarrow> 'q \<Rightarrow> relay_error option \<times> 'q" where
  "writePackets send [] q = (None, q)"
| "writePackets send (m # ms) q = (case writePacket send m q of
      (Some err, q') \<Rightarrow> (Some err, q')
    | (None, q') \<Rightarrow> writePackets send ms q')"

text \<open>Sending one message, whole or in fragments, and once more in fragments of the size the
  connection asked for.\<close>

definition send_message :: "('q \<Rightarrow> bytes \<Rightarrow> relay_error option \<times> 'q) \<Rightarrow> int \<Rightarrow> udp_message \<Rightarrow> 'q
    \<Rightarrow> (relay_error option \<times> 'q) run" where
  "send_message send udpMTU m q =
     run_then
       (if udpMTU > headerSize m \<and> int (length (hmData m)) > udpMTU - headerSize m
        then run_then (fragUDPMessage m udpMTU) (\<lambda>ms. returns (writePackets send ms q))
        else returns (writePacket send m q))
       (\<lambda>(err, q). case err of
          Some (DatagramTooLarge maxSize) \<Rightarrow>
            if maxSize - 3 \<le> headerSize m then returns (err, q)
            else run_then (fragUDPMessage m (maxSize - 3)) (\<lambda>ms. returns (writePackets send ms q))
        | _ \<Rightarrow> returns (err, q))"

definition new_message :: "hy_conn \<Rightarrow> bytes \<Rightarrow> socksaddr \<Rightarrow> udp_message" where
  "new_message c data destination = \<lparr>hmSession = cSession c, hmPacket = next_packet_id (cPacketId c), hmFragID = 0,
     hmFragTotal = 1, hmHost = saAddrString destination, hmPort = saPort destination, hmData = data\<rparr>"

definition WritePacket :: "('q \<Rightarrow> bytes \<Rightarrow> relay_error option \<times> 'q) \<Rightarrow> bytes \<Rightarrow> socksaddr \<Rightarrow> hy_conn \<Rightarrow> 'q
    \<Rightarrow> (relay_error option \<times> hy_conn \<times> 'q) run" where
  "WritePacket send data destination c q =
     (if cClosed c then returns (Some ErrNetClosed, c, q)
      else if length data > 0xffff then returns (Some (DatagramTooLarge 0xffff), c, q)
      else if \<not> saIsIP destination \<and> length (saFqdn destination) > 255 then returns (Some FqdnTooLong, c, q)
      else run_then (send_message send (cMTU c) (new_message c data destination) q) (\<lambda>(err, q).
        returns (err, c\<lparr>cPacketId := cPacketId c + 1\<rparr>, q)))"

text \<open>\<^verbatim>\<open>WriteTo\<close> reports the bytes written beside the error; \<open>destination\<close> is \<^verbatim>\<open>SocksaddrFromNet(addr)\<close>.\<close>

definition WriteTo :: "('q \<Rightarrow> bytes \<Rightarrow> relay_error option \<times> 'q) \<Rightarrow> bytes \<Rightarrow> socksaddr \<Rightarrow> hy_conn \<Rightarrow> 'q
    \<Rightarrow> ((nat \<times> relay_error option) \<times> hy_conn \<times> 'q) run" where
  "WriteTo send p destination c q =
     (if cClosed c then returns ((0, Some ErrNetClosed), c, q)
      else if length p > 0xffff then returns ((0, Some (DatagramTooLarge 0xffff)), c, q)
      else if \<not> saIsIP destination \<and> length (saFqdn destination) > 255 then returns ((0, Some FqdnTooLong), c, q)
      else run_then (send_message send (cMTU c) (new_message c p destination) q) (\<lambda>(err, q).
        returns ((if err = None then length p else 0, err), c\<lparr>cPacketId := cPacketId c + 1\<rparr>, q)))"

definition closeWithError :: "hy_conn \<Rightarrow> hy_conn" where
  "closeWithError c = (if cOnce c then c else c\<lparr>cOnce := True, cClosed := True, cDestroyed := cDestroyed c + 1\<rparr>)"

definition CloseConn :: "hy_conn \<Rightarrow> relay_error option \<times> hy_conn" where
  "CloseConn c = (None, closeWithError c)"

definition SetDeadline :: "hy_conn \<Rightarrow> relay_error option \<times> hy_conn" where
  "SetDeadline c = (Some ErrInvalid, c)"

definition SetWriteDeadline :: "hy_conn \<Rightarrow> relay_error option \<times> hy_conn" where
  "SetWriteDeadline c = (Some ErrInvalid, c)"

section \<open>Datagrams from the peer\<close>

text \<open>A datagram that does not decode, and on the server one for an unknown session, closes the
  connection (\<open>Inl\<close>).\<close>

datatype handle_error = HandleDecode decode_error | UnknownSession u32 | HandlePanic panic

definition input_at :: "u32 \<Rightarrow> udp_message \<Rightarrow> (u32 \<rightharpoonup> hy_conn) \<Rightarrow> hy_conn \<Rightarrow> handle_error + (u32 \<rightharpoonup> hy_conn)" where
  "input_at s m conns c = and_then (map_err HandlePanic (inputPacket m c)) (\<lambda>c'. Inr (conns(s \<mapsto> c')))"

definition client_handle :: "bytes \<Rightarrow> (u32 \<rightharpoonup> hy_conn) \<Rightarrow> handle_error + (u32 \<rightharpoonup> hy_conn)" where
  "client_handle data conns =
     and_then (map_err HandleDecode (decodeUDPMessage data)) (\<lambda>m.
     case conns (hmSession m) of
       None \<Rightarrow> Inr conns
     | Some c \<Rightarrow> if cClosed c then Inr conns else input_at (hmSession m) m conns c)"

definition server_handle :: "bytes \<Rightarrow> (u32 \<rightharpoonup> hy_conn) \<Rightarrow> handle_error + (u32 \<rightharpoonup> hy_conn)" where
  "server_handle data conns =
     and_then (map_err HandleDecode (decodeUDPMessage data)) (\<lambda>m.
     case conns (hmSession m) of
       None \<Rightarrow> Inl (UnknownSession (hmSession m))
     | Some c \<Rightarrow> if cClosed c then Inl (UnknownSession (hmSession m)) else input_at (hmSession m) m conns c)"

end
