(* ===== verification/Relay.thy ===== *)
theory Relay
  imports Defrag
begin

text \<open>
  The sending half of the relays, added to the interface of \<^verbatim>\<open>Defrag\<close>: what \<^verbatim>\<open>fragUDPMessage\<close> makes of a
  message, and that over a connection with any datagram limit \<^verbatim>\<open>send_message\<close> ends with datagrams a
  \<^verbatim>\<open>feed\<close> joins to the message again.
\<close>

fun write_all :: "('m \<Rightarrow> bytes) \<Rightarrow> ('q \<Rightarrow> bytes \<Rightarrow> relay_error option \<times> 'q) \<Rightarrow> 'm list \<Rightarrow> 'q \<Rightarrow> relay_error option \<times> 'q" where
  "write_all pack send [] q = (None, q)"
| "write_all pack send (m # ms) q = (case send q (pack m) of
      (Some err, q') \<Rightarrow> (Some err, q')
    | (None, q') \<Rightarrow> write_all pack send ms q')"

lemma write_all_fits:
  "(\<And>m. m \<in> set ms \<Longrightarrow> int (length (pack m)) \<le> L) \<Longrightarrow> write_all pack (send_limit L) ms q = (None, q @ map pack ms)"
  by (induction ms arbitrary: q) (simp_all add: send_limit_def)

lemma write_all_too_large:
  "ms \<noteq> [] \<Longrightarrow> L < int (length (pack (hd ms))) \<Longrightarrow> write_all pack (send_limit L) ms q = (Some (DatagramTooLarge L), q)"
  by (cases ms) (simp_all add: send_limit_def)

locale relay = defragger frag_total frag_id packet_id payload joined feed
  for frag_total frag_id :: "'m \<Rightarrow> byte" and packet_id :: "'m \<Rightarrow> u16" and payload :: "'m \<Rightarrow> bytes"
    and joined :: "'m \<Rightarrow> 'm list \<Rightarrow> 'm" and feed :: "'m \<Rightarrow> 'm table \<Rightarrow> 'm fed" +
  fixes header_size :: "'m \<Rightarrow> int"
    and pack :: "'m \<Rightarrow> bytes"
    and cut :: "nat \<Rightarrow> nat \<Rightarrow> bytes \<Rightarrow> 'm \<Rightarrow> 'm"
    and frag :: "'m \<Rightarrow> int \<Rightarrow> 'm list run"
    and sane :: "'m \<Rightarrow> bool"
  assumes pack_length: "sane m \<Longrightarrow> int (length (pack m)) = header_size m + int (length (payload m))"
    and cut_sane: "sane m \<Longrightarrow> sane (cut n i p m)"
    and frag_small: "int (length (payload m)) \<le> mx - header_size m \<Longrightarrow> frag m mx = returns [m]"
    and frag_large: "\<not> int (length (payload m)) \<le> mx - header_size m \<Longrightarrow>
      frag m mx = run_then (split_loop (mx - header_size m) (int (length (payload m))) (payload m))
        (\<lambda>parts. returns (map (\<lambda>(i, p). cut (length parts) i p m) (List.enumerate 0 parts)))"
    and cut [simp]: "payload (cut n i p m) = p" "packet_id (cut n i p m) = packet_id m"
      "frag_total (cut n i p m) = fragment_total n" "frag_id (cut n i p m) = word_of_nat i"
    and cut_header: "sane m \<Longrightarrow> header_size (cut n i p m) \<le> header_size m" "header_size (cut n 0 p m) = header_size m"
begin

definition cuts :: "nat \<Rightarrow> 'm \<Rightarrow> 'm list" where
  "cuts n m = map (\<lambda>(i, p). cut (length (pieces n (payload m))) i p m) (List.enumerate 0 (pieces n (payload m)))"

lemma length_cuts [simp]: "length (cuts n m) = length (pieces n (payload m))"
  by (simp add: cuts_def)

lemma nth_cuts: "i < length (cuts n m) \<Longrightarrow> cuts n m ! i = cut (length (cuts n m)) i (pieces n (payload m) ! i) m"
  by (simp add: cuts_def nth_enumerate_eq)

lemma payload_cuts: "map payload (cuts n m) = pieces n (payload m)"
  by (rule nth_equalityI) (simp_all add: nth_cuts)

lemma frag_cuts:
  assumes "header_size m < mx" and "\<not> int (length (payload m)) \<le> mx - header_size m"
  shows "frag m mx = returns (cuts (nat (mx - header_size m)) m)"
proof -
  have "int (nat (mx - header_size m)) = mx - header_size m" using assms(1) by simp
  then show ?thesis
    using split_loop_pieces [of "nat (mx - header_size m)" "payload m"] assms
    by (simp add: frag_large cuts_def)
qed

text \<open>\<^verbatim>\<open>fragUDPMessage\<close> fails to return exactly when the packet leaves no room beside its header, and
  never panics when there is some.\<close>

lemma frag_returns: "header_size m < mx \<Longrightarrow> \<exists>fs. frag m mx = returns fs"
  using frag_cuts frag_small by blast

lemma frag_diverges: "frag m mx = None \<longleftrightarrow> mx = header_size m \<and> payload m \<noteq> []"
proof
  assume none: "frag m mx = None"
  then have large: "\<not> int (length (payload m)) \<le> mx - header_size m" using frag_small by force
  have "\<not> header_size m < mx" using none frag_returns by force
  moreover have "\<not> mx < header_size m"
  proof
    assume "mx < header_size m"
    then have "split_loop (mx - header_size m) (int (length (payload m))) (payload m) \<noteq> None"
      by (subst split_loop.simps) simp
    then have "frag m mx \<noteq> None" unfolding frag_large [OF large]
      by (auto simp: run_then_def returns_def split: option.splits sum.splits)
    with none show False by simp
  qed
  ultimately show "mx = header_size m \<and> payload m \<noteq> []" using large by auto
next
  assume "mx = header_size m \<and> payload m \<noteq> []"
  then show "frag m mx = None" by (simp add: frag_large split_loop_diverges)
qed

text \<open>What a message becomes on its way: itself, or its fragments.\<close>

definition parts_of :: "'m \<Rightarrow> 'm list \<Rightarrow> bool" where
  "parts_of m fs \<longleftrightarrow> fs = [m] \<or>
     fragments (packet_id m) fs \<and> concat (map payload fs) = payload m \<and>
     (\<forall>i < length fs. fs ! i = cut (length fs) i (payload (fs ! i)) m)"

lemma cuts_parts:
  assumes "0 < n" and "n < length (payload m)" and "length (payload m) \<le> 255 * n"
  shows "parts_of m (cuts n m)"
proof -
  let ?fs = "cuts n m"
  have len: "2 \<le> length ?fs" "length ?fs \<le> 255"
    using length_pieces_ge [of n 1 "payload m"] length_pieces_le [of "payload m" 255 n] assms by simp_all
  have cat: "concat (map payload ?fs) = payload m" by (simp add: payload_cuts concat_pieces [OF assms(1)])
  have "belongs (packet_id m) (length ?fs) i (?fs ! i)" if "i < length ?fs" for i
    using nth_cuts [OF that] that len(2)
    by (simp add: belongs_def unat_fragment_total unat_of_nat_small)
  moreover have "concat (map payload ?fs) \<noteq> []" unfolding cat using assms(2) by auto
  ultimately have "fragments (packet_id m) ?fs" using len by (simp add: fragments_def)
  moreover have "?fs ! i = cut (length ?fs) i (payload (?fs ! i)) m" if "i < length ?fs" for i
    using nth_cuts [OF that] by simp
  ultimately show ?thesis using cat by (simp add: parts_of_def)
qed

lemma cuts_size:
  assumes sane: "sane m" and f: "f \<in> set (cuts n m)"
  shows "int (length (pack f)) \<le> header_size m + int n"
proof -
  obtain i where i: "i < length (cuts n m)" "f = cuts n m ! i" using f by (auto simp: in_set_conv_nth)
  let ?p = "pieces n (payload m) ! i"
  have "length ?p \<le> n" using pieces_length [of ?p n "payload m"] i(1) by simp
  moreover have "int (length (pack f)) = header_size f + int (length ?p)" 
    using nth_cuts [OF i(1)] i(2) by (simp add: pack_length cut_sane sane)
  moreover have "header_size f \<le> header_size m" using nth_cuts [OF i(1)] i(2) cut_header(1) [OF sane] by simp
  ultimately show ?thesis by linarith
qed

lemma cuts_first:
  assumes "0 < n" and "n < length (payload m)" and sane: "sane m"
  shows "cuts n m \<noteq> [] \<and> int (length (pack (hd (cuts n m)))) = header_size m + int n"
proof -
  have ps: "pieces n (payload m) = take n (payload m) # pieces n (drop n (payload m))"
    using assms by (subst pieces.simps) auto
  then have "cuts n m \<noteq> []" using length_cuts [of n m] by (metis length_0_conv list.simps(3))
  then have "hd (cuts n m) = cut (length (cuts n m)) 0 (take n (payload m)) m"
    using nth_cuts [of 0 n m] ps by (simp add: hd_conv_nth)
  then show ?thesis using \<open>cuts n m \<noteq> []\<close> assms(2) cut_header(2) by (simp add: pack_length cut_sane sane)
qed

text \<open>More than 255 fragments: the count does not fit its byte.\<close>

lemma cuts_wrap:
  assumes "0 < n" and "255 * n < length (payload m)" and "length (payload m) \<le> 256 * n" and "f \<in> set (cuts n m)"
  shows "length (cuts n m) = 256 \<and> frag_total f = 0"
proof -
  have "length (cuts n m) = 256"
    using length_pieces_ge [of n 255 "payload m"] length_pieces_le [of "payload m" 256 n] assms(1-3) by simp
  moreover obtain i where "i < length (cuts n m)" "f = cuts n m ! i" using assms(4) by (auto simp: in_set_conv_nth)
  ultimately show ?thesis using nth_cuts [of i n m] by (simp add: fragment_total_def)
qed

end

text \<open>Sending one message: whole or cut to the relay's own limit, then once more cut to the limit the
  connection reported.\<close>

definition send_cutting :: "('m \<Rightarrow> int) \<Rightarrow> ('m \<Rightarrow> bytes) \<Rightarrow> ('m \<Rightarrow> bytes) \<Rightarrow> ('m \<Rightarrow> int \<Rightarrow> 'm list run)
    \<Rightarrow> ('q \<Rightarrow> bytes \<Rightarrow> relay_error option \<times> 'q) \<Rightarrow> int \<Rightarrow> 'm \<Rightarrow> 'q \<Rightarrow> (relay_error option \<times> 'q) run" where
  "send_cutting header_size payload pack frag send mtu m q =
     run_then (if mtu > header_size m \<and> int (length (payload m)) > mtu - header_size m
        then run_then (frag m mtu) (\<lambda>ms. returns (write_all pack send ms q))
        else returns (send q (pack m)))
       (\<lambda>(err, q). case err of
          Some (DatagramTooLarge maxSize) \<Rightarrow>
            if maxSize - 3 \<le> header_size m then returns (err, q)
            else run_then (frag m (maxSize - 3)) (\<lambda>ms. returns (write_all pack send ms q))
        | _ \<Rightarrow> returns (err, q))"

text \<open>A connection with a limit takes nothing over it.\<close>

definition all_within :: "int \<Rightarrow> bytes list \<Rightarrow> bool" where
  "all_within L q \<longleftrightarrow> (\<forall>b \<in> set q. int (length b) \<le> L)"

lemma send_limit_within: "send_limit L q b = (err, q') \<Longrightarrow> all_within L q \<Longrightarrow> all_within L q'"
  by (auto simp: send_limit_def all_within_def split: if_splits)

lemma write_all_within: "write_all pack (send_limit L) ms q = (err, q') \<Longrightarrow> all_within L q \<Longrightarrow> all_within L q'"
proof (induction ms arbitrary: q)
  case (Cons m ms)
  obtain e q1 where "send_limit L q (pack m) = (e, q1)" by fastforce
  then show ?case using Cons send_limit_within [of L q "pack m" e q1] by (cases e) auto
qed simp

lemma run_then_returns: "run_then r f = returns y \<Longrightarrow> \<exists>x. r = returns x \<and> f x = returns y"
  by (auto simp: run_then_def returns_def split: option.splits sum.splits)

lemma send_cutting_within:
  assumes "send_cutting header_size payload pack frag (send_limit L) mtu m q = returns (err, q')" and "all_within L q"
  shows "all_within L q'"
proof -
  let ?put = "\<lambda>mx q. run_then (frag m mx) (\<lambda>ms. returns (write_all pack (send_limit L) ms q))"
  have written: "all_within L q2" if "?put mx q1 = returns (e, q2)" "all_within L q1" for mx q1 e q2
    using run_then_returns [OF that(1)] write_all_within that(2) by auto
  obtain e q1 where first: "(if mtu > header_size m \<and> int (length (payload m)) > mtu - header_size m
        then ?put mtu q else returns (send_limit L q (pack m))) = returns (e, q1)"
      and second: "(case e of
          Some (DatagramTooLarge maxSize) \<Rightarrow> if maxSize - 3 \<le> header_size m then returns (e, q1) else ?put (maxSize - 3) q1
        | _ \<Rightarrow> returns (e, q1)) = returns (err, q')"
    using run_then_returns [OF assms(1) [unfolded send_cutting_def]] by auto
  have within: "all_within L q1"
  proof (cases "mtu > header_size m \<and> int (length (payload m)) > mtu - header_size m")
    case True
    then show ?thesis using first written assms(2) by simp
  next
    case False
    then show ?thesis using first assms(2) unfolding if_not_P [OF False] by (simp add: send_limit_within)
  qed
  show ?thesis
  proof (cases "\<exists>k. e = Some (DatagramTooLarge k) \<and> \<not> k - 3 \<le> header_size m")
    case True
    then show ?thesis using second written within by auto
  next
    case False
    then show ?thesis using second within by (auto split: option.splits relay_error.splits if_splits)
  qed
qed

context relay begin

lemma send_cuts:
  assumes sane: "sane m"
  assumes "header_size m < mx" and "mx \<le> L" and "\<not> int (length (payload m)) \<le> mx - header_size m"
    and "int (length (payload m)) \<le> 255 * (mx - header_size m)"
  shows "\<exists>fs. frag m mx = returns fs \<and> write_all pack (send_limit L) fs q = (None, q @ map pack fs) \<and> parts_of m fs"
proof (intro exI conjI)
  let ?n = "nat (mx - header_size m)"
  show "frag m mx = returns (cuts ?n m)" by (rule frag_cuts [OF assms(2,4)])
  show "write_all pack (send_limit L) (cuts ?n m) q = (None, q @ map pack (cuts ?n m))"
  proof (rule write_all_fits)
    fix f
    assume "f \<in> set (cuts ?n m)"
    from cuts_size [OF sane this] show "int (length (pack f)) \<le> L" using assms(2,3) by simp
  qed
  show "parts_of m (cuts ?n m)" 
  proof (rule cuts_parts)
    show "0 < ?n" "?n < length (payload m)" using assms by linarith+
    have "int ?n = mx - header_size m" using assms(2) by simp
    then have "int (length (payload m)) \<le> int (255 * ?n)" using assms(5) by simp
    then show "length (payload m) \<le> 255 * ?n" by (simp only: of_nat_le_iff)
  qed
qed

text \<open>Whatever the connection answers, sending returns.\<close>

lemma resend_returns:
  "\<exists>r. (case err of
      Some (DatagramTooLarge maxSize) \<Rightarrow>
        if maxSize - 3 \<le> header_size m then returns (err, q)
        else run_then (frag m (maxSize - 3)) (\<lambda>ms. returns (write_all pack send ms q))
    | _ \<Rightarrow> returns (err, q)) = returns r"
proof (cases "\<exists>k. err = Some (DatagramTooLarge k)")
  case True
  then obtain k where k: "err = Some (DatagramTooLarge k)" by blast
  show ?thesis
  proof (cases "k - 3 \<le> header_size m")
    case False
    then obtain fs where "frag m (k - 3) = returns fs" using frag_returns [of m "k - 3"] by force
    then show ?thesis using k False by auto
  qed (use k in auto)
next
  case False
  then show ?thesis by (auto split: option.splits relay_error.splits)
qed

lemma send_returns: "\<exists>r. send_cutting header_size payload pack frag send mtu m q = returns r"
proof (cases "mtu > header_size m \<and> int (length (payload m)) > mtu - header_size m")
  case True
  then obtain fs where fs: "frag m mtu = returns fs" using frag_returns by blast
  obtain err q' where "write_all pack send fs q = (err, q')" by fastforce
  then show ?thesis unfolding send_cutting_def using fs True by (simp add: resend_returns del: split_paired_Ex)
next
  case False
  obtain err q' where "send q (pack m) = (err, q')" by fastforce
  then show ?thesis unfolding send_cutting_def if_not_P [OF False] by (simp add: resend_returns del: split_paired_Ex)
qed

text \<open>Over a connection with a limit it ends with the message, or all its fragments, sent.\<close>

lemma send_ok:
  assumes sane: "sane m" and mtu: "header_size m < mtu" and L: "header_size m < L - 3"
    and fits: "int (length (payload m)) \<le> 255 * (min mtu (L - 3) - header_size m)"
  shows "\<exists>fs. send_cutting header_size payload pack frag (send_limit L) mtu m [] = returns (None, map pack fs) \<and> parts_of m fs"
proof -
  let ?len = "int (length (payload m))"
  have fits': "?len \<le> 255 * (mtu - header_size m)" "?len \<le> 255 * (L - 3 - header_size m)"
    using fits by (auto simp: min_def split: if_splits)
  have again: "\<exists>fs. run_then (frag m (L - 3)) (\<lambda>ms. returns (write_all pack (send_limit L) ms [])) = returns (None, map pack fs)
      \<and> parts_of m fs" if "\<not> ?len \<le> L - 3 - header_size m"
  proof -
    from send_cuts [OF sane L _ that fits'(2), of L "[]"]
    obtain fs where "frag m (L - 3) = returns fs" "write_all pack (send_limit L) fs [] = (None, [] @ map pack fs)" "parts_of m fs"
      by auto
    then show ?thesis by (intro exI [of _ fs]) simp
  qed
  show ?thesis
  proof (cases "?len \<le> mtu - header_size m")
    case True
    show ?thesis
    proof (cases "int (length (pack m)) \<le> L")
      case fit: True
      then show ?thesis using True
        by (intro exI [of _ "[m]"]) (simp add: send_cutting_def send_limit_def parts_of_def)
    next
      case False
      then have "\<not> ?len \<le> L - 3 - header_size m" using pack_length [OF sane] by linarith
      then show ?thesis using again True False L by (simp add: send_cutting_def send_limit_def)
    qed
  next
    case False
    let ?n = "nat (mtu - header_size m)"
    have f: "frag m mtu = returns (cuts ?n m)" by (rule frag_cuts [OF mtu False])
    show ?thesis
    proof (cases "mtu \<le> L")
      case True
      from send_cuts [OF sane mtu True False fits'(1), of "[]"] show ?thesis using False mtu by (auto simp: send_cutting_def)
    next
      case large: False
      have n: "0 < ?n" "?n < length (payload m)" "int ?n = mtu - header_size m" using mtu False by linarith+
      from cuts_first [OF n(1,2) sane] have "write_all pack (send_limit L) (cuts ?n m) [] = (Some (DatagramTooLarge L), [])"
        using large n(3) by (intro write_all_too_large) auto
      moreover have "\<not> ?len \<le> L - 3 - header_size m" using False large by linarith
      ultimately show ?thesis using again False L mtu f by (simp add: send_cutting_def)
    qed
  qed
qed

end

end
