(* ===== verification/RelayReceive.thy ===== *)
theory RelayReceive
  imports Relay
begin

text \<open>
  The receiving half of the relays: datagrams are decoded, dispatched to the relay of their session and
  fed to its table. The interface adds to \<open>relay\<close> what a dispatcher does with a datagram for a session
  that has a relay (\<open>handle_known\<close>) and what a joined packet has in common with the one that was cut.
\<close>

locale relay_receiver = relay frag_total frag_id packet_id payload joined feed header_size pack cut frag sane
  for frag_total frag_id :: "'m \<Rightarrow> byte" and packet_id :: "'m \<Rightarrow> u16" and payload :: "'m \<Rightarrow> bytes"
    and joined :: "'m \<Rightarrow> 'm list \<Rightarrow> 'm" and feed :: "'m \<Rightarrow> 'm table \<Rightarrow> 'm fed"
    and header_size :: "'m \<Rightarrow> int" and pack :: "'m \<Rightarrow> bytes" and cut :: "nat \<Rightarrow> nat \<Rightarrow> bytes \<Rightarrow> 'm \<Rightarrow> 'm"
    and frag :: "'m \<Rightarrow> int \<Rightarrow> 'm list run" and sane :: "'m \<Rightarrow> bool" +
  fixes input :: "'m \<Rightarrow> ('m, 's, 'x) udp_conn_scheme \<Rightarrow> panic + ('m, 's, 'x) udp_conn_scheme"
    and session :: "'m \<Rightarrow> 's"
    and ok :: "'m \<Rightarrow> bool"
    and unpack :: "bytes \<Rightarrow> 'e + 'm"
    and handle :: "bytes \<Rightarrow> 'st \<Rightarrow> 'h + 'st"
    and entry :: "'st \<Rightarrow> 's \<Rightarrow> ('m, 's, 'x) udp_conn_scheme option"
    and same :: "'m \<Rightarrow> 'm \<Rightarrow> bool"
  assumes input_eq: "input m c =
      (if frag_total m \<le> 1 then Inr (offer m c)
       else case feed m (cTable c) of
         NilDereference \<Rightarrow> Inl (Panic ''nil pointer dereference'')
       | Fed up gone T \<Rightarrow> (case up of None \<Rightarrow> Inr (c\<lparr>cTable := T\<rparr>) | Some x \<Rightarrow> Inr (offer x (c\<lparr>cTable := T\<rparr>))))"
    and unpack_pack: "ok m \<Longrightarrow> unpack (pack m) = Inr m"
    and handle_known: "ok m \<Longrightarrow> entry st (session m) = Some c \<Longrightarrow> \<not> cClosed c \<Longrightarrow> input m c = Inr c' \<Longrightarrow>
      cClosed c' = cClosed c \<Longrightarrow> \<exists>st'. handle (pack m) st = Inr st' \<and> entry st' (session m) = Some c'"
    and cut_ok: "ok m \<Longrightarrow> length p \<le> length (payload m) \<Longrightarrow> ok (cut n i p m)"
    and cut_session: "session (cut n i p m) = session m"
    and same_refl: "same m m"
    and same_joined: "fs \<noteq> [] \<Longrightarrow> (\<And>i. i < length fs \<Longrightarrow> fs ! i = cut (length fs) i (payload (fs ! i)) m) \<Longrightarrow>
      concat (map payload fs) = payload m \<Longrightarrow> y \<in> set fs \<Longrightarrow> same m (joined y fs)"
begin

fun input_all :: "'m list \<Rightarrow> ('m, 's, 'x) udp_conn_scheme \<Rightarrow> panic + ('m, 's, 'x) udp_conn_scheme" where
  "input_all [] c = Inr c"
| "input_all (m # ms) c = and_then (input m c) (input_all ms)"

lemma input_run:
  assumes "defrag_run feed (map Arrive ms) (cTable c) = Some (ups, gones, T)" and "length (cQueue c) \<le> 64"
  shows "input_all ms c = Inr (c\<lparr>cTable := T, cQueue := take 64 (cQueue c @ ups)\<rparr>)"
  using assms
proof (induction ms arbitrary: c ups gones)
  case Nil
  then show ?case by simp
next
  case (Cons m ms)
  obtain up gone T1 where f: "feed m (cTable c) = Fed up gone T1" using Cons.prems(1) by (cases "feed m (cTable c)") auto
  then obtain ups' gones' where r: "defrag_run feed (map Arrive ms) T1 = Some (ups', gones', T)"
      "ups = case_option [] (\<lambda>x. [x]) up @ ups'"
    using Cons.prems(1) by auto
  let ?c = "c\<lparr>cTable := T1, cQueue := take 64 (cQueue c @ case_option [] (\<lambda>x. [x]) up)\<rparr>"
  have off: "offer x c' = c'\<lparr>cQueue := take 64 (cQueue c' @ [x])\<rparr>" if "length (cQueue c') \<le> 64"
    for x and c' :: "('m, 's, 'x) udp_conn_scheme"
    using that by (auto simp: offer_def)
  have "input m c = Inr ?c"
  proof (cases "frag_total m \<le> 1")
    case True
    then have "up = Some m" "T1 = cTable c" using f whole [OF True, of "cTable c"] by simp_all
    then show ?thesis using True off [OF Cons.prems(2)] by (simp add: input_eq)
  next
    case False
    then show ?thesis using f off [of "c\<lparr>cTable := T1\<rparr>"] Cons.prems(2)
      by (auto simp: input_eq split: option.splits)
  qed
  moreover have "input_all ms ?c = Inr (?c\<lparr>cTable := T, cQueue := take 64 (cQueue ?c @ ups')\<rparr>)"
    using r(1) by (intro Cons.IH) auto
  moreover have "take 64 (cQueue ?c @ ups') = take 64 (cQueue c @ ups)" using r(2) by (simp add: take_twice del: take_append)
  ultimately show ?case by simp
qed

lemma input_open: "input m c = Inr c' \<Longrightarrow> cClosed c' = cClosed c"
  by (auto simp: input_eq offer_def split: if_splits fed.splits option.splits)

lemma handle_input_all:
  assumes "\<And>m. m \<in> set ms \<Longrightarrow> ok m \<and> session m = s"
    and "entry st s = Some c" and "\<not> cClosed c" and "input_all ms c = Inr c'"
  shows "\<exists>st'. handle_all handle (map pack ms) st = Inr st' \<and> entry st' s = Some c'"
  using assms
proof (induction ms arbitrary: st c)
  case (Cons m ms)
  obtain c1 where c1: "input m c = Inr c1" "input_all ms c1 = Inr c'"
    using Cons.prems(4) by (cases "input m c") auto
  obtain st1 where st1: "handle (pack m) st = Inr st1" "entry st1 s = Some c1"
    using handle_known [of m st c c1] Cons.prems(1) [of m] Cons.prems(2,3) c1(1) input_open [OF c1(1)] by auto
  have "\<exists>st'. handle_all handle (map pack ms) st1 = Inr st' \<and> entry st' s = Some c'"
    using Cons.prems(1,3) st1(2) input_open [OF c1(1)] c1(2) by (intro Cons.IH) auto
  then show ?case using st1(1) by simp
qed simp

lemma parts_received:
  assumes parts: "parts_of m fs" and total: "frag_total m = 1" and ms: "set ms = set fs"
  shows "\<exists>ups gones T. defrag_run feed (map Arrive ms) Map.empty = Some (ups, gones, T) \<and> ups \<noteq> [] \<and>
    (\<forall>x \<in> set ups. same m x)"
proof (cases "fs = [m]")
  case True
  then have "defrag_run feed (map Arrive ms) Map.empty = Some (ms, [], Map.empty)"
    using ms total by (intro run_whole) auto
  moreover have "ms \<noteq> []" using True ms by auto
  ultimately show ?thesis using True ms by (auto simp: same_refl)
next
  case False
  then have fs: "fragments (packet_id m) fs" "concat (map payload fs) = payload m"
      "\<And>i. i < length fs \<Longrightarrow> fs ! i = cut (length fs) i (payload (fs ! i)) m"
    using parts by (auto simp: parts_of_def)
  have ne: "fs \<noteq> []" using fs(1) by (auto simp: fragments_def)
  from run_one_packet [OF fs(1), of ms] ms
  obtain ups gones T where r: "defrag_run feed (map Arrive ms) Map.empty = Some (ups, gones, T)" "ups \<noteq> []"
      "\<And>x. x \<in> set ups \<Longrightarrow> \<exists>y \<in> set fs. x = joined y fs" by auto
  have "same m x" if "x \<in> set ups" for x using r(3) [OF that] same_joined [OF ne fs(3,2)] by blast
  with r(1,2) show ?thesis by blast
qed

lemma parts_ok:
  assumes parts: "parts_of m fs" and ok: "ok m" and f: "f \<in> set fs"
  shows "ok f \<and> session f = session m"
proof (cases "fs = [m]")
  case False
  then have fs: "concat (map payload fs) = payload m" "\<And>i. i < length fs \<Longrightarrow> fs ! i = cut (length fs) i (payload (fs ! i)) m"
    using parts by (auto simp: parts_of_def)
  obtain i where i: "i < length fs" "f = fs ! i" using f by (auto simp: in_set_conv_nth)
  have "length (payload f) \<le> length (payload m)"
    unfolding fs(1) [symmetric] using f by (simp add: length_concat comp_def member_le_sum_list)
  then show ?thesis using cut_ok [OF ok, of "payload f"] cut_session fs(2) [OF i(1)] i(2) by metis
qed (use ok f in auto)

text \<open>A relay that gets a message, or all fragments of it, in any order and multiplicity, queues the
  message and nothing else.\<close>

lemma receive_parts:
  assumes known: "entry st (session m) = Some c" "\<not> cClosed c" "cQueue c = []" "cTable c = Map.empty"
    and m: "parts_of m fs" "ok m" "frag_total m = 1" and arr: "set arrivals = pack ` set fs"
  shows "\<exists>st' r. handle_all handle arrivals st = Inr st' \<and> entry st' (session m) = Some r \<and>
    cQueue r \<noteq> [] \<and> (\<forall>x \<in> set (cQueue r). same m x)"
proof -
  have "\<exists>ms. arrivals = map pack ms \<and> set ms = set fs"
  proof -
    have dec: "unpack (pack f) = Inr f" if "f \<in> set fs" for f
      using parts_ok [OF m(1,2) that] by (simp add: unpack_pack)
    let ?ms = "map (\<lambda>s. projr (unpack s)) arrivals"
    have "map pack ?ms = arrivals" unfolding map_map by (rule map_idI) (use arr dec in auto)
    moreover have "set ?ms = set fs" using arr dec by (force simp: image_image)
    ultimately show ?thesis by metis
  qed
  then obtain ms where ms: "arrivals = map pack ms" "set ms = set fs" by blast
  obtain ups gones T where r: "defrag_run feed (map Arrive ms) Map.empty = Some (ups, gones, T)" "ups \<noteq> []"
      "\<forall>x \<in> set ups. same m x"
    using parts_received [OF m(1,3) ms(2)] by blast
  let ?c = "c\<lparr>cTable := T, cQueue := take 64 (cQueue c @ ups)\<rparr>"
  have "input_all ms c = Inr ?c" using r(1) known(3,4) by (intro input_run) simp_all
  from handle_input_all [OF _ known(1,2) this] parts_ok [OF m(1,2)] ms
  obtain st' where st': "handle_all handle arrivals st = Inr st'" "entry st' (session m) = Some ?c" by auto
  moreover have "cQueue ?c \<noteq> []" using known(3) r(2) by simp
  moreover have "\<forall>x \<in> set (cQueue ?c). same m x" using known(3) r(3) by (auto dest: in_set_takeD)
  ultimately show ?thesis by blast
qed

end

end
