(* ===== verification/HyUdp.thy ===== *)
theory HyUdp
  imports HyPacket RelayReceive
begin

text \<open>
  What hysteria's UDP relay guarantees: its messages round-trip, its \<^verbatim>\<open>feed\<close> and \<^verbatim>\<open>fragUDPMessage\<close>
  provide the interfaces of \<^verbatim>\<open>Defrag\<close> and \<^verbatim>\<open>Relay\<close>, and a packet written at one end is read at the
  other, whatever the datagram limit and the order of arrival.
\<close>

section \<open>The wire format\<close>

definition hy_message_ok :: "udp_message \<Rightarrow> bool" where
  "hy_message_ok m \<longleftrightarrow> length (hmHost m) \<le> 255 \<and> length (hmData m) < 65536"

lemma hy_decode_exact: "decodeUDPMessage s = Inr m \<longleftrightarrow> hy_message_ok m \<and> s = pack m"
proof
  assume "decodeUDPMessage s = Inr m"
  then show "hy_message_ok m \<and> s = pack m"
    by (auto simp: decodeUDPMessage_def and_then_eq_Inr read_Inr hy_message_ok_def pack_def split: if_splits)
next
  assume "hy_message_ok m \<and> s = pack m"
  then show "decodeUDPMessage s = Inr m"
    by (simp add: decodeUDPMessage_def hy_message_ok_def pack_def unat_of_nat_small)
qed

section \<open>The interfaces\<close>

definition hy_joined :: "udp_message \<Rightarrow> udp_message list \<Rightarrow> udp_message" where
  "hy_joined m fs = \<lparr>hmSession = hmSession m, hmPacket = hmPacket m, hmFragID = 0, hmFragTotal = 0,
     hmHost = hmHost (fs ! 0), hmPort = hmPort (fs ! 0), hmData = concat (map hmData fs)\<rparr>"

definition hy_cut :: "nat \<Rightarrow> nat \<Rightarrow> bytes \<Rightarrow> udp_message \<Rightarrow> udp_message" where
  "hy_cut n i p m = m\<lparr>hmData := p, hmFragID := word_of_nat i, hmFragTotal := fragment_total n\<rparr>"

lemma hy_feed: "feed m T = feed_spec hmFragTotal hmFragID hmPacket hmData hy_joined m T"
  by (simp only: feed_def feed_spec_def Let_def hy_joined_def length_list_update)

interpretation hy: relay hmFragTotal hmFragID hmPacket hmData hy_joined feed headerSize pack hy_cut fragUDPMessage "\<lambda>_. True"
proof (intro relay.intro relay_axioms.intro)
  show "defragger hmFragTotal hmFragID hmPacket hmData hy_joined feed"
    by (rule defraggerI [OF hy_feed]) (simp add: hy_joined_def)
next
  fix m :: udp_message and mx
  show "int (length (hmData m)) \<le> mx - headerSize m \<Longrightarrow> fragUDPMessage m mx = returns [m]" by (simp add: fragUDPMessage_def)
  show "\<not> int (length (hmData m)) \<le> mx - headerSize m \<Longrightarrow>
      fragUDPMessage m mx = run_then (split_loop (mx - headerSize m) (int (length (hmData m))) (hmData m))
        (\<lambda>parts. returns (map (\<lambda>(i, p). hy_cut (length parts) i p m) (List.enumerate 0 parts)))"
    by (simp add: fragUDPMessage_def Let_def hy_cut_def)
qed (simp_all add: hy_joined_def hy_cut_def headerSize_def pack_def)

lemma hy_writePackets: "writePackets send = write_all pack send"
proof (intro ext)
  show "writePackets send ms q = write_all pack send ms q" for ms q
    by (induction send ms q rule: writePackets.induct) (auto simp: writePacket_def split: prod.splits option.splits)
qed

lemma hy_send: "send_message send mtu m q = send_cutting headerSize hmData pack fragUDPMessage send mtu m q"
  unfolding send_message_def send_cutting_def hy_writePackets writePacket_def ..

section \<open>Receiving\<close>

text \<open>What a reader sees of a message.\<close>

definition same_packet :: "udp_message \<Rightarrow> udp_message \<Rightarrow> bool" where
  "same_packet m x \<longleftrightarrow> hmHost x = hmHost m \<and> hmPort x = hmPort m \<and> hmData x = hmData m"

lemma hy_same_joined:
  assumes "fs \<noteq> []" and "\<And>i. i < length fs \<Longrightarrow> fs ! i = hy_cut (length fs) i (hmData (fs ! i)) m"
    and "concat (map hmData fs) = hmData m"
  shows "same_packet m (hy_joined y fs)"
proof -
  have "hmHost (fs ! 0) = hmHost m" "hmPort (fs ! 0) = hmPort m"
    using assms(1) by (subst assms(2), simp_all add: hy_cut_def)+
  then show ?thesis using assms(3) by (simp add: same_packet_def hy_joined_def)
qed

lemma hy_cut_facts:
  "hy_message_ok m \<Longrightarrow> length p \<le> length (hmData m) \<Longrightarrow> hy_message_ok (hy_cut n i p m)"
  "hmSession (hy_cut n i p m) = hmSession m" "same_packet m m"
  by (simp_all add: hy_message_ok_def hy_cut_def same_packet_def)

lemma hy_decode_pack: "hy_message_ok m \<Longrightarrow> decodeUDPMessage (pack m) = Inr m"
  by (simp add: hy_decode_exact)

interpretation hy_client: relay_receiver hmFragTotal hmFragID hmPacket hmData hy_joined feed headerSize pack hy_cut
  fragUDPMessage "\<lambda>_. True" inputPacket hmSession hy_message_ok decodeUDPMessage client_handle "\<lambda>conns s. conns s" same_packet
proof unfold_locales
  show "inputPacket m c = (if hmFragTotal m \<le> 1 then Inr (offer m c)
       else case feed m (cTable c) of
         NilDereference \<Rightarrow> Inl (Panic ''nil pointer dereference'')
       | Fed up gone T \<Rightarrow> (case up of None \<Rightarrow> Inr (c\<lparr>cTable := T\<rparr>) | Some x \<Rightarrow> Inr (offer x (c\<lparr>cTable := T\<rparr>))))"
    for m and c :: hy_conn
    by (rule inputPacket_def)
qed (auto simp: hy_decode_pack client_handle_def input_at_def hy_cut_facts intro: hy_same_joined)

interpretation hy_server: relay_receiver hmFragTotal hmFragID hmPacket hmData hy_joined feed headerSize pack hy_cut
  fragUDPMessage "\<lambda>_. True" inputPacket hmSession hy_message_ok decodeUDPMessage server_handle "\<lambda>conns s. conns s" same_packet
proof unfold_locales
  show "inputPacket m c = (if hmFragTotal m \<le> 1 then Inr (offer m c)
       else case feed m (cTable c) of
         NilDereference \<Rightarrow> Inl (Panic ''nil pointer dereference'')
       | Fed up gone T \<Rightarrow> (case up of None \<Rightarrow> Inr (c\<lparr>cTable := T\<rparr>) | Some x \<Rightarrow> Inr (offer x (c\<lparr>cTable := T\<rparr>))))"
    for m and c :: hy_conn
    by (rule inputPacket_def)
qed (auto simp: hy_decode_pack server_handle_def input_at_def hy_cut_facts intro: hy_same_joined)

end
