(* ===== verification/HyProtocol.thy ===== *)
theory HyProtocol
  imports Wire
begin

text \<open>
  The messages of hysteria's control streams, \<^verbatim>\<open>hysteria/protocol.go\<close>. A writer is the bytes it hands
  to one \<^verbatim>\<open>stream.Write\<close>; a reader takes the bytes left on the stream and returns the message and what
  remains. Go strings are byte sequences.
\<close>

section \<open>The client's hello\<close>

definition ProtocolVersion :: byte where [cfg_defs]: "ProtocolVersion = 3"

record client_hello =
  chSendBPS :: u64
  chRecvBPS :: u64
  chAuth :: bytes

datatype hello_error = HelloIO io_error | UnsupportedVersion byte | InvalidRate

definition WriteClientHello :: "client_hello \<Rightarrow> bytes" where
  "WriteClientHello hello =
     [ProtocolVersion] @ put_u64 (chSendBPS hello) @ put_u64 (chRecvBPS hello)
       @ put_u16 (word_of_nat (length (chAuth hello))) @ chAuth hello"

definition ReadClientHello :: "bytes \<Rightarrow> hello_error + client_hello \<times> bytes" where
  "ReadClientHello s =
     and_then (map_err HelloIO (read_u8 s)) (\<lambda>(version, s).
     if version \<noteq> ProtocolVersion then Inl (UnsupportedVersion version)
     else and_then (map_err HelloIO (read_u64 s)) (\<lambda>(sendBPS, s).
     and_then (map_err HelloIO (read_u64 s)) (\<lambda>(recvBPS, s).
     if sendBPS = 0 \<or> recvBPS = 0 then Inl InvalidRate
     else and_then (map_err HelloIO (read_u16 s)) (\<lambda>(authLen, s).
     and_then (map_err HelloIO (read_full (unat authLen) s)) (\<lambda>(auth, s).
     Inr (\<lparr>chSendBPS = sendBPS, chRecvBPS = recvBPS, chAuth = auth\<rparr>, s))))))"

definition client_hello_ok :: "client_hello \<Rightarrow> bool" where
  "client_hello_ok h \<longleftrightarrow> chSendBPS h \<noteq> 0 \<and> chRecvBPS h \<noteq> 0 \<and> length (chAuth h) < 65536"

section \<open>The server's hello\<close>

record server_hello =
  shOK :: bool
  shSendBPS :: u64
  shRecvBPS :: u64
  shMessage :: bytes

definition ReadServerHello :: "bytes \<Rightarrow> io_error + server_hello \<times> bytes" where
  "ReadServerHello s =
     and_then (read_full 19 s) (\<lambda>(response, s).
     let hello = \<lparr>shOK = (response ! 0 = 1), shSendBPS = get_u64 (slice 1 9 response),
           shRecvBPS = get_u64 (slice 9 17 response), shMessage = []\<rparr>;
         messageLen = get_u16 (slice 17 19 response) in
     if messageLen = 0 then Inr (hello, s)
     else and_then (read_full (unat messageLen) s) (\<lambda>(message, s).
     Inr (hello\<lparr>shMessage := message\<rparr>, s)))"

definition WriteServerHello :: "server_hello \<Rightarrow> bytes" where
  "WriteServerHello hello =
     [if shOK hello then 1 else 0] @ put_u64 (shSendBPS hello) @ put_u64 (shRecvBPS hello)
       @ put_u16 (word_of_nat (length (shMessage hello))) @ shMessage hello"

section \<open>Requests and responses\<close>

record client_request =
  crUDP :: bool
  crHost :: bytes
  crPort :: u16

definition ReadClientRequest :: "bytes \<Rightarrow> io_error + client_request \<times> bytes" where
  "ReadClientRequest s =
     and_then (read_bool s) (\<lambda>(udp, s).
     and_then (read_u16 s) (\<lambda>(hostLen, s).
     and_then (read_full (unat hostLen) s) (\<lambda>(host, s).
     and_then (read_u16 s) (\<lambda>(port, s).
     Inr (\<lparr>crUDP = udp, crHost = host, crPort = port\<rparr>, s)))))"

definition WriteClientRequest :: "client_request \<Rightarrow> bytes \<Rightarrow> bytes" where
  "WriteClientRequest request payload =
     [if crUDP request then 1 else 0] @ put_u16 (word_of_nat (length (crHost request))) @ crHost request
       @ put_u16 (crPort request) @ payload"

record server_response =
  srOK :: bool
  srUDPSessionID :: u32
  srMessage :: bytes

definition ReadServerResponse :: "bytes \<Rightarrow> io_error + server_response \<times> bytes" where
  "ReadServerResponse s =
     and_then (read_full 7 s) (\<lambda>(response, s).
     let res = \<lparr>srOK = (response ! 0 = 1), srUDPSessionID = get_u32 (slice 1 5 response), srMessage = []\<rparr>;
         messageLen = get_u16 (slice 5 7 response) in
     if messageLen = 0 then Inr (res, s)
     else and_then (read_full (unat messageLen) s) (\<lambda>(message, s).
     Inr (res\<lparr>srMessage := message\<rparr>, s)))"

definition WriteServerResponse :: "server_response \<Rightarrow> bytes" where
  "WriteServerResponse response =
     [if srOK response then 1 else 0] @ put_u32 (srUDPSessionID response)
       @ put_u16 (word_of_nat (length (srMessage response))) @ srMessage response"

section \<open>The codecs\<close>

lemma unat_u16_of_nat: "n < 65536 \<Longrightarrow> unat (word_of_nat n :: u16) = n"
  by (simp add: unat_of_nat_small)

lemma u16_of_nat_0: "n < 65536 \<Longrightarrow> (word_of_nat n :: u16) = 0 \<longleftrightarrow> n = 0"
  by (simp add: word_unat_eq_iff unat_u16_of_nat del: unat_eq_0)

lemma ReadClientHello_exact:
  "ReadClientHello s = Inr (h, r) \<longleftrightarrow> client_hello_ok h \<and> s = WriteClientHello h @ r"
proof
  assume "ReadClientHello s = Inr (h, r)"
  then show "client_hello_ok h \<and> s = WriteClientHello h @ r"
    by (auto simp: ReadClientHello_def and_then_eq_Inr read_Inr client_hello_ok_def WriteClientHello_def
        unat_u16_of_nat split: if_splits)
next
  assume "client_hello_ok h \<and> s = WriteClientHello h @ r"
  then show "ReadClientHello s = Inr (h, r)"
    by (simp add: ReadClientHello_def client_hello_ok_def WriteClientHello_def unat_u16_of_nat)
qed

lemma read_header:
  assumes "length a = 8" and "length b = 8"
  shows "read_full 19 (x # a @ b @ put_u16 l @ rest) = Inr (x # a @ b @ put_u16 l, rest)"
  using read_full_append [of "x # a @ b @ put_u16 l" 19 rest] assms by simp

lemma read_server_hello:
  assumes "length (shMessage h) < 65536"
  shows "ReadServerHello (WriteServerHello h @ rest) = Inr (h, rest)"
  using assms read_header [of "put_u64 (shSendBPS h)" "put_u64 (shRecvBPS h)" "if shOK h then 1 else 0"
      "word_of_nat (length (shMessage h))" "shMessage h @ rest"]
  by (cases h) (auto simp: ReadServerHello_def WriteServerHello_def slice_def Let_def u16_of_nat_0 unat_u16_of_nat)

lemma read_client_request:
  assumes "length (crHost c) < 65536"
  shows "ReadClientRequest (WriteClientRequest c payload @ rest) = Inr (c, payload @ rest)"
  using assms by (simp add: ReadClientRequest_def WriteClientRequest_def unat_u16_of_nat)

lemma read_server_response:
  assumes "length (srMessage h) < 65536"
  shows "ReadServerResponse (WriteServerResponse h @ rest) = Inr (h, rest)"
  using assms read_full_append [of "(if srOK h then 1 else 0) # put_u32 (srUDPSessionID h) @ put_u16 (word_of_nat (length (srMessage h)))"
      7 "srMessage h @ rest"]
  by (cases h) (auto simp: ReadServerResponse_def WriteServerResponse_def slice_def Let_def u16_of_nat_0 unat_u16_of_nat)

interpretation client_hello: stream_codec client_hello_ok WriteClientHello ReadClientHello
proof unfold_locales
  show "client_hello_ok x \<Longrightarrow> ReadClientHello (WriteClientHello x @ rest) = Inr (x, rest)" for x rest
    by (simp add: ReadClientHello_exact)
  show "prefix_reader ReadClientHello"
    unfolding ReadClientHello_def [abs_def] by (intro prefix_intros)
qed

interpretation server_hello: stream_codec "\<lambda>h. length (shMessage h) < 65536" WriteServerHello ReadServerHello
proof unfold_locales
  show "length (shMessage x) < 65536 \<Longrightarrow> ReadServerHello (WriteServerHello x @ rest) = Inr (x, rest)" for x rest
    by (rule read_server_hello)
  show "prefix_reader ReadServerHello"
    unfolding ReadServerHello_def [abs_def] Let_def by (intro prefix_intros)
qed

interpretation client_request: stream_codec "\<lambda>c. length (crHost c) < 65536" "\<lambda>c. WriteClientRequest c []" ReadClientRequest
proof unfold_locales
  show "length (crHost x) < 65536 \<Longrightarrow> ReadClientRequest (WriteClientRequest x [] @ rest) = Inr (x, rest)" for x rest
    using read_client_request [of x "[]"] by simp
  show "prefix_reader ReadClientRequest"
    unfolding ReadClientRequest_def [abs_def] by (intro prefix_intros)
qed

interpretation server_response: stream_codec "\<lambda>h. length (srMessage h) < 65536" WriteServerResponse ReadServerResponse
proof unfold_locales
  show "length (srMessage x) < 65536 \<Longrightarrow> ReadServerResponse (WriteServerResponse x @ rest) = Inr (x, rest)" for x rest
    by (rule read_server_response)
  show "prefix_reader ReadServerResponse"
    unfolding ReadServerResponse_def [abs_def] Let_def by (intro prefix_intros)
qed

end
