(* ===== verification/HyClaims.thy ===== *)
theory HyClaims
  imports HyUdp HyProtocol
begin

text \<open>The properties of the hysteria protocol: control streams, datagrams and the UDP relay.\<close>

section \<open>Control streams\<close>

text \<open>The server accepts a client hello exactly when it is what \<^verbatim>\<open>WriteClientHello\<close> writes for a hello with
  non-zero rates and an authentication string whose length fits its field; it reads not a byte more.\<close>

theorem hy_client_hello_exact:
  "ReadClientHello s = Inr (h, r) \<longleftrightarrow>
     chSendBPS h \<noteq> 0 \<and> chRecvBPS h \<noteq> 0 \<and> length (chAuth h) < 65536 \<and> s = WriteClientHello h @ r"
  using ReadClientHello_exact [of s h r] by (auto simp: client_hello_ok_def)

text \<open>Server hello, client request and server response are read back as written when their strings fit the
  length fields, the rest of the stream (for a request, its payload first) untouched; no truncation
  of one is taken for a message.\<close>

theorem hy_control_roundtrip:
  assumes "length (shMessage sh) < 65536" and "length (crHost rq) < 65536" and "length (srMessage rs) < 65536"
  shows "ReadServerHello (WriteServerHello sh @ r) = Inr (sh, r) \<and>
    ReadClientRequest (WriteClientRequest rq payload @ r) = Inr (rq, payload @ r) \<and>
    ReadServerResponse (WriteServerResponse rs @ r) = Inr (rs, r) \<and>
    (\<forall>k < length (WriteServerHello sh). \<exists>e. ReadServerHello (take k (WriteServerHello sh)) = Inl e) \<and>
    (\<forall>k < length (WriteClientRequest rq []). \<exists>e. ReadClientRequest (take k (WriteClientRequest rq [])) = Inl e) \<and>
    (\<forall>k < length (WriteServerResponse rs). \<exists>e. ReadServerResponse (take k (WriteServerResponse rs)) = Inl e)"
  using assms read_client_request [OF assms(2), of payload r] server_hello.dec_enc server_response.dec_enc
    server_hello.truncated client_request.truncated server_response.truncated
  by blast

theorem hy_control_roundtrip_witness:
  "ReadClientRequest (WriteClientRequest \<lparr>crUDP = True, crHost = [104], crPort = 53\<rparr> [1, 2] @ [])
      = Inr (\<lparr>crUDP = True, crHost = [104], crPort = 53\<rparr>, [1, 2])"
  using hy_control_roundtrip [of "\<lparr>shOK = True, shSendBPS = 1, shRecvBPS = 2, shMessage = []\<rparr>"
      "\<lparr>crUDP = True, crHost = [104], crPort = 53\<rparr>" "\<lparr>srOK = True, srUDPSessionID = 1, srMessage = []\<rparr>" "[]" "[1, 2]"]
  by simp

section \<open>Datagrams\<close>

text \<open>A datagram is accepted exactly when it is what \<^verbatim>\<open>pack\<close> writes for a message whose host has at most
  255 bytes and whose data fits its length field.\<close>

theorem hy_datagram_exact:
  "decodeUDPMessage s = Inr m \<longleftrightarrow> length (hmHost m) \<le> 255 \<and> length (hmData m) < 65536 \<and> s = pack m"
  using hy_decode_exact [of s m] by (simp add: hy_message_ok_def)

section \<open>The relay\<close>

lemma hy_write_packet:
  assumes "\<not> cClosed c" and "length data < 65536" and "saIsIP d \<or> length (saFqdn d) \<le> 255"
    and "14 + int (length (saAddrString d)) < cMTU c" and "14 + int (length (saAddrString d)) < L - 3"
    and "int (length data) \<le> 255 * (min (cMTU c) (L - 3) - (14 + int (length (saAddrString d))))"
  shows "\<exists>fs. WritePacket (send_limit L) data d c [] =
      returns (None, c\<lparr>cPacketId := cPacketId c + 1\<rparr>, map pack fs) \<and> hy.parts_of (new_message c data d) fs"
proof -
  let ?m = "new_message c data d"
  have h: "headerSize ?m = 14 + int (length (saAddrString d))" "hmData ?m = data"
    by (simp_all add: new_message_def headerSize_def)
  from hy.send_ok [of ?m "cMTU c" L] assms(4-6) h
  obtain fs where "send_message (send_limit L) (cMTU c) ?m [] = returns (None, map pack fs)" "hy.parts_of ?m fs"
    by (auto simp: hy_send)
  then show ?thesis using assms(1-3) by (intro exI [of _ fs]) (auto simp: WritePacket_def)
qed

lemma hy_receive_parts:
  assumes "handle = client_handle \<or> handle = server_handle" and "conns (hmSession m) = Some (newUDPPacketConn s)"
    and "hy.parts_of m fs" and "hy_message_ok m" and "hmFragTotal m = 1" and "set arrivals = pack ` set fs"
  shows "\<exists>conns' r. handle_all handle arrivals conns = Inr conns' \<and> conns' (hmSession m) = Some r \<and>
    cQueue r \<noteq> [] \<and> (\<forall>x \<in> set (cQueue r). same_packet m x)"
proof -
  have new: "\<not> cClosed (newUDPPacketConn s)" "cQueue (newUDPPacketConn s) = []" "cTable (newUDPPacketConn s) = Map.empty"
    by (simp_all add: newUDPPacketConn_def)
  from assms(1) show ?thesis
    using hy_client.receive_parts [where st = conns, OF assms(2) new assms(3-6)]
      hy_server.receive_parts [where st = conns, OF assms(2) new assms(3-6)] by metis
qed

text \<open>A packet written at one end is read at the other. Over a connection with any datagram limit
  that leaves room beside the header, \<^verbatim>\<open>WritePacket\<close> succeeds, cutting the packet once for its own limit
  and again for the connection's where needed; and when the datagrams it sent arrive, in any order
  and each any number of times, a fresh relay at either side reads the packet, with its host and port,
  and nothing else.\<close>

theorem hy_udp_end_to_end:
  assumes "\<not> cClosed c" and "length data < 65536" and "length (saAddrString d) \<le> 255"
    and "saIsIP d \<or> length (saFqdn d) \<le> 255"
    and "14 + int (length (saAddrString d)) < cMTU c" and "14 + int (length (saAddrString d)) < L - 3"
    and "int (length data) \<le> 255 * (min (cMTU c) (L - 3) - (14 + int (length (saAddrString d))))"
    and "conns (cSession c) = Some (newUDPPacketConn s)" and "handle = client_handle \<or> handle = server_handle"
  shows "\<exists>sent. WritePacket (send_limit L) data d c [] = returns (None, c\<lparr>cPacketId := cPacketId c + 1\<rparr>, sent) \<and>
    (\<forall>arrivals. set arrivals = set sent \<longrightarrow>
      (\<exists>conns' r r'. handle_all handle arrivals conns = Inr conns' \<and> conns' (cSession c) = Some r \<and>
        ReadFrom address DataReady expired (length data) r = Some (Inr (data, address (saAddrString d) (saPort d)), r') \<and>
        (\<forall>x \<in> set (cQueue r). hmData x = data \<and> hmHost x = saAddrString d \<and> hmPort x = saPort d)))"
proof -
  let ?m = "new_message c data d"
  obtain fs where fs: "WritePacket (send_limit L) data d c [] =
      returns (None, c\<lparr>cPacketId := cPacketId c + 1\<rparr>, map pack fs)" "hy.parts_of ?m fs"
    using hy_write_packet [OF assms(1,2,4-7)] by blast
  have m: "hy_message_ok ?m" "hmFragTotal ?m = 1" "hmSession ?m = cSession c"
    using assms(2,3) by (simp_all add: new_message_def hy_message_ok_def)
  have "\<exists>conns' r r'. handle_all handle arrivals conns = Inr conns' \<and> conns' (cSession c) = Some r \<and>
        ReadFrom address DataReady expired (length data) r = Some (Inr (data, address (saAddrString d) (saPort d)), r') \<and>
        (\<forall>x \<in> set (cQueue r). hmData x = data \<and> hmHost x = saAddrString d \<and> hmPort x = saPort d)"
    if arr: "set arrivals = set (map pack fs)" for arrivals
  proof -
    from hy_receive_parts [OF assms(9) _ fs(2) m(1,2), of conns s arrivals] assms(8) m(3) arr
    obtain conns' r where r: "handle_all handle arrivals conns = Inr conns'" "conns' (cSession c) = Some r"
        "cQueue r \<noteq> []" "\<forall>x \<in> set (cQueue r). same_packet ?m x" by auto
    then show ?thesis
      by (cases "cQueue r") (auto simp: ReadFrom_def same_packet_def new_message_def)
  qed
  with fs(1) show ?thesis by blast
qed

theorem hy_udp_end_to_end_witness:
  "\<exists>sent. WritePacket (send_limit 21) [1, 2, 3, 4, 5, 6, 7]
      \<lparr>saIsValid = True, saIsIP = False, saFqdn = [104], saAddrString = [104], saString = [104], saPort = 53\<rparr>
      (newUDPPacketConn 1) [] = returns (None, (newUDPPacketConn 1)\<lparr>cPacketId := 1\<rparr>, sent) \<and>
    (\<exists>conns' r r'. handle_all server_handle (rev sent) [1 \<mapsto> newUDPPacketConn 1] = Inr conns' \<and> conns' 1 = Some r \<and>
        ReadFrom Pair DataReady False (length [1 :: byte, 2, 3, 4, 5, 6, 7]) r = Some (Inr ([1, 2, 3, 4, 5, 6, 7], ([104], 53)), r'))"
proof -
  let ?d = "\<lparr>saIsValid = True, saIsIP = False, saFqdn = [104], saAddrString = [104], saString = [104], saPort = 53\<rparr>"
  have "\<not> cClosed (newUDPPacketConn 1)" "cMTU (newUDPPacketConn 1) = 1197" "cSession (newUDPPacketConn 1) = 1"
    "cPacketId (newUDPPacketConn 1) = 0"
    by (simp_all add: newUDPPacketConn_def)
  with hy_udp_end_to_end [of "newUDPPacketConn 1" "[1, 2, 3, 4, 5, 6, 7]" ?d 21 "[1 \<mapsto> newUDPPacketConn 1]" 1 server_handle Pair False]
  have "\<exists>sent. WritePacket (send_limit 21) [1, 2, 3, 4, 5, 6, 7] ?d (newUDPPacketConn 1) []
      = returns (None, (newUDPPacketConn 1)\<lparr>cPacketId := 1\<rparr>, sent) \<and>
    (\<forall>arrivals. set arrivals = set sent \<longrightarrow>
      (\<exists>conns' r r'. handle_all server_handle arrivals [1 \<mapsto> newUDPPacketConn 1] = Inr conns' \<and> conns' 1 = Some r \<and>
        ReadFrom Pair DataReady False (length [1 :: byte, 2, 3, 4, 5, 6, 7]) r = Some (Inr ([1, 2, 3, 4, 5, 6, 7], ([104], 53)), r') \<and>
        (\<forall>x \<in> set (cQueue r). hmData x = [1, 2, 3, 4, 5, 6, 7] \<and> hmHost x = [104] \<and> hmPort x = 53)))"
    by simp
  then show ?thesis using set_rev by meson
qed

text \<open>C17. Writing always returns, whatever the connection answers and whatever size it asks for:
  \<^verbatim>\<open>fragUDPMessage\<close>, whose loop runs for ever when the size leaves no room beside the header, is never
  called there.\<close>

theorem hy_write_returns:
  "(\<exists>err c' q'. WritePacket send data d c q = returns (err, c', q')) \<and>
   (\<exists>n err c' q'. WriteTo send data d c q = returns ((n, err), c', q')) \<and>
   (fragUDPMessage m maxPacketSize = None \<longleftrightarrow> maxPacketSize = headerSize m \<and> hmData m \<noteq> [])"
proof -
  obtain err q' where "send_message send (cMTU c) (new_message c data d) q = returns (err, q')"
    using hy.send_returns [of send "cMTU c" "new_message c data d" q] by (auto simp: hy_send)
  then show ?thesis using hy.frag_diverges [of m maxPacketSize] by (simp add: WritePacket_def WriteTo_def)
qed



text \<open>C18. A packet that needs 256 fragments is not reassembled: the count wraps to zero, and the receiver
  hands up each of the 256 fragments as a packet of its own.\<close>

theorem hy_fragment_count_wraps:
  assumes "0 < n" and "255 * n < length (hmData m)" and "length (hmData m) \<le> 256 * n"
  shows "\<exists>fs. fragUDPMessage m (headerSize m + int n) = returns fs \<and> length fs = 256 \<and>
    concat (map hmData fs) = hmData m \<and> defrag_run feed (map Arrive fs) Map.empty = Some (fs, [], Map.empty)"
proof (intro exI conjI)
  let ?fs = "hy.cuts n m"
  show "fragUDPMessage m (headerSize m + int n) = returns ?fs"
    using hy.frag_cuts [of m "headerSize m + int n"] assms by simp
  have "0 < length ?fs" 
    unfolding hy.length_cuts using assms(1,2) by (intro length_pieces_ge) linarith+
  then have "?fs \<noteq> []" by (rule iffD1 [OF length_greater_0_conv])
  then show "length ?fs = 256" using hy.cuts_wrap [OF assms] by (meson hd_in_set)
  show "concat (map hmData ?fs) = hmData m" by (simp add: hy.payload_cuts concat_pieces [OF assms(1)])
  show "defrag_run feed (map Arrive ?fs) Map.empty = Some (?fs, [], Map.empty)"
    using hy.cuts_wrap [OF assms] by (intro hy.run_whole) simp
qed

theorem hy_fragment_count_wraps_witness:
  "\<exists>fs. fragUDPMessage \<lparr>hmSession = 1, hmPacket = 7, hmFragID = 0, hmFragTotal = 1, hmHost = [104], hmPort = 53,
      hmData = replicate 256 9\<rparr> 16 = returns fs \<and> length fs = 256"
proof -
  let ?m = "\<lparr>hmSession = 1, hmPacket = 7, hmFragID = 0, hmFragTotal = 1, hmHost = [104], hmPort = 53,
      hmData = replicate 256 9\<rparr>"
  have "headerSize ?m + int 1 = 16" by (simp add: headerSize_def)
  moreover have "255 * 1 < length (hmData ?m)" "length (hmData ?m) \<le> 256 * 1" by simp_all
  ultimately show ?thesis using hy_fragment_count_wraps [of 1 ?m] by (metis zero_less_one)
qed

end
