(* ===== verification/Hy2Protocol.thy ===== *)
theory Hy2Protocol
  imports Wire
begin

unbundle bit_operations_syntax

text \<open>
  The control messages of hysteria2, \<^verbatim>\<open>hysteria2/internal/protocol/proxy.go\<close>, with the padding of
  \<^verbatim>\<open>padding.go\<close>. \<^verbatim>\<open>quicvarint.Read\<close> and \<^verbatim>\<open>quicvarint.Len\<close> are parameters (\<open>vread\<close>, \<open>vlen\<close>); what is relied
  on is that they agree with the encoding \<^verbatim>\<open>varintPut\<close> writes (\<open>varint_ok\<close>). A fresh \<^verbatim>\<open>buf.Buffer\<close> is a
  stretch of pool memory, whose contents (\<open>pool\<close>) are whatever was there.
\<close>

section \<open>Constants\<close>

definition FrameTypeTCPRequest :: u64 where [cfg_defs]: "FrameTypeTCPRequest = 0x401"
definition MaxAddressLength :: u64 where [cfg_defs]: "MaxAddressLength = 2048"
definition MaxMessageLength :: u64 where [cfg_defs]: "MaxMessageLength = 2048"
definition MaxPaddingLength :: u64 where [cfg_defs]: "MaxPaddingLength = 4096"
definition MaxUDPSize :: nat where [cfg_defs]: "MaxUDPSize = 4096"
definition maxVarInt1 :: u64 where [cfg_defs]: "maxVarInt1 = 63"
definition maxVarInt2 :: u64 where [cfg_defs]: "maxVarInt2 = 16383"
definition maxVarInt4 :: u64 where [cfg_defs]: "maxVarInt4 = 1073741823"
definition maxVarInt8 :: u64 where [cfg_defs]: "maxVarInt8 = 4611686018427387903"

section \<open>Variable-length integers\<close>

text \<open>\<open>low k i\<close> is the byte \<^verbatim>\<open>uint8(i >> k)\<close>.\<close>

definition low :: "nat \<Rightarrow> u64 \<Rightarrow> byte" where
  "low k i = ucast (drop_bit k i)"

definition varintPut :: "u64 \<Rightarrow> panic + bytes" where
  "varintPut i =
     (if i \<le> maxVarInt1 then Inr [low 0 i]
      else if i \<le> maxVarInt2 then Inr [low 8 i OR 0x40, low 0 i]
      else if i \<le> maxVarInt4 then Inr [low 24 i OR 0x80, low 16 i, low 8 i, low 0 i]
      else if i \<le> maxVarInt8 then Inr [low 56 i OR 0xc0, low 48 i, low 40 i, low 32 i, low 24 i, low 16 i, low 8 i, low 0 i]
      else Inl (Panic ''value does not fit into 62 bits''))"

definition WriteUVariant :: "u64 \<Rightarrow> panic + bytes" where
  "WriteUVariant v = varintPut v"

definition WriteVString :: "bytes \<Rightarrow> panic + bytes" where
  "WriteVString s = and_then (WriteUVariant (word_of_nat (length s))) (\<lambda>l. Inr (l @ s))"

datatype proxy_error = ProxyIO io_error | InvalidAddressLength | InvalidMessageLength | InvalidPaddingLength

definition ReadVString :: "u64 reader \<Rightarrow> bytes \<Rightarrow> proxy_error + bytes \<times> bytes" where
  "ReadVString vread s =
     and_then (map_err ProxyIO (vread s)) (\<lambda>(len, s).
     if len > MaxAddressLength then Inl InvalidAddressLength
     else and_then (map_err ProxyIO (read_full (unat len) s)) (\<lambda>(str, s).
     Inr (str, s)))"

section \<open>Padding\<close>

record padding =
  padMin :: nat
  padMax :: nat

definition paddingChars :: bytes where
  "paddingChars = map word_of_nat ([97..<123] @ [65..<91] @ [48..<58])"

text \<open>The padding for given results of the random generator: \<open>k\<close> for the length, \<open>picks\<close> for the letters.\<close>

definition padding_String :: "padding \<Rightarrow> nat \<Rightarrow> (nat \<Rightarrow> nat) \<Rightarrow> bytes" where
  "padding_String p k picks = map (\<lambda>i. paddingChars ! picks i) [0..<padMin p + k]"

definition tcpRequestPadding :: padding where "tcpRequestPadding = \<lparr>padMin = 64, padMax = 512\<rparr>"
definition tcpResponsePadding :: padding where "tcpResponsePadding = \<lparr>padMin = 128, padMax = 1024\<rparr>"

section \<open>TCP requests\<close>

text \<open>\<^verbatim>\<open>io.CopyN(io.Discard, r, n)\<close>.\<close>

definition discard :: "nat \<Rightarrow> bytes \<Rightarrow> io_error + unit \<times> bytes" where
  "discard n s = (if n \<le> length s then Inr ((), drop n s) else Inl EOF)"

definition skip_padding :: "u64 reader \<Rightarrow> bytes \<Rightarrow> proxy_error + unit \<times> bytes" where
  "skip_padding vread s =
     and_then (map_err ProxyIO (vread s)) (\<lambda>(paddingLen, s).
     if paddingLen > MaxPaddingLength then Inl InvalidPaddingLength
     else if paddingLen > 0 then map_err ProxyIO (discard (unat paddingLen) s)
     else Inr ((), s))"

definition ReadTCPRequest :: "u64 reader \<Rightarrow> bytes \<Rightarrow> proxy_error + bytes \<times> bytes" where
  "ReadTCPRequest vread s =
     and_then (map_err ProxyIO (vread s)) (\<lambda>(addrLen, s).
     if addrLen = 0 \<or> addrLen > MaxAddressLength then Inl InvalidAddressLength
     else and_then (map_err ProxyIO (read_full (unat addrLen) s)) (\<lambda>(addr, s).
     and_then (skip_padding vread s) (\<lambda>(_, s).
     Inr (addr, s))))"

text \<open>\<^verbatim>\<open>varintPut(content[i:], v)\<close>, which indexes the slice.\<close>

definition varint_at :: "nat \<Rightarrow> u64 \<Rightarrow> bytes \<Rightarrow> panic + bytes \<times> nat" where
  "varint_at i v content = and_then (varintPut v) (\<lambda>bs.
     if i + length bs \<le> length content then Inr (copy_at i bs content, i + length bs)
     else Inl (Panic ''index out of range''))"

definition WriteTCPRequest :: "(u64 \<Rightarrow> nat) \<Rightarrow> bytes \<Rightarrow> bytes \<Rightarrow> bytes \<Rightarrow> bytes \<Rightarrow> panic + bytes" where
  "WriteTCPRequest vlen pool pad addr payload =
     (let paddingLen = word_of_nat (length pad); addrLen = word_of_nat (length addr);
          sz = vlen FrameTypeTCPRequest + vlen addrLen + length addr + vlen paddingLen + length pad;
          content = take sz pool in
      and_then (varint_at 0 FrameTypeTCPRequest content) (\<lambda>(content, i).
      and_then (varint_at i addrLen content) (\<lambda>(content, i).
      let content = copy_at i addr content; i = i + min (length addr) (length content - i) in
      and_then (varint_at i paddingLen content) (\<lambda>(content, i).
      Inr (copy_at i pad content @ payload)))))"

section \<open>TCP responses\<close>

definition ReadTCPResponse :: "u64 reader \<Rightarrow> bytes \<Rightarrow> proxy_error + (bool \<times> bytes) \<times> bytes" where
  "ReadTCPResponse vread s =
     and_then (map_err ProxyIO (read_full 1 s)) (\<lambda>(status, s).
     and_then (map_err ProxyIO (vread s)) (\<lambda>(messageLen, s).
     if messageLen > MaxMessageLength then Inl InvalidMessageLength
     else and_then (map_err ProxyIO (read_full (unat messageLen) s)) (\<lambda>(message, s).
     and_then (skip_padding vread s) (\<lambda>(_, s).
     Inr ((status ! 0 = 0, message), s)))))"

text \<open>\<^verbatim>\<open>buffer.Extend(n)\<close>: \<open>n\<close> more bytes, holding what the pool memory held.\<close>

definition extend_buffer :: "bytes \<Rightarrow> nat \<Rightarrow> bytes \<Rightarrow> bytes" where
  "extend_buffer pool n b = b @ slice (length b) (length b + n) pool"

definition WriteTCPResponse :: "bytes \<Rightarrow> bytes \<Rightarrow> bool \<Rightarrow> bytes \<Rightarrow> bytes \<Rightarrow> panic + bytes" where
  "WriteTCPResponse pool pad ok msg payload =
     (let msgLen = (if length msg > unat MaxMessageLength then unat MaxMessageLength else length msg) in
      and_then (WriteVString (take msgLen msg)) (\<lambda>message.
      and_then (WriteUVariant (word_of_nat (length pad))) (\<lambda>paddingLen.
      Inr (extend_buffer pool (length pad) ([if ok then 0 else 1] @ message @ paddingLen) @ payload))))"

section \<open>The encoding of integers\<close>

text \<open>RFC 9000, section 16: the two top bits of the first byte give the length, the rest is big-endian.\<close>

definition varint_encodes :: "bytes \<Rightarrow> u64 \<Rightarrow> bool" where
  "varint_encodes bs v \<longleftrightarrow> (\<exists>t < 4. length bs = 2 ^ t \<and> be_get bs = t * 2 ^ (8 * 2 ^ t - 2) + unat v \<and>
     unat v < 2 ^ (8 * 2 ^ t - 2))"

lemma low_shift: "unat (low k i) = unat i div 2 ^ k mod 256"
proof -
  have "unat (drop_bit k i) = unat i div 2 ^ k"
    unfolding unsigned_drop_bit_eq by (simp add: drop_bit_eq_div take_bit_nat_eq_self)
  then show ?thesis by (simp only: low_def unsigned_ucast_eq take_bit_eq_mod) simp
qed

lemma or_tag:
  fixes x :: byte
  assumes "unat x < 64" and "t < 4"
  shows "unat (x OR (word_of_nat t * 64)) = unat x + t * 64"
proof -
  have tag: "uint (word_of_nat t * 64 :: byte) = push_bit 6 (int t)"
    using assms(2) by (simp add: uint_word_ariths push_bit_eq_mult of_nat_mod unsigned_of_nat take_bit_eq_mod)
  have nat: "uint y = int (unat y)" for y :: byte by simp
  have "uint x < 64" unfolding nat using assms(1) by linarith
  then have x: "take_bit 6 (uint x) = uint x" by (simp add: take_bit_int_eq_self)
  have "uint (x OR (word_of_nat t * 64)) = concat_bit 6 (uint x) (int t)"
    unfolding unsigned_or_eq tag concat_bit_def x ..
  also have "\<dots> = uint x + int t * 64" by (simp add: concat_bit_eq push_bit_eq_mult x)
  finally have "int (unat (x OR (word_of_nat t * 64))) = int (unat x + t * 64)" unfolding nat by simp
  then show ?thesis by (simp only: of_nat_eq_iff)
qed

lemma low_byte: "low (8 * k) i = word_of_nat (unat i div 256 ^ k)"
  by (simp only: word_unat_eq_iff unat_byte_of_nat low_shift power_mult) simp

lemma encodes_tagged:
  assumes v: "unat i < 64 * 256 ^ n" and t: "t < 4" "Suc n = 2 ^ t"
  shows "varint_encodes ((low (8 * n) i OR (word_of_nat t * 64)) # be_put n (unat i)) i"
proof -
  have pow: "(2 :: nat) ^ (8 * 2 ^ t - 2) = 64 * 256 ^ n"
  proof -
    have "8 * 2 ^ t - 2 = 6 + 8 * n" using t(2) [symmetric] by simp
    then show ?thesis by (simp only: power_add power_mult) simp
  qed
  have top: "unat i div 256 ^ n < 64" using v by (simp add: div_less_iff_less_mult mult.commute)
  then have "unat (low (8 * n) i) = unat i div 256 ^ n" by (simp add: low_byte unat_byte_of_nat)
  then have "unat (low (8 * n) i OR (word_of_nat t * 64)) = unat i div 256 ^ n + t * 64"
    using or_tag [of "low (8 * n) i" t] top t(1) by simp
  then have "be_get ((low (8 * n) i OR (word_of_nat t * 64)) # be_put n (unat i))
      = (unat i div 256 ^ n + t * 64) * 256 ^ n + unat i mod 256 ^ n" by simp
  also have "\<dots> = t * (64 * 256 ^ n) + (unat i div 256 ^ n * 256 ^ n + unat i mod 256 ^ n)" by (simp add: add_mult_distrib)
  also have "\<dots> = t * (64 * 256 ^ n) + unat i" by (simp only: div_mult_mod_eq)
  finally show ?thesis unfolding varint_encodes_def
    using v t by (intro exI [of _ t]) (simp add: pow)
qed

lemma be_put_low: "be_put n (unat v) = map (\<lambda>k. low (8 * k) v) (rev [0..<n])"
  by (induction n) (simp_all add: low_byte)

lemma varintPut_encodes:
  assumes "v \<le> maxVarInt8"
  shows "\<exists>bs. varintPut v = Inr bs \<and> varint_encodes bs v"
proof -
  have tails: "be_put 0 (unat v) = []" "be_put 1 (unat v) = [low 0 v]" "be_put 3 (unat v) = [low 16 v, low 8 v, low 0 v]"
    "be_put 7 (unat v) = [low 48 v, low 40 v, low 32 v, low 24 v, low 16 v, low 8 v, low 0 v]"
    unfolding be_put_low by (simp_all add: upt_rec)
  have le: "v \<le> word_of_nat k \<longleftrightarrow> unat v \<le> k" if "k < 2 ^ 64" for k :: nat
    using that by (simp add: word_le_nat_alt unat_of_nat_small)
  consider "v \<le> maxVarInt1" | "\<not> v \<le> maxVarInt1" "v \<le> maxVarInt2" | "\<not> v \<le> maxVarInt1" "\<not> v \<le> maxVarInt2" "v \<le> maxVarInt4"
    | "\<not> v \<le> maxVarInt1" "\<not> v \<le> maxVarInt2" "\<not> v \<le> maxVarInt4" by blast
  then show ?thesis
  proof cases
    case 1
    then have "unat v < 64 * 256 ^ 0" using le [of 63] by (simp add: maxVarInt1_def)
    from encodes_tagged [OF this, of 0] 1 show ?thesis unfolding tails by (simp add: varintPut_def)
  next
    case 2
    then have "unat v < 64 * 256 ^ 1" using le [of 16383] by (simp add: maxVarInt2_def)
    from encodes_tagged [OF this, of 1] 2 show ?thesis unfolding tails by (simp add: varintPut_def)
  next
    case 3
    then have "unat v < 64 * 256 ^ 3" using le [of 1073741823] by (simp add: maxVarInt4_def)
    from encodes_tagged [OF this, of 2] 3 show ?thesis unfolding tails by (simp add: varintPut_def)
  next
    case 4
    then have "unat v < 64 * 256 ^ 7" using le [of 4611686018427387903] assms by (simp add: maxVarInt8_def)
    from encodes_tagged [OF this, of 3] 4 assms show ?thesis unfolding tails by (simp add: varintPut_def)
  qed
qed

text \<open>The library functions agree with that encoding.\<close>

definition varint_ok :: "u64 reader \<Rightarrow> (u64 \<Rightarrow> nat) \<Rightarrow> bool" where
  "varint_ok vread vlen \<longleftrightarrow> (\<forall>bs v r. varint_encodes bs v \<longrightarrow> vread (bs @ r) = Inr (v, r)) \<and>
     (\<forall>v bs. varintPut v = Inr bs \<longrightarrow> vlen v = length bs)"

text \<open>They are not contradictory: a reader written from the RFC.\<close>

definition rfc_read :: "u64 reader" where
  "rfc_read s = and_then (read_u8 s) (\<lambda>(b, s). let t = unat b div 64 in
     and_then (read_full (2 ^ t - 1) s) (\<lambda>(bs, s).
     Inr (word_of_nat (be_get (b # bs) - t * 2 ^ (8 * 2 ^ t - 2)), s)))"

definition rfc_len :: "u64 \<Rightarrow> nat" where
  "rfc_len v = (case varintPut v of Inl _ \<Rightarrow> 0 | Inr bs \<Rightarrow> length bs)"

lemma rfc_read_encodes:
  assumes "varint_encodes bs v"
  shows "rfc_read (bs @ r) = Inr (v, r)"
proof -
  obtain t where t: "t < 4" "length bs = 2 ^ t" "be_get bs = t * 2 ^ (8 * 2 ^ t - 2) + unat v" "unat v < 2 ^ (8 * 2 ^ t - 2)"
    using assms by (auto simp: varint_encodes_def)
  obtain b bs' where bs: "bs = b # bs'" using t(2) by (cases bs) auto
  let ?n = "length bs'"
  have n: "Suc ?n = 2 ^ t" using t(2) bs by simp
  have pow: "(2 :: nat) ^ (8 * 2 ^ t - 2) = 64 * 256 ^ ?n"
  proof -
    have "8 * 2 ^ t - 2 = 6 + 8 * ?n" using n [symmetric] by simp
    then show ?thesis by (simp only: power_add power_mult) simp
  qed
  have eq: "unat b * 256 ^ ?n + be_get bs' = (t * 64) * 256 ^ ?n + unat v" using t(3) bs pow by simp
  have "unat b = (unat b * 256 ^ ?n + be_get bs') div 256 ^ ?n" using be_get_lt [of bs'] by simp
  also have "\<dots> = t * 64 + unat v div 256 ^ ?n" unfolding eq by simp
  finally have "unat b div 64 = t" using t(4) pow by (simp add: div_less_iff_less_mult mult.commute)
  moreover have "2 ^ t - 1 = ?n" using n by simp
  moreover have "be_get (b # bs') - t * 2 ^ (8 * 2 ^ t - 2) = unat v" using t(3) bs by simp
  ultimately show ?thesis by (simp add: rfc_read_def bs Let_def del: be_get.simps)
qed

lemma rfc_varint_ok: "varint_ok rfc_read rfc_len"
  by (simp add: varint_ok_def rfc_read_encodes rfc_len_def)

section \<open>Strings and messages\<close>

lemma put_small:
  assumes "n \<le> 65536" and ok: "varint_ok vread vlen"
  shows "\<exists>bs. varintPut (word_of_nat n) = Inr bs \<and> length bs = vlen (word_of_nat n) \<and>
    (\<forall>r. vread (bs @ r) = Inr (word_of_nat n, r))"
proof -
  have "(word_of_nat n :: u64) \<le> maxVarInt8"
    using assms(1) by (simp add: word_le_nat_alt unat_of_nat_small maxVarInt8_def)
  then show ?thesis using varintPut_encodes ok unfolding varint_ok_def by metis
qed

lemma u64_of_nat_le: "n \<le> 65536 \<Longrightarrow> unat (word_of_nat n :: u64) = n"
  by (simp add: unat_of_nat_small)

lemma u64_of_nat_compare:
  "n \<le> 65536 \<Longrightarrow> m \<le> 65536 \<Longrightarrow> (word_of_nat m :: u64) < word_of_nat n \<longleftrightarrow> m < n"
  by (simp add: word_less_nat_alt unat_of_nat_small)

lemma u64_of_nat_zero: "n \<le> 65536 \<Longrightarrow> (word_of_nat n :: u64) = 0 \<longleftrightarrow> n = 0"
  by (simp add: word_unat_eq_iff unat_of_nat_small del: unat_eq_0)

lemma vstring_roundtrip:
  assumes ok: "varint_ok vread vlen" and len: "length s \<le> 2048"
  shows "\<exists>bs. WriteVString s = Inr bs \<and> length bs = vlen (word_of_nat (length s)) + length s \<and>
    (\<forall>r. ReadVString vread (bs @ r) = Inr (s, r))"
proof -
  obtain l where l: "varintPut (word_of_nat (length s)) = Inr l" "length l = vlen (word_of_nat (length s))"
      "\<And>r. vread (l @ r) = Inr (word_of_nat (length s), r)"
    using put_small [OF _ ok, of "length s"] len by auto
  then have "ReadVString vread ((l @ s) @ r) = Inr (s, r)" for r
    using len u64_of_nat_compare [of "length s" 2048]
    by (simp add: ReadVString_def MaxAddressLength_def u64_of_nat_le)
  with l show ?thesis by (intro exI [of _ "l @ s"]) (simp add: WriteVString_def WriteUVariant_def)
qed

lemma skip_padding_reads:
  assumes ok: "varint_ok vread vlen" and len: "length pad \<le> 4096"
  shows "\<exists>bs. varintPut (word_of_nat (length pad)) = Inr bs \<and> length bs = vlen (word_of_nat (length pad)) \<and>
    (\<forall>r. skip_padding vread (bs @ pad @ r) = Inr ((), r))"
proof -
  obtain l where l: "varintPut (word_of_nat (length pad)) = Inr l" "length l = vlen (word_of_nat (length pad))"
      "\<And>r. vread (l @ r) = Inr (word_of_nat (length pad), r)"
    using put_small [OF _ ok, of "length pad"] len by auto
  then have "skip_padding vread (l @ pad @ r) = Inr ((), r)" for r
    using len u64_of_nat_compare [of "length pad" 4096] u64_of_nat_zero [of "length pad"]
    by (simp add: skip_padding_def MaxPaddingLength_def u64_of_nat_le discard_def word_gt_0)
  with l show ?thesis by blast
qed

text \<open>Filling a buffer from left to right.\<close>

lemma varint_at_append:
  "varintPut v = Inr bs \<Longrightarrow> n = length a \<Longrightarrow> length x = length bs \<Longrightarrow>
     varint_at n v (a @ x @ y) = Inr (a @ bs @ y, n + length bs)"
  by (simp add: varint_at_def copy_at_append)

lemma split_length: "length xs = n + m \<Longrightarrow> \<exists>x y. xs = x @ y \<and> length x = n \<and> length y = m"
  by (rule exI [of _ "take n xs"], rule exI [of _ "drop n xs"]) simp

lemma request_bytes:
  assumes ok: "varint_ok vread vlen" and len: "length addr \<le> 2048" "length pad \<le> 4096"
    and puts: "varintPut FrameTypeTCPRequest = Inr ft" "varintPut (word_of_nat (length addr)) = Inr al"
      "varintPut (word_of_nat (length pad)) = Inr pl"
    and room: "length (ft @ al @ addr @ pl @ pad) \<le> length pool"
  shows "WriteTCPRequest vlen pool pad addr payload = Inr ((ft @ al @ addr @ pl @ pad) @ payload)"
proof -
  have v: "vlen FrameTypeTCPRequest = length ft" "vlen (word_of_nat (length addr)) = length al" "vlen (word_of_nat (length pad)) = length pl"
    using ok puts by (simp_all add: varint_ok_def)
  let ?c = "take (length ft + length al + length addr + length pl + length pad) pool"
  have c: "length ?c = length ft + length al + length addr + length pl + length pad" using room by simp
  from split_length [OF c] obtain y4 x5 where x5: "?c = y4 @ x5" "length y4 = length ft + length al + length addr + length pl"
    "length x5 = length pad" by blast
  from split_length [OF x5(2)] obtain y3 x4 where x4: "y4 = y3 @ x4" "length y3 = length ft + length al + length addr"
    "length x4 = length pl" by blast
  from split_length [OF x4(2)] obtain y2 x3 where x3: "y3 = y2 @ x3" "length y2 = length ft + length al"
    "length x3 = length addr" by blast
  from split_length [OF x3(2)] obtain x1 x2 where x1: "y2 = x1 @ x2" "length x1 = length ft" "length x2 = length al" by blast
  note parts = x5(1) x4(1) x3(1) x1(1)
  have "varint_at 0 FrameTypeTCPRequest ?c = Inr (ft @ x2 @ x3 @ x4 @ x5, length ft)"
    using varint_at_append [OF puts(1), of 0 "[]" x1] x1(2) by (simp add: parts)
  moreover have "varint_at (length ft) (word_of_nat (length addr)) (ft @ x2 @ x3 @ x4 @ x5)
      = Inr (ft @ al @ x3 @ x4 @ x5, length ft + length al)"
    using varint_at_append [OF puts(2), of _ ft x2] x1(3) by simp
  moreover have "copy_at (length ft + length al) addr (ft @ al @ x3 @ x4 @ x5) = ft @ al @ addr @ x4 @ x5"
    using copy_at_append [of "length ft + length al" "ft @ al" x3 addr] x3(3) by simp
  moreover have "varint_at (length ft + length al + length addr) (word_of_nat (length pad)) (ft @ al @ addr @ x4 @ x5)
      = Inr (ft @ al @ addr @ pl @ x5, length ft + length al + length addr + length pl)"
    using varint_at_append [OF puts(3), of "length ft + length al + length addr" "ft @ al @ addr" x4] x4(3) by simp
  moreover have "copy_at (length ft + length al + length addr + length pl) pad (ft @ al @ addr @ pl @ x5) = ft @ al @ addr @ pl @ pad"
    using copy_at_append [of "length ft + length al + length addr + length pl" "ft @ al @ addr @ pl" x5 pad "[]"] x5(3) by simp
  ultimately show ?thesis unfolding WriteTCPRequest_def Let_def v by simp
qed

lemma tcp_request_roundtrip:
  assumes ok: "varint_ok vread vlen" and len: "addr \<noteq> []" "length addr \<le> 2048" "length pad \<le> 4096"
  shows "\<exists>ft al pl. varintPut FrameTypeTCPRequest = Inr ft \<and> varintPut (word_of_nat (length addr)) = Inr al \<and>
    varintPut (word_of_nat (length pad)) = Inr pl \<and>
    (\<forall>pool payload. vlen FrameTypeTCPRequest + vlen (word_of_nat (length addr)) + length addr + vlen (word_of_nat (length pad)) + length pad \<le> length pool \<longrightarrow>
      WriteTCPRequest vlen pool pad addr payload = Inr (ft @ al @ addr @ pl @ pad @ payload)) \<and>
    (\<forall>s. ReadTCPRequest vread (al @ addr @ pl @ pad @ s) = Inr (addr, s))"
proof -
  obtain ft where ft: "varintPut FrameTypeTCPRequest = Inr ft" "length ft = vlen FrameTypeTCPRequest"
    using put_small [OF _ ok, of "0x401"] by (auto simp: FrameTypeTCPRequest_def)
  obtain al where al: "varintPut (word_of_nat (length addr)) = Inr al" "length al = vlen (word_of_nat (length addr))"
      "\<And>r. vread (al @ r) = Inr (word_of_nat (length addr), r)"
    using put_small [OF _ ok, of "length addr"] len by auto
  obtain pl where pl: "varintPut (word_of_nat (length pad)) = Inr pl" "length pl = vlen (word_of_nat (length pad))"
      "\<And>r. skip_padding vread (pl @ pad @ r) = Inr ((), r)"
    using skip_padding_reads [OF ok len(3)] by auto
  have "WriteTCPRequest vlen pool pad addr payload = Inr (ft @ al @ addr @ pl @ pad @ payload)"
    if "vlen FrameTypeTCPRequest + vlen (word_of_nat (length addr)) + length addr + vlen (word_of_nat (length pad)) + length pad \<le> length pool"
    for pool payload
    using request_bytes [OF ok len(2,3), of ft al pl pool payload] that ft al pl by simp
  moreover have "ReadTCPRequest vread (al @ addr @ pl @ pad @ s) = Inr (addr, s)" for s
    using al(3) pl(3) [of s] len u64_of_nat_compare [of "length addr" 2048] u64_of_nat_zero [of "length addr"]
    by (simp add: ReadTCPRequest_def MaxAddressLength_def u64_of_nat_le)
  ultimately show ?thesis using ft(1) al(1) pl(1) by blast
qed

end
