(* ===== verification/Hy2Packet.thy ===== *)
theory Hy2Packet
  imports Defrag Hy2Protocol
begin

text \<open>
  The UDP relay of hysteria2, \<^verbatim>\<open>hysteria2/packet.go\<close>, with the message handlers of \<^verbatim>\<open>client_packet.go\<close>
  and \<^verbatim>\<open>service_packet.go\<close>. As in \<^verbatim>\<open>HyPacket\<close>, messages are values, the cache is a map whose entries may be
  evicted at any time and \<^verbatim>\<open>SendDatagram\<close> is a parameter; further parameters are the functions of
  \<^verbatim>\<open>quicvarint\<close> (\<open>vread\<close>, \<open>vlen\<close>) and the host name of a parsed address (\<open>fqdn\<close>). The server opens a relay
  for a session it does not know.
\<close>

section \<open>Messages\<close>

record udp_message =
  h2Session :: u32
  h2Packet :: u16
  h2FragID :: byte
  h2FragTotal :: byte
  h2Destination :: bytes
  h2Data :: bytes

definition headerSize :: "(u64 \<Rightarrow> nat) \<Rightarrow> udp_message \<Rightarrow> int" where
  "headerSize vlen m = 8 + int (vlen (word_of_nat (length (h2Destination m)))) + int (length (h2Destination m))"

text \<open>The string of a message is far below the 62 bits at which \<^verbatim>\<open>WriteVString\<close> would panic.\<close>

definition pack :: "udp_message \<Rightarrow> bytes" where
  "pack m = put_u32 (h2Session m) @ put_u16 (h2Packet m) @ [h2FragID m, h2FragTotal m]
     @ (case WriteVString (h2Destination m) of Inr bs \<Rightarrow> bs | Inl _ \<Rightarrow> []) @ h2Data m"

datatype decode_error = DecodeIO io_error | DecodeString proxy_error | DestinationTooLong

definition decodeUDPMessage :: "u64 reader \<Rightarrow> (bytes \<Rightarrow> bytes) \<Rightarrow> bytes \<Rightarrow> decode_error + udp_message" where
  "decodeUDPMessage vread fqdn s =
     and_then (map_err DecodeIO (read_u32 s)) (\<lambda>(sessionID, s).
     and_then (map_err DecodeIO (read_u16 s)) (\<lambda>(packetID, s).
     and_then (map_err DecodeIO (read_u8 s)) (\<lambda>(fragmentID, s).
     and_then (map_err DecodeIO (read_u8 s)) (\<lambda>(fragmentTotal, s).
     and_then (map_err DecodeString (ReadVString vread s)) (\<lambda>(destination, s).
     if length destination > 255 \<and> length (fqdn destination) > 255 then Inl DestinationTooLong
     else Inr \<lparr>h2Session = sessionID, h2Packet = packetID, h2FragID = fragmentID, h2FragTotal = fragmentTotal,
       h2Destination = destination, h2Data = s\<rparr>)))))"

definition fragUDPMessage :: "(u64 \<Rightarrow> nat) \<Rightarrow> udp_message \<Rightarrow> int \<Rightarrow> udp_message list run" where
  "fragUDPMessage vlen message maxPacketSize =
     (let udpMTU = maxPacketSize - headerSize vlen message in
      if int (length (h2Data message)) \<le> udpMTU then returns [message]
      else run_then (split_loop udpMTU (int (length (h2Data message))) (h2Data message)) (\<lambda>parts.
        returns (map (\<lambda>(index, part). message\<lparr>h2Data := part, h2FragID := word_of_nat index,
          h2FragTotal := fragment_total (length parts)\<rparr>) (List.enumerate 0 parts))))"

section \<open>Joining fragments\<close>

definition feed :: "udp_message \<Rightarrow> udp_message table \<Rightarrow> udp_message fed" where
  "feed m T =
     (if h2FragTotal m \<le> 1 then Fed (Some m) [] T
      else if h2FragID m \<ge> h2FragTotal m then Fed None [m] T
      else
        let p = h2Packet m; item = item_at T p; total = unat (h2FragTotal m); i = unat (h2FragID m) in
        if total \<noteq> length (itMessages item) then
          Fed None (present (itMessages item))
            (T(p \<mapsto> \<lparr>itMessages = (replicate total None)[i := Some m], itCount = 1\<rparr>))
        else if itMessages item ! i \<noteq> None then Fed None [m] (T(p \<mapsto> item))
        else
          let messages = (itMessages item)[i := Some m]; count = itCount item + 1 in
          if unat count \<noteq> length messages then
            Fed None [] (T(p \<mapsto> \<lparr>itMessages = messages, itCount = count\<rparr>))
          else if None \<in> set messages then NilDereference
          else
            let parts = present messages;
                newMessage = \<lparr>h2Session = h2Session m, h2Packet = h2Packet m, h2FragID = 0, h2FragTotal = 0,
                  h2Destination = h2Destination (parts ! 0), h2Data = concat (map h2Data parts)\<rparr>;
                finalLength = sum_list (map (length \<circ> h2Data) parts);
                T' = T(p \<mapsto> \<lparr>itMessages = [], itCount = count\<rparr>) in
            if finalLength > 0 then Fed (Some newMessage) parts T' else Fed None parts T')"

section \<open>The relay\<close>

type_synonym hy2_conn = "(udp_message, u32) udp_conn"

definition newUDPPacketConn :: "u32 \<Rightarrow> hy2_conn" where
  "newUDPPacketConn session = \<lparr>cSession = session, cQueue = [], cMTU = 1200 - 3, cPacketId = 0, cClosed = False, cOnce = False,
     cDestroyed = 0, cTable = Map.empty\<rparr>"

definition inputPacket :: "udp_message \<Rightarrow> hy2_conn \<Rightarrow> panic + hy2_conn" where
  "inputPacket m c =
     (if h2FragTotal m \<le> 1 then Inr (offer m c)
      else case feed m (cTable c) of
        NilDereference \<Rightarrow> Inl (Panic ''nil pointer dereference'')
      | Fed newMessage released T \<Rightarrow>
          (case newMessage of None \<Rightarrow> Inr (c\<lparr>cTable := T\<rparr>) | Some x \<Rightarrow> Inr (offer x (c\<lparr>cTable := T\<rparr>))))"

definition ReadFrom :: "(bytes \<Rightarrow> 'a) \<Rightarrow> ready \<Rightarrow> bool \<Rightarrow> nat \<Rightarrow> hy2_conn
    \<Rightarrow> ((relay_error + bytes \<times> 'a) \<times> hy2_conn) option" where
  "ReadFrom address choice expired n c = (case choice of
      DataReady \<Rightarrow> (case cQueue c of [] \<Rightarrow> None
        | pkt # q \<Rightarrow> Some (Inr (take n (h2Data pkt), address (h2Destination pkt)), c\<lparr>cQueue := q\<rparr>))
    | CtxDone \<Rightarrow> if cClosed c then Some (Inl ErrClosedPipe, c) else None
    | DeadlinePassed \<Rightarrow> if expired then Some (Inl DeadlineExceeded, c) else None)"

definition writePacket :: "('q \<Rightarrow> bytes \<Rightarrow> relay_error option \<times> 'q) \<Rightarrow> udp_message \<Rightarrow> 'q \<Rightarrow> relay_error option \<times> 'q" where
  "writePacket send m q = send q (pack m)"

fun writePackets :: "('q \<Rightarrow> bytes \<Rightarrow> relay_error option \<times> 'q) \<Rightarrow> udp_message list \<Rightarrow> 'q \<Rightarrow> relay_error option \<times> 'q" where
  "writePackets send [] q = (None, q)"
| "writePackets send (m # ms) q = (case writePacket send m q of
      (Some err, q') \<Rightarrow> (Some err, q')
    | (None, q') \<Rightarrow> writePackets send ms q')"

text \<open>Sending one message, whole or in fragments, and once more in fragments of the size the
  connection asked for.\<close>

definition send_message :: "(u64 \<Rightarrow> nat) \<Rightarrow> ('q \<Rightarrow> bytes \<Rightarrow> relay_error option \<times> 'q) \<Rightarrow> int \<Rightarrow> udp_message \<Rightarrow> 'q
    \<Rightarrow> (relay_error option \<times> 'q) run" where
  "send_message vlen send udpMTU m q =
     run_then
       (if udpMTU > headerSize vlen m \<and> int (length (h2Data m)) > udpMTU - headerSize vlen m
        then run_then (fragUDPMessage vlen m udpMTU) (\<lambda>ms. returns (writePackets send ms q))
        else returns (writePacket send m q))
       (\<lambda>(err, q). case err of
          Some (DatagramTooLarge maxSize) \<Rightarrow>
            if maxSize - 3 \<le> headerSize vlen m then returns (err, q)
            else run_then (fragUDPMessage vlen m (maxSize - 3)) (\<lambda>ms. returns (writePackets send ms q))
        | _ \<Rightarrow> returns (err, q))"

definition new_message :: "hy2_conn \<Rightarrow> bytes \<Rightarrow> bytes \<Rightarrow> udp_message" where
  "new_message c data destination = \<lparr>h2Session = cSession c, h2Packet = next_packet_id (cPacketId c), h2FragID = 0,
     h2FragTotal = 1, h2Destination = destination, h2Data = data\<rparr>"

definition WritePacket :: "(u64 \<Rightarrow> nat) \<Rightarrow> ('q \<Rightarrow> bytes \<Rightarrow> relay_error option \<times> 'q) \<Rightarrow> bytes \<Rightarrow> socksaddr \<Rightarrow> hy2_conn \<Rightarrow> 'q
    \<Rightarrow> (relay_error option \<times> hy2_conn \<times> 'q) run" where
  "WritePacket vlen send data destination c q =
     (if cClosed c then returns (Some ErrNetClosed, c, q)
      else if length data > MaxUDPSize then returns (Some (DatagramTooLarge (int MaxUDPSize)), c, q)
      else if \<not> saIsIP destination \<and> length (saFqdn destination) > 255 then returns (Some FqdnTooLong, c, q)
      else run_then (send_message vlen send (cMTU c) (new_message c data (saString destination)) q) (\<lambda>(err, q).
        returns (err, c\<lparr>cPacketId := cPacketId c + 1\<rparr>, q)))"

text \<open>\<^verbatim>\<open>WriteTo\<close> reports the bytes written beside the error; \<open>destination\<close> is \<^verbatim>\<open>SocksaddrFromNet(addr)\<close> and
  \<open>addr\<close> is \<^verbatim>\<open>addr.String()\<close>.\<close>

definition WriteTo :: "(u64 \<Rightarrow> nat) \<Rightarrow> ('q \<Rightarrow> bytes \<Rightarrow> relay_error option \<times> 'q) \<Rightarrow> bytes \<Rightarrow> socksaddr \<Rightarrow> bytes \<Rightarrow> hy2_conn \<Rightarrow> 'q
    \<Rightarrow> ((nat \<times> relay_error option) \<times> hy2_conn \<times> 'q) run" where
  "WriteTo vlen send p destination addr c q =
     (if cClosed c then returns ((0, Some ErrNetClosed), c, q)
      else if length p > MaxUDPSize then returns ((0, Some (DatagramTooLarge (int MaxUDPSize))), c, q)
      else if \<not> saIsIP destination \<and> length (saFqdn destination) > 255 then returns ((0, Some FqdnTooLong), c, q)
      else run_then (send_message vlen send (cMTU c) (new_message c p addr) q) (\<lambda>(err, q).
        returns ((if err = None then length p else 0, err), c\<lparr>cPacketId := cPacketId c + 1\<rparr>, q)))"

definition closeWithError :: "hy2_conn \<Rightarrow> hy2_conn" where
  "closeWithError c = c\<lparr>cClosed := True\<rparr>"

definition CloseConn :: "hy2_conn \<Rightarrow> relay_error option \<times> hy2_conn" where
  "CloseConn c = (None, if cOnce c then c
     else (closeWithError (c\<lparr>cOnce := True\<rparr>))\<lparr>cDestroyed := cDestroyed c + 1\<rparr>)"

definition SetDeadline :: "hy2_conn \<Rightarrow> relay_error option \<times> hy2_conn" where
  "SetDeadline c = (Some ErrInvalid, c)"

definition SetWriteDeadline :: "hy2_conn \<Rightarrow> relay_error option \<times> hy2_conn" where
  "SetWriteDeadline c = (Some ErrInvalid, c)"

section \<open>Datagrams from the peer\<close>

text \<open>A datagram that does not decode closes the connection (\<open>Inl\<close>).\<close>

datatype handle_error = HandleDecode decode_error | HandlePanic panic

definition client_handle :: "u64 reader \<Rightarrow> (bytes \<Rightarrow> bytes) \<Rightarrow> bytes \<Rightarrow> (u32 \<rightharpoonup> hy2_conn) \<Rightarrow> handle_error + (u32 \<rightharpoonup> hy2_conn)" where
  "client_handle vread fqdn data conns =
     and_then (map_err HandleDecode (decodeUDPMessage vread fqdn data)) (\<lambda>m.
     case conns (h2Session m) of
       None \<Rightarrow> Inr conns
     | Some c \<Rightarrow> if cClosed c then Inr conns
         else and_then (map_err HandlePanic (inputPacket m c)) (\<lambda>c'. Inr (conns(h2Session m \<mapsto> c'))))"

text \<open>The server's relays, and the connections it handed to its handler, each with the destination of
  the message that opened it.\<close>

record server_session =
  svConns :: "u32 \<rightharpoonup> hy2_conn"
  svStarted :: "(u32 \<times> bytes) list"

definition open_session :: "u32 \<Rightarrow> bytes \<Rightarrow> server_session \<Rightarrow> hy2_conn \<times> server_session" where
  "open_session sessionID destination st =
     (let c = newUDPPacketConn sessionID in
      (c, st\<lparr>svConns := (svConns st)(sessionID \<mapsto> c), svStarted := svStarted st @ [(sessionID, destination)]\<rparr>))"

definition server_handle :: "u64 reader \<Rightarrow> (bytes \<Rightarrow> bytes) \<Rightarrow> bytes \<Rightarrow> server_session \<Rightarrow> handle_error + server_session" where
  "server_handle vread fqdn data st =
     and_then (map_err HandleDecode (decodeUDPMessage vread fqdn data)) (\<lambda>m.
     let (c, st) = (case svConns st (h2Session m) of
          None \<Rightarrow> open_session (h2Session m) (h2Destination m) st
        | Some c \<Rightarrow> if cClosed c then open_session (h2Session m) (h2Destination m) st else (c, st)) in
     and_then (map_err HandlePanic (inputPacket m c)) (\<lambda>c'.
     Inr (st\<lparr>svConns := (svConns st)(h2Session m \<mapsto> c')\<rparr>)))"

end
