(* ===== verification/Hy2Udp.thy ===== *)
theory Hy2Udp
  imports Hy2Packet RelayReceive
begin

text \<open>
  hysteria2's relay provides the interfaces of \<^verbatim>\<open>Relay\<close> and \<^verbatim>\<open>RelayReceive\<close>. The library functions for
  variable-length integers stay parameters: a message is \<open>sane\<close> when \<open>vlen\<close> is right about its
  destination, and \<open>ok\<close> when \<open>vread\<close> is.
\<close>

section \<open>Messages\<close>

definition hy2_sane :: "(u64 \<Rightarrow> nat) \<Rightarrow> udp_message \<Rightarrow> bool" where
  "hy2_sane vlen m \<longleftrightarrow> (\<exists>bs. WriteVString (h2Destination m) = Inr bs \<and>
     length bs = vlen (word_of_nat (length (h2Destination m))) + length (h2Destination m))"

definition hy2_message_ok :: "u64 reader \<Rightarrow> udp_message \<Rightarrow> bool" where
  "hy2_message_ok vread m \<longleftrightarrow> length (h2Destination m) \<le> 255 \<and>
     (\<exists>bs. WriteVString (h2Destination m) = Inr bs \<and> (\<forall>r. ReadVString vread (bs @ r) = Inr (h2Destination m, r)))"

lemma hy2_messages:
  assumes "varint_ok vread vlen" and "length (h2Destination m) \<le> 255"
  shows "hy2_sane vlen m" and "hy2_message_ok vread m"
  using vstring_roundtrip [OF assms(1), of "h2Destination m"] assms(2)
  by (auto simp: hy2_sane_def hy2_message_ok_def)

lemma hy2_decode_pack: "hy2_message_ok vread m \<Longrightarrow> decodeUDPMessage vread fqdn (pack m) = Inr m"
  by (cases m) (auto simp: hy2_message_ok_def decodeUDPMessage_def pack_def)

section \<open>Sending\<close>

definition hy2_joined :: "udp_message \<Rightarrow> udp_message list \<Rightarrow> udp_message" where
  "hy2_joined m fs = \<lparr>h2Session = h2Session m, h2Packet = h2Packet m, h2FragID = 0, h2FragTotal = 0,
     h2Destination = h2Destination (fs ! 0), h2Data = concat (map h2Data fs)\<rparr>"

definition hy2_cut :: "nat \<Rightarrow> nat \<Rightarrow> bytes \<Rightarrow> udp_message \<Rightarrow> udp_message" where
  "hy2_cut n i p m = m\<lparr>h2Data := p, h2FragID := word_of_nat i, h2FragTotal := fragment_total n\<rparr>"

lemma hy2_feed: "feed m T = feed_spec h2FragTotal h2FragID h2Packet h2Data hy2_joined m T"
  by (simp only: feed_def feed_spec_def Let_def hy2_joined_def length_list_update)

interpretation hy2: relay h2FragTotal h2FragID h2Packet h2Data hy2_joined feed "headerSize vlen" pack hy2_cut
  "fragUDPMessage vlen" "hy2_sane vlen" for vlen
proof (intro relay.intro relay_axioms.intro)
  show "defragger h2FragTotal h2FragID h2Packet h2Data hy2_joined feed"
    by (rule defraggerI [OF hy2_feed]) (simp add: hy2_joined_def)
next
  fix m :: udp_message and mx
  show "int (length (h2Data m)) \<le> mx - headerSize vlen m \<Longrightarrow> fragUDPMessage vlen m mx = returns [m]"
    by (simp add: fragUDPMessage_def)
  show "\<not> int (length (h2Data m)) \<le> mx - headerSize vlen m \<Longrightarrow>
      fragUDPMessage vlen m mx = run_then (split_loop (mx - headerSize vlen m) (int (length (h2Data m))) (h2Data m))
        (\<lambda>parts. returns (map (\<lambda>(i, p). hy2_cut (length parts) i p m) (List.enumerate 0 parts)))"
    by (simp add: fragUDPMessage_def Let_def hy2_cut_def)
  assume "hy2_sane vlen m"
  then show "int (length (pack m)) = headerSize vlen m + int (length (h2Data m))"
    by (auto simp: hy2_sane_def pack_def headerSize_def)
qed (simp_all add: hy2_joined_def hy2_cut_def headerSize_def hy2_sane_def)

lemma hy2_writePackets: "writePackets send = write_all pack send"
proof (intro ext)
  show "writePackets send ms q = write_all pack send ms q" for ms q
    by (induction send ms q rule: writePackets.induct) (auto simp: writePacket_def split: prod.splits option.splits)
qed

lemma hy2_send: "send_message vlen send mtu m q = send_cutting (headerSize vlen) h2Data pack (fragUDPMessage vlen) send mtu m q"
  unfolding send_message_def send_cutting_def hy2_writePackets writePacket_def ..

section \<open>Receiving\<close>

definition hy2_same :: "udp_message \<Rightarrow> udp_message \<Rightarrow> bool" where
  "hy2_same m x \<longleftrightarrow> h2Destination x = h2Destination m \<and> h2Data x = h2Data m"

lemma hy2_same_joined:
  assumes "fs \<noteq> []" and "\<And>i. i < length fs \<Longrightarrow> fs ! i = hy2_cut (length fs) i (h2Data (fs ! i)) m"
    and "concat (map h2Data fs) = h2Data m"
  shows "hy2_same m (hy2_joined y fs)"
proof -
  have "h2Destination (fs ! 0) = h2Destination m"
    using assms(1) by (subst assms(2), simp_all add: hy2_cut_def)
  then show ?thesis using assms(3) by (simp add: hy2_same_def hy2_joined_def)
qed

lemma hy2_cut_facts:
  "hy2_message_ok vread m \<Longrightarrow> hy2_message_ok vread (hy2_cut n i p m)"
  "h2Session (hy2_cut n i p m) = h2Session m" "hy2_same m m"
  by (simp_all add: hy2_message_ok_def hy2_cut_def hy2_same_def)

text \<open>The relay a message for a session meets at the server.\<close>

definition server_entry :: "server_session \<Rightarrow> u32 \<Rightarrow> hy2_conn option" where
  "server_entry st s = (case svConns st s of
      None \<Rightarrow> Some (newUDPPacketConn s)
    | Some c \<Rightarrow> if cClosed c then Some (newUDPPacketConn s) else Some c)"

interpretation hy2_client: relay_receiver h2FragTotal h2FragID h2Packet h2Data hy2_joined feed "headerSize vlen" pack hy2_cut
  "fragUDPMessage vlen" "hy2_sane vlen" inputPacket h2Session "hy2_message_ok vread" "decodeUDPMessage vread fqdn"
  "client_handle vread fqdn" "\<lambda>conns s. conns s" hy2_same for vlen vread fqdn
proof unfold_locales
  show "inputPacket m c = (if h2FragTotal m \<le> 1 then Inr (offer m c)
       else case feed m (cTable c) of
         NilDereference \<Rightarrow> Inl (Panic ''nil pointer dereference'')
       | Fed up gone T \<Rightarrow> (case up of None \<Rightarrow> Inr (c\<lparr>cTable := T\<rparr>) | Some x \<Rightarrow> Inr (offer x (c\<lparr>cTable := T\<rparr>))))"
    for m and c :: hy2_conn
    by (rule inputPacket_def)
qed (auto simp: hy2_decode_pack client_handle_def hy2_cut_facts intro: hy2_same_joined)

lemma server_known:
  assumes "hy2_message_ok vread m" and "server_entry st (h2Session m) = Some c" and "inputPacket m c = Inr c'"
    and "\<not> cClosed c'"
  shows "\<exists>st'. server_handle vread fqdn (pack m) st = Inr st' \<and> server_entry st' (h2Session m) = Some c'"
  using assms
  by (auto simp: server_handle_def hy2_decode_pack server_entry_def open_session_def Let_def split: option.splits if_splits)

interpretation hy2_server: relay_receiver h2FragTotal h2FragID h2Packet h2Data hy2_joined feed "headerSize vlen" pack hy2_cut
  "fragUDPMessage vlen" "hy2_sane vlen" inputPacket h2Session "hy2_message_ok vread" "decodeUDPMessage vread fqdn"
  "server_handle vread fqdn" server_entry hy2_same for vlen vread fqdn
proof unfold_locales
  show "inputPacket m c = (if h2FragTotal m \<le> 1 then Inr (offer m c)
       else case feed m (cTable c) of
         NilDereference \<Rightarrow> Inl (Panic ''nil pointer dereference'')
       | Fed up gone T \<Rightarrow> (case up of None \<Rightarrow> Inr (c\<lparr>cTable := T\<rparr>) | Some x \<Rightarrow> Inr (offer x (c\<lparr>cTable := T\<rparr>))))"
    for m and c :: hy2_conn
    by (rule inputPacket_def)
  show "\<exists>st'. server_handle vread fqdn (pack m) st = Inr st' \<and> server_entry st' (h2Session m) = Some c'"
    if "hy2_message_ok vread m" "server_entry st (h2Session m) = Some c" "\<not> cClosed c" "inputPacket m c = Inr c'"
      "cClosed c' = cClosed c" for m st c c'
    using server_known that by blast
qed (auto simp: hy2_decode_pack hy2_cut_facts intro: hy2_same_joined)

end
