(* ===== verification/Hy2Claims.thy ===== *)
theory Hy2Claims
  imports Hy2Udp
begin

text \<open>The properties of the hysteria2 protocol: proxy messages and the UDP relay.\<close>

section \<open>Proxy requests and responses\<close>

text \<open>C19. For an address of 1 to 2048 bytes and whatever padding is drawn, a TCP request consists of the frame type,
  the address with its length, the drawn padding with its length and the payload, and of nothing else: the buffer it is
  written into has exactly the right size and is filled, so that no byte of the pool memory is sent. After the frame
  type, which the stream dispatcher consumes, a server reads the address from it and is left with the payload and what
  follows.\<close>

theorem hy2_tcp_request_roundtrip:
  assumes "varint_ok vread vlen" and "addr \<noteq> []" and "length addr \<le> 2048" and "k < 448"
  shows "\<exists>frame_type addr_len pad_len. varintPut FrameTypeTCPRequest = Inr frame_type \<and>
    varintPut (word_of_nat (length addr)) = Inr addr_len \<and> varintPut (word_of_nat (64 + k)) = Inr pad_len \<and>
    (\<forall>pool payload. vlen FrameTypeTCPRequest + vlen (word_of_nat (length addr)) + length addr + vlen (word_of_nat (64 + k)) + 64 + k \<le> length pool \<longrightarrow>
      WriteTCPRequest vlen pool (padding_String tcpRequestPadding k picks) addr payload =
        Inr (frame_type @ addr_len @ addr @ pad_len @ padding_String tcpRequestPadding k picks @ payload)) \<and>
    (\<forall>s. ReadTCPRequest vread (addr_len @ addr @ pad_len @ padding_String tcpRequestPadding k picks @ s) = Inr (addr, s))"
proof -
  have "length (padding_String tcpRequestPadding k picks) = 64 + k" by (simp add: padding_String_def tcpRequestPadding_def)
  then show ?thesis using tcp_request_roundtrip [OF assms(1-3), of "padding_String tcpRequestPadding k picks"] assms(4)
    by (simp add: add.assoc)
qed

lemma varint_small: "n \<le> 63 \<Longrightarrow> varintPut (word_of_nat n) = Inr [word_of_nat n]"
proof -
  assume "n \<le> 63"
  then have "(word_of_nat n :: u64) \<le> maxVarInt1" by (simp add: word_le_nat_alt unat_of_nat_small maxVarInt1_def)
  moreover have "low 0 (word_of_nat n) = word_of_nat n"
    using low_byte [of 0 "word_of_nat n"] \<open>n \<le> 63\<close> by (simp add: unat_of_nat_small)
  ultimately show ?thesis by (simp add: varintPut_def)
qed

lemma rfc_len_small: "n \<le> 63 \<Longrightarrow> rfc_len (word_of_nat n) = 1"
  by (simp add: rfc_len_def varint_small)

theorem hy2_tcp_request_roundtrip_witness:
  "\<exists>frame_type addr_len pad_len. varintPut FrameTypeTCPRequest = Inr frame_type \<and>
    WriteTCPRequest rfc_len (replicate 100 0) (padding_String tcpRequestPadding 0 (\<lambda>_. 0)) [97] [1, 2]
      = Inr (frame_type @ addr_len @ [97] @ pad_len @ padding_String tcpRequestPadding 0 (\<lambda>_. 0) @ [1, 2]) \<and>
    ReadTCPRequest rfc_read (addr_len @ [97] @ pad_len @ padding_String tcpRequestPadding 0 (\<lambda>_. 0) @ [1, 2]) = Inr ([97], [1, 2])"
proof -
  have "varintPut FrameTypeTCPRequest = Inr [low 8 0x401 OR 0x40, low 0 0x401]" by (simp add: varintPut_def cfg_defs)
  moreover have "varintPut 64 = Inr [low 8 64 OR 0x40, low 0 64]" by (simp add: varintPut_def cfg_defs)
  ultimately have len: "rfc_len FrameTypeTCPRequest = 2" "rfc_len 64 = 2" "rfc_len 1 = 1"
    using rfc_len_small [of 1] by (simp_all add: rfc_len_def)
  have "[97] \<noteq> ([] :: bytes)" "length [97 :: byte] \<le> 2048" "(0 :: nat) < 448" by simp_all
  from hy2_tcp_request_roundtrip [OF rfc_varint_ok this, of "\<lambda>_. 0"]
  obtain ft al pl where w: "varintPut FrameTypeTCPRequest = Inr ft"
      "\<forall>pool payload. rfc_len FrameTypeTCPRequest + rfc_len (word_of_nat (length [97 :: byte])) + length [97 :: byte] + rfc_len (word_of_nat (64 + 0)) + 64 + 0 \<le> length pool \<longrightarrow>
        WriteTCPRequest rfc_len pool (padding_String tcpRequestPadding 0 (\<lambda>_. 0)) [97] payload =
          Inr (ft @ al @ [97] @ pl @ padding_String tcpRequestPadding 0 (\<lambda>_. 0) @ payload)"
      "\<forall>s. ReadTCPRequest rfc_read (al @ [97] @ pl @ padding_String tcpRequestPadding 0 (\<lambda>_. 0) @ s) = Inr ([97], s)" by blast
  show ?thesis using w(1) w(2) [rule_format, of "replicate 100 0" "[1, 2]"] w(3) len by (intro exI [of _ ft] exI [of _ al] exI [of _ pl]) simp
qed

text \<open>C20. A response is read back, a message over 2048 bytes cut to them. But its padding is not the one that
  was drawn: the buffer is extended by the length of the padding without writing it, so those bytes
  are what the pool memory held, whatever it was last used for, and they are sent to the peer.\<close>

theorem hy2_response_sends_pool_memory:
  assumes "varint_ok vread vlen" and "length pad \<le> 4096"
  shows "\<exists>head. length head = 1 + vlen (word_of_nat (length (take 2048 msg))) + length (take 2048 msg) + vlen (word_of_nat (length pad)) \<and>
    (\<forall>pool payload. length head + length pad \<le> length pool \<longrightarrow>
      WriteTCPResponse pool pad ok msg payload = Inr (head @ take (length pad) (drop (length head) pool) @ payload) \<and>
      (\<forall>r. ReadTCPResponse vread (head @ take (length pad) (drop (length head) pool) @ payload @ r)
        = Inr ((ok, take 2048 msg), payload @ r)))"
proof -
  obtain m where m: "take 2048 msg = m" "length m \<le> 2048" by simp
  obtain l where l: "varintPut (word_of_nat (length m)) = Inr l" "length l = vlen (word_of_nat (length m))"
      "\<And>r. vread (l @ r) = Inr (word_of_nat (length m), r)"
    using put_small [OF _ assms(1), of "length m"] m(2) by auto
  obtain pl where pl: "varintPut (word_of_nat (length pad)) = Inr pl" "length pl = vlen (word_of_nat (length pad))"
    using put_small [OF _ assms(1), of "length pad"] assms(2) by auto
  let ?head = "(if ok then 0 else 1) # l @ m @ pl"
  have take: "take (if 2048 < length msg then 2048 else length msg) msg = m" using m(1) by auto
  have limit: "unat MaxMessageLength = 2048" by (simp add: MaxMessageLength_def)
  have string: "WriteVString m = Inr (l @ m)" using l(1) by (simp add: WriteVString_def WriteUVariant_def)
  have written: "WriteTCPResponse pool pad ok msg payload = Inr (?head @ take (length pad) (drop (length ?head) pool) @ payload)" for pool payload
    unfolding WriteTCPResponse_def Let_def limit take string WriteUVariant_def pl(1) by (simp add: extend_buffer_def slice_def ac_simps)
  have reads: "ReadTCPResponse vread (?head @ junk @ payload @ r) = Inr ((ok, m), payload @ r)" if junk: "length junk = length pad" for junk payload r
  proof -
    obtain q where "varintPut (word_of_nat (length pad)) = Inr q" "\<And>r. skip_padding vread (q @ junk @ r) = Inr ((), r)"
      using skip_padding_reads [OF assms(1), of junk] assms(2) junk by auto
    then have skip: "skip_padding vread (pl @ junk @ payload @ r) = Inr ((), payload @ r)" using pl(1) by simp
    have len: "unat (word_of_nat (length m) :: u64) = length m" "\<not> MaxMessageLength < word_of_nat (length m)"
      using m(2) u64_of_nat_le [of "length m"] u64_of_nat_compare [of "length m" 2048] by (simp_all add: MaxMessageLength_def)
    show ?thesis
      using l(3) skip len read_full_append [of "[if ok then 0 else 1]" 1 "l @ m @ pl @ junk @ payload @ r"]
      by (simp add: ReadTCPResponse_def)
  qed
  have "length ?head = 1 + vlen (word_of_nat (length m)) + length m + vlen (word_of_nat (length pad))" using l(2) pl(2) by simp
  moreover have "length (take (length pad) (drop (length ?head) pool)) = length pad"
    if "length ?head + length pad \<le> length pool" for pool using that by simp
  ultimately show ?thesis unfolding m(1) using written reads by blast
qed

theorem hy2_response_sends_pool_memory_witness:
  "\<exists>head. WriteTCPResponse [0, 0, 0, 0, 0, 42, 43] [97, 98] True [111, 107] [9] = Inr (head @ [42, 43] @ [9])"
proof -
  have len: "rfc_len (word_of_nat (length (take 2048 [111, 107 :: byte]))) = 1" "rfc_len (word_of_nat (length [97, 98 :: byte])) = 1"
    using rfc_len_small [of 2] by simp_all
  have "length [97 :: byte, 98] \<le> 4096" by simp
  from hy2_response_sends_pool_memory [OF rfc_varint_ok this, of "[111, 107]" True, unfolded len]
  obtain head where h: "length head = 1 + 1 + length (take 2048 [111, 107 :: byte]) + 1"
      "\<forall>pool payload. length head + length [97 :: byte, 98] \<le> length pool \<longrightarrow>
        WriteTCPResponse pool [97, 98] True [111, 107] payload
          = Inr (head @ take (length [97 :: byte, 98]) (drop (length head) pool) @ payload)"
    by meson
  from h(2) [rule_format, of "[0, 0, 0, 0, 0, 42, 43]" "[9]"] h(1) show ?thesis by auto
qed

section \<open>The relay\<close>

lemma hy2_write_packet:
  assumes "hy2_sane vlen (new_message c data (saString d))"
    and "\<not> cClosed c" and "length data \<le> 4096" and "saIsIP d \<or> length (saFqdn d) \<le> 255"
    and h: "headerSize vlen (new_message c data (saString d)) < cMTU c" "headerSize vlen (new_message c data (saString d)) < L - 3"
      "int (length data) \<le> 255 * (min (cMTU c) (L - 3) - headerSize vlen (new_message c data (saString d)))"
  shows "\<exists>fs. WritePacket vlen (send_limit L) data d c [] =
      returns (None, c\<lparr>cPacketId := cPacketId c + 1\<rparr>, map pack fs) \<and> hy2.parts_of (new_message c data (saString d)) fs"
proof -
  let ?m = "new_message c data (saString d)"
  have "h2Data ?m = data" by (simp add: new_message_def)
  then obtain fs where "send_message vlen (send_limit L) (cMTU c) ?m [] = returns (None, map pack fs)" "hy2.parts_of ?m fs"
    using hy2.send_ok [OF assms(1) h(1,2)] h(3) by (auto simp: hy2_send)
  then show ?thesis using assms(2-4) by (intro exI [of _ fs]) (auto simp: WritePacket_def MaxUDPSize_def)
qed

lemma hy2_new_conn [simp]:
  "\<not> cClosed (newUDPPacketConn s)" "cQueue (newUDPPacketConn s) = []" "cTable (newUDPPacketConn s) = Map.empty"
  by (simp_all add: newUDPPacketConn_def)

lemma server_entry_used: "server_entry st s = Some r \<Longrightarrow> cQueue r \<noteq> [] \<Longrightarrow> svConns st s = Some r"
  by (auto simp: server_entry_def split: option.splits if_splits)

lemma hy2_read_queue:
  assumes "cQueue r \<noteq> []" and "\<forall>x \<in> set (cQueue r). hy2_same m x"
  shows "\<exists>r'. ReadFrom address DataReady expired (length (h2Data m)) r = Some (Inr (h2Data m, address (h2Destination m)), r')"
  using assms by (cases "cQueue r") (auto simp: ReadFrom_def hy2_same_def)

text \<open>C21. A packet of at most 4096 bytes to a destination of at most 255 characters, where the MTU and the datagram
  limit leave room for more than the header and 255 fragments of that size carry the packet, is written without an error
  and read at the other end with its destination, from its datagrams in any order and multiplicity: at a client whose
  relay of this session is fresh, and at a server that does not know the session and opens it with whichever fragment
  comes first. The conditions are needed: below the header no fragment can be cut, and with more than 255 fragments the
  count no longer fits its byte.\<close>

theorem hy2_udp_end_to_end:
  assumes "varint_ok vread vlen" and "\<not> cClosed c" and "length data \<le> 4096" and "length (saString d) \<le> 255"
    and "saIsIP d \<or> length (saFqdn d) \<le> 255"
    and "headerSize vlen (new_message c data (saString d)) < cMTU c" and "headerSize vlen (new_message c data (saString d)) < L - 3"
    and "int (length data) \<le> 255 * (min (cMTU c) (L - 3) - headerSize vlen (new_message c data (saString d)))"
    and "conns (cSession c) = Some (newUDPPacketConn s)" and "svConns st (cSession c) = None"
  shows "\<exists>sent. WritePacket vlen (send_limit L) data d c [] = returns (None, c\<lparr>cPacketId := cPacketId c + 1\<rparr>, sent) \<and>
    (\<forall>arrivals. set arrivals = set sent \<longrightarrow>
      (\<exists>conns' r r'. handle_all (client_handle vread fqdn) arrivals conns = Inr conns' \<and> conns' (cSession c) = Some r \<and>
        ReadFrom address DataReady expired (length data) r = Some (Inr (data, address (saString d)), r')) \<and>
      (\<exists>st' r r'. handle_all (server_handle vread fqdn) arrivals st = Inr st' \<and> svConns st' (cSession c) = Some r \<and>
        ReadFrom address DataReady expired (length data) r = Some (Inr (data, address (saString d)), r')))"
proof -
  let ?m = "new_message c data (saString d)"
  have m: "h2FragTotal ?m = 1" "h2Session ?m = cSession c" "h2Data ?m = data" "h2Destination ?m = saString d"
    by (simp_all add: new_message_def)
  have ok: "hy2_sane vlen ?m" "hy2_message_ok vread ?m" using hy2_messages [OF assms(1), of ?m] assms(4) m(4) by simp_all
  obtain fs where fs: "WritePacket vlen (send_limit L) data d c [] =
      returns (None, c\<lparr>cPacketId := cPacketId c + 1\<rparr>, map pack fs)" "hy2.parts_of ?m fs"
    using hy2_write_packet [OF ok(1) assms(2,3,5-8)] by blast
  have "(\<exists>conns' r r'. handle_all (client_handle vread fqdn) arrivals conns = Inr conns' \<and> conns' (cSession c) = Some r \<and>
        ReadFrom address DataReady expired (length data) r = Some (Inr (data, address (saString d)), r')) \<and>
      (\<exists>st' r r'. handle_all (server_handle vread fqdn) arrivals st = Inr st' \<and> svConns st' (cSession c) = Some r \<and>
        ReadFrom address DataReady expired (length data) r = Some (Inr (data, address (saString d)), r'))"
    if arr: "set arrivals = set (map pack fs)" for arrivals
  proof
    have arr': "set arrivals = pack ` set fs" using arr by simp
    have "conns (h2Session ?m) = Some (newUDPPacketConn s)" using assms(9) m(2) by simp
    from hy2_client.receive_parts [where st = conns, OF this hy2_new_conn fs(2) ok(2) m(1) arr', of fqdn] m
    obtain conns' r where "handle_all (client_handle vread fqdn) arrivals conns = Inr conns'" "conns' (cSession c) = Some r"
        "cQueue r \<noteq> []" "\<forall>x \<in> set (cQueue r). hy2_same ?m x" by auto
    with hy2_read_queue [of r ?m address expired] m
    show "\<exists>conns' r r'. handle_all (client_handle vread fqdn) arrivals conns = Inr conns' \<and> conns' (cSession c) = Some r \<and>
        ReadFrom address DataReady expired (length data) r = Some (Inr (data, address (saString d)), r')" by auto
    have "server_entry st (h2Session ?m) = Some (newUDPPacketConn (cSession c))" using assms(10) m(2) by (simp add: server_entry_def)
    from hy2_server.receive_parts [where st = st, OF this hy2_new_conn fs(2) ok(2) m(1) arr', of fqdn] m
    obtain st' r where "handle_all (server_handle vread fqdn) arrivals st = Inr st'" "server_entry st' (cSession c) = Some r"
        "cQueue r \<noteq> []" "\<forall>x \<in> set (cQueue r). hy2_same ?m x" by auto
    with hy2_read_queue [of r ?m address expired] server_entry_used [of st' "cSession c" r] m
    show "\<exists>st' r r'. handle_all (server_handle vread fqdn) arrivals st = Inr st' \<and> svConns st' (cSession c) = Some r \<and>
        ReadFrom address DataReady expired (length data) r = Some (Inr (data, address (saString d)), r')" by auto
  qed
  with fs(1) show ?thesis by blast
qed

lemma arrive_twice: "\<exists>s. W s \<and> (\<forall>a. set a = set s \<longrightarrow> P a) \<Longrightarrow> \<exists>s. W s \<and> P (rev s @ s)"
  by auto

theorem hy2_udp_end_to_end_witness:
  "\<exists>sent. WritePacket rfc_len (send_limit 16) [1, 2, 3, 4, 5, 6, 7]
      \<lparr>saIsValid = True, saIsIP = False, saFqdn = [104], saAddrString = [104], saString = [104], saPort = 53\<rparr>
      (newUDPPacketConn 1) [] = returns (None, (newUDPPacketConn 1)\<lparr>cPacketId := 1\<rparr>, sent) \<and>
    (\<exists>conns' r r'. handle_all (client_handle rfc_read id) (rev sent @ sent) [1 \<mapsto> newUDPPacketConn 1] = Inr conns' \<and> conns' 1 = Some r \<and>
      ReadFrom id DataReady False 7 r = Some (Inr ([1, 2, 3, 4, 5, 6, 7], [104]), r')) \<and>
    (\<exists>st' r r'. handle_all (server_handle rfc_read id) (rev sent @ sent) \<lparr>svConns = Map.empty, svStarted = []\<rparr> = Inr st' \<and> svConns st' 1 = Some r \<and>
      ReadFrom id DataReady False 7 r = Some (Inr ([1, 2, 3, 4, 5, 6, 7], [104]), r'))"
proof -
  let ?d = "\<lparr>saIsValid = True, saIsIP = False, saFqdn = [104], saAddrString = [104], saString = [104], saPort = 53\<rparr> :: socksaddr"
  let ?p = "[1, 2, 3, 4, 5, 6, 7] :: bytes"
  have c: "cMTU (newUDPPacketConn 1) = 1197" "cSession (newUDPPacketConn 1) = 1" "cPacketId (newUDPPacketConn 1) = 0"
    by (simp_all add: newUDPPacketConn_def)
  have h: "headerSize rfc_len (new_message (newUDPPacketConn 1) ?p (saString ?d)) = 10"
    using rfc_len_small [of 1] by (simp add: headerSize_def new_message_def)
  have vals: "length ?p = 7" "id (saString ?d) = [104]" by simp_all
  have "\<exists>sent. WritePacket rfc_len (send_limit 16) ?p ?d (newUDPPacketConn 1) [] = returns (None, (newUDPPacketConn 1)\<lparr>cPacketId := cPacketId (newUDPPacketConn 1) + 1\<rparr>, sent) \<and>
    (\<forall>arrivals. set arrivals = set sent \<longrightarrow>
      (\<exists>conns' r r'. handle_all (client_handle rfc_read id) arrivals [1 \<mapsto> newUDPPacketConn 1] = Inr conns' \<and> conns' (cSession (newUDPPacketConn 1)) = Some r \<and>
        ReadFrom id DataReady False (length ?p) r = Some (Inr (?p, id (saString ?d)), r')) \<and>
      (\<exists>st' r r'. handle_all (server_handle rfc_read id) arrivals \<lparr>svConns = Map.empty, svStarted = []\<rparr> = Inr st' \<and> svConns st' (cSession (newUDPPacketConn 1)) = Some r \<and>
        ReadFrom id DataReady False (length ?p) r = Some (Inr (?p, id (saString ?d)), r')))"
    by (rule hy2_udp_end_to_end [OF rfc_varint_ok]) (simp_all only: h, simp_all add: c)
  from arrive_twice [OF this] show ?thesis unfolding c vals add_0 .
qed

end
