(* ===== verification/TuicPacket.thy ===== *)
theory TuicPacket
  imports Defrag Wire
begin

text \<open>
  The UDP relay of tuic, \<^verbatim>\<open>tuic/packet.go\<close> with the constants of \<^verbatim>\<open>protocol.go\<close> and the message
  handlers of \<^verbatim>\<open>client_packet.go\<close> and \<^verbatim>\<open>service_packet.go\<close>. It sends a packet in datagrams or each
  packet on a stream of its own. As in \<^verbatim>\<open>HyPacket\<close> messages are values and the cache is a map whose
  entries may be evicted; addresses and their serializer belong to the sing library and are a
  parameter (\<open>address_ops\<close>), as are the calls that send a datagram or a stream.
\<close>

section \<open>Messages\<close>

definition Version :: byte where [cfg_defs]: "Version = 5"
definition CommandAuthenticate :: byte where [cfg_defs]: "CommandAuthenticate = 0"
definition CommandConnect :: byte where [cfg_defs]: "CommandConnect = 1"
definition CommandPacket :: byte where [cfg_defs]: "CommandPacket = 2"
definition CommandDissociate :: byte where [cfg_defs]: "CommandDissociate = 3"
definition CommandHeartbeat :: byte where [cfg_defs]: "CommandHeartbeat = 4"

text \<open>What the relay asks of an address, of the serializer \<^verbatim>\<open>AddressSerializer\<close>, and the empty address.\<close>

record 'a address_ops =
  isValid :: "'a \<Rightarrow> bool"
  isIP :: "'a \<Rightarrow> bool"
  fqdn :: "'a \<Rightarrow> bytes"
  addrPortLen :: "'a \<Rightarrow> nat"
  writeAddrPort :: "'a \<Rightarrow> bytes"
  readAddrPort :: "'a reader"
  emptyAddr :: 'a

record 'a udp_message =
  tmSession :: u16
  tmPacket :: u16
  tmFragTotal :: byte
  tmFragID :: byte
  tmDestination :: 'a
  tmData :: bytes

definition headerSize :: "'a address_ops \<Rightarrow> 'a udp_message \<Rightarrow> int" where
  "headerSize ops m = 10 + int (addrPortLen ops (tmDestination m))"

definition pack :: "'a address_ops \<Rightarrow> 'a udp_message \<Rightarrow> bytes" where
  "pack ops m = [Version, CommandPacket] @ put_u16 (tmSession m) @ put_u16 (tmPacket m) @ [tmFragTotal m, tmFragID m]
     @ put_u16 (word_of_nat (length (tmData m))) @ writeAddrPort ops (tmDestination m) @ tmData m"

text \<open>The fields before the data, read alike from a datagram and from a stream.\<close>

definition read_header :: "'a address_ops \<Rightarrow> bytes \<Rightarrow> io_error + ('a udp_message \<times> u16) \<times> bytes" where
  "read_header ops s =
     and_then (read_u16 s) (\<lambda>(sessionID, s).
     and_then (read_u16 s) (\<lambda>(packetID, s).
     and_then (read_u8 s) (\<lambda>(fragmentTotal, s).
     and_then (read_u8 s) (\<lambda>(fragmentID, s).
     and_then (read_u16 s) (\<lambda>(dataLength, s).
     and_then (readAddrPort ops s) (\<lambda>(destination, s).
     Inr ((\<lparr>tmSession = sessionID, tmPacket = packetID, tmFragTotal = fragmentTotal, tmFragID = fragmentID,
       tmDestination = destination, tmData = []\<rparr>, dataLength), s)))))))"

definition readUDPMessage :: "'a address_ops \<Rightarrow> bytes \<Rightarrow> io_error + 'a udp_message \<times> bytes" where
  "readUDPMessage ops s =
     and_then (read_header ops s) (\<lambda>((m, dataLength), s).
     and_then (read_full (unat dataLength) s) (\<lambda>(data, s).
     Inr (m\<lparr>tmData := data\<rparr>, s)))"

definition decodeUDPMessage :: "'a address_ops \<Rightarrow> bytes \<Rightarrow> io_error + 'a udp_message" where
  "decodeUDPMessage ops s =
     and_then (read_header ops s) (\<lambda>((m, dataLength), s).
     if length s \<noteq> unat dataLength then Inl UnexpectedEOF
     else Inr (m\<lparr>tmData := s\<rparr>))"

text \<open>Only the first fragment names the destination.\<close>

definition fragUDPMessage :: "'a address_ops \<Rightarrow> 'a udp_message \<Rightarrow> int \<Rightarrow> 'a udp_message list run" where
  "fragUDPMessage ops message maxPacketSize =
     (let udpMTU = maxPacketSize - headerSize ops message in
      if int (length (tmData message)) \<le> udpMTU then returns [message]
      else run_then (split_loop udpMTU (int (length (tmData message))) (tmData message)) (\<lambda>parts.
        returns (map (\<lambda>(index, part).
            let fragment = message\<lparr>tmData := part, tmFragID := word_of_nat index, tmFragTotal := fragment_total (length parts)\<rparr> in
            if index > 0 then fragment\<lparr>tmDestination := emptyAddr ops\<rparr> else fragment)
          (List.enumerate 0 parts))))"

section \<open>Joining fragments\<close>

definition feed :: "'a udp_message \<Rightarrow> 'a udp_message table \<Rightarrow> 'a udp_message fed" where
  "feed m T =
     (if tmFragTotal m \<le> 1 then Fed (Some m) [] T
      else if tmFragID m \<ge> tmFragTotal m then Fed None [m] T
      else
        let p = tmPacket m; item = item_at T p; total = unat (tmFragTotal m); i = unat (tmFragID m) in
        if total \<noteq> length (itMessages item) then
          Fed None (present (itMessages item))
            (T(p \<mapsto> \<lparr>itMessages = (replicate total None)[i := Some m], itCount = 1\<rparr>))
        else if itMessages item ! i \<noteq> None then Fed None [m] (T(p \<mapsto> item))
        else
          let messages = (itMessages item)[i := Some m]; count = itCount item + 1 in
          if unat count \<noteq> length messages then
            Fed None [] (T(p \<mapsto> \<lparr>itMessages = messages, itCount = count\<rparr>))
          else if None \<in> set messages then NilDereference
          else
            let parts = present messages;
                newMessage = (parts ! 0)\<lparr>tmData := concat (map tmData parts)\<rparr>;
                dataLength = sum_list (map (length \<circ> tmData) parts);
                T' = T(p \<mapsto> \<lparr>itMessages = [], itCount = count\<rparr>) in
            if dataLength > 0 then Fed (Some newMessage) parts T' else Fed None parts T')"

section \<open>The relay\<close>

record 'a tuic_conn = "('a udp_message, u16) udp_conn" +
  cStream :: bool
  cServer :: bool

definition newUDPPacketConn :: "bool \<Rightarrow> bool \<Rightarrow> u16 \<Rightarrow> 'a tuic_conn" where
  "newUDPPacketConn udpStream isServer session = \<lparr>cSession = session, cQueue = [], cMTU = 1200 - 3, cPacketId = 0,
     cClosed = False, cOnce = False, cDestroyed = 0, cTable = Map.empty, cStream = udpStream, cServer = isServer\<rparr>"

definition inputPacket :: "'a udp_message \<Rightarrow> 'a tuic_conn \<Rightarrow> panic + 'a tuic_conn" where
  "inputPacket m c =
     (if tmFragTotal m \<le> 1 then Inr (offer m c)
      else case feed m (cTable c) of
        NilDereference \<Rightarrow> Inl (Panic ''nil pointer dereference'')
      | Fed newMessage released T \<Rightarrow>
          (case newMessage of None \<Rightarrow> Inr (c\<lparr>cTable := T\<rparr>) | Some x \<Rightarrow> Inr (offer x (c\<lparr>cTable := T\<rparr>))))"

definition ReadFrom :: "ready \<Rightarrow> bool \<Rightarrow> nat \<Rightarrow> 'a tuic_conn \<Rightarrow> ((relay_error + bytes \<times> 'a) \<times> 'a tuic_conn) option" where
  "ReadFrom choice expired n c = (case choice of
      DataReady \<Rightarrow> (case cQueue c of [] \<Rightarrow> None
        | pkt # q \<Rightarrow> Some (Inr (take n (tmData pkt), tmDestination pkt), c\<lparr>cQueue := q\<rparr>))
    | CtxDone \<Rightarrow> if cClosed c then Some (Inl ErrClosedPipe, c) else None
    | DeadlinePassed \<Rightarrow> if expired then Some (Inl DeadlineExceeded, c) else None)"

text \<open>How a connection takes datagrams and streams; a stream is opened, written and closed in one call.\<close>

record 'q transport =
  sendDatagram :: "'q \<Rightarrow> bytes \<Rightarrow> relay_error option \<times> 'q"
  sendStream :: "'q \<Rightarrow> bytes \<Rightarrow> relay_error option \<times> 'q"

definition writePacket :: "'a address_ops \<Rightarrow> 'q transport \<Rightarrow> bool \<Rightarrow> 'a udp_message \<Rightarrow> 'q \<Rightarrow> relay_error option \<times> 'q" where
  "writePacket ops net udpStream m q =
     (if \<not> udpStream then sendDatagram net q (pack ops m) else sendStream net q (pack ops m))"

fun writePackets :: "'a address_ops \<Rightarrow> 'q transport \<Rightarrow> bool \<Rightarrow> 'a udp_message list \<Rightarrow> 'q \<Rightarrow> relay_error option \<times> 'q" where
  "writePackets ops net udpStream [] q = (None, q)"
| "writePackets ops net udpStream (m # ms) q = (case writePacket ops net udpStream m q of
      (Some err, q') \<Rightarrow> (Some err, q')
    | (None, q') \<Rightarrow> writePackets ops net udpStream ms q')"

text \<open>Sending one message; the relay remembers the size the connection asked for.\<close>

definition send_message :: "'a address_ops \<Rightarrow> 'q transport \<Rightarrow> 'a udp_message \<Rightarrow> 'a tuic_conn \<Rightarrow> 'q
    \<Rightarrow> (relay_error option \<times> 'a tuic_conn \<times> 'q) run" where
  "send_message ops net m c q =
     run_then
       (if \<not> cStream c \<and> cMTU c > headerSize ops m \<and> int (length (tmData m)) > cMTU c - headerSize ops m
        then run_then (fragUDPMessage ops m (cMTU c)) (\<lambda>ms. returns (writePackets ops net (cStream c) ms q))
        else returns (writePacket ops net (cStream c) m q))
       (\<lambda>(err, q). case err of
          Some (DatagramTooLarge maxSize) \<Rightarrow>
            if maxSize - 3 \<le> headerSize ops m then returns (err, c, q)
            else run_then (fragUDPMessage ops m (maxSize - 3)) (\<lambda>ms.
              case writePackets ops net (cStream c) ms q of (err', q') \<Rightarrow> returns (err', c\<lparr>cMTU := maxSize - 3\<rparr>, q'))
        | _ \<Rightarrow> returns (err, c, q))"

definition new_message :: "'a tuic_conn \<Rightarrow> bytes \<Rightarrow> 'a \<Rightarrow> 'a udp_message" where
  "new_message c data destination = \<lparr>tmSession = cSession c, tmPacket = next_packet_id (cPacketId c), tmFragTotal = 1,
     tmFragID = 0, tmDestination = destination, tmData = data\<rparr>"

definition WritePacket :: "'a address_ops \<Rightarrow> 'q transport \<Rightarrow> bytes \<Rightarrow> 'a \<Rightarrow> 'a tuic_conn \<Rightarrow> 'q
    \<Rightarrow> (relay_error option \<times> 'a tuic_conn \<times> 'q) run" where
  "WritePacket ops net data destination c q =
     (if cClosed c then returns (Some ErrNetClosed, c, q)
      else if length data > 0xffff then returns (Some (DatagramTooLarge 0xffff), c, q)
      else if \<not> isValid ops destination then returns (Some InvalidDestination, c, q)
      else if \<not> isIP ops destination \<and> length (fqdn ops destination) > 255 then returns (Some FqdnTooLong, c, q)
      else send_message ops net (new_message c data destination) (c\<lparr>cPacketId := cPacketId c + 1\<rparr>) q)"

definition WriteTo :: "'a address_ops \<Rightarrow> 'q transport \<Rightarrow> bytes \<Rightarrow> 'a \<Rightarrow> 'a tuic_conn \<Rightarrow> 'q
    \<Rightarrow> ((nat \<times> relay_error option) \<times> 'a tuic_conn \<times> 'q) run" where
  "WriteTo ops net p destination c q =
     (if cClosed c then returns ((0, Some ErrNetClosed), c, q)
      else if length p > 0xffff then returns ((0, Some (DatagramTooLarge 0xffff)), c, q)
      else if \<not> isValid ops destination then returns ((0, Some InvalidDestination), c, q)
      else if \<not> isIP ops destination \<and> length (fqdn ops destination) > 255 then returns ((0, Some FqdnTooLong), c, q)
      else run_then (send_message ops net (new_message c p destination) (c\<lparr>cPacketId := cPacketId c + 1\<rparr>) q) (\<lambda>(err, c, q).
        returns ((if err = None then length p else 0, err), c, q)))"

text \<open>A client tells the server that the session is over, on a stream whose failures are ignored.\<close>

definition closeWithError :: "'q transport \<Rightarrow> 'a tuic_conn \<Rightarrow> 'q \<Rightarrow> 'a tuic_conn \<times> 'q" where
  "closeWithError net c q =
     (c\<lparr>cClosed := True\<rparr>,
      if cServer c then q else snd (sendStream net q ([Version, CommandDissociate] @ put_u16 (cSession c))))"

definition CloseConn :: "'q transport \<Rightarrow> 'a tuic_conn \<Rightarrow> 'q \<Rightarrow> relay_error option \<times> 'a tuic_conn \<times> 'q" where
  "CloseConn net c q =
     (if cOnce c then (None, c, q)
      else case closeWithError net (c\<lparr>cOnce := True\<rparr>) q of (c', q') \<Rightarrow> (None, c'\<lparr>cDestroyed := cDestroyed c' + 1\<rparr>, q'))"

definition SetDeadline :: "'a tuic_conn \<Rightarrow> relay_error option \<times> 'a tuic_conn" where
  "SetDeadline c = (Some ErrInvalid, c)"

definition SetWriteDeadline :: "'a tuic_conn \<Rightarrow> relay_error option \<times> 'a tuic_conn" where
  "SetWriteDeadline c = (Some ErrInvalid, c)"

section \<open>Messages from the peer\<close>

text \<open>An error closes the connection. \<open>UnknownCommand\<close> carries the byte the error text shows.\<close>

datatype handle_error = InvalidMessage | UnknownVersion byte | UnknownCommand byte | HandleIO io_error | HandlePanic panic

definition client_input :: "'a udp_message \<Rightarrow> (u16 \<rightharpoonup> 'a tuic_conn) \<Rightarrow> handle_error + (u16 \<rightharpoonup> 'a tuic_conn)" where
  "client_input m conns = (case conns (tmSession m) of
       None \<Rightarrow> Inr conns
     | Some c \<Rightarrow> if cClosed c then Inr conns
         else and_then (map_err HandlePanic (inputPacket m c)) (\<lambda>c'. Inr (conns(tmSession m \<mapsto> c'))))"

definition client_handle :: "'a address_ops \<Rightarrow> bytes \<Rightarrow> (u16 \<rightharpoonup> 'a tuic_conn) \<Rightarrow> handle_error + (u16 \<rightharpoonup> 'a tuic_conn)" where
  "client_handle ops data conns =
     (if length data < 2 then Inl InvalidMessage
      else if data ! 0 \<noteq> Version then Inl (UnknownVersion (data ! 0))
      else if data ! 1 = CommandPacket then
        and_then (map_err HandleIO (decodeUDPMessage ops (drop 2 data))) (\<lambda>m. client_input m conns)
      else if data ! 1 = CommandHeartbeat then Inr conns
      else Inl (UnknownCommand (data ! 0)))"

text \<open>A stream from the server, given by all its bytes.\<close>

definition client_uni_stream :: "'a address_ops \<Rightarrow> bytes \<Rightarrow> (u16 \<rightharpoonup> 'a tuic_conn) \<Rightarrow> handle_error + (u16 \<rightharpoonup> 'a tuic_conn)" where
  "client_uni_stream ops s conns =
     and_then (map_err HandleIO (read_full 2 s)) (\<lambda>(start, s).
     if start ! 0 \<noteq> Version then Inl (UnknownVersion (start ! 0))
     else if start ! 1 \<noteq> CommandPacket then Inl (UnknownCommand (start ! 1))
     else and_then (map_err HandleIO (readUDPMessage ops s)) (\<lambda>(m, s). client_input m conns))"

text \<open>The server's relays, and the connections it handed to its handler, each with the destination of
  the message that opened it.\<close>

record 'a server_session =
  svConns :: "u16 \<rightharpoonup> 'a tuic_conn"
  svStarted :: "(u16 \<times> 'a) list"

definition open_session :: "bool \<Rightarrow> u16 \<Rightarrow> 'a \<Rightarrow> 'a server_session \<Rightarrow> 'a tuic_conn \<times> 'a server_session" where
  "open_session udpStream sessionID destination st =
     (let c = newUDPPacketConn udpStream True sessionID in
      (c, st\<lparr>svConns := (svConns st)(sessionID \<mapsto> c), svStarted := svStarted st @ [(sessionID, destination)]\<rparr>))"

definition server_input :: "'a udp_message \<Rightarrow> bool \<Rightarrow> 'a server_session \<Rightarrow> handle_error + 'a server_session" where
  "server_input m udpStream st =
     (let (c, st) = (case svConns st (tmSession m) of
          None \<Rightarrow> open_session udpStream (tmSession m) (tmDestination m) st
        | Some c \<Rightarrow> if cClosed c then open_session udpStream (tmSession m) (tmDestination m) st else (c, st)) in
      and_then (map_err HandlePanic (inputPacket m c)) (\<lambda>c'.
      Inr (st\<lparr>svConns := (svConns st)(tmSession m \<mapsto> c')\<rparr>)))"

definition server_handle :: "'a address_ops \<Rightarrow> bytes \<Rightarrow> 'a server_session \<Rightarrow> handle_error + 'a server_session" where
  "server_handle ops data st =
     (if length data < 2 then Inl InvalidMessage
      else if data ! 0 \<noteq> Version then Inl (UnknownVersion (data ! 0))
      else if data ! 1 = CommandPacket then
        and_then (map_err HandleIO (decodeUDPMessage ops (drop 2 data))) (\<lambda>m. server_input m False st)
      else if data ! 1 = CommandHeartbeat then Inr st
      else Inl (UnknownCommand (data ! 0)))"

end
