(* ===== verification/TuicService.thy ===== *)
theory TuicService
  imports TuicPacket
begin

text \<open>
  One connection at a tuic server, the \<^verbatim>\<open>serverSession\<close> of \<^verbatim>\<open>tuic/service.go\<close>: authentication, the streams
  and datagrams that have to wait for it, dissociation and closing. The goroutines of the code are
  events of a run (\<open>session_step\<close>), in any order; an event that finds its goroutine blocked changes
  nothing. A stream is the bytes \<open>got\<close> of the first read and the \<open>rest\<close> of it; where a \<^verbatim>\<open>select\<close> finds two
  cases ready, an argument of the event picks. \<^verbatim>\<open>ExportKeyingMaterial\<close> is a parameter.
\<close>

section \<open>Users\<close>

definition AuthenticateLen :: nat where [cfg_defs]: "AuthenticateLen = 2 + 16 + 32"

record 'u tuic_users =
  userMap :: "bytes \<rightharpoonup> 'u"
  passwordMap :: "'u \<rightharpoonup> bytes"

text \<open>A password that is missing reads as the empty string.\<close>

definition password_of :: "'u tuic_users \<Rightarrow> 'u \<Rightarrow> bytes" where
  "password_of us u = (case passwordMap us u of None \<Rightarrow> [] | Some p \<Rightarrow> p)"

fun update_loop :: "'u list \<Rightarrow> bytes list \<Rightarrow> bytes list \<Rightarrow> 'u tuic_users \<Rightarrow> panic + 'u tuic_users" where
  "update_loop [] uuids passwords us = Inr us"
| "update_loop (u # ul) (uuid # uuids) (password # passwords) us =
     update_loop ul uuids passwords (us\<lparr>userMap := (userMap us)(uuid \<mapsto> u), passwordMap := (passwordMap us)(u \<mapsto> password)\<rparr>)"
| "update_loop (u # ul) uuids passwords us = Inl (Panic ''index out of range'')"

definition UpdateUsers :: "'u list \<Rightarrow> bytes list \<Rightarrow> bytes list \<Rightarrow> panic + 'u tuic_users" where
  "UpdateUsers userList uuidList passwordList =
     update_loop userList uuidList passwordList \<lparr>userMap = Map.empty, passwordMap = Map.empty\<rparr>"

section \<open>The session\<close>

datatype session_error = ReadRequest | AuthenticateRead io_error | UnknownUser bytes | ExportFailed | TokenMismatch
  | MultipleAuthentication | BadVersion byte | BadCommand byte | ReadMessage io_error | InvalidDissociate
  | HandleMessage handle_error | AuthenticationTimeout | ReceiveFailed | HeartbeatFailed | ContextDone

text \<open>What the session hands to its handler.\<close>

datatype 'a handed = Stream 'a bytes | Packets u16 'a

datatype loop_state = LoopWaiting | LoopRunning | LoopEnded

text \<open>\<open>ssAuth\<close> is \<^verbatim>\<open>authUser\<close> once \<^verbatim>\<open>authDone\<close> is closed, \<open>ssDone\<close> is \<^verbatim>\<open>connErr\<close> once \<^verbatim>\<open>connDone\<close> is closed;
  \<open>ssWatch\<close> tells whether the goroutine of \<^verbatim>\<open>handleAuthTimeout\<close> still waits.\<close>

record ('u, 'a) tuic_session =
  ssUsers :: "'u tuic_users"
  ssAuth :: "'u option"
  ssDone :: "session_error option"
  ssUdp :: "'a server_session"
  ssLoop :: loop_state
  ssWatch :: bool
  ssQuicClosed :: bool
  ssHanded :: "('u \<times> 'a handed) list"

definition new_session :: "'u tuic_users \<Rightarrow> ('u, 'a) tuic_session" where
  "new_session us = \<lparr>ssUsers = us, ssAuth = None, ssDone = None, ssUdp = \<lparr>svConns = Map.empty, svStarted = []\<rparr>,
     ssLoop = LoopWaiting, ssWatch = True, ssQuicClosed = False, ssHanded = []\<rparr>"

text \<open>Closing empties the map of relays; the relays taken out of it are cancelled.\<close>

definition close_session :: "session_error \<Rightarrow> ('u, 'a) tuic_session \<Rightarrow> ('u, 'a) tuic_session" where
  "close_session err st =
     (if ssDone st \<noteq> None then st
      else st\<lparr>ssDone := Some err, ssUdp := (ssUdp st)\<lparr>svConns := Map.empty\<rparr>, ssQuicClosed := True\<rparr>)"

text \<open>A goroutine that handles a stream is blocked or ends.\<close>

datatype 's handled = Waits | Ends "session_error option" 's

definition await_auth :: "bool \<Rightarrow> ('u, 'a) tuic_session \<Rightarrow> ('u \<Rightarrow> ('u, 'a) tuic_session handled) \<Rightarrow> ('u, 'a) tuic_session handled" where
  "await_auth pick st k = (case ssAuth st of
      None \<Rightarrow> (case ssDone st of None \<Rightarrow> Waits | Some err \<Rightarrow> Ends (Some err) st)
    | Some u \<Rightarrow> if ssDone st \<noteq> None \<and> \<not> pick then Ends (ssDone st) st else k u)"

text \<open>The new state of the relays; what they opened goes to the handler with the user.\<close>

definition with_udp :: "'u \<Rightarrow> 'a server_session \<Rightarrow> ('u, 'a) tuic_session \<Rightarrow> ('u, 'a) tuic_session" where
  "with_udp u udp st = st\<lparr>ssUdp := udp, ssHanded := ssHanded st @
     map (\<lambda>(s, d). (u, Packets s d)) (drop (length (svStarted (ssUdp st))) (svStarted udp))\<rparr>"

section \<open>Streams from the client\<close>

definition check_token :: "(bytes \<Rightarrow> bytes \<Rightarrow> bytes option) \<Rightarrow> bytes \<Rightarrow> ('u, 'a) tuic_session \<Rightarrow> ('u, 'a) tuic_session handled" where
  "check_token export buffer st =
     (let userUUID = slice 2 (2 + 16) buffer in
      case userMap (ssUsers st) userUUID of
        None \<Rightarrow> Ends (Some (UnknownUser userUUID)) st
      | Some user \<Rightarrow> (case export userUUID (password_of (ssUsers st) user) of
          None \<Rightarrow> Ends (Some ExportFailed) st
        | Some tuicToken \<Rightarrow>
            if tuicToken \<noteq> slice (2 + 16) (2 + 16 + 32) buffer then Ends (Some TokenMismatch) st
            else if ssAuth st \<noteq> None then Ends (Some MultipleAuthentication) st
            else Ends None (st\<lparr>ssAuth := Some user\<rparr>)))"

definition authenticate :: "(bytes \<Rightarrow> bytes \<Rightarrow> bytes option) \<Rightarrow> bytes \<Rightarrow> bytes \<Rightarrow> ('u, 'a) tuic_session \<Rightarrow> ('u, 'a) tuic_session handled" where
  "authenticate export got rest st =
     (if length got < AuthenticateLen then
        (case read_full (AuthenticateLen - length got) rest of
           Inl e \<Rightarrow> Ends (Some (AuthenticateRead e)) st
         | Inr (bs, _) \<Rightarrow> check_token export (got @ bs) st)
      else check_token export got st)"

definition dissociate :: "bytes \<Rightarrow> bytes \<Rightarrow> ('u, 'a) tuic_session \<Rightarrow> ('u, 'a) tuic_session handled" where
  "dissociate got rest st =
     (if length got > 4 then Ends (Some InvalidDissociate) st
      else case read_u16 (drop 2 got @ rest) of
        Inl e \<Rightarrow> Ends (Some (ReadMessage e)) st
      | Inr (sessionID, _) \<Rightarrow>
          Ends None (st\<lparr>ssUdp := (ssUdp st)\<lparr>svConns := (svConns (ssUdp st))(sessionID := None)\<rparr>\<rparr>))"

definition packet_stream :: "'a address_ops \<Rightarrow> bytes \<Rightarrow> bytes \<Rightarrow> ('u, 'a) tuic_session \<Rightarrow> 'u \<Rightarrow> ('u, 'a) tuic_session handled" where
  "packet_stream ops got rest st u =
     (case readUDPMessage ops (drop 2 got @ rest) of
        Inl e \<Rightarrow> Ends (Some (ReadMessage e)) st
      | Inr (m, _) \<Rightarrow> (case server_input m True (ssUdp st) of
          Inl e \<Rightarrow> Ends (Some (HandleMessage e)) st
        | Inr udp \<Rightarrow> Ends None (with_udp u udp st)))"

definition handleUniStream :: "'a address_ops \<Rightarrow> (bytes \<Rightarrow> bytes \<Rightarrow> bytes option) \<Rightarrow> bytes \<Rightarrow> bytes \<Rightarrow> bool
    \<Rightarrow> ('u, 'a) tuic_session \<Rightarrow> ('u, 'a) tuic_session handled" where
  "handleUniStream ops export got rest pick st =
     (if length got < 2 then Ends (Some ReadRequest) st
      else if got ! 0 \<noteq> Version then Ends (Some (BadVersion (got ! 0))) st
      else if got ! 1 = CommandAuthenticate then authenticate export got rest st
      else if got ! 1 = CommandPacket then await_auth pick st (packet_stream ops got rest st)
      else if got ! 1 = CommandDissociate then await_auth pick st (\<lambda>_. dissociate got rest st)
      else Ends (Some (BadCommand (got ! 1))) st)"

text \<open>A stream with a TCP request; its errors are logged and leave the session alone.\<close>

definition handleStream :: "'a address_ops \<Rightarrow> bytes \<Rightarrow> bytes \<Rightarrow> bool \<Rightarrow> ('u, 'a) tuic_session \<Rightarrow> ('u, 'a) tuic_session handled" where
  "handleStream ops got rest pick st =
     (if length got < 2 then Ends (Some ReadRequest) st
      else if got ! 0 \<noteq> Version then Ends (Some (BadVersion (got ! 1))) st
      else if got ! 1 \<noteq> CommandConnect then Ends (Some (BadCommand (got ! 1))) st
      else case readAddrPort ops (drop 2 got @ rest) of
        Inl e \<Rightarrow> Ends (Some (ReadMessage e)) st
      | Inr (destination, payload) \<Rightarrow> await_auth pick st (\<lambda>u.
          Ends None (st\<lparr>ssHanded := ssHanded st @ [(u, Stream destination payload)]\<rparr>)))"

section \<open>The goroutines of a session\<close>

datatype 'u session_event =
    UniStream bytes bytes bool
  | BidiStream bytes bytes bool
  | LoopStarts bool
  | Datagram bytes
  | DatagramFails
  | WatchEnds
  | WatchFires
  | HeartbeatSent
  | HeartbeatLost
  | ContextEnds
  | RelayCancelled u16
  | RelayDestroyed u16
  | UsersUpdated "'u tuic_users"

text \<open>A goroutine of \<^verbatim>\<open>loopUniStreams\<close>: an error closes the session. One of \<^verbatim>\<open>loopStreams\<close>: it is logged.\<close>

definition closing :: "('u, 'a) tuic_session handled \<Rightarrow> ('u, 'a) tuic_session \<Rightarrow> ('u, 'a) tuic_session" where
  "closing h st = (case h of Waits \<Rightarrow> st | Ends None st' \<Rightarrow> st' | Ends (Some err) st' \<Rightarrow> close_session err st')"

definition logging :: "('u, 'a) tuic_session handled \<Rightarrow> ('u, 'a) tuic_session \<Rightarrow> ('u, 'a) tuic_session" where
  "logging h st = (case h of Waits \<Rightarrow> st | Ends _ st' \<Rightarrow> st')"

definition loop_starts :: "bool \<Rightarrow> ('u, 'a) tuic_session \<Rightarrow> ('u, 'a) tuic_session" where
  "loop_starts pick st =
     (if ssLoop st \<noteq> LoopWaiting then st
      else if ssAuth st \<noteq> None \<and> (ssDone st = None \<or> pick) then st\<lparr>ssLoop := LoopRunning\<rparr>
      else if ssDone st \<noteq> None then st\<lparr>ssLoop := LoopEnded\<rparr>
      else st)"

definition loop_datagram :: "'a address_ops \<Rightarrow> bytes \<Rightarrow> ('u, 'a) tuic_session \<Rightarrow> ('u, 'a) tuic_session" where
  "loop_datagram ops data st = (case ssAuth st of
      None \<Rightarrow> st
    | Some u \<Rightarrow> if ssLoop st \<noteq> LoopRunning then st
        else (case server_handle ops data (ssUdp st) of
            Inl e \<Rightarrow> (close_session (HandleMessage e) st)\<lparr>ssLoop := LoopEnded\<rparr>
          | Inr udp \<Rightarrow> with_udp u udp st))"

definition watch_ends :: "('u, 'a) tuic_session \<Rightarrow> ('u, 'a) tuic_session" where
  "watch_ends st = (if ssDone st \<noteq> None \<or> ssAuth st \<noteq> None then st\<lparr>ssWatch := False\<rparr> else st)"

definition watch_fires :: "('u, 'a) tuic_session \<Rightarrow> ('u, 'a) tuic_session" where
  "watch_fires st = (if ssWatch st then (close_session AuthenticationTimeout st)\<lparr>ssWatch := False\<rparr> else st)"

text \<open>The relay of a session is cancelled by its context; the callback a relay was made with removes
  whatever relay the session has.\<close>

definition relay_cancelled :: "u16 \<Rightarrow> 'a server_session \<Rightarrow> 'a server_session" where
  "relay_cancelled s udp = udp\<lparr>svConns := (svConns udp)(s := map_option (\<lambda>c. c\<lparr>cClosed := True\<rparr>) (svConns udp s))\<rparr>"

definition on_destroy :: "u16 \<Rightarrow> 'a server_session \<Rightarrow> 'a server_session" where
  "on_destroy s udp = udp\<lparr>svConns := (svConns udp)(s := None)\<rparr>"

fun session_step :: "'a address_ops \<Rightarrow> (bytes \<Rightarrow> bytes \<Rightarrow> bytes option) \<Rightarrow> 'u session_event
    \<Rightarrow> ('u, 'a) tuic_session \<Rightarrow> ('u, 'a) tuic_session" where
  "session_step ops export (UniStream got rest pick) st = closing (handleUniStream ops export got rest pick st) st"
| "session_step ops export (BidiStream got rest pick) st = logging (handleStream ops got rest pick st) st"
| "session_step ops export (LoopStarts pick) st = loop_starts pick st"
| "session_step ops export (Datagram data) st = loop_datagram ops data st"
| "session_step ops export DatagramFails st =
     (if ssLoop st = LoopRunning then (close_session ReceiveFailed st)\<lparr>ssLoop := LoopEnded\<rparr> else st)"
| "session_step ops export WatchEnds st = watch_ends st"
| "session_step ops export WatchFires st = watch_fires st"
| "session_step ops export HeartbeatSent st = st"
| "session_step ops export HeartbeatLost st = close_session HeartbeatFailed st"
| "session_step ops export ContextEnds st = close_session ContextDone st"
| "session_step ops export (RelayCancelled s) st = st\<lparr>ssUdp := relay_cancelled s (ssUdp st)\<rparr>"
| "session_step ops export (RelayDestroyed s) st = st\<lparr>ssUdp := on_destroy s (ssUdp st)\<rparr>"
| "session_step ops export (UsersUpdated us) st = st\<lparr>ssUsers := us\<rparr>"

definition session_run :: "'a address_ops \<Rightarrow> (bytes \<Rightarrow> bytes \<Rightarrow> bytes option) \<Rightarrow> 'u session_event list
    \<Rightarrow> ('u, 'a) tuic_session \<Rightarrow> ('u, 'a) tuic_session" where
  "session_run ops export es st = fold (session_step ops export) es st"

end
