(* ===== verification/TuicUdp.thy ===== *)
theory TuicUdp
  imports TuicPacket RelayReceive
begin

text \<open>
  tuic's relay provides the interfaces of \<^verbatim>\<open>Relay\<close> and \<^verbatim>\<open>RelayReceive\<close>. The address serializer stays a
  parameter: a message is \<open>sane\<close> when the serializer's lengths are right for its destination and for
  the empty address, and \<open>ok\<close> when both are read back as written.
\<close>

section \<open>Messages\<close>

definition address_sized :: "'a address_ops \<Rightarrow> 'a \<Rightarrow> bool" where
  "address_sized ops a \<longleftrightarrow> length (writeAddrPort ops a) = addrPortLen ops a \<and> addrPortLen ops (emptyAddr ops) \<le> addrPortLen ops a"

definition address_read :: "'a address_ops \<Rightarrow> 'a \<Rightarrow> bool" where
  "address_read ops a \<longleftrightarrow> (\<forall>r. readAddrPort ops (writeAddrPort ops a @ r) = Inr (a, r))"

definition tuic_sane :: "'a address_ops \<Rightarrow> 'a udp_message \<Rightarrow> bool" where
  "tuic_sane ops m \<longleftrightarrow> address_sized ops (emptyAddr ops) \<and> address_sized ops (tmDestination m)"

definition tuic_message_ok :: "'a address_ops \<Rightarrow> 'a udp_message \<Rightarrow> bool" where
  "tuic_message_ok ops m \<longleftrightarrow> length (tmData m) < 65536 \<and> address_read ops (emptyAddr ops) \<and> address_read ops (tmDestination m)"

lemma tuic_header:
  assumes "address_read ops (tmDestination m)"
  shows "read_header ops (drop 2 (pack ops m) @ r) = Inr ((m\<lparr>tmData := []\<rparr>, word_of_nat (length (tmData m))), tmData m @ r)"
  using assms by (cases m) (simp add: read_header_def pack_def address_read_def)

lemma tuic_decode_pack: "tuic_message_ok ops m \<Longrightarrow> decodeUDPMessage ops (drop 2 (pack ops m)) = Inr m"
  using tuic_header [of ops m "[]"] by (simp add: decodeUDPMessage_def tuic_message_ok_def unat_of_nat_small)

lemma tuic_read_pack: "tuic_message_ok ops m \<Longrightarrow> readUDPMessage ops (drop 2 (pack ops m) @ r) = Inr (m, r)"
  using tuic_header [of ops m r] by (simp add: readUDPMessage_def tuic_message_ok_def unat_of_nat_small)

lemma pack_start: "\<not> length (pack ops m) < 2" "pack ops m ! 0 = Version" "pack ops m ! Suc 0 = CommandPacket"
  by (simp_all add: pack_def)

section \<open>Sending\<close>

definition tuic_joined :: "'a udp_message \<Rightarrow> 'a udp_message list \<Rightarrow> 'a udp_message" where
  "tuic_joined m fs = (fs ! 0)\<lparr>tmData := concat (map tmData fs)\<rparr>"

definition tuic_cut :: "'a address_ops \<Rightarrow> nat \<Rightarrow> nat \<Rightarrow> bytes \<Rightarrow> 'a udp_message \<Rightarrow> 'a udp_message" where
  "tuic_cut ops n i p m = m\<lparr>tmData := p, tmFragID := word_of_nat i, tmFragTotal := fragment_total n,
     tmDestination := if i > 0 then emptyAddr ops else tmDestination m\<rparr>"

lemma tuic_feed: "feed m T = feed_spec tmFragTotal tmFragID tmPacket tmData tuic_joined m T"
  by (simp only: feed_def feed_spec_def Let_def tuic_joined_def length_list_update)

interpretation tuic: relay tmFragTotal tmFragID tmPacket tmData tuic_joined feed "headerSize ops" "pack ops" "tuic_cut ops"
  "fragUDPMessage ops" "tuic_sane ops" for ops
proof (intro relay.intro relay_axioms.intro)
  show "defragger tmFragTotal tmFragID tmPacket tmData tuic_joined feed"
    by (rule defraggerI [OF tuic_feed]) (simp add: tuic_joined_def)
next
  fix m :: "'a udp_message" and mx
  show "int (length (tmData m)) \<le> mx - headerSize ops m \<Longrightarrow> fragUDPMessage ops m mx = returns [m]"
    by (simp add: fragUDPMessage_def)
  show "\<not> int (length (tmData m)) \<le> mx - headerSize ops m \<Longrightarrow>
      fragUDPMessage ops m mx = run_then (split_loop (mx - headerSize ops m) (int (length (tmData m))) (tmData m))
        (\<lambda>parts. returns (map (\<lambda>(i, p). tuic_cut ops (length parts) i p m) (List.enumerate 0 parts)))"
  proof -
    have cut: "(if 0 < i then f\<lparr>tmDestination := emptyAddr ops\<rparr> else f) = tuic_cut ops n i p m"
      if "f = m\<lparr>tmData := p, tmFragID := word_of_nat i, tmFragTotal := fragment_total n\<rparr>" for f n i p
      using that by (simp add: tuic_cut_def)
    assume "\<not> int (length (tmData m)) \<le> mx - headerSize ops m"
    then show ?thesis by (simp add: fragUDPMessage_def Let_def cut cong: if_cong)
  qed
  assume "tuic_sane ops m"
  then show "int (length (pack ops m)) = headerSize ops m + int (length (tmData m))"
    by (simp add: tuic_sane_def address_sized_def pack_def headerSize_def)
qed (simp_all add: tuic_joined_def tuic_cut_def headerSize_def tuic_sane_def address_sized_def)

lemma tuic_writePackets:
  "writePackets ops net False = write_all (pack ops) (sendDatagram net)"
proof (intro ext)
  show "writePackets ops net False ms q = write_all (pack ops) (sendDatagram net) ms q" for ms q
    by (induction ms arbitrary: q) (auto simp: writePacket_def split: prod.splits option.splits)
qed

text \<open>In datagram mode this is the common way of sending, with the relay's limit remembered.\<close>

lemma tuic_send:
  assumes "\<not> cStream c" and "send_cutting (headerSize ops) tmData (pack ops) (fragUDPMessage ops) (sendDatagram net) (cMTU c) m q
    = returns (err, q')"
  shows "\<exists>mtu. send_message ops net m c q = returns (err, c\<lparr>cMTU := mtu\<rparr>, q')"
proof -
  let ?first = "if cMTU c > headerSize ops m \<and> int (length (tmData m)) > cMTU c - headerSize ops m
        then run_then (fragUDPMessage ops m (cMTU c)) (\<lambda>ms. returns (write_all (pack ops) (sendDatagram net) ms q))
        else returns (sendDatagram net q (pack ops m))"
  have stream: "cStream c = False" using assms(1) by simp
  have keep: "c = c\<lparr>cMTU := cMTU c\<rparr>" by simp
  have snd: "send_message ops net m c q = run_then ?first (\<lambda>(err, q). case err of
          Some (DatagramTooLarge maxSize) \<Rightarrow>
            if maxSize - 3 \<le> headerSize ops m then returns (err, c, q)
            else run_then (fragUDPMessage ops m (maxSize - 3)) (\<lambda>ms.
              case write_all (pack ops) (sendDatagram net) ms q of (err', q') \<Rightarrow> returns (err', c\<lparr>cMTU := maxSize - 3\<rparr>, q'))
        | _ \<Rightarrow> returns (err, c, q))"
    unfolding send_message_def stream tuic_writePackets writePacket_def by simp
  obtain e q1 where f: "?first = returns (e, q1)"
  proof (cases "cMTU c > headerSize ops m \<and> int (length (tmData m)) > cMTU c - headerSize ops m")
    case True
    then obtain fs where "fragUDPMessage ops m (cMTU c) = returns fs" using tuic.frag_returns [of ops m "cMTU c"] by blast
    then have "?first = returns (write_all (pack ops) (sendDatagram net) fs q)" using True by simp
    then show thesis using that by (metis surj_pair)
  next
    case False
    then have "?first = returns (sendDatagram net q (pack ops m))" by (rule if_not_P)
    then show thesis using that by (metis surj_pair)
  qed
  show ?thesis
  proof (cases "\<exists>k. e = Some (DatagramTooLarge k) \<and> \<not> k - 3 \<le> headerSize ops m")
    case True
    then obtain k where k: "e = Some (DatagramTooLarge k)" "\<not> k - 3 \<le> headerSize ops m" by blast
    obtain fs where fs: "fragUDPMessage ops m (k - 3) = returns fs" using tuic.frag_returns [of ops m "k - 3"] k(2) by auto
    then have "write_all (pack ops) (sendDatagram net) fs q1 = (err, q')"
      using assms(2) f k by (simp add: send_cutting_def)
    then show ?thesis unfolding snd f using k fs by auto
  next
    case False
    have "(err, q') = (e, q1)"
      using assms(2) False f by (auto simp: send_cutting_def split: option.splits relay_error.splits if_splits)
    then have "send_message ops net m c q = returns (err, c, q')"
      unfolding snd f using False by (auto split: option.splits relay_error.splits)
    then show ?thesis using keep by metis
  qed
qed

section \<open>Receiving\<close>

definition tuic_same :: "'a udp_message \<Rightarrow> 'a udp_message \<Rightarrow> bool" where
  "tuic_same m x \<longleftrightarrow> tmDestination x = tmDestination m \<and> tmData x = tmData m"

lemma tuic_same_joined:
  assumes "fs \<noteq> []" and "\<And>i. i < length fs \<Longrightarrow> fs ! i = tuic_cut ops (length fs) i (tmData (fs ! i)) m"
    and "concat (map tmData fs) = tmData m"
  shows "tuic_same m (tuic_joined y fs)"
proof -
  have "tmDestination (fs ! 0) = tmDestination m"
    using assms(1) by (subst assms(2), simp_all add: tuic_cut_def)
  then show ?thesis using assms(3) by (simp add: tuic_same_def tuic_joined_def)
qed

lemma tuic_cut_facts:
  "tuic_message_ok ops m \<Longrightarrow> length p \<le> length (tmData m) \<Longrightarrow> tuic_message_ok ops (tuic_cut ops n i p m)"
  "tmSession (tuic_cut ops n i p m) = tmSession m" "tuic_same m m"
  by (simp_all add: tuic_message_ok_def tuic_cut_def tuic_same_def)

text \<open>The relay a message for a session meets at the server.\<close>

definition server_entry :: "'a server_session \<Rightarrow> u16 \<Rightarrow> 'a tuic_conn option" where
  "server_entry st s = (case svConns st s of
      None \<Rightarrow> Some (newUDPPacketConn False True s)
    | Some c \<Rightarrow> if cClosed c then Some (newUDPPacketConn False True s) else Some c)"

lemma tuic_input:
  "inputPacket m c = (if tmFragTotal m \<le> 1 then Inr (offer m c)
       else case feed m (cTable c) of
         NilDereference \<Rightarrow> Inl (Panic ''nil pointer dereference'')
       | Fed up gone T \<Rightarrow> (case up of None \<Rightarrow> Inr (c\<lparr>cTable := T\<rparr>) | Some x \<Rightarrow> Inr (offer x (c\<lparr>cTable := T\<rparr>))))"
  for m and c :: "'a tuic_conn"
  by (rule inputPacket_def)

lemma tuic_client_known:
  assumes "tuic_message_ok ops m" and "conns (tmSession m) = Some c" and "\<not> cClosed c" and "inputPacket m c = Inr c'"
  shows "\<exists>conns'. client_handle ops (pack ops m) conns = Inr conns' \<and> conns' (tmSession m) = Some c'"
  using assms by (simp add: client_handle_def client_input_def pack_start tuic_decode_pack)

lemma tuic_server_known:
  assumes "tuic_message_ok ops m" and "server_entry st (tmSession m) = Some c" and "inputPacket m c = Inr c'"
    and "\<not> cClosed c'"
  shows "\<exists>st'. server_handle ops (pack ops m) st = Inr st' \<and> server_entry st' (tmSession m) = Some c'"
  using assms
  by (auto simp: server_handle_def server_input_def pack_start tuic_decode_pack server_entry_def open_session_def Let_def
    split: option.splits if_splits)

interpretation tuic_client: relay_receiver tmFragTotal tmFragID tmPacket tmData tuic_joined feed "headerSize ops" "pack ops"
  "tuic_cut ops" "fragUDPMessage ops" "tuic_sane ops" inputPacket tmSession "tuic_message_ok ops"
  "\<lambda>s. decodeUDPMessage ops (drop 2 s)" "client_handle ops" "\<lambda>conns s. conns s" tuic_same for ops
  by unfold_locales
    (rule tuic_input, auto simp: tuic_decode_pack tuic_cut_facts intro: tuic_same_joined dest: tuic_client_known)

interpretation tuic_server: relay_receiver tmFragTotal tmFragID tmPacket tmData tuic_joined feed "headerSize ops" "pack ops"
  "tuic_cut ops" "fragUDPMessage ops" "tuic_sane ops" inputPacket tmSession "tuic_message_ok ops"
  "\<lambda>s. decodeUDPMessage ops (drop 2 s)" "server_handle ops" server_entry tuic_same for ops
proof unfold_locales
  show "\<exists>st'. server_handle ops (pack ops m) st = Inr st' \<and> server_entry st' (tmSession m) = Some c'"
    if "tuic_message_ok ops m" "server_entry st (tmSession m) = Some c" "\<not> cClosed c" "inputPacket m c = Inr c'"
      "cClosed c' = cClosed c" for m st c c'
    using tuic_server_known that by blast
qed (rule tuic_input, auto simp: tuic_decode_pack tuic_cut_facts intro: tuic_same_joined)

end
