(* ===== verification/TuicClaims.thy ===== *)
theory TuicClaims
  imports TuicUdp
begin

text \<open>The properties of tuic's UDP relay.\<close>

lemma tuic_messages:
  assumes "address_sized ops (emptyAddr ops)" and "address_sized ops (tmDestination m)" and "address_read ops (emptyAddr ops)"
    and "address_read ops (tmDestination m)" and "length (tmData m) < 65536"
  shows "tuic_sane ops m" and "tuic_message_ok ops m"
  using assms by (simp_all add: tuic_sane_def tuic_message_ok_def)

lemma tuic_new_conn [simp]:
  "\<not> cClosed (newUDPPacketConn u v s)" "cQueue (newUDPPacketConn u v s) = []" "cTable (newUDPPacketConn u v s) = Map.empty"
  by (simp_all add: newUDPPacketConn_def)

lemma tuic_entry_used: "server_entry st s = Some r \<Longrightarrow> cQueue r \<noteq> [] \<Longrightarrow> svConns st s = Some r"
  by (auto simp: server_entry_def split: option.splits if_splits)

lemma tuic_read_queue:
  assumes "cQueue r \<noteq> []" and "\<forall>x \<in> set (cQueue r). tuic_same m x"
  shows "\<exists>r'. ReadFrom DataReady expired (length (tmData m)) r = Some (Inr (tmData m, tmDestination m), r')"
  using assms by (cases "cQueue r") (auto simp: ReadFrom_def tuic_same_def)

lemma tuic_first_input:
  assumes "cTable c = Map.empty"
  shows "\<exists>c'. inputPacket m c = Inr c'"
proof -
  obtain up gone T where "feed m Map.empty = Fed up gone T" using tuic.feed_ok [OF tuic.table_ok_empty] by blast
  then show ?thesis using assms by (cases up) (auto simp: inputPacket_def)
qed

lemma tuic_write_packet:
  assumes "tuic_sane ops (new_message c data d)" and "sendDatagram net = send_limit L"
    and "\<not> cClosed c" and "\<not> cStream c" and "length data \<le> 0xffff" and "isValid ops d" and "isIP ops d \<or> length (fqdn ops d) \<le> 255"
    and h: "headerSize ops (new_message c data d) < cMTU c" "headerSize ops (new_message c data d) < L - 3"
      "int (length data) \<le> 255 * (min (cMTU c) (L - 3) - headerSize ops (new_message c data d))"
  shows "\<exists>fs mtu. WritePacket ops net data d c [] =
      returns (None, c\<lparr>cPacketId := cPacketId c + 1, cMTU := mtu\<rparr>, map (pack ops) fs) \<and>
    tuic.parts_of ops (new_message c data d) fs \<and> (\<forall>f \<in> set fs. int (length (pack ops f)) \<le> L)"
proof -
  let ?m = "new_message c data d"
  let ?c = "c\<lparr>cPacketId := cPacketId c + 1\<rparr>"
  have "tmData ?m = data" by (simp add: new_message_def)
  then obtain fs where fs: "send_cutting (headerSize ops) tmData (pack ops) (fragUDPMessage ops) (send_limit L) (cMTU c) ?m []
      = returns (None, map (pack ops) fs)" "tuic.parts_of ops ?m fs"
    using tuic.send_ok [OF assms(1) h(1,2)] h(3) by auto
  have "\<exists>mtu. send_message ops net ?m ?c [] = returns (None, ?c\<lparr>cMTU := mtu\<rparr>, map (pack ops) fs)"
    by (rule tuic_send) (use fs(1) assms(2,4) in simp_all)
  moreover have "\<forall>f \<in> set fs. int (length (pack ops f)) \<le> L" using send_cutting_within [OF fs(1)] by (simp add: all_within_def)
  ultimately show ?thesis using assms(3,5-7) fs(2) by (intro exI [of _ fs]) (auto simp: WritePacket_def)
qed

text \<open>C22. A packet written at one end in datagram mode is read at the other, whatever the datagram limit
  and whatever order and multiplicity its datagrams arrive in: the fragments after the first carry no
  destination, but the packet is joined with the destination of the first.\<close>

theorem tuic_udp_end_to_end:
  assumes "address_sized ops (emptyAddr ops)" and "address_sized ops d" and "address_read ops (emptyAddr ops)" and "address_read ops d"
    and "sendDatagram net = send_limit L" and "\<not> cClosed c" and "\<not> cStream c" and "length data \<le> 0xffff"
    and "isValid ops d" and "isIP ops d \<or> length (fqdn ops d) \<le> 255"
    and "headerSize ops (new_message c data d) < cMTU c" and "headerSize ops (new_message c data d) < L - 3"
    and "int (length data) \<le> 255 * (min (cMTU c) (L - 3) - headerSize ops (new_message c data d))"
    and "conns (cSession c) = Some (newUDPPacketConn False False s)" and "svConns st (cSession c) = None"
  shows "\<exists>sent mtu. WritePacket ops net data d c [] = returns (None, c\<lparr>cPacketId := cPacketId c + 1, cMTU := mtu\<rparr>, sent) \<and>
    (\<forall>arrivals. set arrivals = set sent \<longrightarrow>
      (\<exists>conns' r r'. handle_all (client_handle ops) arrivals conns = Inr conns' \<and> conns' (cSession c) = Some r \<and>
        ReadFrom DataReady expired (length data) r = Some (Inr (data, d), r')) \<and>
      (\<exists>st' r r'. handle_all (server_handle ops) arrivals st = Inr st' \<and> svConns st' (cSession c) = Some r \<and>
        ReadFrom DataReady expired (length data) r = Some (Inr (data, d), r')))"
proof -
  let ?m = "new_message c data d"
  have m: "tmFragTotal ?m = 1" "tmSession ?m = cSession c" "tmData ?m = data" "tmDestination ?m = d"
    by (simp_all add: new_message_def)
  have ok: "tuic_sane ops ?m" "tuic_message_ok ops ?m" using tuic_messages [of ops ?m] assms(1-4,8) m by simp_all
  obtain fs mtu where fs: "WritePacket ops net data d c [] =
      returns (None, c\<lparr>cPacketId := cPacketId c + 1, cMTU := mtu\<rparr>, map (pack ops) fs)" "tuic.parts_of ops ?m fs"
    using tuic_write_packet [OF ok(1) assms(5-13)] by blast
  have "(\<exists>conns' r r'. handle_all (client_handle ops) arrivals conns = Inr conns' \<and> conns' (cSession c) = Some r \<and>
        ReadFrom DataReady expired (length data) r = Some (Inr (data, d), r')) \<and>
      (\<exists>st' r r'. handle_all (server_handle ops) arrivals st = Inr st' \<and> svConns st' (cSession c) = Some r \<and>
        ReadFrom DataReady expired (length data) r = Some (Inr (data, d), r'))"
    if arr: "set arrivals = set (map (pack ops) fs)" for arrivals
  proof
    have arr': "set arrivals = pack ops ` set fs" using arr by simp
    have "conns (tmSession ?m) = Some (newUDPPacketConn False False s)" using assms(14) m(2) by simp
    from tuic_client.receive_parts [where st = conns, OF this tuic_new_conn fs(2) ok(2) m(1) arr'] m
    obtain conns' r where "handle_all (client_handle ops) arrivals conns = Inr conns'" "conns' (cSession c) = Some r"
        "cQueue r \<noteq> []" "\<forall>x \<in> set (cQueue r). tuic_same ?m x" by auto
    with tuic_read_queue [of r ?m expired] m
    show "\<exists>conns' r r'. handle_all (client_handle ops) arrivals conns = Inr conns' \<and> conns' (cSession c) = Some r \<and>
        ReadFrom DataReady expired (length data) r = Some (Inr (data, d), r')" by auto
    have "server_entry st (tmSession ?m) = Some (newUDPPacketConn False True (cSession c))"
      using assms(15) m(2) by (simp add: server_entry_def)
    from tuic_server.receive_parts [where st = st, OF this tuic_new_conn fs(2) ok(2) m(1) arr'] m
    obtain st' r where "handle_all (server_handle ops) arrivals st = Inr st'" "server_entry st' (cSession c) = Some r"
        "cQueue r \<noteq> []" "\<forall>x \<in> set (cQueue r). tuic_same ?m x" by auto
    with tuic_read_queue [of r ?m expired] tuic_entry_used [of st' "cSession c" r] m
    show "\<exists>st' r r'. handle_all (server_handle ops) arrivals st = Inr st' \<and> svConns st' (cSession c) = Some r \<and>
        ReadFrom DataReady expired (length data) r = Some (Inr (data, d), r')" by auto
  qed
  with fs(1) show ?thesis by blast
qed

text \<open>An address serializer for the witnesses: an address is a byte or empty.\<close>

definition byte_addresses :: "byte option address_ops" where
  "byte_addresses = \<lparr>isValid = (\<lambda>a. a \<noteq> None), isIP = (\<lambda>_. True), fqdn = (\<lambda>_. []),
     addrPortLen = (\<lambda>a. case a of None \<Rightarrow> 1 | Some b \<Rightarrow> 2),
     writeAddrPort = (\<lambda>a. case a of None \<Rightarrow> [0xff] | Some b \<Rightarrow> [1, b]),
     readAddrPort = (\<lambda>s. and_then (read_u8 s) (\<lambda>(f, s). if f = 0xff then Inr (None, s)
       else and_then (read_u8 s) (\<lambda>(b, s). Inr (Some b, s)))),
     emptyAddr = None\<rparr>"

lemma byte_addresses_ok: "address_sized byte_addresses a" "address_read byte_addresses a"
  by (cases a; simp add: address_sized_def address_read_def byte_addresses_def read_u8_def read_full_def)+

theorem tuic_udp_end_to_end_witness:
  "\<exists>sent mtu. WritePacket byte_addresses \<lparr>sendDatagram = send_limit 20, sendStream = send_limit 20\<rparr> [1, 2, 3, 4, 5, 6, 7, 8, 9] (Some 7)
      (newUDPPacketConn False False 1) [] = returns (None, (newUDPPacketConn False False 1)\<lparr>cPacketId := 1, cMTU := mtu\<rparr>, sent)"
proof -
  have c: "cMTU (newUDPPacketConn False False 1) = 1197" "cSession (newUDPPacketConn False False 1) = 1"
      "cPacketId (newUDPPacketConn False False 1) = 0" "\<not> cStream (newUDPPacketConn False False 1)"
    by (simp_all add: newUDPPacketConn_def)
  have h: "headerSize byte_addresses (new_message (newUDPPacketConn False False 1) [1, 2, 3, 4, 5, 6, 7, 8, 9] (Some 7)) = 12"
    by (simp add: headerSize_def new_message_def byte_addresses_def)
  have ops: "isValid byte_addresses (Some 7)" "isIP byte_addresses (Some 7)" by (simp_all add: byte_addresses_def)
  show ?thesis
    using tuic_udp_end_to_end [OF byte_addresses_ok(1) byte_addresses_ok(1) byte_addresses_ok(2) byte_addresses_ok(2),
        of "\<lparr>sendDatagram = send_limit 20, sendStream = send_limit 20\<rparr>" 20 "newUDPPacketConn False False 1"
        "[1, 2, 3, 4, 5, 6, 7, 8, 9]" "Some 7" "[1 \<mapsto> newUDPPacketConn False False 1]" 1 "\<lparr>svConns = Map.empty, svStarted = []\<rparr>"]
    unfolding h by (simp add: c ops) meson
qed

text \<open>C23. When the datagrams of a packet arrive out of order and a fragment other than the first opens the
  session, the server hands the session to its handler with the empty destination, not the one the
  packet was written for.\<close>

theorem tuic_reordered_fragment_opens_without_destination:
  assumes "address_sized ops (emptyAddr ops)" and "address_sized ops d" and "address_read ops (emptyAddr ops)" and "address_read ops d"
    and "sendDatagram net = send_limit L" and "\<not> cClosed c" and "\<not> cStream c" and "length data \<le> 0xffff"
    and "isValid ops d" and "isIP ops d \<or> length (fqdn ops d) \<le> 255"
    and "headerSize ops (new_message c data d) < cMTU c" and "headerSize ops (new_message c data d) < L - 3"
    and "int (length data) \<le> 255 * (min (cMTU c) (L - 3) - headerSize ops (new_message c data d))"
    and "L < headerSize ops (new_message c data d) + int (length data)" and "svConns st (cSession c) = None"
  shows "\<exists>sent mtu. WritePacket ops net data d c [] = returns (None, c\<lparr>cPacketId := cPacketId c + 1, cMTU := mtu\<rparr>, sent) \<and>
    2 \<le> length sent \<and>
    (\<forall>i. 0 < i \<longrightarrow> i < length sent \<longrightarrow> (\<exists>st'. server_handle ops (sent ! i) st = Inr st' \<and>
      svStarted st' = svStarted st @ [(cSession c, emptyAddr ops)]))"
proof -
  let ?m = "new_message c data d"
  have m: "tmFragTotal ?m = 1" "tmSession ?m = cSession c" "tmData ?m = data" "tmDestination ?m = d"
    by (simp_all add: new_message_def)
  have ok: "tuic_sane ops ?m" "tuic_message_ok ops ?m" using tuic_messages [of ops ?m] assms(1-4,8) m by simp_all
  obtain fs mtu where fs: "WritePacket ops net data d c [] =
      returns (None, c\<lparr>cPacketId := cPacketId c + 1, cMTU := mtu\<rparr>, map (pack ops) fs)" "tuic.parts_of ops ?m fs"
      "\<forall>f \<in> set fs. int (length (pack ops f)) \<le> L"
    using tuic_write_packet [OF ok(1) assms(5-13)] by blast
  have "fs \<noteq> [?m]" using fs(3) assms(14) tuic.pack_length [OF ok(1)] m by auto
  then have cut: "2 \<le> length fs" "\<And>i. i < length fs \<Longrightarrow> fs ! i = tuic_cut ops (length fs) i (tmData (fs ! i)) ?m"
    using fs(2) by (auto simp: tuic.parts_of_def tuic.fragments_def)
  have "\<exists>st'. server_handle ops (pack ops (fs ! i)) st = Inr st' \<and> svStarted st' = svStarted st @ [(cSession c, emptyAddr ops)]"
    if "0 < i" "i < length fs" for i
  proof -
    let ?f = "fs ! i"
    have f: "tmSession ?f = cSession c" "tmDestination ?f = emptyAddr ops"
      using that(1) m by (subst cut(2) [OF that(2)], simp add: tuic_cut_def)+
    have "tuic_message_ok ops ?f" using tuic_server.parts_ok [OF fs(2) ok(2)] that(2) by simp
    moreover obtain c' where "inputPacket ?f (newUDPPacketConn False True (cSession c)) = Inr c'"
      using tuic_first_input [of "newUDPPacketConn False True (cSession c)" ?f] by auto
    ultimately show ?thesis using assms(15) f
      by (simp add: server_handle_def server_input_def pack_start tuic_decode_pack open_session_def Let_def)
  qed
  then show ?thesis using fs(1) cut(1) by (intro exI [of _ "map (pack ops) fs"] exI [of _ mtu]) simp
qed

theorem tuic_reordered_fragment_opens_without_destination_witness: 
  "\<exists>sent. 2 \<le> length sent \<and>
    (\<exists>st'. server_handle byte_addresses (sent ! 1) \<lparr>svConns = Map.empty, svStarted = []\<rparr> = Inr st' \<and> svStarted st' = [(1, None)])"
proof -
  have c: "cMTU (newUDPPacketConn False False 1) = 1197" "cSession (newUDPPacketConn False False 1) = 1"
      "cPacketId (newUDPPacketConn False False 1) = 0" "\<not> cStream (newUDPPacketConn False False 1)"
    by (simp_all add: newUDPPacketConn_def)
  have h: "headerSize byte_addresses (new_message (newUDPPacketConn False False 1) [1, 2, 3, 4, 5, 6, 7, 8, 9] (Some 7)) = 12"
    by (simp add: headerSize_def new_message_def byte_addresses_def)
  have ops: "isValid byte_addresses (Some 7)" "isIP byte_addresses (Some 7)" "emptyAddr byte_addresses = None" by (simp_all add: byte_addresses_def)
  have opened: "\<exists>sent. B sent \<and> C sent" if "\<exists>sent mtu. A sent mtu \<and> B sent \<and> C sent" for A B C using that by blast
  have "\<exists>sent. 2 \<le> length sent \<and> (\<forall>i. 0 < i \<longrightarrow> i < length sent \<longrightarrow>
      (\<exists>st'. server_handle byte_addresses (sent ! i) \<lparr>svConns = Map.empty, svStarted = []\<rparr> = Inr st' \<and>
        svStarted st' = svStarted \<lparr>svConns = Map.empty, svStarted = []\<rparr> @ [(1, None)]))"
    by (rule opened [OF tuic_reordered_fragment_opens_without_destination [OF byte_addresses_ok(1) byte_addresses_ok(1)
        byte_addresses_ok(2) byte_addresses_ok(2), of "\<lparr>sendDatagram = send_limit 20, sendStream = send_limit 20\<rparr>" 20
        "newUDPPacketConn False False 1" "[1, 2, 3, 4, 5, 6, 7, 8, 9]" "Some 7" "\<lparr>svConns = Map.empty, svStarted = []\<rparr>",
        unfolded h c ops]]) (simp_all add: c ops)
  then obtain sent where "2 \<le> length sent" "\<exists>st'. server_handle byte_addresses (sent ! 1) \<lparr>svConns = Map.empty, svStarted = []\<rparr> = Inr st' \<and>
        svStarted st' = svStarted \<lparr>svConns = Map.empty, svStarted = []\<rparr> @ [(1, None)]"
    using zero_less_one one_less_numeral_iff by (metis Suc_1 Suc_le_lessD)
  then show ?thesis by (intro exI [of _ sent]) simp
qed

end
