(* ===== verification/TuicAuth.thy ===== *)
theory TuicAuth
  imports TuicService TuicClaims
begin

text \<open>
  What a tuic server hands out and to whom: nothing before a client has authenticated, everything to
  the one user that did; and what becomes of a session whose relay is destroyed late.
\<close>

section \<open>Users\<close>

lemma update_loop_maps:
  assumes "length uuids = length ul" and "length passwords = length ul"
  shows "update_loop ul uuids passwords us =
    Inr \<lparr>userMap = userMap us ++ map_of (rev (zip uuids ul)), passwordMap = passwordMap us ++ map_of (rev (zip ul passwords))\<rparr>"
  using assms
  by (induction ul uuids passwords us rule: update_loop.induct) (auto simp: map_add_def fun_eq_iff split: option.splits)

text \<open>After an update every listed user is found under his identifier and has his password.\<close>

lemma update_users_found:
  assumes "length uuids = length ul" and "length passwords = length ul" and "distinct uuids" and "distinct ul" and "i < length ul"
  shows "\<exists>us. UpdateUsers ul uuids passwords = Inr us \<and> userMap us (uuids ! i) = Some (ul ! i) \<and>
    password_of us (ul ! i) = passwords ! i"
proof -
  have "map_of (rev (zip uuids ul)) = map_of (zip uuids ul)" "map_of (rev (zip ul passwords)) = map_of (zip ul passwords)"
    using assms(1-4) by (simp_all add: map_of_inject_set flip: rev_map)
  moreover have "map_of (zip uuids ul) (uuids ! i) = Some (ul ! i)" "map_of (zip ul passwords) (ul ! i) = Some (passwords ! i)"
    using assms by (simp_all add: map_of_zip_nth)
  ultimately show ?thesis using update_loop_maps [OF assms(1,2)] by (simp add: UpdateUsers_def password_of_def)
qed

section \<open>Authentication\<close>

text \<open>A stream that carries the token of the user \<open>u\<close>.\<close>

definition valid_token :: "'u tuic_users \<Rightarrow> (bytes \<Rightarrow> bytes \<Rightarrow> bytes option) \<Rightarrow> bytes \<Rightarrow> 'u \<Rightarrow> bool" where
  "valid_token us export s u \<longleftrightarrow> (\<exists>uuid token. length uuid = 16 \<and> length token = 32 \<and>
     take 50 s = [Version, CommandAuthenticate] @ uuid @ token \<and>
     userMap us uuid = Some u \<and> export uuid (password_of us u) = Some token)"

lemma close_session_keeps [simp]:
  "ssAuth (close_session err st) = ssAuth st" "ssHanded (close_session err st) = ssHanded st"
  "ssUsers (close_session err st) = ssUsers st"
  by (simp_all add: close_session_def)

lemma with_udp_keeps [simp]: "ssAuth (with_udp u udp st) = ssAuth st" "ssUsers (with_udp u udp st) = ssUsers st"
  by (simp_all add: with_udp_def)

lemma with_udp_handed: "(v, h) \<in> set (ssHanded (with_udp u udp st)) \<Longrightarrow> (v, h) \<in> set (ssHanded st) \<or> v = u"
  by (auto simp: with_udp_def)

lemma check_token_ends:
  assumes "check_token export buffer st = Ends err st'" and "50 \<le> length buffer" and "take 2 buffer = [Version, CommandAuthenticate]"
  shows "st' = st \<or> ssAuth st = None \<and> (\<exists>u. st' = st\<lparr>ssAuth := Some u\<rparr> \<and> valid_token (ssUsers st) export buffer u)"
proof (cases "st' = st")
  case False
  then obtain u where u: "userMap (ssUsers st) (slice 2 18 buffer) = Some u"
      "export (slice 2 18 buffer) (password_of (ssUsers st) u) = Some (slice 18 50 buffer)" "ssAuth st = None" "st' = st\<lparr>ssAuth := Some u\<rparr>"
    using assms(1) by (auto simp: check_token_def Let_def split: option.splits if_splits)
  have "take 50 buffer = take 2 buffer @ slice 2 18 buffer @ slice 18 50 buffer"
    using take_add [of 2 48 buffer] take_add [of 16 32 "drop 2 buffer"] by (simp add: slice_def)
  then have "valid_token (ssUsers st) export buffer u"
    using u assms(2,3) unfolding valid_token_def by (intro exI [of _ "slice 2 18 buffer"] exI [of _ "slice 18 50 buffer"]) simp
  then show ?thesis using u(3,4) by blast
qed simp

lemma valid_token_prefix: "take 50 s = take 50 s' \<Longrightarrow> valid_token us export s u = valid_token us export s' u"
  by (simp add: valid_token_def)

lemma authenticate_ends:
  assumes auth: "authenticate export got rest st = Ends err st'" and "2 \<le> length got" "got ! 0 = Version" "got ! 1 = CommandAuthenticate"
  shows "st' = st \<or> ssAuth st = None \<and> (\<exists>u. st' = st\<lparr>ssAuth := Some u\<rparr> \<and> valid_token (ssUsers st) export (got @ rest) u)"
proof -
  have two: "take 2 got = [Version, CommandAuthenticate]"
    using assms(2-4) by (intro nth_equalityI) (auto simp: less_2_cases_iff)
  show ?thesis
  proof (cases "length got < 50")
    case True
    show ?thesis
    proof (cases "read_full (50 - length got) rest")
      case (Inl e)
      then show ?thesis using auth True by (simp add: authenticate_def AuthenticateLen_def)
    next
      case (Inr r)
      obtain bs r' where r: "r = (bs, r')" by fastforce
      then have "check_token export (got @ bs) st = Ends err st'" "length (got @ bs) = 50" "bs = take (50 - length got) rest"
        using auth True Inr by (auto simp: authenticate_def AuthenticateLen_def read_full_def split: if_splits)
      then show ?thesis
        using check_token_ends [of export "got @ bs" st err st'] two True assms(2) valid_token_prefix [of "got @ bs" "got @ rest" "ssUsers st" export] by simp
    qed
  next
    case False
    then show ?thesis
      using check_token_ends [of export got st err st'] two auth valid_token_prefix [of got "got @ rest" "ssUsers st" export]
      by (simp add: authenticate_def AuthenticateLen_def)
  qed
qed

lemma await_auth_ends:
  "await_auth pick st k = Ends err st' \<Longrightarrow> st' = st \<or> (\<exists>u. ssAuth st = Some u \<and> k u = Ends err st')"
  by (auto simp: await_auth_def split: option.splits if_splits)

text \<open>Every step leaves the users' authentication alone but for one that authenticates the first user,
  and hands out things for the authenticated user only.\<close>

definition stays :: "('u, 'a) tuic_session \<Rightarrow> ('u, 'a) tuic_session \<Rightarrow> bool" where
  "stays st st' \<longleftrightarrow> ssAuth st' = ssAuth st \<and> (\<forall>u h. (u, h) \<in> set (ssHanded st') \<longrightarrow> (u, h) \<in> set (ssHanded st) \<or> ssAuth st = Some u)"

lemma stays_same: "stays st st"
  by (simp add: stays_def)

lemma stays_udp: "ssAuth st = Some u \<Longrightarrow> stays st (with_udp u udp st)"
  by (auto simp: stays_def dest: with_udp_handed)

lemma stays_close: "stays st st' \<Longrightarrow> stays st (close_session err st')"
  by (simp add: stays_def)

lemma packet_stream_ends: "packet_stream ops got rest st u = Ends err st' \<Longrightarrow> ssAuth st = Some u \<Longrightarrow> stays st st'"
  by (auto simp: packet_stream_def stays_same intro: stays_udp split: sum.splits)

lemma dissociate_ends: "dissociate got rest st = Ends err st' \<Longrightarrow> stays st st'"
  by (auto simp: dissociate_def stays_def split: sum.splits if_splits)

lemma uni_stream_ends:
  assumes "handleUniStream ops export got rest pick st = Ends err st'"
  shows "stays st st' \<or> ssAuth st = None \<and> (\<exists>u. st' = st\<lparr>ssAuth := Some u\<rparr> \<and> valid_token (ssUsers st) export (got @ rest) u)"
proof -
  consider (auth) "2 \<le> length got" "got ! 0 = Version" "got ! 1 = CommandAuthenticate" "authenticate export got rest st = Ends err st'"
    | (packet) "await_auth pick st (packet_stream ops got rest st) = Ends err st'"
    | (dissociate) "await_auth pick st (\<lambda>_. dissociate got rest st) = Ends err st'"
    | (error) "st' = st"
    using assms by (auto simp: handleUniStream_def split: if_splits)
  then show ?thesis
  proof cases
    case auth
    then show ?thesis using authenticate_ends [of export got rest st err st'] by (auto simp: stays_same)
  next
    case packet
    from await_auth_ends [OF this] show ?thesis by (auto simp: stays_same dest: packet_stream_ends)
  next
    case dissociate
    from await_auth_ends [OF this] show ?thesis by (auto simp: stays_same dest: dissociate_ends)
  qed (simp add: stays_same)
qed

lemma stream_ends: "handleStream ops got rest pick st = Ends err st' \<Longrightarrow> stays st st'"
  by (auto simp: handleStream_def stays_def split: if_splits sum.splits dest!: await_auth_ends)

lemma step_effect:
  "stays st (session_step ops export e st) \<or>
   ssAuth st = None \<and> (\<exists>got rest pick u. e = UniStream got rest pick \<and> ssAuth (session_step ops export e st) = Some u \<and>
     ssHanded (session_step ops export e st) = ssHanded st \<and> valid_token (ssUsers st) export (got @ rest) u)"
proof (cases e)
  case (UniStream got rest pick)
  show ?thesis
  proof (cases "handleUniStream ops export got rest pick st")
    case (Ends err st')
    from uni_stream_ends [OF this] show ?thesis
      using UniStream Ends by (cases err) (auto simp: closing_def intro: stays_close)
  qed (simp add: UniStream closing_def stays_same)
next
  case (BidiStream got rest pick)
  then show ?thesis using stream_ends [of ops got rest pick st]
    by (cases "handleStream ops got rest pick st") (auto simp: logging_def stays_same)
next
  case (Datagram data)
  then show ?thesis
    by (auto simp: loop_datagram_def stays_same stays_def dest: with_udp_handed split: option.splits sum.splits if_splits)
qed (auto simp: stays_def loop_starts_def watch_ends_def watch_fires_def)

lemma session_run_simps [simp]:
  "session_run ops export [] st = st"
  "session_run ops export (e # es) st = session_run ops export es (session_step ops export e st)"
  "session_run ops export (es @ es') st = session_run ops export es' (session_run ops export es st)"
  by (simp_all add: session_run_def)

lemma auth_kept:
  assumes "ssAuth st = Some u"
  shows "ssAuth (session_run ops export es st) = Some u"
  using assms
proof (induction es arbitrary: st)
  case (Cons e es)
  then have "ssAuth (session_step ops export e st) = Some u" using step_effect [of st ops export e] by (auto simp: stays_def)
  then show ?case using Cons.IH by simp
qed simp

lemma auth_reached:
  assumes "ssAuth (session_run ops export es (new_session us)) = Some u"
  shows "\<exists>es1 got rest pick es2. es = es1 @ UniStream got rest pick # es2 \<and>
    valid_token (ssUsers (session_run ops export es1 (new_session us))) export (got @ rest) u"
  using assms
proof (induction es rule: rev_induct)
  case (snoc e es)
  let ?st = "session_run ops export es (new_session us)"
  show ?case
  proof (cases "ssAuth ?st")
    case None
    then obtain got rest pick where "e = UniStream got rest pick" "valid_token (ssUsers ?st) export (got @ rest) u"
      using step_effect [of ?st ops export e] snoc.prems by (auto simp: stays_def)
    then show ?thesis by blast
  next
    case (Some v)
    then have "v = u" using snoc.prems auth_kept [OF Some, of ops export "[e]"] by simp
    then show ?thesis using snoc.IH Some by (metis append_Cons append_assoc)
  qed
qed (simp add: new_session_def)

lemma handed_authenticated:
  "(u, h) \<in> set (ssHanded (session_run ops export es (new_session us))) \<Longrightarrow> ssAuth (session_run ops export es (new_session us)) = Some u"
proof (induction es rule: rev_induct)
  case (snoc e es)
  let ?st = "session_run ops export es (new_session us)"
  from step_effect [of ?st ops export e] snoc.prems
  have "(u, h) \<in> set (ssHanded ?st) \<or> ssAuth ?st = Some u" by (auto simp: stays_def)
  then have "ssAuth ?st = Some u" using snoc.IH by blast
  then show ?case using auth_kept [of ?st u ops export "[e]"] by simp
qed (simp add: new_session_def)

text \<open>C24. In every run of a server's connection, whatever the goroutines' order: a stream or a UDP session
  reaches the handler only after some stream has presented the token exported for a known user's
  identifier and current password; it carries that user; and no later event changes the user.\<close>

theorem tuic_auth_gate:
  assumes "(u, h) \<in> set (ssHanded (session_run ops export es (new_session us)))"
  shows "(\<exists>es1 got rest pick es2. es = es1 @ UniStream got rest pick # es2 \<and>
      valid_token (ssUsers (session_run ops export es1 (new_session us))) export (got @ rest) u) \<and>
    (\<forall>later. ssAuth (session_run ops export (es @ later) (new_session us)) = Some u)"
  using auth_reached [OF handed_authenticated [OF assms]] auth_kept [OF handed_authenticated [OF assms]] by simp

definition sample_users :: "nat tuic_users" where
  "sample_users = \<lparr>userMap = [replicate 16 1 \<mapsto> 7], passwordMap = [7 \<mapsto> [112, 119]]\<rparr>"

definition sample_events :: "nat session_event list" where
  "sample_events = [BidiStream [5, 1, 1, 9] [42] True, UniStream ([5, 0] @ replicate 16 1) ([112, 119] @ replicate 30 0) True,
     BidiStream [5, 1, 1, 9] [42] True]"

definition sample_export :: "bytes \<Rightarrow> bytes \<Rightarrow> bytes option" where
  "sample_export uuid password = Some (take 32 (password @ replicate 32 0))"

lemma sample_handed:
  "ssHanded (session_run byte_addresses sample_export sample_events (new_session sample_users)) = [(7, Stream (Some 9) [42])]"
  by code_simp

theorem tuic_auth_gate_witness:
  "ssAuth (session_run byte_addresses sample_export (sample_events @ [HeartbeatSent]) (new_session sample_users)) = Some 7"
proof -
  have "(7, Stream (Some 9) [42]) \<in> set (ssHanded (session_run byte_addresses sample_export sample_events (new_session sample_users)))"
    unfolding sample_handed by simp
  from tuic_auth_gate [OF this] show ?thesis by blast
qed

section \<open>A relay destroyed late\<close>

lemma dissociate_step:
  assumes "ssAuth st = Some u" and "ssDone st = None"
  shows "session_step ops export (UniStream [Version, CommandDissociate] (put_u16 s) pick) st
    = st\<lparr>ssUdp := (ssUdp st)\<lparr>svConns := (svConns (ssUdp st))(s := None)\<rparr>\<rparr>"
  using assms read_put(2) [of s "[]"]
  by (simp add: closing_def handleUniStream_def await_auth_def dissociate_def Version_def CommandDissociate_def CommandAuthenticate_def CommandPacket_def)

lemma opening_datagram:
  assumes "tuic_message_ok ops m" and "tmFragTotal m \<le> 1" and "ssAuth st = Some u" and "ssLoop st = LoopRunning"
    and "svConns (ssUdp st) (tmSession m) = None"
  shows "session_step ops export (Datagram (pack ops m)) st = st\<lparr>
    ssUdp := \<lparr>svConns = (svConns (ssUdp st))(tmSession m \<mapsto> (newUDPPacketConn False True (tmSession m))\<lparr>cQueue := [m]\<rparr>),
      svStarted = svStarted (ssUdp st) @ [(tmSession m, tmDestination m)]\<rparr>,
    ssHanded := ssHanded st @ [(u, Packets (tmSession m) (tmDestination m))]\<rparr>"
proof -
  have "server_handle ops (pack ops m) (ssUdp st) = Inr \<lparr>svConns = (svConns (ssUdp st))(tmSession m \<mapsto>
      (newUDPPacketConn False True (tmSession m))\<lparr>cQueue := [m]\<rparr>), svStarted = svStarted (ssUdp st) @ [(tmSession m, tmDestination m)]\<rparr>"
    using assms(1,2,5) by (simp add: server_handle_def server_input_def pack_start tuic_decode_pack open_session_def Let_def inputPacket_def offer_def)
  then show ?thesis using assms(3,4) by (simp add: loop_datagram_def with_udp_def)
qed

text \<open>C25. A relay that a client dissociated is destroyed by its handler some time later, and the callback
  removes whatever relay the session has by then: when the client has used the session again in the
  meantime, the open relay with the new packets is forgotten, and the next packet of the session
  opens a third one.\<close>

theorem tuic_stale_destroy_forgets_session:
  assumes "tuic_message_ok ops m" and "tmFragTotal m \<le> 1" and "tuic_message_ok ops m'" and "tmFragTotal m' \<le> 1"
    and "tmSession m = s" and "tmSession m' = s"
    and "ssAuth st = Some u" and "ssDone st = None" and "ssLoop st = LoopRunning"
  shows "\<exists>st1 st2. session_run ops export [UniStream [Version, CommandDissociate] (put_u16 s) pick, Datagram (pack ops m)] st = st1 \<and>
    svConns (ssUdp st1) s = Some ((newUDPPacketConn False True s)\<lparr>cQueue := [m]\<rparr>) \<and>
    session_run ops export [RelayDestroyed s, Datagram (pack ops m')] st1 = st2 \<and>
    svConns (ssUdp st2) s = Some ((newUDPPacketConn False True s)\<lparr>cQueue := [m']\<rparr>) \<and>
    ssHanded st2 = ssHanded st @ [(u, Packets s (tmDestination m)), (u, Packets s (tmDestination m'))]"
proof (intro exI conjI, rule refl)
  let ?st0 = "st\<lparr>ssUdp := (ssUdp st)\<lparr>svConns := (svConns (ssUdp st))(s := None)\<rparr>\<rparr>"
  let ?st1 = "session_run ops export [UniStream [Version, CommandDissociate] (put_u16 s) pick, Datagram (pack ops m)] st"
  have st1: "?st1 = ?st0\<lparr>ssUdp := \<lparr>svConns = (svConns (ssUdp ?st0))(s \<mapsto> (newUDPPacketConn False True s)\<lparr>cQueue := [m]\<rparr>),
      svStarted = svStarted (ssUdp ?st0) @ [(s, tmDestination m)]\<rparr>, ssHanded := ssHanded st @ [(u, Packets s (tmDestination m))]\<rparr>"
    using opening_datagram [OF assms(1,2), of ?st0 u export] assms(5,7,9) dissociate_step [OF assms(7,8)] by simp
  then show "svConns (ssUdp ?st1) s = Some ((newUDPPacketConn False True s)\<lparr>cQueue := [m]\<rparr>)" by simp
  let ?st2 = "?st1\<lparr>ssUdp := on_destroy s (ssUdp ?st1)\<rparr>"
  have st2: "ssAuth ?st2 = Some u" "ssLoop ?st2 = LoopRunning" "svConns (ssUdp ?st2) s = None"
      "ssHanded ?st2 = ssHanded st @ [(u, Packets s (tmDestination m))]"
    unfolding st1 using assms(7,9) by (simp_all add: on_destroy_def)
  have run: "session_run ops export [RelayDestroyed s, Datagram (pack ops m')] ?st1 = session_step ops export (Datagram (pack ops m')) ?st2"
    by simp
  show "session_run ops export [RelayDestroyed s, Datagram (pack ops m')] ?st1 = session_step ops export (Datagram (pack ops m')) ?st2"
    by (rule run)
  show "svConns (ssUdp (session_step ops export (Datagram (pack ops m')) ?st2)) s = Some ((newUDPPacketConn False True s)\<lparr>cQueue := [m']\<rparr>)"
    and "ssHanded (session_step ops export (Datagram (pack ops m')) ?st2)
      = ssHanded st @ [(u, Packets s (tmDestination m)), (u, Packets s (tmDestination m'))]"
    using opening_datagram [OF assms(3,4) st2(1,2), of export] st2(3,4) assms(6) by simp_all
qed

definition sample_packet :: "byte \<Rightarrow> byte option udp_message" where
  "sample_packet b = \<lparr>tmSession = 1, tmPacket = 1, tmFragTotal = 1, tmFragID = 0, tmDestination = Some b, tmData = [b]\<rparr>"

definition sample_running :: "(nat, byte option) tuic_session" where
  "sample_running = session_run byte_addresses sample_export
     [UniStream ([5, 0] @ replicate 16 1) ([112, 119] @ replicate 30 0) True, LoopStarts True] (new_session sample_users)"

lemma sample_running_state: "ssAuth sample_running = Some 7 \<and> ssDone sample_running = None \<and> ssLoop sample_running = LoopRunning
    \<and> ssHanded sample_running = []"
  by code_simp

theorem tuic_stale_destroy_forgets_session_witness:
  "ssHanded (session_run byte_addresses sample_export [RelayDestroyed 1, Datagram (pack byte_addresses (sample_packet 9))]
      (session_run byte_addresses sample_export
        [UniStream [Version, CommandDissociate] (put_u16 1) True, Datagram (pack byte_addresses (sample_packet 8))] sample_running))
    = [(7, Packets 1 (Some 8)), (7, Packets 1 (Some 9))]"
proof -
  have ok: "tuic_message_ok byte_addresses (sample_packet b)" "tmFragTotal (sample_packet b) \<le> 1"
    "tmSession (sample_packet b) = 1" "tmDestination (sample_packet b) = Some b" for b
    using byte_addresses_ok by (simp_all add: tuic_message_ok_def sample_packet_def)
  have "ssAuth sample_running = Some 7" "ssDone sample_running = None" "ssLoop sample_running = LoopRunning" "ssHanded sample_running = []"
    using sample_running_state by simp_all
  from tuic_stale_destroy_forgets_session [OF ok(1,2) ok(1,2) ok(3) ok(3) this(1-3)] this(4) ok(4) show ?thesis
    by (metis append_Nil)
qed

end
