(* ===== verification/RingBuffer.thy ===== *)
theory RingBuffer
  imports Prelude
begin

text \<open>
  \<^verbatim>\<open>congestion_meta2/ringbuffer.go\<close>: a queue in a slice whose ends wrap around, and the interface the
  packet queue and the bandwidth sampler use it through. \<open>z\<close> stands for the zero value of the element
  type; a pointer into the ring is the index it was made from.
\<close>

section \<open>The ring\<close>

record 'a ring =
  cells :: "'a list"
  headPos :: nat
  tailPos :: nat
  full :: bool

definition Init :: "'a \<Rightarrow> nat \<Rightarrow> 'a ring" where
  "Init z n = \<lparr>cells = replicate n z, headPos = 0, tailPos = 0, full = False\<rparr>"

definition Len :: "'a ring \<Rightarrow> nat" where
  "Len r = (if full r then length (cells r)
     else if tailPos r \<ge> headPos r then tailPos r - headPos r
     else tailPos r + length (cells r) - headPos r)"

definition Empty :: "'a ring \<Rightarrow> bool" where
  "Empty r \<longleftrightarrow> \<not> full r \<and> headPos r = tailPos r"

definition grow :: "'a \<Rightarrow> 'a ring \<Rightarrow> 'a ring" where
  "grow z r =
     (let oldRing = cells r;
          newSize = (if length oldRing * 2 = 0 then 1 else length oldRing * 2);
          headLen = length oldRing - headPos r in
      \<lparr>cells = copy_at headLen (take (headPos r) oldRing) (copy_at 0 (drop (headPos r) oldRing) (replicate newSize z)),
       headPos = 0, tailPos = length oldRing, full = False\<rparr>)"

definition PushBack :: "'a \<Rightarrow> 'a \<Rightarrow> 'a ring \<Rightarrow> 'a ring" where
  "PushBack z t r =
     (let r = (if full r \<or> length (cells r) = 0 then grow z r else r);
          ring = (cells r)[tailPos r := t];
          tail = (if tailPos r + 1 = length ring then 0 else tailPos r + 1) in
      r\<lparr>cells := ring, tailPos := tail, full := (tail = headPos r \<or> full r)\<rparr>)"

definition PopFront :: "'a \<Rightarrow> 'a ring \<Rightarrow> panic + 'a \<times> 'a ring" where
  "PopFront z r =
     (if Empty r then Inl (Panic ''pop from an empty queue'')
      else Inr (cells r ! headPos r,
        r\<lparr>full := False, cells := (cells r)[headPos r := z],
          headPos := (if headPos r + 1 = length (cells r) then 0 else headPos r + 1)\<rparr>))"

definition Offset :: "nat \<Rightarrow> 'a ring \<Rightarrow> panic + nat" where
  "Offset index r =
     (if Empty r \<or> index \<ge> Len r then Inl (Panic ''offset from invalid index'')
      else Inr ((headPos r + index) mod length (cells r)))"

definition Front :: "'a ring \<Rightarrow> panic + nat" where
  "Front r = (if Empty r then Inl (Panic ''front from an empty queue'') else Inr (headPos r))"

definition Back :: "'a ring \<Rightarrow> panic + nat" where
  "Back r = (if Empty r then Inl (Panic ''back from an empty queue'') else Offset (Len r - 1) r)"

definition ring_Clear :: "'a \<Rightarrow> 'a ring \<Rightarrow> 'a ring" where
  "ring_Clear z r = \<lparr>cells = map (\<lambda>_. z) (cells r), headPos = 0, tailPos = 0, full = False\<rparr>"

section \<open>The queue it stands for\<close>

definition items :: "'a ring \<Rightarrow> 'a list" where
  "items r = map (\<lambda>i. cells r ! ((headPos r + i) mod length (cells r))) [0..<Len r]"

definition ring_ok :: "'a ring \<Rightarrow> bool" where
  "ring_ok r \<longleftrightarrow> (if cells r = [] then headPos r = 0 \<and> tailPos r = 0 \<and> \<not> full r
     else headPos r < length (cells r) \<and> tailPos r < length (cells r) \<and> (full r \<longrightarrow> headPos r = tailPos r))"

lemma length_items [simp]: "length (items r) = Len r"
  by (simp add: items_def)

lemma items_nth: "i < Len r \<Longrightarrow> items r ! i = cells r ! ((headPos r + i) mod length (cells r))"
  by (simp add: items_def)

lemma Len_set_cell [simp]: "Len (r\<lparr>cells := (cells r)[p := x]\<rparr>) = Len r"
  by (simp add: Len_def)

lemma ring_pos: "ring_ok r \<Longrightarrow> cells r \<noteq> [] \<Longrightarrow> headPos r < length (cells r)" "ring_ok r \<Longrightarrow> headPos r \<le> length (cells r)"
  by (auto simp: ring_ok_def split: if_splits)

lemma Len_le: "ring_ok r \<Longrightarrow> Len r \<le> length (cells r)"
  by (auto simp: ring_ok_def Len_def split: if_splits)

lemma Empty_iff: "ring_ok r \<Longrightarrow> Empty r \<longleftrightarrow> items r = []"
  unfolding length_0_conv [symmetric] length_items
  by (auto simp: ring_ok_def Empty_def Len_def split: if_splits)

lemma Init_ok: "ring_ok (Init z n) \<and> items (Init z n) = []"
  by (simp add: ring_ok_def Init_def items_def Len_def)

lemma Clear_ok: "ring_ok (ring_Clear z r) \<and> items (ring_Clear z r) = []"
  by (simp add: ring_ok_def ring_Clear_def items_def Len_def)

text \<open>Where the next element goes.\<close>

lemma tail_at: "ring_ok r \<Longrightarrow> cells r \<noteq> [] \<Longrightarrow> tailPos r = (headPos r + Len r) mod length (cells r)"
  by (auto simp: ring_ok_def Len_def mod_if)

lemma cell_distinct:
  assumes "(h :: nat) < n" and "i < n" and "j < n" and "(h + i) mod n = (h + j) mod n"
  shows "i = j"
  using assms by (auto simp: mod_if split: if_splits)

lemma grow_ok:
  assumes ok: "ring_ok r" and full: "full r \<or> cells r = []"
  shows "ring_ok (grow z r) \<and> items (grow z r) = items r \<and> \<not> full (grow z r) \<and> cells (grow z r) \<noteq> []"
proof -
  let ?n = "length (cells r)" and ?h = "headPos r"
  let ?m = "if ?n * 2 = 0 then 1 else ?n * 2"
  have n: "Len r = ?n" "?h \<le> ?n" using ok full ring_pos(2) by (auto simp: ring_ok_def Len_def)
  have cells: "cells (grow z r) = drop ?h (cells r) @ take ?h (cells r) @ replicate (?m - ?n) z"
    using n(2) by (auto simp: grow_def Let_def copy_at_def take_replicate drop_replicate min_def)
  have len: "length (cells (grow z r)) = ?m" using n(2) by (simp add: cells)
  have pos: "headPos (grow z r) = 0" "tailPos (grow z r) = ?n" "\<not> full (grow z r)" by (simp_all add: grow_def Let_def)
  have "items (grow z r) = items r"
  proof (rule nth_equalityI)
    show "length (items (grow z r)) = length (items r)" using pos n(1) by (simp add: Len_def)
    fix i
    assume "i < length (items (grow z r))"
    then have i: "i < ?n" using pos by (simp add: Len_def)
    then have "items (grow z r) ! i = cells (grow z r) ! i" using pos len by (cases "cells r = []") (auto simp: items_nth Len_def)
    also have "\<dots> = cells r ! ((?h + i) mod ?n)"
      using i n(2) by (auto simp: cells nth_append mod_if less_diff_conv2 add.commute)
    finally show "items (grow z r) ! i = items r ! i" using i n(1) by (simp add: items_nth)
  qed
  moreover have "0 < length (cells (grow z r))" unfolding len by simp
  ultimately show ?thesis using pos len by (auto simp: ring_ok_def)
qed

lemma push_room:
  assumes ok: "ring_ok r" and room: "\<not> full r" "cells r \<noteq> []"
  shows "ring_ok (PushBack z t r) \<and> items (PushBack z t r) = items r @ [t]"
proof -
  let ?n = "length (cells r)" and ?h = "headPos r"
  let ?tail = "if tailPos r + 1 = ?n then 0 else tailPos r + 1"
  have eq: "PushBack z t r = r\<lparr>cells := (cells r)[tailPos r := t], tailPos := ?tail, full := (?tail = ?h)\<rparr>"
    using room by (simp add: PushBack_def Let_def)
  have pos: "?h < ?n" "tailPos r < ?n" using ok room(2) by (auto simp: ring_ok_def)
  have less: "Len r < ?n" using pos room by (auto simp: Len_def)
  have len: "Len (PushBack z t r) = Suc (Len r)" using pos room by (auto simp: eq Len_def)
  have fields: "cells (PushBack z t r) = (cells r)[tailPos r := t]" "headPos (PushBack z t r) = ?h" by (simp_all add: eq)
  have "items (PushBack z t r) = items r @ [t]"
  proof (rule nth_equalityI)
    show "length (items (PushBack z t r)) = length (items r @ [t])" by (simp add: len)
    fix i
    assume "i < length (items (PushBack z t r))"
    then have i: "i < Suc (Len r)" by (simp add: len)
    then have at: "items (PushBack z t r) ! i = (cells r)[tailPos r := t] ! ((?h + i) mod ?n)" by (simp add: items_nth len fields)
    show "items (PushBack z t r) ! i = (items r @ [t]) ! i"
    proof (cases "i = Len r")
      case True
      then show ?thesis using at tail_at [OF ok room(2)] pos(2) by (simp add: nth_append)
    next
      case False
      then have i': "i < Len r" using i by simp
      have "(?h + i) mod ?n \<noteq> tailPos r"
        using tail_at [OF ok room(2)] cell_distinct [OF pos(1), of i "Len r"] i' less by auto
      then show ?thesis using at i' by (simp add: nth_append items_nth)
    qed
  qed
  moreover have "ring_ok (PushBack z t r)" using pos by (auto simp: eq ring_ok_def)
  ultimately show ?thesis by blast
qed

lemma PushBack_ok:
  assumes "ring_ok r"
  shows "ring_ok (PushBack z t r) \<and> items (PushBack z t r) = items r @ [t]"
proof (cases "full r \<or> cells r = []")
  case True
  from grow_ok [OF assms True, of z] have g: "ring_ok (grow z r)" "items (grow z r) = items r" "\<not> full (grow z r)" "cells (grow z r) \<noteq> []"
    by simp_all
  have "PushBack z t r = PushBack z t (grow z r)" using True g(3,4) by (auto simp: PushBack_def Let_def)
  then show ?thesis using push_room [OF g(1,3,4)] g(2) by simp
next
  case False
  then show ?thesis using push_room [OF assms] by blast
qed

lemma PopFront_ok:
  assumes ok: "ring_ok r" and ne: "items r \<noteq> []"
  shows "\<exists>r'. PopFront z r = Inr (hd (items r), r') \<and> ring_ok r' \<and> items r' = tl (items r)"
proof -
  let ?n = "length (cells r)" and ?h = "headPos r"
  have nonempty: "\<not> Empty r" "0 < Len r" using Empty_iff [OF ok] ne by (simp_all flip: length_items)
  then have "cells r \<noteq> []" using Len_le [OF ok] by auto
  then have pos: "?h < ?n" "tailPos r < ?n" "full r \<Longrightarrow> ?h = tailPos r" using ok by (auto simp: ring_ok_def)
  define h' where "h' = (if ?h + 1 = ?n then 0 else ?h + 1)"
  let ?r = "r\<lparr>full := False, cells := (cells r)[?h := z], headPos := h'\<rparr>"
  have head: "cells r ! ?h = hd (items r)" using nonempty(2) pos(1) by (simp add: hd_conv_nth items_nth flip: length_greater_0_conv)
  have len: "Len ?r = Len r - 1"
    by (cases "?h + 1 = ?n") (use pos nonempty in \<open>auto simp: Len_def Empty_def h'_def\<close>)
  have fields: "cells ?r = (cells r)[?h := z]" by simp
  have "items ?r = tl (items r)"
  proof (rule nth_equalityI)
    show "length (items ?r) = length (tl (items r))" by (simp add: len)
    fix i
    assume "i < length (items ?r)"
    then have i: "i < Len r - 1" by (simp add: len)
    have shift: "(headPos ?r + i) mod ?n = (?h + Suc i) mod ?n"
      using mod_add_self1 [of "?h + 1" i] by (cases "?h + 1 = ?n") (auto simp: h'_def)
    have "(?h + Suc i) mod ?n \<noteq> ?h"
    proof -
      have "Suc i < ?n" "0 < ?n" using i Len_le [OF ok] pos(1) by linarith+
      then show ?thesis using cell_distinct [OF pos(1), of "Suc i" 0] pos(1) by auto
    qed
    then have "items ?r ! i = cells r ! ((?h + Suc i) mod ?n)" using i len shift by (simp add: items_nth)
    then show "items ?r ! i = tl (items r) ! i" using i by (simp add: nth_tl items_nth)
  qed
  moreover have "ring_ok ?r" using pos by (auto simp: ring_ok_def h'_def)
  ultimately show ?thesis using head nonempty(1) by (simp add: PopFront_def h'_def)
qed

lemma Offset_ok:
  assumes ok: "ring_ok r" and i: "i < length (items r)"
  shows "\<exists>p. Offset i r = Inr p \<and> cells r ! p = items r ! i \<and>
    (\<forall>x. ring_ok (r\<lparr>cells := (cells r)[p := x]\<rparr>) \<and> items (r\<lparr>cells := (cells r)[p := x]\<rparr>) = (items r)[i := x])"
proof -
  let ?n = "length (cells r)" and ?h = "headPos r"
  let ?p = "(?h + i) mod ?n"
  have "items r \<noteq> []" using i by fastforce
  then have "\<not> Empty r" using Empty_iff [OF ok] by simp
  moreover have "cells r \<noteq> []" using Len_le [OF ok] i by auto
  then have pos: "?h < ?n" using ok by (auto simp: ring_ok_def)
  have p: "?p < ?n" by (intro mod_less_divisor) (use pos in linarith)
  have "items (r\<lparr>cells := (cells r)[?p := x]\<rparr>) = (items r)[i := x]" for x
  proof (rule nth_equalityI)
    show "length (items (r\<lparr>cells := (cells r)[?p := x]\<rparr>)) = length ((items r)[i := x])" by simp
    fix j
    assume "j < length (items (r\<lparr>cells := (cells r)[?p := x]\<rparr>))"
    then have j: "j < Len r" by simp
    have "(?h + j) mod ?n = ?p \<longleftrightarrow> j = i" using cell_distinct [OF pos, of j i] i j Len_le [OF ok] by auto
    then show "items (r\<lparr>cells := (cells r)[?p := x]\<rparr>) ! j = (items r)[i := x] ! j"
      using j i p by (auto simp: items_nth nth_list_update)
  qed
  moreover have "ring_ok (r\<lparr>cells := (cells r)[?p := x]\<rparr>)" for x using ok by (auto simp: ring_ok_def)
  ultimately show ?thesis using i by (simp add: Offset_def items_nth)
qed

lemma Front_ok: "ring_ok r \<Longrightarrow> items r \<noteq> [] \<Longrightarrow> \<exists>p. Front r = Inr p \<and> cells r ! p = hd (items r)"
proof -
  assume ok: "ring_ok r" and ne: "items r \<noteq> []"
  then have "0 < Len r" by (simp flip: length_items)
  moreover have "headPos r < length (cells r)" using ring_pos(1) [OF ok] Len_le [OF ok] \<open>0 < Len r\<close> by (cases "cells r = []") simp_all
  ultimately show ?thesis using Empty_iff [OF ok] ne by (simp add: Front_def hd_conv_nth items_nth)
qed

lemma Back_ok: "ring_ok r \<Longrightarrow> items r \<noteq> [] \<Longrightarrow> \<exists>p. Back r = Inr p \<and> cells r ! p = last (items r)"
  using Offset_ok [of r "Len r - 1"] Empty_iff [of r]
  by (auto simp: Back_def last_conv_nth simp flip: length_items)

end
