(* ===== verification/PacketQueue.thy ===== *)
theory PacketQueue
  imports RingBuffer
begin

text \<open>
  \<^verbatim>\<open>congestion_meta2/packet_number_indexed_queue.go\<close>: entries indexed by packet numbers that mostly
  follow one another, in a ring that starts at the lowest number present. Packet numbers are
  integers; QUIC keeps them below 2^62, so their 64-bit sums do not wrap. The loops over the front of
  the ring get as many rounds as the ring has slots: every round but the last takes one out.
\<close>

section \<open>The queue\<close>

definition invalidPacketNumber :: int where [cfg_defs]: "invalidPacketNumber = -1"

record 'e entryWrapper =
  wPresent :: bool
  wEntry :: 'e

record 'e packet_queue =
  slots :: "'e entryWrapper ring"
  numberOfPresentEntries :: nat
  firstPacket :: int

definition absent :: "'e \<Rightarrow> 'e entryWrapper" where
  "absent z = \<lparr>wPresent = False, wEntry = z\<rparr>"

definition newPacketNumberIndexedQueue :: "'e \<Rightarrow> nat \<Rightarrow> 'e packet_queue" where
  "newPacketNumberIndexedQueue z n = \<lparr>slots = Init (absent z) n, numberOfPresentEntries = 0, firstPacket = invalidPacketNumber\<rparr>"

definition IsEmpty :: "'e packet_queue \<Rightarrow> bool" where
  "IsEmpty q \<longleftrightarrow> numberOfPresentEntries q = 0"

definition NumberOfPresentEntries :: "'e packet_queue \<Rightarrow> nat" where
  "NumberOfPresentEntries q = numberOfPresentEntries q"

definition EntrySlotsUsed :: "'e packet_queue \<Rightarrow> nat" where
  "EntrySlotsUsed q = Len (slots q)"

definition FirstPacket :: "'e packet_queue \<Rightarrow> int" where
  "FirstPacket q = firstPacket q"

definition LastPacket :: "'e packet_queue \<Rightarrow> int" where
  "LastPacket q = (if IsEmpty q then invalidPacketNumber else firstPacket q + int (Len (slots q)) - 1)"

primrec fill_gap :: "nat \<Rightarrow> 'e \<Rightarrow> 'e entryWrapper ring \<Rightarrow> 'e entryWrapper ring" where
  "fill_gap 0 z r = r"
| "fill_gap (Suc n) z r = fill_gap n z (PushBack (absent z) (absent z) r)"

text \<open>\<open>e\<close> is the pointer to the entry, which may be nil.\<close>

definition Emplace :: "'e \<Rightarrow> int \<Rightarrow> 'e option \<Rightarrow> 'e packet_queue \<Rightarrow> bool \<times> 'e packet_queue" where
  "Emplace z packetNumber e q = (case e of None \<Rightarrow> (False, q) | Some x \<Rightarrow>
     if packetNumber = invalidPacketNumber then (False, q)
     else
       let w = \<lparr>wPresent = True, wEntry = x\<rparr> in
       if IsEmpty q then
         (True, q\<lparr>slots := PushBack (absent z) w (slots q), numberOfPresentEntries := 1, firstPacket := packetNumber\<rparr>)
       else if packetNumber \<le> LastPacket q then (False, q)
       else
         let offset = packetNumber - FirstPacket q; gap = offset - int (Len (slots q));
             r = (if gap > 0 then fill_gap (nat gap) z (slots q) else slots q) in
         (True, q\<lparr>slots := PushBack (absent z) w r, numberOfPresentEntries := numberOfPresentEntries q + 1\<rparr>))"

definition getEntryWraper :: "int \<Rightarrow> 'e packet_queue \<Rightarrow> panic + nat option" where
  "getEntryWraper packetNumber q =
     (if packetNumber = invalidPacketNumber \<or> IsEmpty q \<or> packetNumber < firstPacket q then Inr None
      else if packetNumber - firstPacket q \<ge> int (Len (slots q)) then Inr None
      else and_then (Offset (nat (packetNumber - firstPacket q)) (slots q)) (\<lambda>p.
        Inr (if wPresent (cells (slots q) ! p) then Some p else None)))"

definition GetEntry :: "int \<Rightarrow> 'e packet_queue \<Rightarrow> panic + 'e option" where
  "GetEntry packetNumber q =
     and_then (getEntryWraper packetNumber q) (\<lambda>ew. Inr (map_option (\<lambda>p. wEntry (cells (slots q) ! p)) ew))"

primrec clear_loop :: "nat \<Rightarrow> 'e \<Rightarrow> 'e packet_queue \<Rightarrow> panic + 'e packet_queue" where
  "clear_loop 0 z q = Inr q"
| "clear_loop (Suc n) z q =
     (if Empty (slots q) then Inr q
      else and_then (Front (slots q)) (\<lambda>p.
        if wPresent (cells (slots q) ! p) then Inr q
        else and_then (PopFront (absent z) (slots q)) (\<lambda>(_, r).
          clear_loop n z (q\<lparr>slots := r, firstPacket := firstPacket q + 1\<rparr>))))"

definition clearup :: "'e \<Rightarrow> 'e packet_queue \<Rightarrow> panic + 'e packet_queue" where
  "clearup z q =
     and_then (clear_loop (Len (slots q)) z q) (\<lambda>q.
     Inr (if Empty (slots q) then q\<lparr>firstPacket := invalidPacketNumber\<rparr> else q))"

text \<open>The entry that was removed is the one the callback gets.\<close>

definition Remove :: "'e \<Rightarrow> int \<Rightarrow> 'e packet_queue \<Rightarrow> panic + 'e option \<times> 'e packet_queue" where
  "Remove z packetNumber q =
     and_then (getEntryWraper packetNumber q) (\<lambda>ew. case ew of
       None \<Rightarrow> Inr (None, q)
     | Some p \<Rightarrow>
         let w = cells (slots q) ! p;
             q' = q\<lparr>slots := (slots q)\<lparr>cells := (cells (slots q))[p := w\<lparr>wPresent := False\<rparr>]\<rparr>,
               numberOfPresentEntries := numberOfPresentEntries q - 1\<rparr> in
         if packetNumber = FirstPacket q' then and_then (clearup z q') (\<lambda>q''. Inr (Some (wEntry w), q''))
         else Inr (Some (wEntry w), q'))"

primrec upto_loop :: "nat \<Rightarrow> 'e \<Rightarrow> int \<Rightarrow> 'e packet_queue \<Rightarrow> panic + 'e packet_queue" where
  "upto_loop 0 z packetNumber q = Inr q"
| "upto_loop (Suc n) z packetNumber q =
     (if Empty (slots q) \<or> firstPacket q = invalidPacketNumber \<or> \<not> firstPacket q < packetNumber then Inr q
      else and_then (Front (slots q)) (\<lambda>p.
        let count = (if wPresent (cells (slots q) ! p) then numberOfPresentEntries q - 1 else numberOfPresentEntries q) in
        and_then (PopFront (absent z) (slots q)) (\<lambda>(_, r).
          upto_loop n z packetNumber (q\<lparr>slots := r, numberOfPresentEntries := count, firstPacket := firstPacket q + 1\<rparr>))))"

definition RemoveUpTo :: "'e \<Rightarrow> int \<Rightarrow> 'e packet_queue \<Rightarrow> panic + 'e packet_queue" where
  "RemoveUpTo z packetNumber q = and_then (upto_loop (Len (slots q)) z packetNumber q) (clearup z)"

section \<open>The map it stands for\<close>

fun slots_map :: "int \<Rightarrow> 'e entryWrapper list \<Rightarrow> int \<rightharpoonup> 'e" where
  "slots_map f [] = Map.empty"
| "slots_map f (w # ws) = (if wPresent w then (slots_map (f + 1) ws)(f \<mapsto> wEntry w) else slots_map (f + 1) ws)"

definition view :: "'e packet_queue \<Rightarrow> int \<rightharpoonup> 'e" where
  "view q = slots_map (firstPacket q) (items (slots q))"

definition queue_ok :: "'e packet_queue \<Rightarrow> bool" where
  "queue_ok q \<longleftrightarrow> ring_ok (slots q) \<and> numberOfPresentEntries q = length (filter wPresent (items (slots q))) \<and>
     (if items (slots q) = [] then firstPacket q = -1 else wPresent (hd (items (slots q))) \<and> 0 \<le> firstPacket q)"

lemma slots_map_below: "pn < f \<Longrightarrow> slots_map f ws pn = None"
  by (induction f ws rule: slots_map.induct) auto

lemma slots_map_nth:
  "slots_map f ws pn = (if f \<le> pn \<and> nat (pn - f) < length ws \<and> wPresent (ws ! nat (pn - f)) then Some (wEntry (ws ! nat (pn - f))) else None)"
proof (induction f ws rule: slots_map.induct)
  case (2 f w ws)
  show ?case
  proof (cases "f < pn")
    case True
    then have "nat (pn - f) = Suc (nat (pn - (f + 1)))" by simp
    then show ?thesis using 2 True by auto
  next
    case False
    then show ?thesis using slots_map_below [of pn "f + 1" ws] by auto
  qed
qed simp

lemma slots_map_append:
  "slots_map f (ws @ [w]) = (if wPresent w then (slots_map f ws)(f + int (length ws) \<mapsto> wEntry w) else slots_map f ws)"
proof (induction ws arbitrary: f)
  case (Cons v ws)
  have "f + 1 + int (length ws) = f + int (length (v # ws))" by simp
  moreover have "f \<noteq> f + int (length (v # ws))" by simp
  ultimately show ?case using Cons [of "f + 1"] by (simp add: fun_upd_twist add.assoc del: fun_upd_apply)
qed simp

lemma dom_slots: "dom (slots_map f ws) \<subseteq> {f..<f + int (length ws)}"
proof
  fix pn
  assume "pn \<in> dom (slots_map f ws)"
  then have "f \<le> pn" "nat (pn - f) < length ws" using slots_map_nth [of f ws pn] by (auto split: if_splits)
  then show "pn \<in> {f..<f + int (length ws)}" by simp
qed

lemma finite_dom_slots: "finite (dom (slots_map f ws))"
  by (rule finite_subset [OF dom_slots]) simp

lemma card_dom_slots: "card (dom (slots_map f ws)) = length (filter wPresent ws)"
proof (induction f ws rule: slots_map.induct)
  case (2 f w ws)
  have "f \<notin> dom (slots_map (f + 1) ws)" by (simp add: slots_map_below domIff)
  then show ?case using 2 finite_dom_slots [of "f + 1" ws] by (simp del: fun_upd_apply)
qed simp

lemma slots_map_delete:
  assumes "i < length ws"
  shows "slots_map f (ws[i := (ws ! i)\<lparr>wPresent := False\<rparr>]) = (slots_map f ws)(f + int i := None)"
proof
  fix pn
  show "slots_map f (ws[i := (ws ! i)\<lparr>wPresent := False\<rparr>]) pn = ((slots_map f ws)(f + int i := None)) pn"
    using assms by (cases "pn = f + int i") (auto simp: slots_map_nth nth_list_update)
qed

text \<open>The loops over the front of the ring, on its elements.\<close>

lemma slots_map_dropWhile:
  "slots_map (f + int (length (takeWhile (\<lambda>w. \<not> wPresent w) ws))) (dropWhile (\<lambda>w. \<not> wPresent w) ws) = slots_map f ws"
  by (induction ws arbitrary: f) (auto simp: add.assoc [symmetric])

lemma filter_dropWhile: "filter wPresent (dropWhile (\<lambda>w. \<not> wPresent w) ws) = filter wPresent ws"
  by (induction ws) auto

lemma clear_loop_ok:
  assumes "ring_ok (slots q)" and "length (items (slots q)) \<le> n"
  shows "\<exists>r. clear_loop n z q = Inr (q\<lparr>slots := r, firstPacket := firstPacket q +
      int (length (takeWhile (\<lambda>w. \<not> wPresent w) (items (slots q))))\<rparr>) \<and>
    ring_ok r \<and> items r = dropWhile (\<lambda>w. \<not> wPresent w) (items (slots q))"
  using assms
proof (induction n arbitrary: q)
  case 0
  then have "items (slots q) = []" by (simp only: le_zero_eq length_0_conv)
  then show ?case using 0 by (intro exI [of _ "slots q"]) simp
next
  case (Suc n)
  show ?case
  proof (cases "items (slots q)")
    case Nil
    then show ?thesis using Suc.prems Empty_iff [of "slots q"] by (intro exI [of _ "slots q"]) simp
  next
    case (Cons w ws)
    obtain p where p: "Front (slots q) = Inr p" "cells (slots q) ! p = w" using Front_ok [OF Suc.prems(1)] Cons by auto
    show ?thesis
    proof (cases "wPresent w")
      case True
      then show ?thesis using Suc.prems Cons p by (intro exI [of _ "slots q"]) simp
    next
      case False
      obtain r where r: "PopFront (absent z) (slots q) = Inr (w, r)" "ring_ok r" "items r = ws"
        using PopFront_ok [OF Suc.prems(1), of "absent z"] Cons by auto
      have "\<not> Empty (slots q)" using Empty_iff [OF Suc.prems(1)] Cons by simp
      then show ?thesis using Suc.IH [of "q\<lparr>slots := r, firstPacket := firstPacket q + 1\<rparr>"] Suc.prems(2) r p False Cons
        by (simp add: add.assoc)
    qed
  qed
qed

lemma count_delete:
  "i < length ws \<Longrightarrow> wPresent (ws ! i) \<Longrightarrow>
    length (filter wPresent (ws[i := (ws ! i)\<lparr>wPresent := False\<rparr>])) = length (filter wPresent ws) - 1"
proof (induction ws arbitrary: i)
  case (Cons w ws)
  show ?case
  proof (cases i)
    case (Suc j)
    have "filter wPresent ws \<noteq> []" using Cons.prems Suc by (auto simp: filter_empty_conv)
    then show ?thesis using Cons Suc by (cases "filter wPresent ws") auto
  qed (use Cons in simp)
qed simp

lemma clearup_ok:
  assumes "ring_ok (slots q)" and "numberOfPresentEntries q = length (filter wPresent (items (slots q)))" 
    and "items (slots q) \<noteq> [] \<longrightarrow> 0 \<le> firstPacket q"
  shows "\<exists>q'. clearup z q = Inr q' \<and> queue_ok q' \<and> view q' = view q \<and>
    (numberOfPresentEntries q' \<noteq> 0 \<longrightarrow> firstPacket q' + int (Len (slots q')) = firstPacket q + int (Len (slots q)))"
proof -
  let ?gone = "takeWhile (\<lambda>w. \<not> wPresent w) (items (slots q))" and ?left = "dropWhile (\<lambda>w. \<not> wPresent w) (items (slots q))"
  obtain r where r: "clear_loop (Len (slots q)) z q = Inr (q\<lparr>slots := r, firstPacket := firstPacket q + int (length ?gone)\<rparr>)"
      "ring_ok r" "items r = ?left"
    using clear_loop_ok [OF assms(1), of "Len (slots q)"] by auto
  have split: "length ?gone + length ?left = Len (slots q)"
    unfolding length_append [symmetric] takeWhile_dropWhile_id by simp
  have len: "Len r = length ?left" using r(3) length_items [of r] by simp
  show ?thesis
  proof (cases "?left = []")
    case True
    have none: "filter wPresent (items (slots q)) = []" using True filter_dropWhile [of "items (slots q)"] by simp
    have "view q = Map.empty" using slots_map_dropWhile [of "firstPacket q" "items (slots q)"] True by (simp add: view_def)
    moreover have "Empty r" using Empty_iff [OF r(2)] r(3) True by simp
    ultimately show ?thesis using r True assms(2) none by (simp add: clearup_def queue_ok_def view_def invalidPacketNumber_def)
  next
    case False
    then have "wPresent (hd ?left)" using hd_dropWhile [of "\<lambda>w. \<not> wPresent w"] by (metis dropWhile_eq_Nil_conv)
    moreover have "\<not> Empty r" using Empty_iff [OF r(2)] r(3) False by simp
    moreover have "items (slots q) \<noteq> []" using False by auto
    ultimately show ?thesis
      using r False assms len split slots_map_dropWhile [of "firstPacket q" "items (slots q)"] filter_dropWhile [of "items (slots q)"]
      by (auto simp: clearup_def queue_ok_def view_def)
  qed
qed

lemma upto_loop_ok:
  assumes "ring_ok (slots q)" and "length (items (slots q)) \<le> n" and "0 \<le> firstPacket q \<or> items (slots q) = []"
    and "numberOfPresentEntries q = length (filter wPresent (items (slots q)))"
  shows "\<exists>q'. upto_loop n z pn q = Inr q' \<and> ring_ok (slots q') \<and> view q' = view q |` {pn..} \<and>
    numberOfPresentEntries q' = length (filter wPresent (items (slots q'))) \<and> (items (slots q') \<noteq> [] \<longrightarrow> 0 \<le> firstPacket q') \<and>
    (items (slots q') \<noteq> [] \<longrightarrow> firstPacket q' + int (Len (slots q')) = firstPacket q + int (Len (slots q)))"
  using assms
proof (induction n arbitrary: q)
  case 0
  then have "items (slots q) = []" by (simp only: le_zero_eq length_0_conv)
  then show ?case using 0 by (simp add: view_def)
next
  case (Suc n)
  show ?case
  proof (cases "items (slots q) \<noteq> [] \<and> firstPacket q < pn")
    case stop: False
    have "view q = view q |` {pn..}"
    proof (cases "items (slots q) = []")
      case False
      with stop have "pn \<le> firstPacket q" by simp
      then show ?thesis by (auto simp: fun_eq_iff view_def restrict_map_def slots_map_below)
    qed (simp add: view_def)
    then show ?thesis using Suc.prems stop Empty_iff [OF Suc.prems(1)] by (auto simp: invalidPacketNumber_def)
  next
    case True
    then obtain w ws where Cons: "items (slots q) = w # ws" by (cases "items (slots q)") auto
    obtain p where p: "Front (slots q) = Inr p" "cells (slots q) ! p = w" using Front_ok [OF Suc.prems(1)] Cons by auto
    obtain r where r: "PopFront (absent z) (slots q) = Inr (w, r)" "ring_ok r" "items r = ws"
      using PopFront_ok [OF Suc.prems(1), of "absent z"] Cons by auto
    let ?count = "if wPresent w then numberOfPresentEntries q - 1 else numberOfPresentEntries q"
    let ?q = "q\<lparr>slots := r, numberOfPresentEntries := ?count, firstPacket := firstPacket q + 1\<rparr>"
    have len: "Len (slots q) = Suc (length ws)" "Len r = length ws" using Cons r(3) length_items [of "slots q"] length_items [of r] by simp_all
    have "\<not> Empty (slots q)" using Empty_iff [OF Suc.prems(1)] Cons by simp
    then have step: "upto_loop (Suc n) z pn q = upto_loop n z pn ?q"
      using p r(1) True Suc.prems(3) Cons by (simp add: Let_def invalidPacketNumber_def)
    have view: "view ?q |` {pn..} = view q |` {pn..}"
      using True r(3) Cons by (auto simp: view_def fun_eq_iff restrict_map_def)
    have "\<exists>q'. upto_loop n z pn ?q = Inr q' \<and> ring_ok (slots q') \<and> view q' = view ?q |` {pn..} \<and>
        numberOfPresentEntries q' = length (filter wPresent (items (slots q'))) \<and> (items (slots q') \<noteq> [] \<longrightarrow> 0 \<le> firstPacket q') \<and>
        (items (slots q') \<noteq> [] \<longrightarrow> firstPacket q' + int (Len (slots q')) = firstPacket ?q + int (Len (slots ?q)))"
      by (rule Suc.IH) (use Suc.prems Cons r(2,3) in auto)
    then show ?thesis unfolding step view using len by (simp add: add.assoc)
  qed
qed

end
