(* ===== verification/PacketMap.thy ===== *)
theory PacketMap
  imports PacketQueue
begin

text \<open>
  What the packet queue promises its users: it is a finite map from packet numbers that only grows at
  its upper end. The promise is an interface, \<open>indexed_map\<close>; a run of operations on anything that keeps
  it gives the answers of the map.
\<close>

section \<open>The interface\<close>

datatype 'e qop = Put int 'e | Get int | Del int | Cut int

datatype 'e answer = Stored bool | Found "'e option" | Gone "'e option" | Trimmed

fun run_ops :: "('o \<Rightarrow> 'q \<Rightarrow> panic + 'a \<times> 'q) \<Rightarrow> 'o list \<Rightarrow> 'q \<Rightarrow> panic + 'a list \<times> 'q" where
  "run_ops f [] q = Inr ([], q)"
| "run_ops f (x # xs) q = and_then (f x q) (\<lambda>(a, q). and_then (run_ops f xs q) (\<lambda>(as, q). Inr (a # as, q)))"

text \<open>The map, and the highest number stored since it was last empty.\<close>

fun map_op :: "'e qop \<Rightarrow> (int \<rightharpoonup> 'e) \<times> int \<Rightarrow> panic + 'e answer \<times> (int \<rightharpoonup> 'e) \<times> int" where
  "map_op (Put pn x) (M, l) =
     (if pn \<noteq> -1 \<and> (M = Map.empty \<or> l < pn) then Inr (Stored True, M(pn \<mapsto> x), pn) else Inr (Stored False, M, l))"
| "map_op (Get pn) (M, l) = Inr (Found (M pn), M, l)"
| "map_op (Del pn) (M, l) = Inr (Gone (M pn), M(pn := None), l)"
| "map_op (Cut pn) (M, l) = Inr (Trimmed, M |` {pn..}, l)"

definition numbered :: "'e qop \<Rightarrow> bool" where
  "numbered x \<longleftrightarrow> (case x of Put pn _ \<Rightarrow> -1 \<le> pn | _ \<Rightarrow> True)"

locale indexed_map =
  fixes ok :: "'q \<Rightarrow> bool"
    and view :: "'q \<Rightarrow> int \<rightharpoonup> 'e"
    and last :: "'q \<Rightarrow> int"
    and put :: "int \<Rightarrow> 'e \<Rightarrow> 'q \<Rightarrow> bool \<times> 'q"
    and get :: "int \<Rightarrow> 'q \<Rightarrow> panic + 'e option"
    and del :: "int \<Rightarrow> 'q \<Rightarrow> panic + 'e option \<times> 'q"
    and cut :: "int \<Rightarrow> 'q \<Rightarrow> panic + 'q"
  assumes put_refused: "ok q \<Longrightarrow> pn = -1 \<or> view q \<noteq> Map.empty \<and> pn \<le> last q \<Longrightarrow> put pn x q = (False, q)"
    and put_stored: "ok q \<Longrightarrow> 0 \<le> pn \<Longrightarrow> view q = Map.empty \<or> last q < pn \<Longrightarrow>
      \<exists>q'. put pn x q = (True, q') \<and> ok q' \<and> view q' = (view q)(pn \<mapsto> x) \<and> last q' = pn"
    and get_view: "ok q \<Longrightarrow> get pn q = Inr (view q pn)"
    and del_view: "ok q \<Longrightarrow> \<exists>q'. del pn q = Inr (view q pn, q') \<and> ok q' \<and> view q' = (view q)(pn := None) \<and>
      (view q' \<noteq> Map.empty \<longrightarrow> last q' = last q)"
    and cut_view: "ok q \<Longrightarrow> \<exists>q'. cut pn q = Inr q' \<and> ok q' \<and> view q' = view q |` {pn..} \<and>
      (view q' \<noteq> Map.empty \<longrightarrow> last q' = last q)"
begin

fun queue_op :: "'e qop \<Rightarrow> 'q \<Rightarrow> panic + 'e answer \<times> 'q" where
  "queue_op (Put pn x) q = (case put pn x q of (b, q') \<Rightarrow> Inr (Stored b, q'))"
| "queue_op (Get pn) q = and_then (get pn q) (\<lambda>e. Inr (Found e, q))"
| "queue_op (Del pn) q = and_then (del pn q) (\<lambda>(e, q). Inr (Gone e, q))"
| "queue_op (Cut pn) q = and_then (cut pn q) (\<lambda>q. Inr (Trimmed, q))"

definition same :: "'q \<Rightarrow> (int \<rightharpoonup> 'e) \<times> int \<Rightarrow> bool" where
  "same q S \<longleftrightarrow> ok q \<and> fst S = view q \<and> (view q \<noteq> Map.empty \<longrightarrow> snd S = last q)"

lemma op_refines:
  assumes "same q S" and "numbered x"
  shows "\<exists>a q' S'. queue_op x q = Inr (a, q') \<and> map_op x S = Inr (a, S') \<and> same q' S'"
proof -
  obtain M l where S: "S = (M, l)" by fastforce
  then have q: "ok q" "M = view q" "view q \<noteq> Map.empty \<longrightarrow> l = last q" using assms(1) by (auto simp: same_def)
  show ?thesis
  proof (cases x)
    case (Put pn e)
    show ?thesis
    proof (cases "pn = -1 \<or> view q \<noteq> Map.empty \<and> pn \<le> last q")
      case True
      then show ?thesis using Put S q put_refused [OF q(1) True] by (auto simp: same_def)
    next
      case False
      then have "0 \<le> pn" "view q = Map.empty \<or> last q < pn" using assms(2) Put by (auto simp: numbered_def)
      from put_stored [OF q(1) this, of e] obtain q' where
        "put pn e q = (True, q')" "ok q'" "view q' = (view q)(pn \<mapsto> e)" "last q' = pn" by blast
      then show ?thesis using Put S q False by (auto simp: same_def)
    qed
  next
    case (Del pn)
    then show ?thesis using del_view [OF q(1), of pn] S q by (auto simp: same_def)
  next
    case (Cut pn)
    then show ?thesis using cut_view [OF q(1), of pn] S q by (auto simp: same_def)
  qed (use S q get_view [OF q(1)] assms(1) in auto)
qed

lemma run_refines:
  assumes "same q S" and "list_all numbered xs"
  shows "\<exists>as q' S'. run_ops queue_op xs q = Inr (as, q') \<and> run_ops map_op xs S = Inr (as, S') \<and> same q' S'"
  using assms
proof (induction xs arbitrary: q S)
  case (Cons x xs)
  from op_refines [OF Cons.prems(1), of x] Cons.prems(2) obtain a q1 S1 where
    1: "queue_op x q = Inr (a, q1)" "map_op x S = Inr (a, S1)" "same q1 S1" by auto
  from Cons.IH [OF 1(3)] Cons.prems(2) obtain as q' S' where
    "run_ops queue_op xs q1 = Inr (as, q')" "run_ops map_op xs S1 = Inr (as, S')" "same q' S'" by auto
  then show ?case using 1 by simp
qed simp

end

section \<open>The packet queue keeps it\<close>

lemma queue_empty: "queue_ok q \<Longrightarrow> IsEmpty q \<longleftrightarrow> items (slots q) = []"
  by (cases "items (slots q)") (auto simp: queue_ok_def IsEmpty_def)

lemma view_empty: "queue_ok q \<Longrightarrow> view q = Map.empty \<longleftrightarrow> items (slots q) = []"
  by (cases "items (slots q)") (auto simp: queue_ok_def view_def)

lemma fill_gap_ok:
  assumes "ring_ok r"
  shows "ring_ok (fill_gap n z r) \<and> items (fill_gap n z r) = items r @ replicate n (absent z)"
  using assms by (induction n arbitrary: r) (simp_all add: PushBack_ok flip: replicate_append_same)

lemma absent_simps [simp]: "\<not> wPresent (absent z)"
  by (simp add: absent_def)

lemma slots_map_absent: "slots_map f (ws @ replicate n (absent z)) = slots_map f ws"
proof (induction n)
  case (Suc n)
  have "ws @ replicate (Suc n) (absent z) = (ws @ replicate n (absent z)) @ [absent z]" by (simp add: replicate_append_same)
  then show ?case using Suc by (simp only: slots_map_append absent_simps if_False)
qed simp

lemma emplace_refused:
  assumes "queue_ok q" and "pn = -1 \<or> view q \<noteq> Map.empty \<and> pn \<le> LastPacket q"
  shows "Emplace z pn (Some x) q = (False, q)"
  using assms view_empty [OF assms(1)] queue_empty [OF assms(1)]
  by (auto simp: Emplace_def invalidPacketNumber_def)

lemma emplace_stored:
  assumes ok: "queue_ok q" and pn: "0 \<le> pn" and room: "view q = Map.empty \<or> LastPacket q < pn"
  shows "\<exists>q'. Emplace z pn (Some x) q = (True, q') \<and> queue_ok q' \<and> view q' = (view q)(pn \<mapsto> x) \<and> LastPacket q' = pn"
proof -
  let ?w = "\<lparr>wPresent = True, wEntry = x\<rparr>"
  have ring: "ring_ok (slots q)" using ok by (simp add: queue_ok_def)
  show ?thesis
  proof (cases "items (slots q) = []")
    case True
    let ?q = "q\<lparr>slots := PushBack (absent z) ?w (slots q), numberOfPresentEntries := 1, firstPacket := pn\<rparr>"
    have push: "ring_ok (slots ?q)" "items (slots ?q) = [?w]" using PushBack_ok [OF ring, of "absent z" ?w] True by simp_all
    have "Len (slots ?q) = 1" using push(2) length_items [of "slots ?q"] by simp
    then show ?thesis using push pn True queue_empty [OF ok] view_empty [OF ok]
      by (simp add: Emplace_def invalidPacketNumber_def queue_ok_def view_def LastPacket_def IsEmpty_def)
  next
    case False
    let ?len = "Len (slots q)" and ?offset = "pn - firstPacket q"
    have last: "LastPacket q = firstPacket q + int ?len - 1" "\<not> IsEmpty q" using queue_empty [OF ok] False by (simp_all add: LastPacket_def)
    have less: "LastPacket q < pn" using room view_empty [OF ok] False by blast
    let ?r = "if 0 < ?offset - int ?len then fill_gap (nat (?offset - int ?len)) z (slots q) else slots q"
    let ?q = "q\<lparr>slots := PushBack (absent z) ?w ?r, numberOfPresentEntries := numberOfPresentEntries q + 1\<rparr>"
    have r: "ring_ok ?r" "items ?r = items (slots q) @ replicate (nat (?offset - int ?len)) (absent z)"
      using fill_gap_ok [OF ring] ring by auto
    have push: "ring_ok (slots ?q)" "items (slots ?q) = items ?r @ [?w]" using PushBack_ok [OF r(1), of "absent z" ?w] by simp_all
    have len: "int (length (items ?r)) = ?offset" using less last unfolding r(2) by simp
    have "Emplace z pn (Some x) q = (True, ?q)"
      using less last(2) pn by (simp add: Emplace_def invalidPacketNumber_def FirstPacket_def Let_def)
    moreover have "queue_ok ?q"
      using push r(2) ok False by (cases "items (slots q)") (auto simp: queue_ok_def)
    moreover have "view ?q = (view q)(pn \<mapsto> x)"
    proof -
      have "view ?q = slots_map (firstPacket q) (items ?r @ [?w])" using push(2) by (simp add: view_def)
      also have "\<dots> = (slots_map (firstPacket q) (items ?r))(pn \<mapsto> x)" unfolding slots_map_append len by simp
      also have "slots_map (firstPacket q) (items ?r) = view q" unfolding r(2) slots_map_absent view_def ..
      finally show ?thesis .
    qed
    moreover have "LastPacket ?q = pn"
    proof -
      have "int (Len (slots ?q)) = ?offset + 1" using push(2) len length_items [of "slots ?q"] by simp
      then show ?thesis by (simp add: LastPacket_def IsEmpty_def)
    qed
    ultimately show ?thesis by blast
  qed
qed

lemma entry_wrapper:
  assumes "queue_ok q"
  shows "getEntryWraper pn q = Inr None \<and> view q pn = None \<or>
    (\<exists>i p. i < length (items (slots q)) \<and> pn = firstPacket q + int i \<and> wPresent (items (slots q) ! i) \<and>
      Offset i (slots q) = Inr p \<and> getEntryWraper pn q = Inr (Some p) \<and> view q pn = Some (wEntry (items (slots q) ! i)))"
proof (cases "pn < firstPacket q \<or> pn - firstPacket q \<ge> int (Len (slots q)) \<or> items (slots q) = []")
  case True
  then have "view q pn = None"
    by (cases "items (slots q) = []") (auto simp: view_def slots_map_nth)
  then show ?thesis using True queue_empty [OF assms] by (auto simp: getEntryWraper_def)
next
  case False
  let ?i = "nat (pn - firstPacket q)"
  have i: "?i < length (items (slots q))" "pn = firstPacket q + int ?i" "0 \<le> pn"
    using False assms by (auto simp: queue_ok_def)
  obtain p where p: "Offset ?i (slots q) = Inr p" "cells (slots q) ! p = items (slots q) ! ?i"
    using Offset_ok [OF _ i(1)] assms by (auto simp: queue_ok_def)
  have get: "getEntryWraper pn q = Inr (if wPresent (items (slots q) ! ?i) then Some p else None)"
    using p False i(3) queue_empty [OF assms] by (simp add: getEntryWraper_def invalidPacketNumber_def)
  have view: "view q pn = (if wPresent (items (slots q) ! ?i) then Some (wEntry (items (slots q) ! ?i)) else None)"
    using i False by (simp add: view_def slots_map_nth)
  show ?thesis
  proof (cases "wPresent (items (slots q) ! ?i)")
    case True
    then show ?thesis using get view i(1,2) p(1) by (intro disjI2 exI [of _ ?i] exI [of _ p]) simp
  qed (use get view in simp)
qed

lemma get_entry: "queue_ok q \<Longrightarrow> GetEntry pn q = Inr (view q pn)"
  using entry_wrapper [of q pn] Offset_ok [of "slots q"] by (force simp: GetEntry_def queue_ok_def)

lemma LastPacket_slots: "queue_ok q \<Longrightarrow> view q \<noteq> Map.empty \<Longrightarrow> LastPacket q = firstPacket q + int (Len (slots q)) - 1"
  using view_empty [of q] queue_empty [of q] by (simp add: LastPacket_def)

lemma present_count: "queue_ok q \<Longrightarrow> numberOfPresentEntries q \<noteq> 0 \<longleftrightarrow> view q \<noteq> Map.empty"
  using view_empty [of q] queue_empty [of q] by (simp add: IsEmpty_def)

lemma remove_entry:
  assumes ok: "queue_ok q"
  shows "\<exists>q'. Remove z pn q = Inr (view q pn, q') \<and> queue_ok q' \<and> view q' = (view q)(pn := None) \<and>
    (view q' \<noteq> Map.empty \<longrightarrow> LastPacket q' = LastPacket q)"
proof (cases "view q pn")
  case None
  then have "getEntryWraper pn q = Inr None" using entry_wrapper [OF ok, of pn] by auto
  then show ?thesis using None ok by (auto simp: Remove_def)
next
  case (Some x)
  then obtain i p where i: "i < length (items (slots q))" "pn = firstPacket q + int i" "wPresent (items (slots q) ! i)"
      "Offset i (slots q) = Inr p" "getEntryWraper pn q = Inr (Some p)" "view q pn = Some (wEntry (items (slots q) ! i))"
    using entry_wrapper [OF ok, of pn] by auto
  have ring: "ring_ok (slots q)" using ok by (simp add: queue_ok_def)
  let ?w = "items (slots q) ! i"
  let ?r = "(slots q)\<lparr>cells := (cells (slots q))[p := ?w\<lparr>wPresent := False\<rparr>]\<rparr>"
  let ?q = "q\<lparr>slots := ?r, numberOfPresentEntries := numberOfPresentEntries q - 1\<rparr>"
  have p: "cells (slots q) ! p = ?w" "ring_ok ?r" "items ?r = (items (slots q))[i := ?w\<lparr>wPresent := False\<rparr>]"
    using Offset_ok [OF ring i(1)] i(4) by auto
  have view: "view ?q = (view q)(pn := None)" using p(3) slots_map_delete [OF i(1)] i(2) by (simp add: view_def)
  have count: "numberOfPresentEntries ?q = length (filter wPresent (items (slots ?q)))"
    using p(3) count_delete [OF i(1,3)] ok by (simp add: queue_ok_def)
  have first: "0 \<le> firstPacket ?q" using i(1) ok by (cases "items (slots q)") (simp_all add: queue_ok_def flip: length_items)
  have nonempty: "view q \<noteq> Map.empty" using Some by auto
  have removed: "Remove z pn q = (if i = 0 then and_then (clearup z ?q) (\<lambda>q''. Inr (Some (wEntry ?w), q'')) else Inr (Some (wEntry ?w), ?q))"
    using i(2,5) p(1) by (simp add: Remove_def FirstPacket_def Let_def)
  show ?thesis
  proof (cases "i = 0")
    case True
    obtain q' where q': "clearup z ?q = Inr q'" "queue_ok q'" "view q' = view ?q"
        "numberOfPresentEntries q' \<noteq> 0 \<longrightarrow> firstPacket q' + int (Len (slots q')) = firstPacket ?q + int (Len (slots ?q))"
      using clearup_ok [of ?q z] p(2) count first by auto
    have "LastPacket q' = LastPacket q" if "view q' \<noteq> Map.empty"
      using q'(4) present_count [OF q'(2)] that LastPacket_slots [OF q'(2)] LastPacket_slots [OF ok nonempty] by simp
    then show ?thesis using removed True q' view i(6) by simp
  next
    case False
    then have hd: "hd (items ?r) = hd (items (slots q))" "items ?r \<noteq> []"
      using i(1) p(3) by (cases "items (slots q)"; cases i; auto)+
    moreover have "wPresent (hd (items (slots q)))" using ok nonempty view_empty [OF ok] by (simp add: queue_ok_def)
    ultimately have "queue_ok ?q" using p(2) count first by (simp add: queue_ok_def)
    moreover from this have "LastPacket ?q = LastPacket q" if "view ?q \<noteq> Map.empty"
      using LastPacket_slots [of ?q] that LastPacket_slots [OF ok nonempty] by simp
    ultimately show ?thesis using removed False view i(6) by simp
  qed
qed

lemma remove_up_to:
  assumes ok: "queue_ok q"
  shows "\<exists>q'. RemoveUpTo z pn q = Inr q' \<and> queue_ok q' \<and> view q' = view q |` {pn..} \<and>
    (view q' \<noteq> Map.empty \<longrightarrow> LastPacket q' = LastPacket q)"
proof -
  have ring: "ring_ok (slots q)" "numberOfPresentEntries q = length (filter wPresent (items (slots q)))"
      "0 \<le> firstPacket q \<or> items (slots q) = []"
    using ok by (auto simp: queue_ok_def split: if_splits)
  obtain q1 where q1: "upto_loop (Len (slots q)) z pn q = Inr q1" "ring_ok (slots q1)" "view q1 = view q |` {pn..}"
      "numberOfPresentEntries q1 = length (filter wPresent (items (slots q1)))" "items (slots q1) \<noteq> [] \<longrightarrow> 0 \<le> firstPacket q1"
      "items (slots q1) \<noteq> [] \<longrightarrow> firstPacket q1 + int (Len (slots q1)) = firstPacket q + int (Len (slots q))"
    using upto_loop_ok [OF ring(1) _ ring(3,2), of "Len (slots q)" z pn] by auto
  obtain q' where q': "clearup z q1 = Inr q'" "queue_ok q'" "view q' = view q1"
      "numberOfPresentEntries q' \<noteq> 0 \<longrightarrow> firstPacket q' + int (Len (slots q')) = firstPacket q1 + int (Len (slots q1))"
    using clearup_ok [OF q1(2,4,5), of z] by auto
  have "LastPacket q' = LastPacket q" if ne: "view q' \<noteq> Map.empty"
  proof -
    have "items (slots q1) \<noteq> []" using ne q'(3) by (auto simp: view_def)
    moreover have "view q \<noteq> Map.empty" using ne q'(3) q1(3) by auto
    ultimately show ?thesis
      using q'(4) q1(6) present_count [OF q'(2)] ne LastPacket_slots [OF q'(2)] LastPacket_slots [OF ok] by simp
  qed
  then show ?thesis using q1(1,3) q' by (simp add: RemoveUpTo_def)
qed

interpretation pq: indexed_map queue_ok view LastPacket "\<lambda>pn x. Emplace z pn (Some x)" GetEntry "Remove z" "RemoveUpTo z" for z
  by unfold_locales
    (simp_all add: emplace_refused emplace_stored get_entry remove_entry remove_up_to)

lemma new_queue: "queue_ok (newPacketNumberIndexedQueue z n) \<and> view (newPacketNumberIndexedQueue z n) = Map.empty"
  using Init_ok [of "absent z" n] by (simp add: queue_ok_def newPacketNumberIndexedQueue_def view_def invalidPacketNumber_def)

section \<open>The property\<close>

fun packet_op :: "'e \<Rightarrow> 'e qop \<Rightarrow> 'e packet_queue \<Rightarrow> panic + 'e answer \<times> 'e packet_queue" where
  "packet_op z (Put pn x) q = (case Emplace z pn (Some x) q of (b, q') \<Rightarrow> Inr (Stored b, q'))"
| "packet_op z (Get pn) q = and_then (GetEntry pn q) (\<lambda>e. Inr (Found e, q))"
| "packet_op z (Del pn) q = and_then (Remove z pn q) (\<lambda>(e, q). Inr (Gone e, q))"
| "packet_op z (Cut pn) q = and_then (RemoveUpTo z pn q) (\<lambda>q. Inr (Trimmed, q))"

lemma packet_op_eq: "packet_op z = pq.queue_op z"
proof (intro ext)
  show "packet_op z x q = pq.queue_op z x q" for x q by (cases x) simp_all
qed

lemma view_bounds:
  assumes "queue_ok q" and "view q \<noteq> Map.empty"
  shows "firstPacket q = Min (dom (view q))"
proof -
  obtain w ws where ws: "items (slots q) = w # ws" "wPresent w" using assms view_empty [OF assms(1)] by (cases "items (slots q)") (simp_all add: queue_ok_def)
  then have "firstPacket q \<in> dom (view q)" by (simp add: view_def)
  moreover have "firstPacket q \<le> pn" if "pn \<in> dom (view q)" for pn using that dom_slots by (fastforce simp: view_def)
  ultimately show ?thesis using finite_dom_slots by (intro Min_eqI [symmetric]) (auto simp: view_def)
qed

text \<open>C26. Whatever is put into the packet queue, looked up, removed and trimmed, in any order and whatever
  capacity it starts with, it never panics and answers as the map does; it counts the entries of the
  map, starts at the lowest of them, and its ring holds one slot for each number from there to the
  highest one stored.\<close>

theorem packet_queue_refines_map:
  assumes "list_all numbered xs"
  shows "\<exists>as q M l. run_ops (packet_op z) xs (newPacketNumberIndexedQueue z n) = Inr (as, q) \<and>
    run_ops map_op xs (Map.empty, -1) = Inr (as, M, l) \<and> (\<forall>pn. GetEntry pn q = Inr (M pn)) \<and>
    NumberOfPresentEntries q = card (dom M) \<and>
    (M \<noteq> Map.empty \<longrightarrow> FirstPacket q = Min (dom M) \<and> LastPacket q = l \<and> int (EntrySlotsUsed q) = l - Min (dom M) + 1)"
proof -
  have "pq.same (newPacketNumberIndexedQueue z n) (Map.empty, -1)" using new_queue [of z n] by (simp add: pq.same_def)
  from pq.run_refines [OF this assms, of z] obtain as q S where
    q: "run_ops (packet_op z) xs (newPacketNumberIndexedQueue z n) = Inr (as, q)" "run_ops map_op xs (Map.empty, -1) = Inr (as, S)"
      "pq.same q S" unfolding packet_op_eq by blast
  obtain M l where S: "S = (M, l)" by fastforce
  have same: "queue_ok q" "M = view q" "view q \<noteq> Map.empty \<Longrightarrow> l = LastPacket q" using q(3) S by (auto simp: pq.same_def)
  have "NumberOfPresentEntries q = card (dom M)"
    using same(1) card_dom_slots [of "firstPacket q" "items (slots q)"] unfolding same(2)
    by (simp add: NumberOfPresentEntries_def queue_ok_def view_def)
  moreover have "FirstPacket q = Min (dom M) \<and> LastPacket q = l \<and> int (EntrySlotsUsed q) = l - Min (dom M) + 1" if "M \<noteq> Map.empty"
  proof -
    have ne: "view q \<noteq> Map.empty" using that same(2) by simp
    show ?thesis using same(3) [OF ne] view_bounds [OF same(1) ne] LastPacket_slots [OF same(1) ne]
      by (simp add: FirstPacket_def EntrySlotsUsed_def same(2))
  qed
  ultimately show ?thesis using q(1,2) S get_entry [OF same(1)] same(2)
    by (intro exI [of _ as] exI [of _ q] exI [of _ M] exI [of _ l]) simp
qed

theorem packet_queue_refines_map_witness:
  "\<exists>q. run_ops (packet_op (0 :: nat)) [Put 3 30, Put 7 70, Put 5 50, Get 7, Del 3, Cut 6] (newPacketNumberIndexedQueue 0 2)
    = Inr ([Stored True, Stored True, Stored False, Found (Some 70), Gone (Some 30), Trimmed], q)"
proof -
  have "list_all numbered [Put 3 30, Put 7 70, Put 5 50, Get 7, Del 3, Cut 6 :: nat qop]" by (simp add: numbered_def)
  from packet_queue_refines_map [OF this, of 0 2] show ?thesis by (auto simp: fun_eq_iff split: if_splits)
qed

end
