(* ===== verification/WindowedFilter.thy ===== *)
theory WindowedFilter
  imports Prelude
begin

text \<open>
  \<^verbatim>\<open>congestion_meta2/windowed_filter.go\<close>: the three best samples of a sliding window of time. The
  comparison is an interface with the laws of a total preorder; \<open>z\<close> is the zero value of the samples.
  Times are the 64-bit round counters of the callers, whose difference wraps.
\<close>

section \<open>The filter\<close>

definition MaxFilter :: "'v :: linorder \<Rightarrow> 'v \<Rightarrow> int" where
  "MaxFilter a b = (if a > b then 1 else if a < b then -1 else 0)"

definition MinFilter :: "'v :: linorder \<Rightarrow> 'v \<Rightarrow> int" where
  "MinFilter a b = (if a < b then 1 else if a > b then -1 else 0)"

record 'v estimate =
  sample :: 'v
  esTime :: u64

record 'v windowed_filter =
  windowLength :: u64
  estimates :: "'v estimate list"

definition NewWindowedFilter :: "'v \<Rightarrow> u64 \<Rightarrow> 'v windowed_filter" where
  "NewWindowedFilter z w = \<lparr>windowLength = w, estimates = replicate 3 \<lparr>sample = z, esTime = 0\<rparr>\<rparr>"

definition SetWindowLength :: "u64 \<Rightarrow> 'v windowed_filter \<Rightarrow> 'v windowed_filter" where
  "SetWindowLength w f = f\<lparr>windowLength := w\<rparr>"

definition GetBest :: "'v windowed_filter \<Rightarrow> 'v" where
  "GetBest f = sample (estimates f ! 0)"

definition GetSecondBest :: "'v windowed_filter \<Rightarrow> 'v" where
  "GetSecondBest f = sample (estimates f ! 1)"

definition GetThirdBest :: "'v windowed_filter \<Rightarrow> 'v" where
  "GetThirdBest f = sample (estimates f ! 2)"

definition filter_Reset :: "'v \<Rightarrow> u64 \<Rightarrow> 'v windowed_filter \<Rightarrow> 'v windowed_filter" where
  "filter_Reset v t f =
     (let es = (estimates f)[2 := \<lparr>sample = v, esTime = t\<rparr>];
          es = es[1 := es ! 2];
          es = es[0 := es ! 1] in f\<lparr>estimates := es\<rparr>)"

definition filter_Clear :: "'v \<Rightarrow> 'v windowed_filter \<Rightarrow> 'v windowed_filter" where
  "filter_Clear z f = f\<lparr>estimates := replicate 3 \<lparr>sample = z, esTime = 0\<rparr>\<rparr>"

definition filter_Update :: "('v \<Rightarrow> 'v \<Rightarrow> int) \<Rightarrow> 'v \<Rightarrow> 'v \<Rightarrow> u64 \<Rightarrow> 'v windowed_filter \<Rightarrow> 'v windowed_filter" where
  "filter_Update comparator z newSample newTime f =
     (let es = estimates f; w = windowLength f; new = \<lparr>sample = newSample, esTime = newTime\<rparr> in
      if comparator (sample (es ! 0)) z = 0 \<or> comparator newSample (sample (es ! 0)) \<ge> 0 \<or> newTime - esTime (es ! 2) > w
      then filter_Reset newSample newTime f
      else
        let es = (if comparator newSample (sample (es ! 1)) \<ge> 0 then (let es = es[1 := new] in es[2 := es ! 1])
                  else if comparator newSample (sample (es ! 2)) \<ge> 0 then es[2 := new] else es) in
        if newTime - esTime (es ! 0) > w then
          let es = es[0 := es ! 1]; es = es[1 := es ! 2]; es = es[2 := new] in
          if newTime - esTime (es ! 0) > w then
            (let es = es[0 := es ! 1]; es = es[1 := es ! 2] in f\<lparr>estimates := es\<rparr>)
          else f\<lparr>estimates := es\<rparr>
        else if comparator (sample (es ! 1)) (sample (es ! 0)) = 0 \<and> newTime - esTime (es ! 1) > w div 4 then
          (let es = es[1 := new] in f\<lparr>estimates := es[2 := es ! 1]\<rparr>)
        else if comparator (sample (es ! 2)) (sample (es ! 1)) = 0 \<and> newTime - esTime (es ! 2) > w div 2 then
          f\<lparr>estimates := es[2 := new]\<rparr>
        else f\<lparr>estimates := es\<rparr>)"

section \<open>What the estimates are\<close>

locale comparator =
  fixes cmp :: "'v \<Rightarrow> 'v \<Rightarrow> int"
  assumes cmp_sym: "0 \<le> cmp a b \<longleftrightarrow> cmp b a \<le> 0"
    and cmp_trans: "0 \<le> cmp a b \<Longrightarrow> 0 \<le> cmp b c \<Longrightarrow> 0 \<le> cmp a c"
begin

lemma cmp_total: "\<not> 0 \<le> cmp a b \<Longrightarrow> 0 \<le> cmp b a"
  using cmp_sym [of b a] by simp

lemma cmp_refl: "cmp a a = 0"
  using cmp_sym [of a a] by linarith

text \<open>An estimate is a sample of the history \<open>h\<close>, and none that came later is better.\<close>

definition tops :: "('v \<times> u64) list \<Rightarrow> 'v estimate \<Rightarrow> nat \<Rightarrow> bool" where
  "tops h e k \<longleftrightarrow> k < length h \<and> e = \<lparr>sample = fst (h ! k), esTime = snd (h ! k)\<rparr> \<and>
     (\<forall>j < length h. k \<le> j \<longrightarrow> 0 \<le> cmp (sample e) (fst (h ! j)))"

definition filter_ok :: "('v \<times> u64) list \<Rightarrow> 'v windowed_filter \<Rightarrow> bool" where
  "filter_ok h f \<longleftrightarrow> (\<exists>a b c. estimates f = [a, b, c] \<and> (\<exists>i j k. i \<le> j \<and> j \<le> k \<and> tops h a i \<and> tops h b j \<and> tops h c k) \<and>
     unat (snd (last h)) - unat (esTime a) \<le> unat (windowLength f))"

lemma tops_new: "tops (h @ [(v, t)]) \<lparr>sample = v, esTime = t\<rparr> (length h)"
  by (auto simp: tops_def cmp_refl less_Suc_eq)

lemma tops_keep: "tops h e k \<Longrightarrow> 0 \<le> cmp (sample e) v \<Longrightarrow> tops (h @ [(v, t)]) e k"
  by (auto simp: tops_def nth_append less_Suc_eq)

lemma age:
  assumes "tops h e k" and "sorted (map (unat \<circ> snd) (h @ [(v, t)]))"
  shows "unat (t - esTime e) = unat t - unat (esTime e)"
proof -
  have "esTime e = snd (h ! k)" "k < length h" using assms(1) by (auto simp: tops_def)
  then have "unat (esTime e) \<le> unat t" using assms(2) by (auto simp: sorted_append)
  then show ?thesis by (simp add: unat_sub word_le_nat_alt)
qed

lemma reset_ok:
  assumes "length (estimates f) = 3"
  shows "filter_ok (h @ [(v, t)]) (filter_Reset v t f)"
proof -
  obtain a b c where "estimates f = [a, b, c]" using assms by (auto simp: numeral_3_eq_3 length_Suc_conv)
  then show ?thesis using tops_new [of h v t] by (auto simp: filter_Reset_def Let_def filter_ok_def)
qed

lemma filter_okI:
  assumes "estimates f = [a, b, c]" and "tops h a i" and "tops h b j" and "tops h c k" and "i \<le> j" and "j \<le> k"
    and "unat (snd (last h)) - unat (esTime a) \<le> unat (windowLength f)"
  shows "filter_ok h f"
  using assms unfolding filter_ok_def by blast

lemma update_ok:
  assumes ok: "filter_ok h f" and sorted: "sorted (map (unat \<circ> snd) (h @ [(v, t)]))"
  shows "filter_ok (h @ [(v, t)]) (filter_Update cmp z v t f)"
proof -
  let ?h = "h @ [(v, t)]" and ?new = "\<lparr>sample = v, esTime = t\<rparr>" and ?w = "windowLength f"
  obtain a b c i j k where f: "estimates f = [a, b, c]" "i \<le> j" "j \<le> k" "tops h a i" "tops h b j" "tops h c k"
    using ok by (auto simp: filter_ok_def)
  show ?thesis
  proof (cases "cmp (sample a) z = 0 \<or> 0 \<le> cmp v (sample a) \<or> t - esTime c > ?w")
    case True
    then have "filter_Update cmp z v t f = filter_Reset v t f" using f(1) by (simp add: filter_Update_def)
    then show ?thesis using reset_ok f(1) by simp
  next
    case False
    then have low: "0 \<le> cmp (sample a) v" using cmp_total by blast
    have fresh: "unat t - unat (esTime c) \<le> unat ?w"
      using False age [OF f(6) sorted] by (simp add: not_less word_le_nat_alt)
    obtain b' c' j' k' where es: "(if cmp v (sample b) \<ge> 0 then [a, ?new, ?new] else if cmp v (sample c) \<ge> 0 then [a, b, ?new] else [a, b, c]) = [a, b', c']"
      and tops: "tops ?h a i" "tops ?h b' j'" "tops ?h c' k'" "i \<le> j'" "j' \<le> k'" "k' \<le> length h"
      and fresh': "unat t - unat (esTime c') \<le> unat ?w"
    proof (cases "cmp v (sample b) \<ge> 0")
      case True
      have "i \<le> length h" using f(4) by (simp add: tops_def)
      then show thesis using that [of ?new ?new "length h" "length h"] True tops_new [of h v t] tops_keep [OF f(4) low] by simp
    next
      case b: False
      show thesis
      proof (cases "cmp v (sample c) \<ge> 0")
        case True
        have "j \<le> length h" using f(5) by (simp add: tops_def)
        then show thesis
          using that [of b ?new j "length h"] True b tops_new [of h v t] tops_keep [OF f(4) low] tops_keep [OF f(5) cmp_total [OF b]] f(2) by simp
      next
        case c: False
        have "k \<le> length h" using f(6) by (simp add: tops_def)
        then show thesis
          using that [of b c j k] b c tops_keep [OF f(4) low] tops_keep [OF f(5) cmp_total [OF b]] tops_keep [OF f(6) cmp_total [OF c]] f(2,3) fresh
          by simp
      qed
    qed
    let ?es = "[a, b', c']"
    have upd: "filter_Update cmp z v t f =
       (if t - esTime a > ?w then (if t - esTime b' > ?w then f\<lparr>estimates := [c', ?new, ?new]\<rparr> else f\<lparr>estimates := [b', c', ?new]\<rparr>)
        else if cmp (sample b') (sample a) = 0 \<and> t - esTime b' > ?w div 4 then f\<lparr>estimates := [a, ?new, ?new]\<rparr>
        else if cmp (sample c') (sample b') = 0 \<and> t - esTime c' > ?w div 2 then f\<lparr>estimates := [a, b', ?new]\<rparr>
        else f\<lparr>estimates := ?es\<rparr>)"
    proof -
      have es': "(if cmp v (sample ([a, b, c] ! 1)) \<ge> 0 then (let es = [a, b, c][1 := ?new] in es[2 := es ! 1])
          else if cmp v (sample ([a, b, c] ! 2)) \<ge> 0 then [a, b, c][2 := ?new] else [a, b, c]) = ?es"
        unfolding es [symmetric] by (simp add: Let_def)
      have first: "\<not> (cmp (sample ([a, b, c] ! 0)) z = 0 \<or> cmp v (sample ([a, b, c] ! 0)) \<ge> 0 \<or> t - esTime ([a, b, c] ! 2) > ?w)"
        using False by simp
      show ?thesis unfolding filter_Update_def Let_def f(1) if_not_P [OF first] es' [unfolded Let_def] by simp
    qed
    have old: "unat (t - esTime e) = unat t - unat (esTime e)" if "tops ?h e x" for e x
    proof -
      have "esTime e = snd (?h ! x)" "x < length ?h" using that by (auto simp: tops_def)
      then have "unat (esTime e) \<le> unat t" using sorted by (auto simp: sorted_append nth_append split: if_splits)
      then show ?thesis by (simp add: unat_sub word_le_nat_alt)
    qed
    have within: "unat t - unat (esTime e) \<le> unat ?w" if "tops ?h e x" "\<not> t - esTime e > ?w" for e x
      using old [OF that(1)] that(2) by (simp add: not_less word_le_nat_alt)
    note okI = filter_okI [of _ _ _ _ ?h]
    have new: "tops ?h ?new (length h)" by (rule tops_new)
    show ?thesis unfolding upd
      using tops fresh' new within [OF tops(1)] within [OF tops(2)]
      by (auto intro: okI [of _ _ _ _ i j' k'] okI [of _ _ _ _ i j' "length h"] okI [of _ _ _ _ i "length h" "length h"]
        okI [of _ _ _ _ j' k' "length h"] okI [of _ _ _ _ k' "length h" "length h"])
  qed
qed

lemma run_ok:
  assumes "h \<noteq> []" and "sorted (map (unat \<circ> snd) h)"
  shows "filter_ok h (fold (\<lambda>(v, t). filter_Update cmp z v t) h (NewWindowedFilter z w)) \<and>
    windowLength (fold (\<lambda>(v, t). filter_Update cmp z v t) h (NewWindowedFilter z w)) = w"
  using assms
proof (induction h rule: rev_induct)
  case (snoc x h)
  obtain v t where x: "x = (v, t)" by fastforce
  have window: "windowLength (filter_Update cmp z v t f) = windowLength f" for f
    by (simp add: filter_Update_def filter_Reset_def Let_def)
  show ?case
  proof (cases "h = []")
    case True
    have "filter_Update cmp z v t (NewWindowedFilter z w) = filter_Reset v t (NewWindowedFilter z w)"
      by (simp add: filter_Update_def NewWindowedFilter_def cmp_refl numeral_3_eq_3)
    then show ?thesis using True x reset_ok [of "NewWindowedFilter z w" "[]" v t]
      by (simp add: NewWindowedFilter_def filter_Reset_def Let_def)
  next
    case False
    then have "filter_ok h (fold (\<lambda>(v, t). filter_Update cmp z v t) h (NewWindowedFilter z w)) \<and>
        windowLength (fold (\<lambda>(v, t). filter_Update cmp z v t) h (NewWindowedFilter z w)) = w"
      using snoc by (simp add: sorted_append)
    then show ?thesis using update_ok [OF _ snoc.prems(2) [unfolded x]] window x by simp
  qed
qed simp

lemma best_of_run:
  assumes "h \<noteq> []" and "sorted (map (unat \<circ> snd) h)"
  shows "\<exists>k < length h. GetBest (fold (\<lambda>(v, t). filter_Update cmp z v t) h (NewWindowedFilter z w)) = fst (h ! k) \<and>
    unat (snd (last h)) - unat (snd (h ! k)) \<le> unat w \<and>
    (\<forall>j < length h. k \<le> j \<longrightarrow> 0 \<le> cmp (fst (h ! k)) (fst (h ! j)))"
  using run_ok [OF assms, of z w] by (auto simp: filter_ok_def tops_def GetBest_def)

end

interpretation max_filter: comparator MaxFilter
  by unfold_locales (auto simp: MaxFilter_def split: if_splits)

interpretation min_filter: comparator MinFilter
  by unfold_locales (auto simp: MinFilter_def split: if_splits)

text \<open>C27. With any comparison, and times that do not decrease, the best estimate is one of the samples, at
  most a window old, and no sample that came after it is better.\<close>

theorem windowed_filter_best:
  assumes "comparator cmp" and "h \<noteq> []" and "sorted (map (unat \<circ> snd) h)"
  shows "\<exists>k < length h. GetBest (fold (\<lambda>(v, t). filter_Update cmp z v t) h (NewWindowedFilter z w)) = fst (h ! k) \<and>
    unat (snd (last h)) - unat (snd (h ! k)) \<le> unat w \<and>
    (\<forall>j < length h. k \<le> j \<longrightarrow> 0 \<le> cmp (fst (h ! k)) (fst (h ! j)))"
  by (rule comparator.best_of_run [OF assms])

theorem windowed_filter_best_witness:
  "GetBest (fold (\<lambda>(v, t). filter_Update MaxFilter 0 v t) [(9, 1), (5, 2), (3, 20 :: u64)] (NewWindowedFilter 0 10)) \<in> {9, 5, 3 :: nat}"
proof -
  let ?h = "[(9, 1), (5, 2), (3 :: nat, 20 :: u64)]"
  have "?h \<noteq> []" "sorted (map (unat \<circ> snd) ?h)" by simp_all
  from windowed_filter_best [OF max_filter.comparator_axioms this, of 0 10]
  obtain k where "k < length ?h" "GetBest (fold (\<lambda>(v, t). filter_Update MaxFilter 0 v t) ?h (NewWindowedFilter 0 10)) = fst (?h ! k)"
    by blast
  moreover from this(1) have "fst (?h ! k) \<in> set (map fst ?h)" by (metis length_map nth_map nth_mem)
  ultimately show ?thesis by simp
qed

end
