(* ===== verification/BandwidthSampler.thy ===== *)
theory BandwidthSampler
  imports PacketMap WindowedFilter "HOL-Library.Signed_Division"
begin

text \<open>
  \<^verbatim>\<open>congestion_meta2/bandwidth_sampler.go\<close> with \<^verbatim>\<open>bandwidth.go\<close>: what BBR learns of the path from the
  packets that are acknowledged. Byte counts, packet numbers and times are integers; bandwidths are
  64-bit words, and the conversions between the two and the 64-bit products are written out where
  they can wrap. Times are nanoseconds, 0 being no time. The threshold of the ack height tracker is 1
  or 2, the values the code sets: what it is multiplied with is below 2^31, so that the product in
  \<^verbatim>\<open>float64\<close> is exact.
\<close>

section \<open>Bandwidths\<close>

definition infBandwidth :: u64 where [cfg_defs]: "infBandwidth = -1"
definition infRTT :: int where [cfg_defs]: "infRTT = 9223372036854775807"
definition Second :: int where [cfg_defs]: "Second = 1000000000"

text \<open>A 64-bit signed value.\<close>

definition i64 :: "int \<Rightarrow> int" where
  "i64 x = sint (word_of_int x :: u64)"

definition BandwidthFromDelta :: "int \<Rightarrow> int \<Rightarrow> panic + u64" where
  "BandwidthFromDelta bytes delta =
     (if (word_of_int delta :: u64) = 0 then Inl (Panic ''integer divide by zero'')
      else Inr (word_of_int bytes * word_of_int Second div word_of_int delta * 8))"

definition bytesFromBandwidthAndTimeDelta :: "u64 \<Rightarrow> int \<Rightarrow> int" where
  "bytesFromBandwidthAndTimeDelta bandwidth delta = i64 (sint bandwidth * delta) sdiv (Second * 8)"

definition timeDeltaFromBytesAndBandwidth :: "int \<Rightarrow> u64 \<Rightarrow> panic + int" where
  "timeDeltaFromBytesAndBandwidth bytes bandwidth =
     (if bandwidth = 0 then Inl (Panic ''integer divide by zero'')
      else Inr (i64 (i64 (i64 (bytes * 8) * Second) sdiv sint bandwidth)))"

section \<open>The ack height tracker\<close>

record extra_acked_event =
  extraAcked :: int
  bytesAcked :: int
  timeDelta :: int
  evRound :: u64

definition no_event :: extra_acked_event where
  "no_event = \<lparr>extraAcked = 0, bytesAcked = 0, timeDelta = 0, evRound = 0\<rparr>"

definition maxExtraAckedEventFunc :: "extra_acked_event \<Rightarrow> extra_acked_event \<Rightarrow> int" where
  "maxExtraAckedEventFunc a b = (if extraAcked a > extraAcked b then 1 else if extraAcked a < extraAcked b then -1 else 0)"

record ack_height_tracker =
  maxAckHeightFilter :: "extra_acked_event windowed_filter"
  epochStartTime :: int
  epochBytes :: int
  lastSentBeforeEpoch :: int
  numAckAggregationEpochs :: u64
  bandwidthThreshold :: int
  startNewEpochAfterFullRound :: bool
  reduceExtraAcked :: bool

definition newMaxAckHeightTracker :: "u64 \<Rightarrow> ack_height_tracker" where
  "newMaxAckHeightTracker w = \<lparr>maxAckHeightFilter = NewWindowedFilter no_event w, epochStartTime = 0, epochBytes = 0,
     lastSentBeforeEpoch = invalidPacketNumber, numAckAggregationEpochs = 0, bandwidthThreshold = 1,
     startNewEpochAfterFullRound = False, reduceExtraAcked = False\<rparr>"

definition tracker_Get :: "ack_height_tracker \<Rightarrow> int" where
  "tracker_Get m = extraAcked (GetBest (maxAckHeightFilter m))"

definition reinsert :: "u64 \<Rightarrow> extra_acked_event \<Rightarrow> extra_acked_event windowed_filter \<Rightarrow> extra_acked_event windowed_filter" where
  "reinsert bandwidth e f =
     (let expected = bytesFromBandwidthAndTimeDelta bandwidth (timeDelta e) in
      if expected < bytesAcked e
      then filter_Update maxExtraAckedEventFunc no_event (e\<lparr>extraAcked := bytesAcked e - expected\<rparr>) (evRound e) f
      else f)"

definition start_epoch :: "int \<Rightarrow> int \<Rightarrow> int \<Rightarrow> ack_height_tracker \<Rightarrow> ack_height_tracker" where
  "start_epoch bytes ackTime lastSent m = m\<lparr>epochBytes := bytes, epochStartTime := ackTime, lastSentBeforeEpoch := lastSent,
     numAckAggregationEpochs := numAckAggregationEpochs m + 1\<rparr>"

definition tracker_Update :: "u64 \<Rightarrow> bool \<Rightarrow> u64 \<Rightarrow> int \<Rightarrow> int \<Rightarrow> int \<Rightarrow> int \<Rightarrow> ack_height_tracker \<Rightarrow> int \<times> ack_height_tracker" where
  "tracker_Update bandwidthEstimate isNewMaxBandwidth roundTrips lastSent lastAcked ackTime bytes m =
     (let m = (if reduceExtraAcked m \<and> isNewMaxBandwidth then
            let f = maxAckHeightFilter m;
                best = GetBest f; secondBest = GetSecondBest f; thirdBest = GetThirdBest f;
                f = filter_Clear no_event f;
                f = reinsert bandwidthEstimate best f;
                f = reinsert bandwidthEstimate secondBest f;
                f = reinsert bandwidthEstimate thirdBest f
            in m\<lparr>maxAckHeightFilter := f\<rparr>
          else m);
          forceNewEpoch = (startNewEpochAfterFullRound m \<and> lastSentBeforeEpoch m \<noteq> invalidPacketNumber \<and>
            lastAcked \<noteq> invalidPacketNumber \<and> lastAcked > lastSentBeforeEpoch m) in
      if epochStartTime m = 0 \<or> forceNewEpoch then (0, start_epoch bytes ackTime lastSent m)
      else
        let aggregationDelta = ackTime - epochStartTime m;
            expectedBytesAcked = bytesFromBandwidthAndTimeDelta bandwidthEstimate aggregationDelta in
        if epochBytes m \<le> bandwidthThreshold m * expectedBytesAcked then (0, start_epoch bytes ackTime lastSent m)
        else
          let m = m\<lparr>epochBytes := epochBytes m + bytes\<rparr>;
              extraBytesAcked = epochBytes m - expectedBytesAcked;
              newEvent = \<lparr>extraAcked = extraBytesAcked, bytesAcked = epochBytes m, timeDelta = aggregationDelta, evRound = 0\<rparr>
          in (extraBytesAcked,
              m\<lparr>maxAckHeightFilter := filter_Update maxExtraAckedEventFunc no_event newEvent roundTrips (maxAckHeightFilter m)\<rparr>))"

definition tracker_Reset :: "int \<Rightarrow> u64 \<Rightarrow> ack_height_tracker \<Rightarrow> ack_height_tracker" where
  "tracker_Reset newHeight newTime m = m\<lparr>maxAckHeightFilter :=
     filter_Reset \<lparr>extraAcked = newHeight, bytesAcked = 0, timeDelta = 0, evRound = newTime\<rparr> newTime (maxAckHeightFilter m)\<rparr>"

definition SetFilterWindowLength :: "u64 \<Rightarrow> ack_height_tracker \<Rightarrow> ack_height_tracker" where
  "SetFilterWindowLength w m = m\<lparr>maxAckHeightFilter := SetWindowLength w (maxAckHeightFilter m)\<rparr>"

section \<open>Ack points\<close>

record ack_point =
  apTime :: int
  apTotal :: int

definition no_point :: ack_point where
  "no_point = \<lparr>apTime = 0, apTotal = 0\<rparr>"

text \<open>The two most recent points, the older one first.\<close>

type_synonym recent_points = "ack_point \<times> ack_point"

definition points_Update :: "int \<Rightarrow> int \<Rightarrow> recent_points \<Rightarrow> recent_points" where
  "points_Update ackTime acked ps = (case ps of (p0, p1) \<Rightarrow>
     let (p0, p1) = (if ackTime < apTime p1 then (p0, p1\<lparr>apTime := ackTime\<rparr>)
                     else if ackTime > apTime p1 then (p1, p1\<lparr>apTime := ackTime\<rparr>)
                     else (p0, p1)) in
     (p0, p1\<lparr>apTotal := acked\<rparr>))"

definition points_Clear :: recent_points where
  "points_Clear = (no_point, no_point)"

definition MostRecentPoint :: "recent_points \<Rightarrow> ack_point" where
  "MostRecentPoint ps = snd ps"

definition LessRecentPoint :: "recent_points \<Rightarrow> ack_point" where
  "LessRecentPoint ps = (if apTotal (fst ps) \<noteq> 0 then fst ps else snd ps)"

section \<open>The sampler\<close>

record send_time_state =
  isValid :: bool
  stAppLimited :: bool
  stSent :: int
  stAcked :: int
  stLost :: int
  stInFlight :: int

definition no_state :: send_time_state where
  "no_state = \<lparr>isValid = False, stAppLimited = False, stSent = 0, stAcked = 0, stLost = 0, stInFlight = 0\<rparr>"

record sent_packet =
  sentTime :: int
  pktSize :: int
  sentAtLastAcked :: int
  lastAckedSentTime :: int
  lastAckedAckTime :: int
  sendState :: send_time_state

definition no_packet :: sent_packet where
  "no_packet = \<lparr>sentTime = 0, pktSize = 0, sentAtLastAcked = 0, lastAckedSentTime = 0, lastAckedAckTime = 0, sendState = no_state\<rparr>"

record bandwidth_sample =
  bsBandwidth :: u64
  bsRtt :: int
  bsSendRate :: u64
  bsState :: send_time_state

definition newBandwidthSample :: bandwidth_sample where
  "newBandwidthSample = \<lparr>bsBandwidth = 0, bsRtt = 0, bsSendRate = infBandwidth, bsState = no_state\<rparr>"

record bandwidth_sampler =
  totalSent :: int
  totalAcked :: int
  totalLost :: int
  totalNeutered :: int
  sentAtLastAckedPacket :: int
  lastAckedPacketSentTime :: int
  lastAckedPacketAckTime :: int
  lastSentPacket :: int
  lastAckedPacket :: int
  appLimited :: bool
  endOfAppLimitedPhase :: int
  connectionState :: "sent_packet packet_queue"
  recentPoints :: recent_points
  a0Candidates :: "ack_point ring"
  heightTracker :: ack_height_tracker
  ackedAfterLastEvent :: int
  overestimateAvoidance :: bool
  limitBySendRate :: bool

definition newBandwidthSampler :: "u64 \<Rightarrow> bandwidth_sampler" where
  "newBandwidthSampler w = \<lparr>totalSent = 0, totalAcked = 0, totalLost = 0, totalNeutered = 0, sentAtLastAckedPacket = 0,
     lastAckedPacketSentTime = 0, lastAckedPacketAckTime = 0, lastSentPacket = invalidPacketNumber,
     lastAckedPacket = invalidPacketNumber, appLimited = False, endOfAppLimitedPhase = invalidPacketNumber,
     connectionState = newPacketNumberIndexedQueue no_packet 256, recentPoints = points_Clear, a0Candidates = Init no_point 256,
     heightTracker = newMaxAckHeightTracker w, ackedAfterLastEvent = 0, overestimateAvoidance = False, limitBySendRate = False\<rparr>"

definition EnableOverestimateAvoidance :: "bandwidth_sampler \<Rightarrow> bandwidth_sampler" where
  "EnableOverestimateAvoidance b =
     (if overestimateAvoidance b then b
      else b\<lparr>overestimateAvoidance := True, heightTracker := (heightTracker b)\<lparr>bandwidthThreshold := 2\<rparr>\<rparr>)"

definition SetMaxAckHeightTrackerWindowLength :: "u64 \<Rightarrow> bandwidth_sampler \<Rightarrow> bandwidth_sampler" where
  "SetMaxAckHeightTrackerWindowLength w b = b\<lparr>heightTracker := SetFilterWindowLength w (heightTracker b)\<rparr>"

definition ResetMaxAckHeightTracker :: "int \<Rightarrow> u64 \<Rightarrow> bandwidth_sampler \<Rightarrow> bandwidth_sampler" where
  "ResetMaxAckHeightTracker newHeight newTime b = b\<lparr>heightTracker := tracker_Reset newHeight newTime (heightTracker b)\<rparr>"

definition SetStartNewAggregationEpochAfterFullRound :: "bool \<Rightarrow> bandwidth_sampler \<Rightarrow> bandwidth_sampler" where
  "SetStartNewAggregationEpochAfterFullRound v b = b\<lparr>heightTracker := (heightTracker b)\<lparr>startNewEpochAfterFullRound := v\<rparr>\<rparr>"

definition SetReduceExtraAckedOnBandwidthIncrease :: "bool \<Rightarrow> bandwidth_sampler \<Rightarrow> bandwidth_sampler" where
  "SetReduceExtraAckedOnBandwidthIncrease v b = b\<lparr>heightTracker := (heightTracker b)\<lparr>reduceExtraAcked := v\<rparr>\<rparr>"

definition SetLimitMaxAckHeightTrackerBySendRate :: "bool \<Rightarrow> bandwidth_sampler \<Rightarrow> bandwidth_sampler" where
  "SetLimitMaxAckHeightTrackerBySendRate v b = b\<lparr>limitBySendRate := v\<rparr>"

definition MaxAckHeight :: "bandwidth_sampler \<Rightarrow> int" where
  "MaxAckHeight b = tracker_Get (heightTracker b)"

definition newConnectionStateOnSentPacket :: "int \<Rightarrow> int \<Rightarrow> int \<Rightarrow> bandwidth_sampler \<Rightarrow> sent_packet" where
  "newConnectionStateOnSentPacket t n bytesInFlight b =
     \<lparr>sentTime = t, pktSize = n, sentAtLastAcked = sentAtLastAckedPacket b, lastAckedSentTime = lastAckedPacketSentTime b,
      lastAckedAckTime = lastAckedPacketAckTime b,
      sendState = \<lparr>isValid = True, stAppLimited = appLimited b, stSent = totalSent b, stAcked = totalAcked b,
        stLost = totalLost b, stInFlight = bytesInFlight\<rparr>\<rparr>"

text \<open>Nothing in flight: the point from which acknowledgements are counted.\<close>

definition sent_idle :: "int \<Rightarrow> bandwidth_sampler \<Rightarrow> bandwidth_sampler" where
  "sent_idle t b =
     (let b = b\<lparr>lastAckedPacketAckTime := t\<rparr>;
          b = (if overestimateAvoidance b then
                 let ps = points_Update t (totalAcked b) points_Clear in
                 b\<lparr>recentPoints := ps, a0Candidates := PushBack no_point (MostRecentPoint ps) (ring_Clear no_point (a0Candidates b))\<rparr>
               else b) in
      b\<lparr>sentAtLastAckedPacket := totalSent b, lastAckedPacketSentTime := t\<rparr>)"

definition OnPacketSent :: "int \<Rightarrow> int \<Rightarrow> int \<Rightarrow> int \<Rightarrow> bool \<Rightarrow> bandwidth_sampler \<Rightarrow> bandwidth_sampler" where
  "OnPacketSent t packetNumber n bytesInFlight isRetransmittable b =
     (let b = b\<lparr>lastSentPacket := packetNumber\<rparr> in
      if \<not> isRetransmittable then b
      else
        let b = b\<lparr>totalSent := totalSent b + n\<rparr>;
            b = (if bytesInFlight = 0 then sent_idle t b else b) in
        b\<lparr>connectionState := snd (Emplace no_packet packetNumber
          (Some (newConnectionStateOnSentPacket t n (bytesInFlight + n) b)) (connectionState b))\<rparr>)"

definition OnPacketLost :: "int \<Rightarrow> int \<Rightarrow> bandwidth_sampler \<Rightarrow> panic + send_time_state \<times> bandwidth_sampler" where
  "OnPacketLost packetNumber bytesLost b =
     (let b = b\<lparr>totalLost := totalLost b + bytesLost\<rparr> in
      and_then (GetEntry packetNumber (connectionState b)) (\<lambda>e.
      Inr (case e of None \<Rightarrow> no_state | Some p \<Rightarrow> (sendState p)\<lparr>isValid := True\<rparr>, b)))"

definition OnPacketNeutered :: "int \<Rightarrow> bandwidth_sampler \<Rightarrow> panic + bandwidth_sampler" where
  "OnPacketNeutered packetNumber b =
     and_then (Remove no_packet packetNumber (connectionState b)) (\<lambda>(e, q).
     Inr (b\<lparr>connectionState := q, totalNeutered := totalNeutered b + (case e of None \<Rightarrow> 0 | Some p \<Rightarrow> pktSize p)\<rparr>))"

definition OnAppLimited :: "bandwidth_sampler \<Rightarrow> bandwidth_sampler" where
  "OnAppLimited b = b\<lparr>appLimited := True, endOfAppLimitedPhase := lastSentPacket b\<rparr>"

definition RemoveObsoletePackets :: "int \<Rightarrow> bandwidth_sampler \<Rightarrow> panic + bandwidth_sampler" where
  "RemoveObsoletePackets leastUnacked b =
     and_then (RemoveUpTo no_packet leastUnacked (connectionState b)) (\<lambda>q. Inr (b\<lparr>connectionState := q\<rparr>))"

section \<open>Choosing the point the ack rate starts from\<close>

primrec pop_n :: "nat \<Rightarrow> ack_point ring \<Rightarrow> panic + ack_point ring" where
  "pop_n 0 r = Inr r"
| "pop_n (Suc n) r = and_then (PopFront no_point r) (\<lambda>(_, r). pop_n n r)"

text \<open>The first loop, with \<open>n\<close> indices left to look at.\<close>

primrec a0_search :: "nat \<Rightarrow> int \<Rightarrow> ack_point ring \<Rightarrow> panic + (nat \<times> ack_point) option" where
  "a0_search 0 acked r = Inr None"
| "a0_search (Suc n) acked r =
     (let i = Len r - Suc n in
      and_then (Offset i r) (\<lambda>p.
      if apTotal (cells r ! p) > acked then and_then (Offset (i - 1) r) (\<lambda>p'. Inr (Some (i, cells r ! p')))
      else a0_search n acked r))"

text \<open>The last loop, whose bound shrinks with the ring.\<close>

primrec a0_drop :: "nat \<Rightarrow> nat \<Rightarrow> ack_point ring \<Rightarrow> panic + ack_point ring" where
  "a0_drop 0 k r = Inr r"
| "a0_drop (Suc n) k r =
     (if k < Len r - 1 then and_then (PopFront no_point r) (\<lambda>(_, r). a0_drop n (k + 1) r) else Inr r)"

definition chooseA0Point :: "int \<Rightarrow> ack_point ring \<Rightarrow> panic + ack_point option \<times> ack_point ring" where
  "chooseA0Point acked r =
     (if Empty r then Inr (None, r)
      else if Len r = 1 then and_then (Front r) (\<lambda>p. Inr (Some (cells r ! p), r))
      else and_then (a0_search (Len r - 1) acked r) (\<lambda>found. case found of
          Some (i, a0) \<Rightarrow> if i > 1 then and_then (pop_n (i - 1) r) (\<lambda>r. Inr (Some a0, r)) else Inr (Some a0, r)
        | None \<Rightarrow> and_then (Back r) (\<lambda>p. and_then (a0_drop (Len r) 0 r) (\<lambda>r'. Inr (Some (cells r ! p), r')))))"

section \<open>Acknowledgements\<close>

text \<open>What an acknowledged packet that is still tracked changes.\<close>

definition count_acked :: "int \<Rightarrow> int \<Rightarrow> sent_packet \<Rightarrow> bandwidth_sampler \<Rightarrow> bandwidth_sampler" where
  "count_acked ackTime packetNumber p b =
     (let b = b\<lparr>totalAcked := totalAcked b + pktSize p, sentAtLastAckedPacket := stSent (sendState p),
            lastAckedPacketSentTime := sentTime p, lastAckedPacketAckTime := ackTime\<rparr>;
          b = (if overestimateAvoidance b then b\<lparr>recentPoints := points_Update ackTime (totalAcked b) (recentPoints b)\<rparr> else b) in
      if appLimited b \<and> (endOfAppLimitedPhase b = invalidPacketNumber \<or> packetNumber > endOfAppLimitedPhase b)
      then b\<lparr>appLimited := False\<rparr> else b)"

definition onPacketAcknowledged :: "int \<Rightarrow> int \<Rightarrow> bandwidth_sampler \<Rightarrow> panic + bandwidth_sample \<times> bandwidth_sampler" where
  "onPacketAcknowledged ackTime packetNumber b =
     (let b = b\<lparr>lastAckedPacket := packetNumber\<rparr> in
      and_then (GetEntry packetNumber (connectionState b)) (\<lambda>e. case e of
        None \<Rightarrow> Inr (newBandwidthSample, b)
      | Some p \<Rightarrow>
          let b = count_acked ackTime packetNumber p b in
          if lastAckedSentTime p = 0 then Inr (newBandwidthSample, b)
          else
            and_then (if sentTime p > lastAckedSentTime p
                then BandwidthFromDelta (stSent (sendState p) - sentAtLastAcked p) (sentTime p - lastAckedSentTime p)
                else Inr infBandwidth) (\<lambda>sendRate.
            and_then (if overestimateAvoidance b then chooseA0Point (stAcked (sendState p)) (a0Candidates b)
                else Inr (None, a0Candidates b)) (\<lambda>(chosen, ring).
            let b = b\<lparr>a0Candidates := ring\<rparr>;
                a0 = (case chosen of Some a \<Rightarrow> a | None \<Rightarrow> \<lparr>apTime = lastAckedAckTime p, apTotal = stAcked (sendState p)\<rparr>) in
            if ackTime - apTime a0 \<le> 0 then Inr (newBandwidthSample, b)
            else
              and_then (BandwidthFromDelta (totalAcked b - apTotal a0) (ackTime - apTime a0)) (\<lambda>ackRate.
              Inr (\<lparr>bsBandwidth = min sendRate ackRate, bsRtt = ackTime - sentTime p, bsSendRate = sendRate,
                bsState = (sendState p)\<lparr>isValid := True\<rparr>\<rparr>, b))))))"

definition onAckEventEnd :: "u64 \<Rightarrow> bool \<Rightarrow> u64 \<Rightarrow> bandwidth_sampler \<Rightarrow> int \<times> bandwidth_sampler" where
  "onAckEventEnd bandwidthEstimate isNewMaxBandwidth roundTrips b =
     (let newlyAcked = totalAcked b - ackedAfterLastEvent b in
      if newlyAcked = 0 then (0, b)
      else case tracker_Update bandwidthEstimate isNewMaxBandwidth roundTrips (lastSentPacket b) (lastAckedPacket b)
            (lastAckedPacketAckTime b) newlyAcked (heightTracker b) of
        (extra, tracker) \<Rightarrow>
          let b = b\<lparr>ackedAfterLastEvent := totalAcked b, heightTracker := tracker\<rparr> in
          (extra, if overestimateAvoidance b \<and> extra = 0
                  then b\<lparr>a0Candidates := PushBack no_point (LessRecentPoint (recentPoints b)) (a0Candidates b)\<rparr> else b))"

record event_sample =
  esMaxBandwidth :: u64
  esAppLimited :: bool
  esRtt :: int
  esMaxInflight :: int
  esState :: send_time_state
  esExtraAcked :: int

definition newCongestionEventSample :: event_sample where
  "newCongestionEventSample = \<lparr>esMaxBandwidth = 0, esAppLimited = False, esRtt = infRTT, esMaxInflight = 0, esState = no_state, esExtraAcked = 0\<rparr>"

fun lost_loop :: "(int \<times> int) list \<Rightarrow> send_time_state \<Rightarrow> bandwidth_sampler \<Rightarrow> panic + send_time_state \<times> bandwidth_sampler" where
  "lost_loop [] st b = Inr (st, b)"
| "lost_loop ((packetNumber, bytesLost) # ls) st b =
     and_then (OnPacketLost packetNumber bytesLost b) (\<lambda>(s, b). lost_loop ls (if isValid s then s else st) b)"

text \<open>The state of the loop over the acknowledged packets: the event sample, the last valid send state
  and the largest send rate.\<close>

definition take_sample :: "bandwidth_sample \<Rightarrow> int \<Rightarrow> event_sample \<times> send_time_state \<times> u64 \<Rightarrow> event_sample \<times> send_time_state \<times> u64" where
  "take_sample s acked acc = (case acc of (es, st, maxSendRate) \<Rightarrow>
     if \<not> isValid (bsState s) then (es, st, maxSendRate)
     else
       let st = bsState s;
           es = (if bsRtt s \<noteq> 0 then es\<lparr>esRtt := min (esRtt es) (bsRtt s)\<rparr> else es);
           es = (if bsBandwidth s > esMaxBandwidth es
                 then es\<lparr>esMaxBandwidth := bsBandwidth s, esAppLimited := stAppLimited (bsState s)\<rparr> else es);
           maxSendRate = (if bsSendRate s \<noteq> infBandwidth then max maxSendRate (bsSendRate s) else maxSendRate);
           inflight = acked - stAcked st;
           es = (if inflight > esMaxInflight es then es\<lparr>esMaxInflight := inflight\<rparr> else es)
       in (es, st, maxSendRate))"

fun acked_loop :: "int \<Rightarrow> int list \<Rightarrow> event_sample \<times> send_time_state \<times> u64 \<Rightarrow> bandwidth_sampler
    \<Rightarrow> panic + (event_sample \<times> send_time_state \<times> u64) \<times> bandwidth_sampler" where
  "acked_loop ackTime [] acc b = Inr (acc, b)"
| "acked_loop ackTime (packetNumber # ps) acc b =
     and_then (onPacketAcknowledged ackTime packetNumber b) (\<lambda>(s, b).
     acked_loop ackTime ps (take_sample s (totalAcked b) acc) b)"

definition OnCongestionEvent :: "int \<Rightarrow> int list \<Rightarrow> (int \<times> int) list \<Rightarrow> u64 \<Rightarrow> u64 \<Rightarrow> u64 \<Rightarrow> bandwidth_sampler
    \<Rightarrow> panic + event_sample \<times> bandwidth_sampler" where
  "OnCongestionEvent ackTime ackedPackets lostPackets maxBandwidth estBandwidthUpperBound roundTrips b =
     and_then (lost_loop lostPackets no_state b) (\<lambda>(lostState, b).
     if ackedPackets = [] then Inr (newCongestionEventSample\<lparr>esState := lostState\<rparr>, b)
     else and_then (acked_loop ackTime ackedPackets (newCongestionEventSample, no_state, 0) b) (\<lambda>((es, ackedState, maxSendRate), b).
       let es = es\<lparr>esState :=
             if \<not> isValid lostState then ackedState
             else if \<not> isValid ackedState then lostState
             else if fst (last lostPackets) > last ackedPackets then lostState else ackedState\<rparr>;
           isNewMaxBandwidth = (esMaxBandwidth es > maxBandwidth);
           maxBandwidth = max maxBandwidth (esMaxBandwidth es);
           maxBandwidth = (if limitBySendRate b then max maxBandwidth maxSendRate else maxBandwidth) in
       case onAckEventEnd (min estBandwidthUpperBound maxBandwidth) isNewMaxBandwidth roundTrips b of
         (extra, b) \<Rightarrow> Inr (es\<lparr>esExtraAcked := extra\<rparr>, b)))"

end
