(* ===== verification/SamplerInv.thy ===== *)
theory SamplerInv
  imports BandwidthSampler
begin

text \<open>
  The invariant of the bandwidth sampler: its queue and ring are sound, every time it keeps is a time,
  and every total it keeps with a packet or an ack point is at most the total now, so that the
  differences the rates are made of are never negative.
\<close>

section \<open>Rates\<close>

text \<open>A time: nanoseconds in a signed 64-bit integer that is not negative.\<close>

definition time_ok :: "int \<Rightarrow> bool" where
  "time_ok t \<longleftrightarrow> 0 \<le> t \<and> t < 2 ^ 63"

lemma unat_of_int: "0 \<le> x \<Longrightarrow> x < 2 ^ 64 \<Longrightarrow> int (unat (word_of_int x :: u64)) = x"
  by (simp add: unsigned_of_int take_bit_int_eq_self flip: of_nat_take_bit)

lemma rate_exact:
  assumes "0 < dt" and "dt < 2 ^ 63"
  shows "\<exists>r. BandwidthFromDelta bytes dt = Inr r \<and>
    (0 \<le> bytes \<and> bytes * Second * 8 < 2 ^ 64 \<longrightarrow> int (unat r) \<le> bytes * Second * 8 div dt)"
proof -
  have dt: "int (unat (word_of_int dt :: u64)) = dt" by (rule unat_of_int) (use assms in simp_all)
  then have nz: "(word_of_int dt :: u64) \<noteq> 0" using assms(1) by auto
  have "int (unat (word_of_int bytes * word_of_int Second div word_of_int dt * 8 :: u64)) \<le> bytes * Second * 8 div dt"
    if b: "0 \<le> bytes" "bytes * Second * 8 < 2 ^ 64"
  proof -
    let ?p = "bytes * Second"
    have p: "0 \<le> ?p" "?p < 2 ^ 64" using b by (simp_all add: Second_def)
    have mul: "word_of_int bytes * word_of_int Second = (word_of_int ?p :: u64)" by simp
    have "unat (word_of_int ?p div word_of_int dt :: u64) = unat (word_of_int ?p :: u64) div unat (word_of_int dt :: u64)"
      by (rule unat_div)
    then have q: "int (unat (word_of_int ?p div word_of_int dt :: u64)) = ?p div dt"
      using unat_of_int [OF p] dt by (simp add: zdiv_int)
    have "unat (word_of_int ?p div word_of_int dt * 8 :: u64) \<le> unat (word_of_int ?p div word_of_int dt :: u64) * 8"
      by (simp add: unat_word_ariths)
    then have "int (unat (word_of_int ?p div word_of_int dt * 8 :: u64)) \<le> ?p div dt * 8" unfolding q [symmetric] by linarith
    also have "\<dots> \<le> ?p * 8 div dt"
    proof -
      have "?p div dt * dt \<le> ?p" using assms(1) by (simp add: minus_mod_eq_div_mult [symmetric])
      then have "?p div dt * 8 * dt \<le> ?p * 8" by linarith
      then show ?thesis using assms(1) by (metis div_mult_self_is_m nonzero_mult_div_cancel_right not_less_iff_gr_or_eq zdiv_mono1)
    qed
    finally show ?thesis unfolding mul .
  qed
  then show ?thesis using nz by (simp add: BandwidthFromDelta_def)
qed

section \<open>Choosing an ack point\<close>

lemma pop_n_ok:
  assumes "ring_ok r" and "n \<le> length (items r)"
  shows "\<exists>r'. pop_n n r = Inr r' \<and> ring_ok r' \<and> items r' = drop n (items r)"
  using assms
proof (induction n arbitrary: r)
  case (Suc n)
  then have "items r \<noteq> []" by (metis Suc_le_length_iff list.distinct(1))
  then obtain r1 where r1: "PopFront no_point r = Inr (hd (items r), r1)" "ring_ok r1" "items r1 = tl (items r)"
    using PopFront_ok [OF Suc.prems(1)] by blast
  then have "n \<le> length (items r1)" using Suc.prems(2) by (simp add: length_tl del: length_items)
  from Suc.IH [OF r1(2) this] r1(1,3) show ?case by (auto simp: drop_Suc)
qed simp

lemma a0_search_ok:
  assumes ok: "ring_ok r" and "n < length (items r)"
  shows "\<exists>found. a0_search n acked r = Inr found \<and>
    (\<forall>i a. found = Some (i, a) \<longrightarrow> 1 \<le> i \<and> i < length (items r) \<and> a \<in> set (items r))"
  using assms(2)
proof (induction n)
  case (Suc n)
  let ?i = "Len r - Suc n"
  have i: "?i < length (items r)" "?i - 1 < length (items r)" "1 \<le> ?i" using Suc.prems by simp_all
  obtain p where p: "Offset ?i r = Inr p" "cells r ! p = items r ! ?i" using Offset_ok [OF ok i(1)] by blast
  obtain p' where p': "Offset (?i - 1) r = Inr p'" "cells r ! p' = items r ! (?i - 1)" using Offset_ok [OF ok i(2)] by blast
  show ?case
  proof (cases "apTotal (cells r ! p) > acked")
    case True
    moreover have "items r ! (?i - 1) \<in> set (items r)" using i(2) by (rule nth_mem)
    ultimately show ?thesis using p p' i by (auto simp: Let_def)
  next
    case False
    then show ?thesis using p Suc by (auto simp: Let_def)
  qed
qed simp

lemma a0_drop_ok:
  assumes "ring_ok r"
  shows "\<exists>r'. a0_drop n k r = Inr r' \<and> ring_ok r' \<and> set (items r') \<subseteq> set (items r)"
  using assms
proof (induction n arbitrary: k r)
  case (Suc n)
  show ?case
  proof (cases "k < Len r - 1")
    case True
    then have "items r \<noteq> []" using length_items [of r] by force
    then obtain r1 where r1: "PopFront no_point r = Inr (hd (items r), r1)" "ring_ok r1" "items r1 = tl (items r)"
      using PopFront_ok [OF Suc.prems] by blast
    then have "set (items r1) \<subseteq> set (items r)" by (metis list.set_sel(2) subsetI \<open>items r \<noteq> []\<close>)
    then show ?thesis using Suc.IH [OF r1(2), of "k + 1"] r1(1) True by fastforce
  next
    case False
    then show ?thesis using Suc.prems by auto
  qed
qed simp

lemma chooseA0Point_ok:
  assumes ok: "ring_ok r"
  shows "\<exists>chosen r'. chooseA0Point acked r = Inr (chosen, r') \<and> ring_ok r' \<and> set (items r') \<subseteq> set (items r) \<and>
    (\<forall>a. chosen = Some a \<longrightarrow> a \<in> set (items r))"
proof (cases "items r = []")
  case True
  then show ?thesis using ok Empty_iff [OF ok] by (simp add: chooseA0Point_def)
next
  case False
  then have nonempty: "\<not> Empty r" "0 < Len r" using Empty_iff [OF ok] length_greater_0_conv [of "items r"] by simp_all
  show ?thesis
  proof (cases "Len r = 1")
    case True
    obtain p where "Front r = Inr p" "cells r ! p = hd (items r)" using Front_ok [OF ok False] by blast
    then show ?thesis using True nonempty ok False by (simp add: chooseA0Point_def)
  next
    case several: False
    obtain found where f: "a0_search (Len r - 1) acked r = Inr found"
        "\<And>i a. found = Some (i, a) \<Longrightarrow> 1 \<le> i \<and> i < length (items r) \<and> a \<in> set (items r)"
      using a0_search_ok [OF ok, of "Len r - 1" acked] nonempty(2) by auto
    show ?thesis
    proof (cases found)
      case None
      obtain p where "Back r = Inr p" "cells r ! p = last (items r)" using Back_ok [OF ok False] by blast
      moreover obtain r' where "a0_drop (Len r) 0 r = Inr r'" "ring_ok r'" "set (items r') \<subseteq> set (items r)"
        using a0_drop_ok [OF ok] by blast
      ultimately show ?thesis using None f(1) several nonempty False by (simp add: chooseA0Point_def)
    next
      case (Some ia)
      then obtain i a where ia: "found = Some (i, a)" by (cases ia) auto
      from f(2) [OF this] have i: "i - 1 \<le> length (items r)" "a \<in> set (items r)" by auto
      obtain r' where r': "pop_n (i - 1) r = Inr r'" "ring_ok r'" "items r' = drop (i - 1) (items r)"
        using pop_n_ok [OF ok i(1)] by blast
      moreover have "set (items r') \<subseteq> set (items r)" unfolding r'(3) by (rule set_drop_subset)
      ultimately show ?thesis using ia f(1) several nonempty ok i(2) by (simp add: chooseA0Point_def)
    qed
  qed
qed

section \<open>The invariant\<close>

definition packet_ok :: "bandwidth_sampler \<Rightarrow> sent_packet \<Rightarrow> bool" where
  "packet_ok b p \<longleftrightarrow> time_ok (sentTime p) \<and> time_ok (lastAckedSentTime p) \<and> time_ok (lastAckedAckTime p) \<and> 0 \<le> pktSize p \<and>
     sentAtLastAcked p \<le> stSent (sendState p) \<and> stSent (sendState p) \<le> totalSent b \<and> 0 \<le> stAcked (sendState p) \<and> stAcked (sendState p) \<le> totalAcked b"

definition point_ok :: "bandwidth_sampler \<Rightarrow> ack_point \<Rightarrow> bool" where
  "point_ok b a \<longleftrightarrow> time_ok (apTime a) \<and> 0 \<le> apTotal a \<and> apTotal a \<le> totalAcked b"

definition sampler_ok :: "bandwidth_sampler \<Rightarrow> bool" where
  "sampler_ok b \<longleftrightarrow> queue_ok (connectionState b) \<and> ring_ok (a0Candidates b) \<and>
     (\<forall>pn p. view (connectionState b) pn = Some p \<longrightarrow> packet_ok b p) \<and>
     (\<forall>a \<in> set (items (a0Candidates b)). point_ok b a) \<and>
     point_ok b (fst (recentPoints b)) \<and> point_ok b (snd (recentPoints b)) \<and>
     time_ok (lastAckedPacketSentTime b) \<and> time_ok (lastAckedPacketAckTime b) \<and>
     0 \<le> totalAcked b \<and> sentAtLastAckedPacket b \<le> totalSent b"

lemma new_sampler_ok: "sampler_ok (newBandwidthSampler w)"
  using new_queue [of no_packet 256] Init_ok [of no_point 256]
  by (simp add: sampler_ok_def newBandwidthSampler_def points_Clear_def point_ok_def no_point_def time_ok_def)

text \<open>What the rest of the invariant needs of a step that leaves the queue and the ring alone.\<close>

lemma packet_ok_mono: "packet_ok b p \<Longrightarrow> totalSent b \<le> totalSent b' \<Longrightarrow> totalAcked b \<le> totalAcked b' \<Longrightarrow> packet_ok b' p"
  by (auto simp: packet_ok_def)

lemma point_ok_mono: "point_ok b a \<Longrightarrow> totalAcked b \<le> totalAcked b' \<Longrightarrow> point_ok b' a"
  by (auto simp: point_ok_def)

lemma points_Update_ok:
  assumes "point_ok b (fst ps)" and "point_ok b (snd ps)" and "time_ok t"
  shows "point_ok b (fst (points_Update t (totalAcked b) ps)) \<and> point_ok b (snd (points_Update t (totalAcked b) ps))"
  using assms by (auto simp: points_Update_def point_ok_def Let_def split: prod.splits)

lemma points_Clear_ok: "0 \<le> totalAcked b \<Longrightarrow> point_ok b (fst points_Clear) \<and> point_ok b (snd points_Clear)"
  by (simp add: points_Clear_def point_ok_def no_point_def time_ok_def)

lemma emplace_view:
  assumes "queue_ok q" and "-1 \<le> pn"
  shows "queue_ok (snd (Emplace z pn (Some x) q)) \<and>
    (view (snd (Emplace z pn (Some x) q)) = view q \<or> view (snd (Emplace z pn (Some x) q)) = (view q)(pn \<mapsto> x))"
proof (cases "pn = -1 \<or> view q \<noteq> Map.empty \<and> pn \<le> LastPacket q")
  case True
  then show ?thesis using emplace_refused [OF assms(1)] assms(1) by simp
next
  case False
  then show ?thesis using emplace_stored [OF assms(1), of pn z x] assms(2) by force
qed

lemma sent_idle_ok:
  assumes "sampler_ok b" and "time_ok t"
  shows "sampler_ok (sent_idle t b) \<and> totalSent (sent_idle t b) = totalSent b \<and> totalAcked (sent_idle t b) = totalAcked b"
proof -
  let ?ps = "points_Update t (totalAcked b) points_Clear"
  have ps: "point_ok b (fst ?ps)" "point_ok b (snd ?ps)"
    using points_Update_ok [of b points_Clear t] points_Clear_ok [of b] assms by (auto simp: sampler_ok_def)
  have ring: "ring_ok (PushBack no_point (snd ?ps) (ring_Clear no_point (a0Candidates b)))"
      "items (PushBack no_point (snd ?ps) (ring_Clear no_point (a0Candidates b))) = [snd ?ps]"
    using PushBack_ok [of "ring_Clear no_point (a0Candidates b)" no_point "snd ?ps"] Clear_ok [of no_point "a0Candidates b"] by simp_all
  show ?thesis
    using assms ps ring unfolding sampler_ok_def sent_idle_def
    by (auto simp: Let_def MostRecentPoint_def packet_ok_def point_ok_def)
qed

lemma OnPacketSent_ok:
  assumes ok: "sampler_ok b" and "time_ok t" and "-1 \<le> pn" and "0 \<le> n"
  shows "sampler_ok (OnPacketSent t pn n inflight retrans b)"
proof (cases retrans)
  case False
  then show ?thesis using ok by (auto simp: OnPacketSent_def sampler_ok_def packet_ok_def point_ok_def)
next
  case True
  let ?b1 = "b\<lparr>lastSentPacket := pn, totalSent := totalSent b + n\<rparr>"
  let ?b2 = "if inflight = 0 then sent_idle t ?b1 else ?b1"
  let ?p = "newConnectionStateOnSentPacket t n (inflight + n) ?b2"
  let ?q = "snd (Emplace no_packet pn (Some ?p) (connectionState ?b2))"
  have b1: "sampler_ok ?b1" using ok assms(4) by (fastforce simp: sampler_ok_def packet_ok_def point_ok_def)
  have b2: "sampler_ok ?b2" using sent_idle_ok [OF b1 assms(2)] b1 by simp
  have p: "packet_ok ?b2 ?p"
    using b2 assms(2,4) by (auto simp: packet_ok_def newConnectionStateOnSentPacket_def sampler_ok_def)
  have q: "queue_ok ?q" "view ?q = view (connectionState ?b2) \<or> view ?q = (view (connectionState ?b2))(pn \<mapsto> ?p)"
    using emplace_view [of "connectionState ?b2" pn no_packet ?p] b2 assms(3) by (auto simp: sampler_ok_def)
  have eq: "OnPacketSent t pn n inflight retrans b = ?b2\<lparr>connectionState := ?q\<rparr>"
    using True by (simp add: OnPacketSent_def Let_def)
  have "\<forall>n x. view ?q n = Some x \<longrightarrow> packet_ok ?b2 x" using q(2) p b2 by (auto simp: sampler_ok_def split: if_splits)
  then show ?thesis unfolding eq using b2 q(1) by (simp add: sampler_ok_def packet_ok_def point_ok_def)
qed

lemma OnPacketLost_ok:
  assumes "sampler_ok b"
  shows "\<exists>st b'. OnPacketLost pn n b = Inr (st, b') \<and> sampler_ok b' \<and> totalAcked b' = totalAcked b"
  using assms get_entry [of "connectionState b" pn]
  by (simp add: OnPacketLost_def Let_def sampler_ok_def packet_ok_def point_ok_def)

lemma OnPacketNeutered_ok:
  assumes "sampler_ok b"
  shows "\<exists>b'. OnPacketNeutered pn b = Inr b' \<and> sampler_ok b' \<and> totalAcked b' = totalAcked b"
proof -
  obtain q' where q': "Remove no_packet pn (connectionState b) = Inr (view (connectionState b) pn, q')" "queue_ok q'"
      "view q' = (view (connectionState b))(pn := None)"
    using remove_entry [of "connectionState b" no_packet pn] assms by (auto simp: sampler_ok_def)
  then show ?thesis using assms
    by (auto simp: OnPacketNeutered_def sampler_ok_def packet_ok_def point_ok_def split: if_splits)
qed

lemma OnAppLimited_ok: "sampler_ok b \<Longrightarrow> sampler_ok (OnAppLimited b)"
  by (simp add: OnAppLimited_def sampler_ok_def packet_ok_def point_ok_def)

lemma EnableOverestimateAvoidance_ok: "sampler_ok b \<Longrightarrow> sampler_ok (EnableOverestimateAvoidance b)"
  by (simp add: EnableOverestimateAvoidance_def sampler_ok_def packet_ok_def point_ok_def)

lemma RemoveObsoletePackets_ok:
  assumes "sampler_ok b"
  shows "\<exists>b'. RemoveObsoletePackets pn b = Inr b' \<and> sampler_ok b' \<and> totalAcked b' = totalAcked b"
proof -
  obtain q' where "RemoveUpTo no_packet pn (connectionState b) = Inr q'" "queue_ok q'" "view q' = view (connectionState b) |` {pn..}"
    using remove_up_to [of "connectionState b" no_packet pn] assms by (auto simp: sampler_ok_def)
  then show ?thesis using assms
    by (auto simp: RemoveObsoletePackets_def sampler_ok_def packet_ok_def point_ok_def restrict_map_def split: if_splits)
qed

section \<open>What is kept is the past\<close>

definition packet_hist :: "(int \<times> int) set \<Rightarrow> (int \<times> int \<times> int) set \<Rightarrow> sent_packet \<Rightarrow> bool" where
  "packet_hist A D p \<longleftrightarrow> (sentTime p, stSent (sendState p), stAcked (sendState p)) \<in> D \<and>
     (\<exists>c. (lastAckedSentTime p, sentAtLastAcked p, c) \<in> D) \<and> (lastAckedAckTime p, stAcked (sendState p)) \<in> A"

definition point_hist :: "(int \<times> int) set \<Rightarrow> ack_point \<Rightarrow> bool" where
  "point_hist A a \<longleftrightarrow> (apTime a, apTotal a) \<in> A"

definition sampler_hist :: "(int \<times> int) set \<Rightarrow> (int \<times> int \<times> int) set \<Rightarrow> bandwidth_sampler \<Rightarrow> bool" where
  "sampler_hist A D b \<longleftrightarrow> (0, 0) \<in> A \<and> (\<forall>pn p. view (connectionState b) pn = Some p \<longrightarrow> packet_hist A D p) \<and>
     (\<forall>a \<in> set (items (a0Candidates b)). point_hist A a) \<and> point_hist A (fst (recentPoints b)) \<and> point_hist A (snd (recentPoints b)) \<and>
     (\<exists>c. (lastAckedPacketSentTime b, sentAtLastAckedPacket b, c) \<in> D) \<and> (lastAckedPacketAckTime b, totalAcked b) \<in> A"

lemma new_sampler_hist: "sampler_hist {(0, 0)} {(0, 0, 0)} (newBandwidthSampler w)"
  using new_queue [of no_packet 256] Init_ok [of no_point 256]
  by (simp add: sampler_hist_def newBandwidthSampler_def points_Clear_def point_hist_def no_point_def)

lemma sampler_hist_mono: "sampler_hist A D b \<Longrightarrow> A \<subseteq> A' \<Longrightarrow> D \<subseteq> D' \<Longrightarrow> sampler_hist A' D' b"
  unfolding sampler_hist_def packet_hist_def point_hist_def by blast

lemma sampler_hist_insert: "sampler_hist A D b \<Longrightarrow> sampler_hist (insert x A) D b"
  by (rule sampler_hist_mono) auto

lemma points_Update_hist:
  "point_hist A (fst ps) \<Longrightarrow> point_hist A (snd ps) \<Longrightarrow> (t, a) \<in> A \<Longrightarrow>
     point_hist A (fst (points_Update t a ps)) \<and> point_hist A (snd (points_Update t a ps))"
  by (auto simp: points_Update_def point_hist_def Let_def split: prod.splits)

lemma sent_idle_hist:
  assumes ok: "sampler_ok b" and h: "sampler_hist A D b" and A: "(t, totalAcked b) \<in> A" and D: "(t, totalSent b, c) \<in> D"
  shows "sampler_hist A D (sent_idle t b)"
proof -
  let ?ps = "points_Update t (totalAcked b) points_Clear"
  have "point_hist A no_point" using h by (simp add: sampler_hist_def point_hist_def no_point_def)
  then have ps: "point_hist A (fst ?ps)" "point_hist A (snd ?ps)"
    using points_Update_hist [of A points_Clear t "totalAcked b"] A by (auto simp: points_Clear_def)
  have ring: "items (PushBack no_point (snd ?ps) (ring_Clear no_point (a0Candidates b))) = [snd ?ps]"
    using PushBack_ok [of "ring_Clear no_point (a0Candidates b)" no_point "snd ?ps"] Clear_ok [of no_point "a0Candidates b"] ok
    by (simp_all add: sampler_ok_def)
  show ?thesis using h ps A D ring unfolding sampler_hist_def sent_idle_def by (auto simp: Let_def MostRecentPoint_def)
qed

lemma OnPacketSent_hist:
  assumes ok: "sampler_ok b" and h: "sampler_hist A D b" and pn: "-1 \<le> pn" and n: "0 \<le> n" and t: "time_ok t"
    and A: "(t, totalAcked b) \<in> A" and D: "(t, totalSent b + n, totalAcked b) \<in> D"
  shows "sampler_hist A D (OnPacketSent t pn n inflight True b)"
proof -
  let ?b1 = "b\<lparr>lastSentPacket := pn, totalSent := totalSent b + n\<rparr>"
  let ?b2 = "if inflight = 0 then sent_idle t ?b1 else ?b1"
  let ?p = "newConnectionStateOnSentPacket t n (inflight + n) ?b2"
  let ?q = "snd (Emplace no_packet pn (Some ?p) (connectionState ?b2))"
  have b1: "sampler_ok ?b1" "sampler_hist A D ?b1"
    using ok h n by (fastforce simp: sampler_ok_def packet_ok_def point_ok_def, simp add: sampler_hist_def)
  have b2: "sampler_hist A D ?b2" "totalSent ?b2 = totalSent b + n" "totalAcked ?b2 = totalAcked b" "sampler_ok ?b2"
    using sent_idle_hist [OF b1, of t] sent_idle_ok [OF b1(1) t] b1 A D by auto
  have p: "packet_hist A D ?p"
    using b2(1-3) D unfolding packet_hist_def sampler_hist_def newConnectionStateOnSentPacket_def by simp
  have q: "view ?q = view (connectionState ?b2) \<or> view ?q = (view (connectionState ?b2))(pn \<mapsto> ?p)"
    using emplace_view [of "connectionState ?b2" pn no_packet ?p] b2(4) pn by (auto simp: sampler_ok_def)
  have eq: "OnPacketSent t pn n inflight True b = ?b2\<lparr>connectionState := ?q\<rparr>"
    by (simp add: OnPacketSent_def Let_def)
  have "\<forall>n x. view ?q n = Some x \<longrightarrow> packet_hist A D x" using q p b2(1) by (auto simp: sampler_hist_def split: if_splits)
  then show ?thesis unfolding eq using b2(1) by (simp add: sampler_hist_def)
qed

section \<open>Acknowledgements\<close>

text \<open>The rates of a sample: \<open>A\<close> holds the moments of the run as pairs of a time and the bytes acknowledged by
  then, \<open>D\<close> the packets sent as their time, the bytes sent by then, the packet included, and the bytes
  acknowledged by then. The send rate lies between two packets that were sent; the ack rate lies between a moment of the
  run, which without overestimate avoidance is the one the packet was sent at, and the acknowledgement.\<close>

definition measured :: "bool \<Rightarrow> (int \<times> int) set \<Rightarrow> (int \<times> int \<times> int) set \<Rightarrow> int \<Rightarrow> int \<Rightarrow> u64 \<Rightarrow> bool" where
  "measured avoidance A D t acked bw \<longleftrightarrow> (\<exists>t0 a0 s0 b0 c0 s1 b1 c1 send ack. (t0, a0) \<in> A \<and> (s0, b0, c0) \<in> D \<and> (s1, b1, c1) \<in> D \<and>
     t0 < t \<and> (avoidance \<or> a0 = c1) \<and>
     (if s0 < s1 then BandwidthFromDelta (b1 - b0) (s1 - s0) = Inr send else send = infBandwidth) \<and>
     BandwidthFromDelta (acked - a0) (t - t0) = Inr ack \<and> bw = min send ack \<and>
     ((acked - a0) * Second * 8 < 2 ^ 64 \<longrightarrow> int (unat bw) \<le> (acked - a0) * Second * 8 div (t - t0)))"

lemma measured_mono: "measured v A D t acked bw \<Longrightarrow> A \<subseteq> A' \<Longrightarrow> D \<subseteq> D' \<Longrightarrow> measured v A' D' t acked bw"
  unfolding measured_def by blast

lemma measured_earlier: "measured v (A \<union> {t} \<times> X) D t acked bw \<Longrightarrow> measured v A D t acked bw"
  unfolding measured_def by blast

lemma measured_of_packet:
  assumes "packet_hist A D p" and "point_hist A a0" and "0 < t - apTime a0" and "\<not> v \<Longrightarrow> apTotal a0 = stAcked (sendState p)"
    and "(if sentTime p > lastAckedSentTime p
        then BandwidthFromDelta (stSent (sendState p) - sentAtLastAcked p) (sentTime p - lastAckedSentTime p)
        else Inr infBandwidth) = Inr send"
    and "BandwidthFromDelta (acked - apTotal a0) (t - apTime a0) = Inr ack"
    and "(acked - apTotal a0) * Second * 8 < 2 ^ 64 \<longrightarrow> int (unat (min send ack)) \<le> (acked - apTotal a0) * Second * 8 div (t - apTime a0)"
  shows "measured v A D t acked (min send ack)"
proof -
  obtain c where c: "(lastAckedSentTime p, sentAtLastAcked p, c) \<in> D" using assms(1) by (auto simp: packet_hist_def)
  have "(sentTime p, stSent (sendState p), stAcked (sendState p)) \<in> D" using assms(1) by (simp add: packet_hist_def)
  moreover have "if lastAckedSentTime p < sentTime p
      then BandwidthFromDelta (stSent (sendState p) - sentAtLastAcked p) (sentTime p - lastAckedSentTime p) = Inr send else send = infBandwidth"
    using assms(5) by (auto split: if_splits)
  moreover have "v \<or> apTotal a0 = stAcked (sendState p)" using assms(4) by blast
  moreover have "(apTime a0, apTotal a0) \<in> A" "apTime a0 < t" using assms(2,3) by (simp_all add: point_hist_def)
  ultimately show ?thesis using assms(6,7) c unfolding measured_def by blast
qed

lemma count_acked_ok:
  assumes ok: "sampler_ok b" and p: "packet_ok b p" and t: "time_ok t"
  shows "sampler_ok (count_acked t pn p b) \<and> totalAcked (count_acked t pn p b) = totalAcked b + pktSize p \<and>
    totalSent (count_acked t pn p b) = totalSent b \<and> a0Candidates (count_acked t pn p b) = a0Candidates b"
proof -
  let ?b1 = "b\<lparr>totalAcked := totalAcked b + pktSize p, sentAtLastAckedPacket := stSent (sendState p),
    lastAckedPacketSentTime := sentTime p, lastAckedPacketAckTime := t\<rparr>"
  let ?ps = "points_Update t (totalAcked ?b1) (recentPoints ?b1)"
  have b1: "sampler_ok ?b1" using ok p t by (fastforce simp: sampler_ok_def packet_ok_def point_ok_def)
  then have ps: "point_ok ?b1 (fst ?ps)" "point_ok ?b1 (snd ?ps)"
    using points_Update_ok [of ?b1 "recentPoints ?b1" t] t unfolding sampler_ok_def by blast+
  then show ?thesis using b1 unfolding count_acked_def sampler_ok_def
    by (simp add: Let_def packet_ok_def point_ok_def)
qed

lemma count_acked_hist:
  assumes h: "sampler_hist A D b" and p: "packet_hist A D p" and A: "(t, totalAcked b + pktSize p) \<in> A"
  shows "sampler_hist A D (count_acked t pn p b) \<and> overestimateAvoidance (count_acked t pn p b) = overestimateAvoidance b"
proof -
  let ?b1 = "b\<lparr>totalAcked := totalAcked b + pktSize p, sentAtLastAckedPacket := stSent (sendState p),
    lastAckedPacketSentTime := sentTime p, lastAckedPacketAckTime := t\<rparr>"
  have b1: "sampler_hist A D ?b1" using h p A by (auto simp: sampler_hist_def packet_hist_def)
  then have "point_hist A (fst (points_Update t (totalAcked ?b1) (recentPoints ?b1))) \<and> point_hist A (snd (points_Update t (totalAcked ?b1) (recentPoints ?b1)))"
    using points_Update_hist [of A "recentPoints ?b1" t] A by (simp add: sampler_hist_def)
  then show ?thesis using b1 unfolding count_acked_def sampler_hist_def by (simp add: Let_def)
qed

lemma onPacketAcknowledged_ok:
  assumes ok: "sampler_ok b" and t: "time_ok t" and h: "sampler_hist A D b"
  shows "\<exists>s b'. onPacketAcknowledged t pn b = Inr (s, b') \<and> sampler_ok b' \<and> totalAcked b \<le> totalAcked b' \<and>
    sampler_hist (insert (t, totalAcked b') A) D b' \<and> overestimateAvoidance b' = overestimateAvoidance b \<and>
    (s = newBandwidthSample \<or> measured (overestimateAvoidance b) (insert (t, totalAcked b') A) D t (totalAcked b') (bsBandwidth s))"
proof -
  let ?base = "b\<lparr>lastAckedPacket := pn\<rparr>"
  have b0: "sampler_ok ?base" using ok by (simp add: sampler_ok_def packet_ok_def point_ok_def)
  have get: "GetEntry pn (connectionState ?base) = Inr (view (connectionState b) pn)"
    using get_entry [of "connectionState b" pn] ok by (simp add: sampler_ok_def)
  show ?thesis
  proof (cases "view (connectionState b) pn")
    case None
    moreover have "sampler_hist (insert (t, totalAcked b) A) D ?base" using sampler_hist_insert [OF h, of "(t, totalAcked b)"] by (simp add: sampler_hist_def)
    ultimately show ?thesis using b0 get by (simp add: onPacketAcknowledged_def)
  next
    case (Some p)
    let ?b = "count_acked t pn p ?base"
    let ?A = "insert (t, totalAcked b + pktSize p) A"
    have hb: "sampler_hist ?A D ?base" using sampler_hist_insert [OF h, of "(t, totalAcked b + pktSize p)"] by (simp add: sampler_hist_def)
    have hp: "packet_hist ?A D p" using hb Some by (simp add: sampler_hist_def)
    have hc: "sampler_hist ?A D ?b" "overestimateAvoidance ?b = overestimateAvoidance b"
      using count_acked_hist [OF hb hp, of t pn] by simp_all
    have p2: "packet_ok b p" using ok Some by (simp add: sampler_ok_def)
    have p: "packet_ok ?base p" "packet_ok b p" using packet_ok_mono [OF p2, of ?base] p2 by simp_all
    have b: "sampler_ok ?b" "totalAcked ?b = totalAcked b + pktSize p" "totalSent ?b = totalSent b"
      using count_acked_ok [OF b0 p(1) t, of pn] by simp_all
    have more: "totalAcked b \<le> totalAcked ?b" using b(2) p(2) by (simp add: packet_ok_def)
    show ?thesis
    proof (cases "lastAckedSentTime p = 0")
      case True
      then show ?thesis using b hc more get Some by (simp add: onPacketAcknowledged_def Let_def)
    next
      case sampled: False
      have "\<exists>sr. (if sentTime p > lastAckedSentTime p
          then BandwidthFromDelta (stSent (sendState p) - sentAtLastAcked p) (sentTime p - lastAckedSentTime p)
          else Inr infBandwidth) = Inr sr"
      proof (cases "sentTime p > lastAckedSentTime p")
        case True
        then have "0 < sentTime p - lastAckedSentTime p" "sentTime p - lastAckedSentTime p < 2 ^ 63"
          using p(2) unfolding packet_ok_def time_ok_def by linarith+
        from rate_exact [OF this, of "stSent (sendState p) - sentAtLastAcked p"] True show ?thesis by auto
      qed simp
      then obtain sr where sr: "(if sentTime p > lastAckedSentTime p
          then BandwidthFromDelta (stSent (sendState p) - sentAtLastAcked p) (sentTime p - lastAckedSentTime p)
          else Inr infBandwidth) = Inr sr" ..
      have ring: "ring_ok (a0Candidates ?b)" using b(1) by (simp add: sampler_ok_def)
      obtain chosen r' where c: "(if overestimateAvoidance ?b then chooseA0Point (stAcked (sendState p)) (a0Candidates ?b)
          else Inr (None, a0Candidates ?b)) = Inr (chosen, r')" "ring_ok r'" "set (items r') \<subseteq> set (items (a0Candidates ?b))"
          "\<And>a. chosen = Some a \<Longrightarrow> a \<in> set (items (a0Candidates ?b))"
        using chooseA0Point_ok [OF ring, of "stAcked (sendState p)"] ring by (cases "overestimateAvoidance ?b") auto
      let ?b' = "?b\<lparr>a0Candidates := r'\<rparr>"
      let ?a0 = "case chosen of Some a \<Rightarrow> a | None \<Rightarrow> \<lparr>apTime = lastAckedAckTime p, apTotal = stAcked (sendState p)\<rparr>"
      have b': "sampler_ok ?b'" using b(1) c(2,3) by (auto simp: sampler_ok_def packet_ok_def point_ok_def)
      have hb': "sampler_hist ?A D ?b'" using hc(1) c(3) by (auto simp: sampler_hist_def)
      have ha0: "point_hist ?A ?a0"
      proof (cases chosen)
        case None
        then show ?thesis using hp by (simp add: point_hist_def packet_hist_def)
      next
        case (Some a)
        then show ?thesis using c(4) [OF Some] hc(1) by (auto simp: sampler_hist_def)
      qed
      have plain: "apTotal ?a0 = stAcked (sendState p)" if "\<not> overestimateAvoidance b"
        using c(1) that hc(2) by auto
      have a0: "point_ok ?b' ?a0"
      proof (cases chosen)
        case None
        then show ?thesis using p(2) more by (simp add: point_ok_def packet_ok_def)
      next
        case (Some a)
        then show ?thesis using c(4) [OF Some] b(1) by (auto simp: sampler_ok_def point_ok_def)
      qed
      have eq: "onPacketAcknowledged t pn b = (if t - apTime ?a0 \<le> 0 then Inr (newBandwidthSample, ?b')
          else and_then (BandwidthFromDelta (totalAcked ?b' - apTotal ?a0) (t - apTime ?a0)) (\<lambda>ackRate.
            Inr (\<lparr>bsBandwidth = min sr ackRate, bsRtt = t - sentTime p, bsSendRate = sr,
              bsState = (sendState p)\<lparr>isValid := True\<rparr>\<rparr>, ?b')))"
        unfolding onPacketAcknowledged_def using get Some sampled sr c(1) by (simp add: Let_def)
      show ?thesis
      proof (cases "t - apTime ?a0 \<le> 0")
        case True
        then show ?thesis using eq b' hb' hc(2) b(2) more by simp
      next
        case False
        have d: "0 < t - apTime ?a0" "t - apTime ?a0 < 2 ^ 63" using False a0 t unfolding point_ok_def time_ok_def by linarith+
        have pos: "0 \<le> totalAcked ?b' - apTotal ?a0" using a0 unfolding point_ok_def by linarith
        obtain r where r: "BandwidthFromDelta (totalAcked ?b' - apTotal ?a0) (t - apTime ?a0) = Inr r"
            "0 \<le> totalAcked ?b' - apTotal ?a0 \<and> (totalAcked ?b' - apTotal ?a0) * Second * 8 < 2 ^ 64 \<longrightarrow>
              int (unat r) \<le> (totalAcked ?b' - apTotal ?a0) * Second * 8 div (t - apTime ?a0)"
          using rate_exact [OF d, of "totalAcked ?b' - apTotal ?a0"] by blast
        have "min sr r \<le> r" by (rule min.cobounded2)
        then have "unat (min sr r) \<le> unat r" by (simp only: word_le_nat_alt)
        then have le: "int (unat (min sr r)) \<le> int (unat r)" by linarith
        have res: "onPacketAcknowledged t pn b = Inr (\<lparr>bsBandwidth = min sr r, bsRtt = t - sentTime p, bsSendRate = sr,
              bsState = (sendState p)\<lparr>isValid := True\<rparr>\<rparr>, ?b')" unfolding eq using False r(1) by simp
        have m: "measured (overestimateAvoidance b) ?A D t (totalAcked ?b') (min sr r)"
          by (rule measured_of_packet [OF hp ha0]) (use d plain sr r pos le in \<open>auto split: if_splits\<close>)
        show ?thesis using res b' hb' hc(2) more m b(2) by simp
      qed
    qed
  qed
qed

end
