(* ===== verification/SamplerClaims.thy ===== *)
theory SamplerClaims
  imports SamplerInv
begin

text \<open>
  Runs of the bandwidth sampler: whatever is sent, acknowledged, lost, neutered or trimmed, the
  sampler never divides by zero or reaches outside its ring, and the bandwidth it reports is the lesser of a send
  rate and an ack rate that are taken between moments of the run. At rates above 9 Gbit/s the tracker of aggregated acknowledgements
  multiplies past 64 bits; the last property says what it reports then.
\<close>

section \<open>Congestion events\<close>












section \<open>Runs\<close>
















section \<open>The product that leaves 64 bits\<close>

lemma sdiv_neg: "x \<le> 0 \<Longrightarrow> 0 < k \<Longrightarrow> (x :: int) sdiv k \<le> 0"
  by (cases "x = 0") (simp_all add: signed_divide_int_def sgn_if pos_imp_zdiv_nonneg_iff)

lemma i64_wrapped: "2 ^ 63 \<le> x \<Longrightarrow> x < 2 ^ 64 \<Longrightarrow> i64 x = x - 2 ^ 64"
proof -
  assume x: "2 ^ 63 \<le> x" "x < 2 ^ 64"
  have w: "(word_of_int x :: u64) = word_of_int (x - 2 ^ 64)" by (simp add: word_of_int_eq_iff take_bit_eq_mod mod_diff_eq)
  have s: "sint (word_of_int k :: u64) = signed_take_bit 63 k" for k by (simp add: signed_of_int)
  have "sint (word_of_int (x - 2 ^ 64) :: u64) = x - 2 ^ 64"
    unfolding s by (rule signed_take_bit_int_eq_self) (use x in simp_all)
  then show ?thesis by (simp only: i64_def w)
qed

lemma wrapped_expectation:
  assumes "2 ^ 63 \<le> sint bw * delta" and "sint bw * delta < 2 ^ 64"
  shows "bytesFromBandwidthAndTimeDelta bw delta \<le> 0"
proof -
  have "i64 (sint bw * delta) \<le> 0" using i64_wrapped [OF assms] assms(2) by simp
  then show ?thesis unfolding bytesFromBandwidthAndTimeDelta_def by (rule sdiv_neg) (simp add: Second_def)
qed

text \<open>When the estimated bandwidth in bits per second times the length of the epoch in nanoseconds
  lies between 2^63 and 2^64, which an epoch of one second at 10 Gbit/s does, the tracker expects at
  most zero bytes: it never starts a new epoch, however little was acknowledged, and counts every byte
  of the epoch as aggregated.\<close>

theorem ack_height_overflow:
  assumes "2 ^ 63 \<le> sint bw * (ackTime - epochStartTime m)" and "sint bw * (ackTime - epochStartTime m) < 2 ^ 64"
    and "\<not> (reduceExtraAcked m \<and> newMax)" and "\<not> startNewEpochAfterFullRound m" and "epochStartTime m \<noteq> 0"
    and "0 < epochBytes m" and "0 \<le> bandwidthThreshold m"
  shows "epochBytes m + bytes \<le> fst (tracker_Update bw newMax rt lastSent lastAcked ackTime bytes m) \<and>
    epochStartTime (snd (tracker_Update bw newMax rt lastSent lastAcked ackTime bytes m)) = epochStartTime m"
proof -
  let ?e = "bytesFromBandwidthAndTimeDelta bw (ackTime - epochStartTime m)"
  have e: "?e \<le> 0" by (rule wrapped_expectation [OF assms(1,2)])
  then have "bandwidthThreshold m * ?e \<le> 0" using assms(7) by (rule mult_nonneg_nonpos [rotated])
  then have "\<not> epochBytes m \<le> bandwidthThreshold m * ?e" using assms(6) by linarith
  then show ?thesis using assms(3-5) e unfolding tracker_Update_def by (simp add: Let_def)
qed

theorem ack_height_overflow_witness:
  "2500 \<le> fst (tracker_Update 10000000000 False 1 7 6 1000000001 1500
    ((newMaxAckHeightTracker 10)\<lparr>epochStartTime := 1, epochBytes := 1000\<rparr>))"
proof -
  let ?m = "(newMaxAckHeightTracker 10)\<lparr>epochStartTime := 1, epochBytes := 1000\<rparr>"
  have s: "sint (10000000000 :: u64) = 10000000000" by simp
  have "2 ^ 63 \<le> sint (10000000000 :: u64) * (1000000001 - epochStartTime ?m)"
      "sint (10000000000 :: u64) * (1000000001 - epochStartTime ?m) < 2 ^ 64" unfolding s by simp_all
  from ack_height_overflow [OF this, of False 1500 1 7 6] show ?thesis
    by (simp add: newMaxAckHeightTracker_def)
qed

end
