(* ===== verification/Obfs.thy ===== *)
theory Obfs
  imports Prelude
begin

text \<open>
  The two obfuscating connections, \<^verbatim>\<open>hysteria2/salamander.go\<close> and \<^verbatim>\<open>hysteria/xplus.go\<close>: a random salt in
  front of each datagram, and the payload exclusive-ored with the 32-byte digest of the password and
  the salt. The digest (\<^verbatim>\<open>blake2b.Sum256\<close>, \<^verbatim>\<open>sha256.Sum256\<close>) is a parameter \<open>sum256\<close>, the salt drawn is
  an argument. A connection below is what it does with one datagram: \<open>send\<close> for \<^verbatim>\<open>WriteTo\<close>, with the count
  and the error it returns, \<open>sendv\<close> for a vectorised writer, which gets a list of buffers. The loops
  that decode in place are written over the caller's buffer.
\<close>

unbundle bit_operations_syntax

section \<open>The keystream\<close>

definition salamanderSaltLen :: nat where [cfg_defs]: "salamanderSaltLen = 8"
definition xplusSaltLen :: nat where [cfg_defs]: "xplusSaltLen = 16"
definition Size256 :: nat where [cfg_defs]: "Size256 = 32"

text \<open>The loops of the writers, from index \<open>i\<close> on.\<close>

fun xor_bytes :: "bytes \<Rightarrow> nat \<Rightarrow> bytes \<Rightarrow> bytes" where
  "xor_bytes key i [] = []"
| "xor_bytes key i (c # cs) = (c XOR key ! (i mod Size256)) # xor_bytes key (i + 1) cs"

text \<open>Over several buffers, with one index for all of them.\<close>

fun xor_buffers :: "bytes \<Rightarrow> nat \<Rightarrow> bytes list \<Rightarrow> bytes list" where
  "xor_buffers key i [] = []"
| "xor_buffers key i (b # bs) = xor_bytes key i b # xor_buffers key (i + length b) bs"

text \<open>The loops of the readers: \<open>n\<close> rounds left, each moving one byte down over the salt.\<close>

primrec xor_down :: "nat \<Rightarrow> bytes \<Rightarrow> nat \<Rightarrow> nat \<Rightarrow> bytes \<Rightarrow> bytes" where
  "xor_down salt key i 0 p = p"
| "xor_down salt key i (Suc n) p = xor_down salt key (i + 1) n (p[i := p ! (salt + i) XOR key ! (i mod Size256)])"

section \<open>Salamander\<close>

text \<open>What the connection below leaves in the caller's buffer: as much of the datagram as fits.\<close>

definition receive :: "bytes \<Rightarrow> bytes \<Rightarrow> nat \<times> bytes" where
  "receive d p = (min (length d) (length p), copy_at 0 (take (length p) d) p)"

definition salamander_ReadFrom :: "(bytes \<Rightarrow> bytes) \<Rightarrow> bytes \<Rightarrow> 'e + bytes \<times> 'a \<Rightarrow> bytes \<Rightarrow> ('e + nat \<times> 'a) \<times> bytes" where
  "salamander_ReadFrom sum256 password got p = (case got of
      Inl err \<Rightarrow> (Inl err, p)
    | Inr (d, addr) \<Rightarrow> case receive d p of (n, p) \<Rightarrow>
        if n \<le> salamanderSaltLen then (Inr (n, addr), p)
        else
          let key = sum256 (password @ take salamanderSaltLen p) in
          (Inr (n - salamanderSaltLen, addr), xor_down salamanderSaltLen key 0 (n - salamanderSaltLen) p))"

definition salamander_WriteTo :: "(bytes \<Rightarrow> bytes) \<Rightarrow> bytes \<Rightarrow> bytes \<Rightarrow> ('q \<Rightarrow> bytes \<Rightarrow> (nat \<times> 'e option) \<times> 'q)
    \<Rightarrow> bytes \<Rightarrow> 'q \<Rightarrow> (nat \<times> 'e option) \<times> 'q" where
  "salamander_WriteTo sum256 password salt send p q =
     (let key = sum256 (password @ salt) in
      case send q (salt @ xor_bytes key 0 p) of
        ((_, Some err), q) \<Rightarrow> ((0, Some err), q)
      | ((_, None), q) \<Rightarrow> ((length p, None), q))"

text \<open>The vectorised writer encodes in the caller's buffer; the last component is what it holds then.\<close>

definition salamander_WriteTo_vectorised :: "(bytes \<Rightarrow> bytes) \<Rightarrow> bytes \<Rightarrow> bytes \<Rightarrow> ('q \<Rightarrow> bytes list \<Rightarrow> 'e option \<times> 'q)
    \<Rightarrow> bytes \<Rightarrow> 'q \<Rightarrow> (nat \<times> 'e option) \<times> 'q \<times> bytes" where
  "salamander_WriteTo_vectorised sum256 password salt sendv p q =
     (let key = sum256 (password @ salt); p' = xor_bytes key 0 p in
      case sendv q [salt, p'] of
        (Some err, q) \<Rightarrow> ((0, Some err), q, p')
      | (None, q) \<Rightarrow> ((length p, None), q, p'))"

definition salamander_WriteVectorisedPacket :: "(bytes \<Rightarrow> bytes) \<Rightarrow> bytes \<Rightarrow> bytes \<Rightarrow> ('q \<Rightarrow> bytes list \<Rightarrow> 'e option \<times> 'q)
    \<Rightarrow> bytes list \<Rightarrow> 'q \<Rightarrow> 'e option \<times> 'q" where
  "salamander_WriteVectorisedPacket sum256 password salt sendv buffers q =
     sendv q (salt # xor_buffers (sum256 (password @ salt)) 0 buffers)"

text \<open>The connection of a client has one peer.\<close>

definition salamander_Read :: "(bytes \<Rightarrow> bytes) \<Rightarrow> bytes \<Rightarrow> 'e + bytes \<Rightarrow> bytes \<Rightarrow> ('e + nat) \<times> bytes" where
  "salamander_Read sum256 password got p = (case got of
      Inl err \<Rightarrow> (Inl err, p)
    | Inr d \<Rightarrow> case receive d p of (n, p) \<Rightarrow>
        if n \<le> salamanderSaltLen then (Inr n, p)
        else
          let key = sum256 (password @ take salamanderSaltLen p) in
          (Inr (n - salamanderSaltLen), xor_down salamanderSaltLen key 0 (n - salamanderSaltLen) p))"

definition salamander_Write :: "(bytes \<Rightarrow> bytes) \<Rightarrow> bytes \<Rightarrow> bytes \<Rightarrow> ('q \<Rightarrow> bytes \<Rightarrow> (nat \<times> 'e option) \<times> 'q)
    \<Rightarrow> bytes \<Rightarrow> 'q \<Rightarrow> (nat \<times> 'e option) \<times> 'q" where
  "salamander_Write sum256 password salt send p q =
     (let key = sum256 (password @ salt) in
      case send q (salt @ xor_bytes key 0 p) of
        ((_, Some err), q) \<Rightarrow> ((0, Some err), q)
      | ((_, None), q) \<Rightarrow> ((length p, None), q))"

definition salamander_Write_vectorised :: "(bytes \<Rightarrow> bytes) \<Rightarrow> bytes \<Rightarrow> bytes \<Rightarrow> ('q \<Rightarrow> bytes list \<Rightarrow> 'e option \<times> 'q)
    \<Rightarrow> bytes \<Rightarrow> 'q \<Rightarrow> (nat \<times> 'e option) \<times> 'q" where
  "salamander_Write_vectorised sum256 password salt sendv p q =
     (let key = sum256 (password @ salt); payload = xor_bytes key 0 p in
      case sendv q [salt, payload] of
        (Some err, q) \<Rightarrow> ((0, Some err), q)
      | (None, q) \<Rightarrow> ((length p, None), q))"

section \<open>XPlus\<close>

definition xplus_ReadFrom :: "(bytes \<Rightarrow> bytes) \<Rightarrow> bytes \<Rightarrow> 'e + bytes \<times> 'a \<Rightarrow> bytes \<Rightarrow> ('e + nat \<times> 'a) \<times> bytes" where
  "xplus_ReadFrom sum256 password got p = (case got of
      Inl err \<Rightarrow> (Inl err, p)
    | Inr (d, addr) \<Rightarrow> case receive d p of (n, p) \<Rightarrow>
        if n < xplusSaltLen then (Inr (0, addr), p)
        else
          let key = sum256 (password @ take xplusSaltLen p) in
          (Inr (n - xplusSaltLen, addr), xor_down xplusSaltLen key 0 (n - xplusSaltLen) p))"

definition xplus_WriteTo :: "(bytes \<Rightarrow> bytes) \<Rightarrow> bytes \<Rightarrow> bytes \<Rightarrow> ('q \<Rightarrow> bytes \<Rightarrow> (nat \<times> 'e option) \<times> 'q)
    \<Rightarrow> bytes \<Rightarrow> 'q \<Rightarrow> (nat \<times> 'e option) \<times> 'q" where
  "xplus_WriteTo sum256 password salt send p q = send q (salt @ xor_bytes (sum256 (password @ salt)) 0 p)"

text \<open>\<^verbatim>\<open>bufio.WriteVectorisedPacket\<close> returns the count of what it wrote, so \<open>sendv\<close> returns one here.\<close>

definition xplus_WriteTo_vectorised :: "(bytes \<Rightarrow> bytes) \<Rightarrow> bytes \<Rightarrow> bytes \<Rightarrow> ('q \<Rightarrow> bytes list \<Rightarrow> (nat \<times> 'e option) \<times> 'q)
    \<Rightarrow> bytes \<Rightarrow> 'q \<Rightarrow> (nat \<times> 'e option) \<times> 'q \<times> bytes" where
  "xplus_WriteTo_vectorised sum256 password salt sendv p q =
     (let p' = xor_bytes (sum256 (password @ salt)) 0 p in case sendv q [salt, p'] of (res, q) \<Rightarrow> (res, q, p'))"

definition xplus_WriteVectorisedPacket :: "(bytes \<Rightarrow> bytes) \<Rightarrow> bytes \<Rightarrow> bytes \<Rightarrow> ('q \<Rightarrow> bytes list \<Rightarrow> 'e option \<times> 'q)
    \<Rightarrow> bytes list \<Rightarrow> 'q \<Rightarrow> 'e option \<times> 'q" where
  "xplus_WriteVectorisedPacket sum256 password salt sendv buffers q =
     sendv q (salt # xor_buffers (sum256 (password @ salt)) 0 buffers)"

definition xplus_Read :: "(bytes \<Rightarrow> bytes) \<Rightarrow> bytes \<Rightarrow> 'e + bytes \<Rightarrow> bytes \<Rightarrow> ('e + nat) \<times> bytes" where
  "xplus_Read sum256 password got p = (case got of
      Inl err \<Rightarrow> (Inl err, p)
    | Inr d \<Rightarrow> case receive d p of (n, p) \<Rightarrow>
        if n < xplusSaltLen then (Inr 0, p)
        else
          let key = sum256 (password @ take xplusSaltLen p) in
          (Inr (n - xplusSaltLen), xor_down xplusSaltLen key 0 (n - xplusSaltLen) p))"

definition xplus_Write :: "(bytes \<Rightarrow> bytes) \<Rightarrow> bytes \<Rightarrow> bytes \<Rightarrow> ('q \<Rightarrow> bytes \<Rightarrow> (nat \<times> 'e option) \<times> 'q)
    \<Rightarrow> bytes \<Rightarrow> 'q \<Rightarrow> (nat \<times> 'e option) \<times> 'q" where
  "xplus_Write sum256 password salt send p q =
     (case send q (salt @ xor_bytes (sum256 (password @ salt)) 0 p) of
        ((_, Some err), q) \<Rightarrow> ((0, Some err), q)
      | ((_, None), q) \<Rightarrow> ((length p, None), q))"

definition xplus_Write_vectorised :: "(bytes \<Rightarrow> bytes) \<Rightarrow> bytes \<Rightarrow> bytes \<Rightarrow> ('q \<Rightarrow> bytes list \<Rightarrow> 'e option \<times> 'q)
    \<Rightarrow> bytes \<Rightarrow> 'q \<Rightarrow> (nat \<times> 'e option) \<times> 'q" where
  "xplus_Write_vectorised sum256 password salt sendv p q =
     (let payload = xor_bytes (sum256 (password @ salt)) 0 p in
      case sendv q [salt, payload] of
        (Some err, q) \<Rightarrow> ((0, Some err), q)
      | (None, q) \<Rightarrow> ((length p, None), q))"

section \<open>Decoding in place\<close>

lemma length_xor_bytes [simp]: "length (xor_bytes key i p) = length p"
  by (induction key i p rule: xor_bytes.induct) auto

lemma xor_bytes_append: "xor_bytes key i (a @ b) = xor_bytes key i a @ xor_bytes key (i + length a) b"
  by (induction key i a rule: xor_bytes.induct) auto

lemma concat_xor_buffers: "concat (xor_buffers key i bs) = xor_bytes key i (concat bs)"
  by (induction key i bs rule: xor_buffers.induct) (auto simp: xor_bytes_append)

lemma length_xor_buffers [simp]: "map length (xor_buffers key i bs) = map length bs"
  by (induction key i bs rule: xor_buffers.induct) auto

lemma xor_bytes_twice: "xor_bytes key i (xor_bytes key i p) = p"
  by (induction key i p rule: xor_bytes.induct) (auto simp: bit_eq_iff bit_xor_iff)

text \<open>The part of the buffer a round has not read yet is untouched, because it writes below it.\<close>

lemma xor_down_ok:
  assumes "0 < salt" and "i + salt + n \<le> length p"
  shows "xor_down salt key i n p = take i p @ xor_bytes key i (take n (drop (salt + i) p)) @ drop (i + n) p"
  using assms(2)
proof (induction n arbitrary: i p)
  case (Suc n)
  let ?x = "p ! (salt + i) XOR key ! (i mod Size256)"
  let ?p = "p[i := ?x]"
  have i: "i < length p" "salt + i < length p" using Suc.prems by simp_all
  have IH: "xor_down salt key (i + 1) n ?p =
      take (i + 1) ?p @ xor_bytes key (i + 1) (take n (drop (salt + (i + 1)) ?p)) @ drop (i + 1 + n) ?p"
    by (rule Suc.IH) (use Suc.prems in simp)
  have "take (i + 1) ?p = take i p @ [?x]" using i by (simp add: take_Suc_conv_app_nth)
  moreover have "drop (salt + (i + 1)) ?p = drop (salt + i + 1) p" using assms(1) by (simp add: drop_update_cancel)
  moreover have "drop (i + 1 + n) ?p = drop (i + Suc n) p" by (simp add: drop_update_cancel)
  moreover have "take (Suc n) (drop (salt + i) p) = p ! (salt + i) # take n (drop (salt + i + 1) p)"
    using i(2) by (simp add: Cons_nth_drop_Suc [symmetric])
  ultimately show ?case using IH by simp
qed simp

text \<open>A datagram that fits the buffer, decoded.\<close>

definition sealed :: "(bytes \<Rightarrow> bytes) \<Rightarrow> bytes \<Rightarrow> bytes \<Rightarrow> bytes \<Rightarrow> bytes" where
  "sealed sum256 password salt p = salt @ xor_bytes (sum256 (password @ salt)) 0 p"

lemma length_sealed [simp]: "length (sealed sum256 password salt p) = length salt + length p"
  by (simp add: sealed_def)

lemma receive_fits: "length d \<le> length p \<Longrightarrow> receive d p = (length d, d @ drop (length d) p)"
  by (simp add: receive_def copy_at_def)

lemma xor_down_sealed:
  assumes "length salt = s" and "0 < s"
  shows "xor_down s (sum256 (password @ salt)) 0 (length p) (sealed sum256 password salt p @ rest)
    = p @ drop (length p) (sealed sum256 password salt p @ rest)"
proof -
  let ?d = "sealed sum256 password salt p"
  have "take (length p) (drop s (?d @ rest)) = xor_bytes (sum256 (password @ salt)) 0 p" using assms(1) by (simp add: sealed_def)
  then show ?thesis
    using xor_down_ok [OF assms(2), of 0 "length p" "?d @ rest" "sum256 (password @ salt)"] assms(1)
    by (simp add: xor_bytes_twice)
qed

lemma salamander_opens:
  assumes "length salt = 8" and "p \<noteq> []" and "length p + 8 \<le> length buf"
  shows "\<exists>buf'. salamander_ReadFrom sum256 password (Inr (sealed sum256 password salt p, a)) buf = (Inr (length p, a), p @ buf') \<and>
    salamander_Read sum256 password (Inr (sealed sum256 password salt p)) buf = (Inr (length p), p @ buf') \<and>
    length (p @ buf') = length buf"
proof -
  let ?d = "sealed sum256 password salt p"
  have got: "receive ?d buf = (length p + 8, ?d @ drop (length ?d) buf)" using receive_fits [of ?d buf] assms(1,3) by (simp add: add.commute)
  have salt: "take 8 (?d @ drop (length ?d) buf) = salt" using assms(1) by (simp add: sealed_def)
  have "0 < length p" using assms(2) by simp
  then show ?thesis
    using xor_down_sealed [OF assms(1), of sum256 password p "drop (length ?d) buf"] got salt assms(1,3)
    by (simp add: salamander_ReadFrom_def salamander_Read_def salamanderSaltLen_def)
qed

lemma xplus_opens:
  assumes "length salt = 16" and "length p + 16 \<le> length buf"
  shows "\<exists>buf'. xplus_ReadFrom sum256 password (Inr (sealed sum256 password salt p, a)) buf = (Inr (length p, a), p @ buf') \<and>
    xplus_Read sum256 password (Inr (sealed sum256 password salt p)) buf = (Inr (length p), p @ buf') \<and>
    length (p @ buf') = length buf"
proof -
  let ?d = "sealed sum256 password salt p"
  have got: "receive ?d buf = (length p + 16, ?d @ drop (length ?d) buf)" using receive_fits [of ?d buf] assms by (simp add: add.commute)
  have salt: "take 16 (?d @ drop (length ?d) buf) = salt" using assms(1) by (simp add: sealed_def)
  then show ?thesis
    using xor_down_sealed [OF assms(1), of sum256 password p "drop (length ?d) buf"] got assms
    by (simp add: xplus_ReadFrom_def xplus_Read_def xplusSaltLen_def)
qed

section \<open>The properties\<close>

text \<open>A connection that keeps the datagrams it is given, and one that takes the buffers of a datagram.\<close>

definition log_send :: "bytes list \<Rightarrow> bytes \<Rightarrow> (nat \<times> io_error option) \<times> bytes list" where
  "log_send q d = ((length d, None), q @ [d])"

definition log_sendv :: "bytes list \<Rightarrow> bytes list \<Rightarrow> io_error option \<times> bytes list" where
  "log_sendv q bs = (None, q @ [concat bs])"

definition log_sendv_count :: "bytes list \<Rightarrow> bytes list \<Rightarrow> (nat \<times> io_error option) \<times> bytes list" where
  "log_sendv_count q bs = ((length (concat bs), None), q @ [concat bs])"

lemmas log_defs = log_send_def log_sendv_def log_sendv_count_def

lemmas salamander_defs = salamander_WriteTo_def salamander_WriteTo_vectorised_def salamander_WriteVectorisedPacket_def
  salamander_Write_def salamander_Write_vectorised_def

lemmas xplus_defs = xplus_WriteTo_def xplus_WriteTo_vectorised_def xplus_WriteVectorisedPacket_def
  xplus_Write_def xplus_Write_vectorised_def

text \<open>Whatever the digest, password and salt, all five Salamander writers put the same single datagram
  on the wire for a payload, however it is cut into buffers, and both readers decode it in place to the
  payload when it is not empty and fits the buffer.\<close>

theorem salamander_roundtrip:
  assumes "length salt = salamanderSaltLen" and "p \<noteq> []" and "length p + salamanderSaltLen \<le> length buf" and "concat bs = p"
  shows "\<exists>d buf'. salamander_WriteTo sum256 password salt log_send p [] = ((length p, None), [d]) \<and>
    (\<exists>p'. salamander_WriteTo_vectorised sum256 password salt log_sendv p [] = ((length p, None), [d], p')) \<and>
    salamander_WriteVectorisedPacket sum256 password salt log_sendv bs [] = (None, [d]) \<and>
    salamander_Write sum256 password salt log_send p [] = ((length p, None), [d]) \<and>
    salamander_Write_vectorised sum256 password salt log_sendv p [] = ((length p, None), [d]) \<and>
    length d = length p + salamanderSaltLen \<and>
    salamander_ReadFrom sum256 password (Inr (d, a) :: io_error + bytes \<times> 'a) buf = (Inr (length p, a), p @ buf') \<and>
    salamander_Read sum256 password (Inr d :: io_error + bytes) buf = (Inr (length p), p @ buf')"
proof -
  let ?d = "sealed sum256 password salt p"
  obtain buf' where "salamander_ReadFrom sum256 password (Inr (?d, a) :: io_error + bytes \<times> 'a) buf = (Inr (length p, a), p @ buf')"
      "salamander_Read sum256 password (Inr ?d :: io_error + bytes) buf = (Inr (length p), p @ buf')"
    using salamander_opens [of salt p buf sum256 password a] assms(1-3) unfolding salamanderSaltLen_def by fast
  then show ?thesis
    using assms(1,4) by (intro exI [of _ ?d] exI [of _ buf'])
      (simp add: salamander_defs log_defs sealed_def concat_xor_buffers Let_def)
qed

text \<open>The same for XPlus, empty payloads included; only, two of its writers report the length of the
  datagram where the payload's was asked for, 16 bytes more than they were given.\<close>

theorem xplus_roundtrip:
  assumes "length salt = xplusSaltLen" and "length p + xplusSaltLen \<le> length buf" and "concat bs = p"
  shows "\<exists>d buf'. xplus_WriteTo sum256 password salt log_send p [] = ((length p + xplusSaltLen, None), [d]) \<and>
    (\<exists>p'. xplus_WriteTo_vectorised sum256 password salt log_sendv_count p [] = ((length p + xplusSaltLen, None), [d], p')) \<and>
    xplus_WriteVectorisedPacket sum256 password salt log_sendv bs [] = (None, [d]) \<and>
    xplus_Write sum256 password salt log_send p [] = ((length p, None), [d]) \<and>
    xplus_Write_vectorised sum256 password salt log_sendv p [] = ((length p, None), [d]) \<and>
    xplus_ReadFrom sum256 password (Inr (d, a) :: io_error + bytes \<times> 'a) buf = (Inr (length p, a), p @ buf') \<and>
    xplus_Read sum256 password (Inr d :: io_error + bytes) buf = (Inr (length p), p @ buf')"
proof -
  let ?d = "sealed sum256 password salt p"
  obtain buf' where "xplus_ReadFrom sum256 password (Inr (?d, a) :: io_error + bytes \<times> 'a) buf = (Inr (length p, a), p @ buf')"
      "xplus_Read sum256 password (Inr ?d :: io_error + bytes) buf = (Inr (length p), p @ buf')"
    using xplus_opens [of salt p buf sum256 password a] assms(1,2) unfolding xplusSaltLen_def by fast
  then show ?thesis
    using assms(1,3) by (intro exI [of _ ?d] exI [of _ buf'])
      (simp add: xplus_defs log_defs sealed_def concat_xor_buffers Let_def add.commute)
qed

text \<open>C29. A datagram of at most 8 bytes is handed up by Salamander as it came, whatever the password, so
  that whoever can reach the port can inject it, and an empty packet is read as the salt it was sent
  with. XPlus hands up nothing of such a datagram.\<close>

theorem salamander_short_datagram_unprotected:
  assumes "length d \<le> salamanderSaltLen" and "length salt = salamanderSaltLen" and "salamanderSaltLen \<le> length buf"
  shows "salamander_ReadFrom sum256 password (Inr (d, a) :: io_error + bytes \<times> 'a) buf = (Inr (length d, a), d @ drop (length d) buf) \<and>
    salamander_Read sum256 password (Inr d :: io_error + bytes) buf = (Inr (length d), d @ drop (length d) buf) \<and>
    salamander_WriteTo sum256 password salt log_send [] [] = ((0, None), [salt]) \<and>
    fst (salamander_ReadFrom sum256 password (Inr (salt, a) :: io_error + bytes \<times> 'a) buf) = Inr (8, a) \<and>
    fst (xplus_ReadFrom sum256 password (Inr (d, a) :: io_error + bytes \<times> 'a) buf) = Inr (0, a)"
  using receive_fits [of d buf] receive_fits [of salt buf] assms
  by (simp add: salamander_ReadFrom_def salamander_Read_def salamander_WriteTo_def log_send_def xplus_ReadFrom_def
    salamanderSaltLen_def xplusSaltLen_def)

theorem salamander_roundtrip_witness:
  "\<exists>d buf'. salamander_WriteVectorisedPacket (\<lambda>x. replicate 32 (7 + hd x)) [3] (replicate 8 5) log_sendv [[1], [], [2, 3]] [] = (None, [d]) \<and>
    salamander_Read (\<lambda>x. replicate 32 (7 + hd x)) [3] (Inr d :: io_error + bytes) (replicate 20 0) = (Inr (length [1, 2, 3 :: byte]), [1, 2, 3] @ buf')"
proof -
  let ?p = "[1, 2, 3 :: byte]"
  have "length (replicate 8 (5 :: byte)) = salamanderSaltLen" "?p \<noteq> []"
      "length ?p + salamanderSaltLen \<le> length (replicate 20 (0 :: byte))" "concat [[1], [], [2, 3]] = ?p"
    by (simp_all add: salamanderSaltLen_def)
  from salamander_roundtrip [OF this, of "\<lambda>x. replicate 32 (7 + hd x)" "[3]" "()"] show ?thesis by fast
qed

theorem xplus_roundtrip_witness:
  "\<exists>d buf'. xplus_Write (\<lambda>x. replicate 32 (7 + hd x)) [3] (replicate 16 5) log_send [] [] = ((length ([] :: bytes), None), [d]) \<and>
    xplus_Read (\<lambda>x. replicate 32 (7 + hd x)) [3] (Inr d :: io_error + bytes) (replicate 16 0) = (Inr (length ([] :: bytes)), [] @ buf')"
proof -
  have "length (replicate 16 (5 :: byte)) = xplusSaltLen"
      "length ([] :: bytes) + xplusSaltLen \<le> length (replicate 16 (0 :: byte))" "concat [] = ([] :: bytes)"
    by (simp_all add: xplusSaltLen_def)
  from xplus_roundtrip [OF this, of "\<lambda>x. replicate 32 (7 + hd x)" "[3]" "()"] show ?thesis by fast
qed

theorem salamander_short_datagram_unprotected_witness:
  "salamander_Read (\<lambda>x. replicate 32 9) [3] (Inr [0xC0, 1] :: io_error + bytes) (replicate 8 0) = (Inr 2, [0xC0, 1, 0, 0, 0, 0, 0, 0])"
  using salamander_short_datagram_unprotected [of "[0xC0, 1]" "replicate 8 5" "replicate 8 0" "\<lambda>x. replicate 32 9" "[3]" "()"]
  by (simp add: salamanderSaltLen_def numeral_eq_Suc)

end
