(* ===== verification/Gecko.thy ===== *)
theory Gecko
  imports Obfs
begin

text \<open>
  \<^verbatim>\<open>hysteria2/gecko.go\<close>: packets whose first byte has the high bit set (the long headers of QUIC) are cut
  into two to eight padded frames, each sent through Salamander, and joined by the reader. The model
  has both connections: the server's, which keeps the packets of many sources apart and bounds what a
  source may hold, and the client's. Both have the same writer and the same reading loop, which are
  written here once. Times are nanoseconds of the monotonic clock. What an arrival brings with it are the
  two clock readings its handling takes and the order in which Go happens to visit the map (\<open>arVisit\<close>); what a
  write draws at random is an argument (\<open>draws\<close>).
\<close>

section \<open>State\<close>

definition geckoFragmentFlag :: byte where [cfg_defs]: "geckoFragmentFlag = 0x80"
definition geckoHeaderLen :: nat where [cfg_defs]: "geckoHeaderLen = 5"
definition geckoMinChunks :: nat where [cfg_defs]: "geckoMinChunks = 2"
definition geckoMaxChunks :: nat where [cfg_defs]: "geckoMaxChunks = 8"
definition geckoReassemblyTTL :: int where [cfg_defs]: "geckoReassemblyTTL = 8000000000"
definition geckoMaxReassembly :: nat where [cfg_defs]: "geckoMaxReassembly = 4096"
definition geckoMaxPerSource :: nat where [cfg_defs]: "geckoMaxPerSource = 8"

record gecko_entry =
  geChunks :: "bytes option list"
  geReceived :: nat
  geTotal :: nat
  geDeadline :: int

text \<open>The reassembly map is an association list; a source without a count has none in \<open>perSource\<close>.\<close>

type_synonym 'a gecko_map = "(('a \<times> byte) \<times> gecko_entry) list"

record 'a gecko =
  reassembly :: "'a gecko_map"
  perSource :: "'a \<rightharpoonup> int"
  lastSweep :: int

record gecko_client =
  cReassembly :: "(byte \<times> gecko_entry) list"
  cLastSweep :: int

definition NewGeckoConn :: "int \<Rightarrow> 'a gecko" where
  "NewGeckoConn now = \<lparr>reassembly = [], perSource = Map.empty, lastSweep = now\<rparr>"

definition NewGeckoClientConn :: "int \<Rightarrow> gecko_client" where
  "NewGeckoClientConn now = \<lparr>cReassembly = [], cLastSweep = now\<rparr>"

section \<open>Writing\<close>

record gecko_writer =
  minPacketSize :: int
  maxPacketSize :: int
  msgIDCounter :: u32

text \<open>What \<^verbatim>\<open>IntN\<close> and \<^verbatim>\<open>rand.Read\<close> return: the number of chunks beyond two, and for each frame the padding drawn
  below a bound, the bytes of the padding, and the salt.\<close>

record 'e draws =
  drawChunks :: nat
  drawPad :: "nat \<Rightarrow> int \<Rightarrow> int"
  drawFill :: "nat \<Rightarrow> nat \<Rightarrow> 'e + bytes"
  drawSalt :: "nat \<Rightarrow> bytes"

definition randomPadLen :: "(int \<Rightarrow> int) \<Rightarrow> gecko_writer \<Rightarrow> nat \<Rightarrow> u16" where
  "randomPadLen intN g chunkLen =
     (let base = int salamanderSaltLen + int geckoHeaderLen + int chunkLen;
          lo = (if base > minPacketSize g then base else minPacketSize g) in
      if lo > maxPacketSize g then 0 else word_of_int (lo - base + intN (maxPacketSize g - lo + 1)))"

definition gecko_chunk :: "nat \<Rightarrow> nat \<Rightarrow> bytes \<Rightarrow> bytes" where
  "gecko_chunk chunks i p =
     (let chunkSize = length p div chunks; start = i * chunkSize;
          stop = (if i < chunks - 1 then start + chunkSize else length p) in
      slice start stop p)"

definition gecko_frame :: "byte \<Rightarrow> nat \<Rightarrow> nat \<Rightarrow> u16 \<Rightarrow> bytes \<Rightarrow> bytes \<Rightarrow> bytes" where
  "gecko_frame msgID i chunks padLen padding chunk =
     [geckoFragmentFlag, msgID, push_bit 4 (word_of_nat i) OR word_of_nat chunks AND 0x0f] @ put_u16 padLen @ padding @ chunk"

text \<open>The loop of \<^verbatim>\<open>writeFragmented\<close> at chunk \<open>i\<close> with \<open>n\<close> chunks left; \<open>inner\<close> writes to the connection below.\<close>

primrec write_chunks :: "gecko_writer \<Rightarrow> 'e draws \<Rightarrow> (bytes \<Rightarrow> bytes \<Rightarrow> 'q \<Rightarrow> (nat \<times> 'e option) \<times> 'q)
    \<Rightarrow> byte \<Rightarrow> nat \<Rightarrow> bytes \<Rightarrow> nat \<Rightarrow> nat \<Rightarrow> 'q \<Rightarrow> (nat \<times> 'e option) \<times> 'q" where
  "write_chunks g dr inner msgID chunks p i 0 q = ((length p, None), q)"
| "write_chunks g dr inner msgID chunks p i (Suc n) q =
     (let chunk = gecko_chunk chunks i p; padLen = randomPadLen (drawPad dr i) g (length chunk) in
      case (if padLen > 0 then drawFill dr i (unat padLen) else Inr []) of
        Inl randErr \<Rightarrow> ((0, Some randErr), q)
      | Inr padding \<Rightarrow>
          (case inner (drawSalt dr i) (gecko_frame msgID i chunks padLen padding chunk) q of
            ((_, Some err), q) \<Rightarrow> ((0, Some err), q)
          | ((_, None), q) \<Rightarrow> write_chunks g dr inner msgID chunks p (i + 1) n q))"

definition writeFragmented :: "'e draws \<Rightarrow> (bytes \<Rightarrow> bytes \<Rightarrow> 'q \<Rightarrow> (nat \<times> 'e option) \<times> 'q)
    \<Rightarrow> bytes \<Rightarrow> gecko_writer \<Rightarrow> 'q \<Rightarrow> ((nat \<times> 'e option) \<times> 'q) \<times> gecko_writer" where
  "writeFragmented dr inner p g q =
     (let chunks = geckoMinChunks + drawChunks dr; g = g\<lparr>msgIDCounter := msgIDCounter g + 1\<rparr>;
          msgID = ucast (msgIDCounter g) in
      (write_chunks g dr inner msgID chunks p 0 chunks q, g))"

definition write_gecko :: "'e draws \<Rightarrow> (bytes \<Rightarrow> bytes \<Rightarrow> 'q \<Rightarrow> (nat \<times> 'e option) \<times> 'q)
    \<Rightarrow> bytes \<Rightarrow> gecko_writer \<Rightarrow> 'q \<Rightarrow> ((nat \<times> 'e option) \<times> 'q) \<times> gecko_writer" where
  "write_gecko dr inner p g q =
     (if length p = 0 then (((0, None), q), g)
      else if p ! 0 AND geckoFragmentFlag = 0 then (inner (drawSalt dr 0) p q, g)
      else writeFragmented dr inner p g q)"

definition gecko_WriteTo :: "(bytes \<Rightarrow> bytes) \<Rightarrow> bytes \<Rightarrow> ('q \<Rightarrow> bytes \<Rightarrow> (nat \<times> 'e option) \<times> 'q) \<Rightarrow> 'e draws
    \<Rightarrow> bytes \<Rightarrow> gecko_writer \<Rightarrow> 'q \<Rightarrow> ((nat \<times> 'e option) \<times> 'q) \<times> gecko_writer" where
  "gecko_WriteTo sum256 password send dr p g q =
     write_gecko dr (\<lambda>salt. salamander_WriteTo sum256 password salt send) p g q"

definition gecko_Write :: "(bytes \<Rightarrow> bytes) \<Rightarrow> bytes \<Rightarrow> ('q \<Rightarrow> bytes \<Rightarrow> (nat \<times> 'e option) \<times> 'q) \<Rightarrow> 'e draws
    \<Rightarrow> bytes \<Rightarrow> gecko_writer \<Rightarrow> 'q \<Rightarrow> ((nat \<times> 'e option) \<times> 'q) \<times> gecko_writer" where
  "gecko_Write sum256 password send dr p g q =
     write_gecko dr (\<lambda>salt. salamander_Write sum256 password salt send) p g q"

section \<open>Joining\<close>

definition dropEntryLocked :: "'a \<times> byte \<Rightarrow> 'a gecko \<Rightarrow> 'a gecko" where
  "dropEntryLocked key g =
     (if map_of (reassembly g) key = None then g
      else
        let count = (case perSource g (fst key) of None \<Rightarrow> 0 | Some c \<Rightarrow> c) - 1 in
        g\<lparr>reassembly := AList.delete key (reassembly g),
          perSource := (if count \<le> 0 then (perSource g)(fst key := None) else (perSource g)(fst key \<mapsto> count))\<rparr>)"

fun oldest :: "('k \<times> gecko_entry) list \<Rightarrow> ('k \<times> int) option \<Rightarrow> ('k \<times> int) option" where
  "oldest [] acc = acc"
| "oldest ((key, entry) # xs) acc = oldest xs (case acc of
      None \<Rightarrow> Some (key, geDeadline entry)
    | Some (_, d) \<Rightarrow> if geDeadline entry < d then Some (key, geDeadline entry) else acc)"

definition evictOldestLocked :: "('a gecko_map \<Rightarrow> 'a gecko_map) \<Rightarrow> 'a gecko \<Rightarrow> 'a gecko" where
  "evictOldestLocked visit g = (case oldest (visit (reassembly g)) None of
      None \<Rightarrow> g
    | Some (key, _) \<Rightarrow> dropEntryLocked key g)"

fun sweep_entries :: "int \<Rightarrow> 'a gecko_map \<Rightarrow> 'a gecko \<Rightarrow> 'a gecko" where
  "sweep_entries now [] g = g"
| "sweep_entries now ((key, entry) # xs) g =
     sweep_entries now xs (if now > geDeadline entry then dropEntryLocked key g else g)"

definition sweepExpiredLocked :: "('a gecko_map \<Rightarrow> 'a gecko_map) \<Rightarrow> int \<Rightarrow> 'a gecko \<Rightarrow> 'a gecko" where
  "sweepExpiredLocked visit now g = (sweep_entries now (visit (reassembly g)) g)\<lparr>lastSweep := now\<rparr>"

definition new_entry :: "nat \<Rightarrow> int \<Rightarrow> gecko_entry" where
  "new_entry totalChunks now = \<lparr>geChunks = replicate totalChunks None, geReceived = 0, geTotal = totalChunks,
     geDeadline = now + geckoReassemblyTTL\<rparr>"

text \<open>\<^verbatim>\<open>slices.Concat\<close> of the chunks, a nil chunk being empty.\<close>

definition join :: "bytes option list \<Rightarrow> bytes" where
  "join cs = concat (map (\<lambda>c. case c of None \<Rightarrow> [] | Some b \<Rightarrow> b) cs)"

text \<open>The chunk put into its entry; \<open>None\<close> when its place is taken or does not exist.\<close>

definition store_chunk :: "nat \<Rightarrow> bytes \<Rightarrow> gecko_entry \<Rightarrow> gecko_entry option" where
  "store_chunk chunkIdx payload entry =
     (if chunkIdx \<ge> length (geChunks entry) \<or> geChunks entry ! chunkIdx \<noteq> None then None
      else Some (entry\<lparr>geChunks := (geChunks entry)[chunkIdx := Some payload], geReceived := geReceived entry + 1\<rparr>))"

record ('got, 'v) arrival =
  arGot :: 'got
  arNow :: int
  arNow2 :: int
  arVisit :: 'v

text \<open>The entry of a chunk, opened when there is none and the source has room.\<close>

definition find_entry :: "int \<Rightarrow> ('a gecko_map \<Rightarrow> 'a gecko_map) \<Rightarrow> 'a \<times> byte \<Rightarrow> nat \<Rightarrow> 'a gecko \<Rightarrow> gecko_entry option \<times> 'a gecko" where
  "find_entry now2 visit key totalChunks g = (case map_of (reassembly g) key of
      None \<Rightarrow>
        let count = (case perSource g (fst key) of None \<Rightarrow> 0 | Some c \<Rightarrow> c) in
        if count \<ge> int geckoMaxPerSource then (None, g)
        else
          let g = (if length (reassembly g) \<ge> geckoMaxReassembly then evictOldestLocked visit g else g);
              entry = new_entry totalChunks now2;
              count = (case perSource g (fst key) of None \<Rightarrow> 0 | Some c \<Rightarrow> c) in
          (Some entry, g\<lparr>reassembly := AList.update key entry (reassembly g), perSource := (perSource g)(fst key \<mapsto> count + 1)\<rparr>)
    | Some entry \<Rightarrow> if geTotal entry \<noteq> totalChunks then (None, g) else (Some entry, g))"

definition put_chunk :: "'a \<times> byte \<Rightarrow> nat \<Rightarrow> bytes \<Rightarrow> gecko_entry \<Rightarrow> 'a gecko \<Rightarrow> bytes option \<times> 'a gecko" where
  "put_chunk key chunkIdx payload entry g = (case store_chunk chunkIdx payload entry of
      None \<Rightarrow> (None, g)
    | Some entry \<Rightarrow>
        let g = g\<lparr>reassembly := AList.update key entry (reassembly g)\<rparr> in
        if geReceived entry < geTotal entry then (None, g)
        else (Some (join (geChunks entry)), dropEntryLocked key g))"

definition acceptChunk :: "int \<Rightarrow> int \<Rightarrow> ('a gecko_map \<Rightarrow> 'a gecko_map) \<Rightarrow> 'a \<Rightarrow> byte \<Rightarrow> nat \<Rightarrow> nat \<Rightarrow> bytes \<Rightarrow> 'a gecko
    \<Rightarrow> bytes option \<times> 'a gecko" where
  "acceptChunk now now2 visit addr msgID chunkIdx totalChunks payload g =
     (let key = (addr, msgID);
          g = (if now - lastSweep g \<ge> geckoReassemblyTTL div 2 then sweepExpiredLocked visit now g else g) in
      case find_entry now2 visit key totalChunks g of
        (None, g) \<Rightarrow> (None, g)
      | (Some entry, g) \<Rightarrow> put_chunk key chunkIdx payload entry g)"

text \<open>The client's: no sources to keep apart, and no eviction.\<close>

definition client_sweepExpiredLocked :: "int \<Rightarrow> gecko_client \<Rightarrow> gecko_client" where
  "client_sweepExpiredLocked now g =
     g\<lparr>cReassembly := filter (\<lambda>(_, entry). \<not> now > geDeadline entry) (cReassembly g), cLastSweep := now\<rparr>"

definition client_find_entry :: "int \<Rightarrow> byte \<Rightarrow> nat \<Rightarrow> gecko_client \<Rightarrow> gecko_entry option \<times> gecko_client" where
  "client_find_entry now2 msgID totalChunks g = (case map_of (cReassembly g) msgID of
      None \<Rightarrow>
        if length (cReassembly g) \<ge> geckoMaxPerSource then (None, g)
        else let entry = new_entry totalChunks now2 in
          (Some entry, g\<lparr>cReassembly := AList.update msgID entry (cReassembly g)\<rparr>)
    | Some entry \<Rightarrow> if geTotal entry \<noteq> totalChunks then (None, g) else (Some entry, g))"

definition client_put_chunk :: "byte \<Rightarrow> nat \<Rightarrow> bytes \<Rightarrow> gecko_entry \<Rightarrow> gecko_client \<Rightarrow> bytes option \<times> gecko_client" where
  "client_put_chunk msgID chunkIdx payload entry g = (case store_chunk chunkIdx payload entry of
      None \<Rightarrow> (None, g)
    | Some entry \<Rightarrow>
        let g = g\<lparr>cReassembly := AList.update msgID entry (cReassembly g)\<rparr> in
        if geReceived entry < geTotal entry then (None, g)
        else (Some (join (geChunks entry)), g\<lparr>cReassembly := AList.delete msgID (cReassembly g)\<rparr>))"

definition client_acceptChunk :: "int \<Rightarrow> int \<Rightarrow> byte \<Rightarrow> nat \<Rightarrow> nat \<Rightarrow> bytes \<Rightarrow> gecko_client \<Rightarrow> bytes option \<times> gecko_client" where
  "client_acceptChunk now now2 msgID chunkIdx totalChunks payload g =
     (let g = (if now - cLastSweep g \<ge> geckoReassemblyTTL div 2 then client_sweepExpiredLocked now g else g) in
      case client_find_entry now2 msgID totalChunks g of
        (None, g) \<Rightarrow> (None, g)
      | (Some entry, g) \<Rightarrow> client_put_chunk msgID chunkIdx payload entry g)"

section \<open>Reading\<close>

datatype gecko_read = Skip | Plain | Chunk byte nat nat bytes

text \<open>What the first \<open>n\<close> bytes of the buffer are.\<close>

definition classify :: "nat \<Rightarrow> bytes \<Rightarrow> gecko_read" where
  "classify n p =
     (if n = 0 then Skip
      else if p ! 0 AND geckoFragmentFlag = 0 then Plain
      else if n < geckoHeaderLen then Skip
      else
        let msgID = p ! 1; chunkIdx = unat (drop_bit 4 (p ! 2)); totalChunks = unat (p ! 2 AND 0x0f);
            padLen = get_u16 (slice 3 5 p) in
        if totalChunks < geckoMinChunks \<or> totalChunks > geckoMaxChunks then Skip
        else if chunkIdx \<ge> totalChunks then Skip
        else
          let payloadStart = geckoHeaderLen + unat padLen in
          if payloadStart > n then Skip else Chunk msgID chunkIdx totalChunks (slice payloadStart n p))"

text \<open>The loop over what the connection below hands up, until a packet is whole. The result is \<open>None\<close> when
  nothing arrives any more and the reader is left waiting.\<close>

fun read_gecko :: "('got \<Rightarrow> bytes \<Rightarrow> ('e + nat \<times> 'a) \<times> bytes)
    \<Rightarrow> (('got, 'v) arrival \<Rightarrow> 'a \<Rightarrow> byte \<Rightarrow> nat \<Rightarrow> nat \<Rightarrow> bytes \<Rightarrow> 'g \<Rightarrow> bytes option \<times> 'g)
    \<Rightarrow> ('got, 'v) arrival list \<Rightarrow> bytes \<Rightarrow> 'g \<Rightarrow> ('e + nat \<times> 'a) option \<times> bytes \<times> ('got, 'v) arrival list \<times> 'g" where
  "read_gecko inner accept [] p g = (None, p, [], g)"
| "read_gecko inner accept (x # xs) p g = (case inner (arGot x) p of
      (Inl err, p) \<Rightarrow> (Some (Inl err), p, xs, g)
    | (Inr (n, addr), p) \<Rightarrow> (case classify n p of
        Skip \<Rightarrow> read_gecko inner accept xs p g
      | Plain \<Rightarrow> (Some (Inr (n, addr)), p, xs, g)
      | Chunk msgID chunkIdx totalChunks payload \<Rightarrow> (case accept x addr msgID chunkIdx totalChunks payload g of
          (None, g) \<Rightarrow> read_gecko inner accept xs p g
        | (Some out, g) \<Rightarrow> (Some (Inr (min (length out) (length p), addr)), copy_at 0 (take (length p) out) p, xs, g))))"

definition gecko_ReadFrom :: "(bytes \<Rightarrow> bytes) \<Rightarrow> bytes \<Rightarrow> ('e + bytes \<times> 'a, 'a gecko_map \<Rightarrow> 'a gecko_map) arrival list \<Rightarrow> bytes \<Rightarrow> 'a gecko
    \<Rightarrow> ('e + nat \<times> 'a) option \<times> bytes \<times> ('e + bytes \<times> 'a, 'a gecko_map \<Rightarrow> 'a gecko_map) arrival list \<times> 'a gecko" where
  "gecko_ReadFrom sum256 password =
     read_gecko (salamander_ReadFrom sum256 password) (\<lambda>x. acceptChunk (arNow x) (arNow2 x) (arVisit x))"

definition gecko_Read :: "(bytes \<Rightarrow> bytes) \<Rightarrow> bytes \<Rightarrow> ('e + bytes, unit) arrival list \<Rightarrow> bytes \<Rightarrow> gecko_client
    \<Rightarrow> ('e + nat \<times> unit) option \<times> bytes \<times> ('e + bytes, unit) arrival list \<times> gecko_client" where
  "gecko_Read sum256 password =
     read_gecko (\<lambda>got p. case salamander_Read sum256 password got p of
         (Inl err, p) \<Rightarrow> (Inl err, p) | (Inr n, p) \<Rightarrow> (Inr (n, ()), p))
       (\<lambda>x _. client_acceptChunk (arNow x) (arNow2 x))"

end
