(* ===== verification/GeckoInv.thy ===== *)
theory GeckoInv
  imports Gecko
begin

text \<open>
  What the gecko readers keep: the counts per source are those of the map, the bounds hold, every entry
  misses a chunk, and every chunk it holds was accepted for its key, number of chunks and place. The set
  \<open>H\<close> collects what was accepted.
\<close>

section \<open>Entries\<close>

type_synonym 'k accepted = "('k \<times> nat \<times> nat \<times> bytes) set"

definition entry_ok :: "'k accepted \<Rightarrow> 'k \<Rightarrow> gecko_entry \<Rightarrow> bool" where
  "entry_ok H k e \<longleftrightarrow> length (geChunks e) = geTotal e \<and> 2 \<le> geTotal e \<and> geTotal e \<le> 8 \<and>
     geReceived e = length (filter (\<lambda>c. c \<noteq> None) (geChunks e)) \<and> geReceived e < geTotal e \<and>
     (\<forall>i b. i < geTotal e \<and> geChunks e ! i = Some b \<longrightarrow> (k, geTotal e, i, b) \<in> H)"

lemma count_update_Some:
  "i < length cs \<Longrightarrow> cs ! i = None \<Longrightarrow>
    length (filter (\<lambda>c. c \<noteq> None) (cs[i := Some b])) = Suc (length (filter (\<lambda>c. c \<noteq> None) cs))"
proof (induction cs arbitrary: i)
  case (Cons c cs)
  then show ?case by (cases i) auto
qed simp

lemma all_present: "\<not> length (filter (\<lambda>c. c \<noteq> None) cs) < length cs \<Longrightarrow> None \<notin> set cs"
  using length_filter_less [of None cs "\<lambda>c. c \<noteq> None"] by blast

lemma join_present: "None \<notin> set cs \<Longrightarrow> join cs = concat (map the cs)"
  by (induction cs) (auto simp: join_def split: option.splits)

text \<open>A chunk that is stored either leaves an entry that misses one, or completes the packet.\<close>

lemma store_chunk_ok:
  assumes "entry_ok H k e" and "(k, geTotal e, i, b) \<in> H" and "store_chunk i b e = Some e'"
  shows "geTotal e' = geTotal e \<and> (if geReceived e' < geTotal e' then entry_ok H k e'
    else \<exists>pls. length pls = geTotal e \<and> join (geChunks e') = concat pls \<and> (\<forall>j < geTotal e. (k, geTotal e, j, pls ! j) \<in> H))"
proof -
  have i: "i < length (geChunks e)" "geChunks e ! i = None"
      and e': "e' = e\<lparr>geChunks := (geChunks e)[i := Some b], geReceived := geReceived e + 1\<rparr>"
    using assms(3) by (auto simp: store_chunk_def split: if_splits)
  have len: "length (geChunks e) = geTotal e" using assms(1) by (simp add: entry_ok_def)
  have count: "geReceived e' = length (filter (\<lambda>c. c \<noteq> None) (geChunks e'))"
    using count_update_Some [OF i, of b] assms(1) e' by (simp add: entry_ok_def)
  have held: "\<forall>j c. j < geTotal e \<and> geChunks e' ! j = Some c \<longrightarrow> (k, geTotal e, j, c) \<in> H"
    using assms(1,2) i len e' by (auto simp: entry_ok_def nth_list_update)
  show ?thesis
  proof (cases "geReceived e' < geTotal e'")
    case True
    then show ?thesis using assms(1) e' count held len by (simp add: entry_ok_def)
  next
    case False
    then have none: "None \<notin> set (geChunks e')" using all_present [of "geChunks e'"] count e' len by simp
    have "(k, geTotal e, j, map the (geChunks e') ! j) \<in> H" if "j < geTotal e" for j
    proof -
      have j: "j < length (geChunks e')" using that e' len by simp
      then have "geChunks e' ! j \<noteq> None" using none by (metis nth_mem)
      then show ?thesis using held that j by auto
    qed
    then show ?thesis using False e' len join_present [OF none] by (intro conjI) (auto intro!: exI [of _ "map the (geChunks e')"])
  qed
qed

lemma new_entry_ok: "2 \<le> t \<Longrightarrow> t \<le> 8 \<Longrightarrow> entry_ok H k (new_entry t now)"
  by (auto simp: entry_ok_def new_entry_def)

section \<open>The server\<close>

definition held :: "'a \<Rightarrow> ('a \<times> byte) list \<Rightarrow> nat" where
  "held a ks = length (filter (\<lambda>k. fst k = a) ks)"

definition counts :: "('a \<rightharpoonup> int) \<Rightarrow> ('a \<times> byte) list \<Rightarrow> bool" where
  "counts per ks \<longleftrightarrow> (\<forall>a. per a = (if held a ks = 0 then None else Some (int (held a ks))))"

definition gecko_ok :: "('a \<times> byte) accepted \<Rightarrow> 'a gecko \<Rightarrow> bool" where
  "gecko_ok H g \<longleftrightarrow> distinct (map fst (reassembly g)) \<and> counts (perSource g) (map fst (reassembly g)) \<and>
     (\<forall>a. held a (map fst (reassembly g)) \<le> 8) \<and> length (reassembly g) \<le> 4096 \<and>
     (\<forall>k e. map_of (reassembly g) k = Some e \<longrightarrow> entry_ok H k e)"

lemma held_pos: "k \<in> set ks \<Longrightarrow> 0 < held (fst k) ks"
  by (auto simp: held_def filter_empty_conv)

lemma held_removeAll:
  "distinct ks \<Longrightarrow> held a (removeAll k ks) = (if k \<in> set ks \<and> fst k = a then held a ks - 1 else held a ks)"
proof (induction ks)
  case (Cons x ks)
  have "removeAll k ks = ks" if "k \<notin> set ks" using that by (rule removeAll_id)
  moreover have "0 < held (fst k) ks" if "k \<in> set ks" using that by (rule held_pos)
  ultimately show ?case using Cons by (auto simp: held_def)
qed (simp add: held_def)

lemma map_of_key: "map_of al k \<noteq> None \<longleftrightarrow> k \<in> set (map fst al)"
  by (simp add: map_of_eq_None_iff)

text \<open>An entry taken out.\<close>

lemma drop_entries: "map_of (reassembly (dropEntryLocked k g)) = (map_of (reassembly g))(k := None)"
  by (auto simp: dropEntryLocked_def Let_def delete_conv')

lemma drop_ok:
  assumes ok: "gecko_ok H g"
  shows "gecko_ok H (dropEntryLocked k g) \<and> (\<forall>a. held a (map fst (reassembly (dropEntryLocked k g))) \<le> held a (map fst (reassembly g))) \<and>
    (map_of (reassembly g) k \<noteq> None \<longrightarrow> length (reassembly (dropEntryLocked k g)) < length (reassembly g))"
proof (cases "map_of (reassembly g) k = None")
  case True
  then show ?thesis using ok by (simp add: dropEntryLocked_def)
next
  case False
  let ?ks = "map fst (reassembly g)"
  have k: "k \<in> set ?ks" using False map_of_key [of "reassembly g" k] by simp
  have d: "distinct ?ks" and per: "counts (perSource g) ?ks" using ok by (simp_all add: gecko_ok_def)
  let ?g = "dropEntryLocked k g"
  have keys: "map fst (reassembly ?g) = removeAll k ?ks" using False by (auto simp: dropEntryLocked_def Let_def delete_keys)
  have held: "held a (removeAll k ?ks) = (if fst k = a then held a ?ks - 1 else held a ?ks)" for a
    using held_removeAll [OF d, of a k] k by simp
  have "counts (perSource ?g) (removeAll k ?ks)"
    using False per held_pos [OF k] by (auto simp: counts_def held dropEntryLocked_def Let_def)
  moreover have shorter: "length (reassembly ?g) < length (reassembly g)"
  proof -
    have "length (removeAll k ?ks) < length ?ks" using k by (rule length_removeAll_less)
    then show ?thesis by (simp flip: keys)
  qed
  moreover have "\<forall>a. held a (removeAll k ?ks) \<le> held a ?ks" by (simp add: held)
  ultimately show ?thesis
    using ok distinct_removeAll [OF d, of k] drop_entries [of k g] by (auto simp: gecko_ok_def keys intro: order_trans split: if_splits)
qed

text \<open>What a sweep and an eviction take out.\<close>

definition smaller :: "'a gecko \<Rightarrow> 'a gecko \<Rightarrow> bool" where
  "smaller g g' \<longleftrightarrow> (\<forall>a. held a (map fst (reassembly g')) \<le> held a (map fst (reassembly g))) \<and>
     map_of (reassembly g') \<subseteq>\<^sub>m map_of (reassembly g)"

lemma smaller_refl [simp]: "smaller g g"
  by (simp add: smaller_def)

lemma smaller_trans: "smaller g g' \<Longrightarrow> smaller g' g'' \<Longrightarrow> smaller g g''"
  unfolding smaller_def using map_le_trans order_trans by blast

lemma drop_smaller: "gecko_ok H g \<Longrightarrow> smaller g (dropEntryLocked k g)"
  using drop_ok [of H g k] by (auto simp: smaller_def drop_entries map_le_def)

lemma sweep_entries_ok:
  assumes "gecko_ok H g"
  shows "gecko_ok H (sweep_entries now xs g) \<and> smaller g (sweep_entries now xs g) \<and>
    (\<forall>k e. map_of (reassembly g) k = Some e \<and> (\<forall>e'. (k, e') \<in> set xs \<longrightarrow> now \<le> geDeadline e')
      \<longrightarrow> map_of (reassembly (sweep_entries now xs g)) k = Some e)"
  using assms
proof (induction now xs g rule: sweep_entries.induct)
  case (2 now key entry xs g)
  let ?g = "if now > geDeadline entry then dropEntryLocked key g else g"
  have g: "gecko_ok H ?g" "smaller g ?g" using 2(2) drop_ok [OF 2(2)] drop_smaller [OF 2(2)] by auto
  have "map_of (reassembly ?g) k = Some e"
    if "map_of (reassembly g) k = Some e" "\<forall>e'. (k, e') \<in> set ((key, entry) # xs) \<longrightarrow> now \<le> geDeadline e'" for k e
    using that by (auto simp: drop_entries)
  then show ?case using 2(1) [OF g(1)] smaller_trans [OF g(2)] by auto
qed simp

lemma gecko_ok_lastSweep [simp]: "gecko_ok H (g\<lparr>lastSweep := t\<rparr>) = gecko_ok H g"
  by (simp add: gecko_ok_def)

lemma smaller_lastSweep [simp]: "smaller g (g'\<lparr>lastSweep := t\<rparr>) = smaller g g'"
  by (simp add: smaller_def)

definition swept :: "('a gecko_map \<Rightarrow> 'a gecko_map) \<Rightarrow> int \<Rightarrow> 'a gecko \<Rightarrow> 'a gecko" where
  "swept visit now g = (if now - lastSweep g \<ge> geckoReassemblyTTL div 2 then sweepExpiredLocked visit now g else g)"

lemma swept_ok:
  assumes ok: "gecko_ok H g" and visit: "\<And>m. set (visit m) = set m"
  shows "gecko_ok H (swept visit now g) \<and> smaller g (swept visit now g) \<and>
    (\<forall>k e. map_of (reassembly g) k = Some e \<and> now \<le> geDeadline e \<longrightarrow> map_of (reassembly (swept visit now g)) k = Some e)"
proof -
  have d: "distinct (map fst (reassembly g))" using ok by (simp add: gecko_ok_def)
  have "e' = e" if "(k, e') \<in> set (visit (reassembly g))" "map_of (reassembly g) k = Some e" for k e e'
    using that map_of_eq_set [OF d, of k e'] visit by simp
  then have keep: "now \<le> geDeadline e'" if "map_of (reassembly g) k = Some e" "now \<le> geDeadline e" "(k, e') \<in> set (visit (reassembly g))" for k e e'
    using that by metis
  let ?g = "sweep_entries now (visit (reassembly g)) g"
  have s: "gecko_ok H ?g" "smaller g ?g" using sweep_entries_ok [OF ok] by blast+
  have "map_of (reassembly ?g) k = Some e" if "map_of (reassembly g) k = Some e" "now \<le> geDeadline e" for k e
    using sweep_entries_ok [OF ok, of now "visit (reassembly g)"] that keep [OF that] by blast
  then show ?thesis using s ok by (simp add: swept_def sweepExpiredLocked_def)
qed

lemma oldest_mem: "oldest xs acc = Some (k, d) \<Longrightarrow> acc = Some (k, d) \<or> k \<in> fst ` set xs"
proof (induction xs acc rule: oldest.induct)
  case (2 key entry xs acc)
  then show ?case by (cases acc) (auto split: if_splits)
qed simp

lemma oldest_found: "xs \<noteq> [] \<or> acc \<noteq> None \<Longrightarrow> oldest xs acc \<noteq> None"
proof (induction xs acc rule: oldest.induct)
  case (2 key entry xs acc)
  have "(case acc of None \<Rightarrow> Some (key, geDeadline entry)
      | Some (_, d) \<Rightarrow> if geDeadline entry < d then Some (key, geDeadline entry) else acc) \<noteq> None" by (auto split: option.splits)
  then show ?case using 2(1) by simp
qed simp

lemma evict_ok:
  assumes ok: "gecko_ok H g" and visit: "\<And>m. set (visit m) = set m" and "reassembly g \<noteq> []"
  shows "gecko_ok H (evictOldestLocked visit g) \<and> smaller g (evictOldestLocked visit g) \<and>
    length (reassembly (evictOldestLocked visit g)) < length (reassembly g)"
proof -
  have "visit (reassembly g) \<noteq> []" using visit [of "reassembly g"] assms(3) by auto
  then have "oldest (visit (reassembly g)) None \<noteq> None" by (intro oldest_found) simp
  then obtain k d where k: "oldest (visit (reassembly g)) None = Some (k, d)" by auto
  then have "k \<in> set (map fst (reassembly g))" using oldest_mem [OF k] visit by simp
  then have "map_of (reassembly g) k \<noteq> None" using map_of_key [of "reassembly g" k] by simp
  then show ?thesis using k drop_ok [OF ok, of k] drop_smaller [OF ok, of k] by (simp add: evictOldestLocked_def)
qed

section \<open>A chunk arrives\<close>

lemma count_of_held: "gecko_ok H g \<Longrightarrow> (case perSource g a of None \<Rightarrow> 0 | Some c \<Rightarrow> c) = int (held a (map fst (reassembly g)))"
  by (simp add: gecko_ok_def counts_def)

lemma held_append: "held a (ks @ [k]) = (if fst k = a then Suc (held a ks) else held a ks)"
  by (simp add: held_def)

lemma new_key_ok:
  assumes ok: "gecko_ok H g" and k: "map_of (reassembly g) k = None" and room: "held (fst k) (map fst (reassembly g)) < 8"
    and len: "length (reassembly g) < 4096" and e: "entry_ok H k e"
  shows "gecko_ok H (g\<lparr>reassembly := AList.update k e (reassembly g),
    perSource := (perSource g)(fst k \<mapsto> (case perSource g (fst k) of None \<Rightarrow> 0 | Some c \<Rightarrow> c) + 1)\<rparr>)"
proof -
  let ?r = "AList.update k e (reassembly g)"
  have notin: "k \<notin> set (map fst (reassembly g))" using k map_of_key [of "reassembly g" k] by simp
  then have keys: "map fst ?r = map fst (reassembly g) @ [k]" by (simp add: update_keys)
  have "length ?r = Suc (length (reassembly g))" using keys by (metis length_append_singleton length_map)
  moreover have "distinct (map fst ?r)" using ok notin by (simp add: keys gecko_ok_def)
  ultimately show ?thesis
    using ok room len e count_of_held [OF ok, of "fst k"] unfolding gecko_ok_def
    by (auto simp: keys held_append counts_def update_conv')
qed

lemma replace_entry_ok:
  assumes ok: "gecko_ok H g" and k: "map_of (reassembly g) k \<noteq> None" and e: "entry_ok H k e"
  shows "gecko_ok H (g\<lparr>reassembly := AList.update k e (reassembly g)\<rparr>)"
proof -
  have "k \<in> set (map fst (reassembly g))" using k map_of_key [of "reassembly g" k] by simp
  then have keys: "map fst (AList.update k e (reassembly g)) = map fst (reassembly g)" by (simp add: update_keys)
  then have "length (AList.update k e (reassembly g)) = length (reassembly g)" by (metis length_map)
  then show ?thesis using ok e unfolding gecko_ok_def by (auto simp: keys update_conv')
qed

lemma find_entry_ok:
  assumes ok: "gecko_ok H g" and visit: "\<And>m. set (visit m) = set m" and t: "2 \<le> t" "t \<le> 8"
    and found: "find_entry now2 visit k t g = (found, g')"
  shows "gecko_ok H g' \<and> (\<forall>e. found = Some e \<longrightarrow> map_of (reassembly g') k = Some e \<and> geTotal e = t)"
proof (cases "map_of (reassembly g) k")
  case (Some e)
  then show ?thesis using ok found by (auto simp: find_entry_def split: if_splits)
next
  case None
  show ?thesis
  proof (cases "held (fst k) (map fst (reassembly g)) < 8")
    case False
    then show ?thesis using None found ok count_of_held [OF ok, of "fst k"] by (simp add: find_entry_def geckoMaxPerSource_def)
  next
    case room: True
    let ?g = "if length (reassembly g) \<ge> geckoMaxReassembly then evictOldestLocked visit g else g"
    have "gecko_ok H ?g \<and> smaller g ?g \<and> length (reassembly ?g) < 4096"
    proof (cases "length (reassembly g) \<ge> 4096")
      case True
      then have "reassembly g \<noteq> []" by auto
      moreover have "length (reassembly g) \<le> 4096" using ok by (simp add: gecko_ok_def)
      ultimately show ?thesis using evict_ok [OF ok visit] True by (simp add: geckoMaxReassembly_def)
    qed (use ok in \<open>simp add: geckoMaxReassembly_def\<close>)
    then have g: "gecko_ok H ?g" "smaller g ?g" "length (reassembly ?g) < 4096" by simp_all
    have absent: "map_of (reassembly ?g) k = None"
    proof (rule ccontr)
      assume "map_of (reassembly ?g) k \<noteq> None"
      then obtain e where e: "map_of (reassembly ?g) k = Some e" by blast
      then have "map_of (reassembly g) k = map_of (reassembly ?g) k" using g(2) unfolding smaller_def map_le_def by (metis domI)
      then show False using None e by simp
    qed
    have "held (fst k) (map fst (reassembly ?g)) < 8" using g(2) room unfolding smaller_def by (meson le_less_trans)
    from new_key_ok [OF g(1) absent this g(3) new_entry_ok [OF t]] show ?thesis
      using None room found count_of_held [OF ok, of "fst k"]
      by (auto simp: find_entry_def geckoMaxPerSource_def Let_def update_conv' new_entry_def)
  qed
qed

lemma put_chunk_ok:
  assumes ok: "gecko_ok H g" and e: "map_of (reassembly g) k = Some e" and acc: "(k, geTotal e, i, b) \<in> H"
    and put: "put_chunk k i b e g = (out, g')"
  shows "gecko_ok H g' \<and> (\<forall>p. out = Some p \<longrightarrow> (\<exists>pls. length pls = geTotal e \<and> p = concat pls \<and> (\<forall>j < geTotal e. (k, geTotal e, j, pls ! j) \<in> H)))"
proof (cases "store_chunk i b e")
  case None
  then show ?thesis using put ok by (simp add: put_chunk_def)
next
  case (Some e')
  have e0: "entry_ok H k e" using ok e unfolding gecko_ok_def by blast
  note st = store_chunk_ok [OF e0 acc Some]
  show ?thesis
  proof (cases "geReceived e' < geTotal e'")
    case True
    then show ?thesis using put Some replace_entry_ok [OF ok, of k e'] e st by (auto simp: put_chunk_def Let_def)
  next
    case False
    let ?g = "g\<lparr>reassembly := AList.update k e' (reassembly g)\<rparr>"
    have "dropEntryLocked k ?g = dropEntryLocked k g"
      using e by (simp add: dropEntryLocked_def update_conv' map_of_update_split)
    then show ?thesis using put Some False st drop_ok [OF ok, of k] by (auto simp: put_chunk_def Let_def)
  qed
qed

theorem acceptChunk_ok:
  assumes ok: "gecko_ok H g" and visit: "\<And>m. set (visit m) = set m" and t: "2 \<le> t" "t \<le> 8"
    and acc: "((a, m), t, i, b) \<in> H" and accept: "acceptChunk now now2 visit a m i t b g = (out, g')"
  shows "gecko_ok H g' \<and> (\<forall>p. out = Some p \<longrightarrow> (\<exists>pls. length pls = t \<and> p = concat pls \<and> (\<forall>j < t. ((a, m), t, j, pls ! j) \<in> H)))"
proof -
  have s: "gecko_ok H (swept visit now g)" using swept_ok [OF ok visit] by blast
  obtain found g1 where f: "find_entry now2 visit (a, m) t (swept visit now g) = (found, g1)" by fastforce
  note fo = find_entry_ok [OF s visit t f]
  show ?thesis
  proof (cases found)
    case None
    then show ?thesis using accept f fo by (simp add: acceptChunk_def swept_def)
  next
    case (Some e)
    then have "put_chunk (a, m) i b e g1 = (out, g')" using accept f by (simp add: acceptChunk_def swept_def)
    from put_chunk_ok [OF _ _ _ this, of H] fo Some acc show ?thesis by auto
  qed
qed

end
