(* ===== verification/GeckoDeliver.thy ===== *)
theory GeckoDeliver
  imports GeckoInv
begin

text \<open>
  The client's invariant, and what both readers promise the sender of a packet: the locale
  \<open>chunk_store\<close> states how one key's entry grows with the chunks that arrive, and in it the chunks
  of a packet, in any order and with repetitions, are joined when the last of them arrives. Both
  \<^verbatim>\<open>acceptChunk\<close> methods provide it.
\<close>

section \<open>The client\<close>

definition client_ok :: "byte accepted \<Rightarrow> gecko_client \<Rightarrow> bool" where
  "client_ok H g \<longleftrightarrow> distinct (map fst (cReassembly g)) \<and> length (cReassembly g) \<le> 8 \<and>
     (\<forall>k e. map_of (cReassembly g) k = Some e \<longrightarrow> entry_ok H k e)"

definition client_swept :: "int \<Rightarrow> gecko_client \<Rightarrow> gecko_client" where
  "client_swept now g = (if now - cLastSweep g \<ge> geckoReassemblyTTL div 2 then client_sweepExpiredLocked now g else g)"

lemma map_of_filter_value:
  "distinct (map fst m) \<Longrightarrow> map_of (filter (\<lambda>(_, e). P e) m) k = (case map_of m k of None \<Rightarrow> None | Some e \<Rightarrow> if P e then Some e else None)"
proof (induction m)
  case (Cons x m)
  have "map_of m (fst x) = None" using Cons.prems by (simp add: map_of_eq_None_iff)
  then show ?case using Cons by (cases x) auto
qed simp

lemma client_swept_ok:
  assumes "client_ok H g"
  shows "client_ok H (client_swept now g) \<and> length (cReassembly (client_swept now g)) \<le> length (cReassembly g) \<and>
    (map_of (cReassembly g) k = None \<longrightarrow> map_of (cReassembly (client_swept now g)) k = None) \<and>
    (\<forall>e. map_of (cReassembly g) k = Some e \<and> now \<le> geDeadline e \<longrightarrow> map_of (cReassembly (client_swept now g)) k = Some e)"
proof (cases "now - cLastSweep g \<ge> geckoReassemblyTTL div 2")
  case True
  let ?m = "filter (\<lambda>(_, e). \<not> now > geDeadline e) (cReassembly g)"
  have d: "distinct (map fst (cReassembly g))" using assms by (simp add: client_ok_def)
  have "distinct (map fst ?m)" using d by (simp add: distinct_map_filter)
  moreover have "length ?m \<le> length (cReassembly g)" by (rule length_filter_le)
  ultimately have m: "distinct (map fst ?m)" "length ?m \<le> length (cReassembly g)" by blast+
  have L: "map_of ?m k' = (case map_of (cReassembly g) k' of None \<Rightarrow> None | Some e \<Rightarrow> if \<not> now > geDeadline e then Some e else None)" for k'
    by (rule map_of_filter_value [OF d])
  have swept: "cReassembly (client_swept now g) = ?m" using True by (simp add: client_swept_def client_sweepExpiredLocked_def)
  have "entry_ok H k' e" if "map_of ?m k' = Some e" for k' e
    using that assms L [of k'] unfolding client_ok_def
    by (cases "map_of (cReassembly g) k'") (simp_all del: map_of_eq_Some_iff split: if_splits)
  moreover have "length ?m \<le> 8" by (rule order_trans [OF m(2)]) (use assms in \<open>simp add: client_ok_def\<close>)
  ultimately show ?thesis
    using m L [of k] unfolding client_ok_def swept by (simp del: map_of_eq_Some_iff)
qed (use assms in \<open>simp add: client_swept_def\<close>)

lemma client_update_ok:
  assumes "client_ok H g" and "entry_ok H k e" and "map_of (cReassembly g) k = None \<Longrightarrow> length (cReassembly g) < 8"
  shows "client_ok H (g\<lparr>cReassembly := AList.update k e (cReassembly g)\<rparr>)"
proof -
  have keys: "map fst (AList.update k e (cReassembly g)) =
      (if k \<in> set (map fst (cReassembly g)) then map fst (cReassembly g) else map fst (cReassembly g) @ [k])"
    by (simp add: update_keys)
  have "length (AList.update k e (cReassembly g)) = (if k \<in> set (map fst (cReassembly g)) then length (cReassembly g) else Suc (length (cReassembly g)))"
    using arg_cong [OF keys, of length] by (simp del: length_map add: length_map [of fst, symmetric])
  then show ?thesis using assms by (auto simp: client_ok_def keys update_conv' map_of_eq_None_iff)
qed

lemma client_delete_ok: "client_ok H g \<Longrightarrow> client_ok H (g\<lparr>cReassembly := AList.delete k (cReassembly g)\<rparr>)"
  using length_delete_le [of k "cReassembly g"]
  by (auto simp: client_ok_def delete_conv' delete_keys distinct_removeAll split: if_splits)

lemma client_find_ok:
  assumes ok: "client_ok H g" and t: "2 \<le> t" "t \<le> 8" and found: "client_find_entry now2 k t g = (found, g')"
  shows "client_ok H g' \<and> (\<forall>e. found = Some e \<longrightarrow> map_of (cReassembly g') k = Some e \<and> geTotal e = t)"
  using client_update_ok [OF ok new_entry_ok [OF t], of k now2] ok found
  by (auto simp: client_find_entry_def Let_def update_conv' new_entry_def geckoMaxPerSource_def split: option.splits if_splits)

lemma client_put_ok:
  assumes ok: "client_ok H g" and e: "map_of (cReassembly g) k = Some e" and acc: "(k, geTotal e, i, b) \<in> H"
    and put: "client_put_chunk k i b e g = (out, g')"
  shows "client_ok H g' \<and> (\<forall>p. out = Some p \<longrightarrow> (\<exists>pls. length pls = geTotal e \<and> p = concat pls \<and> (\<forall>j < geTotal e. (k, geTotal e, j, pls ! j) \<in> H)))"
proof (cases "store_chunk i b e")
  case None
  then show ?thesis using put ok by (simp add: client_put_chunk_def)
next
  case (Some e')
  have e0: "entry_ok H k e" using ok e unfolding client_ok_def by blast
  note st = store_chunk_ok [OF e0 acc Some]
  show ?thesis
  proof (cases "geReceived e' < geTotal e'")
    case True
    then show ?thesis using put Some client_update_ok [OF ok, of k e'] e st by (auto simp: client_put_chunk_def Let_def)
  next
    case False
    then show ?thesis using put Some st client_delete_ok [OF ok, of k] by (auto simp: client_put_chunk_def Let_def map_of_update_split)
  qed
qed

lemma client_acceptChunk_ok:
  assumes ok: "client_ok H g" and t: "2 \<le> t" "t \<le> 8" and acc: "(m, t, i, b) \<in> H"
    and accept: "client_acceptChunk now now2 m i t b g = (out, g')"
  shows "client_ok H g' \<and> (\<forall>p. out = Some p \<longrightarrow> (\<exists>pls. length pls = t \<and> p = concat pls \<and> (\<forall>j < t. (m, t, j, pls ! j) \<in> H)))"
proof -
  have s: "client_ok H (client_swept now g)" using client_swept_ok [OF ok] by blast
  obtain found g1 where f: "client_find_entry now2 m t (client_swept now g) = (found, g1)" by fastforce
  note fo = client_find_ok [OF s t f]
  show ?thesis
  proof (cases found)
    case None
    then show ?thesis using accept f fo by (simp add: client_acceptChunk_def client_swept_def)
  next
    case (Some e)
    then have "client_put_chunk m i b e g1 = (out, g')" using accept f by (simp add: client_acceptChunk_def client_swept_def)
    from client_put_ok [OF _ _ _ this, of H] fo Some acc show ?thesis by auto
  qed
qed

section \<open>The life of one entry\<close>

locale chunk_store =
  fixes ok :: "'g \<Rightarrow> bool" and stamp_ok :: "'s \<Rightarrow> bool" and clock :: "'s \<Rightarrow> int" and clock2 :: "'s \<Rightarrow> int"
    and entry_of :: "'g \<Rightarrow> 'k \<Rightarrow> gecko_entry option" and room :: "'g \<Rightarrow> 'k \<Rightarrow> bool"
    and accept :: "'s \<Rightarrow> 'k \<Rightarrow> nat \<Rightarrow> nat \<Rightarrow> bytes \<Rightarrow> 'g \<Rightarrow> bytes option \<times> 'g"
  assumes opens: "ok g \<Longrightarrow> stamp_ok s \<Longrightarrow> entry_of g k = None \<Longrightarrow> room g k \<Longrightarrow> 2 \<le> t \<Longrightarrow> t \<le> 8 \<Longrightarrow>
      store_chunk i b (new_entry t (clock2 s)) = Some e \<Longrightarrow> geReceived e < geTotal e \<Longrightarrow>
      \<exists>g'. accept s k i t b g = (None, g') \<and> ok g' \<and> entry_of g' k = Some e"
    and repeats: "ok g \<Longrightarrow> stamp_ok s \<Longrightarrow> entry_of g k = Some e \<Longrightarrow> clock s \<le> geDeadline e \<Longrightarrow> geTotal e = t \<Longrightarrow>
      2 \<le> t \<Longrightarrow> t \<le> 8 \<Longrightarrow> store_chunk i b e = None \<Longrightarrow> \<exists>g'. accept s k i t b g = (None, g') \<and> ok g' \<and> entry_of g' k = Some e"
    and grows: "ok g \<Longrightarrow> stamp_ok s \<Longrightarrow> entry_of g k = Some e \<Longrightarrow> clock s \<le> geDeadline e \<Longrightarrow> geTotal e = t \<Longrightarrow>
      2 \<le> t \<Longrightarrow> t \<le> 8 \<Longrightarrow> store_chunk i b e = Some e' \<Longrightarrow> geReceived e' < geTotal e' \<Longrightarrow>
      \<exists>g'. accept s k i t b g = (None, g') \<and> ok g' \<and> entry_of g' k = Some e'"
    and completes: "ok g \<Longrightarrow> stamp_ok s \<Longrightarrow> entry_of g k = Some e \<Longrightarrow> clock s \<le> geDeadline e \<Longrightarrow> geTotal e = t \<Longrightarrow>
      2 \<le> t \<Longrightarrow> t \<le> 8 \<Longrightarrow> store_chunk i b e = Some e' \<Longrightarrow> \<not> geReceived e' < geTotal e' \<Longrightarrow>
      \<exists>g'. accept s k i t b g = (Some (join (geChunks e')), g') \<and> ok g' \<and> entry_of g' k = None"
begin

text \<open>The chunks whose indices are \<open>is\<close>, one after another, up to the one that completes the packet.\<close>

fun deliver :: "'k \<Rightarrow> bytes list \<Rightarrow> ('s \<times> nat) list \<Rightarrow> 'g \<Rightarrow> (bytes \<times> ('s \<times> nat) list \<times> 'g) option" where
  "deliver k pls [] g = None"
| "deliver k pls ((s, i) # xs) g = (case accept s k i (length pls) (pls ! i) g of
      (None, g) \<Rightarrow> deliver k pls xs g
    | (Some p, g) \<Rightarrow> Some (p, xs, g))"

text \<open>An entry that holds exactly the chunks with indices in \<open>S\<close>.\<close>

definition holds :: "bytes list \<Rightarrow> nat set \<Rightarrow> gecko_entry \<Rightarrow> bool" where
  "holds pls S e \<longleftrightarrow> geTotal e = length pls \<and> geChunks e = map (\<lambda>j. if j \<in> S then Some (pls ! j) else None) [0..<length pls] \<and>
     geReceived e = card S \<and> S \<subseteq> {0..<length pls}"

lemma holds_store:
  assumes "holds pls S e" and "i < length pls"
  shows "if i \<in> S then store_chunk i (pls ! i) e = None
    else \<exists>e'. store_chunk i (pls ! i) e = Some e' \<and> holds pls (insert i S) e' \<and> geDeadline e' = geDeadline e"
proof (cases "i \<in> S")
  case True
  then show ?thesis using assms by (simp add: holds_def store_chunk_def)
next
  case False
  let ?e = "e\<lparr>geChunks := (geChunks e)[i := Some (pls ! i)], geReceived := geReceived e + 1\<rparr>"
  have S: "S \<subseteq> {0..<length pls}" using assms(1) by (simp add: holds_def)
  have "finite S" by (rule finite_subset [OF S]) simp
  then have "card (insert i S) = geReceived e + 1" using False assms(1) by (simp add: holds_def)
  moreover have "(geChunks e)[i := Some (pls ! i)] = map (\<lambda>j. if j \<in> insert i S then Some (pls ! j) else None) [0..<length pls]"
    using assms by (intro nth_equalityI) (auto simp: holds_def nth_list_update)
  ultimately have "holds pls (insert i S) ?e" using assms S by (simp add: holds_def)
  moreover have "store_chunk i (pls ! i) e = Some ?e" using False assms by (simp add: holds_def store_chunk_def)
  ultimately show ?thesis using False by simp
qed

lemma holds_new: "holds pls {} (new_entry (length pls) now)"
  by (auto simp: holds_def new_entry_def intro: nth_equalityI)

lemma holds_received: "holds pls S e \<Longrightarrow> geReceived e < geTotal e \<longleftrightarrow> S \<noteq> {0..<length pls}"
  using card_mono [of "{0..<length pls}" S] card_subset_eq [of "{0..<length pls}" S] by (auto simp: holds_def)

lemma holds_all: "holds pls {0..<length pls} e \<Longrightarrow> join (geChunks e) = concat pls"
proof -
  assume "holds pls {0..<length pls} e"
  then have "geChunks e = map (\<lambda>j. Some (pls ! j)) [0..<length pls]" by (simp add: holds_def)
  then have "geChunks e = map Some pls" by (auto intro: nth_equalityI)
  then show ?thesis by (simp add: join_def comp_def)
qed

lemma deliver_rest:
  assumes "holds pls S e" and "S \<noteq> {0..<length pls}" and "ok g" and "entry_of g k = Some e" and "2 \<le> length pls" and "length pls \<le> 8"
    and "\<forall>(s, i) \<in> set xs. stamp_ok s \<and> clock s \<le> geDeadline e \<and> i < length pls"
    and "S \<union> snd ` set xs = {0..<length pls}"
  shows "\<exists>rest g'. deliver k pls xs g = Some (concat pls, rest, g') \<and> ok g' \<and> entry_of g' k = None \<and>
    (S \<union> snd ` set (butlast xs) \<noteq> {0..<length pls} \<longrightarrow> rest = [])"
  using assms
proof (induction xs arbitrary: S e g)
  case (Cons x xs)
  obtain s i where x: "x = (s, i)" by fastforce
  have s: "stamp_ok s" "clock s \<le> geDeadline e" "i < length pls" using Cons.prems(7) x by auto
  have t: "geTotal e = length pls" using Cons.prems(1) by (simp add: holds_def)
  note law = Cons.prems(3) s(1) Cons.prems(4) s(2) t Cons.prems(5,6)
  show ?case
  proof (cases "i \<in> S")
    case True
    then have "store_chunk i (pls ! i) e = None" using holds_store [OF Cons.prems(1) s(3)] by simp
    from repeats [OF law this] obtain g1 where g1: "accept s k i (length pls) (pls ! i) g = (None, g1)" "ok g1" "entry_of g1 k = Some e" by blast
    have "S \<union> snd ` set xs = {0..<length pls}" using Cons.prems(8) True x by auto
    then obtain rest g' where "deliver k pls xs g1 = Some (concat pls, rest, g')" "ok g'" "entry_of g' k = None"
        "S \<union> snd ` set (butlast xs) \<noteq> {0..<length pls} \<longrightarrow> rest = []"
      using Cons.IH [OF Cons.prems(1,2) g1(2,3) Cons.prems(5,6)] Cons.prems(7) by auto
    then show ?thesis using g1(1) x True by (auto simp: insert_absorb)
  next
    case False
    then obtain e' where e': "store_chunk i (pls ! i) e = Some e'" "holds pls (insert i S) e'" "geDeadline e' = geDeadline e"
      using holds_store [OF Cons.prems(1) s(3)] by auto
    show ?thesis
    proof (cases "insert i S = {0..<length pls}")
      case True
      then have "\<not> geReceived e' < geTotal e'" using holds_received [OF e'(2)] by simp
      from completes [OF law e'(1) this] obtain g1 where g1: "accept s k i (length pls) (pls ! i) g = (Some (join (geChunks e')), g1)"
          "ok g1" "entry_of g1 k = None" by blast
      have "xs = []" if "S \<union> snd ` set (butlast (x # xs)) \<noteq> {0..<length pls}"
      proof (rule ccontr)
        assume "xs \<noteq> []"
        then have "insert i S \<subseteq> S \<union> snd ` set (butlast (x # xs))" using x by auto
        moreover have "S \<union> snd ` set (butlast (x # xs)) \<subseteq> {0..<length pls}" using Cons.prems(8) by (auto dest: in_set_butlastD)
        ultimately show False using that True by blast
      qed
      moreover have "join (geChunks e') = concat pls" using e'(2) unfolding True by (rule holds_all)
      then have "deliver k pls (x # xs) g = Some (concat pls, xs, g1)" using g1(1) x by simp
      ultimately show ?thesis using g1(2,3) by blast
    next
      case more: False
      then have "geReceived e' < geTotal e'" using holds_received [OF e'(2)] by simp
      from grows [OF law e'(1) this] obtain g1 where g1: "accept s k i (length pls) (pls ! i) g = (None, g1)" "ok g1" "entry_of g1 k = Some e'" by blast
      have "insert i S \<union> snd ` set xs = {0..<length pls}" using Cons.prems(8) x by auto
      moreover have "\<forall>(s, i) \<in> set xs. stamp_ok s \<and> clock s \<le> geDeadline e' \<and> i < length pls" using Cons.prems(7) e'(3) by auto
      ultimately obtain rest g' where d: "deliver k pls xs g1 = Some (concat pls, rest, g')" "ok g'" "entry_of g' k = None"
          "insert i S \<union> snd ` set (butlast xs) \<noteq> {0..<length pls} \<longrightarrow> rest = []"
        using Cons.IH [OF e'(2) more g1(2,3) Cons.prems(5,6)] by blast
      have "xs \<noteq> []" using d(1) by auto
      then have "snd ` set (butlast (x # xs)) = insert i (snd ` set (butlast xs))" using x by auto
      then show ?thesis using d g1(1) x by auto
    qed
  qed
qed simp

lemma deliver_all:
  assumes "ok g" and "entry_of g k = None" and "room g k" and "2 \<le> length pls" and "length pls \<le> 8"
    and "stamp_ok s" and "\<forall>(s', i) \<in> set xs. stamp_ok s' \<and> clock s' \<le> clock2 s + geckoReassemblyTTL \<and> i < length pls"
    and "i < length pls" and "insert i (snd ` set xs) = {0..<length pls}"
  shows "\<exists>rest g'. deliver k pls ((s, i) # xs) g = Some (concat pls, rest, g') \<and> ok g' \<and> entry_of g' k = None \<and>
    (insert i (snd ` set (butlast xs)) \<noteq> {0..<length pls} \<longrightarrow> rest = [])"
proof -
  have new: "geDeadline (new_entry (length pls) (clock2 s)) = clock2 s + geckoReassemblyTTL" by (simp add: new_entry_def)
  obtain e where e: "store_chunk i (pls ! i) (new_entry (length pls) (clock2 s)) = Some e" "holds pls {i} e"
      "geDeadline e = clock2 s + geckoReassemblyTTL"
    using holds_store [OF holds_new assms(8), of "clock2 s"] unfolding new by auto
  have one: "{i} \<noteq> {0..<length pls}"
  proof
    assume "{i} = {0..<length pls}"
    then have "card {i} = card {0..<length pls}" by simp
    then show False using assms(4) by simp
  qed
  then have "geReceived e < geTotal e" using holds_received [OF e(2)] by simp
  from opens [OF assms(1,6,2,3,4,5) e(1) this] obtain g1 where g1: "accept s k i (length pls) (pls ! i) g = (None, g1)" "ok g1"
      "entry_of g1 k = Some e" by blast
  show ?thesis using deliver_rest [OF e(2) one g1(2,3) assms(4,5), of xs] assms(7,9) e(3) g1(1) by auto
qed

end

context chunk_store begin

text \<open>The reading loop over frames that carry the chunks is the delivery of the chunks.\<close>

lemma read_deliver:
  assumes "deliver k pls xs g = Some (out, rest, g')" and "length buf = L"
    and "\<And>x buf. x \<in> set xs \<Longrightarrow> length buf = L \<Longrightarrow> \<exists>n buf'. inner (arGot (arr x)) buf = (Inr (n, addr), buf') \<and> length buf' = L \<and>
      classify n buf' = Chunk msg (snd x) (length pls) (pls ! snd x)"
    and "\<And>x i t b g. x \<in> set xs \<Longrightarrow> acc (arr x) addr msg i t b g = accept (fst x) k i t b g"
  shows "\<exists>buf'. read_gecko inner acc (map arr xs) buf g =
      (Some (Inr (min (length out) L, addr)), copy_at 0 (take L out) buf', map arr rest, g') \<and> length buf' = L"
  using assms
proof (induction xs arbitrary: g buf)
  case (Cons x xs)
  obtain s i where x: "x = (s, i)" by fastforce
  obtain n buf1 where b: "inner (arGot (arr x)) buf = (Inr (n, addr), buf1)" "length buf1 = L"
      "classify n buf1 = Chunk msg i (length pls) (pls ! i)"
    using Cons.prems(3) [of x buf] Cons.prems(2) x by auto
  have a: "acc (arr x) addr msg i (length pls) (pls ! i) g = accept s k i (length pls) (pls ! i) g" using Cons.prems(4) [of x] x by simp
  obtain o1 g1 where g1: "accept s k i (length pls) (pls ! i) g = (o1, g1)" by fastforce
  show ?case
  proof (cases o1)
    case None
    then have "deliver k pls xs g1 = Some (out, rest, g')" using Cons.prems(1) g1 x by simp
    from Cons.IH [OF this b(2)] Cons.prems(3,4) obtain buf' where "read_gecko inner acc (map arr xs) buf1 g1 =
        (Some (Inr (min (length out) L, addr)), copy_at 0 (take L out) buf', map arr rest, g')" "length buf' = L" by fastforce
    then show ?thesis using b a g1 None by (intro exI [of _ buf']) simp
  next
    case (Some p)
    then show ?thesis using Cons.prems(1) b a g1 x by auto
  qed
qed simp

end

section \<open>Both readers\<close>

lemma find_open:
  assumes "gecko_ok H g" and "map_of (reassembly g) k = None" and "held (fst k) (map fst (reassembly g)) < 8"
  shows "fst (find_entry now2 visit k t g) = Some (new_entry t now2)"
  using assms count_of_held [OF assms(1), of "fst k"] by (simp add: find_entry_def geckoMaxPerSource_def Let_def)

lemma find_known: "map_of (reassembly g) k = Some e \<Longrightarrow> geTotal e = t \<Longrightarrow> find_entry now2 visit k t g = (Some e, g)"
  by (simp add: find_entry_def)

text \<open>What is left in the entry's place.\<close>

lemma put_entry:
  assumes ok: "gecko_ok UNIV g" and e: "map_of (reassembly g) k = Some e"
  shows "\<exists>g'. put_chunk k i b e g = (case store_chunk i b e of None \<Rightarrow> None
      | Some e' \<Rightarrow> if geReceived e' < geTotal e' then None else Some (join (geChunks e')), g') \<and> gecko_ok UNIV g' \<and>
    map_of (reassembly g') k = (case store_chunk i b e of None \<Rightarrow> Some e
      | Some e' \<Rightarrow> if geReceived e' < geTotal e' then Some e' else None)"
proof -
  obtain out g' where put: "put_chunk k i b e g = (out, g')" by fastforce
  have ok': "gecko_ok UNIV g'" using put_chunk_ok [OF ok e _ put] by simp
  have "out = (case store_chunk i b e of None \<Rightarrow> None
      | Some e' \<Rightarrow> if geReceived e' < geTotal e' then None else Some (join (geChunks e'))) \<and>
    map_of (reassembly g') k = (case store_chunk i b e of None \<Rightarrow> Some e
      | Some e' \<Rightarrow> if geReceived e' < geTotal e' then Some e' else None)"
    using put e by (auto simp: put_chunk_def Let_def update_conv' drop_entries split: option.splits if_splits)
  then show ?thesis using put ok' by blast
qed

lemma accept_known:
  assumes ok: "gecko_ok UNIV g" and visit: "\<And>m. set (visit m) = set m" and e: "map_of (reassembly g) (a, m) = Some e"
    and fresh: "now \<le> geDeadline e" and t: "geTotal e = t"
  shows "\<exists>g'. acceptChunk now now2 visit a m i t b g = (case store_chunk i b e of None \<Rightarrow> None
      | Some e' \<Rightarrow> if geReceived e' < geTotal e' then None else Some (join (geChunks e')), g') \<and> gecko_ok UNIV g' \<and>
    map_of (reassembly g') (a, m) = (case store_chunk i b e of None \<Rightarrow> Some e
      | Some e' \<Rightarrow> if geReceived e' < geTotal e' then Some e' else None)"
proof -
  let ?g = "swept visit now g"
  have g: "gecko_ok UNIV ?g" "map_of (reassembly ?g) (a, m) = Some e" using swept_ok [OF ok visit] e fresh by blast+
  have "acceptChunk now now2 visit a m i t b g = put_chunk (a, m) i b e ?g"
    using find_known [OF g(2) t] by (simp add: acceptChunk_def swept_def)
  then show ?thesis using put_entry [OF g, of i b] by simp
qed

lemma accept_open:
  assumes ok: "gecko_ok UNIV g" and visit: "\<And>m. set (visit m) = set m" and none: "map_of (reassembly g) (a, m) = None"
    and room: "held a (map fst (reassembly g)) < 8" and t: "2 \<le> t" "t \<le> 8"
    and st: "store_chunk i b (new_entry t now2) = Some e" and missing: "geReceived e < geTotal e"
  shows "\<exists>g'. acceptChunk now now2 visit a m i t b g = (None, g') \<and> gecko_ok UNIV g' \<and> map_of (reassembly g') (a, m) = Some e"
proof -
  let ?g = "swept visit now g"
  have g: "gecko_ok UNIV ?g" "smaller g ?g" using swept_ok [OF ok visit] by blast+
  have "dom (map_of (reassembly ?g)) \<subseteq> dom (map_of (reassembly g))" using g(2) unfolding smaller_def by (intro map_le_implies_dom_le) simp
  then have absent: "map_of (reassembly ?g) (a, m) = None" using none by (metis domIff subsetD)
  have "held a (map fst (reassembly ?g)) < 8" using g(2) room unfolding smaller_def by (meson le_less_trans)
  then have "fst (find_entry now2 visit (a, m) t ?g) = Some (new_entry t now2)" using find_open [OF g(1) absent] by simp
  then obtain g1 where f: "find_entry now2 visit (a, m) t ?g = (Some (new_entry t now2), g1)" by (metis prod.collapse)
  have g1: "gecko_ok UNIV g1" "map_of (reassembly g1) (a, m) = Some (new_entry t now2)" using find_entry_ok [OF g(1) visit t f] by auto
  have "acceptChunk now now2 visit a m i t b g = put_chunk (a, m) i b (new_entry t now2) g1" using f by (simp add: acceptChunk_def swept_def)
  then show ?thesis using put_entry [OF g1, of i b] st missing by simp
qed

interpretation server: chunk_store "gecko_ok UNIV" "\<lambda>(now, now2, visit). \<forall>m. set (visit m) = set m" fst "\<lambda>(now, now2, visit). now2"
    "\<lambda>g. map_of (reassembly g)" "\<lambda>g k. held (fst k) (map fst (reassembly g)) < 8"
    "\<lambda>(now, now2, visit) (a, m). acceptChunk now now2 visit a m"
proof unfold_locales
  fix g :: "'a gecko" and s :: "int \<times> int \<times> ('a gecko_map \<Rightarrow> 'a gecko_map)" and k :: "'a \<times> byte" and t i :: nat and b :: bytes and e e'
  obtain now now2 visit where s: "s = (now, now2, visit)" by (cases s) auto
  obtain a m where k: "k = (a, m)" by fastforce
  assume ok: "gecko_ok UNIV g" and "case s of (now, now2, visit) \<Rightarrow> \<forall>m. set (visit m) = set m"
  then have visit: "\<And>m. set (visit m) = set m" using s by simp
  show "\<exists>g'. (case s of (now, now2, visit) \<Rightarrow> \<lambda>(a, m). acceptChunk now now2 visit a m) k i t b g = (None, g') \<and> gecko_ok UNIV g' \<and> map_of (reassembly g') k = Some e"
    if "map_of (reassembly g) k = None" "held (fst k) (map fst (reassembly g)) < 8" "2 \<le> t" "t \<le> 8"
      "store_chunk i b (new_entry t (case s of (now, now2, visit) \<Rightarrow> now2)) = Some e" "geReceived e < geTotal e"
    using accept_open [OF ok visit, of a m t i b now2 e now] that s k by simp
  assume known: "map_of (reassembly g) k = Some e" "fst s \<le> geDeadline e" "geTotal e = t"
  note res = accept_known [OF ok visit, of a m e now t now2 i b]
  show "\<exists>g'. (case s of (now, now2, visit) \<Rightarrow> \<lambda>(a, m). acceptChunk now now2 visit a m) k i t b g = (None, g') \<and> gecko_ok UNIV g' \<and> map_of (reassembly g') k = Some e"
    if "store_chunk i b e = None"
    using res known that s k by simp
  show "\<exists>g'. (case s of (now, now2, visit) \<Rightarrow> \<lambda>(a, m). acceptChunk now now2 visit a m) k i t b g = (None, g') \<and> gecko_ok UNIV g' \<and> map_of (reassembly g') k = Some e'"
    if "store_chunk i b e = Some e'" "geReceived e' < geTotal e'"
    using res known that s k by simp
  show "\<exists>g'. (case s of (now, now2, visit) \<Rightarrow> \<lambda>(a, m). acceptChunk now now2 visit a m) k i t b g = (Some (join (geChunks e')), g') \<and> gecko_ok UNIV g' \<and> map_of (reassembly g') k = None"
    if "store_chunk i b e = Some e'" "\<not> geReceived e' < geTotal e'"
    using res known that s k by simp
qed

text \<open>The client's store.\<close>

lemma client_put_entry:
  assumes ok: "client_ok UNIV g" and e: "map_of (cReassembly g) k = Some e"
  shows "\<exists>g'. client_put_chunk k i b e g = (case store_chunk i b e of None \<Rightarrow> None
      | Some e' \<Rightarrow> if geReceived e' < geTotal e' then None else Some (join (geChunks e')), g') \<and> client_ok UNIV g' \<and>
    map_of (cReassembly g') k = (case store_chunk i b e of None \<Rightarrow> Some e
      | Some e' \<Rightarrow> if geReceived e' < geTotal e' then Some e' else None)"
proof -
  obtain out g' where put: "client_put_chunk k i b e g = (out, g')" by fastforce
  have ok': "client_ok UNIV g'" using client_put_ok [OF ok e _ put] by simp
  have "out = (case store_chunk i b e of None \<Rightarrow> None
      | Some e' \<Rightarrow> if geReceived e' < geTotal e' then None else Some (join (geChunks e'))) \<and>
    map_of (cReassembly g') k = (case store_chunk i b e of None \<Rightarrow> Some e
      | Some e' \<Rightarrow> if geReceived e' < geTotal e' then Some e' else None)"
    using put e by (auto simp: client_put_chunk_def Let_def update_conv' delete_conv' split: option.splits if_splits)
  then show ?thesis using put ok' by blast
qed

lemma client_known:
  assumes ok: "client_ok UNIV g" and e: "map_of (cReassembly g) m = Some e" and fresh: "now \<le> geDeadline e" and t: "geTotal e = t"
  shows "\<exists>g'. client_acceptChunk now now2 m i t b g = (case store_chunk i b e of None \<Rightarrow> None
      | Some e' \<Rightarrow> if geReceived e' < geTotal e' then None else Some (join (geChunks e')), g') \<and> client_ok UNIV g' \<and>
    map_of (cReassembly g') m = (case store_chunk i b e of None \<Rightarrow> Some e
      | Some e' \<Rightarrow> if geReceived e' < geTotal e' then Some e' else None)"
proof -
  let ?g = "client_swept now g"
  have g: "client_ok UNIV ?g" "map_of (cReassembly ?g) m = Some e" using client_swept_ok [OF ok] e fresh by blast+
  have "client_acceptChunk now now2 m i t b g = client_put_chunk m i b e ?g"
    using g(2) t by (simp add: client_acceptChunk_def client_swept_def client_find_entry_def)
  then show ?thesis using client_put_entry [OF g, of i b] by simp
qed

lemma client_open:
  assumes ok: "client_ok UNIV g" and none: "map_of (cReassembly g) m = None" and room: "length (cReassembly g) < 8"
    and t: "2 \<le> t" "t \<le> 8" and st: "store_chunk i b (new_entry t now2) = Some e" and missing: "geReceived e < geTotal e"
  shows "\<exists>g'. client_acceptChunk now now2 m i t b g = (None, g') \<and> client_ok UNIV g' \<and> map_of (cReassembly g') m = Some e"
proof -
  let ?g = "client_swept now g" and ?e = "new_entry t now2"
  have g: "client_ok UNIV ?g" "map_of (cReassembly ?g) m = None" "length (cReassembly ?g) < 8"
    using client_swept_ok [OF ok, of now m] none room by auto
  let ?g1 = "?g\<lparr>cReassembly := AList.update m ?e (cReassembly ?g)\<rparr>"
  have f: "client_find_entry now2 m t ?g = (Some ?e, ?g1)" using g(2,3) by (simp add: client_find_entry_def geckoMaxPerSource_def Let_def)
  have g1: "client_ok UNIV ?g1" "map_of (cReassembly ?g1) m = Some ?e" using client_find_ok [OF g(1) t f] by auto
  have "client_acceptChunk now now2 m i t b g = client_put_chunk m i b ?e ?g1" using f by (simp add: client_acceptChunk_def client_swept_def)
  then show ?thesis using client_put_entry [OF g1, of i b] st missing by simp
qed

interpretation client: chunk_store "client_ok UNIV" "\<lambda>s :: int \<times> int. True" fst snd
    "\<lambda>g. map_of (cReassembly g)" "\<lambda>g k. length (cReassembly g) < 8" "\<lambda>(now, now2). client_acceptChunk now now2"
proof unfold_locales
  fix g and s :: "int \<times> int" and k :: byte and t i :: nat and b :: bytes and e e'
  assume ok: "client_ok UNIV g"
  show "\<exists>g'. (case s of (now, now2) \<Rightarrow> client_acceptChunk now now2) k i t b g = (None, g') \<and> client_ok UNIV g' \<and> map_of (cReassembly g') k = Some e"
    if "map_of (cReassembly g) k = None" "length (cReassembly g) < 8" "2 \<le> t" "t \<le> 8"
      "store_chunk i b (new_entry t (snd s)) = Some e" "geReceived e < geTotal e"
    using client_open [OF ok, of k t i b "snd s" e "fst s"] that by (cases s) simp
  assume known: "map_of (cReassembly g) k = Some e" "fst s \<le> geDeadline e" "geTotal e = t"
  note res = client_known [OF ok, of k e "fst s" t "snd s" i b]
  show "\<exists>g'. (case s of (now, now2) \<Rightarrow> client_acceptChunk now now2) k i t b g = (None, g') \<and> client_ok UNIV g' \<and> map_of (cReassembly g') k = Some e"
    if "store_chunk i b e = None"
    using res known that by (cases s) simp
  show "\<exists>g'. (case s of (now, now2) \<Rightarrow> client_acceptChunk now now2) k i t b g = (None, g') \<and> client_ok UNIV g' \<and> map_of (cReassembly g') k = Some e'"
    if "store_chunk i b e = Some e'" "geReceived e' < geTotal e'"
    using res known that by (cases s) simp
  show "\<exists>g'. (case s of (now, now2) \<Rightarrow> client_acceptChunk now now2) k i t b g = (Some (join (geChunks e')), g') \<and> client_ok UNIV g' \<and> map_of (cReassembly g') k = None"
    if "store_chunk i b e = Some e'" "\<not> geReceived e' < geTotal e'"
    using res known that by (cases s) simp
qed

end
