(* ===== verification/GeckoFrames.thy ===== *)
theory GeckoFrames
  imports GeckoDeliver
begin

text \<open>What the gecko writer puts on the wire, and what a reader takes it for.\<close>

section \<open>Frames\<close>

lemma head_nibbles:
  assumes "i < 8" and "c < 9"
  shows "drop_bit 4 (push_bit 4 (word_of_nat i) OR word_of_nat c AND (0x0f :: byte)) = word_of_nat i \<and>
    (push_bit 4 (word_of_nat i) OR word_of_nat c AND (0x0f :: byte)) AND 0x0f = word_of_nat c"
proof -
  have "i \<in> set [0..<8]" "c \<in> set [0..<9]" using assms by simp_all
  moreover have "\<forall>i \<in> set [0..<8]. \<forall>c \<in> set [0..<9]. drop_bit 4 (push_bit 4 (word_of_nat i) OR word_of_nat c AND (0x0f :: byte)) = word_of_nat i \<and>
    (push_bit 4 (word_of_nat i) OR word_of_nat c AND (0x0f :: byte)) AND 0x0f = word_of_nat c"
    by code_simp
  ultimately show ?thesis by blast
qed

lemma classify_frame:
  assumes "i < c" and "2 \<le> c" and "c \<le> 8" and "length padding = unat padLen"
  shows "classify (length (gecko_frame msgID i c padLen padding chunk)) (gecko_frame msgID i c padLen padding chunk @ rest)
    = Chunk msgID i c chunk"
proof -
  let ?h = "push_bit 4 (word_of_nat i) OR word_of_nat c AND (0x0f :: byte)"
  have h: "unat (drop_bit 4 ?h) = i" "unat (?h AND 0x0f) = c"
    using head_nibbles [of i c] assms(1-3) by (simp_all add: unat_of_nat_small)
  have len: "slice 3 5 (geckoFragmentFlag # msgID # ?h # put_u16 padLen @ padding @ chunk @ rest) = put_u16 padLen"
    by (simp add: slice_def numeral_3_eq_3 numeral_eq_Suc)
  let ?head = "geckoFragmentFlag # msgID # ?h # put_u16 padLen @ padding"
  have frame: "gecko_frame msgID i c padLen padding chunk @ rest = (?head @ chunk) @ rest"
      "length (gecko_frame msgID i c padLen padding chunk) = length (?head @ chunk)" by (simp_all add: gecko_frame_def)
  have "slice (5 + unat padLen) (length (?head @ chunk)) ((?head @ chunk) @ rest) = chunk"
    using assms(4) by (simp add: slice_def del: append.simps append_Cons)
  then show ?thesis
    unfolding frame using h assms len by (simp add: classify_def cfg_defs Let_def)
qed

section \<open>Chunks\<close>

lemma concat_full_slices:
  assumes "m * s \<le> length p" shows "concat (map (\<lambda>i. slice (i * s) (i * s + s) p) [0..<m]) = take (m * s) p"
proof -
  have "min ((i + 1) * s) (length p) = i * s + s" if "i < m" for i
    using mult_le_mono1 [of "Suc i" m s] that assms by simp
  then have "map (\<lambda>i. slice (i * s) (i * s + s) p) [0..<m] = map (\<lambda>i. slice (i * s) (min ((i + 1) * s) (length p)) p) [0..<m]"
    by simp
  then show ?thesis unfolding concat_slices [symmetric] by (rule arg_cong)
qed

lemma chunks_join:
  assumes "0 < c"
  shows "concat (map (\<lambda>i. gecko_chunk c i p) [0..<c]) = p"
proof -
  let ?s = "length p div c"
  obtain m where m: "c = Suc m" using assms by (metis gr0_conv_Suc)
  have "m * ?s \<le> c * ?s" unfolding m by simp
  also have "\<dots> \<le> length p" by simp
  finally have le: "m * ?s \<le> length p" .
  have eq: "map (\<lambda>i. gecko_chunk c i p) [0..<m] = map (\<lambda>i. slice (i * ?s) (i * ?s + ?s) p) [0..<m]"
    using m by (simp add: gecko_chunk_def Let_def)
  have last: "gecko_chunk c m p = drop (m * ?s) p" using m le by (simp add: gecko_chunk_def Let_def slice_def)
  have "concat (map (\<lambda>i. gecko_chunk c i p) [0..<c]) = concat (map (\<lambda>i. gecko_chunk c i p) [0..<m]) @ gecko_chunk c m p" using m by simp
  also have "\<dots> = p" unfolding eq concat_full_slices [OF le] last by simp
  finally show ?thesis .
qed

section \<open>The writer\<close>

text \<open>The salts are eight bytes and the padding is filled whole, as \<^verbatim>\<open>rand.Read\<close> promises.\<close>

definition fair :: "'e draws \<Rightarrow> bool" where
  "fair dr \<longleftrightarrow> drawChunks dr < 7 \<and> (\<forall>i n. \<exists>bs. drawFill dr i n = Inr bs \<and> length bs = n) \<and> (\<forall>i. length (drawSalt dr i) = 8)"

text \<open>A datagram of the writer that carries chunk \<open>i\<close> of a packet.\<close>

definition carries :: "(bytes \<Rightarrow> bytes) \<Rightarrow> bytes \<Rightarrow> byte \<Rightarrow> nat \<Rightarrow> nat \<Rightarrow> bytes \<Rightarrow> bytes \<Rightarrow> bool" where
  "carries sum256 password msgID c i chunk d \<longleftrightarrow> (\<exists>salt padLen padding. length salt = 8 \<and> length padding = unat padLen \<and>
     d = sealed sum256 password salt (gecko_frame msgID i c padLen padding chunk))"

lemma salamander_writes: "salamander_WriteTo sum256 password salt log_send p q = ((length p, None), q @ [sealed sum256 password salt p])"
    "salamander_Write sum256 password salt log_send p q = ((length p, None), q @ [sealed sum256 password salt p])"
  by (simp_all add: salamander_WriteTo_def salamander_Write_def log_send_def sealed_def Let_def)

lemma write_chunks_log:
  assumes "fair dr" and "\<And>salt p q. inner salt p q = ((length p, None :: io_error option), q @ [sealed sum256 password salt p])"
  shows "\<exists>ds. write_chunks g dr inner msgID c p i n q = ((length p, None), q @ ds) \<and> length ds = n \<and>
    (\<forall>j < n. carries sum256 password msgID c (i + j) (gecko_chunk c (i + j) p) (ds ! j))"
proof (induction n arbitrary: i q)
  case (Suc n)
  let ?chunk = "gecko_chunk c i p"
  let ?pad = "randomPadLen (drawPad dr i) g (length ?chunk)"
  obtain padding where padding: "(if ?pad > 0 then drawFill dr i (unat ?pad) else Inr []) = Inr padding" "length padding = unat ?pad"
  proof (cases "?pad > 0")
    case True
    then show thesis using assms(1) that unfolding fair_def by (metis (full_types))
  next
    case False
    then have "?pad = 0" by (simp add: word_gt_0)
    then show thesis using that by simp
  qed
  let ?d = "sealed sum256 password (drawSalt dr i) (gecko_frame msgID i c ?pad padding ?chunk)"
  obtain ds where ds: "write_chunks g dr inner msgID c p (i + 1) n (q @ [?d]) = ((length p, None), (q @ [?d]) @ ds)" "length ds = n"
      "\<forall>j < n. carries sum256 password msgID c (i + 1 + j) (gecko_chunk c (i + 1 + j) p) (ds ! j)"
    using Suc.IH [of "i + 1" "q @ [?d]"] by blast
  have first: "carries sum256 password msgID c i ?chunk ?d"
    using assms(1) padding(2) unfolding carries_def fair_def by blast
  have "carries sum256 password msgID c (i + j) (gecko_chunk c (i + j) p) ((?d # ds) ! j)" if "j < Suc n" for j
    using that first ds(3) by (cases j) auto
  moreover have "write_chunks g dr inner msgID c p i (Suc n) q = ((length p, None), q @ ?d # ds)"
    using padding(1) ds(1) assms(2) by (simp add: Let_def)
  ultimately show ?case using ds(2) by (intro exI [of _ "?d # ds"]) simp
qed simp

section \<open>The reader\<close>

text \<open>What Salamander makes of any datagram.\<close>

definition opened :: "(bytes \<Rightarrow> bytes) \<Rightarrow> bytes \<Rightarrow> bytes \<Rightarrow> bytes" where
  "opened sum256 password d = (if length d \<le> 8 then d else xor_bytes (sum256 (password @ take 8 d)) 0 (drop 8 d))"

lemma salamander_reads:
  assumes "length d \<le> length buf"
  shows "\<exists>r. salamander_ReadFrom sum256 password (Inr (d, a)) buf = (Inr (length (opened sum256 password d), a), opened sum256 password d @ r) \<and>
    salamander_Read sum256 password (Inr d) buf = (Inr (length (opened sum256 password d)), opened sum256 password d @ r) \<and>
    length (opened sum256 password d @ r) = length buf"
proof (cases "length d \<le> 8")
  case True
  then show ?thesis using receive_fits [OF assms] assms
    by (simp add: salamander_ReadFrom_def salamander_Read_def salamanderSaltLen_def opened_def)
next
  case False
  let ?p = "d @ drop (length d) buf" and ?key = "sum256 (password @ take 8 d)"
  have "xor_down 8 ?key 0 (length d - 8) ?p = xor_bytes ?key 0 (drop 8 d) @ drop (length d - 8) ?p"
    using xor_down_ok [of 8 0 "length d - 8" ?p ?key] False by simp
  then show ?thesis using receive_fits [OF assms] assms False
    by (simp add: salamander_ReadFrom_def salamander_Read_def salamanderSaltLen_def opened_def)
qed

lemma opened_sealed: "length salt = 8 \<Longrightarrow> p \<noteq> [] \<Longrightarrow> opened sum256 password (sealed sum256 password salt p) = p"
  by (simp add: opened_def sealed_def xor_bytes_twice)

lemma classify_carried:
  assumes "carries sum256 password msgID c i chunk d" and "i < c" and "2 \<le> c" and "c \<le> 8"
  shows "classify (length (opened sum256 password d)) (opened sum256 password d @ r) = Chunk msgID i c chunk"
proof -
  obtain salt padLen padding where d: "length salt = 8" "length padding = unat padLen"
      "d = sealed sum256 password salt (gecko_frame msgID i c padLen padding chunk)"
    using assms(1) unfolding carries_def by blast
  have "gecko_frame msgID i c padLen padding chunk \<noteq> []" by (simp add: gecko_frame_def)
  then have "opened sum256 password d = gecko_frame msgID i c padLen padding chunk" using opened_sealed d(1,3) by simp
  then show ?thesis using classify_frame [OF assms(2-4) d(2)] by simp
qed

text \<open>Only the first \<open>n\<close> bytes of the buffer matter.\<close>

lemma classify_prefix: "classify (length d) (d @ r) = classify (length d) d"
proof -
  have "slice 3 5 (d @ r) = slice 3 5 d" if "5 \<le> length d" using that by (simp add: slice_def)
  then show ?thesis by (auto simp: classify_def cfg_defs nth_append Let_def slice_def)
qed

lemma classify_bounds: "classify n p = Chunk m i t b \<Longrightarrow> 2 \<le> t \<and> t \<le> 8 \<and> i < t"
  by (auto simp: classify_def cfg_defs Let_def split: if_splits)

end
