(* ===== verification/GeckoClaims.thy ===== *)
theory GeckoClaims
  imports GeckoFrames
begin

text \<open>
  The gecko connections from end to end: what a writer sends a reader joins, over Salamander and in any
  order; what a reader hands up and how much it keeps whatever arrives; and what the eight-bit
  packet number lets happen.
\<close>

section \<open>From the writer to the reader\<close>

definition arrive :: "bytes list \<Rightarrow> 'a \<Rightarrow> (int \<times> int \<times> 'v) \<times> nat \<Rightarrow> (io_error + bytes \<times> 'a, 'v) arrival" where
  "arrive ds a x = (case x of ((now, now2, visit), i) \<Rightarrow> \<lparr>arGot = Inr (ds ! i, a), arNow = now, arNow2 = now2, arVisit = visit\<rparr>)"

definition arrive_client :: "bytes list \<Rightarrow> (int \<times> int) \<times> nat \<Rightarrow> (io_error + bytes, unit) arrival" where
  "arrive_client ds x = (case x of ((now, now2), i) \<Rightarrow> \<lparr>arGot = Inr (ds ! i), arNow = now, arNow2 = now2, arVisit = ()\<rparr>)"

lemma written:
  assumes "fair dr" and "p \<noteq> []" and "p ! 0 AND geckoFragmentFlag \<noteq> 0"
  shows "\<exists>ds w'. gecko_WriteTo sum256 password log_send dr p w [] = (((length p, None), ds), w') \<and>
    gecko_Write sum256 password log_send dr p w [] = (((length p, None), ds), w') \<and> msgIDCounter w' = msgIDCounter w + 1 \<and>
    length ds = 2 + drawChunks dr \<and> (\<forall>j < 2 + drawChunks dr.
      carries sum256 password (ucast (msgIDCounter w + 1)) (2 + drawChunks dr) j (gecko_chunk (2 + drawChunks dr) j p) (ds ! j))"
proof -
  let ?w = "w\<lparr>msgIDCounter := msgIDCounter w + 1\<rparr>" and ?c = "2 + drawChunks dr"
  let ?inner = "\<lambda>salt. salamander_WriteTo sum256 password salt log_send"
  have same: "salamander_Write sum256 password salt log_send = salamander_WriteTo sum256 password salt log_send" for salt
    by (intro ext) (simp add: salamander_writes)
  have "?inner salt p q = ((length p, None), q @ [sealed sum256 password salt p])" for salt p q by (rule salamander_writes)
  from write_chunks_log [OF assms(1) this, of ?w "ucast (msgIDCounter ?w)" ?c p 0 ?c "[]"] obtain ds where
    "write_chunks ?w dr ?inner (ucast (msgIDCounter ?w)) ?c p 0 ?c [] = ((length p, None), ds)" "length ds = ?c"
    "\<forall>j < ?c. carries sum256 password (ucast (msgIDCounter ?w)) ?c j (gecko_chunk ?c j p) (ds ! j)" by auto
  then show ?thesis
    using assms(2,3) by (intro exI [of _ ds] exI [of _ ?w])
      (simp add: gecko_WriteTo_def gecko_Write_def same write_gecko_def writeFragmented_def geckoMinChunks_def Let_def)
qed

lemma server_reads:
  assumes g: "gecko_ok UNIV g" "map_of (reassembly g) (a, msg) = None" "held a (map fst (reassembly g)) < 8"
    and pls: "2 \<le> length pls" "length pls \<le> 8"
    and frames: "\<forall>j < length pls. carries sum256 password msg (length pls) j (pls ! j) (ds ! j)"
    and xs: "\<forall>((now, now2, visit), i) \<in> set (((n1, n2, v), i) # xs). (\<forall>m. set (visit m) = set m) \<and> now \<le> n2 + geckoReassemblyTTL \<and> i < length pls"
    and all: "insert i (snd ` set xs) = {0..<length pls}"
    and fits: "\<forall>j < length pls. length (ds ! j) \<le> length buf"
  shows "\<exists>buf' rest g'. gecko_ReadFrom sum256 password (map (arrive ds a) (((n1, n2, v), i) # xs)) buf g =
      (Some (Inr (min (length (concat pls)) (length buf), a)), copy_at 0 (take (length buf) (concat pls)) buf', map (arrive ds a) rest, g') \<and>
    length buf' = length buf \<and> gecko_ok UNIV g' \<and> map_of (reassembly g') (a, msg) = None \<and>
    (insert i (snd ` set (butlast xs)) \<noteq> {0..<length pls} \<longrightarrow> rest = [])"
proof -
  let ?xs = "((n1, n2, v), i) # xs"
  obtain rest g' where d: "server.deliver (a, msg) pls ?xs g = Some (concat pls, rest, g')" "gecko_ok UNIV g'"
      "map_of (reassembly g') (a, msg) = None" "insert i (snd ` set (butlast xs)) \<noteq> {0..<length pls} \<longrightarrow> rest = []"
    using server.deliver_all [OF g(1), of "(a, msg)" pls "(n1, n2, v)" xs i] g(2,3) pls xs all by fastforce
  have inner: "\<exists>n buf'. salamander_ReadFrom sum256 password (arGot (arrive ds a x)) buf = (Inr (n, a), buf') \<and> length buf' = length b \<and>
      classify n buf' = Chunk msg (snd x) (length pls) (pls ! snd x)"
    if h: "x \<in> set ?xs" "length buf = length b" "\<forall>j < length pls. length (ds ! j) \<le> length b" for x and buf b :: bytes
  proof -
    obtain now now2 visit j where x: "x = ((now, now2, visit), j)" by (metis prod.collapse)
    have j: "j < length pls" using xs h(1) x by auto
    obtain r where r: "salamander_ReadFrom sum256 password (Inr (ds ! j, a) :: io_error + bytes \<times> 'a) buf =
        (Inr (length (opened sum256 password (ds ! j)), a), opened sum256 password (ds ! j) @ r)" "length (opened sum256 password (ds ! j) @ r) = length buf"
      using salamander_reads [of "ds ! j" buf sum256 password a] h(2,3) j by auto
    show ?thesis using r classify_carried [of sum256 password msg "length pls" j "pls ! j" "ds ! j" r] frames j pls h(2) x
      by (simp add: arrive_def)
  qed
  have acc: "acceptChunk (arNow (arrive ds a x)) (arNow2 (arrive ds a x)) (arVisit (arrive ds a x)) a msg i t b g =
      (case fst x of (now, now2, visit) \<Rightarrow> \<lambda>(a, m). acceptChunk now now2 visit a m) (a, msg) i t b g" for x i t b g
    by (auto simp: arrive_def split: prod.splits)
  show ?thesis
    using server.read_deliver [OF d(1) refl, where inner = "salamander_ReadFrom sum256 password" and arr = "arrive ds a" and addr = a and msg = msg and buf = buf
        and acc = "\<lambda>x. acceptChunk (arNow x) (arNow2 x) (arVisit x)", OF inner [where b = buf] acc] fits d(2-4)
    unfolding gecko_ReadFrom_def by blast
qed

text \<open>C30. A packet with a long header, cut into however many frames with whatever padding, is handed up
  whole and from its source when the last of its datagrams arrives, in whatever order and with whatever
  repetitions they come, if they come within 8 seconds of the first, the source has fewer than 8
  packets under way and none of the same number.\<close>

theorem gecko_joins_in_any_order:
  assumes "fair dr" and "p \<noteq> []" and "p ! 0 AND geckoFragmentFlag \<noteq> 0" and "msg = ucast (msgIDCounter w + 1)" and "c = 2 + drawChunks dr"
    and "gecko_ok UNIV g" and "map_of (reassembly g) (a, msg) = None" and "held a (map fst (reassembly g)) < 8"
    and "\<forall>((now, now2, visit), i) \<in> set (((n1, n2, v), i) # xs). (\<forall>m. set (visit m) = set m) \<and> now \<le> n2 + geckoReassemblyTTL \<and> i < c"
    and "insert i (snd ` set xs) = {0..<c}" and "insert i (snd ` set (butlast xs)) \<noteq> {0..<c}"
  shows "\<exists>ds w'. gecko_WriteTo sum256 password log_send dr p w [] = (((length p, None), ds), w') \<and> length ds = c \<and>
    (\<forall>buf. (\<forall>d \<in> set ds. length d \<le> length buf) \<and> length p \<le> length buf \<longrightarrow>
      (\<exists>buf' g'. gecko_ReadFrom sum256 password (map (arrive ds a) (((n1, n2, v), i) # xs)) buf g = (Some (Inr (length p, a)), p @ buf', [], g') \<and>
        gecko_ok UNIV g' \<and> map_of (reassembly g') (a, msg) = None))"
proof -
  obtain ds w' where ds: "gecko_WriteTo sum256 password log_send dr p w [] = (((length p, None), ds), w')" "length ds = c"
      "\<forall>j < c. carries sum256 password msg c j (gecko_chunk c j p) (ds ! j)"
    using written [OF assms(1-3), of sum256 password w] assms(4,5) by auto
  let ?pls = "map (\<lambda>j. gecko_chunk c j p) [0..<c]"
  have c: "2 \<le> c" "c \<le> 8" using assms(1,5) by (auto simp: fair_def)
  then have join: "concat ?pls = p" by (intro chunks_join) simp
  have "\<exists>buf' g'. gecko_ReadFrom sum256 password (map (arrive ds a) (((n1, n2, v), i) # xs)) buf g = (Some (Inr (length p, a)), p @ buf', [], g') \<and>
        gecko_ok UNIV g' \<and> map_of (reassembly g') (a, msg) = None"
    if fits: "\<forall>d \<in> set ds. length d \<le> length buf" "length p \<le> length buf" for buf
  proof -
    have len: "length ?pls = c" by simp
    have frames: "\<forall>j < length ?pls. carries sum256 password msg (length ?pls) j (?pls ! j) (ds ! j)" using ds(3) by simp
    have "\<forall>j < length ?pls. length (ds ! j) \<le> length buf" using fits(1) ds(2) by simp
    from server_reads [OF assms(6-8) _ _ frames _ _ this, unfolded len join, OF c assms(9,10)] assms(11)
    obtain buf' g' where r: "gecko_ReadFrom sum256 password (map (arrive ds a) (((n1, n2, v), i) # xs)) buf g =
        (Some (Inr (min (length p) (length buf), a)), copy_at 0 (take (length buf) p) buf', [], g')" "length buf' = length buf"
        "gecko_ok UNIV g'" "map_of (reassembly g') (a, msg) = None"
      by (metis (no_types, lifting) list.simps(8))
    have "copy_at 0 (take (length buf) p) buf' = p @ drop (length p) buf'" using fits(2) r(2) by (simp add: copy_at_def)
    then show ?thesis using r(1,3,4) fits(2) by (simp add: min_absorb1)
  qed
  then show ?thesis using ds(1,2) by blast
qed

lemma new_gecko_ok: "gecko_ok H (NewGeckoConn now)"
  by (simp add: gecko_ok_def NewGeckoConn_def counts_def held_def)

lemma new_client_ok: "client_ok H (NewGeckoClientConn now)"
  by (simp add: client_ok_def NewGeckoClientConn_def)

text \<open>Draws of zeros.\<close>

definition zeros :: "io_error draws" where
  "zeros = \<lparr>drawChunks = 0, drawPad = \<lambda>_ _. 0, drawFill = \<lambda>_ n. Inr (replicate n 0), drawSalt = \<lambda>_. replicate 8 0\<rparr>"

lemma zeros_fair: "fair zeros"
  by (simp add: fair_def zeros_def)

theorem gecko_joins_in_any_order_witness:
  "\<exists>ds buf buf' g'. length ds = 2 \<and>
    gecko_ReadFrom (\<lambda>x. replicate 32 (hd x)) [7] (map (arrive ds ''peer'') [((5, 6, id), 1), ((9, 9, id), 1), ((11, 12, id), 0)]) buf (NewGeckoConn 0)
      = (Some (Inr (3, ''peer'')), [0xC0, 1, 2] @ buf', [], g')"
proof -
  let ?w = "\<lparr>minPacketSize = 512, maxPacketSize = 1200, msgIDCounter = 4\<rparr>"
  have p: "[0xC0, 1, 2 :: byte] \<noteq> []" "[0xC0, 1, 2] ! 0 AND geckoFragmentFlag \<noteq> 0" "(5 :: byte) = ucast (msgIDCounter ?w + 1)" "2 = 2 + drawChunks zeros"
    by (simp_all add: geckoFragmentFlag_def zeros_def)
  have g: "map_of (reassembly (NewGeckoConn 0)) (''peer'', 5 :: byte) = None" "held ''peer'' (map fst (reassembly (NewGeckoConn 0))) < 8"
    by (simp_all add: NewGeckoConn_def held_def)
  have two: "{0..<2 :: nat} = {0, 1}" by auto
  have xs: "\<forall>((now, now2, visit), i) \<in> set [((5, 6, id), 1), ((9, 9, id), 1), ((11, 12, id), 0)].
      (\<forall>m. set (visit m) = set m) \<and> now \<le> (6 :: int) + geckoReassemblyTTL \<and> i < (2 :: nat)"
      "insert 1 (snd ` set [((9 :: int, 9 :: int, id), 1), ((11, 12, id), 0)]) = {0..<2 :: nat}"
      "insert 1 (snd ` set (butlast [((9 :: int, 9 :: int, id), 1), ((11, 12, id), 0)])) \<noteq> {0..<2 :: nat}"
    unfolding two by (simp_all add: geckoReassemblyTTL_def insert_commute)
  from gecko_joins_in_any_order [OF zeros_fair p new_gecko_ok g xs, of "\<lambda>x. replicate 32 (hd x)" "[7]"] obtain ds where ds: "length ds = 2" "\<And>buf. (\<forall>d \<in> set ds. length d \<le> length buf) \<Longrightarrow> length [0xC0, 1, 2 :: byte] \<le> length buf \<Longrightarrow>
    \<exists>buf' g'. gecko_ReadFrom (\<lambda>x. replicate 32 (hd x)) [7] (map (arrive ds ''peer'') [((5, 6, id), 1), ((9, 9, id), 1), ((11, 12, id), 0)]) buf (NewGeckoConn 0)
      = (Some (Inr (length [0xC0, 1, 2 :: byte], ''peer'')), [0xC0, 1, 2] @ buf', [], g')" by blast
  let ?buf = "replicate (sum_list (map length ds) + 3) (0 :: byte)"
  have "\<forall>d \<in> set ds. length d \<le> length ?buf" using member_le_sum_list [of _ "map length ds"] by fastforce
  have l: "length [0xC0, 1, 2 :: byte] = 3" by simp
  have "3 \<le> length ?buf" by simp
  then show ?thesis using ds(1) ds(2) [of ?buf, unfolded l] \<open>\<forall>d \<in> set ds. length d \<le> length ?buf\<close> by blast
qed

section \<open>The same for the client\<close>

lemma client_reads:
  assumes g: "client_ok UNIV g" "map_of (cReassembly g) msg = None" "length (cReassembly g) < 8"
    and pls: "2 \<le> length pls" "length pls \<le> 8"
    and frames: "\<forall>j < length pls. carries sum256 password msg (length pls) j (pls ! j) (ds ! j)"
    and xs: "\<forall>((now, now2), i) \<in> set (((n1, n2), i) # xs). now \<le> n2 + geckoReassemblyTTL \<and> i < length pls"
    and all: "insert i (snd ` set xs) = {0..<length pls}"
    and fits: "\<forall>j < length pls. length (ds ! j) \<le> length buf"
  shows "\<exists>buf' rest g'. gecko_Read sum256 password (map (arrive_client ds) (((n1, n2), i) # xs)) buf g =
      (Some (Inr (min (length (concat pls)) (length buf), ())), copy_at 0 (take (length buf) (concat pls)) buf', map (arrive_client ds) rest, g') \<and>
    length buf' = length buf \<and> client_ok UNIV g' \<and> map_of (cReassembly g') msg = None \<and>
    (insert i (snd ` set (butlast xs)) \<noteq> {0..<length pls} \<longrightarrow> rest = [])"
proof -
  let ?xs = "((n1, n2), i) # xs"
  let ?inner = "\<lambda>got p. case salamander_Read sum256 password got p of (Inl err, p) \<Rightarrow> (Inl err, p) | (Inr n, p) \<Rightarrow> (Inr (n, ()), p)"
  obtain rest g' where d: "client.deliver msg pls ?xs g = Some (concat pls, rest, g')" "client_ok UNIV g'"
      "map_of (cReassembly g') msg = None" "insert i (snd ` set (butlast xs)) \<noteq> {0..<length pls} \<longrightarrow> rest = []"
    using client.deliver_all [OF g(1), where k = msg and pls = pls and s = "(n1, n2)" and xs = xs and i = i] g(2,3) pls xs all by fastforce
  have inner: "\<exists>n buf'. ?inner (arGot (arrive_client ds x)) buf = (Inr (n, ()), buf') \<and> length buf' = length b \<and>
      classify n buf' = Chunk msg (snd x) (length pls) (pls ! snd x)"
    if h: "x \<in> set ?xs" "length buf = length b" "\<forall>j < length pls. length (ds ! j) \<le> length b" for x and buf b :: bytes
  proof -
    obtain now now2 j where x: "x = ((now, now2), j)" by (metis prod.collapse)
    have j: "j < length pls" using xs h(1) x by auto
    obtain r where r: "salamander_Read sum256 password (Inr (ds ! j) :: io_error + bytes) buf =
        (Inr (length (opened sum256 password (ds ! j))), opened sum256 password (ds ! j) @ r)" "length (opened sum256 password (ds ! j) @ r) = length buf"
      using salamander_reads [of "ds ! j" buf sum256 password "()"] h(2,3) j by auto
    show ?thesis using r classify_carried [of sum256 password msg "length pls" j "pls ! j" "ds ! j" r] frames j pls h(2) x
      by (simp add: arrive_client_def)
  qed
  have acc: "client_acceptChunk (arNow (arrive_client ds x)) (arNow2 (arrive_client ds x)) msg i t b g =
      (case fst x of (now, now2) \<Rightarrow> client_acceptChunk now now2) msg i t b g" for x i t b g
    by (auto simp: arrive_client_def split: prod.splits)
  show ?thesis
    using client.read_deliver [OF d(1) refl, where inner = ?inner and arr = "arrive_client ds" and addr = "()" and msg = msg and buf = buf
        and acc = "\<lambda>x _. client_acceptChunk (arNow x) (arNow2 x)", OF inner [of _ _ buf] acc] fits d(2-4)
    unfolding gecko_Read_def by blast
qed

text \<open>What a client's writer sends, a client's reader joins, under the same conditions, with the bound of
  8 packets under way on the whole connection.\<close>

theorem gecko_client_joins_in_any_order:
  assumes "fair dr" and "p \<noteq> []" and "p ! 0 AND geckoFragmentFlag \<noteq> 0" and "msg = ucast (msgIDCounter w + 1)" and "c = 2 + drawChunks dr"
    and "client_ok UNIV g" and "map_of (cReassembly g) msg = None" and "length (cReassembly g) < 8"
    and "\<forall>((now, now2), i) \<in> set (((n1, n2), i) # xs). now \<le> n2 + geckoReassemblyTTL \<and> i < c"
    and "insert i (snd ` set xs) = {0..<c}" and "insert i (snd ` set (butlast xs)) \<noteq> {0..<c}"
  shows "\<exists>ds w'. gecko_Write sum256 password log_send dr p w [] = (((length p, None), ds), w') \<and> length ds = c \<and>
    (\<forall>buf. (\<forall>d \<in> set ds. length d \<le> length buf) \<and> length p \<le> length buf \<longrightarrow>
      (\<exists>buf' g'. gecko_Read sum256 password (map (arrive_client ds) (((n1, n2), i) # xs)) buf g = (Some (Inr (length p, ())), p @ buf', [], g')))"
proof -
  obtain ds w' where ds: "gecko_Write sum256 password log_send dr p w [] = (((length p, None), ds), w')" "length ds = c"
      "\<forall>j < c. carries sum256 password msg c j (gecko_chunk c j p) (ds ! j)"
    using written [OF assms(1-3), of sum256 password w] assms(4,5) by auto
  let ?pls = "map (\<lambda>j. gecko_chunk c j p) [0..<c]"
  have c: "2 \<le> c" "c \<le> 8" using assms(1,5) by (auto simp: fair_def)
  then have join: "concat ?pls = p" by (intro chunks_join) simp
  have "\<exists>buf' g'. gecko_Read sum256 password (map (arrive_client ds) (((n1, n2), i) # xs)) buf g = (Some (Inr (length p, ())), p @ buf', [], g')"
    if fits: "\<forall>d \<in> set ds. length d \<le> length buf" "length p \<le> length buf" for buf
  proof -
    have len: "length ?pls = c" by simp
    have frames: "\<forall>j < length ?pls. carries sum256 password msg (length ?pls) j (?pls ! j) (ds ! j)" using ds(3) by simp
    have "\<forall>j < length ?pls. length (ds ! j) \<le> length buf" using fits(1) ds(2) by simp
    from client_reads [OF assms(6-8) _ _ frames _ _ this, unfolded len join, OF c assms(9,10)] assms(11)
    obtain buf' g' where r: "gecko_Read sum256 password (map (arrive_client ds) (((n1, n2), i) # xs)) buf g =
        (Some (Inr (min (length p) (length buf), ())), copy_at 0 (take (length buf) p) buf', [], g')" "length buf' = length buf"
      by (metis (no_types, lifting) list.simps(8))
    have "copy_at 0 (take (length buf) p) buf' = p @ drop (length p) buf'" using fits(2) r(2) by (simp add: copy_at_def)
    then show ?thesis using r(1) fits(2) by (simp add: min_absorb1)
  qed
  then show ?thesis using ds(1,2) by blast
qed

section \<open>Whatever arrives\<close>

text \<open>The chunks that arrived, each with its source, number, count and place.\<close>

definition offered :: "(bytes \<Rightarrow> bytes) \<Rightarrow> bytes \<Rightarrow> ('e + bytes \<times> 'a, 'v) arrival list \<Rightarrow> ('a \<times> byte) accepted" where
  "offered sum256 password xs = {((a, m), t, i, b). \<exists>x \<in> set xs. \<exists>d. arGot x = Inr (d, a) \<and>
     classify (length (opened sum256 password d)) (opened sum256 password d) = Chunk m i t b}"

text \<open>What may be handed up: a whole datagram without the fragment flag, or chunks of one source.\<close>

definition genuine :: "(bytes \<Rightarrow> bytes) \<Rightarrow> bytes \<Rightarrow> ('e + bytes \<times> 'a, 'v) arrival list \<Rightarrow> nat \<Rightarrow> 'a \<Rightarrow> bytes \<Rightarrow> bool" where
  "genuine sum256 password xs L a out \<longleftrightarrow>
     (\<exists>x \<in> set xs. \<exists>d. arGot x = Inr (d, a) \<and> out = opened sum256 password d \<and> out \<noteq> [] \<and> out ! 0 AND geckoFragmentFlag = 0) \<or>
     (\<exists>m t pls. 2 \<le> t \<and> t \<le> 8 \<and> length pls = t \<and> (\<forall>j < t. ((a, m), t, j, pls ! j) \<in> offered sum256 password xs) \<and> out = take L (concat pls))"

lemma genuine_mono:
  assumes "genuine sum256 password xs L a out" and "set xs \<subseteq> set ys"
  shows "genuine sum256 password ys L a out"
proof -
  have "offered sum256 password xs \<subseteq> offered sum256 password ys" using assms(2) unfolding offered_def by blast
  then show ?thesis using assms unfolding genuine_def by blast
qed

lemma classify_plain: "classify n p = Plain \<Longrightarrow> 0 < n \<and> p ! 0 AND geckoFragmentFlag = 0"
  by (auto simp: classify_def Let_def split: if_splits)

lemma read_genuine:
  fixes xs :: "('e + bytes \<times> 'a, 'a gecko_map \<Rightarrow> 'a gecko_map) arrival list"
  assumes "gecko_ok H g" and "offered sum256 password xs \<subseteq> H" and "\<forall>x \<in> set xs. \<forall>m. set (arVisit x m) = set m"
    and "\<forall>x \<in> set xs. \<forall>d a. arGot x = Inr (d, a) \<longrightarrow> length d \<le> length buf"
    and "gecko_ReadFrom sum256 password xs buf g = (res, p', rest, g')"
    and "\<And>a m t j b. ((a, m), t, j, b) \<in> H \<Longrightarrow> ((a, m), t, j, b) \<in> offered sum256 password ys" and "set xs \<subseteq> set ys"
  shows "gecko_ok H g' \<and> set rest \<subseteq> set xs \<and> (\<forall>n a. res = Some (Inr (n, a)) \<longrightarrow> genuine sum256 password ys (length buf) a (take n p'))"
  using assms(1-5,7) unfolding gecko_ReadFrom_def
proof (induction xs arbitrary: g buf)
  case (Cons x xs)
  show ?case
  proof (cases "arGot x")
    case (Inl e)
    then show ?thesis using Cons.prems by (auto simp: salamander_ReadFrom_def)
  next
    case (Inr da)
    obtain d a where da: "arGot x = Inr (d, a)" using Inr by (cases da) auto
    let ?o = "opened sum256 password d"
    have "length d \<le> length buf" using Cons.prems(4) da by auto
    then obtain r where r: "salamander_ReadFrom sum256 password (arGot x) buf = (Inr (length ?o, a), ?o @ r)" "length (?o @ r) = length buf"
      using salamander_reads [of d buf sum256 password a] da by auto
    have sub: "offered sum256 password xs \<subseteq> H" using Cons.prems(2) by (auto simp: offered_def)
    note IH = Cons.IH [OF _ sub]
    show ?thesis
    proof (cases "classify (length ?o) ?o")
      case Skip
      then show ?thesis using IH [OF Cons.prems(1), of "?o @ r"] Cons.prems r by (auto simp: classify_prefix)
    next
      case Plain
      have "genuine sum256 password ys (length buf) a ?o"
        unfolding genuine_def using classify_plain [OF Plain] da Cons.prems(6) by (intro disjI1 bexI [of _ x]) auto
      then show ?thesis using Cons.prems r Plain by (auto simp: classify_prefix)
    next
      case (Chunk m i t b)
      have acc: "((a, m), t, i, b) \<in> H" using Cons.prems(2) Chunk da by (auto simp: offered_def)
      obtain out g1 where g1: "acceptChunk (arNow x) (arNow2 x) (arVisit x) a m i t b g = (out, g1)" by fastforce
      have t: "2 \<le> t" "t \<le> 8" using classify_bounds [OF Chunk] by simp_all
      have visit: "\<And>m. set (arVisit x m) = set m" using Cons.prems(3) by simp
      note ok = acceptChunk_ok [OF Cons.prems(1) visit t acc g1]
      show ?thesis
      proof (cases out)
        case None
        then show ?thesis using IH [of g1 "?o @ r"] ok Cons.prems r Chunk g1 by (auto simp: classify_prefix)
      next
        case (Some p)
        then obtain pls where pls: "length pls = t" "p = concat pls" "\<forall>j < t. ((a, m), t, j, pls ! j) \<in> H" using ok by auto
        have res: "res = Some (Inr (min (length p) (length buf), a))" "p' = copy_at 0 (take (length buf) p) (?o @ r)" "rest = xs" "g' = g1"
          using Cons.prems(5) r Chunk g1 Some by (auto simp: classify_prefix)
        have "take (min (length p) (length buf)) p' = take (length buf) p" using r(2) by (simp add: res(2) copy_at_def min_def)
        moreover have "genuine sum256 password ys (length buf) a (take (length buf) p)"
          unfolding genuine_def using pls t assms(6) by blast
        ultimately show ?thesis using ok res by auto
      qed
    qed
  qed
qed simp

text \<open>One read after another, with the buffers the caller brings, until one is left waiting; what each hands
  up and from whom.\<close>

fun gecko_reads :: "(bytes \<Rightarrow> bytes) \<Rightarrow> bytes \<Rightarrow> bytes list \<Rightarrow> (io_error + bytes \<times> 'a, 'a gecko_map \<Rightarrow> 'a gecko_map) arrival list \<Rightarrow> 'a gecko
    \<Rightarrow> ('a \<times> bytes) list \<times> 'a gecko" where
  "gecko_reads sum256 password [] xs g = ([], g)"
| "gecko_reads sum256 password (buf # bufs) xs g = (case gecko_ReadFrom sum256 password xs buf g of
      (None, _, _, g) \<Rightarrow> ([], g)
    | (Some (Inl _), _, xs, g) \<Rightarrow> gecko_reads sum256 password bufs xs g
    | (Some (Inr (n, a)), p, xs, g) \<Rightarrow>
        (case gecko_reads sum256 password bufs xs g of (outs, g) \<Rightarrow> ((a, take n p) # outs, g)))"

lemma reads_genuine:
  assumes "gecko_ok (offered sum256 password ys) g" and "set xs \<subseteq> set ys" and "\<forall>x \<in> set ys. \<forall>m. set (arVisit x m) = set m"
    and "\<forall>buf \<in> set bufs. length buf = L" and "\<forall>x \<in> set ys. \<forall>d a. arGot x = Inr (d, a) \<longrightarrow> length d \<le> L"
  shows "\<exists>outs g'. gecko_reads sum256 password bufs xs g = (outs, g') \<and> gecko_ok (offered sum256 password ys) g' \<and>
    (\<forall>(a, out) \<in> set outs. genuine sum256 password ys L a out)"
  using assms(1,2,4)
proof (induction bufs arbitrary: xs g)
  case (Cons buf bufs)
  obtain res p' rest g1 where r: "gecko_ReadFrom sum256 password xs buf g = (res, p', rest, g1)" by (metis prod.collapse)
  have L: "length buf = L" using Cons.prems(3) by simp
  have sub: "offered sum256 password xs \<subseteq> offered sum256 password ys" using Cons.prems(2) unfolding offered_def by blast
  have fits: "\<forall>x \<in> set xs. \<forall>d a. arGot x = Inr (d, a) \<longrightarrow> length d \<le> length buf" using assms(5) Cons.prems(2) L by blast
  have visit: "\<forall>x \<in> set xs. \<forall>m. set (arVisit x m) = set m" using assms(3) Cons.prems(2) by blast
  note one = read_genuine [OF Cons.prems(1) sub visit fits r _ Cons.prems(2)]
  have g1: "gecko_ok (offered sum256 password ys) g1" "set rest \<subseteq> set ys"
      "\<And>n a. res = Some (Inr (n, a)) \<Longrightarrow> genuine sum256 password ys L a (take n p')"
    using one Cons.prems(2) L by blast+
  show ?case
  proof (cases res)
    case None
    then show ?thesis using r g1 by simp
  next
    case (Some s)
    obtain outs g' where rest: "gecko_reads sum256 password bufs rest g1 = (outs, g')" "gecko_ok (offered sum256 password ys) g'"
        "\<forall>(a, out) \<in> set outs. genuine sum256 password ys L a out"
      using Cons.IH [OF g1(1,2)] Cons.prems(3) by auto
    show ?thesis
    proof (cases s)
      case (Inl e)
      then show ?thesis using r Some rest by simp
    next
      case (Inr na)
      obtain n a where "na = (n, a)" by fastforce
      then show ?thesis using r Some Inr rest g1(3) [of n a] by simp
    qed
  qed
qed simp

text \<open>C31. Whatever datagrams arrive, from whom and in whatever order, everything the reader hands up is
  either one datagram without the fragment flag, from the source it names, or the joined chunks of two
  to eight datagrams of that one source that agree on the packet's number and on how many chunks it
  has, one for each place, cut to the caller's buffer.\<close>

theorem gecko_hands_up_genuine:
  assumes "\<forall>x \<in> set xs. \<forall>m. set (arVisit x m) = set m" and "\<forall>buf \<in> set bufs. length buf = L"
    and "\<forall>x \<in> set xs. \<forall>d a. arGot x = Inr (d, a) \<longrightarrow> length d \<le> L"
  shows "\<forall>(a, out) \<in> set (fst (gecko_reads sum256 password bufs xs (NewGeckoConn now))). genuine sum256 password xs L a out"
proof -
  obtain outs g where "gecko_reads sum256 password bufs xs (NewGeckoConn now) = (outs, g)" "\<forall>(a, out) \<in> set outs. genuine sum256 password xs L a out"
    using reads_genuine [OF new_gecko_ok subset_refl assms(1-3), of sum256 password now] by blast
  then show ?thesis by simp
qed

text \<open>What every accepted chunk keeps, the reading loop keeps, and so does one read after another.\<close>

lemma read_gecko_keeps:
  assumes "\<forall>x \<in> set xs. \<forall>a m i t b g. I g \<and> 2 \<le> t \<and> t \<le> 8 \<longrightarrow> I (snd (accept x a m i t b g))" and "I g"
    and "read_gecko inner accept xs p g = (res, p', rest, g')"
  shows "I g' \<and> set rest \<subseteq> set xs"
  using assms
proof (induction xs arbitrary: p g)
  case (Cons x xs)
  have "\<forall>x \<in> set xs. \<forall>a m i t b g. I g \<and> 2 \<le> t \<and> t \<le> 8 \<longrightarrow> I (snd (accept x a m i t b g))" using Cons.prems(1) by simp
  note IH = Cons.IH [OF this]
  obtain got q where inner: "inner (arGot x) p = (got, q)" by fastforce
  show ?case
  proof (cases got)
    case (Inl e)
    then show ?thesis using Cons.prems(2,3) inner by auto
  next
    case (Inr na)
    obtain n a where na: "na = (n, a)" by fastforce
    show ?thesis
    proof (cases "classify n q")
      case (Chunk m i t b)
      obtain out g1 where acc: "accept x a m i t b g = (out, g1)" by fastforce
      have "I (snd (accept x a m i t b g))" using Cons.prems(1,2) classify_bounds [OF Chunk] by simp
      then have g1: "I g1" using acc by simp
      show ?thesis using Cons.prems(3) IH [OF g1] g1 inner Inr na Chunk acc by (cases out) auto
    qed (use Cons.prems(2,3) IH [OF Cons.prems(2)] inner Inr na in auto)
  qed
qed simp

fun gecko_client_reads :: "(bytes \<Rightarrow> bytes) \<Rightarrow> bytes \<Rightarrow> bytes list \<Rightarrow> (io_error + bytes, unit) arrival list \<Rightarrow> gecko_client \<Rightarrow> bytes list \<times> gecko_client" where
  "gecko_client_reads sum256 password [] xs g = ([], g)"
| "gecko_client_reads sum256 password (buf # bufs) xs g = (case gecko_Read sum256 password xs buf g of
      (None, _, _, g) \<Rightarrow> ([], g)
    | (Some (Inl _), _, xs, g) \<Rightarrow> gecko_client_reads sum256 password bufs xs g
    | (Some (Inr (n, _)), p, xs, g) \<Rightarrow>
        (case gecko_client_reads sum256 password bufs xs g of (outs, g) \<Rightarrow> (take n p # outs, g)))"

lemma gecko_reads_ok:
  "gecko_ok UNIV g \<Longrightarrow> \<forall>x \<in> set xs. \<forall>m. set (arVisit x m) = set m \<Longrightarrow> gecko_ok UNIV (snd (gecko_reads sum256 password bufs xs g))"
proof (induction bufs arbitrary: xs g)
  case (Cons buf bufs)
  obtain res p' rest g1 where r: "gecko_ReadFrom sum256 password xs buf g = (res, p', rest, g1)" by (metis prod.collapse)
  have "gecko_ok UNIV (snd (acceptChunk (arNow x) (arNow2 x) (arVisit x) a m i t b g))"
    if "x \<in> set xs" "gecko_ok UNIV g" "2 \<le> t" "t \<le> 8" for x a m i t b g
    using acceptChunk_ok [OF that(2) _ that(3,4) UNIV_I prod.collapse [symmetric]] Cons.prems(2) that(1) by blast
  then have "gecko_ok UNIV g1 \<and> set rest \<subseteq> set xs"
    using read_gecko_keeps [where I = "gecko_ok UNIV", OF _ Cons.prems(1) r [unfolded gecko_ReadFrom_def]] by blast
  then have "gecko_ok UNIV g1" "\<forall>x \<in> set rest. \<forall>m. set (arVisit x m) = set m" using Cons.prems(2) by blast+
  from Cons.IH [OF this] this(1) r show ?case by (auto split: option.splits sum.splits prod.splits)
qed simp

lemma gecko_client_reads_ok: "client_ok UNIV g \<Longrightarrow> client_ok UNIV (snd (gecko_client_reads sum256 password bufs xs g))"
proof (induction bufs arbitrary: xs g)
  case (Cons buf bufs)
  obtain res p' rest g1 where r: "gecko_Read sum256 password xs buf g = (res, p', rest, g1)" by (metis prod.collapse)
  have "client_ok UNIV (snd (client_acceptChunk now now2 m i t b g))" if "client_ok UNIV g" "2 \<le> t" "t \<le> 8" for now now2 m i t b g
    using client_acceptChunk_ok [OF that UNIV_I prod.collapse [symmetric]] by blast
  then have "client_ok UNIV g1 \<and> set rest \<subseteq> set xs"
    using read_gecko_keeps [where I = "client_ok UNIV", OF _ Cons.prems r [unfolded gecko_Read_def]] by blast
  then show ?case using Cons.IH [of g1 rest] r by (auto split: option.splits sum.splits prod.splits)
qed simp

text \<open>An entry that is kept has room for two to eight chunks and misses one.\<close>

definition incomplete :: "gecko_entry \<Rightarrow> bool" where
  "incomplete e \<longleftrightarrow> length (geChunks e) = geTotal e \<and> geTotal e \<in> {2..8} \<and> None \<in> set (geChunks e)"

lemma entry_incomplete: "entry_ok H k e \<Longrightarrow> incomplete e"
proof -
  assume "entry_ok H k e"
  moreover have "None \<in> set cs" if "length (filter (\<lambda>c. c \<noteq> None) cs) < length cs" for cs :: "bytes option list"
    using that by (metis (mono_tags, lifting) filter_True less_irrefl)
  ultimately show ?thesis by (auto simp: entry_ok_def incomplete_def)
qed

text \<open>C32. Whatever arrives, the server's reader keeps at most 4096 packets under way, at most 8 of one source, its
  counts per source are exactly the packets it keeps, and every packet it keeps has room for two to
  eight chunks and still misses one, so that none is kept that could be handed up. The client's reader
  keeps at most 8 packets, each with its own number and missing a chunk.\<close>

theorem gecko_state_bounded:
  assumes "\<forall>x \<in> set xs. \<forall>m. set (arVisit x m) = set m"
    and "g = snd (gecko_reads sum256 password bufs xs (NewGeckoConn now))"
    and "c = snd (gecko_client_reads sum256 password bufs' ys (NewGeckoClientConn now'))"
  shows "length (reassembly g) \<le> 4096 \<and> distinct (map fst (reassembly g)) \<and>
    (\<forall>a. let n = length (filter (\<lambda>(b, _). b = a) (map fst (reassembly g))) in
       n \<le> 8 \<and> perSource g a = (if n = 0 then None else Some (int n))) \<and>
    (\<forall>(k, e) \<in> set (reassembly g). incomplete e) \<and>
    length (cReassembly c) \<le> 8 \<and> distinct (map fst (cReassembly c)) \<and> (\<forall>(k, e) \<in> set (cReassembly c). incomplete e)"
proof -
  have ok: "gecko_ok UNIV g" using gecko_reads_ok [OF new_gecko_ok assms(1)] assms(2) by simp
  have client: "client_ok UNIV c" using gecko_client_reads_ok [OF new_client_ok] assms(3) by simp
  have d: "distinct (map fst (reassembly g))" "distinct (map fst (cReassembly c))"
    using ok client by (simp_all add: gecko_ok_def client_ok_def)
  have "entry_ok UNIV k e" if "(k, e) \<in> set (reassembly g)" for k e
    using ok that map_of_eq_set [OF d(1), of k e] unfolding gecko_ok_def by blast
  moreover have "entry_ok UNIV k e" if "(k, e) \<in> set (cReassembly c)" for k e
    using client that map_of_eq_set [OF d(2), of k e] unfolding client_ok_def by blast
  ultimately have missing: "\<forall>(k, e) \<in> set (reassembly g). incomplete e" "\<forall>(k, e) \<in> set (cReassembly c). incomplete e"
    using entry_incomplete by fast+
  have held: "length (filter (\<lambda>(b, _). b = a) (map fst (reassembly g))) = held a (map fst (reassembly g))" for a
    by (simp add: held_def case_prod_unfold)
  show ?thesis using ok client d missing unfolding held Let_def gecko_ok_def client_ok_def counts_def by blast
qed

text \<open>A plain datagram, and the first of two chunks.\<close>

definition plain_arrival :: "(io_error + bytes \<times> string, string gecko_map \<Rightarrow> string gecko_map) arrival" where
  "plain_arrival = \<lparr>arGot = Inr ([0x41, 2], ''peer''), arNow = 1, arNow2 = 2, arVisit = id\<rparr>"

definition first_chunk :: "(io_error + bytes \<times> string, string gecko_map \<Rightarrow> string gecko_map) arrival" where
  "first_chunk = \<lparr>arGot = Inr ([0xC1, 2, 2, 0, 0], ''peer''), arNow = 1, arNow2 = 2, arVisit = id\<rparr>"

lemmas read_defs = gecko_ReadFrom_def salamander_ReadFrom_def receive_def copy_at_def salamanderSaltLen_def classify_def
  geckoFragmentFlag_def geckoHeaderLen_def geckoMinChunks_def geckoMaxChunks_def acceptChunk_def find_entry_def put_chunk_def
  store_chunk_def new_entry_def NewGeckoConn_def geckoReassemblyTTL_def geckoMaxPerSource_def geckoMaxReassembly_def
  slice_def get_u16_def

theorem gecko_hands_up_genuine_witness:
  "fst (gecko_reads (\<lambda>x. replicate 32 (hd x)) [7] [replicate 9 0] [plain_arrival] (NewGeckoConn 0)) = [(''peer'', [0x41, 2])] \<and>
    genuine (\<lambda>x. replicate 32 (hd x)) [7] [plain_arrival] 9 ''peer'' [0x41, 2]"
proof -
  have r: "fst (gecko_reads (\<lambda>x. replicate 32 (hd x)) [7] [replicate 9 0] [plain_arrival] (NewGeckoConn 0)) = [(''peer'', [0x41, 2])]"
    by (simp add: plain_arrival_def read_defs numeral_eq_Suc)
  have h: "\<forall>x \<in> set [plain_arrival]. \<forall>m. set (arVisit x m) = set m" "\<forall>buf \<in> set [replicate 9 (0 :: byte)]. length buf = 9"
      "\<forall>x \<in> set [plain_arrival]. \<forall>d a. arGot x = Inr (d, a) \<longrightarrow> length d \<le> 9" by (simp_all add: plain_arrival_def)
  show ?thesis using gecko_hands_up_genuine [OF h, of "\<lambda>x. replicate 32 (hd x)" "[7]" 0] r by simp
qed

definition first_client_chunk :: "(io_error + bytes, unit) arrival" where
  "first_client_chunk = \<lparr>arGot = Inr [0xC1, 2, 2, 0, 0], arNow = 1, arNow2 = 2, arVisit = ()\<rparr>"

theorem gecko_state_bounded_witness:
  "map (\<lambda>(k, e). (k, geChunks e)) (reassembly (snd (gecko_reads (\<lambda>x. replicate 32 (hd x)) [7] [replicate 9 0] [first_chunk] (NewGeckoConn 0))))
      = [((''peer'', 2), [Some [], None])] \<and>
    map (\<lambda>(k, e). (k, geChunks e)) (cReassembly (snd (gecko_client_reads (\<lambda>x. replicate 32 (hd x)) [7] [replicate 9 0] [first_client_chunk] (NewGeckoClientConn 0))))
      = [(2, [Some [], None])] \<and>
    length (reassembly (snd (gecko_reads (\<lambda>x. replicate 32 (hd x)) [7] [replicate 9 0] [first_chunk] (NewGeckoConn 0)))) \<le> 4096 \<and>
    length (cReassembly (snd (gecko_client_reads (\<lambda>x. replicate 32 (hd x)) [7] [replicate 9 0] [first_client_chunk] (NewGeckoClientConn 0)))) \<le> 8"
proof -
  have h: "\<forall>x \<in> set [first_chunk]. \<forall>m. set (arVisit x m) = set m" by (simp add: first_chunk_def)
  have "map (\<lambda>(k, e). (k, geChunks e)) (reassembly (snd (gecko_reads (\<lambda>x. replicate 32 (hd x)) [7] [replicate 9 0] [first_chunk] (NewGeckoConn 0))))
      = [((''peer'', 2), [Some [], None])]"
    by code_simp
  moreover have "map (\<lambda>(k, e). (k, geChunks e)) (cReassembly (snd (gecko_client_reads (\<lambda>x. replicate 32 (hd x)) [7] [replicate 9 0] [first_client_chunk] (NewGeckoClientConn 0))))
      = [(2, [Some [], None])]"
    by code_simp
  ultimately show ?thesis
    using gecko_state_bounded [OF h refl refl, of "\<lambda>x. replicate 32 (hd x)" "[7]" "[replicate 9 0]" 0
        "[replicate 9 0]" "[first_client_chunk]" 0] by blast
qed

section \<open>The number of a packet has eight bits\<close>

lemma ucast_256: "ucast (x + 256 :: u32) = (ucast x :: byte)"
  by transfer (simp add: take_bit_eq_mod mod_mod_cancel)

lemma length_gecko_chunk: "length (gecko_chunk c i p) \<le> length p"
  by (simp add: gecko_chunk_def Let_def slice_def)

text \<open>C33. A packet of two chunks that lost its second is completed by the second chunk of the packet the
  same writer sends 256 packets later, if that comes within 8 seconds: the reader hands up a packet
  that was never written.\<close>

theorem gecko_mixes_packets:
  assumes "fair dr" and "fair dr'" and "drawChunks dr = 0" and "drawChunks dr' = 0"
    and "p \<noteq> []" and "p ! 0 AND geckoFragmentFlag \<noteq> 0" and "p' \<noteq> []" and "p' ! 0 AND geckoFragmentFlag \<noteq> 0"
    and "msgIDCounter w' = msgIDCounter w + 256" and "now \<le> now2" and "now' \<le> now2 + geckoReassemblyTTL"
  shows "\<exists>ds ds' v v'. gecko_WriteTo sum256 password log_send dr p w [] = (((length p, None), ds), v) \<and>
    gecko_WriteTo sum256 password log_send dr' p' w' [] = (((length p', None), ds'), v') \<and>
    (\<forall>buf. length (ds ! 0) \<le> length buf \<and> length (ds' ! 1) \<le> length buf \<and> length p + length p' \<le> length buf \<longrightarrow>
      (\<exists>g. gecko_reads sum256 password [buf] (map (arrive [ds ! 0, ds' ! 1] a) [((now, now2, id), 0), ((now', now2', id), 1)]) (NewGeckoConn start)
        = ([(a, gecko_chunk 2 0 p @ gecko_chunk 2 1 p')], g)))"
proof -
  let ?m = "ucast (msgIDCounter w + 1) :: byte"
  have same: "ucast (msgIDCounter w' + 1) = ?m" using ucast_256 [of "msgIDCounter w + 1"] unfolding assms(9) by (simp add: ac_simps)
  obtain ds v where ds: "gecko_WriteTo sum256 password log_send dr p w [] = (((length p, None), ds), v)"
      "\<forall>j < 2. carries sum256 password ?m 2 j (gecko_chunk 2 j p) (ds ! j)"
    using written [OF assms(1,5,6), of sum256 password w] assms(3) by auto
  obtain ds' v' where ds': "gecko_WriteTo sum256 password log_send dr' p' w' [] = (((length p', None), ds'), v')"
      "\<forall>j < 2. carries sum256 password ?m 2 j (gecko_chunk 2 j p') (ds' ! j)"
    using written [OF assms(2,7,8), of sum256 password w'] assms(4) same by auto
  let ?pls = "[gecko_chunk 2 0 p, gecko_chunk 2 1 p']" and ?ds = "[ds ! 0, ds' ! 1]" and ?g = "NewGeckoConn start :: 'a gecko"
  let ?xs = "[((now, now2, id), 0), ((now', now2', id), 1)] :: ((int \<times> int \<times> ('a gecko_map \<Rightarrow> 'a gecko_map)) \<times> nat) list"
  have frames: "\<forall>j < length ?pls. carries sum256 password ?m (length ?pls) j (?pls ! j) (?ds ! j)"
  proof -
    have "length ?pls = 2" by simp
    then show ?thesis using ds(2) ds'(2) by (simp only: less_2_cases_iff) auto
  qed
  have xs: "\<forall>((t1, t2, visit), i) \<in> set ?xs. (\<forall>m. set (visit m) = set m) \<and> t1 \<le> now2 + geckoReassemblyTTL \<and> i < length ?pls"
    using assms(10,11) by (simp add: geckoReassemblyTTL_def)
  have all: "insert 0 (snd ` set [((now', now2', id :: 'a gecko_map \<Rightarrow> 'a gecko_map), 1)]) = {0..<length ?pls}" by auto
  have g: "map_of (reassembly ?g) (a, ?m) = None" "held a (map fst (reassembly ?g)) < 8" by (simp_all add: NewGeckoConn_def held_def)
  have "\<exists>g. gecko_reads sum256 password [buf] (map (arrive ?ds a) ?xs) ?g = ([(a, gecko_chunk 2 0 p @ gecko_chunk 2 1 p')], g)"
    if fits: "length (ds ! 0) \<le> length buf" "length (ds' ! 1) \<le> length buf" "length p + length p' \<le> length buf" for buf
  proof -
    have "\<forall>j < length ?pls. length (?ds ! j) \<le> length buf" using fits(1,2) by (auto simp: less_Suc_eq)
    from server_reads [OF new_gecko_ok g _ _ frames xs all this] obtain buf' rest g' where r:
      "gecko_ReadFrom sum256 password (map (arrive ?ds a) ?xs) buf ?g =
        (Some (Inr (min (length (concat ?pls)) (length buf), a)), copy_at 0 (take (length buf) (concat ?pls)) buf', map (arrive ?ds a) rest, g')"
      "length buf' = length buf" by auto
    have "length (concat ?pls) \<le> length buf" using fits(3) length_gecko_chunk [of 2 0 p] length_gecko_chunk [of 2 1 p'] by simp
    then show ?thesis using r by (simp add: copy_at_def)
  qed
  then show ?thesis using ds(1) ds'(1) by blast
qed

theorem gecko_mixes_packets_witness:
  "\<exists>ds ds' buf g. length [0xC1, 1 :: byte] + length [0xC2, 2 :: byte] \<le> length buf \<and>
    gecko_reads (\<lambda>x. replicate 32 (hd x)) [7] [buf] (map (arrive [ds ! 0, ds' ! 1] ''peer'') [((1, 2, id), 0), ((900, 901, id), 1)]) (NewGeckoConn 0)
      = ([(''peer'', [0xC1, 2])], g)"
proof -
  let ?w = "\<lparr>minPacketSize = 512, maxPacketSize = 1200, msgIDCounter = 4\<rparr>" and ?w' = "\<lparr>minPacketSize = 512, maxPacketSize = 1200, msgIDCounter = 260\<rparr>"
  let ?sum = "\<lambda>x. replicate 32 (hd x) :: bytes"
  have h: "drawChunks zeros = 0" "[0xC1, 1 :: byte] \<noteq> []" "[0xC1, 1] ! 0 AND geckoFragmentFlag \<noteq> 0" "[0xC2, 2 :: byte] \<noteq> []" "[0xC2, 2] ! 0 AND geckoFragmentFlag \<noteq> 0"
      "msgIDCounter ?w' = msgIDCounter ?w + 256" "(1 :: int) \<le> 2" "(900 :: int) \<le> 2 + geckoReassemblyTTL"
    by (simp_all add: zeros_def geckoFragmentFlag_def geckoReassemblyTTL_def)
  have c: "gecko_chunk 2 0 [0xC1, 1] @ gecko_chunk 2 1 [0xC2, 2] = [0xC1, 2]" by (simp add: gecko_chunk_def slice_def)
  obtain ds ds' where all: "\<And>buf. length (ds ! 0) \<le> length buf \<Longrightarrow> length (ds' ! 1) \<le> length buf \<Longrightarrow>
      length [0xC1, 1 :: byte] + length [0xC2, 2 :: byte] \<le> length buf \<Longrightarrow>
      \<exists>g. gecko_reads ?sum [7] [buf] (map (arrive [ds ! 0, ds' ! 1] ''peer'') [((1, 2, id), 0), ((900, 901, id), 1)]) (NewGeckoConn 0)
        = ([(''peer'', [0xC1, 2])], g)"
    using gecko_mixes_packets [OF zeros_fair zeros_fair h(1) h(1) h(2-8), of ?sum "[7]" "''peer''" 901 0] unfolding c by metis
  let ?buf = "replicate (length (ds ! 0) + length (ds' ! 1) + 4) (0 :: byte)"
  have "length [0xC1, 1 :: byte] + length [0xC2, 2 :: byte] \<le> length ?buf" by simp
  then show ?thesis using all [of ?buf] by fastforce
qed

end
