(* ===== verification/FlowMemory.thy ===== *)
theory FlowMemory
  imports Memlimit
begin

text \<open>
  \<^verbatim>\<open>queqiao/internal/pep/memory.go\<close>: how a memory profile becomes the limits of a flow and the two budgets
  all flows share. Go's \<^verbatim>\<open>int\<close> and \<^verbatim>\<open>int64\<close> are integers here, every value being compared and none added;
  a \<^verbatim>\<open>uint64\<close> is a word.
\<close>

section \<open>Memory limits\<close>

definition maxFlowOutstandingBytes :: int where [cfg_defs]: "maxFlowOutstandingBytes = 64 * 1024 * 1024"
definition maxReassemblyBytes :: u64 where [cfg_defs]: "maxReassemblyBytes = 2 * word_of_int maxFlowOutstandingBytes"
definition maxFlowOutstandingChunks :: int where [cfg_defs]: "maxFlowOutstandingChunks = 16384"
definition maxReassemblyFrames :: int where [cfg_defs]: "maxReassemblyFrames = 16384"
definition maxLaneEvents :: int where [cfg_defs]: "maxLaneEvents = 256"
definition maxLaneWriteQueue :: int where [cfg_defs]: "maxLaneWriteQueue = 64"
definition maxLaneInteractiveReserve :: int where [cfg_defs]: "maxLaneInteractiveReserve = 8"
definition frameReadBufferSize :: int where [cfg_defs]: "frameReadBufferSize = 64 * 1024"
definition isolatedBulkConns :: int where [cfg_defs]: "isolatedBulkConns = 8"

record memory_limits =
  SendBudgetBytes :: int
  ReceiveBudgetBytes :: int
  MaxFlowSendBytes :: int
  MaxFlowReceiveBytes :: u64
  MaxFlowOutstanding :: int
  MaxFlowReceiveFrames :: int
  EventQueueFrames :: int
  LaneWriteQueueFrames :: int
  LaneInteractiveReserve :: int
  FrameReadBufferBytes :: int
  MaxUDPPacketBytes :: int
  MaxBulkConnections :: int

record flow_limits =
  maxSendBytes :: int
  maxReceiveBytes :: u64
  maxOutstanding :: int
  maxReceiveFrames :: int
  eventQueue :: int
  laneWriteQueue :: int
  laneControlReserve :: int
  frameReadBuffer :: int
  maxUDPPacketBytes :: int
  maxBulkConnections :: int

definition defaultFlowMemoryLimits :: flow_limits where
  "defaultFlowMemoryLimits = \<lparr>maxSendBytes = maxFlowOutstandingBytes, maxReceiveBytes = maxReassemblyBytes,
     maxOutstanding = maxFlowOutstandingChunks, maxReceiveFrames = maxReassemblyFrames,
     eventQueue = maxLaneEvents, laneWriteQueue = maxLaneWriteQueue, laneControlReserve = maxLaneInteractiveReserve,
     frameReadBuffer = frameReadBufferSize, maxUDPPacketBytes = 65535, maxBulkConnections = isolatedBulkConns\<rparr>"

datatype limit_error =
    FlowSendBelowChunk | SharedSendBelowChunk | SharedReceiveNotPositive | FlowSendAboveShared | FlowReceiveAboveShared
  | LimitsNotPositive | EventQueueRange | LaneQueueRange | ReserveRange | ReadBufferRange | UDPBufferRange | BulkRange

text \<open>The fields the profile sets, over the defaults.\<close>

definition configured_limits :: "memory_limits \<Rightarrow> flow_limits" where
  "configured_limits c =
     (let pick = (\<lambda>v d :: int. if v > 0 then v else d); l = defaultFlowMemoryLimits in
      \<lparr>maxSendBytes = pick (MaxFlowSendBytes c) (maxSendBytes l),
       maxReceiveBytes = (if MaxFlowReceiveBytes c > 0 then MaxFlowReceiveBytes c else maxReceiveBytes l),
       maxOutstanding = pick (MaxFlowOutstanding c) (maxOutstanding l),
       maxReceiveFrames = pick (MaxFlowReceiveFrames c) (maxReceiveFrames l),
       eventQueue = pick (EventQueueFrames c) (eventQueue l),
       laneWriteQueue = pick (LaneWriteQueueFrames c) (laneWriteQueue l),
       laneControlReserve = pick (LaneInteractiveReserve c) (laneControlReserve l),
       frameReadBuffer = pick (FrameReadBufferBytes c) (frameReadBuffer l),
       maxUDPPacketBytes = pick (MaxUDPPacketBytes c) (maxUDPPacketBytes l),
       maxBulkConnections = pick (MaxBulkConnections c) (maxBulkConnections l)\<rparr>)"

definition resolveMemoryLimits :: "memory_limits option \<Rightarrow> int \<Rightarrow> limit_error + flow_limits \<times> budget option \<times> budget option" where
  "resolveMemoryLimits configured chunkSize = (case configured of
      None \<Rightarrow> Inr (defaultFlowMemoryLimits, None, None)
    | Some c \<Rightarrow>
        let l = configured_limits c in
        if chunkSize \<le> 0 \<or> maxSendBytes l < chunkSize then Inl FlowSendBelowChunk
        else if SendBudgetBytes c < chunkSize then Inl SharedSendBelowChunk
        else if ReceiveBudgetBytes c \<le> 0 then Inl SharedReceiveNotPositive
        else if maxSendBytes l > SendBudgetBytes c then Inl FlowSendAboveShared
        else if maxReceiveBytes l > word_of_int (ReceiveBudgetBytes c) then Inl FlowReceiveAboveShared
        else if maxReceiveBytes l = 0 \<or> maxOutstanding l < 1 \<or> maxReceiveFrames l < 1 then Inl LimitsNotPositive
        else if eventQueue l < 1 \<or> eventQueue l > maxLaneEvents then Inl EventQueueRange
        else if laneWriteQueue l < 2 \<or> laneWriteQueue l > maxLaneWriteQueue then Inl LaneQueueRange
        else if laneControlReserve l < 1 \<or> laneControlReserve l \<ge> laneWriteQueue l then Inl ReserveRange
        else if frameReadBuffer l < 512 \<or> frameReadBuffer l > frameReadBufferSize then Inl ReadBufferRange
        else if maxUDPPacketBytes l < 1280 \<or> maxUDPPacketBytes l > 65535 then Inl UDPBufferRange
        else if maxBulkConnections l < 1 \<or> maxBulkConnections l > isolatedBulkConns then Inl BulkRange
        else Inr (l, new_budget (SendBudgetBytes c), new_budget (ReceiveBudgetBytes c)))"

text \<open>Limits a flow can work with: a chunk fits what a flow may send, what a flow may hold fits the shared
  budgets, and the queues have room.\<close>

definition workable :: "int \<Rightarrow> flow_limits \<Rightarrow> bool" where
  "workable chunkSize l \<longleftrightarrow> 0 < chunkSize \<and> chunkSize \<le> maxSendBytes l \<and> 0 < unat (maxReceiveBytes l) \<and>
     1 \<le> maxOutstanding l \<and> 1 \<le> maxReceiveFrames l \<and> 1 \<le> eventQueue l \<and> eventQueue l \<le> 256 \<and>
     1 \<le> laneControlReserve l \<and> laneControlReserve l < laneWriteQueue l \<and> laneWriteQueue l \<le> 64 \<and>
     512 \<le> frameReadBuffer l \<and> frameReadBuffer l \<le> 65536 \<and> 1280 \<le> maxUDPPacketBytes l \<and> maxUDPPacketBytes l \<le> 65535 \<and>
     1 \<le> maxBulkConnections l \<and> maxBulkConnections l \<le> 8"

lemma above_budget: "0 < r \<Longrightarrow> r < 2 ^ 63 \<Longrightarrow> m > (word_of_int r :: u64) \<longleftrightarrow> int (unat m) > r"
proof -
  assume r: "0 < r" "r < 2 ^ 63"
  then have "uint (word_of_int r :: u64) = r" by (simp add: unsigned_of_int take_bit_int_eq_self)
  then show ?thesis by (simp add: word_less_def)
qed

lemma resolve_accepts:
  assumes "ReceiveBudgetBytes c < 2 ^ 63"
  shows "resolveMemoryLimits (Some c) chunkSize = Inr r \<longleftrightarrow>
      workable chunkSize (configured_limits c) \<and> maxSendBytes (configured_limits c) \<le> SendBudgetBytes c \<and>
      int (unat (maxReceiveBytes (configured_limits c))) \<le> ReceiveBudgetBytes c \<and>
      r = (configured_limits c, new_budget (SendBudgetBytes c), new_budget (ReceiveBudgetBytes c))"
proof (cases "0 < ReceiveBudgetBytes c")
  case True
  have z: "0 < unat (maxReceiveBytes (configured_limits c)) \<longleftrightarrow> maxReceiveBytes (configured_limits c) \<noteq> 0"
    by (simp add: unat_gt_0)
  show ?thesis using True unfolding resolveMemoryLimits_def option.case Let_def above_budget [OF True assms] workable_def z
    by (auto simp: maxLaneEvents_def maxLaneWriteQueue_def frameReadBufferSize_def isolatedBulkConns_def)
next
  case False
  then have "\<not> (workable chunkSize (configured_limits c) \<and> int (unat (maxReceiveBytes (configured_limits c))) \<le> ReceiveBudgetBytes c)"
    unfolding workable_def by linarith
  moreover have "resolveMemoryLimits (Some c) chunkSize \<noteq> Inr r" using False by (simp add: resolveMemoryLimits_def Let_def)
  ultimately show ?thesis by blast
qed

text \<open>A memory profile is accepted exactly when the limits it gives are workable and fit its budgets,
  and then the two budgets are fresh and each holds what a flow may take of it; without a profile the
  limits are workable for every chunk of up to 64 MiB and nothing is shared.\<close>

theorem memory_limits_exact:
  assumes "ReceiveBudgetBytes c < 2 ^ 63"
  shows "((\<exists>r. resolveMemoryLimits (Some c) chunkSize = Inr r) \<longleftrightarrow>
      workable chunkSize (configured_limits c) \<and> maxSendBytes (configured_limits c) \<le> SendBudgetBytes c \<and>
      int (unat (maxReceiveBytes (configured_limits c))) \<le> ReceiveBudgetBytes c) \<and>
    (\<forall>l sb rb. resolveMemoryLimits (Some c) chunkSize = Inr (l, sb, rb) \<longrightarrow> l = configured_limits c \<and>
      (\<exists>s r. sb = Some s \<and> rb = Some r \<and> budget_ok s \<and> budget_ok r \<and> used s = 0 \<and> used r = 0 \<and>
        maxSendBytes l \<le> capacity s \<and> int (unat (maxReceiveBytes l)) \<le> capacity r)) \<and>
    (\<exists>l. resolveMemoryLimits None chunkSize = Inr (l, None, None) \<and> (0 < chunkSize \<and> chunkSize \<le> 67108864 \<longrightarrow> workable chunkSize l))"
proof (intro conjI allI impI)
  show "(\<exists>r. resolveMemoryLimits (Some c) chunkSize = Inr r) \<longleftrightarrow>
      workable chunkSize (configured_limits c) \<and> maxSendBytes (configured_limits c) \<le> SendBudgetBytes c \<and>
      int (unat (maxReceiveBytes (configured_limits c))) \<le> ReceiveBudgetBytes c"
    unfolding resolve_accepts [OF assms] by blast
  show "\<exists>l. resolveMemoryLimits None chunkSize = Inr (l, None, None) \<and> (0 < chunkSize \<and> chunkSize \<le> 67108864 \<longrightarrow> workable chunkSize l)"
    by (simp add: resolveMemoryLimits_def workable_def defaultFlowMemoryLimits_def cfg_defs
      maxFlowOutstandingBytes_def maxReassemblyBytes_def maxFlowOutstandingChunks_def maxReassemblyFrames_def maxLaneEvents_def
      maxLaneWriteQueue_def maxLaneInteractiveReserve_def frameReadBufferSize_def isolatedBulkConns_def)
next
  fix l sb rb
  assume "resolveMemoryLimits (Some c) chunkSize = Inr (l, sb, rb)"
  then have r: "workable chunkSize l" "maxSendBytes l \<le> SendBudgetBytes c" "int (unat (maxReceiveBytes l)) \<le> ReceiveBudgetBytes c"
      "l = configured_limits c" "sb = new_budget (SendBudgetBytes c)" "rb = new_budget (ReceiveBudgetBytes c)"
    using resolve_accepts [OF assms, of chunkSize "(l, sb, rb)"] by auto
  then have "0 < SendBudgetBytes c" "0 < ReceiveBudgetBytes c" unfolding workable_def by linarith+
  then show "l = configured_limits c" and "\<exists>s r. sb = Some s \<and> rb = Some r \<and> budget_ok s \<and> budget_ok r \<and> used s = 0 \<and> used r = 0 \<and>
        maxSendBytes l \<le> capacity s \<and> int (unat (maxReceiveBytes l)) \<le> capacity r"
    using r by (simp_all add: new_budget_def budget_ok_def)
qed

theorem memory_limits_exact_witness:
  "\<exists>l sb rb. resolveMemoryLimits (Some \<lparr>SendBudgetBytes = 1000000, ReceiveBudgetBytes = 1000000, MaxFlowSendBytes = 500000,
     MaxFlowReceiveBytes = 500000, MaxFlowOutstanding = 0, MaxFlowReceiveFrames = 0, EventQueueFrames = 0, LaneWriteQueueFrames = 16,
     LaneInteractiveReserve = 0, FrameReadBufferBytes = 0, MaxUDPPacketBytes = 1500, MaxBulkConnections = 2\<rparr>) 16384 = Inr (l, sb, rb)"
  using memory_limits_exact [of "\<lparr>SendBudgetBytes = 1000000, ReceiveBudgetBytes = 1000000, MaxFlowSendBytes = 500000,
     MaxFlowReceiveBytes = 500000, MaxFlowOutstanding = 0, MaxFlowReceiveFrames = 0, EventQueueFrames = 0, LaneWriteQueueFrames = 16,
     LaneInteractiveReserve = 0, FrameReadBufferBytes = 0, MaxUDPPacketBytes = 1500, MaxBulkConnections = 2\<rparr>" 16384]
  by (simp add: workable_def configured_limits_def defaultFlowMemoryLimits_def cfg_defs word_gt_0)

end
