(* ===== verification/InboundQueue.thy ===== *)
theory InboundQueue
  imports Memlimit "HOL-Library.Sublist"
begin

text \<open>
  \<^verbatim>\<open>queqiao/internal/pep/inbound_queue.go\<close>: the backlog between the lane readers of a flow and its event
  loop. An event goes straight into the \<^verbatim>\<open>events\<close> channel while that has room and no pump runs; otherwise
  it waits in the backlog, charged to the receive budget, for a pump goroutine that moves the backlog
  into the channel. The mutex makes \<^verbatim>\<open>enqueueInbound\<close> and each turn of the pump one step; the pump's
  blocking send, the end of the flow and the event loop are steps of their own, so that a run is any
  interleaving of them. \<open>payload\<close> is the length of an event's payload. The budget is shared with other
  flows, which acquire and release behind this flow's back.
\<close>

section \<open>State\<close>

datatype 'e pump = Idle | Looping | Sending 'e

record 'e inbound =
  queue :: "'e list"
  queueBytes :: u64
  pumping :: bool
  pump :: "'e pump"
  channel :: "'e list"
  memory :: "budget option"
  ended :: bool \<comment> \<open>\<^verbatim>\<open>done\<close> or the context is closed\<close>
  backlogError :: bool \<comment> \<open>\<^verbatim>\<open>errReceiveBacklog\<close> was offered to \<^verbatim>\<open>ackErr\<close>\<close>

record inbound_limits =
  maxBytes :: u64
  maxFrames :: nat
  channelSize :: nat

definition new_inbound :: "budget option \<Rightarrow> 'e inbound" where
  "new_inbound mb = \<lparr>queue = [], queueBytes = 0, pumping = False, pump = Idle, channel = [], memory = mb, ended = False, backlogError = False\<rparr>"

section \<open>Operations\<close>

definition enqueueInbound :: "inbound_limits \<Rightarrow> ('e \<Rightarrow> nat) \<Rightarrow> 'e \<Rightarrow> 'e inbound \<Rightarrow> bool \<times> 'e inbound" where
  "enqueueInbound lim payload event q =
     (if ended q then (False, q)
      else if \<not> pumping q \<and> length (channel q) < channelSize lim then (True, q\<lparr>channel := channel q @ [event]\<rparr>)
      else
        let n = payload event; refuse = (\<lambda>q :: 'e inbound. (False, q\<lparr>backlogError := True\<rparr>)) in
        if queueBytes q + word_of_nat n > maxBytes lim \<or> length (queue q) \<ge> maxFrames lim then refuse q
        else case TryAcquire (memory q) (int n) of
            (False, mb) \<Rightarrow> refuse (q\<lparr>memory := mb\<rparr>)
          | (True, mb) \<Rightarrow>
              let q = q\<lparr>memory := mb, queue := queue q @ [event], queueBytes := queueBytes q + word_of_nat n\<rparr> in
              (True, if \<not> pumping q then q\<lparr>pumping := True, pump := Looping\<rparr> else q))"

text \<open>One turn of the pump, up to its send.\<close>

definition pump_turn :: "('e \<Rightarrow> nat) \<Rightarrow> 'e inbound \<Rightarrow> panic + 'e inbound" where
  "pump_turn payload q = (case queue q of
      [] \<Rightarrow> Inr (q\<lparr>queue := [], pumping := False, pump := Idle\<rparr>)
    | event # rest \<Rightarrow>
        and_then (Release (memory q) (int (payload event))) (\<lambda>mb.
        Inr (q\<lparr>queue := rest, queueBytes := queueBytes q - word_of_nat (payload event), memory := mb, pump := Sending event\<rparr>)))"

definition cleanup :: "('e \<Rightarrow> nat) \<Rightarrow> 'e inbound \<Rightarrow> panic + 'e inbound" where
  "cleanup payload q =
     and_then (release_all Release (memory q) (map (int \<circ> payload) (queue q))) (\<lambda>mb.
     Inr (q\<lparr>memory := mb, queue := [], queueBytes := 0, pumping := False, pump := Idle\<rparr>))"

section \<open>Runs\<close>

text \<open>A run keeps the events that were taken in and those the event loop took out.\<close>

record 'e run_state =
  backlog :: "'e inbound"
  taken :: "'e list"
  handed :: "'e list"
  foreign :: int

text \<open>Other flows hold \<open>foreign\<close> bytes of the budget, and acquire and release those.\<close>

definition others :: "('e \<Rightarrow> nat) \<Rightarrow> 'e inbound \<Rightarrow> int \<Rightarrow> budget option \<Rightarrow> bool" where
  "others payload q fb mb \<longleftrightarrow> 0 \<le> fb \<and> budget_exactly mb (sum_list (map (int \<circ> payload) (queue q)) + fb)"

inductive inbound_step :: "inbound_limits \<Rightarrow> ('e \<Rightarrow> nat) \<Rightarrow> 'e run_state \<Rightarrow> (panic + 'e run_state) \<Rightarrow> bool" for lim payload where
  Enqueued: "enqueueInbound lim payload event (backlog r) = (True, q) \<Longrightarrow>
    inbound_step lim payload r (Inr (r\<lparr>backlog := q, taken := taken r @ [event]\<rparr>))"
| Refused: "enqueueInbound lim payload event (backlog r) = (False, q) \<Longrightarrow>
    inbound_step lim payload r (Inr (r\<lparr>backlog := q\<rparr>))"
| Turned: "pump (backlog r) = Looping \<Longrightarrow> pump_turn payload (backlog r) = Inr q \<Longrightarrow>
    inbound_step lim payload r (Inr (r\<lparr>backlog := q\<rparr>))"
| Turn_panics: "pump (backlog r) = Looping \<Longrightarrow> pump_turn payload (backlog r) = Inl p \<Longrightarrow> inbound_step lim payload r (Inl p)"
| Published: "pump (backlog r) = Sending event \<Longrightarrow> length (channel (backlog r)) < channelSize lim \<Longrightarrow>
    inbound_step lim payload r (Inr (r\<lparr>backlog := (backlog r)\<lparr>channel := channel (backlog r) @ [event], pump := Looping\<rparr>\<rparr>))"
| Stopped: "pump (backlog r) = Sending event \<Longrightarrow> ended (backlog r) \<Longrightarrow> cleanup payload (backlog r) = Inr q \<Longrightarrow>
    inbound_step lim payload r (Inr (r\<lparr>backlog := q\<rparr>))"
| Stop_panics: "pump (backlog r) = Sending event \<Longrightarrow> ended (backlog r) \<Longrightarrow> cleanup payload (backlog r) = Inl p \<Longrightarrow>
    inbound_step lim payload r (Inl p)"
| Handed: "channel (backlog r) = event # rest \<Longrightarrow>
    inbound_step lim payload r (Inr (r\<lparr>backlog := (backlog r)\<lparr>channel := rest\<rparr>, handed := handed r @ [event]\<rparr>))"
| Ended: "inbound_step lim payload r (Inr (r\<lparr>backlog := (backlog r)\<lparr>ended := True\<rparr>\<rparr>))"
| Others: "others payload (backlog r) fb mb \<Longrightarrow>
    inbound_step lim payload r (Inr (r\<lparr>backlog := (backlog r)\<lparr>memory := mb\<rparr>, foreign := fb\<rparr>))"

inductive reachable :: "inbound_limits \<Rightarrow> ('e \<Rightarrow> nat) \<Rightarrow> 'e run_state \<Rightarrow> bool" for lim payload where
  start: "0 \<le> fb \<Longrightarrow> budget_exactly mb fb \<Longrightarrow>
    reachable lim payload \<lparr>backlog = new_inbound mb, taken = [], handed = [], foreign = fb\<rparr>"
| further: "reachable lim payload r \<Longrightarrow> inbound_step lim payload r (Inr r') \<Longrightarrow> reachable lim payload r'"

section \<open>The invariant\<close>

definition in_hand :: "'e pump \<Rightarrow> 'e list" where
  "in_hand p = (case p of Sending e \<Rightarrow> [e] | _ \<Rightarrow> [])"

definition total_of :: "('e \<Rightarrow> nat) \<Rightarrow> 'e list \<Rightarrow> nat" where
  "total_of payload es = sum_list (map payload es)"

lemma total_of_simps [simp]: "total_of payload [] = 0" "total_of payload (e # es) = payload e + total_of payload es"
    "total_of payload (es @ fs) = total_of payload es + total_of payload fs"
  by (simp_all add: total_of_def)

lemma int_total: "sum_list (map (int \<circ> payload) es) = int (total_of payload es)"
  by (induction es) auto

definition inbound_ok :: "inbound_limits \<Rightarrow> ('e \<Rightarrow> nat) \<Rightarrow> 'e run_state \<Rightarrow> bool" where
  "inbound_ok lim payload r \<longleftrightarrow> (let q = backlog r in
     (pumping q \<longleftrightarrow> pump q \<noteq> Idle) \<and> (pump q = Idle \<longrightarrow> queue q = []) \<and>
     unat (queueBytes q) = total_of payload (queue q) \<and> total_of payload (queue q) \<le> unat (maxBytes lim) \<and>
     length (queue q) \<le> maxFrames lim \<and> length (channel q) \<le> channelSize lim \<and>
     0 \<le> foreign r \<and> budget_exactly (memory q) (int (total_of payload (queue q)) + foreign r) \<and>
     (handed r @ channel q @ in_hand (pump q) @ queue q = taken r \<or> ended q \<and> pump q = Idle \<and> prefix (handed r @ channel q) (taken r)))"

text \<open>Payloads of a frame and limits as the code has them: their sum does not leave 64 bits.\<close>

definition limits_ok :: "inbound_limits \<Rightarrow> ('e \<Rightarrow> nat) \<Rightarrow> bool" where
  "limits_ok lim payload \<longleftrightarrow> unat (maxBytes lim) < 2 ^ 63 \<and> (\<forall>e. payload e < 2 ^ 63)"

lemma limits_word:
  fixes b :: u64
  assumes "limits_ok lim payload" and "unat b \<le> unat (maxBytes lim)"
  shows "unat (b + word_of_nat (payload e)) = unat b + payload e"
  proof (rule unat_add_nat_no_wrap)
  have "payload e < 2 ^ 63" "unat (maxBytes lim) < 2 ^ 63" using assms(1) unfolding limits_ok_def by blast+
  then show "unat b + payload e < 2 ^ LENGTH(64)" using assms(2) by simp
qed

lemma start_ok: "0 \<le> fb \<Longrightarrow> budget_exactly mb fb \<Longrightarrow>
    inbound_ok lim payload \<lparr>backlog = new_inbound mb, taken = [], handed = [], foreign = fb\<rparr>"
  by (simp add: inbound_ok_def new_inbound_def in_hand_def)

lemma enqueue_ok:
  assumes lim: "limits_ok lim payload" and ok: "inbound_ok lim payload r" and enq: "enqueueInbound lim payload e (backlog r) = (True, q)"
  shows "inbound_ok lim payload (r\<lparr>backlog := q, taken := taken r @ [e]\<rparr>)"
proof -
  let ?b = "backlog r"
  have live: "\<not> ended ?b" using enq by (auto simp: enqueueInbound_def)
  have fifo: "handed r @ channel ?b @ in_hand (pump ?b) @ queue ?b = taken r" using ok live by (auto simp: inbound_ok_def Let_def)
  show ?thesis
  proof (cases "\<not> pumping ?b \<and> length (channel ?b) < channelSize lim")
    case True
    then have q: "q = ?b\<lparr>channel := channel ?b @ [e]\<rparr>" using enq live by (simp add: enqueueInbound_def)
    have "pump ?b = Idle" "queue ?b = []" using True ok by (auto simp: inbound_ok_def Let_def)
    then show ?thesis using ok True fifo unfolding q inbound_ok_def by (auto simp: Let_def in_hand_def)
  next
    case False
    let ?n = "payload e"
    obtain mb where mb: "TryAcquire (memory ?b) (int ?n) = (True, mb)" and room: "\<not> queueBytes ?b + word_of_nat ?n > maxBytes lim" "length (queue ?b) < maxFrames lim"
        and q: "q = (let q = ?b\<lparr>memory := mb, queue := queue ?b @ [e], queueBytes := queueBytes ?b + word_of_nat ?n\<rparr> in
          if \<not> pumping ?b then q\<lparr>pumping := True, pump := Looping\<rparr> else q)"
      using enq live False unfolding enqueueInbound_def Let_def by (simp only: if_False if_not_P) (auto split: if_splits prod.splits bool.splits)
    have b: "unat (queueBytes ?b) = total_of payload (queue ?b)" "unat (queueBytes ?b) \<le> unat (maxBytes lim)"
      using ok by (auto simp: inbound_ok_def Let_def)
    then have sum: "unat (queueBytes ?b + word_of_nat ?n) = total_of payload (queue ?b @ [e])" using limits_word [OF lim b(2)] by simp
    then have "total_of payload (queue ?b @ [e]) \<le> unat (maxBytes lim)" using room(1) by (simp add: not_less word_le_nat_alt)
    moreover have "budget_exactly mb (int (total_of payload (queue ?b @ [e])) + foreign r)"
      using exact_budget.acquire_covers [of "memory ?b" "int (total_of payload (queue ?b)) + foreign r" "int ?n" mb] mb ok
      by (simp add: inbound_ok_def Let_def algebra_simps)
    moreover have "pump ?b = Idle \<Longrightarrow> queue ?b = []" using ok by (auto simp: inbound_ok_def Let_def)
    ultimately show ?thesis using ok fifo sum room(2) unfolding q inbound_ok_def
      by (cases "pumping ?b") (auto simp: Let_def in_hand_def)
  qed
qed

lemma refused_ok:
  assumes ok: "inbound_ok lim payload r" and enq: "enqueueInbound lim payload e (backlog r) = (False, q)"
  shows "inbound_ok lim payload (r\<lparr>backlog := q\<rparr>)"
proof -
  have "q = backlog r \<or> q = (backlog r)\<lparr>backlogError := True\<rparr>"
    using enq exact_budget.refuse_same [of "memory (backlog r)"]
    by (auto simp: enqueueInbound_def Let_def split: if_splits prod.splits bool.splits)
  then show ?thesis using ok by (auto simp: inbound_ok_def Let_def)
qed

lemma turn_ok:
  assumes ok: "inbound_ok lim payload r" and "pump (backlog r) = Looping"
  shows "\<exists>q. pump_turn payload (backlog r) = Inr q \<and> inbound_ok lim payload (r\<lparr>backlog := q\<rparr>)"
proof (cases "queue (backlog r)")
  case Nil
  then show ?thesis using ok assms(2) by (auto simp: pump_turn_def inbound_ok_def Let_def in_hand_def)
next
  case (Cons e rest)
  let ?b = "backlog r"
  have cov: "budget_exactly (memory ?b) ((int (total_of payload rest) + foreign r) + int (payload e))"
    using ok Cons by (simp add: inbound_ok_def Let_def algebra_simps)
  have "0 \<le> foreign r" using ok by (simp add: inbound_ok_def Let_def)
  then obtain mb where mb: "Release (memory ?b) (int (payload e)) = Inr mb" "budget_exactly mb (int (total_of payload rest) + foreign r)"
    using exact_budget.release_covered [OF cov] by auto
  have bytes: "unat (queueBytes ?b) = payload e + total_of payload rest" using ok Cons by (simp add: inbound_ok_def Let_def)
  have "(word_of_nat (payload e) :: u64) \<le> queueBytes ?b" using bytes by (simp add: word_le_nat_alt unat_of_nat take_bit_nat_less_eq_self order_trans [of _ "payload e"])
  moreover have "unat (word_of_nat (payload e) :: u64) = payload e"
    using bytes unat_u64_lt [of "queueBytes ?b"] by (intro unat_of_nat_small) simp
  ultimately have "unat (queueBytes ?b - word_of_nat (payload e)) = total_of payload rest" using bytes by (simp add: unat_sub_no_wrap)
  then show ?thesis using ok Cons assms(2) mb by (auto simp: pump_turn_def inbound_ok_def Let_def in_hand_def)
qed

lemma cleanup_ok:
  assumes ok: "inbound_ok lim payload r" and "pump (backlog r) = Sending e" and "ended (backlog r)"
  shows "\<exists>q. cleanup payload (backlog r) = Inr q \<and> inbound_ok lim payload (r\<lparr>backlog := q\<rparr>)"
proof -
  let ?b = "backlog r"
  have f: "0 \<le> foreign r" "budget_exactly (memory ?b) (foreign r + sum_list (map (int \<circ> payload) (queue ?b)))"
    using ok by (simp_all add: inbound_ok_def Let_def int_total algebra_simps)
  then obtain mb where mb: "release_all Release (memory ?b) (map (int \<circ> payload) (queue ?b)) = Inr mb" "budget_exactly mb (foreign r)"
    using exact_budget.release_all_covered [OF f(2,1)] by auto
  have "handed r @ channel ?b @ e # queue ?b = taken r" using ok assms(2) by (simp add: inbound_ok_def Let_def in_hand_def)
  then have "prefix (handed r @ channel ?b) (taken r)" by (metis append.assoc prefixI)
  then show ?thesis using ok mb assms(2,3) by (simp add: cleanup_def inbound_ok_def Let_def)
qed

lemma step_ok:
  assumes "limits_ok lim payload" and "inbound_ok lim payload r" and "inbound_step lim payload r res"
  shows "\<exists>r'. res = Inr r' \<and> inbound_ok lim payload r'"
  using assms(3)
proof (cases rule: inbound_step.cases)
  case (Enqueued e q)
  then show ?thesis using enqueue_ok [OF assms(1,2)] by blast
next
  case (Refused e q)
  then show ?thesis using refused_ok [OF assms(2)] by blast
next
  case (Turned q)
  then show ?thesis using turn_ok [OF assms(2)] by fastforce
next
  case (Turn_panics p)
  then show ?thesis using turn_ok [OF assms(2)] by fastforce
next
  case (Published e)
  then show ?thesis using assms(2) by (auto simp: inbound_ok_def Let_def in_hand_def)
next
  case (Stopped e q)
  then show ?thesis using cleanup_ok [OF assms(2)] by fastforce
next
  case (Stop_panics e p)
  then show ?thesis using cleanup_ok [OF assms(2)] by fastforce
next
  case (Handed e rest)
  then show ?thesis using assms(2) by (auto simp: inbound_ok_def Let_def)
next
  case Ended
  then show ?thesis using assms(2) by (auto simp: inbound_ok_def Let_def)
next
  case (Others fb mb)
  then show ?thesis using assms(2) by (auto simp: inbound_ok_def Let_def others_def int_total)
qed

lemma reachable_ok:
  assumes "limits_ok lim payload" and "reachable lim payload r"
  shows "inbound_ok lim payload r"
  using assms(2)
proof (induction rule: reachable.induct)
  case (start fb mb)
  then show ?case by (rule start_ok)
next
  case (further r r')
  then show ?case using step_ok [OF assms(1) further.IH further.hyps(2)] by auto
qed

section \<open>The properties\<close>

text \<open>C34. In every interleaving of lane readers, pump, event loop, other flows and the end of the flow, no
  release panics, the event loop gets the accepted events in the order they were accepted, none lost
  and none twice, what waits stays within the flow's limits, and the shared budget is charged exactly
  the payloads that wait; when the pump has stopped after the end nothing waits and nothing is charged.\<close>

theorem inbound_fifo_exact:
  assumes "limits_ok lim payload" and "reachable lim payload r"
  shows "(\<nexists>p. inbound_step lim payload r (Inl p)) \<and> prefix (handed r @ channel (backlog r)) (taken r) \<and>
    (\<not> ended (backlog r) \<longrightarrow> handed r @ channel (backlog r) @ in_hand (pump (backlog r)) @ queue (backlog r) = taken r) \<and>
    total_of payload (queue (backlog r)) \<le> unat (maxBytes lim) \<and> length (queue (backlog r)) \<le> maxFrames lim \<and>
    budget_exactly (memory (backlog r)) (int (total_of payload (queue (backlog r))) + foreign r) \<and>
    (pump (backlog r) = Idle \<longrightarrow> queue (backlog r) = [] \<and> \<not> pumping (backlog r))"
proof -
  have ok: "inbound_ok lim payload r" by (rule reachable_ok [OF assms])
  then have "\<nexists>p. inbound_step lim payload r (Inl p)" using step_ok [OF assms(1) ok] by blast
  moreover have "prefix (handed r @ channel (backlog r)) (taken r)"
    using ok unfolding inbound_ok_def Let_def by (metis append.assoc prefixI)
  ultimately show ?thesis using ok by (auto simp: inbound_ok_def Let_def)
qed

text \<open>The steps that bring accepted events to the event loop, and how many of them are left.\<close>

inductive serve :: "inbound_limits \<Rightarrow> ('e \<Rightarrow> nat) \<Rightarrow> 'e run_state \<Rightarrow> 'e run_state \<Rightarrow> bool" for lim payload where
  "pump (backlog r) = Looping \<Longrightarrow> pump_turn payload (backlog r) = Inr q \<Longrightarrow> serve lim payload r (r\<lparr>backlog := q\<rparr>)"
| "pump (backlog r) = Sending event \<Longrightarrow> length (channel (backlog r)) < channelSize lim \<Longrightarrow>
    serve lim payload r (r\<lparr>backlog := (backlog r)\<lparr>channel := channel (backlog r) @ [event], pump := Looping\<rparr>\<rparr>)"
| "channel (backlog r) = event # rest \<Longrightarrow>
    serve lim payload r (r\<lparr>backlog := (backlog r)\<lparr>channel := rest\<rparr>, handed := handed r @ [event]\<rparr>)"

definition distance :: "'e run_state \<Rightarrow> nat" where
  "distance r = 4 * length (queue (backlog r)) + length (channel (backlog r)) +
     (case pump (backlog r) of Idle \<Rightarrow> 0 | Looping \<Rightarrow> 1 | Sending _ \<Rightarrow> 3)"

lemma serve_steps: "serve lim payload r r' \<Longrightarrow> inbound_step lim payload r (Inr r')"
  by (induction rule: serve.induct) (auto intro: inbound_step.intros)

lemma serve_closer: "serve lim payload r r' \<Longrightarrow> distance r' < distance r \<and> taken r' = taken r \<and> ended (backlog r') = ended (backlog r)"
proof (induction rule: serve.induct)
  case (1 r q)
  then show ?case by (cases "queue (backlog r)") (auto simp: pump_turn_def distance_def and_then_eq_Inr)
qed (auto simp: distance_def)

lemma serve_possible:
  assumes "limits_ok lim payload" and "inbound_ok lim payload r" and "\<not> ended (backlog r)" and "0 < channelSize lim" and "handed r \<noteq> taken r"
  shows "\<exists>r'. serve lim payload r r'"
proof (cases "channel (backlog r)")
  case (Cons e rest)
  then show ?thesis by (blast intro: serve.intros(3))
next
  case Nil
  show ?thesis
  proof (cases "pump (backlog r)")
    case Idle
    then show ?thesis using assms(2,3,5) Nil by (auto simp: inbound_ok_def Let_def in_hand_def)
  next
    case Looping
    then show ?thesis using turn_ok [OF assms(2)] by (blast intro: serve.intros(1))
  next
    case (Sending e)
    then have "length (channel (backlog r)) < channelSize lim" using Nil assms(4) by simp
    then show ?thesis using serve.intros(2) [OF Sending] by blast
  qed
qed

text \<open>C35. While the flow has not ended, every accepted event reaches the event loop: turns of the pump, its
  sends and the event loop's receives can always go on until everything accepted is handed on, and
  there are at most as many of them as the distance counts.\<close>

theorem inbound_all_delivered:
  assumes "limits_ok lim payload" and "reachable lim payload r" and "\<not> ended (backlog r)" and "0 < channelSize lim"
    and "(serve lim payload ^^ n) r r'"
  shows "n \<le> distance r \<and> taken r' = taken r \<and> reachable lim payload r' \<and>
    ((\<nexists>r''. serve lim payload r' r'') \<longrightarrow> handed r' = taken r)"
proof -
  have "n + distance r' \<le> distance r \<and> taken r' = taken r \<and> reachable lim payload r' \<and> \<not> ended (backlog r')"
    using assms(5)
  proof (induction n arbitrary: r')
    case 0
    then show ?case using assms(2,3) by simp
  next
    case (Suc n)
    then obtain r1 where r1: "(serve lim payload ^^ n) r r1" "serve lim payload r1 r'" by auto
    show ?case using Suc.IH [OF r1(1)] serve_closer [OF r1(2)] reachable.further [OF _ serve_steps [OF r1(2)]] by auto
  qed
  then show ?thesis using serve_possible [OF assms(1) reachable_ok [OF assms(1)] _ assms(4), of r'] by fastforce
qed

text \<open>A flow with room for one event in the channel and two in the backlog, and three events of 10 bytes.\<close>

definition small_limits :: inbound_limits where
  "small_limits = \<lparr>maxBytes = 40, maxFrames = 2, channelSize = 1\<rparr>"

definition small_run :: "nat list \<Rightarrow> nat run_state" where
  "small_run es = \<lparr>backlog = (snd (fold (\<lambda>e (_, q). enqueueInbound small_limits (\<lambda>_. 10) e q) es
     (True, new_inbound (new_budget 100)))), taken = es, handed = [], foreign = 0\<rparr>"

lemma small_reachable: "limits_ok small_limits (\<lambda>_ :: nat. 10)" "reachable small_limits (\<lambda>_ :: nat. 10) (small_run [1, 2, 3])"
proof -
  show "limits_ok small_limits (\<lambda>_ :: nat. 10)" by (simp add: limits_ok_def small_limits_def)
  have s: "reachable small_limits (\<lambda>_ :: nat. 10) (small_run [])"
    using reachable.start [of 0 "new_budget 100" small_limits "\<lambda>_. 10"] by (simp add: small_run_def budget_exactly_def new_budget_def)
  have step: "reachable small_limits (\<lambda>_. 10) (small_run (es @ [e]))"
    if "reachable small_limits (\<lambda>_. 10) (small_run es)" "fst (enqueueInbound small_limits (\<lambda>_. 10) e (backlog (small_run es)))" for es e
  proof -
    have "enqueueInbound small_limits (\<lambda>_. 10) e (backlog (small_run es)) = (True, backlog (small_run (es @ [e])))"
      using that(2) by (simp add: small_run_def prod_eq_iff case_prod_unfold)
    from reachable.further [OF that(1) inbound_step.Enqueued [OF this]] show ?thesis by (simp add: small_run_def)
  qed
  have "fst (enqueueInbound small_limits (\<lambda>_. 10) 1 (backlog (small_run [])))"
      "fst (enqueueInbound small_limits (\<lambda>_. 10) 2 (backlog (small_run [1])))"
      "fst (enqueueInbound small_limits (\<lambda>_. 10) 3 (backlog (small_run [1, 2])))" by code_simp+
  then show "reachable small_limits (\<lambda>_ :: nat. 10) (small_run [1, 2, 3])"
    using step [of "[]" 1] step [of "[1]" 2] step [of "[1, 2]" 3] s by simp
qed

theorem inbound_fifo_exact_witness:
  "prefix (handed (small_run [1, 2, 3]) @ channel (backlog (small_run [1, 2, 3]))) (taken (small_run [1, 2, 3]))"
  using inbound_fifo_exact [OF small_reachable] by blast

theorem inbound_all_delivered_witness:
  "\<exists>r'. serve small_limits (\<lambda>_. 10) (small_run [1, 2, 3]) r' \<and> handed r' = [1] \<and> 1 \<le> distance (small_run [1, 2, 3]) \<and>
    taken r' = taken (small_run [1, 2, 3]) \<and> reachable small_limits (\<lambda>_. 10) r'"
proof -
  have e: "\<not> ended (backlog (small_run [1, 2, 3]))" and h: "handed (small_run [1, 2, 3]) = []" by code_simp+
  have c: "channel (backlog (small_run [1, 2, 3])) = [1]" by code_simp
  have s: "0 < channelSize small_limits" by (simp add: small_limits_def)
  obtain r' where r': "serve small_limits (\<lambda>_. 10) (small_run [1, 2, 3]) r'" "handed r' = [1]"
    using serve.intros(3) [OF c, of small_limits "\<lambda>_. 10"] h by auto
  have "(serve small_limits (\<lambda>_. 10) ^^ 1) (small_run [1, 2, 3]) r'" using r'(1) by (simp add: eq_OO)
  from inbound_all_delivered [OF small_reachable e s this] r' show ?thesis by blast
qed

end
