(* ===== verification/Pipe.thy ===== *)
theory Pipe
  imports Prelude "HOL-Library.Sublist"
begin

text \<open>
  \<^verbatim>\<open>queqiao/internal/pep/pipe.go\<close>: the in-memory connection between the proxy and a flow, one direction of
  it; the other direction is the same state with the ends exchanged. A direction is a channel of up to
  64 chunks and the tail of a chunk the reader's buffer could not hold. Every \<^verbatim>\<open>select\<close> is a step: \<open>Read\<close> and
  \<open>Write\<close> are the phases between their selects, and where several cases of a select are ready an
  argument says which one Go picks. \<^verbatim>\<open>readMu\<close> admits one reader, any number of writers may be under way.
\<close>

section \<open>State\<close>

definition streamPipeChunks :: nat where [cfg_defs]: "streamPipeChunks = 64"

datatype read_result = Data bytes | ReadEOF | ReadClosed | ReadDeadline
datatype write_result = Written bytes | WriteClosed | WriteDeadline

text \<open>A reader with a buffer of \<open>n\<close> bytes: at the head of its loop, past the closure check, blocked in the
  last select, or having seen the peer's end.\<close>

datatype reader = NoReader | AtHead nat | Draining nat | Blocked nat | SawEnd nat

text \<open>A writer: its chunk copied, or blocked in the second select.\<close>

datatype writer = NoWriter | Trying bytes | Waiting bytes

record direction =
  chunks :: "bytes list"
  unread :: bytes
  writeDone :: bool \<comment> \<open>the writing end was half-closed: its \<^verbatim>\<open>localWriteDone\<close>\<close>
  writerDone :: bool \<comment> \<open>the writing end was closed: its \<^verbatim>\<open>localDone\<close>\<close>
  readerDone :: bool \<comment> \<open>the reading end was closed\<close>
  readExpired :: bool
  writeExpired :: bool

definition newStreamPipe :: direction where
  "newStreamPipe = \<lparr>chunks = [], unread = [], writeDone = False, writerDone = False, readerDone = False, readExpired = False, writeExpired = False\<rparr>"

section \<open>Reading\<close>

definition deliverChunk :: "nat \<Rightarrow> bytes \<Rightarrow> direction \<Rightarrow> read_result \<times> direction" where
  "deliverChunk n chunk d = (Data (take n chunk), if n < length chunk then d\<lparr>unread := drop n chunk\<rparr> else d)"

text \<open>A phase ends with a result or leads to another; \<open>None\<close> when the case picked is not ready.\<close>

definition read_enter :: "nat \<Rightarrow> direction \<Rightarrow> (reader + read_result) \<times> direction" where
  "read_enter n d =
     (if length (unread d) > 0 then (Inr (Data (take n (unread d))), d\<lparr>unread := drop n (unread d)\<rparr>)
      else (Inl (AtHead n), d))"

datatype pick = PickChunk | PickWriteDone | PickRemoteDone | PickLocalDone | PickDeadline | PickDefault

definition take_chunk :: "nat \<Rightarrow> direction \<Rightarrow> ((reader + read_result) \<times> direction) option" where
  "take_chunk n d = (case chunks d of
      [] \<Rightarrow> None
    | c # cs \<Rightarrow> (case deliverChunk n c (d\<lparr>chunks := cs\<rparr>) of (r, d) \<Rightarrow> Some (Inr r, d)))"

definition read_head :: "pick \<Rightarrow> nat \<Rightarrow> direction \<Rightarrow> ((reader + read_result) \<times> direction) option" where
  "read_head p n d = (case p of
      PickLocalDone \<Rightarrow> if readerDone d then Some (Inr ReadClosed, d) else None
    | PickDeadline \<Rightarrow> if readExpired d then Some (Inr ReadDeadline, d) else None
    | PickDefault \<Rightarrow> if readerDone d \<or> readExpired d then None else Some (Inl (Draining n), d)
    | _ \<Rightarrow> None)"

definition read_drain :: "nat \<Rightarrow> direction \<Rightarrow> (reader + read_result) \<times> direction" where
  "read_drain n d = (case take_chunk n d of Some res \<Rightarrow> res | None \<Rightarrow> (Inl (Blocked n), d))"

definition read_blocked :: "pick \<Rightarrow> nat \<Rightarrow> direction \<Rightarrow> ((reader + read_result) \<times> direction) option" where
  "read_blocked p n d = (case p of
      PickChunk \<Rightarrow> take_chunk n d
    | PickWriteDone \<Rightarrow> if writeDone d then Some (Inl (SawEnd n), d) else None
    | PickRemoteDone \<Rightarrow> if writerDone d then Some (Inl (SawEnd n), d) else None
    | PickLocalDone \<Rightarrow> if readerDone d then Some (Inr ReadClosed, d) else None
    | PickDeadline \<Rightarrow> if readExpired d then Some (Inr ReadDeadline, d) else None
    | PickDefault \<Rightarrow> None)"

definition read_end :: "nat \<Rightarrow> direction \<Rightarrow> (reader + read_result) \<times> direction" where
  "read_end n d = (case take_chunk n d of Some res \<Rightarrow> res | None \<Rightarrow> (Inr ReadEOF, d))"

section \<open>Writing\<close>

definition write_enter :: "pick \<Rightarrow> bytes \<Rightarrow> direction \<Rightarrow> (writer + write_result) option" where
  "write_enter p b d = (case p of
      PickLocalDone \<Rightarrow> if writerDone d then Some (Inr WriteClosed) else None
    | PickWriteDone \<Rightarrow> if writeDone d then Some (Inr WriteClosed) else None
    | PickRemoteDone \<Rightarrow> if readerDone d then Some (Inr WriteClosed) else None
    | PickDeadline \<Rightarrow> if writeExpired d then Some (Inr WriteDeadline) else None
    | PickDefault \<Rightarrow>
        if writerDone d \<or> writeDone d \<or> readerDone d \<or> writeExpired d then None
        else if length b = 0 then Some (Inr (Written [])) else Some (Inl (Trying b))
    | PickChunk \<Rightarrow> None)"

definition send_chunk :: "bytes \<Rightarrow> direction \<Rightarrow> ((writer + write_result) \<times> direction) option" where
  "send_chunk b d = (if length (chunks d) < streamPipeChunks then Some (Inr (Written b), d\<lparr>chunks := chunks d @ [b]\<rparr>) else None)"

definition write_try :: "bytes \<Rightarrow> direction \<Rightarrow> (writer + write_result) \<times> direction" where
  "write_try b d = (case send_chunk b d of Some res \<Rightarrow> res | None \<Rightarrow> (Inl (Waiting b), d))"

definition write_blocked :: "pick \<Rightarrow> bytes \<Rightarrow> direction \<Rightarrow> ((writer + write_result) \<times> direction) option" where
  "write_blocked p b d = (case p of
      PickChunk \<Rightarrow> send_chunk b d
    | PickRemoteDone \<Rightarrow> if readerDone d then Some (Inr WriteClosed, d) else None
    | PickWriteDone \<Rightarrow> if writeDone d then Some (Inr WriteClosed, d) else None
    | PickLocalDone \<Rightarrow> if writerDone d then Some (Inr WriteClosed, d) else None
    | PickDeadline \<Rightarrow> if writeExpired d then Some (Inr WriteDeadline, d) else None
    | PickDefault \<Rightarrow> None)"

section \<open>Closing\<close>

definition pipe_CloseWrite :: "direction \<Rightarrow> direction" where
  "pipe_CloseWrite d = d\<lparr>writeDone := True\<rparr>"

text \<open>\<^verbatim>\<open>Close\<close> of the writing and of the reading end.\<close>

definition close_writer :: "direction \<Rightarrow> direction" where
  "close_writer d = d\<lparr>writerDone := True\<rparr>"

definition close_reader :: "direction \<Rightarrow> direction" where
  "close_reader d = d\<lparr>readerDone := True\<rparr>"

section \<open>Runs\<close>

record ('w) pipe_run =
  dir :: direction
  reading :: reader
  writing :: "'w \<Rightarrow> writer"
  sent :: bytes
  received :: bytes

datatype label = Silent | ReadReturns read_result | WriteReturns write_result

text \<open>A phase of the reader or of writer \<open>w\<close> that led to \<open>res\<close>.\<close>

definition read_to :: "(reader + read_result) \<times> direction \<Rightarrow> 'w pipe_run \<Rightarrow> label \<times> 'w pipe_run" where
  "read_to res s = (case res of
      (Inl r, d) \<Rightarrow> (Silent, s\<lparr>dir := d, reading := r\<rparr>)
    | (Inr v, d) \<Rightarrow> (ReadReturns v, s\<lparr>dir := d, reading := NoReader,
        received := received s @ (case v of Data b \<Rightarrow> b | _ \<Rightarrow> [])\<rparr>))"

definition write_to :: "'w \<Rightarrow> (writer + write_result) \<times> direction \<Rightarrow> 'w pipe_run \<Rightarrow> label \<times> 'w pipe_run" where
  "write_to w res s = (case res of
      (Inl x, d) \<Rightarrow> (Silent, s\<lparr>dir := d, writing := (writing s)(w := x)\<rparr>)
    | (Inr v, d) \<Rightarrow> (WriteReturns v, s\<lparr>dir := d, writing := (writing s)(w := NoWriter),
        sent := sent s @ (case v of Written b \<Rightarrow> b | _ \<Rightarrow> [])\<rparr>))"

inductive pipe_step :: "'w pipe_run \<Rightarrow> label \<Rightarrow> 'w pipe_run \<Rightarrow> bool" where
  Read: "reading s = NoReader \<Longrightarrow> read_to (read_enter n (dir s)) s = (l, s') \<Longrightarrow> pipe_step s l s'"
| Head: "reading s = AtHead n \<Longrightarrow> read_head p n (dir s) = Some res \<Longrightarrow> read_to res s = (l, s') \<Longrightarrow> pipe_step s l s'"
| Drain: "reading s = Draining n \<Longrightarrow> read_to (read_drain n (dir s)) s = (l, s') \<Longrightarrow> pipe_step s l s'"
| Block: "reading s = Blocked n \<Longrightarrow> read_blocked p n (dir s) = Some res \<Longrightarrow> read_to res s = (l, s') \<Longrightarrow> pipe_step s l s'"
| End: "reading s = SawEnd n \<Longrightarrow> read_to (read_end n (dir s)) s = (l, s') \<Longrightarrow> pipe_step s l s'"
| Write: "writing s w = NoWriter \<Longrightarrow> write_enter p b (dir s) = Some x \<Longrightarrow> write_to w (x, dir s) s = (l, s') \<Longrightarrow> pipe_step s l s'"
| Try: "writing s w = Trying b \<Longrightarrow> write_to w (write_try b (dir s)) s = (l, s') \<Longrightarrow> pipe_step s l s'"
| Wait: "writing s w = Waiting b \<Longrightarrow> write_blocked p b (dir s) = Some res \<Longrightarrow> write_to w res s = (l, s') \<Longrightarrow> pipe_step s l s'"
| CloseWrite: "pipe_step s Silent (s\<lparr>dir := pipe_CloseWrite (dir s)\<rparr>)"
| CloseWriter: "pipe_step s Silent (s\<lparr>dir := close_writer (dir s)\<rparr>)"
| CloseReader: "pipe_step s Silent (s\<lparr>dir := close_reader (dir s)\<rparr>)"
| Deadlines: "pipe_step s Silent (s\<lparr>dir := (dir s)\<lparr>readExpired := r, writeExpired := w\<rparr>\<rparr>)"

definition start_run :: "'w pipe_run" where
  "start_run = \<lparr>dir = newStreamPipe, reading = NoReader, writing = \<lambda>_. NoWriter, sent = [], received = []\<rparr>"

inductive pipe_reachable :: "'w pipe_run \<Rightarrow> bool" where
  start: "pipe_reachable start_run"
| further: "pipe_reachable s \<Longrightarrow> pipe_step s l s' \<Longrightarrow> pipe_reachable s'"

section \<open>The invariant\<close>

text \<open>A reader past its first check has no unread tail, and one that saw the end saw it.\<close>

definition pipe_ok :: "'w pipe_run \<Rightarrow> bool" where
  "pipe_ok s \<longleftrightarrow> received s @ unread (dir s) @ concat (chunks (dir s)) = sent s \<and> length (chunks (dir s)) \<le> 64 \<and>
     [] \<notin> set (chunks (dir s)) \<and> (reading s \<noteq> NoReader \<longrightarrow> unread (dir s) = []) \<and>
     (\<forall>n. reading s = SawEnd n \<longrightarrow> writeDone (dir s) \<or> writerDone (dir s)) \<and>
     (\<forall>w. writing s w \<noteq> Trying [] \<and> writing s w \<noteq> Waiting [])"

lemma take_chunk_ok:
  assumes "take_chunk n d = Some (r, d')" and "unread d = []" and "[] \<notin> set (chunks d)"
  shows "\<exists>b. r = Inr (Data b) \<and> b @ unread d' @ concat (chunks d') = concat (chunks d) \<and> length (chunks d') < length (chunks d) \<and>
    [] \<notin> set (chunks d')"
  using assms by (auto simp: take_chunk_def deliverChunk_def split: list.splits if_splits)

definition reader_ok :: "reader \<Rightarrow> direction \<Rightarrow> bool" where
  "reader_ok x d \<longleftrightarrow> (x \<noteq> NoReader \<longrightarrow> unread d = []) \<and> (\<forall>n. x = SawEnd n \<longrightarrow> writeDone d \<or> writerDone d)"

lemma read_moves:
  assumes "pipe_ok s" and "read_to (Inl x, dir s) s = (l, s')" and "reader_ok x (dir s)"
  shows "pipe_ok s'"
  using assms unfolding read_to_def pipe_ok_def reader_ok_def by auto

lemma read_gives:
  assumes "pipe_ok s" and "read_to (Inr (Data b), d') s = (l, s')"
    and "b @ unread d' @ concat (chunks d') = unread (dir s) @ concat (chunks (dir s))"
    and "length (chunks d') \<le> 64" and "[] \<notin> set (chunks d')"
  shows "pipe_ok s'"
  using assms unfolding read_to_def pipe_ok_def by auto

lemma read_stops:
  assumes "pipe_ok s" and "read_to (Inr v, dir s) s = (l, s')" and "\<And>b. v \<noteq> Data b"
  shows "pipe_ok s'"
  using assms(1,2,3) unfolding read_to_def pipe_ok_def by (cases v) auto

lemma read_takes:
  assumes ok: "pipe_ok s" and "reading s \<noteq> NoReader" and t: "take_chunk n (dir s) = Some (r, d')"
    and to: "read_to (r, d') s = (l, s')"
  shows "pipe_ok s'"
proof -
  have u: "unread (dir s) = []" "[] \<notin> set (chunks (dir s))" "length (chunks (dir s)) \<le> 64"
    using ok assms(2) by (auto simp: pipe_ok_def)
  obtain b where b: "r = Inr (Data b)" "b @ unread d' @ concat (chunks d') = concat (chunks (dir s))"
    "length (chunks d') < length (chunks (dir s))" "[] \<notin> set (chunks d')"
    using take_chunk_ok [OF t u(1,2)] by blast
  show ?thesis by (rule read_gives [OF ok to [unfolded b(1)]]) (use b u in auto)
qed

lemma read_blocked_cases:
  assumes "read_blocked p n d = Some res"
  shows "take_chunk n d = Some res \<or> res = (Inl (SawEnd n), d) \<and> (writeDone d \<or> writerDone d) \<or>
    (\<exists>v. res = (Inr v, d) \<and> (\<forall>b. v \<noteq> Data b))"
  using assms by (cases p) (simp_all add: read_blocked_def split: if_splits, blast+)

lemma pipe_step_ok:
  assumes "pipe_step s l s'" and "pipe_ok s"
  shows "pipe_ok s'"
  using assms
proof (induction rule: pipe_step.induct)
  case (Read s n l s')
  show ?case
  proof (cases "length (unread (dir s)) > 0")
    case True
    with Read(2) show ?thesis
      by (intro read_gives [OF Read(3), where b = "take n (unread (dir s))"]) (use Read(3) in \<open>auto simp: read_enter_def pipe_ok_def\<close>)
  next
    case False
    with Read(2) show ?thesis
      by (intro read_moves [OF Read(3), where x = "AtHead n"]) (auto simp: read_enter_def reader_ok_def)
  qed
next
  case (Head s n p res l s')
  have u: "unread (dir s) = []" using Head(1,4) by (auto simp: pipe_ok_def)
  consider "res = (Inl (Draining n), dir s)" | v where "res = (Inr v, dir s)" "\<And>b. v \<noteq> Data b"
    using Head(2) by (cases p) (auto simp: read_head_def split: if_splits)
  then show ?case
  proof cases
    case 1
    then show ?thesis using Head(3) u by (intro read_moves [OF Head(4)]) (auto simp: reader_ok_def)
  next
    case 2
    then show ?thesis using Head(3) by (intro read_stops [OF Head(4), of v]) auto
  qed
next
  case (Drain s n l s')
  show ?case
  proof (cases "take_chunk n (dir s)")
    case None
    then show ?thesis using Drain
      by (intro read_moves [OF Drain(3), of "Blocked n"]) (auto simp: read_drain_def reader_ok_def pipe_ok_def)
  next
    case (Some res)
    then show ?thesis using Drain by (intro read_takes [OF Drain(3), of n "fst res" "snd res"]) (auto simp: read_drain_def)
  qed
next
  case (Block s n p res l s')
  have u: "unread (dir s) = []" using Block(1,4) by (auto simp: pipe_ok_def)
  consider "take_chunk n (dir s) = Some (fst res, snd res)"
    | "res = (Inl (SawEnd n), dir s)" "writeDone (dir s) \<or> writerDone (dir s)"
    | v where "res = (Inr v, dir s)" "\<And>b. v \<noteq> Data b"
    using read_blocked_cases [OF Block(2)] by (metis prod.collapse)
  then show ?case
  proof cases
    case 1
    then show ?thesis using Block by (intro read_takes [OF Block(4), of n "fst res" "snd res"]) auto
  next
    case 2
    then show ?thesis using Block(3) u by (intro read_moves [OF Block(4)]) (auto simp: reader_ok_def)
  next
    case 3
    then show ?thesis using Block(3) by (intro read_stops [OF Block(4), of v]) auto
  qed
next
  case (End s n l s')
  show ?case
  proof (cases "take_chunk n (dir s)")
    case None
    then show ?thesis using End by (intro read_stops [OF End(3), of ReadEOF]) (auto simp: read_end_def)
  next
    case (Some res)
    then show ?thesis using End by (intro read_takes [OF End(3), of n "fst res" "snd res"]) (auto simp: read_end_def)
  qed
next
  case (Write s w p b x l s')
  then show ?case by (auto simp: write_to_def write_enter_def pipe_ok_def split: pick.splits if_splits)
next
  case (Try s w b l s')
  then have "b \<noteq> []" by (metis pipe_ok_def)
  then show ?case using Try
    by (auto simp: write_to_def write_try_def send_chunk_def streamPipeChunks_def pipe_ok_def split: if_splits option.splits)
next
  case (Wait s w b p res l s')
  then have "b \<noteq> []" by (metis pipe_ok_def)
  then show ?case using Wait
    by (auto simp: write_to_def write_blocked_def send_chunk_def streamPipeChunks_def pipe_ok_def split: pick.splits if_splits)
qed (auto simp: pipe_ok_def pipe_CloseWrite_def close_writer_def close_reader_def)

lemma pipe_reachable_ok: "pipe_reachable s \<Longrightarrow> pipe_ok s"
proof (induction rule: pipe_reachable.induct)
  case start
  then show ?case by (simp add: start_run_def newStreamPipe_def pipe_ok_def)
next
  case (further s l s')
  then show ?case by (blast intro: pipe_step_ok)
qed

section \<open>The stream\<close>

lemma eof_after_all:
  assumes "pipe_ok s" and "pipe_step s (ReadReturns ReadEOF) s'"
  shows "received s = sent s \<and> (writeDone (dir s) \<or> writerDone (dir s)) \<and> dir s' = dir s"
  using assms(2)
proof (cases rule: pipe_step.cases)
  case (End n)
  have t: "take_chunk n (dir s) = None"
    using End(2) by (auto simp: read_end_def read_to_def take_chunk_def deliverChunk_def split: option.splits list.splits if_splits)
  then have "chunks (dir s) = []" by (auto simp: take_chunk_def deliverChunk_def split: list.splits)
  moreover have "dir s' = dir s" using End(2) t by (auto simp: read_end_def read_to_def)
  ultimately show ?thesis using assms(1) End(1) by (auto simp: pipe_ok_def)
qed (auto simp: read_to_def write_to_def read_enter_def read_head_def read_drain_def read_blocked_def take_chunk_def
  deliverChunk_def split: prod.splits if_splits pick.splits option.splits list.splits sum.splits)

lemma step_traffic:
  assumes "pipe_step s l s'"
  shows "received s' = received s @ (case l of ReadReturns (Data b) \<Rightarrow> b | _ \<Rightarrow> [])"
    and "sent s' = sent s @ (case l of WriteReturns (Written b) \<Rightarrow> b | _ \<Rightarrow> [])"
  using assms by (cases rule: pipe_step.cases; auto simp: read_to_def write_to_def split: prod.splits sum.splits)+

text \<open>C36. Whatever is written, read, closed and interrupted by deadlines, in any interleaving of one reader and
  any number of writers: the bytes the reads returned, then the kept tail, then the queued chunks, are the bytes
  the writes accepted, in the order they were accepted; at most 64 chunks queue and none is empty, so no read
  returns nothing for an empty write; and a read reports the end only when every accepted byte was read and the
  peer closed its direction.\<close>

theorem pipe_stream_exact:
  assumes "pipe_reachable s"
  shows "received s @ unread (dir s) @ concat (chunks (dir s)) = sent s \<and> length (chunks (dir s)) \<le> streamPipeChunks \<and>
    [] \<notin> set (chunks (dir s)) \<and>
    (\<forall>l s'. pipe_step s l s' \<longrightarrow>
      received s' = received s @ (case l of ReadReturns (Data b) \<Rightarrow> b | _ \<Rightarrow> []) \<and>
      sent s' = sent s @ (case l of WriteReturns (Written b) \<Rightarrow> b | _ \<Rightarrow> []) \<and>
      (l = ReadReturns ReadEOF \<longrightarrow> received s = sent s \<and> (writeDone (dir s) \<or> writerDone (dir s))))"
proof -
  have ok: "pipe_ok s" by (rule pipe_reachable_ok [OF assms])
  then have "received s @ unread (dir s) @ concat (chunks (dir s)) = sent s \<and> length (chunks (dir s)) \<le> streamPipeChunks \<and>
      [] \<notin> set (chunks (dir s))"
    by (simp add: pipe_ok_def streamPipeChunks_def)
  moreover have "received s = sent s \<and> (writeDone (dir s) \<or> writerDone (dir s))"
    if "pipe_step s l s'" "l = ReadReturns ReadEOF" for l s'
    using eof_after_all [OF ok] that by blast
  ultimately show ?thesis using step_traffic [of s] by blast
qed

section \<open>The end of the stream\<close>

inductive pipe_steps :: "'w pipe_run \<Rightarrow> label list \<Rightarrow> 'w pipe_run \<Rightarrow> bool" where
  none: "pipe_steps s [] s"
| one: "pipe_step s l s' \<Longrightarrow> pipe_steps s' ls s'' \<Longrightarrow> pipe_steps s (l # ls) s''"

lemma steps_reachable: "pipe_steps s ls s' \<Longrightarrow> pipe_reachable s \<Longrightarrow> pipe_reachable s'"
  by (induction rule: pipe_steps.induct) (auto intro: further)

definition ended :: "'w pipe_run \<Rightarrow> bool" where
  "ended s \<longleftrightarrow> (writeDone (dir s) \<or> writerDone (dir s)) \<and> (\<forall>w. writing s w = NoWriter)"

definition closed_now :: "direction \<Rightarrow> bool" where
  "closed_now d \<longleftrightarrow> writeDone d \<or> writerDone d"

lemma take_chunk_closed: "take_chunk n d = Some res \<Longrightarrow> closed_now (snd res) = closed_now d"
  by (cases "chunks d") (auto simp: take_chunk_def deliverChunk_def closed_now_def split: if_splits)

lemma read_closed:
  "closed_now (snd (read_enter n d)) = closed_now d"
  "read_head p n d = Some res \<Longrightarrow> closed_now (snd res) = closed_now d"
  "closed_now (snd (read_drain n d)) = closed_now d"
  "closed_now (snd (read_end n d)) = closed_now d"
     apply (simp add: read_enter_def closed_now_def)
    apply (cases p; simp add: read_head_def split: if_splits; auto)
   apply (simp add: read_drain_def take_chunk_closed split: option.splits)
  apply (simp add: read_end_def take_chunk_closed split: option.splits)
  done

lemma read_blocked_closed: "read_blocked p n d = Some res \<Longrightarrow> closed_now (snd res) = closed_now d"
  using read_blocked_cases [of p n d res] take_chunk_closed [of n d res] by auto

lemma read_to_parts: "read_to res s = (l, s') \<Longrightarrow> dir s' = snd res \<and> writing s' = writing s \<and> sent s' = sent s"
  by (cases res; cases "fst res") (auto simp: read_to_def)

lemma write_enter_closed: "write_enter p b d = Some x \<Longrightarrow> closed_now d \<Longrightarrow> x = Inr WriteClosed \<or> x = Inr WriteDeadline"
  by (cases p) (auto simp: write_enter_def closed_now_def split: if_splits)

lemma ended_alt: "ended s \<longleftrightarrow> closed_now (dir s) \<and> (\<forall>w. writing s w = NoWriter)"
  by (simp add: ended_def closed_now_def)

lemma ended_step:
  assumes "pipe_step s l s'" and e: "ended s"
  shows "ended s' \<and> sent s' = sent s"
  using assms(1)
proof (cases rule: pipe_step.cases)
  case (Write w p b x)
  have "x = Inr WriteClosed \<or> x = Inr WriteDeadline"
    using write_enter_closed [OF Write(2)] e by (simp add: ended_alt)
  then show ?thesis using Write(3) e by (auto simp: ended_alt write_to_def)
next
  case (Read n)
  then show ?thesis using read_to_parts [OF Read(2)] e read_closed(1) by (simp add: ended_alt)
next
  case (Head n p res)
  then show ?thesis using read_to_parts [OF Head(3)] e read_closed(2) by (simp add: ended_alt)
next
  case (Drain n)
  then show ?thesis using read_to_parts [OF Drain(2)] e read_closed(3) by (simp add: ended_alt)
next
  case (Block n p res)
  then show ?thesis using read_to_parts [OF Block(3)] e read_blocked_closed by (simp add: ended_alt)
next
  case (End n)
  then show ?thesis using read_to_parts [OF End(2)] e read_closed(4) by (simp add: ended_alt)
qed (use e in \<open>auto simp: ended_alt closed_now_def pipe_CloseWrite_def close_writer_def close_reader_def\<close>)

lemma ended_steps: "pipe_steps s ls s' \<Longrightarrow> ended s \<Longrightarrow> ended s' \<and> sent s' = sent s"
  by (induction rule: pipe_steps.induct) (use ended_step in blast, metis ended_step)

lemma received_grows: "pipe_steps s ls s' \<Longrightarrow> \<exists>more. received s' = received s @ more"
proof (induction rule: pipe_steps.induct)
  case (one s l s' ls s'')
  then show ?case using step_traffic(1) [OF one(1)] by force
qed simp

text \<open>The end is final: once a read reported the end and no write was under way, no later run of reads,
  writes, closes and deadlines delivers or accepts a byte.\<close>

theorem pipe_end_final:
  assumes "pipe_reachable s" and "pipe_step s (ReadReturns ReadEOF) s'" and "\<And>w. writing s w = NoWriter"
    and "pipe_steps s' ls s''"
  shows "sent s'' = sent s \<and> received s'' = received s \<and> received s = sent s"
proof -
  have e: "received s = sent s" "writeDone (dir s) \<or> writerDone (dir s)"
    using eof_after_all [OF pipe_reachable_ok [OF assms(1)] assms(2)] by auto
  have "ended s" using e(2) assms(3) by (simp add: ended_def)
  then have s': "ended s'" "sent s' = sent s" using ended_step [OF assms(2)] by auto
  then have s'': "sent s'' = sent s" using ended_steps [OF assms(4)] by simp
  have r': "received s' = received s" using step_traffic(1) [OF assms(2)] by simp
  obtain more where m: "received s'' = received s @ more" using received_grows [OF assms(4)] r' by auto
  have "pipe_reachable s''" using steps_reachable [OF assms(4)] further [OF assms(1,2)] by blast
  then have "received s'' @ unread (dir s'') @ concat (chunks (dir s'')) = sent s''"
    using pipe_reachable_ok by (auto simp: pipe_ok_def)
  with m e(1) s'' show ?thesis by simp
qed

section \<open>Runs computed\<close>

text \<open>One step chosen by its case, for evaluation.\<close>

datatype 'w move = ReadMove pick nat | WriteMove 'w pick bytes | CloseWriteMove

definition run_move :: "'w move \<Rightarrow> 'w pipe_run \<Rightarrow> (label \<times> 'w pipe_run) option" where
  "run_move m s = (case m of
      ReadMove p n \<Rightarrow> (case reading s of
          NoReader \<Rightarrow> Some (read_to (read_enter n (dir s)) s)
        | AtHead k \<Rightarrow> (case read_head p k (dir s) of None \<Rightarrow> None | Some res \<Rightarrow> Some (read_to res s))
        | Draining k \<Rightarrow> Some (read_to (read_drain k (dir s)) s)
        | Blocked k \<Rightarrow> (case read_blocked p k (dir s) of None \<Rightarrow> None | Some res \<Rightarrow> Some (read_to res s))
        | SawEnd k \<Rightarrow> Some (read_to (read_end k (dir s)) s))
    | WriteMove w p b \<Rightarrow> (case writing s w of
          NoWriter \<Rightarrow> (case write_enter p b (dir s) of None \<Rightarrow> None | Some x \<Rightarrow> Some (write_to w (x, dir s) s))
        | Trying c \<Rightarrow> Some (write_to w (write_try c (dir s)) s)
        | Waiting c \<Rightarrow> (case write_blocked p c (dir s) of None \<Rightarrow> None | Some res \<Rightarrow> Some (write_to w res s)))
    | CloseWriteMove \<Rightarrow> Some (Silent, s\<lparr>dir := pipe_CloseWrite (dir s)\<rparr>))"

lemma run_move_step:
  assumes "run_move m s = Some (l, s')"
  shows "pipe_step s l s'"
proof (cases m)
  case (ReadMove p n)
  with assms show ?thesis
    by (auto simp: run_move_def split: reader.splits option.splits intro: pipe_step.intros)
next
  case (WriteMove w p b)
  with assms show ?thesis
    by (auto simp: run_move_def split: writer.splits option.splits intro: pipe_step.intros)
next
  case CloseWriteMove
  with assms show ?thesis by (auto simp: run_move_def intro: pipe_step.intros)
qed

fun run_moves :: "'w move list \<Rightarrow> 'w pipe_run \<Rightarrow> (label list \<times> 'w pipe_run) option" where
  "run_moves [] s = Some ([], s)"
| "run_moves (m # ms) s = (case run_move m s of
      None \<Rightarrow> None
    | Some (l, s') \<Rightarrow> (case run_moves ms s' of None \<Rightarrow> None | Some (ls, s'') \<Rightarrow> Some (l # ls, s'')))"

lemma run_moves_steps: "run_moves ms s = Some (ls, s') \<Longrightarrow> pipe_steps s ls s'"
proof (induction ms arbitrary: s ls)
  case Nil
  then show ?case by (simp add: pipe_steps.none)
next
  case (Cons m ms)
  then show ?case by (auto split: option.splits) (blast intro: pipe_steps.one run_move_step Cons.IH)
qed

lemmas run_defs = run_move_def read_to_def write_to_def read_enter_def read_head_def read_drain_def read_blocked_def
  read_end_def take_chunk_def deliverChunk_def write_enter_def send_chunk_def write_try_def write_blocked_def
  pipe_CloseWrite_def start_run_def newStreamPipe_def streamPipeChunks_def

definition write_and_read :: "unit move list" where
  "write_and_read = [WriteMove () PickDefault [1, 2, 3], WriteMove () PickDefault [], CloseWriteMove,
     ReadMove PickDefault 2, ReadMove PickDefault 2, ReadMove PickDefault 2]"

definition to_the_end :: "unit move list" where
  "to_the_end = [ReadMove PickDefault 2, ReadMove PickDefault 2, ReadMove PickDefault 2, ReadMove PickDefault 2,
     ReadMove PickWriteDone 2]"

definition state_after :: "unit move list \<Rightarrow> unit pipe_run" where
  "state_after ms = (case run_moves ms start_run of Some (_, s) \<Rightarrow> s | None \<Rightarrow> start_run)"

lemma state_after_reachable: "pipe_reachable (state_after ms)"
  using run_moves_steps steps_reachable pipe_reachable.start
  by (auto simp: state_after_def split: option.splits) blast

lemma pipe_stream_exact_witness:
  "received (state_after write_and_read) = [1, 2] \<and> unread (dir (state_after write_and_read)) = [3] \<and>
   received (state_after write_and_read) @ unread (dir (state_after write_and_read)) @
     concat (chunks (dir (state_after write_and_read))) = sent (state_after write_and_read)"
proof (intro conjI)
  show "received (state_after write_and_read) = [1, 2]" "unread (dir (state_after write_and_read)) = [3]"
    by (simp_all add: state_after_def write_and_read_def run_defs)
qed (use pipe_stream_exact [OF state_after_reachable] in blast)

lemma pipe_end_final_witness:
  "\<exists>s' s''. pipe_step (state_after (write_and_read @ to_the_end)) (ReadReturns ReadEOF) s' \<and>
     pipe_steps s' [WriteReturns WriteClosed] s'' \<and> sent s'' = [1, 2, 3] \<and> received s'' = [1, 2, 3]"
proof -
  let ?s = "state_after (write_and_read @ to_the_end)"
  have v: "received ?s = [1, 2, 3]" "\<And>w. writing ?s w = NoWriter"
    by (simp_all add: state_after_def write_and_read_def to_the_end_def run_defs)
  obtain s' where s': "run_move (ReadMove PickDefault 2) ?s = Some (ReadReturns ReadEOF, s')"
    by (simp add: state_after_def write_and_read_def to_the_end_def run_defs)
  obtain s'' where s'': "run_moves [WriteMove () PickWriteDone [7]] s' = Some ([WriteReturns WriteClosed], s'')"
    using s' by (auto simp: state_after_def write_and_read_def to_the_end_def run_defs)
  have "sent s'' = sent ?s \<and> received s'' = received ?s \<and> received ?s = sent ?s"
    by (rule pipe_end_final [OF state_after_reachable run_move_step [OF s'] v(2) run_moves_steps [OF s'']])
  then show ?thesis using run_move_step [OF s'] run_moves_steps [OF s''] v(1) by metis
qed

section \<open>A write that races the close\<close>

definition racing_write :: "nat \<Rightarrow> bytes \<Rightarrow> unit move list" where
  "racing_write n b = [WriteMove () PickDefault b, CloseWriteMove, ReadMove PickDefault n, ReadMove PickDefault n,
     ReadMove PickDefault n, ReadMove PickWriteDone n, ReadMove PickDefault n, WriteMove () PickDefault b,
     ReadMove PickDefault n, ReadMove PickDefault n, ReadMove PickDefault n]"

text \<open>The end is not final against a write under way: a write past its closure check when the direction is
  half-closed can still queue its chunk after a read reported the end; it reports success, and the next
  read returns its bytes after that end.\<close>

theorem pipe_write_after_end:
  assumes "b \<noteq> []"
  shows "\<exists>ls s. pipe_steps (start_run :: unit pipe_run) ls s \<and>
    filter (\<lambda>l. l \<noteq> Silent) ls = [ReadReturns ReadEOF, WriteReturns (Written b), ReadReturns (Data (take n b))]"
proof -
  obtain ls s where r: "run_moves (racing_write n b) start_run = Some (ls, s)"
    "filter (\<lambda>l. l \<noteq> Silent) ls = [ReadReturns ReadEOF, WriteReturns (Written b), ReadReturns (Data (take n b))]"
    using assms by (auto simp: racing_write_def run_defs)
  then show ?thesis using run_moves_steps [OF r(1)] by blast
qed

lemma pipe_write_after_end_witness:
  "\<exists>ls s. pipe_steps (start_run :: unit pipe_run) ls s \<and>
    filter (\<lambda>l. l \<noteq> Silent) ls = [ReadReturns ReadEOF, WriteReturns (Written [7]), ReadReturns (Data (take 2 [7]))]"
  by (rule pipe_write_after_end) simp

end
