(* ===== verification/Coded.thy ===== *)
theory Coded
  imports FecEncode
begin

text \<open>
  \<^verbatim>\<open>queqiao/internal/coded/coded.go\<close>: frames over an unreliable datagram service, protected by the sliding
  window code. The sending side packs frames into symbols or cuts them into fragments, numbers the
  datagrams and emits repairs; the receiving side gives symbols to the decoder and assembles frames from
  those that arrive or are recovered. The carrier is a parameter: what it answers to a datagram and what
  it says of its size. How wide the window is, how many repairs a symbol has earned and how many a burst
  still wants come from floating-point estimates of the path (\<^verbatim>\<open>fec.Choose\<close>, \<^verbatim>\<open>fec.WindowRate\<close>,
  \<^verbatim>\<open>fec.ShardsFor\<close>, the running \<^verbatim>\<open>credit\<close>); they are arguments here, one decision after another, so that what
  is proved holds for every code the path may choose. The loss estimator is left out.
\<close>

section \<open>Sizes\<close>

definition sourceHeader :: nat where [cfg_defs]: "sourceHeader = 4 + 1 + 4"
definition repairHeader :: nat where [cfg_defs]: "repairHeader = 4 + 1 + 4 + 4 + 2"
definition kindSource :: byte where [cfg_defs]: "kindSource = 0"
definition kindRepair :: byte where [cfg_defs]: "kindRepair = 1"
definition symbolHeader :: nat where [cfg_defs]: "symbolHeader = 2 + 2 + 2"
definition frameHeader :: nat where [cfg_defs]: "frameHeader = 4"
definition maxFrameBytes :: nat where [cfg_defs]: "maxFrameBytes = 2 ^ 20"
definition initialWindow :: int where [cfg_defs]: "initialWindow = 16"
definition maxSymbolParts :: nat where [cfg_defs]: "maxSymbolParts = MaxRepairWindow"
definition assemblerSlack :: int where [cfg_defs]: "assemblerSlack = int MinDecoderWidth"
definition assemblerMaxGroups :: nat where [cfg_defs]: "assemblerMaxGroups = 2 * MaxRepairWindow"

section \<open>The carrier and the sending side\<close>

text \<open>\<^verbatim>\<open>limit\<close> is \<^verbatim>\<open>MaxDatagramBytes\<close>, \<open>None\<close> for a carrier that does not know.\<close>

datatype 'e outcome = Accepted | TooLarge | Broken 'e

record ('q, 'e) carrier =
  carry :: "'q \<Rightarrow> bytes \<Rightarrow> 'e outcome \<times> 'q"
  limit :: "'q \<Rightarrow> int option"
  isEOF :: "'e \<Rightarrow> bool"

text \<open>The decisions taken from estimates: the window, the repairs the credit pays for and the repairs wanted for
  a burst, at the \<open>n\<close>-th symbol.\<close>

record decisions =
  window :: "nat \<Rightarrow> int"
  earned :: "nat \<Rightarrow> nat"
  tailRepairs :: "nat \<Rightarrow> int \<Rightarrow> int"

record ('q, 'e) sender =
  sCarrier :: 'q
  sEncoder :: encoder
  sPacked :: bytes
  sNextSeq :: u32
  sNextRID :: u32
  sBurstSymbols :: int
  sBurstRepairs :: int
  sSymbols :: nat \<comment> \<open>how many symbols were emitted, and so decisions taken\<close>
  sSent :: u64
  sRepairs :: u64
  sOversize :: u64
  sErr :: "'e option"
  sDone :: bool
  sWire :: "bytes list" \<comment> \<open>what the carrier accepted\<close>

definition new_sender :: "'q \<Rightarrow> ('q, 'e) sender" where
  "new_sender q = \<lparr>sCarrier = q, sEncoder = NewWindowEncoder initialWindow, sPacked = [], sNextSeq = 0, sNextRID = 0,
     sBurstSymbols = 0, sBurstRepairs = 0, sSymbols = 0, sSent = 0, sRepairs = 0, sOversize = 0, sErr = None, sDone = False, sWire = []\<rparr>"

datatype 'e send_error = Oversize | Carrier 'e | FrameTooLarge

text \<open>\<^verbatim>\<open>withDefaults\<close> for the size of a symbol.\<close>

definition default_bytes :: "int \<Rightarrow> int" where
  "default_bytes n = (if n \<le> 0 then 1100 else n)"

definition symbolBytes :: "('q, 'e) carrier \<Rightarrow> int \<Rightarrow> 'q \<Rightarrow> nat" where
  "symbolBytes ca cfgBytes q =
     (let sz = default_bytes cfgBytes;
          sz = (case limit ca q of Some l \<Rightarrow> if l > 0 \<and> l < sz then l else sz | None \<Rightarrow> sz);
          floor' = int (repairHeader + symbolHeader + frameHeader + 1) in
      nat (if sz < floor' then floor' else sz))"

definition symbolPayload :: "('q, 'e) carrier \<Rightarrow> int \<Rightarrow> 'q \<Rightarrow> nat" where
  "symbolPayload ca cfgBytes q = symbolBytes ca cfgBytes q - repairHeader - symbolHeader"

definition fail_path :: "('q, 'e) carrier \<Rightarrow> 'e \<Rightarrow> ('q, 'e) sender \<Rightarrow> ('q, 'e) sender" where
  "fail_path ca err s = s\<lparr>sErr := (if isEOF ca err \<or> sErr s \<noteq> None then sErr s else Some err), sDone := True\<rparr>"

definition take_seq :: "('q, 'e) sender \<Rightarrow> u32 \<times> ('q, 'e) sender" where
  "take_seq s = (sNextSeq s, s\<lparr>sNextSeq := sNextSeq s + 1\<rparr>)"

definition untake :: "('q, 'e) sender \<Rightarrow> ('q, 'e) sender" where
  "untake s = s\<lparr>sNextSeq := sNextSeq s - 1\<rparr>"

definition put :: "('q, 'e) carrier \<Rightarrow> bytes \<Rightarrow> ('q, 'e) sender \<Rightarrow> (bool \<times> 'e send_error option) \<times> ('q, 'e) sender" where
  "put ca d s = (case carry ca (sCarrier s) d of
      (Accepted, q) \<Rightarrow> ((True, None), s\<lparr>sCarrier := q, sSent := sSent s + 1, sWire := sWire s @ [d]\<rparr>)
    | (TooLarge, q) \<Rightarrow> ((False, Some Oversize), untake (s\<lparr>sCarrier := q, sOversize := sOversize s + 1\<rparr>))
    | (Broken err, q) \<Rightarrow> ((False, Some (Carrier err)), fail_path ca err (untake (s\<lparr>sCarrier := q\<rparr>))))"

definition dropOversizedWindow :: "('q, 'e) sender \<Rightarrow> ('q, 'e) sender" where
  "dropOversizedWindow s = s\<lparr>sEncoder := Reset (sEncoder s), sBurstSymbols := 0, sBurstRepairs := 0\<rparr>"

definition sendSource :: "('q, 'e) carrier \<Rightarrow> u32 \<Rightarrow> bytes \<Rightarrow> ('q, 'e) sender \<Rightarrow> 'e send_error option \<times> ('q, 'e) sender" where
  "sendSource ca esi vector s =
     (case take_seq s of (seq, s) \<Rightarrow>
      case put ca (put_u32 seq @ [kindSource] @ put_u32 esi @ vector) s of ((_, err), s) \<Rightarrow> (err, s))"

definition repair_datagram :: "u32 \<Rightarrow> repair \<Rightarrow> bytes" where
  "repair_datagram seq r = put_u32 seq @ [kindRepair] @ put_u32 (rRID r) @ put_u32 (rFirst r) @ put_u16 (word_of_int (rCount r)) @ rVector r"

definition sendRepair :: "('q, 'e) carrier \<Rightarrow> int \<Rightarrow> ('q, 'e) sender \<Rightarrow> 'e send_error option \<times> ('q, 'e) sender" where
  "sendRepair ca count s =
     (let rid = sNextRID s; s = s\<lparr>sNextRID := sNextRID s + 1\<rparr> in
      case enc_Repair rid count (sEncoder s) of
        None \<Rightarrow> (None, s)
      | Some r \<Rightarrow> case take_seq s of (seq, s) \<Rightarrow>
          (case put ca (repair_datagram seq r) s of
            ((True, _), s) \<Rightarrow> (None, s\<lparr>sRepairs := sRepairs s + 1\<rparr>)
          | ((False, Some Oversize), s) \<Rightarrow> (None, dropOversizedWindow s)
          | ((False, err), s) \<Rightarrow> (err, s)))"

text \<open>The loop over the credit.\<close>

primrec earned_repairs :: "('q, 'e) carrier \<Rightarrow> nat \<Rightarrow> ('q, 'e) sender \<Rightarrow> 'e send_error option \<times> ('q, 'e) sender" where
  "earned_repairs ca 0 s = (None, s)"
| "earned_repairs ca (Suc n) s = (case sendRepair ca 0 s of
      (Some err, s) \<Rightarrow> (Some err, s)
    | (None, s) \<Rightarrow> earned_repairs ca n (s\<lparr>sBurstRepairs := sBurstRepairs s + 1\<rparr>))"

definition symbol_vector :: "bytes \<Rightarrow> nat \<Rightarrow> nat \<Rightarrow> bytes" where
  "symbol_vector payload index count =
     put_u16 (word_of_nat (length payload)) @ put_u16 (word_of_nat index) @ put_u16 (word_of_nat count) @ payload"

definition emit :: "('q, 'e) carrier \<Rightarrow> decisions \<Rightarrow> bytes \<Rightarrow> nat \<Rightarrow> nat \<Rightarrow> ('q, 'e) sender \<Rightarrow> 'e send_error option \<times> ('q, 'e) sender" where
  "emit ca dec payload index count s =
     (let vector = symbol_vector payload index count; n = sSymbols s; capacity = window dec n in
      case Add vector (SetCapacity capacity (sEncoder s)) of (esi, e) \<Rightarrow>
      case sendSource ca esi vector (s\<lparr>sEncoder := e, sSymbols := n + 1\<rparr>) of
        (Some Oversize, s) \<Rightarrow> (Some Oversize, dropOversizedWindow s)
      | (Some err, s) \<Rightarrow> (Some err, s)
      | (None, s) \<Rightarrow>
          (case earned_repairs ca (earned dec n) (s\<lparr>sBurstSymbols := sBurstSymbols s + 1\<rparr>) of
            (Some err, s) \<Rightarrow> (Some err, s)
          | (None, s) \<Rightarrow> (None, if sBurstSymbols s \<ge> capacity then s\<lparr>sBurstSymbols := 0, sBurstRepairs := 0\<rparr> else s)))"

definition flushPacked :: "('q, 'e) carrier \<Rightarrow> decisions \<Rightarrow> ('q, 'e) sender \<Rightarrow> 'e send_error option \<times> ('q, 'e) sender" where
  "flushPacked ca dec s =
     (if length (sPacked s) = 0 then (None, s)
      else case emit ca dec (sPacked s) 0 1 s of (err, s) \<Rightarrow>
        (if err = Some Oversize then None else err, s\<lparr>sPacked := []\<rparr>))"

text \<open>The fragments from \<open>i\<close> on, \<open>n\<close> of them.\<close>

primrec fragment_loop :: "('q, 'e) carrier \<Rightarrow> decisions \<Rightarrow> bytes \<Rightarrow> nat \<Rightarrow> nat \<Rightarrow> nat \<Rightarrow> nat \<Rightarrow> ('q, 'e) sender
    \<Rightarrow> 'e send_error option \<times> ('q, 'e) sender" where
  "fragment_loop ca dec frame lim count i 0 s = (None, s)"
| "fragment_loop ca dec frame lim count i (Suc n) s =
     (let stop = min ((i + 1) * lim) (length frame) in
      case emit ca dec (slice (i * lim) stop frame) i count s of
        (Some Oversize, s) \<Rightarrow> (None, s)
      | (Some err, s) \<Rightarrow> (Some err, s)
      | (None, s) \<Rightarrow> fragment_loop ca dec frame lim count (i + 1) n s)"

definition sendFragments :: "('q, 'e) carrier \<Rightarrow> decisions \<Rightarrow> bytes \<Rightarrow> nat \<Rightarrow> ('q, 'e) sender \<Rightarrow> 'e send_error option \<times> ('q, 'e) sender" where
  "sendFragments ca dec frame lim s =
     (let count = (length frame + lim - 1) div lim in
      if count > maxSymbolParts then (Some FrameTooLarge, s)
      else fragment_loop ca dec frame lim count 0 count s)"

definition packed_frame :: "bytes \<Rightarrow> bytes" where
  "packed_frame frame = put_u32 (word_of_nat (length frame)) @ frame"

definition appendFrame :: "('q, 'e) carrier \<Rightarrow> int \<Rightarrow> decisions \<Rightarrow> bytes \<Rightarrow> ('q, 'e) sender \<Rightarrow> 'e send_error option \<times> ('q, 'e) sender" where
  "appendFrame ca cfgBytes dec frame s =
     (let lim = symbolPayload ca cfgBytes (sCarrier s) in
      if frameHeader + length frame > lim then
        (case flushPacked ca dec s of (Some err, s) \<Rightarrow> (Some err, s) | (None, s) \<Rightarrow> sendFragments ca dec frame lim s)
      else
        (case (if length (sPacked s) + frameHeader + length frame > lim then flushPacked ca dec s else (None, s)) of
          (Some err, s) \<Rightarrow> (Some err, s)
        | (None, s) \<Rightarrow> (None, s\<lparr>sPacked := sPacked s @ packed_frame frame\<rparr>)))"

section \<open>The end of a burst\<close>

text \<open>The loop of \<^verbatim>\<open>protectBurst\<close>. A refused repair empties the window and the count of repairs with it, after
  which no repair can be refused again.\<close>

lemma sendRepair_held:
  assumes "sendRepair ca count s = (err, s')"
  shows "eHeld (sEncoder s') = 0 \<or> eHeld (sEncoder s) \<noteq> 0 \<and> sEncoder s' = sEncoder s \<and> sBurstRepairs s' = sBurstRepairs s"
    and "eHeld (sEncoder s) = 0 \<Longrightarrow> s' = s\<lparr>sNextRID := sNextRID s + 1\<rparr>"
  using assms
  by (auto simp: sendRepair_def Let_def take_seq_def put_def untake_def fail_path_def dropOversizedWindow_def Reset_def enc_Repair_def
    split: prod.splits outcome.splits bool.splits option.splits send_error.splits if_splits)

function protect_loop :: "('q, 'e) carrier \<Rightarrow> int \<Rightarrow> ('q, 'e) sender \<Rightarrow> 'e send_error option \<times> ('q, 'e) sender" where
  "protect_loop ca want s =
     (if sBurstRepairs s < want then
        (case sendRepair ca (sBurstSymbols s) s of
          (Some err, s) \<Rightarrow> (Some err, s)
        | (None, s) \<Rightarrow> protect_loop ca want (s\<lparr>sBurstRepairs := sBurstRepairs s + 1\<rparr>))
      else (None, s))"
  by pat_completeness auto
termination
proof (relation "measures [\<lambda>(ca, want, s). if eHeld (sEncoder s) = 0 then 0 else 1, \<lambda>(ca, want, s). nat (want - sBurstRepairs s)]", goal_cases)
  case (2 ca want s x y)
  then have r: "sendRepair ca (sBurstSymbols s) s = (None, y)" by (cases x) auto
  show ?case using sendRepair_held [OF r] 2(1) by (cases "eHeld (sEncoder s) = 0") auto
qed simp

declare protect_loop.simps [simp del]

definition protectBurst :: "('q, 'e) carrier \<Rightarrow> decisions \<Rightarrow> ('q, 'e) sender \<Rightarrow> 'e send_error option \<times> ('q, 'e) sender" where
  "protectBurst ca dec s =
     (if sBurstSymbols s \<le> 0 then (None, s)
      else case protect_loop ca (tailRepairs dec (sSymbols s) (sBurstSymbols s)) s of
        (Some err, s) \<Rightarrow> (Some err, s)
      | (None, s) \<Rightarrow> (None, s\<lparr>sBurstSymbols := 0, sBurstRepairs := 0\<rparr>))"

section \<open>The send loop\<close>

text \<open>Frames that were waiting one behind the other, then a pause.\<close>

primrec append_frames :: "('q, 'e) carrier \<Rightarrow> int \<Rightarrow> decisions \<Rightarrow> bytes list \<Rightarrow> ('q, 'e) sender \<Rightarrow> 'e send_error option \<times> ('q, 'e) sender" where
  "append_frames ca cfgBytes dec [] s = (None, s)"
| "append_frames ca cfgBytes dec (f # fs) s = (case appendFrame ca cfgBytes dec f s of
      (Some err, s) \<Rightarrow> (Some err, s)
    | (None, s) \<Rightarrow> append_frames ca cfgBytes dec fs s)"

definition send_batch :: "('q, 'e) carrier \<Rightarrow> int \<Rightarrow> decisions \<Rightarrow> bytes list \<Rightarrow> ('q, 'e) sender \<Rightarrow> 'e send_error option \<times> ('q, 'e) sender" where
  "send_batch ca cfgBytes dec frames s = (case append_frames ca cfgBytes dec frames s of
      (Some err, s) \<Rightarrow> (Some err, s)
    | (None, s) \<Rightarrow> (case flushPacked ca dec s of
        (Some err, s) \<Rightarrow> (Some err, s)
      | (None, s) \<Rightarrow> protectBurst ca dec s))"

text \<open>The loop runs until an error; what it does then is return, whatever is waiting.\<close>

primrec sendLoop :: "('q, 'e) carrier \<Rightarrow> int \<Rightarrow> decisions \<Rightarrow> bytes list list \<Rightarrow> ('q, 'e) sender \<Rightarrow> 'e send_error option \<times> ('q, 'e) sender" where
  "sendLoop ca cfgBytes dec [] s = (None, s)"
| "sendLoop ca cfgBytes dec (b # bs) s = (case send_batch ca cfgBytes dec b s of
      (Some err, s) \<Rightarrow> (Some err, s)
    | (None, s) \<Rightarrow> sendLoop ca cfgBytes dec bs s)"

section \<open>The assembler\<close>

record group =
  gParts :: "bytes option list" \<comment> \<open>\<open>None\<close> for nil\<close>
  gCount :: nat
  gHeld :: nat
  gBytes :: nat

record assembler =
  aGroups :: "(u32 \<times> group) list"
  aHigh :: u32
  aSeen :: bool
  aLost :: u64
  aStale :: u64

definition new_assembler :: assembler where
  "new_assembler = \<lparr>aGroups = [], aHigh = 0, aSeen = False, aLost = 0, aStale = 0\<rparr>"

definition stale :: "u32 \<Rightarrow> u32 \<Rightarrow> nat \<Rightarrow> bool" where
  "stale high first count \<longleftrightarrow> sint (high - (first + word_of_nat count)) > assemblerSlack"

definition prune :: "assembler \<Rightarrow> assembler" where
  "prune a = a\<lparr>aGroups := filter (\<lambda>(first, g). \<not> stale (aHigh a) first (gCount g)) (aGroups a)\<rparr>"

definition note_symbol :: "u32 \<Rightarrow> assembler \<Rightarrow> assembler" where
  "note_symbol esi a =
     (if \<not> aSeen a then a\<lparr>aSeen := True, aHigh := esi\<rparr>
      else if sint (esi - aHigh a) > 0 then prune (a\<lparr>aHigh := esi\<rparr>)
      else a)"

text \<open>The distances are distinct, so the order in which Go visits the map does not matter.\<close>

fun oldest_group :: "u32 \<Rightarrow> (u32 \<times> group) list \<Rightarrow> (u32 \<times> int) option \<Rightarrow> (u32 \<times> int) option" where
  "oldest_group high [] acc = acc"
| "oldest_group high ((first, _) # gs) acc = oldest_group high gs
     (let dist = sint (high - first) in case acc of
        None \<Rightarrow> Some (first, dist)
      | Some (_, d) \<Rightarrow> if dist > d then Some (first, dist) else acc)"

definition dropOldestGroupLocked :: "assembler \<Rightarrow> assembler" where
  "dropOldestGroupLocked a = (case oldest_group (aHigh a) (aGroups a) None of
      None \<Rightarrow> a
    | Some (first, _) \<Rightarrow> a\<lparr>aGroups := AList.delete first (aGroups a)\<rparr>)"

function parseFrames :: "bytes \<Rightarrow> bytes list" where
  "parseFrames payload =
     (if length payload < frameHeader then []
      else
        let n = unat (get_u32 payload); rest = drop frameHeader payload in
        if n > length rest then [] else take n rest # parseFrames (drop n rest))"
  by auto
termination by (relation "measure length") (auto simp: frameHeader_def)

declare parseFrames.simps [simp del]

definition parseSymbol :: "bytes \<Rightarrow> (bytes \<times> nat \<times> nat) option" where
  "parseSymbol vector =
     (if length vector < symbolHeader then None
      else
        let len = unat (get_u16 vector); index = unat (get_u16 (drop 2 vector)); count = unat (get_u16 (drop 4 vector)) in
        if count < 1 \<or> count > maxSymbolParts \<or> index \<ge> count \<or> symbolHeader + len > length vector then None
        else Some (slice symbolHeader (symbolHeader + len) vector, index, count))"

text \<open>The group a fragment belongs to, opened when there is none.\<close>

definition find_group :: "u32 \<Rightarrow> nat \<Rightarrow> assembler \<Rightarrow> group \<times> assembler" where
  "find_group first count a = (case map_of (aGroups a) first of
      Some g \<Rightarrow> (g, a)
    | None \<Rightarrow>
        let a = (if length (aGroups a) \<ge> assemblerMaxGroups then dropOldestGroupLocked a else a);
            g = \<lparr>gParts = [], gCount = count, gHeld = 0, gBytes = 0\<rparr> in
        (g, a\<lparr>aGroups := AList.update first g (aGroups a)\<rparr>))"

text \<open>The copy of an empty fragment is nil, as a missing one is.\<close>

definition store_part :: "nat \<Rightarrow> bytes \<Rightarrow> group \<Rightarrow> group" where
  "store_part index payload g =
     (let parts = (if index \<ge> length (gParts g) then gParts g @ replicate (index + 1 - length (gParts g)) None else gParts g) in
      g\<lparr>gParts := parts[index := (if payload = [] then None else Some payload)], gHeld := gHeld g + 1, gBytes := gBytes g + length payload\<rparr>)"

definition joined :: "bytes option list \<Rightarrow> bytes" where
  "joined ps = concat (map (\<lambda>p. case p of None \<Rightarrow> [] | Some b \<Rightarrow> b) ps)"

definition arrived_part :: "u32 \<Rightarrow> bytes \<Rightarrow> nat \<Rightarrow> nat \<Rightarrow> assembler \<Rightarrow> bytes list \<times> assembler" where
  "arrived_part esi payload index count a =
     (let first = esi - word_of_nat index in
      if aSeen a \<and> stale (aHigh a) first count then ([], a\<lparr>aStale := aStale a + 1\<rparr>)
      else case find_group first count a of (g, a) \<Rightarrow>
        if index \<ge> gCount g \<or> index < length (gParts g) \<and> gParts g ! index \<noteq> None then ([], a)
        else
          let g = store_part index payload g in
          if gHeld g < gCount g then ([], a\<lparr>aGroups := AList.update first g (aGroups a)\<rparr>)
          else ([joined (gParts g)], a\<lparr>aGroups := AList.delete first (aGroups a)\<rparr>))"

definition arrived :: "u32 \<Rightarrow> bytes \<Rightarrow> assembler \<Rightarrow> bytes list \<times> assembler" where
  "arrived esi vector a =
     (let a = note_symbol esi a in
      case parseSymbol vector of
        None \<Rightarrow> ([], a)
      | Some (payload, index, count) \<Rightarrow>
          if count = 1 then (parseFrames payload, a) else arrived_part esi payload index count a)"

definition lost :: "u32 \<Rightarrow> assembler \<Rightarrow> assembler" where
  "lost esi a =
     (let a = note_symbol esi a; a = a\<lparr>aLost := aLost a + 1\<rparr> in
      a\<lparr>aGroups := filter (\<lambda>(first, g). \<not> (sint (esi - first) \<ge> 0 \<and> sint (esi - first) < int (gCount g))) (aGroups a)\<rparr>)"

section \<open>The receiving side\<close>

record receiver =
  rDecoder :: decoder
  rAssembler :: assembler
  rArrivals :: u64
  rSources :: u64
  rMalformed :: u64

definition new_receiver :: receiver where
  "new_receiver = \<lparr>rDecoder = NewWindowDecoder, rAssembler = new_assembler, rArrivals = 0, rSources = 0, rMalformed = 0\<rparr>"

primrec arrived_all :: "(u32 \<times> bytes) list \<Rightarrow> assembler \<Rightarrow> bytes list \<times> assembler" where
  "arrived_all [] a = ([], a)"
| "arrived_all (x # xs) a = (case arrived (fst x) (snd x) a of (out, a) \<Rightarrow> case arrived_all xs a of (outs, a) \<Rightarrow> (out @ outs, a))"

definition deliver :: "delivery \<Rightarrow> assembler \<Rightarrow> bytes list \<times> assembler" where
  "deliver delivered a = (case arrived_all (outRecovered delivered) a of (frames, a) \<Rightarrow> (frames, fold lost (outLost delivered) a))"

definition onDatagram :: "bytes \<Rightarrow> receiver \<Rightarrow> bytes list \<times> receiver" where
  "onDatagram d r =
     (if length d < sourceHeader then ([], r)
      else
        let r = r\<lparr>rArrivals := rArrivals r + 1\<rparr>; kind = d ! 4 in
        if kind = kindSource then
          let esi = get_u32 (drop 5 d); vector = drop sourceHeader d in
          if length vector \<ge> symbolHeader \<and> unat (get_u16 (drop 4 vector)) > maxSymbolParts
          then ([], r\<lparr>rMalformed := rMalformed r + 1\<rparr>)
          else case dec_Source esi vector (rDecoder r) of (dec, delivered) \<Rightarrow>
            (case arrived esi vector (rAssembler r) of (own, a) \<Rightarrow> case deliver delivered a of (frames, a) \<Rightarrow>
              (own @ frames, r\<lparr>rSources := rSources r + 1, rDecoder := dec, rAssembler := a\<rparr>))
        else if kind = kindRepair then
          if length d < repairHeader then ([], r)
          else
            let count = unat (get_u16 (drop 13 d)) in
            if count = 0 \<or> count > MaxRepairWindow then ([], r\<lparr>rMalformed := rMalformed r + 1\<rparr>)
            else case dec_Repair \<lparr>rRID = get_u32 (drop 5 d), rFirst = get_u32 (drop 9 d), rCount = int count, rVector = drop repairHeader d\<rparr>
                (rDecoder r) of (dec, delivered) \<Rightarrow>
              (case deliver delivered (rAssembler r) of (frames, a) \<Rightarrow> (frames, r\<lparr>rDecoder := dec, rAssembler := a\<rparr>))
        else ([], r))"

primrec receiveLoop :: "bytes list \<Rightarrow> receiver \<Rightarrow> bytes list \<times> receiver" where
  "receiveLoop [] r = ([], r)"
| "receiveLoop (d # ds) r = (case onDatagram d r of (out, r) \<Rightarrow> case receiveLoop ds r of (outs, r) \<Rightarrow> (out @ outs, r))"

end
