(* ===== verification/CodedSend.thy ===== *)
theory CodedSend
  imports Coded
begin

text \<open>
  What the sending side of the coded path puts on the wire: every symbol is one of three kinds of piece of the
  frames it was given, the datagrams the carrier accepted are numbered without a gap, and each repair is
  over symbols emitted before it.
\<close>

section \<open>Pieces\<close>

text \<open>A symbol carries whole frames, or a frame that fills it alone, or fragment \<open>i\<close> of a frame whose
  first fragment is symbol \<open>k\<close>.\<close>

datatype piece = Packed "bytes list" | Lone bytes | Part nat "bytes list" nat

definition pack :: "bytes list \<Rightarrow> bytes" where
  "pack fs = concat (map packed_frame fs)"

lemma pack_simps [simp]: "pack [] = []" "pack (fs @ gs) = pack fs @ pack gs" "pack (f # fs) = packed_frame f @ pack fs"
  by (simp_all add: pack_def)

lemma length_packed_frame [simp]: "length (packed_frame f) = length f + 4"
  by (simp add: packed_frame_def)

fun payload_of :: "piece \<Rightarrow> bytes" where
  "payload_of (Packed fs) = pack fs"
| "payload_of (Lone f) = f"
| "payload_of (Part k ps i) = ps ! i"

fun index_of :: "piece \<Rightarrow> nat" where
  "index_of (Part k ps i) = i"
| "index_of _ = 0"

fun count_of :: "piece \<Rightarrow> nat" where
  "count_of (Part k ps i) = length ps"
| "count_of _ = 1"

definition vector_of :: "piece \<Rightarrow> bytes" where
  "vector_of p = symbol_vector (payload_of p) (index_of p) (count_of p)"

text \<open>A frame whose length lies within four bytes below a symbol's room neither shares a symbol nor needs two.\<close>

definition boundary :: "nat set \<Rightarrow> nat \<Rightarrow> bool" where
  "boundary Ls n \<longleftrightarrow> (\<exists>l \<in> Ls. n \<le> l \<and> l < n + 4)"

definition shares :: "nat set \<Rightarrow> bytes \<Rightarrow> bool" where
  "shares Ls f \<longleftrightarrow> (\<exists>l \<in> Ls. length f + 4 \<le> l)"

fun piece_ok :: "nat set \<Rightarrow> bytes set \<Rightarrow> piece \<Rightarrow> bool" where
  "piece_ok Ls F (Packed fs) \<longleftrightarrow> set fs \<subseteq> F \<and> (\<forall>f \<in> set fs. shares Ls f)"
| "piece_ok Ls F (Lone f) \<longleftrightarrow> f \<in> F \<and> boundary Ls (length f)"
| "piece_ok Ls F (Part k ps i) \<longleftrightarrow> concat ps \<in> F \<and> 2 \<le> length ps \<and> length ps \<le> 256 \<and> [] \<notin> set ps \<and> i < length ps \<and>
     (\<exists>l \<in> Ls. l < length (concat ps))"

definition pieces_ok :: "nat set \<Rightarrow> bytes set \<Rightarrow> piece list \<Rightarrow> bool" where
  "pieces_ok Ls F as \<longleftrightarrow> (\<forall>p < length as. piece_ok Ls F (as ! p) \<and> length (payload_of (as ! p)) < 65536 \<and>
     (\<forall>k ps i. as ! p = Part k ps i \<longrightarrow> p = k + i \<and> as ! k = Part k ps 0))"

definition agrees :: "(u32 \<Rightarrow> bytes) \<Rightarrow> piece list \<Rightarrow> bool" where
  "agrees S as \<longleftrightarrow> (\<forall>i < length as. S (word_of_nat i) = vector_of (as ! i))"

lemma agrees_snoc: "agrees S (as @ [a]) \<longleftrightarrow> agrees S as \<and> S (word_of_nat (length as)) = vector_of a"
  by (auto simp: agrees_def nth_append less_Suc_eq)

lemma pieces_ok_snoc:
  assumes "pieces_ok Ls F as" and "piece_ok Ls F a" and "length (payload_of a) < 65536"
    and "\<And>k ps i. a = Part k ps i \<Longrightarrow> length as = k + i \<and> (i = 0 \<or> as ! k = Part k ps 0)"
  shows "pieces_ok Ls F (as @ [a])"
proof -
  have "p = k + i \<and> (as @ [a]) ! k = Part k ps 0" if "p < Suc (length as)" "(as @ [a]) ! p = Part k ps i" for p k ps i
  proof (cases "p < length as")
    case True
    then have "p = k + i" "as ! k = Part k ps 0" using assms(1) that(2) by (auto simp: pieces_ok_def nth_append)
    then show ?thesis using True by (simp add: nth_append)
  next
    case False
    then have p: "p = length as" "a = Part k ps i" using that by (auto simp: nth_append)
    then have k: "length as = k + i" "i = 0 \<or> as ! k = Part k ps 0" using assms(4) by auto
    show ?thesis
    proof (cases "i = 0")
      case True
      then show ?thesis using p k by (auto simp: nth_append)
    next
      case False
      then show ?thesis using p k by (simp add: nth_append)
    qed
  qed
  then show ?thesis using assms(1-3) unfolding pieces_ok_def by (auto simp: nth_append less_Suc_eq)
qed

section \<open>The datagrams\<close>

datatype item = SourceItem nat bytes | RepairItem nat repair

fun before :: "item \<Rightarrow> nat" where
  "before (SourceItem c v) = c"
| "before (RepairItem c r) = c"

fun after :: "item \<Rightarrow> nat" where
  "after (SourceItem c v) = Suc c"
| "after (RepairItem c r) = c"

fun item_bytes :: "u32 \<Rightarrow> item \<Rightarrow> bytes" where
  "item_bytes seq (SourceItem c v) = put_u32 seq @ [kindSource] @ put_u32 (word_of_nat c) @ v"
| "item_bytes seq (RepairItem c r) = repair_datagram seq r"

fun item_ok :: "(u32 \<Rightarrow> bytes) \<Rightarrow> nat \<Rightarrow> item \<Rightarrow> bool" where
  "item_ok S n (SourceItem c v) \<longleftrightarrow> c < n \<and> v = S (word_of_nat c)"
| "item_ok S n (RepairItem c r) \<longleftrightarrow> c \<le> n \<and> repair_ok S r \<and> rFirst r + word_of_int (rCount r) = word_of_nat c \<and>
     0 < rCount r \<and> rCount r \<le> 256"

definition items_ok :: "(u32 \<Rightarrow> bytes) \<Rightarrow> nat \<Rightarrow> item list \<Rightarrow> bool" where
  "items_ok S n its \<longleftrightarrow> (\<forall>it \<in> set its. item_ok S n it) \<and> sorted_wrt (\<lambda>x y. after x \<le> before y) its"

lemma item_after: "item_ok S n it \<Longrightarrow> after it \<le> n"
  by (cases it) auto

lemma item_ok_mono: "item_ok S n it \<Longrightarrow> n \<le> m \<Longrightarrow> item_ok S m it"
  by (cases it) auto

lemma items_ok_mono: "items_ok S n its \<Longrightarrow> n \<le> m \<Longrightarrow> items_ok S m its"
  by (auto simp: items_ok_def intro: item_ok_mono)

lemma items_ok_snoc:
  assumes "items_ok S n its" and "n \<le> m" and "item_ok S m it" and "n \<le> before it"
  shows "items_ok S m (its @ [it])"
  using assms items_ok_mono [OF assms(1,2)] item_after [of S n]
  by (auto simp: items_ok_def sorted_wrt_append intro: order_trans)

section \<open>The log\<close>

definition wire_of :: "item list \<Rightarrow> bytes list" where
  "wire_of its = map (\<lambda>i. item_bytes (word_of_nat i) (its ! i)) [0..<length its]"

lemma wire_of_snoc: "wire_of (its @ [it]) = wire_of its @ [item_bytes (word_of_nat (length its)) it]"
  by (simp add: wire_of_def nth_append)

definition sender_log :: "nat set \<Rightarrow> bytes set \<Rightarrow> piece list \<Rightarrow> item list \<Rightarrow> ('q, 'e) sender \<Rightarrow> bool" where
  "sender_log Ls F as its s \<longleftrightarrow> pieces_ok Ls F as \<and> sSymbols s = length as \<and> sWire s = wire_of its \<and>
     sNextSeq s = word_of_nat (length its) \<and> eNext (sEncoder s) = word_of_nat (length as) \<and>
     (\<forall>S. agrees S as \<longrightarrow> enc_ok S (length as) (sEncoder s) \<and> items_ok S (length as) its)"

definition packed_ok :: "nat set \<Rightarrow> bytes set \<Rightarrow> ('q, 'e) sender \<Rightarrow> bool" where
  "packed_ok Ls F s \<longleftrightarrow> (\<exists>fs. sPacked s = pack fs \<and> set fs \<subseteq> F \<and> (\<forall>f \<in> set fs. shares Ls f) \<and> length (pack fs) < 65536)"

lemma sender_log_cong:
  "sEncoder s' = sEncoder s \<Longrightarrow> sSymbols s' = sSymbols s \<Longrightarrow> sWire s' = sWire s \<Longrightarrow> sNextSeq s' = sNextSeq s \<Longrightarrow>
    sender_log Ls F as its s' = sender_log Ls F as its s"
  by (simp add: sender_log_def)

lemma reset_log: "sender_log Ls F as its s \<Longrightarrow> sender_log Ls F as its (dropOversizedWindow s)"
  by (simp add: sender_log_def dropOversizedWindow_def Reset_ok) (simp add: Reset_def)

text \<open>A datagram given to the carrier takes the next number, and gives it back when it was refused.\<close>

lemma put_item:
  assumes log: "sender_log Ls F as its s" and t: "take_seq s = (seq, s1)" and p: "put ca (item_bytes seq it) s1 = ((ok, err), s')"
    and it: "\<And>S. agrees S as \<Longrightarrow> items_ok S (length as) (its @ [it])"
  shows "(if ok then err = None \<and> sender_log Ls F as (its @ [it]) s' else err \<noteq> None \<and> sender_log Ls F as its s') \<and>
    sPacked s' = sPacked s \<and> sEncoder s' = sEncoder s"
proof -
  have seq: "seq = word_of_nat (length its)" "s1 = s\<lparr>sNextSeq := seq + 1\<rparr>" using t log by (auto simp: take_seq_def sender_log_def)
  show ?thesis
  proof (cases "carry ca (sCarrier s1) (item_bytes seq it)")
    case (Pair a q)
    show ?thesis
    proof (cases a)
      case Accepted
      then have "ok" "err = None" "s' = s1\<lparr>sCarrier := q, sSent := sSent s1 + 1, sWire := sWire s1 @ [item_bytes seq it]\<rparr>"
        using p Pair by (auto simp: put_def)
      then show ?thesis using log seq it by (auto simp: sender_log_def wire_of_snoc add.commute)
    next
      case TooLarge
      then show ?thesis using log seq p Pair by (auto simp: put_def untake_def sender_log_def)
    next
      case (Broken e)
      then show ?thesis using log seq p Pair by (auto simp: put_def untake_def fail_path_def sender_log_def)
    qed
  qed
qed

lemma repair_item:
  assumes "enc_ok S n e" and "enc_Repair rid count e = Some r" and "items_ok S n its"
  shows "items_ok S n (its @ [RepairItem n r])"
proof (rule items_ok_snoc [OF assms(3) order_refl])
  have "rCount r \<le> 256"
    using assms(2) by (auto simp: enc_Repair_def Let_def repair_span_def MaxRepairWindow_def split: if_splits)
  moreover have "eNext e = word_of_nat n" using assms(1) by (simp add: enc_ok_def)
  ultimately show "item_ok S n (RepairItem n r)" using enc_Repair_ok [OF assms(1,2)] by simp
qed simp

lemma sendRepair_log:
  assumes log: "sender_log Ls F as its s" and r: "sendRepair ca count s = (err, s')"
  shows "(\<exists>its'. sender_log Ls F as its' s') \<and> sPacked s' = sPacked s \<and> err \<noteq> Some Oversize"
proof -
  let ?s = "s\<lparr>sNextRID := sNextRID s + 1\<rparr>"
  have log': "sender_log Ls F as its ?s" using log by (simp add: sender_log_def)
  show ?thesis
  proof (cases "enc_Repair (sNextRID s) count (sEncoder s)")
    case None
    then show ?thesis using r log' by (auto simp: sendRepair_def)
  next
    case (Some rep)
    obtain seq s1 where t: "take_seq ?s = (seq, s1)" by fastforce
    let ?it = "RepairItem (length as) rep"
    obtain ok e s2 where p: "put ca (item_bytes seq ?it) s1 = ((ok, e), s2)" by (metis prod.collapse)
    have it: "items_ok S (length as) (its @ [?it])" if "agrees S as" for S
      by (rule repair_item [OF _ Some]) (use log that in \<open>auto simp: sender_log_def\<close>)
    note one = put_item [OF log' t p it]
    have res: "(err, s') = (if ok then (None, s2\<lparr>sRepairs := sRepairs s2 + 1\<rparr>)
        else if e = Some Oversize then (None, dropOversizedWindow s2) else (e, s2))"
      using r Some t p one by (auto simp: sendRepair_def Let_def split: bool.splits option.splits send_error.splits if_splits)
    have keep: "sender_log Ls F as its'' (s2\<lparr>sRepairs := n\<rparr>) = sender_log Ls F as its'' s2" for its'' n
      by (rule sender_log_cong) simp_all
    have drop: "sPacked (dropOversizedWindow s2) = sPacked s2" by (simp add: dropOversizedWindow_def)
    show ?thesis
    proof (cases ok)
      case True
      then show ?thesis using one res keep by auto
    next
      case False
      then show ?thesis using one res reset_log [of Ls F as its s2] drop by (auto split: if_splits)
    qed
  qed
qed

lemma earned_log:
  "sender_log Ls F as its s \<Longrightarrow> earned_repairs ca n s = (err, s') \<Longrightarrow>
    (\<exists>its'. sender_log Ls F as its' s') \<and> sPacked s' = sPacked s \<and> err \<noteq> Some Oversize"
proof (induction n arbitrary: s its)
  case (Suc n)
  obtain e1 s1 where r: "sendRepair ca 0 s = (e1, s1)" by fastforce
  obtain its1 where one: "sender_log Ls F as its1 s1" "sPacked s1 = sPacked s" "e1 \<noteq> Some Oversize"
    using sendRepair_log [OF Suc.prems(1) r] by blast
  show ?case
  proof (cases e1)
    case None
    have "sender_log Ls F as its1 (s1\<lparr>sBurstRepairs := sBurstRepairs s1 + 1\<rparr>)" using one(1) by (simp add: sender_log_def)
    from Suc.IH [OF this] show ?thesis using Suc.prems(2) r None one(2) by simp
  next
    case (Some e)
    then show ?thesis using Suc.prems(2) r one by auto
  qed
qed auto

lemma protect_log:
  "sender_log Ls F as its s \<Longrightarrow> protect_loop ca want s = (err, s') \<Longrightarrow>
    (\<exists>its'. sender_log Ls F as its' s') \<and> sPacked s' = sPacked s"
proof (induction ca want s arbitrary: its rule: protect_loop.induct)
  case (1 ca want s)
  show ?case
  proof (cases "sBurstRepairs s < want")
    case True
    obtain e1 s1 where r: "sendRepair ca (sBurstSymbols s) s = (e1, s1)" by fastforce
    obtain its1 where one: "sender_log Ls F as its1 s1" "sPacked s1 = sPacked s"
      using sendRepair_log [OF 1(2) r] by blast
    show ?thesis
    proof (cases e1)
      case None
      have l: "sender_log Ls F as its1 (s1\<lparr>sBurstRepairs := sBurstRepairs s1 + 1\<rparr>)" using one(1) by (simp add: sender_log_def)
      have "protect_loop ca want (s1\<lparr>sBurstRepairs := sBurstRepairs s1 + 1\<rparr>) = (err, s')"
        using 1(3) True r None by (simp add: protect_loop.simps [of ca want s])
      from 1(1) [OF True r [symmetric] None l this] show ?thesis using one(2) by simp
    next
      case (Some e)
      then show ?thesis using 1(3) True r one by (auto simp: protect_loop.simps [of ca want s])
    qed
  next
    case False
    then show ?thesis using 1(2,3) by (auto simp: protect_loop.simps [of ca want s])
  qed
qed

section \<open>Symbols\<close>

lemma capacity_ok: "enc_ok S c e \<Longrightarrow> enc_ok S c (SetCapacity cap e)"
  by (rule SetCapacity_ok) (auto simp: enc_ok_def)

lemma add_log:
  assumes log: "sender_log Ls F as its s" and add: "Add (vector_of a) (SetCapacity cap (sEncoder s)) = (esi, e)"
    and ok: "pieces_ok Ls F (as @ [a])" and s': "s' = s\<lparr>sEncoder := e, sSymbols := sSymbols s + 1\<rparr>"
  shows "sender_log Ls F (as @ [a]) its s'" and "esi = word_of_nat (length as)"
    and "agrees S (as @ [a]) \<Longrightarrow> items_ok S (length (as @ [a])) (its @ [SourceItem (length as) (vector_of a)])"
proof -
  have enc: "enc_ok S (length as) (SetCapacity cap (sEncoder s))" "items_ok S (length as) its" "vector_of a = S (word_of_nat (length as))"
    if "agrees S (as @ [a])" for S
    using that log capacity_ok by (auto simp: sender_log_def agrees_snoc)
  have e: "eNext e = word_of_nat (length (as @ [a]))" using add log by (auto simp: Add_def Let_def SetCapacity_def sender_log_def add.commute)
  show "sender_log Ls F (as @ [a]) its s'" unfolding sender_log_def
  proof (intro conjI allI impI)
    fix S assume S: "agrees S (as @ [a])"
    show "enc_ok S (length (as @ [a])) (sEncoder s')" using Add_ok(2) [OF enc(1,3) [OF S] add] s' by simp
    show "items_ok S (length (as @ [a])) its" using items_ok_mono [OF enc(2) [OF S]] by simp
  qed (use log ok s' e in \<open>simp_all add: sender_log_def\<close>)
  have nxt: "eNext (SetCapacity cap (sEncoder s)) = word_of_nat (length as)" using log by (simp add: SetCapacity_def Let_def sender_log_def)
  then show "esi = word_of_nat (length as)" using add by (auto simp: Add_def Let_def)
  show "items_ok S (length (as @ [a])) (its @ [SourceItem (length as) (vector_of a)])" if S: "agrees S (as @ [a])"
    by (rule items_ok_snoc [OF enc(2) [OF S]]) (use enc(3) [OF S] in simp_all)
qed

lemma emit_log:
  assumes log: "sender_log Ls F as its s" and em: "emit ca dec (payload_of a) (index_of a) (count_of a) s = (err, s')"
    and ok: "pieces_ok Ls F (as @ [a])"
  shows "(\<exists>its'. sender_log Ls F (as @ [a]) its' s') \<and> sPacked s' = sPacked s"
proof -
  let ?cap = "window dec (sSymbols s)"
  obtain esi e where add: "Add (vector_of a) (SetCapacity ?cap (sEncoder s)) = (esi, e)" by fastforce
  let ?s = "s\<lparr>sEncoder := e, sSymbols := sSymbols s + 1\<rparr>" and ?it = "SourceItem (length as) (vector_of a)"
  note l = add_log [OF log add ok refl]
  obtain seq s1 where t: "take_seq ?s = (seq, s1)" by fastforce
  obtain b e1 s2 where p: "put ca (item_bytes seq ?it) s1 = ((b, e1), s2)" by (metis prod.collapse)
  have one: "(if b then e1 = None \<and> sender_log Ls F (as @ [a]) (its @ [?it]) s2 else e1 \<noteq> None \<and> sender_log Ls F (as @ [a]) its s2) \<and>
      sPacked s2 = sPacked ?s \<and> sEncoder s2 = sEncoder ?s"
    by (rule put_item [OF l(1) t p l(3)])
  have src: "sendSource ca esi (vector_of a) ?s = (e1, s2)" using t p l(2) by (simp add: sendSource_def)
  have "\<exists>its2. sender_log Ls F (as @ [a]) its2 s2" using one by (cases b) auto
  then obtain its2 where its2: "sender_log Ls F (as @ [a]) its2 s2" by blast
  show ?thesis
  proof (cases e1)
    case (Some x)
    then have "s' = (if x = Oversize then dropOversizedWindow s2 else s2)"
      using em add src by (cases x) (auto simp: emit_def vector_of_def Let_def)
    then show ?thesis using its2 one reset_log [OF its2] by (auto simp: dropOversizedWindow_def)
  next
    case None
    let ?s2 = "s2\<lparr>sBurstSymbols := sBurstSymbols s2 + 1\<rparr>"
    have l2: "sender_log Ls F (as @ [a]) its2 ?s2" using its2 by (simp add: sender_log_def)
    obtain e3 s3 where r: "earned_repairs ca (earned dec (sSymbols s)) ?s2 = (e3, s3)" by fastforce
    obtain its3 where l3: "sender_log Ls F (as @ [a]) its3 s3" "sPacked s3 = sPacked s2" using earned_log [OF l2 r] by auto
    have "s' = s3 \<or> s' = s3\<lparr>sBurstSymbols := 0, sBurstRepairs := 0\<rparr>"
      using em add src None r by (auto simp: emit_def vector_of_def Let_def split: option.splits)
    then show ?thesis
    proof
      assume "s' = s3"
      then show ?thesis using l3 one by auto
    next
      assume s': "s' = s3\<lparr>sBurstSymbols := 0, sBurstRepairs := 0\<rparr>"
      have "sender_log Ls F (as @ [a]) its3 s'" using l3(1) s' by (simp add: sender_log_def)
      then show ?thesis using l3(2) one s' by auto
    qed
  qed
qed

text \<open>The room a symbol has is at least 5 bytes, and lengths fit the two bytes they are sent in.\<close>

definition rooms_ok :: "nat set \<Rightarrow> bool" where
  "rooms_ok Ls \<longleftrightarrow> (\<forall>l \<in> Ls. 5 \<le> l \<and> l < 65536)"

lemma flush_log:
  assumes log: "sender_log Ls F as its s" and pk: "packed_ok Ls F s" and fl: "flushPacked ca dec s = (err, s')"
  shows "(\<exists>as' its'. sender_log Ls F (as @ as') its' s') \<and> sPacked s' = []"
proof (cases "sPacked s = []")
  case True
  then have "s' = s" using fl by (simp add: flushPacked_def)
  then show ?thesis using True log by (metis append_Nil2)
next
  case False
  obtain fs where fs: "sPacked s = pack fs" "set fs \<subseteq> F" "\<forall>f \<in> set fs. shares Ls f" "length (pack fs) < 65536"
    using pk by (auto simp: packed_ok_def)
  obtain e1 s1 where em: "emit ca dec (sPacked s) 0 1 s = (e1, s1)" by fastforce
  have ok: "pieces_ok Ls F (as @ [Packed fs])"
    by (rule pieces_ok_snoc) (use log fs in \<open>simp_all add: sender_log_def\<close>)
  have "emit ca dec (payload_of (Packed fs)) (index_of (Packed fs)) (count_of (Packed fs)) s = (e1, s1)" using em fs(1) by simp
  from emit_log [OF log this ok] obtain its' where l: "sender_log Ls F (as @ [Packed fs]) its' s1" by blast
  have "sender_log Ls F (as @ [Packed fs]) its' (s1\<lparr>sPacked := []\<rparr>)" using l by (simp add: sender_log_def)
  moreover have "s' = s1\<lparr>sPacked := []\<rparr>" using fl False em by (simp add: flushPacked_def)
  ultimately show ?thesis by auto
qed

section \<open>Fragments\<close>

definition fragments :: "nat \<Rightarrow> bytes \<Rightarrow> bytes list" where
  "fragments lim f = map (\<lambda>i. slice (i * lim) (min ((i + 1) * lim) (length f)) f) [0..<(length f + lim - 1) div lim]"

lemma fragments_ok:
  assumes "0 < lim"
  shows "concat (fragments lim f) = f" and "length (fragments lim f) = (length f + lim - 1) div lim"
    and "[] \<notin> set (fragments lim f)" and "x \<in> set (fragments lim f) \<Longrightarrow> length x \<le> lim"
proof -
  let ?n = "(length f + lim - 1) div lim"
  show "length (fragments lim f) = ?n" by (simp add: fragments_def)
  have "length f \<le> ?n * lim"
  proof -
    have "length f + lim - 1 = ?n * lim + (length f + lim - 1) mod lim" by simp
    moreover have "(length f + lim - 1) mod lim \<le> lim - 1" using assms by (simp add: Suc_leI less_Suc_eq_le [symmetric])
    ultimately show ?thesis using assms by linarith
  qed
  then show "concat (fragments lim f) = f" unfolding fragments_def concat_slices by simp
  have inside: "i * lim < length f" if "i < ?n" for i
  proof -
    have "Suc i * lim \<le> ?n * lim" using that by (intro mult_le_mono1) simp
    also have "\<dots> \<le> length f + lim - 1" by simp
    finally show ?thesis using assms by simp
  qed
  have "slice (i * lim) (min ((i + 1) * lim) (length f)) f \<noteq> []" if "i < ?n" for i
    using inside [OF that] assms by (simp add: slice_def)
  then show "[] \<notin> set (fragments lim f)" by (auto simp: fragments_def dest!: sym [of "[]"])
  show "length x \<le> lim" if "x \<in> set (fragments lim f)"
    using that by (auto simp: fragments_def slice_def)
qed

lemma fragment_log:
  assumes lim: "lim \<in> Ls" "rooms_ok Ls" and f: "f \<in> F" "lim < length f" and n: "(length f + lim - 1) div lim = c" "c \<le> 256"
  shows "sender_log Ls F as its s \<Longrightarrow> i + n = c \<Longrightarrow> length as = k + i \<Longrightarrow> i = 0 \<or> as ! k = Part k (fragments lim f) 0 \<Longrightarrow>
    fragment_loop ca dec f lim c i n s = (err, s') \<Longrightarrow>
    (\<exists>as' its'. sender_log Ls F (as @ as') its' s') \<and> sPacked s' = sPacked s"
proof (induction n arbitrary: as its s i)
  case 0
  then have "s' = s" by simp
  then show ?case using 0(1) by (metis append_Nil2)
next
  case (Suc n)
  let ?ps = "fragments lim f" and ?a = "Part k (fragments lim f) i"
  have l: "0 < lim" "lim < 65536" using lim by (auto simp: rooms_ok_def)
  note fr = fragments_ok [OF l(1)]
  have c: "length ?ps = c" "i < c" using fr(2) [of f] n(1) Suc.prems(2) by simp_all
  have two: "2 \<le> c"
  proof -
    have "2 * lim \<le> length f + lim - 1" using f(2) l(1) by simp
    then have "(2 * lim) div lim \<le> c" unfolding n(1) [symmetric] by (rule div_le_mono)
    then show ?thesis using l(1) by simp
  qed
  have at: "?ps ! i = slice (i * lim) (min ((i + 1) * lim) (length f)) f" using c n(1) by (simp add: fragments_def)
  have len: "length (?ps ! i) < 65536" using fr(4) [of "?ps ! i" f] c l(2) by (meson le_less_trans nth_mem)
  have ok: "pieces_ok Ls F (as @ [?a])"
  proof (rule pieces_ok_snoc)
    show "pieces_ok Ls F as" using Suc.prems(1) by (simp add: sender_log_def)
    show "piece_ok Ls F ?a" using f c n(2) two lim(1) fr(1,3) [of f] by auto
  qed (use len Suc.prems(3,4) in auto)
  obtain e1 s1 where em: "emit ca dec (?ps ! i) i c s = (e1, s1)" by fastforce
  obtain its1 where one: "sender_log Ls F (as @ [?a]) its1 s1" "sPacked s1 = sPacked s"
    using emit_log [OF Suc.prems(1) _ ok, of ca dec e1 s1] em c(1) by auto
  show ?case
  proof (cases e1)
    case (Some x)
    then have "s' = s1" using Suc.prems(5) em at by (cases x) auto
    then show ?thesis using one by blast
  next
    case None
    have "as @ [?a] \<noteq> [] \<and> (as @ [?a]) ! k = Part k ?ps 0"
      using Suc.prems(3,4) by (cases "i = 0") (auto simp: nth_append)
    moreover have "fragment_loop ca dec f lim c (i + 1) n s1 = (err, s')" using Suc.prems(5) em at None by simp
    ultimately have "(\<exists>as' its'. sender_log Ls F ((as @ [?a]) @ as') its' s') \<and> sPacked s' = sPacked s1"
      using Suc.IH [OF one(1), of "i + 1"] Suc.prems(2,3) by simp
    then show ?thesis using one(2) by auto
  qed
qed

section \<open>Frames and bursts\<close>

lemma one_fragment:
  assumes "length f \<le> lim" and "0 < length f" and "0 < lim"
  shows "(length f + lim - 1) div lim = 1" and "slice (0 * lim) (min ((0 + 1) * lim) (length f)) f = f"
proof -
  have "length f + lim - 1 = (length f - 1) + 1 * lim" using assms(2) by linarith
  then have "(length f + lim - 1) div lim = 1 + (length f - 1) div lim" using assms(3) by (simp only: div_mult_self1)
  moreover have "length f - 1 < lim" using assms by linarith
  ultimately show "(length f + lim - 1) div lim = 1" by simp
qed (use assms(1) in \<open>simp add: slice_def\<close>)

lemma lone_log:
  assumes log: "sender_log Ls F as its s" and f: "f \<in> F" "boundary Ls (length f)" "length f < 65536"
    and fl: "fragment_loop ca dec f lim 1 0 1 s = (err, s')" and one: "slice (0 * lim) (min ((0 + 1) * lim) (length f)) f = f"
  shows "(\<exists>as' its'. sender_log Ls F (as @ as') its' s') \<and> sPacked s' = sPacked s"
proof -
  obtain e1 s1 where em: "emit ca dec f 0 1 s = (e1, s1)" by fastforce
  have ok: "pieces_ok Ls F (as @ [Lone f])"
    by (rule pieces_ok_snoc) (use log f in \<open>simp_all add: sender_log_def\<close>)
  have "(\<exists>its'. sender_log Ls F (as @ [Lone f]) its' s1) \<and> sPacked s1 = sPacked s"
    by (rule emit_log [OF log _ ok]) (use em in simp)
  moreover have "s' = s1" using fl em one by (auto split: option.splits send_error.splits prod.splits)
  ultimately show ?thesis by blast
qed

lemma sendFragments_log:
  assumes log: "sender_log Ls F as its s" and lim: "lim \<in> Ls" "rooms_ok Ls" and f: "f \<in> F" "lim < length f + 4"
    and sf: "sendFragments ca dec f lim s = (err, s')"
  shows "(\<exists>as' its'. sender_log Ls F (as @ as') its' s') \<and> sPacked s' = sPacked s"
proof -
  let ?c = "(length f + lim - 1) div lim"
  have l: "5 \<le> lim" "lim < 65536" using lim by (auto simp: rooms_ok_def)
  show ?thesis
  proof (cases "?c > 256")
    case True
    then have "s' = s" using sf by (simp add: sendFragments_def maxSymbolParts_def MaxRepairWindow_def)
    then show ?thesis using log by (metis append_Nil2)
  next
    case False
    then have fl: "fragment_loop ca dec f lim ?c 0 ?c s = (err, s')"
      using sf by (simp add: sendFragments_def maxSymbolParts_def MaxRepairWindow_def Let_def)
    show ?thesis
    proof (cases "lim < length f")
      case True
      show ?thesis
        by (rule fragment_log [where i = 0 and k = "length as", OF lim f(1) True refl _ log _ _ _ fl]) (use False in simp_all)
    next
      case False
      then have le: "length f \<le> lim" "0 < length f" using f(2) l by linarith+
      note one = one_fragment [OF le, of]
      have "boundary Ls (length f)" using lim(1) le(1) f(2) by (auto simp: boundary_def)
      then show ?thesis using lone_log [OF log f(1) _ _ _ one(2)] fl one(1) le l by simp
    qed
  qed
qed

lemma appendFrame_log:
  assumes log: "sender_log Ls F as its s" and pk: "packed_ok Ls F s" and Ls: "range (symbolPayload ca n) \<subseteq> Ls" "rooms_ok Ls"
    and f: "f \<in> F" and ap: "appendFrame ca n dec f s = (err, s')"
  shows "(\<exists>as' its'. sender_log Ls F (as @ as') its' s') \<and> (err = None \<longrightarrow> packed_ok Ls F s')"
proof -
  let ?lim = "symbolPayload ca n (sCarrier s)"
  have lim: "?lim \<in> Ls" "?lim < 65536" using Ls by (auto simp: rooms_ok_def)
  have empty: "packed_ok Ls F x" if "sPacked x = []" for x :: "('a, 'b) sender"
    using that by (auto simp: packed_ok_def intro: exI [of _ "[]"])
  show ?thesis
  proof (cases "frameHeader + length f > ?lim")
    case True
    obtain e1 s1 where fl: "flushPacked ca dec s = (e1, s1)" by fastforce
    obtain as1 its1 where one: "sender_log Ls F (as @ as1) its1 s1" "sPacked s1 = []" using flush_log [OF log pk fl] by blast
    show ?thesis
    proof (cases e1)
      case None
      then have sf: "sendFragments ca dec f ?lim s1 = (err, s')" using ap True fl by (simp add: appendFrame_def)
      have "?lim < length f + 4" using True by (simp add: frameHeader_def)
      from sendFragments_log [OF one(1) lim(1) Ls(2) f this sf] show ?thesis using one(2) empty by auto
    next
      case (Some e)
      then show ?thesis using ap True fl one by (auto simp: appendFrame_def)
    qed
  next
    case False
    have share: "shares Ls f" unfolding shares_def by (rule bexI [OF _ lim(1)]) (use False in \<open>simp add: frameHeader_def\<close>)
    show ?thesis
    proof (cases "length (sPacked s) + frameHeader + length f > ?lim")
      case True
      obtain e1 s1 where fl: "flushPacked ca dec s = (e1, s1)" by fastforce
      obtain as1 its1 where one: "sender_log Ls F (as @ as1) its1 s1" "sPacked s1 = []" using flush_log [OF log pk fl] by blast
      show ?thesis
      proof (cases e1)
        case None
        then have s': "err = None" "s' = s1\<lparr>sPacked := packed_frame f\<rparr>" using ap True False fl one(2) by (simp_all add: appendFrame_def)
        have "sender_log Ls F (as @ as1) its1 s'" using one(1) s' by (simp add: sender_log_def)
        moreover have "packed_ok Ls F s'"
          using f share False lim(2) s' by (auto simp: packed_ok_def frameHeader_def intro!: exI [of _ "[f]"])
        ultimately show ?thesis by blast
      next
        case (Some e)
        then show ?thesis using ap True False fl one by (auto simp: appendFrame_def)
      qed
    next
      case fits: False
      then have s': "err = None" "s' = s\<lparr>sPacked := sPacked s @ packed_frame f\<rparr>" using ap False by (simp_all add: appendFrame_def)
      obtain fs where fs: "sPacked s = pack fs" "set fs \<subseteq> F" "\<forall>f \<in> set fs. shares Ls f" using pk by (auto simp: packed_ok_def)
      have "packed_ok Ls F s'"
        using fs f share fits lim(2) s' by (auto simp: packed_ok_def frameHeader_def intro!: exI [of _ "fs @ [f]"])
      moreover have "sender_log Ls F (as @ []) its s'" using log s' by (simp add: sender_log_def)
      ultimately show ?thesis by blast
    qed
  qed
qed

lemma append_frames_log:
  assumes Ls: "range (symbolPayload ca n) \<subseteq> Ls" "rooms_ok Ls"
  shows "sender_log Ls F as its s \<Longrightarrow> packed_ok Ls F s \<Longrightarrow> set fs \<subseteq> F \<Longrightarrow> append_frames ca n dec fs s = (err, s') \<Longrightarrow>
    (\<exists>as' its'. sender_log Ls F (as @ as') its' s') \<and> (err = None \<longrightarrow> packed_ok Ls F s')"
proof (induction fs arbitrary: as its s)
  case Nil
  then have "s' = s" by simp
  then show ?case using Nil(1,2) by (metis append_Nil2)
next
  case (Cons f fs)
  obtain e1 s1 where ap: "appendFrame ca n dec f s = (e1, s1)" by fastforce
  have f: "f \<in> F" using Cons.prems(3) by simp
  obtain as1 its1 where one: "sender_log Ls F (as @ as1) its1 s1" "e1 = None \<longrightarrow> packed_ok Ls F s1"
    using appendFrame_log [OF Cons.prems(1,2) Ls f ap] by blast
  show ?case
  proof (cases e1)
    case None
    have "(\<exists>as' its'. sender_log Ls F ((as @ as1) @ as') its' s') \<and> (err = None \<longrightarrow> packed_ok Ls F s')"
      by (rule Cons.IH [OF one(1)]) (use one(2) None Cons.prems(3,4) ap in auto)
    then show ?thesis by auto
  next
    case (Some e)
    then show ?thesis using Cons.prems(4) ap one(1) by auto
  qed
qed

lemma send_batch_log:
  assumes Ls: "range (symbolPayload ca n) \<subseteq> Ls" "rooms_ok Ls" and log: "sender_log Ls F as its s" "packed_ok Ls F s"
    and fs: "set fs \<subseteq> F" and sb: "send_batch ca n dec fs s = (err, s')"
  shows "(\<exists>as' its'. sender_log Ls F (as @ as') its' s') \<and> (err = None \<longrightarrow> packed_ok Ls F s')"
proof -
  have empty: "packed_ok Ls F x" if "sPacked x = []" for x :: "('a, 'b) sender"
    using that by (auto simp: packed_ok_def intro: exI [of _ "[]"])
  obtain e1 s1 where ap: "append_frames ca n dec fs s = (e1, s1)" by fastforce
  obtain as1 its1 where one: "sender_log Ls F (as @ as1) its1 s1" "e1 = None \<longrightarrow> packed_ok Ls F s1"
    using append_frames_log [OF Ls log fs ap] by blast
  show ?thesis
  proof (cases e1)
    case (Some e)
    then show ?thesis using sb ap one(1) by (auto simp: send_batch_def)
  next
    case None
    obtain e2 s2 where fl: "flushPacked ca dec s1 = (e2, s2)" by fastforce
    obtain as2 its2 where two: "sender_log Ls F ((as @ as1) @ as2) its2 s2" "sPacked s2 = []"
      using flush_log [OF one(1) _ fl] one(2) None by blast
    show ?thesis
    proof (cases e2)
      case (Some e)
      then show ?thesis using sb ap None fl two(1) by (auto simp: send_batch_def)
    next
      case e2: None
      then have pb: "protectBurst ca dec s2 = (err, s')" using sb ap None fl by (simp add: send_batch_def)
      show ?thesis
      proof (cases "sBurstSymbols s2 \<le> 0")
        case True
        then have "s' = s2" using pb by (simp add: protectBurst_def)
        then show ?thesis using two empty by auto
      next
        case False
        obtain e3 s3 where pl: "protect_loop ca (tailRepairs dec (sSymbols s2) (sBurstSymbols s2)) s2 = (e3, s3)" by fastforce
        obtain its3 where three: "sender_log Ls F ((as @ as1) @ as2) its3 s3" "sPacked s3 = []"
          using protect_log [OF two(1) pl] two(2) by auto
        have s': "s' = s3 \<or> s' = s3\<lparr>sBurstSymbols := 0, sBurstRepairs := 0\<rparr>"
          using pb False pl by (auto simp: protectBurst_def split: option.splits)
        then have "sender_log Ls F ((as @ as1) @ as2) its3 s'" "sPacked s' = []"
          using three by (auto simp: sender_log_def)
        then show ?thesis using empty by auto
      qed
    qed
  qed
qed

lemma sendLoop_log:
  assumes Ls: "range (symbolPayload ca n) \<subseteq> Ls" "rooms_ok Ls"
  shows "sender_log Ls F as its s \<Longrightarrow> packed_ok Ls F s \<Longrightarrow> set (concat bs) \<subseteq> F \<Longrightarrow> sendLoop ca n dec bs s = (err, s') \<Longrightarrow>
    \<exists>as' its'. sender_log Ls F (as @ as') its' s'"
proof (induction bs arbitrary: as its s)
  case Nil
  then have "s' = s" by simp
  then show ?case using Nil(1,2) by (metis append_Nil2)
next
  case (Cons b bs)
  obtain e1 s1 where sb: "send_batch ca n dec b s = (e1, s1)" by fastforce
  obtain as1 its1 where one: "sender_log Ls F (as @ as1) its1 s1" "e1 = None \<longrightarrow> packed_ok Ls F s1"
    using send_batch_log [OF Ls Cons.prems(1,2) _ sb] Cons.prems(3) by auto
  show ?case
  proof (cases e1)
    case None
    have "\<exists>as' its'. sender_log Ls F ((as @ as1) @ as') its' s'"
      by (rule Cons.IH [OF one(1)]) (use one(2) None Cons.prems(3,4) sb in auto)
    then show ?thesis by auto
  next
    case (Some e)
    then show ?thesis using Cons.prems(4) sb one(1) by auto
  qed
qed

lemma payload_room: "5 \<le> symbolPayload ca n q"
  by (auto simp: symbolPayload_def symbolBytes_def cfg_defs Let_def split: option.splits)

lemma payload_small: "n \<le> 65000 \<Longrightarrow> symbolPayload ca n q < 65536"
  by (auto simp: symbolPayload_def symbolBytes_def default_bytes_def cfg_defs Let_def split: option.splits)

lemma new_sender_log: "sender_log Ls F [] [] (new_sender q)" and new_sender_packed: "packed_ok Ls F (new_sender q)"
proof -
  have "eNext (NewWindowEncoder initialWindow) = 0" by (simp add: NewWindowEncoder_def SetCapacity_def Let_def)
  then show "sender_log Ls F [] [] (new_sender q)"
    using NewWindowEncoder_ok by (simp add: sender_log_def new_sender_def pieces_ok_def wire_of_def items_ok_def)
  show "packed_ok Ls F (new_sender q)" by (auto simp: packed_ok_def new_sender_def intro: exI [of _ "[]"])
qed

end
