(* ===== verification/CodedReceive.thy ===== *)
theory CodedReceive
  imports CodedSend FecChannel
begin

text \<open>
  What the receiving side of the coded path makes of the sender's datagrams, whichever of them arrive: every
  symbol that reaches the assembler is one the sender emitted, every group of fragments is of one frame,
  and so is every frame handed up.
\<close>

section \<open>Parsing what was packed\<close>

lemma u16_small: "n < 65536 \<Longrightarrow> unat (word_of_nat n :: u16) = n"
  by (simp add: unat_of_nat_small)

lemma length_symbol_vector [simp]: "length (symbol_vector pl i c) = 6 + length pl"
  by (simp add: symbol_vector_def)

lemma parse_header:
  assumes "length v \<ge> 6" and "take 6 v = take 6 (symbol_vector pl i c)" and "length pl < 65536" and "i < c" and "c \<le> 256"
  shows "parseSymbol v = (if 6 + length pl \<le> length v then Some (take (length pl) (drop 6 v), i, c) else None)"
proof -
  have v: "v = put_u16 (word_of_nat (length pl)) @ put_u16 (word_of_nat i) @ put_u16 (word_of_nat c) @ drop 6 v"
    using assms(2) append_take_drop_id [of 6 v] by (simp add: symbol_vector_def)
  have d2: "drop 2 v = put_u16 (word_of_nat i) @ put_u16 (word_of_nat c) @ drop 6 v"
    by (subst v) simp
  have d4: "drop 4 v = put_u16 (word_of_nat c) @ drop 6 v" by (subst v) simp
  have g: "get_u16 v = word_of_nat (length pl)" "get_u16 (drop 2 v) = word_of_nat i" "get_u16 (drop 4 v) = word_of_nat c"
    unfolding d2 d4 by (subst v, simp) simp_all
  have "unat (word_of_nat i :: u16) = i" "unat (word_of_nat c :: u16) = c" "unat (word_of_nat (length pl) :: u16) = length pl"
    using assms(3-5) by (simp_all add: u16_small)
  then show ?thesis unfolding parseSymbol_def g Let_def using assms(1,4,5)
    by (simp add: symbolHeader_def maxSymbolParts_def MaxRepairWindow_def slice_def)
qed

lemma parse_same:
  assumes "same_symbol v (symbol_vector pl i c)" and "length pl < 65536" and "i < c" and "c \<le> 256"
  shows "parseSymbol v = None \<or> parseSymbol v = Some (pl, i, c)"
proof (cases "length v \<ge> 6")
  case True
  let ?w = "symbol_vector pl i c"
  have at: "v ! j = ?w ! j" if "j < length v" "j < length ?w" for j
    using assms(1) that by (auto simp: same_symbol_def zext_def dest: spec [of _ j])
  have "take 6 v = take 6 ?w" by (rule nth_equalityI) (use True at in auto)
  note p = parse_header [OF True this assms(2-4)]
  have "take (length pl) (drop 6 v) = pl" if l: "6 + length pl \<le> length v"
  proof (rule nth_equalityI)
    fix j assume "j < length (take (length pl) (drop 6 v))"
    then have j: "j < length pl" "6 + j < length v" using l by simp_all
    have "?w ! (6 + j) = pl ! j" by (simp add: symbol_vector_def nth_append)
    then show "take (length pl) (drop 6 v) ! j = pl ! j" using at [of "6 + j"] j by (simp add: add.commute)
  qed (use l in simp)
  then show ?thesis using p by auto
qed (simp add: parseSymbol_def symbolHeader_def)

lemma parse_exact: "length pl < 65536 \<Longrightarrow> i < c \<Longrightarrow> c \<le> 256 \<Longrightarrow> parseSymbol (symbol_vector pl i c) = Some (pl, i, c)"
  by (subst parse_header [where pl = pl and i = i and c = c]) (auto simp: symbol_vector_def)

lemma parseFrames_pack: "\<forall>f \<in> set fs. length f < 2 ^ 32 \<Longrightarrow> parseFrames (pack fs) = fs"
proof (induction fs)
  case Nil
  then show ?case by (simp add: parseFrames.simps [of "[]"] frameHeader_def)
next
  case (Cons f fs)
  have g: "unat (get_u32 (pack (f # fs))) = length f" using Cons.prems by (simp add: packed_frame_def unat_of_nat_small)
  have d: "drop 4 (pack (f # fs)) = f @ pack fs" by (simp add: packed_frame_def)
  show ?case
    using Cons g d unfolding parseFrames.simps [of "pack (f # fs)"] frameHeader_def Let_def by simp
qed

text \<open>What a boundary frame is taken for.\<close>

lemma parseFrames_shorter: "x \<in> set (parseFrames f) \<Longrightarrow> length x + 4 \<le> length f"
proof (induction f rule: parseFrames.induct)
  case (1 f)
  show ?case
  proof (cases "length f < 4 \<or> unat (get_u32 f) > length (drop 4 f)")
    case True
    then show ?thesis using "1.prems" by (auto simp: parseFrames.simps [of f] frameHeader_def Let_def split: if_splits)
  next
    case False
    then have "x = take (unat (get_u32 f)) (drop 4 f) \<or> x \<in> set (parseFrames (drop (unat (get_u32 f)) (drop 4 f)))"
      using "1.prems" by (auto simp: parseFrames.simps [of f] frameHeader_def Let_def)
    then show ?thesis using "1.IH" [OF _ refl refl] False by (fastforce simp: frameHeader_def)
  qed
qed

section \<open>Groups of one frame\<close>

definition genuine :: "nat set \<Rightarrow> bytes set \<Rightarrow> bytes \<Rightarrow> bool" where
  "genuine Ls F x \<longleftrightarrow> x \<in> F \<and> (shares Ls x \<or> (\<exists>l \<in> Ls. l < length x)) \<or>
     (\<exists>f \<in> F. boundary Ls (length f) \<and> x \<in> set (parseFrames f))"

definition filled :: "bytes option list \<Rightarrow> nat" where
  "filled ps = length (filter (\<lambda>p. p \<noteq> None) ps)"

definition group_ok :: "piece list \<Rightarrow> u32 \<Rightarrow> group \<Rightarrow> bool" where
  "group_ok as first g \<longleftrightarrow> (\<exists>k ps. k < length as \<and> first = word_of_nat k \<and> as ! k = Part k ps 0 \<and> gCount g = length ps \<and>
     length (gParts g) \<le> length ps \<and> (\<forall>i < length (gParts g). \<forall>b. gParts g ! i = Some b \<longrightarrow> b = ps ! i) \<and> gHeld g = filled (gParts g))"

definition asm_ok :: "piece list \<Rightarrow> assembler \<Rightarrow> bool" where
  "asm_ok as a \<longleftrightarrow> distinct (map fst (aGroups a)) \<and> (\<forall>first g. map_of (aGroups a) first = Some g \<longrightarrow> group_ok as first g)"

lemma filled_snoc_none [simp]: "filled (ps @ replicate n None) = filled ps"
  by (simp add: filled_def)

lemma filled_update: "i < length ps \<Longrightarrow> ps ! i = None \<Longrightarrow> filled (ps[i := Some b]) = Suc (filled ps)"
proof (induction ps arbitrary: i)
  case (Cons p ps)
  then show ?case by (cases i) (auto simp: filled_def)
qed simp

lemma filled_all: "filled ps \<le> length ps" "filled ps = length ps \<Longrightarrow> \<forall>i < length ps. ps ! i \<noteq> None"
proof -
  show "filled ps \<le> length ps" by (simp add: filled_def)
  show "\<forall>i < length ps. ps ! i \<noteq> None" if "filled ps = length ps"
    using that filter_True [of ps] by (metis (mono_tags, lifting) filled_def length_filter_less nth_mem less_irrefl)
qed

lemma filtered_ok:
  assumes "asm_ok as a"
  shows "asm_ok as (a\<lparr>aGroups := filter P (aGroups a)\<rparr>)"
proof -
  have d: "distinct (map fst (filter P (aGroups a)))" using assms by (simp add: asm_ok_def distinct_map_filter)
  have "map_of (aGroups a) first = Some g" if "map_of (filter P (aGroups a)) first = Some g" for first g
    using map_of_SomeD [OF that] assms by (auto simp: asm_ok_def)
  then show ?thesis using assms d by (simp add: asm_ok_def del: map_of_eq_Some_iff)
qed

lemma same_groups_ok: "aGroups a' = aGroups a \<Longrightarrow> asm_ok as a \<Longrightarrow> asm_ok as a'"
  by (simp add: asm_ok_def)

lemma note_ok: "asm_ok as a \<Longrightarrow> asm_ok as (note_symbol esi a)"
  using filtered_ok [of as "a\<lparr>aHigh := esi\<rparr>"] same_groups_ok [of "a\<lparr>aHigh := esi\<rparr>" a] same_groups_ok [of "a\<lparr>aSeen := True, aHigh := esi\<rparr>" a]
  by (auto simp: note_symbol_def prune_def)

lemma lost_ok:
  assumes "asm_ok as a"
  shows "asm_ok as (lost esi a)"
proof -
  let ?a = "(note_symbol esi a)\<lparr>aLost := aLost (note_symbol esi a) + 1\<rparr>"
  have "asm_ok as ?a" using note_ok [OF assms] same_groups_ok [of ?a "note_symbol esi a"] by simp
  from filtered_ok [OF this] show ?thesis by (simp add: lost_def Let_def)
qed

lemma drop_oldest_ok: "asm_ok as a \<Longrightarrow> asm_ok as (dropOldestGroupLocked a)"
  by (auto simp: dropOldestGroupLocked_def AList.delete_eq filtered_ok split: option.splits)

lemma delete_ok: "asm_ok as a \<Longrightarrow> asm_ok as (a\<lparr>aGroups := AList.delete first (aGroups a)\<rparr>)"
  by (simp add: AList.delete_eq filtered_ok)

lemma group_update_ok: "asm_ok as a \<Longrightarrow> group_ok as first g \<Longrightarrow> asm_ok as (a\<lparr>aGroups := AList.update first g (aGroups a)\<rparr>)"
  by (auto simp: asm_ok_def AList.distinct_update AList.update_conv' simp del: map_of_eq_Some_iff split: if_splits)

lemma find_group_ok:
  assumes a: "asm_ok as a" and k: "k < length as" "as ! k = Part k ps 0" and n: "length as \<le> 2 ^ 31"
    and f: "find_group (word_of_nat k) (length ps) a = (g, a')"
  shows "asm_ok as a'" and "gCount g = length ps" and "length (gParts g) \<le> length ps"
    and "\<And>i b. i < length (gParts g) \<Longrightarrow> gParts g ! i = Some b \<Longrightarrow> b = ps ! i" and "gHeld g = filled (gParts g)"
proof -
  have "asm_ok as a' \<and> group_ok as (word_of_nat k) g"
  proof (cases "map_of (aGroups a) (word_of_nat k)")
    case None
    let ?g = "\<lparr>gParts = [], gCount = length ps, gHeld = 0, gBytes = 0\<rparr>"
    let ?a = "if length (aGroups a) \<ge> assemblerMaxGroups then dropOldestGroupLocked a else a"
    have new: "group_ok as (word_of_nat k) ?g" using k by (auto simp: group_ok_def filled_def)
    have "asm_ok as ?a" using a drop_oldest_ok by simp
    from group_update_ok [OF this new] show ?thesis using f None new by (auto simp: find_group_def Let_def split del: if_split)
  next
    case (Some g0)
    then show ?thesis using f a by (auto simp: find_group_def asm_ok_def simp del: map_of_eq_Some_iff)
  qed
  then obtain k' ps' where g: "asm_ok as a'" "k' < length as" "word_of_nat k = (word_of_nat k' :: u32)" "as ! k' = Part k' ps' 0"
    "gCount g = length ps'" "length (gParts g) \<le> length ps'" "gHeld g = filled (gParts g)"
    "\<forall>i < length (gParts g). \<forall>b. gParts g ! i = Some b \<longrightarrow> b = ps' ! i" unfolding group_ok_def by blast
  have "unat (word_of_nat k :: u32) = k" "unat (word_of_nat k' :: u32) = k'" using k(1) g(2) n by (simp_all add: unat_of_nat_small)
  then have "k = k'" using g(3) by metis
  then have "ps' = ps" using k(2) g(4) by simp
  then show "asm_ok as a'" "gCount g = length ps" "length (gParts g) \<le> length ps" "gHeld g = filled (gParts g)"
    "\<And>i b. i < length (gParts g) \<Longrightarrow> gParts g ! i = Some b \<Longrightarrow> b = ps ! i" using g by auto
qed

lemma joined_all:
  assumes "length qs = length ps" and "\<And>i. i < length ps \<Longrightarrow> qs ! i = Some (ps ! i)"
  shows "joined qs = concat ps"
proof -
  have "map (\<lambda>p. case p of None \<Rightarrow> [] | Some b \<Rightarrow> b) qs = ps"
    by (rule nth_equalityI) (use assms in simp_all)
  then show ?thesis by (simp add: joined_def)
qed

lemma part_ok:
  assumes a: "asm_ok as a" and ok: "pieces_ok Ls F as" and n: "length as \<le> 2 ^ 31"
    and p: "p < length as" "as ! p = Part k ps i" and res: "arrived_part (word_of_nat p) (ps ! i) i (length ps) a = (out, a')"
  shows "asm_ok as a' \<and> (\<forall>x \<in> set out. genuine Ls F x)"
proof -
  have pk: "p = k + i" "as ! k = Part k ps 0" "concat ps \<in> F" "length ps \<le> 256" "[] \<notin> set ps" "i < length ps" "\<exists>l \<in> Ls. l < length (concat ps)"
    using ok p by (auto simp: pieces_ok_def)
  have k: "k < length as" using p(1) pk(1) by simp
  have first: "(word_of_nat p :: u32) - word_of_nat i = word_of_nat k" using pk(1) by simp
  obtain g a1 where f: "find_group (word_of_nat k) (length ps) a = (g, a1)" by fastforce
  note fg = find_group_ok [OF a k pk(2) n f]
  show ?thesis
  proof (cases "aSeen a \<and> stale (aHigh a) (word_of_nat k) (length ps)")
    case True
    then show ?thesis using res a first same_groups_ok [of "a\<lparr>aStale := aStale a + 1\<rparr>" a] by (auto simp: arrived_part_def Let_def)
  next
    case fresh: False
    show ?thesis
    proof (cases "i \<ge> gCount g \<or> i < length (gParts g) \<and> gParts g ! i \<noteq> None")
      case True
      then show ?thesis using res first fresh f fg(1) by (auto simp: arrived_part_def Let_def)
    next
      case False
      let ?g = "store_part i (ps ! i) g"
      let ?qs = "if i \<ge> length (gParts g) then gParts g @ replicate (i + 1 - length (gParts g)) None else gParts g"
      have i: "i < length ?qs" "?qs ! i = None" using False by (auto simp: nth_append)
      have "ps ! i \<noteq> []" using pk(5,6) by (metis nth_mem)
      then have part: "gParts ?g = ?qs[i := Some (ps ! i)]" by (simp add: store_part_def Let_def)
      have len: "length (gParts ?g) \<le> length ps" using part fg(3) pk(6) by (auto simp: Suc_leI)
      have at: "b = ps ! j" if j: "j < length (gParts ?g)" "gParts ?g ! j = Some b" for j b
      proof (cases "j = i")
        case True
        then show ?thesis using j part i(1) by simp
      next
        case False
        then have "?qs ! j = Some b" using j part by simp
        then have "j < length (gParts g) \<and> gParts g ! j = Some b" using j(1) part i(1) by (auto simp: nth_append split: if_splits)
        then show ?thesis using fg(4) by blast
      qed
      have held: "gHeld ?g = filled (gParts ?g)"
        unfolding part filled_update [OF i] by (simp add: store_part_def Let_def fg(5))
      have count: "gCount ?g = length ps" using fg(2) by (simp add: store_part_def Let_def)
      have gok: "group_ok as (word_of_nat k) ?g" unfolding group_ok_def using k pk(2) count len at held by blast
      show ?thesis
      proof (cases "gHeld ?g < gCount ?g")
        case True
        then have "out = [] \<and> a' = a1\<lparr>aGroups := AList.update (word_of_nat k) ?g (aGroups a1)\<rparr>"
          using res first fresh f False by (auto simp: arrived_part_def Let_def)
        then show ?thesis using group_update_ok [OF fg(1) gok] by simp
      next
        case full: False
        have all: "length (gParts ?g) = length ps" "filled (gParts ?g) = length (gParts ?g)"
          using full held count len filled_all(1) [of "gParts ?g"] by linarith+
        have "gParts ?g ! j = Some (ps ! j)" if "j < length ps" for j
          using filled_all(2) [OF all(2)] all(1) at [of j] that by (cases "gParts ?g ! j") auto
        then have "joined (gParts ?g) = concat ps" by (rule joined_all [OF all(1)])
        moreover have "out = [joined (gParts ?g)] \<and> a' = a1\<lparr>aGroups := AList.delete (word_of_nat k) (aGroups a1)\<rparr>"
          using res first fresh f False full by (auto simp: arrived_part_def Let_def)
        ultimately show ?thesis using delete_ok [OF fg(1)] pk(3,7) by (simp add: genuine_def)
      qed
    qed
  qed
qed

section \<open>Symbols of the sender\<close>

lemma vector_parses:
  assumes ok: "pieces_ok Ls F as" and p: "p < length as" and v: "same_symbol v (vector_of (as ! p))"
  shows "parseSymbol v = None \<or> parseSymbol v = Some (payload_of (as ! p), index_of (as ! p), count_of (as ! p))"
proof -
  have "length (payload_of (as ! p)) < 65536" "piece_ok Ls F (as ! p)" using ok p by (auto simp: pieces_ok_def)
  then show ?thesis using v by (intro parse_same) (cases "as ! p"; auto simp: vector_of_def)+
qed

lemma arrived_ok:
  assumes a: "asm_ok as a" and ok: "pieces_ok Ls F as" and n: "length as \<le> 2 ^ 31" and Ls: "rooms_ok Ls"
    and p: "p < length as" and v: "same_symbol v (vector_of (as ! p))" and res: "arrived (word_of_nat p) v a = (out, a')"
  shows "asm_ok as a' \<and> (\<forall>x \<in> set out. genuine Ls F x)"
proof -
  let ?a = "note_symbol (word_of_nat p) a"
  have a1: "asm_ok as ?a" by (rule note_ok [OF a])
  have pok: "piece_ok Ls F (as ! p)" "length (payload_of (as ! p)) < 65536" using ok p by (auto simp: pieces_ok_def)
  from vector_parses [OF ok p v] show ?thesis
  proof
    assume "parseSymbol v = None"
    then show ?thesis using res a1 by (auto simp: arrived_def)
  next
    assume ps: "parseSymbol v = Some (payload_of (as ! p), index_of (as ! p), count_of (as ! p))"
    show ?thesis
    proof (cases "as ! p")
      case (Packed fs)
      have "length f < 2 ^ 32" if "f \<in> set fs" for f
      proof -
        have "shares Ls f" using pok(1) that Packed by simp
        then obtain l where "l \<in> Ls" "length f + 4 \<le> l" unfolding shares_def by blast
        moreover have "l < 65536" using Ls \<open>l \<in> Ls\<close> by (auto simp: rooms_ok_def)
        ultimately show ?thesis by simp
      qed
      then have "parseFrames (pack fs) = fs" using parseFrames_pack by blast
      then show ?thesis using res a1 ps Packed pok(1) by (auto simp: arrived_def Let_def genuine_def)
    next
      case (Lone f)
      then show ?thesis using res a1 ps pok(1) by (auto simp: arrived_def Let_def genuine_def)
    next
      case (Part k qs i)
      then have "arrived_part (word_of_nat p) (qs ! i) i (length qs) ?a = (out, a')"
        using res ps pok(1) by (auto simp: arrived_def Let_def)
      from part_ok [OF a1 ok n p Part this] show ?thesis .
    qed
  qed
qed

text \<open>Deliveries whose symbols were all sent.\<close>

definition delivery_sent :: "piece list \<Rightarrow> delivery \<Rightarrow> bool" where
  "delivery_sent as out \<longleftrightarrow> (\<forall>(e, v) \<in> set (outRecovered out). \<exists>p < length as. e = word_of_nat p \<and> same_symbol v (vector_of (as ! p)))"

lemma delivery_sentI:
  assumes n: "length as \<le> 2 ^ 31" and out: "\<And>S. agrees S as \<Longrightarrow> out_ok S out"
  shows "delivery_sent as out"
  unfolding delivery_sent_def
proof (clarify)
  fix e v assume ev: "(e, v) \<in> set (outRecovered out)"
  let ?S = "\<lambda>w (x :: u32). if unat x < length as then vector_of (as ! unat x) else w"
  have "agrees (?S w) as" for w using n by (simp add: agrees_def unat_of_nat_small)
  from out [OF this] have same: "same_symbol v (?S w e)" for w using ev unfolding out_ok_def by blast
  have lt: "unat e < length as"
  proof (rule ccontr)
    assume "\<not> unat e < length as"
    then have "same_symbol v []" "same_symbol v [1]" using same [of "[]"] same [of "[1]"] by simp_all
    then have "zext [] 0 = zext [1 :: byte] 0" unfolding same_symbol_def by metis
    then show False by (simp add: zext_def)
  qed
  then show "\<exists>p < length as. e = word_of_nat p \<and> same_symbol v (vector_of (as ! p))"
    using same [of "[]"] by (intro exI [of _ "unat e"]) simp
qed

lemma deliver_ok:
  assumes a: "asm_ok as a" and ok: "pieces_ok Ls F as" and n: "length as \<le> 2 ^ 31" and Ls: "rooms_ok Ls"
    and del: "delivery_sent as delivered" and res: "deliver delivered a = (out, a')"
  shows "asm_ok as a' \<and> (\<forall>x \<in> set out. genuine Ls F x)"
proof -
  have all: "asm_ok as b \<Longrightarrow> arrived_all xs b = (out, b') \<Longrightarrow>
      \<forall>(e, v) \<in> set xs. \<exists>p < length as. e = word_of_nat p \<and> same_symbol v (vector_of (as ! p)) \<Longrightarrow>
      asm_ok as b' \<and> (\<forall>x \<in> set out. genuine Ls F x)" for xs b b' out
  proof (induction xs arbitrary: b b' out)
    case (Cons x xs)
    obtain o1 b1 where x: "arrived (fst x) (snd x) b = (o1, b1)" by fastforce
    obtain o2 b2 where xs: "arrived_all xs b1 = (o2, b2)" by fastforce
    obtain p where p: "p < length as" "fst x = word_of_nat p" "same_symbol (snd x) (vector_of (as ! p))"
      using Cons.prems(3) by (cases x) auto
    have "asm_ok as b1 \<and> (\<forall>x \<in> set o1. genuine Ls F x)"
      by (rule arrived_ok [OF Cons.prems(1) ok n Ls p(1,3)]) (use x p(2) in simp)
    then show ?case using Cons.IH [OF _ xs] Cons.prems(2,3) x xs by auto
  qed simp
  obtain frames a1 where r: "arrived_all (outRecovered delivered) a = (frames, a1)" by fastforce
  have losts: "asm_ok as b \<Longrightarrow> asm_ok as (fold lost es b)" for es b
    by (induction es arbitrary: b) (simp_all add: lost_ok)
  have "asm_ok as a1 \<and> (\<forall>x \<in> set frames. genuine Ls F x)"
    by (rule all [OF a r]) (use del in \<open>simp add: delivery_sent_def\<close>)
  then show ?thesis using res r losts by (auto simp: deliver_def)
qed

section \<open>Datagrams of the sender\<close>

definition decoder_state :: "piece list \<Rightarrow> nat \<Rightarrow> decoder \<Rightarrow> bool" where
  "decoder_state as n d \<longleftrightarrow> (\<forall>S. agrees S as \<longrightarrow> dec_ok S d) \<and> (dStarted d \<longrightarrow> (\<exists>m \<le> n. dHigh d = word_of_nat m))"

definition receiver_ok :: "piece list \<Rightarrow> nat \<Rightarrow> receiver \<Rightarrow> bool" where
  "receiver_ok as n r \<longleftrightarrow> decoder_state as n (rDecoder r) \<and> asm_ok as (rAssembler r)"

lemma exists_agreeing: "length as \<le> 2 ^ 31 \<Longrightarrow> \<exists>S. agrees S as"
  by (intro exI [of _ "\<lambda>x. vector_of (as ! unat x)"]) (simp add: agrees_def unat_of_nat_small)

lemma source_state:
  assumes d: "decoder_state as n d" and n: "n \<le> c" "c < length as" "length as \<le> 2 ^ 31"
    and res: "dec_Source (word_of_nat c) (vector_of (as ! c)) d = (d', out)"
  shows "decoder_state as (Suc c) d'" and "delivery_sent as out"
proof -
  have one: "dec_ok S d' \<and> out_ok S out \<and>
      (dHigh d' = dHigh d \<and> dStarted d' = dStarted d \<or> dStarted d' \<and> dHigh d' = word_of_nat c + 1)" if S: "agrees S as" for S
  proof -
    have ok: "dec_ok S d" using d S by (simp add: decoder_state_def)
    have sym: "same_symbol (vector_of (as ! c)) (S (word_of_nat c))" using S n(2) by (simp add: agrees_def same_symbol_def)
    have fresh: "dStarted d \<Longrightarrow> in_window (dLo d) (word_of_nat c) \<Longrightarrow> False"
    proof -
      assume st: "dStarted d" and w: "in_window (dLo d) (word_of_nat c)"
      obtain m where m: "m \<le> n" "dHigh d = word_of_nat m" using d st by (auto simp: decoder_state_def)
      have "m \<le> c" "c < 2 ^ 31" using m(1) n by linarith+
      from new_not_in_window [OF ok st m(2) this] w show False by blast
    qed
    show ?thesis using dec_Source_ok [OF ok sym _ res] fresh by blast
  qed
  obtain S where "agrees S as" using exists_agreeing [OF n(3)] by blast
  from one [OF this] have "dStarted d' \<longrightarrow> (\<exists>m \<le> Suc c. dHigh d' = word_of_nat m)"
  proof (elim conjE disjE)
    assume "dHigh d' = dHigh d" "dStarted d' = dStarted d"
    then show ?thesis using d n(1) by (metis decoder_state_def le_SucI order_trans)
  next
    assume "dHigh d' = word_of_nat c + 1"
    then have "dHigh d' = word_of_nat (Suc c)" by (simp add: add.commute)
    then show ?thesis by blast
  qed
  then show "decoder_state as (Suc c) d'" using one by (simp add: decoder_state_def)
  show "delivery_sent as out" using delivery_sentI [OF n(3)] one by blast
qed

lemma repair_state:
  assumes d: "decoder_state as n d" and n: "n \<le> c" "length as \<le> 2 ^ 31"
    and r: "\<And>S. agrees S as \<Longrightarrow> repair_ok S r" and newest: "rFirst r + word_of_int (rCount r) = word_of_nat c"
    and res: "dec_Repair r d = (d', out)"
  shows "decoder_state as c d'" and "delivery_sent as out"
proof -
  have one: "dec_ok S d' \<and> out_ok S out \<and>
      (dHigh d' = dHigh d \<and> dStarted d' = dStarted d \<or> dStarted d' \<and> dHigh d' = word_of_nat c)" if S: "agrees S as" for S
    using dec_Repair_ok [OF _ r [OF S] res] d S newest by (auto simp: decoder_state_def)
  obtain S where "agrees S as" using exists_agreeing [OF n(2)] by blast
  from one [OF this] have "dStarted d' \<longrightarrow> (\<exists>m \<le> c. dHigh d' = word_of_nat m)"
    using d n(1) by (auto simp: decoder_state_def intro: order_trans)
  then show "decoder_state as c d'" using one by (simp add: decoder_state_def)
  show "delivery_sent as out" using delivery_sentI [OF n(2)] one by blast
qed

lemma source_datagram:
  assumes "length v \<ge> 6" and "unat (get_u16 (drop 4 v)) \<le> 256"
  shows "onDatagram (item_bytes seq (SourceItem c v)) r =
    (case dec_Source (word_of_nat c) v (rDecoder r) of (dec, delivered) \<Rightarrow>
     case arrived (word_of_nat c) v (rAssembler r) of (own, a) \<Rightarrow> case deliver delivered a of (frames, a) \<Rightarrow>
       (own @ frames, r\<lparr>rArrivals := rArrivals r + 1, rSources := rSources r + 1, rDecoder := dec, rAssembler := a\<rparr>))"
proof -
  let ?d = "item_bytes seq (SourceItem c v)"
  have at: "?d ! 4 = kindSource" by (simp add: nth_append)
  have e: "get_u32 (drop 5 ?d) = word_of_nat c" by simp
  have dr: "drop 9 ?d = v" by simp
  have len: "\<not> length ?d < sourceHeader" by (simp add: sourceHeader_def)
  show ?thesis unfolding onDatagram_def Let_def at e sourceHeader_def using len assms dr
    by (simp add: sourceHeader_def symbolHeader_def maxSymbolParts_def MaxRepairWindow_def del: item_bytes.simps split: prod.splits)
qed

lemma repair_datagram_read:
  assumes "0 < rCount rep" and "rCount rep \<le> 256"
  shows "onDatagram (item_bytes seq (RepairItem c rep)) r =
    (case dec_Repair rep (rDecoder r) of (dec, delivered) \<Rightarrow>
     case deliver delivered (rAssembler r) of (frames, a) \<Rightarrow>
       (frames, r\<lparr>rArrivals := rArrivals r + 1, rDecoder := dec, rAssembler := a\<rparr>))"
proof -
  let ?d = "item_bytes seq (RepairItem c rep)"
  have at: "?d ! 4 = kindRepair" by (simp add: repair_datagram_def nth_append)
  have rid: "get_u32 (drop 5 ?d) = rRID rep" by (simp add: repair_datagram_def)
  have first: "get_u32 (drop 9 ?d) = rFirst rep" by (simp add: repair_datagram_def)
  have "unat (word_of_int (rCount rep) :: u16) = nat (rCount rep)"
    using assms u16_small [of "nat (rCount rep)"] by simp
  then have count: "unat (get_u16 (drop 13 ?d)) = nat (rCount rep)" by (simp add: repair_datagram_def)
  have vec: "drop 15 ?d = rVector rep" by (simp add: repair_datagram_def)
  have len: "\<not> length ?d < sourceHeader" "\<not> length ?d < repairHeader" by (simp_all add: repair_datagram_def sourceHeader_def repairHeader_def)
  have rep: "\<lparr>rRID = rRID rep, rFirst = rFirst rep, rCount = rCount rep, rVector = rVector rep\<rparr> = rep" by simp
  obtain dec del where d: "dec_Repair rep (rDecoder r) = (dec, del)" by fastforce
  obtain fs a where de: "deliver del (rAssembler r) = (fs, a)" by fastforce
  have "\<not> 256 < nat (rCount rep)" using assms by simp
  then show ?thesis unfolding onDatagram_def Let_def at rid first count using len assms vec
    by (simp add: kindSource_def kindRepair_def repairHeader_def MaxRepairWindow_def rep d de del: item_bytes.simps)
qed

lemma datagram_ok:
  assumes r: "receiver_ok as n r" and ok: "pieces_ok Ls F as" and len: "length as \<le> 2 ^ 31" and Ls: "rooms_ok Ls"
    and it: "\<And>S. agrees S as \<Longrightarrow> item_ok S (length as) it" and n: "n \<le> before it"
    and res: "onDatagram (item_bytes seq it) r = (out, r')"
  shows "receiver_ok as (after it) r' \<and> (\<forall>x \<in> set out. genuine Ls F x)"
proof (cases it)
  case (SourceItem c v)
  obtain S where S: "agrees S as" using exists_agreeing [OF len] by blast
  have c: "c < length as" "v = vector_of (as ! c)" using it [OF S] S SourceItem by (auto simp: agrees_def)
  have pok: "piece_ok Ls F (as ! c)" using ok c(1) by (simp add: pieces_ok_def)
  then have cnt: "count_of (as ! c) \<le> 256" by (cases "as ! c") auto
  have v: "length v \<ge> 6" "unat (get_u16 (drop 4 v)) \<le> 256"
    using cnt by (simp_all add: c(2) vector_of_def symbol_vector_def u16_small)
  obtain dec del where d: "dec_Source (word_of_nat c) v (rDecoder r) = (dec, del)" by fastforce
  obtain own a1 where ar: "arrived (word_of_nat c) v (rAssembler r) = (own, a1)" by fastforce
  obtain fs a2 where de: "deliver del a1 = (fs, a2)" by fastforce
  have ds: "decoder_state as n (rDecoder r)" "asm_ok as (rAssembler r)" "n \<le> c" using r n SourceItem by (auto simp: receiver_ok_def)
  note s = source_state [OF ds(1,3) c(1) len d [unfolded c(2)]]
  have "same_symbol v (vector_of (as ! c))" by (simp add: c(2) same_symbol_def)
  from arrived_ok [OF ds(2) ok len Ls c(1) this ar] have a1: "asm_ok as a1" "\<forall>x \<in> set own. genuine Ls F x" by auto
  from deliver_ok [OF a1(1) ok len Ls s(2) de] have a2: "asm_ok as a2" "\<forall>x \<in> set fs. genuine Ls F x" by auto
  have "out = own @ fs" "rDecoder r' = dec" "rAssembler r' = a2"
    using res source_datagram [OF v, of seq c r] d ar de SourceItem by auto
  then show ?thesis using s(1) a1 a2 SourceItem by (auto simp: receiver_ok_def)
next
  case (RepairItem c rep)
  obtain S where S: "agrees S as" using exists_agreeing [OF len] by blast
  have rp: "rFirst rep + word_of_int (rCount rep) = word_of_nat c" "0 < rCount rep" "rCount rep \<le> 256"
    using it [OF S] RepairItem by auto
  have rok: "repair_ok S rep" if "agrees S as" for S using it [OF that] RepairItem by simp
  obtain dec del where d: "dec_Repair rep (rDecoder r) = (dec, del)" by fastforce
  obtain fs a2 where de: "deliver del (rAssembler r) = (fs, a2)" by fastforce
  have ds: "decoder_state as n (rDecoder r)" "asm_ok as (rAssembler r)" "n \<le> c" using r n RepairItem by (auto simp: receiver_ok_def)
  note s = repair_state [OF ds(1,3) len rok rp(1) d]
  from deliver_ok [OF ds(2) ok len Ls s(2) de] have a2: "asm_ok as a2" "\<forall>x \<in> set fs. genuine Ls F x" by auto
  have "out = fs" "rDecoder r' = dec" "rAssembler r' = a2"
    using res repair_datagram_read [OF rp(2,3), of seq c r] d de RepairItem by auto
  then show ?thesis using s(1) a2 RepairItem by (auto simp: receiver_ok_def)
qed

section \<open>Any of the datagrams\<close>

lemma receive_some:
  assumes ok: "pieces_ok Ls F as" and len: "length as \<le> 2 ^ 31" and Ls: "rooms_ok Ls"
  shows "receiver_ok as n r \<Longrightarrow> \<forall>(q, it) \<in> set xs. \<forall>S. agrees S as \<longrightarrow> item_ok S (length as) it \<Longrightarrow>
    \<forall>(q, it) \<in> set xs. n \<le> before it \<Longrightarrow> sorted_wrt (\<lambda>x y. after (snd x) \<le> before (snd y)) xs \<Longrightarrow>
    receiveLoop (nths (map (\<lambda>(q, it). item_bytes q it) xs) A) r = (outs, r') \<Longrightarrow> \<forall>x \<in> set outs. genuine Ls F x"
proof (induction xs arbitrary: n r A outs)
  case (Cons x xs)
  obtain q it where x: "x = (q, it)" by fastforce
  have rest: "\<forall>(q, it) \<in> set xs. \<forall>S. agrees S as \<longrightarrow> item_ok S (length as) it" "sorted_wrt (\<lambda>x y. after (snd x) \<le> before (snd y)) xs"
    using Cons.prems(2,4) by auto
  let ?ds = "nths (map (\<lambda>(q, it). item_bytes q it) xs) {j. Suc j \<in> A}"
  show ?case
  proof (cases "0 \<in> A")
    case True
    obtain o1 r1 where d: "onDatagram (item_bytes q it) r = (o1, r1)" by fastforce
    obtain o2 where rl: "receiveLoop ?ds r1 = (o2, r')" "outs = o1 @ o2"
      using Cons.prems(5) True d x by (auto simp: nths_Cons split: prod.splits)
    have it: "\<And>S. agrees S as \<Longrightarrow> item_ok S (length as) it" "n \<le> before it" using Cons.prems(2,3) x by auto
    have one: "receiver_ok as (after it) r1" "\<forall>x \<in> set o1. genuine Ls F x"
      using datagram_ok [OF Cons.prems(1) ok len Ls it d] by auto
    have "\<forall>(q, it') \<in> set xs. after it \<le> before it'" using Cons.prems(4) x by auto
    from Cons.IH [OF one(1) rest(1) this rest(2) rl(1)] show ?thesis using one(2) rl(2) by auto
  next
    case False
    then have rl: "receiveLoop ?ds r = (outs, r')" using Cons.prems(5) by (simp add: nths_Cons)
    have "\<forall>(q, it') \<in> set xs. n \<le> before it'" using Cons.prems(3) by auto
    from Cons.IH [OF Cons.prems(1) rest(1) this rest(2) rl] show ?thesis .
  qed
qed simp

lemma new_receiver_ok: "receiver_ok as 0 new_receiver"
  using NewWindowDecoder_ok NewWindowDecoder_idle
  by (simp add: receiver_ok_def decoder_state_def new_receiver_def asm_ok_def new_assembler_def)

lemma wire_received:
  assumes log: "sender_log Ls F as its s" and len: "length as \<le> 2 ^ 31" and Ls: "rooms_ok Ls"
    and res: "receiveLoop (nths (sWire s) A) new_receiver = (outs, r')"
  shows "\<forall>x \<in> set outs. genuine Ls F x"
proof -
  let ?xs = "map (\<lambda>i. (word_of_nat i :: u32, its ! i)) [0..<length its]"
  have ok: "pieces_ok Ls F as" using log by (simp add: sender_log_def)
  have items: "items_ok S (length as) its" if "agrees S as" for S using log that by (simp add: sender_log_def)
  obtain S where S: "agrees S as" using exists_agreeing [OF len] by blast
  have w: "map (\<lambda>(q, it). item_bytes q it) ?xs = sWire s" using log by (simp add: sender_log_def wire_of_def)
  have "sorted_wrt (\<lambda>x y. after x \<le> before y) its" using items [OF S] by (simp add: items_ok_def)
  then have sorted: "sorted_wrt (\<lambda>x y. after (snd x) \<le> before (snd y)) ?xs"
    by (simp add: sorted_wrt_map sorted_wrt_iff_nth_less)
  have each: "\<forall>(q, it) \<in> set ?xs. \<forall>S. agrees S as \<longrightarrow> item_ok S (length as) it"
    using items by (auto simp: items_ok_def)
  show ?thesis
    by (rule receive_some [OF ok len Ls new_receiver_ok each _ sorted]) (use res w in auto)
qed

end
