(* ===== verification/CodedPath.thy ===== *)
theory CodedPath
  imports CodedSend
begin

text \<open>
  The coded path with its queues, \<^verbatim>\<open>queqiao/internal/coded/coded.go\<close>: \<^verbatim>\<open>Send\<close>, \<^verbatim>\<open>Receive\<close>, \<^verbatim>\<open>Close\<close> and the two goroutines
  \<^verbatim>\<open>sendLoop\<close> and \<^verbatim>\<open>receiveLoop\<close>, one turn at a time. A Go select that finds both the queue and \<^verbatim>\<open>done\<close> ready takes
  either, which is an argument of the turn. A path's sender always is what \<open>sendLoop\<close> of \<open>Coded\<close> makes of the frames it
  has taken from the queue, so what is proved of that function holds for the goroutine.
\<close>

section \<open>State\<close>

text \<open>Where \<^verbatim>\<open>sendLoop\<close> is: in its outer select, in its inner select, or returned.\<close>

datatype loop_pc = Waiting | Draining | Gone

text \<open>\<open>pClosed\<close>: \<^verbatim>\<open>done\<close> was closed by \<^verbatim>\<open>Close\<close> or by the receive loop; \<open>pHand\<close>: the frames of the last datagram the
  receive loop has still to queue; \<open>pAccepted\<close> and \<open>pGot\<close>: the frames \<^verbatim>\<open>Send\<close> accepted and \<^verbatim>\<open>Receive\<close> returned so far, and
  \<open>pDatagrams\<close> those that arrived.\<close>

record ('q, 'e) path =
  pPending :: "bytes list"
  pSender :: "('q, 'e) sender"
  pLoop :: loop_pc
  pClosed :: bool
  pErr :: "'e option"
  pReceiver :: receiver
  pHand :: "bytes list"
  pReceived :: "bytes list"
  pReceiving :: bool
  pAccepted :: "bytes list"
  pGot :: "bytes list"
  pDatagrams :: "bytes list"

definition new_path :: "'q \<Rightarrow> ('q, 'e) path" where
  "new_path q = \<lparr>pPending = [], pSender = new_sender q, pLoop = Waiting, pClosed = False, pErr = None, pReceiver = new_receiver,
     pHand = [], pReceived = [], pReceiving = True, pAccepted = [], pGot = [], pDatagrams = []\<rparr>"

definition path_done :: "('q, 'e) path \<Rightarrow> bool" where
  "path_done p \<longleftrightarrow> pClosed p \<or> sDone (pSender p)"

datatype 'e path_error = ErrClosed | CarrierError 'e | ErrFrameTooLarge

definition failure :: "('q, 'e) path \<Rightarrow> 'e path_error" where
  "failure p = (case pErr p of Some e \<Rightarrow> CarrierError e | None \<Rightarrow> ErrClosed)"

section \<open>The caller's side\<close>

datatype 'e send_result = SendOk | SendFails "'e path_error" | SendBlocks

definition Send :: "nat \<Rightarrow> bytes \<Rightarrow> ('q, 'e) path \<Rightarrow> 'e send_result \<times> ('q, 'e) path" where
  "Send cap frame p =
     (if length frame > maxFrameBytes then (SendFails ErrFrameTooLarge, p)
      else if path_done p then (SendFails (failure p), p)
      else if length (pPending p) < cap then (SendOk, p\<lparr>pPending := pPending p @ [frame], pAccepted := pAccepted p @ [frame]\<rparr>)
      else (SendBlocks, p))"

datatype 'e receive_result = Frame bytes | ReceiveFails "'e path_error" | ReceiveBlocks

definition Receive :: "('q, 'e) path \<Rightarrow> 'e receive_result \<times> ('q, 'e) path" where
  "Receive p = (case pReceived p of
      f # rest \<Rightarrow> (Frame f, p\<lparr>pReceived := rest, pGot := pGot p @ [f]\<rparr>)
    | [] \<Rightarrow> if path_done p then (ReceiveFails (failure p), p) else (ReceiveBlocks, p))"

text \<open>\<^verbatim>\<open>fail\<close>, as the receive loop calls it, and the closing of \<^verbatim>\<open>done\<close> by \<^verbatim>\<open>Close\<close>.\<close>

definition path_fail :: "('q, 'e) carrier \<Rightarrow> 'e \<Rightarrow> ('q, 'e) path \<Rightarrow> ('q, 'e) path" where
  "path_fail ca err p = p\<lparr>pErr := (if isEOF ca err \<or> pErr p \<noteq> None then pErr p else Some err), pClosed := True\<rparr>"

definition path_close :: "('q, 'e) path \<Rightarrow> ('q, 'e) path" where
  "path_close p = p\<lparr>pClosed := True\<rparr>"

section \<open>The goroutines\<close>

text \<open>The sender after a call that may fail, in which case the loop returns. The first error is the one that is kept.\<close>

definition ran :: "loop_pc \<Rightarrow> 'e send_error option \<times> ('q, 'e) sender \<Rightarrow> ('q, 'e) path \<Rightarrow> ('q, 'e) path" where
  "ran pc r p = (case r of (err, s) \<Rightarrow>
     p\<lparr>pSender := s, pErr := (if pErr p = None then sErr s else pErr p), pLoop := (if err = None then pc else Gone)\<rparr>)"

definition pause :: "('q, 'e) carrier \<Rightarrow> decisions \<Rightarrow> ('q, 'e) sender \<Rightarrow> 'e send_error option \<times> ('q, 'e) sender" where
  "pause ca dec s = (case flushPacked ca dec s of (Some err, s) \<Rightarrow> (Some err, s) | (None, s) \<Rightarrow> protectBurst ca dec s)"

text \<open>\<open>None\<close> while the loop is blocked, and after it returned.\<close>

definition loop_turn :: "('q, 'e) carrier \<Rightarrow> int \<Rightarrow> decisions \<Rightarrow> bool \<Rightarrow> ('q, 'e) path \<Rightarrow> ('q, 'e) path option" where
  "loop_turn ca cfgBytes dec stop p =
     (if pLoop p = Gone then None
      else if path_done p \<and> (stop \<or> pPending p = []) then Some (p\<lparr>pLoop := Gone\<rparr>)
      else case pPending p of
        f # rest \<Rightarrow> Some (ran Draining (appendFrame ca cfgBytes dec f (pSender p)) (p\<lparr>pPending := rest\<rparr>))
      | [] \<Rightarrow> if pLoop p = Draining then Some (ran Waiting (pause ca dec (pSender p)) p) else None)"

text \<open>The receive loop takes a datagram once the frames of the last one are queued.\<close>

definition receive_datagram :: "bytes \<Rightarrow> ('q, 'e) path \<Rightarrow> ('q, 'e) path option" where
  "receive_datagram d p =
     (if \<not> pReceiving p \<or> pHand p \<noteq> [] then None
      else case onDatagram d (pReceiver p) of (frames, r) \<Rightarrow> Some (p\<lparr>pReceiver := r, pHand := frames, pDatagrams := pDatagrams p @ [d]\<rparr>))"

definition hand_turn :: "nat \<Rightarrow> bool \<Rightarrow> ('q, 'e) path \<Rightarrow> ('q, 'e) path option" where
  "hand_turn cap stop p = (case pHand p of
      [] \<Rightarrow> None
    | f # rest \<Rightarrow>
        if \<not> pReceiving p then None
        else if path_done p \<and> (stop \<or> length (pReceived p) \<ge> cap) then Some (p\<lparr>pReceiving := False\<rparr>)
        else if length (pReceived p) < cap then Some (p\<lparr>pReceived := pReceived p @ [f], pHand := rest\<rparr>)
        else None)"

inductive path_step :: "('q, 'e) carrier \<Rightarrow> int \<Rightarrow> decisions \<Rightarrow> nat \<Rightarrow> ('q, 'e) path \<Rightarrow> ('q, 'e) path \<Rightarrow> bool" for ca n dec cap where
  sends: "Send cap f p = (res, p') \<Longrightarrow> path_step ca n dec cap p p'"
| receives: "Receive p = (res, p') \<Longrightarrow> path_step ca n dec cap p p'"
| closes: "path_step ca n dec cap p (path_close p)"
| loops: "loop_turn ca n dec stop p = Some p' \<Longrightarrow> path_step ca n dec cap p p'"
| arrives: "receive_datagram d p = Some p' \<Longrightarrow> path_step ca n dec cap p p'"
| hands: "hand_turn cap stop p = Some p' \<Longrightarrow> path_step ca n dec cap p p'"
| breaks: "pReceiving p \<Longrightarrow> pHand p = [] \<Longrightarrow> path_step ca n dec cap p (path_fail ca err (p\<lparr>pReceiving := False\<rparr>))"

definition path_reach :: "('q, 'e) carrier \<Rightarrow> int \<Rightarrow> decisions \<Rightarrow> nat \<Rightarrow> 'q \<Rightarrow> ('q, 'e) path \<Rightarrow> bool" where
  "path_reach ca n dec cap q p \<longleftrightarrow> (path_step ca n dec cap)\<^sup>*\<^sup>* (new_path q) p"

section \<open>The sender of a path\<close>

lemma append_frames_snoc:
  "append_frames ca n dec (fs @ [f]) s = (case append_frames ca n dec fs s of (Some err, s) \<Rightarrow> (Some err, s) | (None, s) \<Rightarrow> appendFrame ca n dec f s)"
  by (induction fs arbitrary: s) (auto split: prod.splits option.splits)

lemma sendLoop_snoc:
  "sendLoop ca n dec (bs @ [b]) s = (case sendLoop ca n dec bs s of (Some err, s) \<Rightarrow> (Some err, s) | (None, s) \<Rightarrow> send_batch ca n dec b s)"
  by (induction bs arbitrary: s) (auto split: prod.splits option.splits)

lemma batch_pause: "append_frames ca n dec fs s = (None, s1) \<Longrightarrow> send_batch ca n dec fs s = pause ca dec s1"
  by (simp add: send_batch_def pause_def)

lemma sendRepair_packed: "sendRepair ca count s = (err, s') \<Longrightarrow> sPacked s' = sPacked s"
  by (auto simp: sendRepair_def Let_def take_seq_def put_def untake_def fail_path_def dropOversizedWindow_def
    split: prod.splits outcome.splits bool.splits option.splits send_error.splits if_splits)

lemma protect_loop_packed: "protect_loop ca want s = (err, s') \<Longrightarrow> sPacked s' = sPacked s"
proof (induction ca want s arbitrary: err s' rule: protect_loop.induct)
  case (1 ca want s)
  then show ?case
    by (subst (asm) (2) protect_loop.simps) (auto split: if_splits prod.splits option.splits dest: sendRepair_packed)
qed

lemma pause_packed: "pause ca dec s = (None, s') \<Longrightarrow> sPacked s' = []"
  by (auto simp: pause_def flushPacked_def protectBurst_def split: prod.splits option.splits if_splits dest: protect_loop_packed)

lemma batch_packed: "send_batch ca n dec b s = (None, s') \<Longrightarrow> sPacked s' = []"
proof -
  assume b: "send_batch ca n dec b s = (None, s')"
  obtain s1 where a: "append_frames ca n dec b s = (None, s1)" using b by (auto simp: send_batch_def split: prod.splits option.splits)
  show ?thesis using pause_packed b batch_pause [OF a] by metis
qed

lemma sendLoop_packed: "sendLoop ca n dec bs (new_sender q) = (None, s) \<Longrightarrow> sPacked s = []"
proof (cases bs rule: rev_cases)
  case (snoc cs b)
  assume "sendLoop ca n dec bs (new_sender q) = (None, s)"
  then show ?thesis using batch_packed by (auto simp: snoc sendLoop_snoc split: prod.splits option.splits)
qed (auto simp: new_sender_def)

text \<open>The frames taken from the queue, in the batches they came in.\<close>

fun taken_ok :: "('q, 'e) carrier \<Rightarrow> int \<Rightarrow> decisions \<Rightarrow> 'q \<Rightarrow> bytes list \<Rightarrow> loop_pc \<Rightarrow> ('q, 'e) sender \<Rightarrow> bool" where
  "taken_ok ca n dec q fs Waiting s = (\<exists>bs. concat bs = fs \<and> sendLoop ca n dec bs (new_sender q) = (None, s))"
| "taken_ok ca n dec q fs Draining s = (\<exists>bs gs s0. concat bs @ gs = fs \<and> sendLoop ca n dec bs (new_sender q) = (None, s0) \<and>
     append_frames ca n dec gs s0 = (None, s))"
| "taken_ok ca n dec q fs Gone s = (\<exists>bs gs s0 err. concat bs @ gs = fs \<and> sendLoop ca n dec bs (new_sender q) = (None, s0) \<and>
     (append_frames ca n dec gs s0 = (err, s) \<or> send_batch ca n dec gs s0 = (err, s)))"

definition path_ok :: "('q, 'e) carrier \<Rightarrow> int \<Rightarrow> decisions \<Rightarrow> 'q \<Rightarrow> ('q, 'e) path \<Rightarrow> bool" where
  "path_ok ca n dec q p \<longleftrightarrow> (\<exists>fs. pAccepted p = fs @ pPending p \<and> taken_ok ca n dec q fs (pLoop p) (pSender p)) \<and>
     fst (receiveLoop (pDatagrams p) new_receiver) = pGot p @ pReceived p @ pHand p \<and> snd (receiveLoop (pDatagrams p) new_receiver) = pReceiver p"

lemma taken_drains:
  assumes "taken_ok ca n dec q fs pc s" and "pc \<noteq> Gone"
  shows "taken_ok ca n dec q fs Draining s"
proof (cases pc)
  case Waiting
  then obtain bs where "concat bs = fs" "sendLoop ca n dec bs (new_sender q) = (None, s)" using assms(1) by auto
  then have "concat bs @ [] = fs \<and> sendLoop ca n dec bs (new_sender q) = (None, s) \<and> append_frames ca n dec [] s = (None, s)" by simp
  then show ?thesis unfolding taken_ok.simps by blast
qed (use assms in auto)

lemma taken_stops: "taken_ok ca n dec q fs pc s \<Longrightarrow> taken_ok ca n dec q fs Gone s"
proof -
  assume t: "taken_ok ca n dec q fs pc s"
  show "taken_ok ca n dec q fs Gone s"
  proof (cases "pc = Gone")
    case False
    from taken_drains [OF t this] show ?thesis by auto
  qed (use t in simp)
qed

lemma taken_append:
  assumes "taken_ok ca n dec q fs pc s" and "pc \<noteq> Gone" and "appendFrame ca n dec f s = (err, s')"
  shows "taken_ok ca n dec q (fs @ [f]) (if err = None then Draining else Gone) s'"
proof -
  obtain bs gs s0 where d: "concat bs @ gs = fs" "sendLoop ca n dec bs (new_sender q) = (None, s0)" "append_frames ca n dec gs s0 = (None, s)"
    using taken_drains [OF assms(1,2)] by auto
  then have a: "append_frames ca n dec (gs @ [f]) s0 = (err, s')" using assms(3) by (simp add: append_frames_snoc)
  have c: "concat bs @ (gs @ [f]) = fs @ [f]" using d(1) by simp
  show ?thesis
  proof (cases err)
    case None
    then show ?thesis using a c d(2) by (auto intro!: exI [of _ bs] exI [of _ "gs @ [f]"] exI [of _ s0])
  next
    case (Some e)
    then show ?thesis using a c d(2) by (auto intro!: exI [of _ bs] exI [of _ "gs @ [f]"] exI [of _ s0])
  qed
qed

lemma taken_pause:
  assumes "taken_ok ca n dec q fs Draining s" and "pause ca dec s = (err, s')"
  shows "taken_ok ca n dec q fs (if err = None then Waiting else Gone) s'"
proof -
  obtain bs gs s0 where d: "concat bs @ gs = fs" "sendLoop ca n dec bs (new_sender q) = (None, s0)" "append_frames ca n dec gs s0 = (None, s)"
    using assms(1) by auto
  have b: "send_batch ca n dec gs s0 = (err, s')" using batch_pause [OF d(3)] assms(2) by simp
  then have l: "sendLoop ca n dec (bs @ [gs]) (new_sender q) = (err, s')" using d(2) by (simp add: sendLoop_snoc)
  have c: "concat (bs @ [gs]) = fs" using d(1) by simp
  show ?thesis
  proof (cases err)
    case None
    then show ?thesis using l c by (simp del: concat_append) (intro exI conjI)
  next
    case (Some e)
    then show ?thesis using b d(1,2) by (auto intro!: exI [of _ bs] exI [of _ gs] exI [of _ s0])
  qed
qed

lemma receiveLoop_snoc:
  "receiveLoop (ds @ [d]) r = (case receiveLoop ds r of (out, r) \<Rightarrow> case onDatagram d r of (out', r) \<Rightarrow> (out @ out', r))"
  by (induction ds arbitrary: r) (auto split: prod.splits)

lemma path_step_ok:
  assumes ok: "path_ok ca n dec q p" and step: "path_step ca n dec cap p p'"
  shows "path_ok ca n dec q p'"
proof -
  obtain fs where fs: "pAccepted p = fs @ pPending p" "taken_ok ca n dec q fs (pLoop p) (pSender p)" using ok by (auto simp: path_ok_def)
  note rec = conjunct2 [OF ok [unfolded path_ok_def]]
  from step show ?thesis
  proof cases
    case (sends f res)
    then show ?thesis using fs rec by (auto simp: path_ok_def Send_def split: if_splits)
  next
    case (receives res)
    then show ?thesis using fs rec by (auto simp: path_ok_def Receive_def split: list.splits if_splits)
  next
    case closes
    then show ?thesis using fs rec by (auto simp: path_ok_def path_close_def)
  next
    case (loops stop)
    consider "p' = p\<lparr>pLoop := Gone\<rparr>"
      | f rest where "pLoop p \<noteq> Gone" "pPending p = f # rest" "p' = ran Draining (appendFrame ca n dec f (pSender p)) (p\<lparr>pPending := rest\<rparr>)"
      | "pLoop p = Draining" "p' = ran Waiting (pause ca dec (pSender p)) p"
      using loops by (auto simp: loop_turn_def split: if_splits list.splits)
    then show ?thesis
    proof cases
      case 1
      then show ?thesis using fs(1) taken_stops [OF fs(2)] rec by (auto simp: path_ok_def)
    next
      case 2
      obtain err s where a: "appendFrame ca n dec f (pSender p) = (err, s)" by fastforce
      have "pAccepted p' = (fs @ [f]) @ pPending p'" using 2(2,3) a fs(1) by (simp add: ran_def)
      then show ?thesis using 2(3) a taken_append [OF fs(2) 2(1) a] rec unfolding path_ok_def by (intro conjI exI [of _ "fs @ [f]"]) (simp_all add: ran_def)
    next
      case 3
      obtain err s where a: "pause ca dec (pSender p) = (err, s)" by fastforce
      have "taken_ok ca n dec q fs Draining (pSender p)" using fs(2) 3(1) by simp
      from taken_pause [OF this a] show ?thesis using 3(2) a fs(1) rec unfolding path_ok_def by (intro conjI exI [of _ fs]) (simp_all add: ran_def)
    qed
  next
    case (arrives d)
    obtain frames r where "onDatagram d (pReceiver p) = (frames, r)" by fastforce
    then show ?thesis using arrives fs rec
      by (auto simp: path_ok_def receive_datagram_def receiveLoop_snoc split: if_splits prod.splits)
  next
    case (hands stop)
    then show ?thesis using fs rec by (auto simp: path_ok_def hand_turn_def split: list.splits if_splits)
  next
    case (breaks err)
    then show ?thesis using fs rec by (auto simp: path_ok_def path_fail_def)
  qed
qed

lemma path_reach_ok: "path_reach ca n dec cap q p \<Longrightarrow> path_ok ca n dec q p"
  unfolding path_reach_def
proof (induction rule: rtranclp_induct)
  case base
  have "sendLoop ca n dec [] (new_sender q) = (None, new_sender q)" by simp
  then show ?case by (auto simp: path_ok_def new_path_def intro: exI [of _ "[]"])
next
  case (step p p')
  show ?case by (rule path_step_ok [OF step(3,2)])
qed

lemma waiting_packed: "path_reach ca n dec cap q p \<Longrightarrow> pLoop p = Waiting \<Longrightarrow> sPacked (pSender p) = []"
  using path_reach_ok [of ca n dec cap q p] sendLoop_packed by (fastforce simp: path_ok_def)

section \<open>A loop that returned\<close>

lemma gone_step:
  assumes "path_step ca n dec cap p p'" and "pLoop p = Gone"
  shows "pLoop p' = Gone \<and> pSender p' = pSender p \<and> (\<exists>gs. pPending p' = pPending p @ gs \<and> pAccepted p' = pAccepted p @ gs)"
  using assms by (induction rule: path_step.induct)
    (auto simp: Send_def Receive_def path_close_def loop_turn_def receive_datagram_def hand_turn_def path_fail_def split: if_splits list.splits prod.splits)

lemma gone_for_good:
  assumes "(path_step ca n dec cap)\<^sup>*\<^sup>* p p'" and "pLoop p = Gone"
  shows "pLoop p' = Gone \<and> pSender p' = pSender p \<and> (\<exists>gs. pPending p' = pPending p @ gs \<and> pAccepted p' = pAccepted p @ gs)"
  using assms
proof (induction rule: rtranclp_induct)
  case (step u v)
  then have u: "pLoop u = Gone \<and> pSender u = pSender p \<and> (\<exists>gs. pPending u = pPending p @ gs \<and> pAccepted u = pAccepted p @ gs)" by blast
  then show ?case using gone_step [OF step(2)] by fastforce
qed simp

end
