(* ===== verification/CodedClaims.thy ===== *)
theory CodedClaims
  imports CodedReceive CodedPath FecClaims
begin

text \<open>
  The coded path from end to end: what the receiver hands up of the sender's frames, how its datagrams are
  numbered, what it keeps whatever a peer sends, and two ways in which frames are lost for good.
\<close>

section \<open>What is handed up\<close>

lemma run_log:
  assumes "sendLoop ca n dec bs (new_sender q) = (res, s)" and "n \<le> 65000"
  obtains as its where "sender_log (range (symbolPayload ca n)) (set (concat bs)) as its s" "sSymbols s = length as"
proof -
  let ?Ls = "range (symbolPayload ca n)" and ?F = "set (concat bs)"
  have Ls: "rooms_ok ?Ls" using payload_room [of ca n] payload_small [OF assms(2), of ca] by (auto simp: rooms_ok_def)
  obtain as its where "sender_log ?Ls ?F ([] @ as) its s"
    using sendLoop_log [OF order_refl Ls new_sender_log new_sender_packed order_refl assms(1)] by blast
  then show thesis using that [of as its] by (simp add: sender_log_def)
qed

text \<open>C37. Whatever frames are given to the path, whatever code it chooses and whatever the carrier refuses or
  claims of its size: whichever of the datagrams it accepted arrive, every frame the receiver hands up is
  one of those given to it, byte for byte, unless a frame's length lay within four bytes below the room of
  a symbol; of such a frame only what the parser makes of its own bytes can be handed up. No two frames
  are ever mixed.\<close>

theorem coded_frames_genuine:
  assumes "sendLoop ca n dec bs (new_sender q) = (res, s)" and "n \<le> 65000" and "sSymbols s \<le> 2 ^ 31"
    and "receiveLoop (nths (sWire s) A) new_receiver = (outs, r)" and "x \<in> set outs"
  shows "x \<in> set (concat bs) \<and> (\<exists>q. length x + 4 \<le> symbolPayload ca n q \<or> symbolPayload ca n q < length x) \<or>
    (\<exists>f \<in> set (concat bs). (\<exists>q. length f \<le> symbolPayload ca n q \<and> symbolPayload ca n q < length f + 4) \<and> x \<in> set (parseFrames f))"
proof -
  obtain as its where log: "sender_log (range (symbolPayload ca n)) (set (concat bs)) as its s" "sSymbols s = length as"
    by (rule run_log [OF assms(1,2)])
  have Ls: "rooms_ok (range (symbolPayload ca n))"
    using payload_room [of ca n] payload_small [OF assms(2), of ca] by (auto simp: rooms_ok_def)
  have "genuine (range (symbolPayload ca n)) (set (concat bs)) x"
    using wire_received [OF log(1) _ Ls assms(4)] log(2) assms(3,5) by auto
  then show ?thesis by (auto simp: genuine_def shares_def boundary_def)
qed

text \<open>C38. A frame within four bytes below the room of a symbol is never handed up: it is sent alone in a
  symbol that says it carries whole frames, and its first four bytes are taken for a length. Sending it
  again changes nothing while the room stays the same.\<close>

theorem coded_boundary_frame_lost:
  assumes "sendLoop ca n dec bs (new_sender q) = (res, s)" and "n \<le> 65000" and "sSymbols s \<le> 2 ^ 31"
    and "receiveLoop (nths (sWire s) A) new_receiver = (outs, r)"
    and "\<And>q. symbolPayload ca n q = room" and "length f \<le> room" and "room < length f + 4"
  shows "f \<notin> set outs"
proof
  assume "f \<in> set outs"
  from coded_frames_genuine [OF assms(1-4) this] obtain f' where
    f': "length f' \<le> room" "f \<in> set (parseFrames f')" using assms(5-7) by auto
  then have "length f + 4 \<le> room" using parseFrames_shorter [OF f'(2)] by simp
  then show False using assms(7) by simp
qed

section \<open>Numbering\<close>

text \<open>The datagrams the carrier accepted are numbered 0, 1, 2 and so on without a gap, whatever it refused
  in between, so every gap the peer sees was made on the wire.\<close>

theorem coded_numbering_gapless:
  assumes "sendLoop ca n dec bs (new_sender q) = (res, s)" and "n \<le> 65000" and "i < length (sWire s)"
  shows "get_u32 (sWire s ! i) = word_of_nat i"
proof -
  obtain as its where log: "sender_log (range (symbolPayload ca n)) (set (concat bs)) as its s"
    by (rule run_log [OF assms(1,2)])
  then have "sWire s ! i = item_bytes (word_of_nat i) (its ! i)" using assms(3) by (simp add: sender_log_def wire_of_def)
  then show ?thesis by (cases "its ! i") (simp_all add: repair_datagram_def)
qed

section \<open>The send loop ends\<close>

lemma too_large_append:
  assumes "sPacked s = []" and "256 * symbolPayload ca n (sCarrier s) < length f"
  shows "appendFrame ca n dec f s = (Some FrameTooLarge, s)"
proof -
  let ?l = "symbolPayload ca n (sCarrier s)"
  have l: "5 \<le> ?l" by (rule payload_room)
  have "257 * ?l \<le> length f + ?l - 1" using assms(2) l by simp
  then have "257 * ?l div ?l \<le> (length f + ?l - 1) div ?l" by (rule div_le_mono)
  then have "256 < (length f + ?l - 1) div ?l" using l by simp
  moreover have "?l < frameHeader + length f" using assms(2) l by simp
  ultimately show ?thesis using assms(1)
    by (simp add: appendFrame_def flushPacked_def sendFragments_def maxSymbolParts_def MaxRepairWindow_def Let_def)
qed

lemma Send_open:
  "\<not> path_done p \<Longrightarrow> length g \<le> maxFrameBytes \<Longrightarrow> Send cap g p = (if length (pPending p) < cap
     then (SendOk, p\<lparr>pPending := pPending p @ [g], pAccepted := pAccepted p @ [g]\<rparr>) else (SendBlocks, p))"
  by (simp add: Send_def)

text \<open>C39. In any run of a path, when the send loop waits for work and the path is open, \<^verbatim>\<open>Send\<close> accepts a frame of at most
  1 MiB that needs more than 256 symbols. The loop's next turn takes it and returns, without adding an error and
  without closing the path. Whatever happens afterwards, the loop stays gone and nothing is given to the carrier any more:
  every frame accepted after that one stays in the queue. As long as nobody else closes the path, \<^verbatim>\<open>Send\<close> goes on accepting
  frames without an error until the queue is full, and from then on blocks.\<close>

theorem coded_send_loop_ends:
  assumes "path_reach ca n dec cap q p" and "pLoop p = Waiting" and "pPending p = []" and "\<not> path_done p" and "0 < cap"
    and "256 * symbolPayload ca n (sCarrier (pSender p)) < length f" and "length f \<le> maxFrameBytes"
  shows "\<exists>p1 p2. Send cap f p = (SendOk, p1) \<and> (\<forall>stop. loop_turn ca n dec stop p1 = Some p2) \<and> pLoop p2 = Gone \<and> \<not> path_done p2 \<and>
    sErr (pSender p2) = sErr (pSender p) \<and> pErr p2 = (if pErr p = None then sErr (pSender p) else pErr p) \<and>
    (\<forall>p'. (path_step ca n dec cap)\<^sup>*\<^sup>* p2 p' \<longrightarrow>
      pLoop p' = Gone \<and> sWire (pSender p') = sWire (pSender p) \<and> pAccepted p' = pAccepted p @ [f] @ pPending p' \<and>
      (\<forall>g. \<not> path_done p' \<and> length g \<le> maxFrameBytes \<longrightarrow> Send cap g p' = (if length (pPending p') < cap
         then (SendOk, p'\<lparr>pPending := pPending p' @ [g], pAccepted := pAccepted p' @ [g]\<rparr>) else (SendBlocks, p'))))"
proof -
  let ?p1 = "p\<lparr>pPending := [f], pAccepted := pAccepted p @ [f]\<rparr>"
  let ?p2 = "ran Draining (Some FrameTooLarge, pSender p) (?p1\<lparr>pPending := []\<rparr>)"
  have send: "Send cap f p = (SendOk, ?p1)" using assms(3-5,7) by (simp add: Send_def)
  have "appendFrame ca n dec f (pSender p) = (Some FrameTooLarge, pSender p)"
    by (rule too_large_append [OF waiting_packed [OF assms(1,2)] assms(6)])
  then have turn: "loop_turn ca n dec stop ?p1 = Some ?p2" for stop
    using assms(2,4) by (simp add: loop_turn_def path_done_def)
  have p2: "pLoop ?p2 = Gone" "\<not> path_done ?p2" "pSender ?p2 = pSender p" "pPending ?p2 = []" "pAccepted ?p2 = pAccepted p @ [f]"
    "pErr ?p2 = (if pErr p = None then sErr (pSender p) else pErr p)"
    using assms(4) by (simp_all add: ran_def path_done_def)
  have later: "pLoop p' = Gone" "sWire (pSender p') = sWire (pSender p)" "pAccepted p' = pAccepted p @ [f] @ pPending p'"
    if "(path_step ca n dec cap)\<^sup>*\<^sup>* ?p2 p'" for p'
    using gone_for_good [OF that p2(1)] p2(3-5) by auto
  show ?thesis
  proof (rule exI [of _ ?p1], rule exI [of _ ?p2], intro conjI allI impI)
    show "Send cap f p = (SendOk, ?p1)" by (rule send)
    show "loop_turn ca n dec stop ?p1 = Some ?p2" for stop by (rule turn)
    show "sErr (pSender ?p2) = sErr (pSender p)" by (simp only: p2(3))
    show "pLoop ?p2 = Gone" "\<not> path_done ?p2" "pErr ?p2 = (if pErr p = None then sErr (pSender p) else pErr p)" by (fact p2)+
    fix p' assume r: "(path_step ca n dec cap)\<^sup>*\<^sup>* ?p2 p'"
    show "pLoop p' = Gone" "sWire (pSender p') = sWire (pSender p)" "pAccepted p' = pAccepted p @ [f] @ pPending p'" by (fact later [OF r])+
    fix g :: bytes assume "\<not> path_done p' \<and> length g \<le> maxFrameBytes"
    then show "Send cap g p' = (if length (pPending p') < cap
        then (SendOk, p'\<lparr>pPending := pPending p' @ [g], pAccepted := pAccepted p' @ [g]\<rparr>) else (SendBlocks, p'))"
      using Send_open by blast
  qed
qed

section \<open>Whatever a peer sends\<close>

definition group_bounded :: "group \<Rightarrow> bool" where
  "group_bounded g \<longleftrightarrow> 2 \<le> gCount g \<and> gCount g \<le> 256 \<and> length (gParts g) \<le> gCount g \<and> gHeld g < gCount g"

definition asm_bounded :: "assembler \<Rightarrow> bool" where
  "asm_bounded a \<longleftrightarrow> distinct (map fst (aGroups a)) \<and> length (aGroups a) \<le> 512 \<and> (\<forall>(first, g) \<in> set (aGroups a). group_bounded g)"

lemma filter_bounded: "asm_bounded a \<Longrightarrow> asm_bounded (a\<lparr>aGroups := filter P (aGroups a)\<rparr>)"
  by (auto simp: asm_bounded_def distinct_map_filter intro: order_trans [OF length_filter_le])

lemma same_groups_bounded: "aGroups a' = aGroups a \<Longrightarrow> asm_bounded a \<Longrightarrow> asm_bounded a'"
  by (simp add: asm_bounded_def)

lemma note_bounded: "asm_bounded a \<Longrightarrow> asm_bounded (note_symbol esi a)"
  using filter_bounded [of "a\<lparr>aHigh := esi\<rparr>"] same_groups_bounded [of "a\<lparr>aHigh := esi\<rparr>" a]
    same_groups_bounded [of "a\<lparr>aSeen := True, aHigh := esi\<rparr>" a]
  by (auto simp: note_symbol_def prune_def)

lemma lost_bounded:
  assumes "asm_bounded a"
  shows "asm_bounded (lost esi a)"
proof -
  let ?a = "(note_symbol esi a)\<lparr>aLost := aLost (note_symbol esi a) + 1\<rparr>"
  have "asm_bounded ?a" using note_bounded [OF assms] same_groups_bounded [of ?a "note_symbol esi a"] by simp
  from filter_bounded [OF this] show ?thesis by (simp add: lost_def Let_def)
qed

lemma delete_bounded: "asm_bounded a \<Longrightarrow> asm_bounded (a\<lparr>aGroups := AList.delete first (aGroups a)\<rparr>)"
  by (simp add: AList.delete_eq filter_bounded)

lemma oldest_there: "gs \<noteq> [] \<or> acc \<noteq> None \<Longrightarrow> \<exists>first d. oldest_group high gs acc = Some (first, d) \<and>
    (first \<in> fst ` set gs \<or> acc = Some (first, d))"
proof (induction gs arbitrary: acc)
  case (Cons g gs)
  obtain first gr where g: "g = (first, gr)" by fastforce
  let ?acc = "case acc of None \<Rightarrow> Some (first, sint (high - first)) | Some (_, d) \<Rightarrow> if sint (high - first) > d then Some (first, sint (high - first)) else acc"
  have "?acc \<noteq> None" by (auto split: option.splits)
  from Cons.IH [OF disjI2, OF this] show ?case by (auto simp: g Let_def image_iff split: option.splits if_splits) fastforce+
qed auto

lemma drop_oldest_bounded:
  assumes "asm_bounded a"
  shows "asm_bounded (dropOldestGroupLocked a)" and "aGroups a \<noteq> [] \<Longrightarrow> length (aGroups (dropOldestGroupLocked a)) < length (aGroups a)"
proof -
  show "asm_bounded (dropOldestGroupLocked a)" using assms by (auto simp: dropOldestGroupLocked_def delete_bounded split: option.splits)
  assume "aGroups a \<noteq> []"
  then obtain first d where o: "oldest_group (aHigh a) (aGroups a) None = Some (first, d)" "first \<in> fst ` set (aGroups a)"
    using oldest_there [of "aGroups a" None "aHigh a"] by auto
  have "length (filter (\<lambda>(k, v). first \<noteq> k) (aGroups a)) < length (aGroups a)"
    using o(2) by (auto intro: length_filter_less)
  then show "length (aGroups (dropOldestGroupLocked a)) < length (aGroups a)"
    using o(1) by (simp add: dropOldestGroupLocked_def AList.delete_eq)
qed

lemma length_update: "length (AList.update k v al) = (if k \<in> fst ` set al then length al else Suc (length al))"
proof -
  have "length (AList.update k v al) = length (map fst (AList.update k v al))" by simp
  then show ?thesis unfolding AList.update_keys by simp
qed

lemma set_update: "(k', v') \<in> set (AList.update k v al) \<Longrightarrow> (k', v') = (k, v) \<or> (k', v') \<in> set al"
  by (induction al) (auto split: if_splits)

lemma put_bounded:
  assumes "asm_bounded a" and "group_bounded g" and "first \<in> fst ` set (aGroups a) \<or> length (aGroups a) < 512"
  shows "asm_bounded (a\<lparr>aGroups := AList.update first g (aGroups a)\<rparr>)"
  using assms by (auto simp: asm_bounded_def AList.distinct_update length_update dest!: set_update)

lemma find_group_bounded:
  assumes a: "asm_bounded a" and c: "2 \<le> count" "count \<le> 256" and f: "find_group first count a = (g, a')"
  shows "asm_bounded a' \<and> group_bounded g \<and> first \<in> fst ` set (aGroups a')"
proof (cases "map_of (aGroups a) first")
  case None
  let ?g = "\<lparr>gParts = [], gCount = count, gHeld = 0, gBytes = 0\<rparr>"
  let ?a = "if length (aGroups a) \<ge> assemblerMaxGroups then dropOldestGroupLocked a else a"
  have g: "group_bounded ?g" using c by (simp add: group_bounded_def)
  have "length (aGroups ?a) < 512"
  proof (cases "length (aGroups a) \<ge> 512")
    case True
    then have "aGroups a \<noteq> []" "length (aGroups a) = 512" using a by (auto simp: asm_bounded_def)
    then show ?thesis using drop_oldest_bounded(2) [OF a] True by (simp add: assemblerMaxGroups_def MaxRepairWindow_def)
  qed (simp add: assemblerMaxGroups_def MaxRepairWindow_def)
  moreover have "asm_bounded ?a" using a drop_oldest_bounded(1) by simp
  moreover have "first \<in> fst ` set (AList.update first ?g xs)" for xs by (simp add: AList.dom_update)
  ultimately show ?thesis using f None g put_bounded [of ?a ?g first]
    by (auto simp: find_group_def Let_def split del: if_split)
next
  case (Some g0)
  then have "(first, g0) \<in> set (aGroups a)" by (rule map_of_SomeD)
  then show ?thesis using f a Some by (force simp: find_group_def asm_bounded_def)
qed

lemma arrived_bounded:
  assumes "asm_bounded a" and "arrived esi v a = (out, a')"
  shows "asm_bounded a'"
proof -
  let ?a = "note_symbol esi a"
  have a1: "asm_bounded ?a" by (rule note_bounded [OF assms(1)])
  consider "a' = ?a" | pl i c where "parseSymbol v = Some (pl, i, c)" "c \<noteq> 1" "arrived_part esi pl i c ?a = (out, a')"
    using assms(2) by (auto simp: arrived_def Let_def split: option.splits prod.splits if_splits)
  then show ?thesis
  proof cases
    case 2
    then have c: "2 \<le> c" "c \<le> 256" "i < c"
      by (auto simp: parseSymbol_def Let_def maxSymbolParts_def MaxRepairWindow_def split: if_splits)
    let ?first = "esi - word_of_nat i"
    obtain g a2 where f: "find_group ?first c ?a = (g, a2)" by fastforce
    have fg: "asm_bounded a2" "group_bounded g" "?first \<in> fst ` set (aGroups a2)"
      using find_group_bounded [OF a1 c(1,2) f] by auto
    show ?thesis
    proof (cases "aSeen ?a \<and> stale (aHigh ?a) ?first c")
      case True
      then show ?thesis using 2(3) a1 same_groups_bounded [of "?a\<lparr>aStale := aStale ?a + 1\<rparr>" ?a] by (auto simp: arrived_part_def Let_def)
    next
      case fresh: False
      show ?thesis
      proof (cases "i \<ge> gCount g \<or> i < length (gParts g) \<and> gParts g ! i \<noteq> None")
        case True
        then show ?thesis using 2(3) fresh f fg(1) by (auto simp: arrived_part_def Let_def)
      next
        case False
        let ?g = "store_part i pl g"
        have count: "gCount ?g = gCount g" "length (gParts ?g) \<le> gCount ?g"
          using False fg(2) by (auto simp: store_part_def Let_def group_bounded_def)
        show ?thesis
        proof (cases "gHeld ?g < gCount ?g")
          case True
          then have "group_bounded ?g" using fg(2) count by (simp add: group_bounded_def)
          then have "asm_bounded (a2\<lparr>aGroups := AList.update ?first ?g (aGroups a2)\<rparr>)" by (rule put_bounded [OF fg(1) _ disjI1 [OF fg(3)]])
          then show ?thesis using 2(3) fresh f False True by (auto simp: arrived_part_def Let_def)
        next
          case full: False
          then show ?thesis using delete_bounded [OF fg(1)] 2(3) fresh f False by (auto simp: arrived_part_def Let_def)
        qed
      qed
    qed
  qed (use a1 in simp)
qed

lemma deliver_bounded:
  assumes "asm_bounded a" and "deliver delivered a = (out, a')"
  shows "asm_bounded a'"
proof -
  have all: "asm_bounded b \<Longrightarrow> arrived_all xs b = (out, b') \<Longrightarrow> asm_bounded b'" for xs b b' out
    by (induction xs arbitrary: b b' out) (auto split: prod.splits dest: arrived_bounded)
  have losts: "asm_bounded b \<Longrightarrow> asm_bounded (fold lost es b)" for es b
    by (induction es arbitrary: b) (simp_all add: lost_bounded)
  show ?thesis using assms all losts by (auto simp: deliver_def split: prod.splits)
qed

definition receiver_bounded :: "receiver \<Rightarrow> bool" where
  "receiver_bounded r \<longleftrightarrow> asm_bounded (rAssembler r) \<and> width_ok (rDecoder r)"

lemma datagram_bounded:
  assumes "receiver_bounded r" and "onDatagram d r = (out, r')"
  shows "receiver_bounded r'"
proof -
  have a: "asm_bounded (rAssembler r)" and w: "width_ok (rDecoder r)" using assms(1) by (simp_all add: receiver_bounded_def)
  have src: "width_ok dec" if "dec_Source esi v (rDecoder r) = (dec, del)" for esi v dec del
    using receive_width [OF w, of "GotSource esi v"] that by simp
  have rep: "width_ok dec" if "dec_Repair rp (rDecoder r) = (dec, del)" for rp dec del
    using receive_width [OF w, of "GotRepair rp"] that by simp
  consider "rDecoder r' = rDecoder r" "rAssembler r' = rAssembler r"
    | esi v dec del own a1 fs where "dec_Source esi v (rDecoder r) = (dec, del)" "arrived esi v (rAssembler r) = (own, a1)"
      "deliver del a1 = (fs, rAssembler r')" "rDecoder r' = dec"
    | rp dec del fs where "dec_Repair rp (rDecoder r) = (dec, del)" "deliver del (rAssembler r) = (fs, rAssembler r')" "rDecoder r' = dec"
    using assms(2) unfolding onDatagram_def Let_def
    by (auto split: if_splits prod.splits)
  then show ?thesis
  proof cases
    case 2
    have "asm_bounded (rAssembler r')" by (rule deliver_bounded [OF arrived_bounded [OF a 2(2)] 2(3)])
    then show ?thesis using src [OF 2(1)] 2(4) by (simp add: receiver_bounded_def)
  next
    case 3
    then show ?thesis using rep deliver_bounded [OF a] by (auto simp: receiver_bounded_def)
  qed (use a w in \<open>simp add: receiver_bounded_def\<close>)
qed

lemma new_receiver_bounded: "receiver_bounded new_receiver"
  using width_new by (simp add: receiver_bounded_def new_receiver_def new_assembler_def asm_bounded_def)

lemma loop_bounded: "receiver_bounded r \<Longrightarrow> receiveLoop ds r = (outs, r') \<Longrightarrow> receiver_bounded r'"
  by (induction ds arbitrary: r outs) (auto split: prod.splits dest: datagram_bounded)

text \<open>C40. Whatever datagrams a peer sends: the receiver keeps at most 512 incomplete frames, each with room for
  at most 256 fragments and short of at least one, and a decoder of 512 slots whose rows have 512
  coefficients.\<close>

theorem coded_receiver_bounded:
  "length (aGroups (rAssembler (snd (receiveLoop ds new_receiver)))) \<le> assemblerMaxGroups \<and>
   list_all (\<lambda>(first, g). 2 \<le> gCount g \<and> gCount g \<le> maxSymbolParts \<and> length (gParts g) \<le> gCount g \<and> gHeld g < gCount g)
     (aGroups (rAssembler (snd (receiveLoop ds new_receiver)))) \<and>
   distinct (map fst (aGroups (rAssembler (snd (receiveLoop ds new_receiver))))) \<and>
   Width (rDecoder (snd (receiveLoop ds new_receiver))) = MinDecoderWidth \<and>
   list_all (\<lambda>row. length (wCoef row) = MinDecoderWidth) (dRows (rDecoder (snd (receiveLoop ds new_receiver))))"
proof -
  obtain outs r where r: "receiveLoop ds new_receiver = (outs, r)" by fastforce
  have "receiver_bounded r" by (rule loop_bounded [OF new_receiver_bounded r])
  then show ?thesis
    by (auto simp: r receiver_bounded_def asm_bounded_def group_bounded_def width_ok_def list_all_iff Width_def
      assemblerMaxGroups_def maxSymbolParts_def MinDecoderWidth_def MaxRepairWindow_def)
qed

section \<open>A small path\<close>

text \<open>A carrier that accepts everything, datagrams of 26 bytes, which leave a room of 5, and no repairs.\<close>

definition open_carrier :: "(unit, unit) carrier" where
  "open_carrier = \<lparr>carry = \<lambda>q d. (Accepted, q), limit = \<lambda>_. None, isEOF = \<lambda>_. False\<rparr>"

definition no_repairs :: decisions where
  "no_repairs = \<lparr>window = \<lambda>_. 16, earned = \<lambda>_. 0, tailRepairs = \<lambda>_ _. 0\<rparr>"

definition small_sender :: "bytes list list \<Rightarrow> (unit, unit) sender" where
  "small_sender bs = snd (sendLoop open_carrier 26 no_repairs bs (new_sender ()))"

lemma small_room: "symbolPayload open_carrier 26 q = 5"
  by (simp add: symbolPayload_def symbolBytes_def default_bytes_def open_carrier_def cfg_defs)

lemma open_simps [simp]: "carry open_carrier q d = (Accepted, q)" "window no_repairs k = 16" "earned no_repairs k = 0" "tailRepairs no_repairs k b = 0"
  by (simp_all add: open_carrier_def no_repairs_def)

lemma protected: "want \<le> sBurstRepairs s \<Longrightarrow> protect_loop ca want s = (None, s)"
  by (simp add: protect_loop.simps [of ca want s])

lemmas send_defs = send_batch_def appendFrame_def flushPacked_def emit_def sendSource_def take_seq_def put_def protectBurst_def
  protected Add_def Let_def frameHeader_def small_room

lemma small_encoder: "eNext (NewWindowEncoder initialWindow) = 0" "eNext (SetCapacity c e) = eNext e"
  by (simp_all add: NewWindowEncoder_def SetCapacity_def Let_def)

lemma packed_frame_not_Nil [simp]: "packed_frame f \<noteq> []"
  using length_packed_frame [of f] by (metis add_is_0 list.size(3) zero_neq_numeral)

lemma small_run:
  assumes "length f \<le> 1"
  shows "sWire (small_sender [[f]]) = [item_bytes 0 (SourceItem 0 (vector_of (Packed [f])))]" and "sSymbols (small_sender [[f]]) = 1"
  using assms by (simp_all add: small_sender_def send_defs new_sender_def small_encoder vector_of_def)

lemma small_result: "sendLoop open_carrier 26 no_repairs bs (new_sender ()) = (fst (sendLoop open_carrier 26 no_repairs bs (new_sender ())), small_sender bs)"
  by (simp add: small_sender_def)

lemma small_received:
  "\<exists>outs r. receiveLoop (sWire (small_sender [[[7]]])) new_receiver = (outs, r) \<and> [7] \<in> set outs"
proof -
  let ?v = "vector_of (Packed [[7]])"
  have v: "length ?v \<ge> 6" "unat (get_u16 (drop 4 ?v)) \<le> 256" by (simp_all add: vector_of_def symbol_vector_def)
  have "parseSymbol ?v = Some (pack [[7]], 0, 1)" by (simp add: vector_of_def parse_exact)
  moreover have "parseFrames (pack [[7]]) = [[7]]" by (rule parseFrames_pack) simp
  ultimately have "fst (arrived 0 ?v a) = [[7]]" for a by (simp add: arrived_def Let_def)
  then have "[7] \<in> set (fst (onDatagram (item_bytes 0 (SourceItem 0 ?v)) new_receiver))"
    unfolding source_datagram [OF v] by (auto simp: split_beta)
  then show ?thesis unfolding small_run(1) [of "[7]", simplified]
    by (cases "onDatagram (item_bytes 0 (SourceItem 0 ?v)) new_receiver") auto
qed

theorem coded_frames_genuine_witness:
  "\<exists>outs r. receiveLoop (nths (sWire (small_sender [[[7]]])) UNIV) new_receiver = (outs, r) \<and> [7] \<in> set outs \<and> [7] \<in> set (concat [[[7 :: byte]]])"
proof -
  obtain outs r where o: "receiveLoop (nths (sWire (small_sender [[[7]]])) UNIV) new_receiver = (outs, r)" "[7] \<in> set outs"
    using small_received by (auto simp: nths_all)
  have n: "sSymbols (small_sender [[[7]]]) \<le> 2 ^ 31" using small_run(2) [of "[7]"] by simp
  have "[7] \<in> set (concat [[[7 :: byte]]])"
    using coded_frames_genuine [OF small_result _ n o] by (auto simp: small_room)
  with o show ?thesis by blast
qed

theorem coded_boundary_frame_lost_witness:
  "[1, 2, 3] \<notin> set (fst (receiveLoop (nths (sWire (small_sender [[[1, 2, 3]]])) UNIV) new_receiver))"
proof -
  have "sSymbols (small_sender [[[1, 2, 3]]]) = 1"
    by (simp add: small_sender_def send_defs new_sender_def small_encoder sendFragments_def maxSymbolParts_def MaxRepairWindow_def)
  then have "sSymbols (small_sender [[[1, 2, 3]]]) \<le> 2 ^ 31" by simp
  from coded_boundary_frame_lost [OF small_result _ this prod.collapse [symmetric] small_room, of "[1, 2, 3]" UNIV] show ?thesis by simp
qed

theorem coded_numbering_gapless_witness:
  "get_u32 (sWire (small_sender [[[7]]]) ! 0) = word_of_nat 0"
  by (rule coded_numbering_gapless [OF small_result]) (simp_all add: small_run)

theorem coded_send_loop_ends_witness:
  "\<exists>p1 p2. Send 2 (replicate 1281 0) (new_path () :: (unit, unit) path) = (SendOk, p1) \<and>
    loop_turn open_carrier 26 no_repairs True p1 = Some p2 \<and> pLoop p2 = Gone \<and> \<not> path_done p2"
proof -
  let ?p = "new_path () :: (unit, unit) path"
  have "path_reach open_carrier 26 no_repairs 2 () ?p" "pLoop ?p = Waiting" "pPending ?p = []" "\<not> path_done ?p" "(0 :: nat) < 2"
    by (simp_all add: path_reach_def new_path_def path_done_def new_sender_def)
  moreover have "256 * symbolPayload open_carrier 26 (sCarrier (pSender ?p)) < length (replicate 1281 (0 :: byte))"
    "length (replicate 1281 (0 :: byte)) \<le> maxFrameBytes"
    by (simp_all add: small_room maxFrameBytes_def new_path_def new_sender_def)
  ultimately show ?thesis using coded_send_loop_ends [of open_carrier 26 no_repairs 2 "()" ?p "replicate 1281 0"] by blast
qed

end
