(* ===== verification/Spec2Isabelle.thy ===== *)
theory Spec2Isabelle
  imports Frame Memlimit Reassembly AckTrack StripeClaims FecRepair HyClaims Hy2Claims TuicAuth SamplerClaims
    GeckoClaims FlowMemory InboundQueue Pipe CodedClaims
begin

text \<open>
  Verification of the protocol core of sing-quic: proxy protocols over QUIC (hysteria, hysteria2, tuic) and
  queqiao, a transport that stripes one byte stream over several connections and repairs losses with an
  erasure code.

  \<^bold>\<open>The program.\<close> A client and a server of one of the three proxy protocols share a QUIC connection. TCP
  requests travel on streams of it, opened by a small control message; UDP packets travel in datagrams, cut
  into fragments where they exceed one. Below hysteria2 a packet connection may be obfuscated
  (\<^verbatim>\<open>salamander.go\<close>) and its handshake cut up (\<^verbatim>\<open>gecko.go\<close>); \<^verbatim>\<open>xplus.go\<close> is the obfuscation of hysteria. The
  congestion controllers rest on a queue of packets in flight, a windowed filter and a bandwidth sampler.
  In queqiao an application's bytes pass a pipe, are cut into chunks by a scheduler that lets every lane take
  work when it has room, and travel as frames, on a stream or over the coded datagram path. The receiver
  reassembles them and reports what it holds; the sender's tracker turns the reports into completed
  chunks. Budgets shared by all flows bound the memory of both sides.

  \<^bold>\<open>Foundations.\<close> \<open>Prelude\<close> has the machine types (Go's fixed-width integers are words, \<^verbatim>\<open>int\<close> is \<open>int\<close> where it
  cannot overflow), the big-endian encoders, readers, result type, panics as values, and lists used as Go
  slices. \<open>Spans\<close> has half-open byte ranges. \<open>Wire\<close> has the readers of the proxy messages. An error, a panic
  and an early return of the source are values in the model; a Go map is an association list or a
  function, and where its order of iteration could matter that order is an argument. A goroutine's
  section under a lock, or one select, is one step; runs are inductive relations over such steps.

  \<^bold>\<open>Queqiao.\<close>
  \<^item> \<open>Frame\<close>: \<^verbatim>\<open>internal/protocol/frame.go\<close>. Header and payload of a frame, acknowledgement ranges; decoding
    accepts exactly what encoding produces.
  \<^item> \<open>Memlimit\<close>: \<^verbatim>\<open>internal/memlimit/budget.go\<close>, the shared byte budget, with the interfaces \<open>byte_meter\<close> and
    \<open>byte_budget\<close> that its clients (reassembly, scheduler, backlog) are proved against.
  \<^item> \<open>Reassembly\<close>: \<^verbatim>\<open>internal/multipath/reassembly.go\<close>. Delivery in order and once, limits, faithful reports.
  \<^item> \<open>AckTrack\<close>: \<^verbatim>\<open>internal/pep/acktrack.go\<close>, refined to the set of acknowledged bytes.
  \<^item> \<open>Stripe\<close>, \<open>StripeInv\<close>, \<open>StripeRun\<close>, \<open>StripeSystem\<close>, \<open>StripeClaims\<close>: \<^verbatim>\<open>internal/stripe/stripe.go\<close>. A heap of
    chunks shared by the queue, the lanes and the attempts in flight; the invariant; the scheduler beside
    its producer, lanes, acknowledgements and timers; conservation of the stream, exactness of Done, progress.
  \<^item> \<open>Gf256\<close>, \<open>Fec\<close>, \<open>FecLin\<close>, \<open>FecInv\<close>, \<open>FecAdmit\<close>, \<open>FecDecode\<close>, \<open>FecEncode\<close>, \<open>FecChannel\<close>, \<open>FecClaims\<close>,
    \<open>FecRepair\<close>: \<^verbatim>\<open>internal/fec/gf.go\<close> and \<^verbatim>\<open>window.go\<close>. The field of bytes as the code's tables compute it,
    encoder and decoder; every row of the decoder is a true equation about what was sent.
  \<^item> \<open>Coded\<close>, \<open>CodedSend\<close>, \<open>CodedPath\<close>, \<open>CodedReceive\<close>, \<open>CodedClaims\<close>: \<^verbatim>\<open>internal/coded/coded.go\<close>. Packing of frames
    into symbols, fragments, datagrams, repairs, refusals by the carrier, the assembler. It runs the code of \<open>Fec\<close>,
    and its properties rest on the erasure code's. \<open>CodedPath\<close> puts the queues, \<^verbatim>\<open>Send\<close>, \<^verbatim>\<open>Receive\<close> and the two goroutines
    around it, one turn at a time.
  \<^item> \<open>FlowMemory\<close>, \<open>InboundQueue\<close>, \<open>Pipe\<close>: \<^verbatim>\<open>memory.go\<close>, \<^verbatim>\<open>inbound_queue.go\<close> and \<^verbatim>\<open>pipe.go\<close> of \<^verbatim>\<open>internal/pep\<close>.

  \<^bold>\<open>Proxy protocols.\<close>
  \<^item> \<open>HyProtocol\<close>, \<open>Hy2Protocol\<close>: the control messages of \<^verbatim>\<open>hysteria/protocol.go\<close> and of
    \<^verbatim>\<open>hysteria2/internal/protocol\<close>.
  \<^item> \<open>UdpFrag\<close> has what the three copies of the UDP relay share; \<open>HyPacket\<close>, \<open>Hy2Packet\<close> and \<open>TuicPacket\<close> are the
    relays of \<^verbatim>\<open>packet.go\<close>, \<^verbatim>\<open>client_packet.go\<close> and \<^verbatim>\<open>service_packet.go\<close> in each package. The locales of \<open>Defrag\<close>,
    \<open>Relay\<close> and \<open>RelayReceive\<close> state what a table of fragments, a sender and a dispatcher promise; their theorems
    are proved once, and \<open>HyUdp\<close>, \<open>Hy2Udp\<close> and \<open>TuicUdp\<close> interpret them. \<open>HyClaims\<close>, \<open>Hy2Claims\<close> and \<open>TuicClaims\<close>
    hold the properties.
  \<^item> \<open>TuicService\<close>, \<open>TuicAuth\<close>: a connection at a tuic server, \<^verbatim>\<open>tuic/service.go\<close>, and who may use it.
  \<^item> \<open>Obfs\<close>: \<^verbatim>\<open>hysteria2/salamander.go\<close> and \<^verbatim>\<open>hysteria/xplus.go\<close>. \<open>Gecko\<close>, \<open>GeckoInv\<close>, \<open>GeckoDeliver\<close>, \<open>GeckoFrames\<close>,
    \<open>GeckoClaims\<close>: \<^verbatim>\<open>hysteria2/gecko.go\<close>, over \<open>Obfs\<close>.

  \<^bold>\<open>Congestion control.\<close> \<open>RingBuffer\<close>, \<open>PacketQueue\<close>, \<open>PacketMap\<close>, \<open>WindowedFilter\<close>, \<open>BandwidthSampler\<close>,
  \<open>SamplerInv\<close>, \<open>SamplerClaims\<close>: the data structures of \<^verbatim>\<open>congestion_meta2\<close>, refined layer by layer from a slice
  with wrapping ends to a finite map and to the sampler that uses it. Everything the sampler keeps is a moment of its
  run, and the rates it reports lie between such moments.

  \<^bold>\<open>Parameters and hypotheses.\<close> Code outside the repository is an argument: the QUIC connection (what it answers
  to a datagram, a carrier's limits), hash functions, random draws, clock readings, \<^verbatim>\<open>quicvarint\<close> (tied to the
  writer by \<open>varint_ok\<close>), sing's address serializer (its reader returns what its writer wrote, with a
  concrete serializer in the witnesses), caches that may evict at any time. Decisions the code takes in
  floating point (window sizes, numbers of repairs, pacing, retention) are arguments too, so the theorems
  hold for whatever they turn out to be.

  \<^bold>\<open>Termination and bounds.\<close> Loops are recursive functions with proved measures; the one loop that can run for
  ever, \<^verbatim>\<open>fragUDPMessage\<close> on a size equal to the header, is a partial function. No property is of the form \<open>if it returns\<close> alone: where a run can
  stop, that it goes on, or the bound on its steps, is a property of its own.

  \<^bold>\<open>Not modelled.\<close> Controllers, estimators and classifiers that compute in floating point; dialling, TLS, HTTP,
  STUN and connection pools; sockets and platform tables; metrics and traces; buffer pooling and the sharing
  of memory between packets where the code copies before use. The reasons are given per component in the
  manifest kept beside this library.
\<close>

end
